(* ===== verification/Prelude.thy ===== *)
theory Prelude
  imports Main "HOL-Library.Word"
begin

text \<open>
  What every component shares: the byte and machine-word types, the errors a
  C++ operation can end with and the result types built on them, the
  little-endian object representation of integers (x86 is the only target the
  code supports), and generic lemmas on lists, options and words.

  A result of type \<open>'a res\<close> is the value of an operation that always returns:
  \<open>Inl e\<close> when it leaves by the exception (or the failed assertion or the
  undefined behaviour) \<open>e\<close>.  A result of type \<open>'a outcome\<close> is the value of an
  operation with a loop that may not end: \<open>None\<close> when it never returns.
\<close>

section \<open>Types\<close>

type_synonym byte = "8 word"
type_synonym u16 = "16 word"
type_synonym u32 = "32 word"
type_synonym u64 = "64 word"
type_synonym i32 = "32 word"

datatype cxx_error =
    Runtime_error string
  | Out_of_range
  | Disconnect
  | Assertion_failed
  | Undefined_behaviour

type_synonym 'a res = "cxx_error + 'a"
type_synonym 'a outcome = "(cxx_error + 'a) option"

named_theorems word_arith \<open>facts on machine words at their width\<close>
named_theorems codec_simps \<open>evaluation of encoders and decoders\<close>

section \<open>Sequencing\<close>

definition ret :: "'a \<Rightarrow> 'a outcome" where
  "ret x = Some (Inr x)"

definition raise :: "cxx_error \<Rightarrow> 'a outcome" where
  "raise e = Some (Inl e)"

definition bind_res :: "'a res \<Rightarrow> ('a \<Rightarrow> 'b res) \<Rightarrow> 'b res" where
  "bind_res m k = (case m of Inl e \<Rightarrow> Inl e | Inr x \<Rightarrow> k x)"

definition bind_out :: "'a outcome \<Rightarrow> ('a \<Rightarrow> 'b outcome) \<Rightarrow> 'b outcome" where
  "bind_out m k = (case m of
      None \<Rightarrow> None
    | Some (Inl e) \<Rightarrow> Some (Inl e)
    | Some (Inr x) \<Rightarrow> k x)"

lemma bind_res_simps [simp]:
  "bind_res (Inl e) k = Inl e"
  "bind_res (Inr x) k = k x"
  by (simp_all add: bind_res_def)

lemma bind_out_simps [simp]:
  "bind_out None k = None"
  "bind_out (Some (Inl e)) k = Some (Inl e)"
  "bind_out (Some (Inr x)) k = k x"
  "bind_out (ret x) k = k x"
  "bind_out (raise e) k = raise e"
  by (simp_all add: bind_out_def ret_def raise_def)

lemma ret_inject [simp]: "ret x = ret y \<longleftrightarrow> x = y"
  by (simp add: ret_def)

lemma ret_not_raise [simp]: "ret x \<noteq> raise e" "raise e \<noteq> ret x"
  by (simp_all add: ret_def raise_def)

lemma ret_not_none [simp]: "ret x \<noteq> None" "None \<noteq> ret x" "raise e \<noteq> None"
  by (simp_all add: ret_def raise_def)

lemma bind_out_eq_ret:
  "bind_out m k = ret y \<longleftrightarrow> (\<exists>x. m = ret x \<and> k x = ret y)"
  by (auto simp: bind_out_def ret_def split: option.splits sum.splits)

lemma bind_res_eq_Inr:
  "bind_res m k = Inr y \<longleftrightarrow> (\<exists>x. m = Inr x \<and> k x = Inr y)"
  by (cases m) auto

section \<open>Lists\<close>

text \<open>\<open>std::find\<close> followed by \<open>vector::erase\<close> of the iterator found.\<close>

fun erase_first :: "('a \<Rightarrow> bool) \<Rightarrow> 'a list \<Rightarrow> 'a list" where
  "erase_first P [] = []"
| "erase_first P (x # xs) = (if P x then xs else x # erase_first P xs)"

lemma erase_first_none [simp]: "\<forall>x\<in>set xs. \<not> P x \<Longrightarrow> erase_first P xs = xs"
  by (induction xs) auto

lemma erase_first_split:
  "\<exists>x\<in>set xs. P x \<Longrightarrow>
   \<exists>us x vs. xs = us @ x # vs \<and> P x \<and> (\<forall>u\<in>set us. \<not> P u) \<and> erase_first P xs = us @ vs"
proof (induction xs)
  case (Cons a xs)
  show ?case
  proof (cases "P a")
    case True
    then show ?thesis by (intro exI [of _ "[]"]) auto
  next
    case False
    with Cons obtain us x vs where
      "xs = us @ x # vs" "P x" "\<forall>u\<in>set us. \<not> P u" "erase_first P xs = us @ vs" by auto
    with False show ?thesis by (intro exI [of _ "a # us"]) auto
  qed
qed simp

lemma set_erase_first_subset: "set (erase_first P xs) \<subseteq> set xs"
  by (induction xs) auto

lemma distinct_erase_first: "distinct xs \<Longrightarrow> distinct (erase_first P xs)"
  using set_erase_first_subset by (induction xs) fastforce+

lemma set_erase_first_eq:
  "distinct xs \<Longrightarrow> set (erase_first (\<lambda>y. y = x) xs) = set xs - {x}"
  by (induction xs) auto

lemma erase_first_map_fst:
  "map fst (erase_first (\<lambda>p. fst p = k) xs) = erase_first (\<lambda>x. x = k) (map fst xs)"
  by (induction xs) auto

lemma length_erase_first:
  "length (erase_first P xs) = (if \<exists>x\<in>set xs. P x then length xs - 1 else length xs)"
proof (induction xs)
  case (Cons a xs)
  then show ?case by (cases xs) auto
qed simp

lemma count_erase_first:
  "count_list (erase_first (\<lambda>y. y = x) xs) y = (if y = x then count_list xs y - 1 else count_list xs y)"
  by (induction xs) auto

lemma take_drop_mid: "n \<le> m \<Longrightarrow> take n xs @ drop n (take m xs) @ drop m xs = xs"
  by (metis append_assoc append_take_drop_id min.absorb1 take_take)

lemma map_upt_shift: "map f [a..<a + n] = map (\<lambda>k. f (a + k)) [0..<n]"
  by (rule nth_equalityI) simp_all

lemma concat_rows:
  "concat (map (\<lambda>y. map (\<lambda>x. f x y) [0..<nx]) [0..<ny]) = map (\<lambda>i. f (i mod nx) (i div nx)) [0..<ny * nx]"
proof (induction ny)
  case (Suc ny)
  have "map (\<lambda>i. f (i mod nx) (i div nx)) [ny * nx..<ny * nx + nx] =
      map (\<lambda>x. f ((ny * nx + x) mod nx) ((ny * nx + x) div nx)) [0..<nx]"
    by (rule map_upt_shift)
  also have "\<dots> = map (\<lambda>x. f x ny) [0..<nx]" by (rule map_cong) simp_all
  finally have "map (\<lambda>i. f (i mod nx) (i div nx)) [0..<ny * nx + nx] =
      map (\<lambda>i. f (i mod nx) (i div nx)) [0..<ny * nx] @ map (\<lambda>x. f x ny) [0..<nx]"
    using upt_add_eq_append [of 0 "ny * nx" nx] by simp
  with Suc.IH show ?case by (simp add: add.commute)
qed simp

section \<open>The object representation of unsigned integers\<close>

primrec le_bytes :: "nat \<Rightarrow> nat \<Rightarrow> byte list" where
  "le_bytes 0 v = []"
| "le_bytes (Suc n) v = word_of_nat v # le_bytes n (v div 256)"

primrec le_val :: "byte list \<Rightarrow> nat" where
  "le_val [] = 0"
| "le_val (b # bs) = unat b + 256 * le_val bs"

lemma length_le_bytes [simp]: "length (le_bytes n v) = n"
  by (induction n arbitrary: v) auto

lemma unat_byte_of_nat [word_arith]: "unat (word_of_nat v :: byte) = v mod 256"
  by (simp add: unat_of_nat)

lemma unat_less_byte [word_arith]: "unat (b :: byte) < 256"
  using unsigned_less [of b] by simp

lemma le_val_bytes: "le_val (le_bytes n v) = v mod 256 ^ n"
proof (induction n arbitrary: v)
  case (Suc n)
  have "v mod (256 * 256 ^ n) = 256 * (v div 256 mod 256 ^ n) + v mod 256"
    by (rule mod_mult2_eq)
  with Suc show ?case by (simp add: word_arith)
qed simp

lemma le_val_bytes_small [simp, codec_simps]: "v < 256 ^ n \<Longrightarrow> le_val (le_bytes n v) = v"
  by (simp add: le_val_bytes)

lemma le_val_less: "le_val bs < 256 ^ length bs"
proof (induction bs)
  case (Cons b bs)
  have "unat b < 256" using unat_less_byte by simp
  with Cons have "unat b + 256 * le_val bs < 256 * 256 ^ length bs" by linarith
  then show ?case by simp
qed simp

lemma le_bytes_val: "length bs = n \<Longrightarrow> le_bytes n (le_val bs) = bs"
proof (induction bs arbitrary: n)
  case (Cons b bs)
  have "unat b < 256" using unat_less_byte by simp
  then have "(unat b + 256 * le_val bs) div 256 = le_val bs" by simp
  moreover have "(word_of_nat (unat b + 256 * le_val bs) :: byte) = b"
    by (rule word_unat_eq_iff [THEN iffD2]) (simp add: word_arith \<open>unat b < 256\<close> del: of_nat_add)
  ultimately show ?case using Cons by auto
qed simp

lemma le_bytes_inject: "v < 256 ^ n \<Longrightarrow> w < 256 ^ n \<Longrightarrow> le_bytes n v = le_bytes n w \<longleftrightarrow> v = w"
  by (metis le_val_bytes_small)

end
