(* ===== verification/Streams.thy ===== *)
theory Streams
  imports Prelude
begin

text \<open>
  The byte streams of \<open>ospcommon/networking\<close>: \<open>BufferedWriteStream\<close> and
  \<open>BufferedReadStream\<close> over an abstract \<open>Fabric\<close> (one state for the link with
  both of its ends), and the two interfaces they are stated with.  The locale
  \<open>fabric\<close> is what the class comment of \<open>Fabric\<close> promises (\<open>send\<close> delivers all
  bytes, \<open>read\<close> returns some block of what was sent); the locale \<open>read_stream\<close> is
  what a decoder needs of a \<open>ReadStream\<close>, and every fabric gives one.
\<close>

section \<open>The write stream\<close>

text \<open>\<open>obuf\<close> is the filled part of \<open>buffer\<close>: its length is \<open>numInBuffer\<close>.\<close>

record wstream =
  wbuf :: "byte list"
  maxBufferSize :: nat

definition BufferedWriteStream :: "nat \<Rightarrow> wstream" where
  "BufferedWriteStream sz = \<lparr>wbuf = [], maxBufferSize = sz\<rparr>"

type_synonym 'f sender = "byte list \<Rightarrow> 'f \<Rightarrow> 'f outcome"
type_synonym 'f receiver = "'f \<Rightarrow> (byte list \<times> 'f) outcome"

definition bws_flush :: "'f sender \<Rightarrow> wstream \<Rightarrow> 'f \<Rightarrow> (wstream \<times> 'f) outcome" where
  "bws_flush fsend w f =
     (if wbuf w \<noteq> []
      then bind_out (fsend (wbuf w) f) (\<lambda>f'. ret (w\<lparr>wbuf := []\<rparr>, f'))
      else ret (w\<lparr>wbuf := []\<rparr>, f))"

partial_function (option) bws_write ::
  "'f sender \<Rightarrow> byte list \<Rightarrow> wstream \<Rightarrow> 'f \<Rightarrow> (wstream \<times> 'f) outcome" where
  "bws_write fsend mem w f =
     (if mem = [] then ret (w, f)
      else let n = min (length mem) (maxBufferSize w - length (wbuf w));
               w1 = w\<lparr>wbuf := wbuf w @ take n mem\<rparr>
           in if length (wbuf w1) = maxBufferSize w1
              then (case bws_flush fsend w1 f of
                      None \<Rightarrow> None
                    | Some (Inl e) \<Rightarrow> Some (Inl e)
                    | Some (Inr (w2, f2)) \<Rightarrow> bws_write fsend (drop n mem) w2 f2)
              else bws_write fsend (drop n mem) w1 f)"

lemma bws_write_Nil [simp]: "bws_write fsend [] w f = ret (w, f)"
  by (simp add: bws_write.simps)

lemma bws_write_full:
  assumes "mem \<noteq> []"
    and "n = min (length mem) (maxBufferSize w - length (wbuf w))"
    and "w1 = w\<lparr>wbuf := wbuf w @ take n mem\<rparr>"
    and "length (wbuf w1) = maxBufferSize w"
  shows "bws_write fsend mem w f =
     bind_out (bws_flush fsend w1 f) (\<lambda>(w2, f2). bws_write fsend (drop n mem) w2 f2)"
  using assms by (subst bws_write.simps) (auto simp: Let_def bind_out_def split: option.splits sum.splits)

lemma bws_write_room:
  assumes "mem \<noteq> []"
    and "n = min (length mem) (maxBufferSize w - length (wbuf w))"
    and "w1 = w\<lparr>wbuf := wbuf w @ take n mem\<rparr>"
    and "length (wbuf w1) \<noteq> maxBufferSize w"
  shows "bws_write fsend mem w f = bws_write fsend (drop n mem) w1 f"
  using assms by (subst bws_write.simps) (auto simp: Let_def)

text \<open>With no buffer space the loop makes no progress: it never returns.\<close>

lemma bws_write_no_room:
  assumes "maxBufferSize w = 0" and "wbuf w = []" and "mem \<noteq> []"
  shows "bws_write fsend mem w f = None"
proof -
  have "maxBufferSize w = 0 \<longrightarrow> wbuf w = [] \<longrightarrow> mem \<noteq> [] \<longrightarrow> False"
    if "bws_write fsend mem w f = Some y" for y
    using _ that
  proof (rule bws_write.raw_induct [of "\<lambda>fs mem w f y. maxBufferSize w = 0 \<longrightarrow> wbuf w = [] \<longrightarrow> mem \<noteq> [] \<longrightarrow> False"])
    fix g and fsend :: "'a sender" and mem w f y
    assume hyp: "\<And>fs mem w f y. g fs mem w f = Some y \<Longrightarrow>
        maxBufferSize w = 0 \<longrightarrow> wbuf w = [] \<longrightarrow> mem \<noteq> [] \<longrightarrow> False"
      and eq: "(if mem = [] then ret (w, f)
       else let n = min (length mem) (maxBufferSize w - length (wbuf w));
               w1 = w\<lparr>wbuf := wbuf w @ take n mem\<rparr>
           in if length (wbuf w1) = maxBufferSize w1
              then (case bws_flush fsend w1 f of
                      None \<Rightarrow> None
                    | Some (Inl e) \<Rightarrow> Some (Inl e)
                    | Some (Inr (w2, f2)) \<Rightarrow> g fsend (drop n mem) w2 f2)
              else g fsend (drop n mem) w1 f) = Some y"
    show "maxBufferSize w = 0 \<longrightarrow> wbuf w = [] \<longrightarrow> mem \<noteq> [] \<longrightarrow> False"
    proof (intro impI)
      assume w: "maxBufferSize w = 0" "wbuf w = []" "mem \<noteq> []"
      then have "g fsend mem w f = Some y"
        using eq by (cases w) (simp add: bws_flush_def ret_def Let_def)
      from hyp [OF this] w show False by simp
    qed
  qed
  with assms show ?thesis by (cases "bws_write fsend mem w f") auto
qed

text \<open>A serialised object is the sequence of its \<open>write\<close> calls.\<close>

primrec bws_writes ::
  "'f sender \<Rightarrow> byte list list \<Rightarrow> wstream \<Rightarrow> 'f \<Rightarrow> (wstream \<times> 'f) outcome" where
  "bws_writes fsend [] w f = ret (w, f)"
| "bws_writes fsend (c # cs) w f =
     bind_out (bws_write fsend c w f) (\<lambda>(w', f'). bws_writes fsend cs w' f')"

section \<open>The read stream\<close>

text \<open>\<open>rbuf\<close> is the part of the fabric's block that is not delivered yet
  (\<open>buffer\<close>, \<open>numAvailable\<close>); the bytes read are accumulated in order.\<close>

type_synonym 'f rstream = "byte list \<times> 'f"

definition BufferedReadStream :: "'f \<Rightarrow> 'f rstream" where
  "BufferedReadStream f = ([], f)"

partial_function (option) brs_read_loop ::
  "'f receiver \<Rightarrow> nat \<Rightarrow> byte list \<Rightarrow> byte list \<Rightarrow> 'f \<Rightarrow> (byte list \<times> 'f rstream) outcome" where
  "brs_read_loop frecv missing acc buf f =
     (if missing = 0 then ret (acc, (buf, f))
      else let n = min (length buf) missing
           in if n = 0
              then (case frecv f of
                      None \<Rightarrow> None
                    | Some (Inl e) \<Rightarrow> Some (Inl e)
                    | Some (Inr (blk, f')) \<Rightarrow> brs_read_loop frecv missing acc blk f')
              else brs_read_loop frecv (missing - n) (acc @ take n buf) (drop n buf) f)"

lemma brs_loop_done [simp]: "brs_read_loop frecv 0 acc buf f = ret (acc, (buf, f))"
  by (simp add: brs_read_loop.simps)

lemma brs_loop_refill:
  "0 < n \<Longrightarrow> brs_read_loop frecv n acc [] f =
     bind_out (frecv f) (\<lambda>(blk, f'). brs_read_loop frecv n acc blk f')"
  by (subst brs_read_loop.simps) (auto simp: Let_def bind_out_def split: option.splits sum.splits)

lemma brs_loop_deliver:
  "0 < n \<Longrightarrow> buf \<noteq> [] \<Longrightarrow> k = min (length buf) n \<Longrightarrow>
   brs_read_loop frecv n acc buf f = brs_read_loop frecv (n - k) (acc @ take k buf) (drop k buf) f"
  by (subst brs_read_loop.simps) (auto simp: Let_def min_def split: if_splits)

definition brs_read :: "'f receiver \<Rightarrow> 'f rstream \<Rightarrow> nat \<Rightarrow> (byte list \<times> 'f rstream) outcome" where
  "brs_read frecv s n = brs_read_loop frecv n [] (fst s) (snd s)"

text \<open>A client that makes the requests \<open>ks\<close> one after the other.\<close>

primrec read_list ::
  "('s \<Rightarrow> nat \<Rightarrow> (byte list \<times> 's) outcome) \<Rightarrow> nat list \<Rightarrow> 's \<Rightarrow> (byte list list \<times> 's) outcome" where
  "read_list rd [] s = ret ([], s)"
| "read_list rd (k # ks) s =
     bind_out (rd s k) (\<lambda>(b, s'). bind_out (read_list rd ks s') (\<lambda>(bs, s''). ret (b # bs, s'')))"

section \<open>The interfaces\<close>

text \<open>What a deserialiser relies on: a request that the stream can serve
  returns the next bytes in order, and nothing else changes.\<close>

locale read_stream =
  fixes rd :: "'s \<Rightarrow> nat \<Rightarrow> (byte list \<times> 's) outcome"
    and avail :: "'s \<Rightarrow> byte list"
    and rinv :: "'s \<Rightarrow> bool"
  assumes read_ok: "rinv s \<Longrightarrow> n \<le> length (avail s) \<Longrightarrow>
    \<exists>s'. rd s n = ret (take n (avail s), s') \<and> rinv s' \<and> avail s' = drop n (avail s)"

context read_stream
begin

lemma read_list_ok:
  assumes "rinv s" and "sum_list ks \<le> length (avail s)"
  shows "\<exists>bs s'. read_list rd ks s = ret (bs, s') \<and> rinv s' \<and> map length bs = ks \<and>
     concat bs = take (sum_list ks) (avail s) \<and> avail s' = drop (sum_list ks) (avail s)"
  using assms
proof (induction ks arbitrary: s)
  case (Cons k ks)
  then obtain s1 where 1: "rd s k = ret (take k (avail s), s1)" "rinv s1" "avail s1 = drop k (avail s)"
    using read_ok [of s k] by auto
  then have "sum_list ks \<le> length (avail s1)" using Cons.prems by simp
  from Cons.IH [OF 1(2) this] obtain bs s2 where
    "read_list rd ks s1 = ret (bs, s2)" "rinv s2" "map length bs = ks"
    "concat bs = take (sum_list ks) (avail s1)" "avail s2 = drop (sum_list ks) (avail s1)" by blast
  with 1 Cons.prems show ?case
    by (intro exI [of _ "take k (avail s) # bs"] exI [of _ s2]) (simp add: take_add add.commute)
qed simp

end

text \<open>\<open>pending f\<close> are the bytes sent and not yet returned by \<open>frecv\<close>; \<open>backlog\<close>
  bounds the number of consecutive empty blocks the receiver can get;
  \<open>sendable\<close> is the size limit of the fabric; \<open>finv\<close> holds the
  fabric's own invariant and the reliability of what is below it.\<close>

locale fabric =
  fixes fsend :: "byte list \<Rightarrow> 'f \<Rightarrow> 'f outcome"
    and frecv :: "'f \<Rightarrow> (byte list \<times> 'f) outcome"
    and pending :: "'f \<Rightarrow> byte list"
    and backlog :: "'f \<Rightarrow> nat"
    and sendable :: "nat \<Rightarrow> bool"
    and finv :: "'f \<Rightarrow> bool"
  assumes send_ok: "finv f \<Longrightarrow> sendable (length bs) \<Longrightarrow>
      \<exists>f'. fsend bs f = ret f' \<and> finv f' \<and> pending f' = pending f @ bs"
    and recv_ok: "finv f \<Longrightarrow> pending f \<noteq> [] \<Longrightarrow>
      \<exists>b f'. frecv f = ret (b, f') \<and> finv f' \<and> pending f = b @ pending f' \<and>
             (b = [] \<longrightarrow> backlog f' < backlog f)"

context fabric
begin

lemma flush_ok:
  assumes "finv f" and "sendable (length (wbuf w)) \<or> wbuf w = []"
  shows "\<exists>f'. bws_flush fsend w f = ret (w\<lparr>wbuf := []\<rparr>, f') \<and> finv f' \<and>
              pending f' = pending f @ wbuf w"
  using assms send_ok [of f "wbuf w"] by (auto simp: bws_flush_def)

definition ws_ok :: "wstream \<Rightarrow> bool" where
  "ws_ok w \<longleftrightarrow> 0 < maxBufferSize w \<and> length (wbuf w) < maxBufferSize w \<and>
     (\<forall>n \<le> maxBufferSize w. sendable n)"

lemma write_ok:
  assumes "finv f" and "ws_ok w"
  shows "\<exists>w' f'. bws_write fsend mem w f = ret (w', f') \<and> finv f' \<and> ws_ok w' \<and>
     maxBufferSize w' = maxBufferSize w \<and>
     pending f' @ wbuf w' = pending f @ wbuf w @ mem"
  using assms
proof (induction mem arbitrary: w f rule: length_induct)
  case (1 mem)
  define n where "n = min (length mem) (maxBufferSize w - length (wbuf w))"
  define w1 where "w1 = w\<lparr>wbuf := wbuf w @ take n mem\<rparr>"
  consider "mem = []" | "mem \<noteq> []" "length (wbuf w1) = maxBufferSize w"
    | "mem \<noteq> []" "length (wbuf w1) \<noteq> maxBufferSize w" by blast
  then show ?case
  proof cases
    case 1
    with "1.prems" show ?thesis by (simp add: bws_write_Nil)
  next
    case 2
    with "1.prems" have shorter: "length (drop n mem) < length mem"
      by (auto simp: n_def ws_ok_def)
    have "sendable (length (wbuf w1))" using 2 "1.prems" by (simp add: ws_ok_def)
    from flush_ok [OF \<open>finv f\<close> disjI1, OF this] obtain f2 where
      f2: "bws_flush fsend w1 f = ret (w1\<lparr>wbuf := []\<rparr>, f2)" "finv f2"
          "pending f2 = pending f @ wbuf w1" by blast
    have "ws_ok (w1\<lparr>wbuf := []\<rparr>)" using "1.prems" by (auto simp: ws_ok_def w1_def)
    from "1.IH" [rule_format, OF shorter f2(2) this] obtain w' f' where
      "bws_write fsend (drop n mem) (w1\<lparr>wbuf := []\<rparr>) f2 = ret (w', f')" "finv f'" "ws_ok w'"
      "maxBufferSize w' = maxBufferSize w" "pending f' @ wbuf w' = pending f2 @ drop n mem"
      by (auto simp: w1_def)
    then show ?thesis
      using bws_write_full [OF 2(1) n_def w1_def 2(2), of fsend f] f2 by (auto simp: w1_def)
  next
    case 3
    with "1.prems" have shorter: "length (drop n mem) < length mem"
      by (auto simp: n_def ws_ok_def)
    have "ws_ok w1" using 3 "1.prems" by (auto simp: ws_ok_def w1_def n_def)
    from "1.IH" [rule_format, OF shorter \<open>finv f\<close> this]
    show ?thesis
      using bws_write_room [OF 3(1) n_def w1_def 3(2), of fsend f] by (auto simp: w1_def)
  qed
qed

lemma writes_ok:
  assumes "finv f" and "ws_ok w"
  shows "\<exists>w' f'. bws_writes fsend cs w f = ret (w', f') \<and> finv f' \<and> ws_ok w' \<and>
     maxBufferSize w' = maxBufferSize w \<and>
     pending f' @ wbuf w' = pending f @ wbuf w @ concat cs"
  using assms
proof (induction cs arbitrary: w f)
  case (Cons c cs)
  from write_ok [OF Cons.prems, of c] obtain w1 f1 where
    "bws_write fsend c w f = ret (w1, f1)" "finv f1" "ws_ok w1" "maxBufferSize w1 = maxBufferSize w"
    "pending f1 @ wbuf w1 = pending f @ wbuf w @ c" by blast
  with Cons.IH [of f1 w1] show ?case by fastforce
qed auto

lemma read_loop_ok:
  fixes acc :: "byte list"
  assumes "finv f" and "n \<le> length (buf @ pending f)"
  shows "\<exists>buf' f'. brs_read_loop frecv n acc buf f = ret (acc @ take n (buf @ pending f), (buf', f')) \<and>
     finv f' \<and> buf' @ pending f' = drop n (buf @ pending f)"
  using assms
proof (induction n arbitrary: acc buf f rule: less_induct)
  case (less n)
  have full: "\<exists>buf' f'. brs_read_loop frecv n acc buf f = ret (acc @ take n (buf @ pending f), (buf', f')) \<and>
     finv f' \<and> buf' @ pending f' = drop n (buf @ pending f)"
    if "buf \<noteq> []" "n \<noteq> 0" "finv f" "n \<le> length (buf @ pending f)" for acc buf f
  proof -
    define k where "k = min (length buf) n"
    have k: "n - k < n" "k \<le> n" "k \<le> length buf" using that by (auto simp: k_def)
    have "n - k \<le> length (drop k buf @ pending f)" using that k by auto
    from less.IH [OF k(1) that(3) this, of "acc @ take k buf"]
    show ?thesis using that k
      by (simp add: brs_loop_deliver [OF _ _ k_def] flip: take_add) (auto simp: k_def min_def)
  qed
  from less.prems show ?case
  proof (induction "backlog f" arbitrary: acc buf f rule: less_induct)
    case inner: less
    show ?case
    proof (cases "n = 0 \<or> buf \<noteq> []")
      case True
      with full [of buf f acc] inner.prems show ?thesis by (cases "n = 0") auto
    next
      case False
      with inner.prems have "pending f \<noteq> []" by auto
      from recv_ok [OF inner.prems(1) this] obtain b f' where
        b: "frecv f = ret (b, f')" "finv f'" "pending f = b @ pending f'"
           "b = [] \<longrightarrow> backlog f' < backlog f" by blast
      from False b full [of b f' acc] inner.hyps [of f' b acc] inner.prems show ?thesis
        by (cases "b = []") (auto simp: brs_loop_refill)
    qed
  qed
qed

end

sublocale fabric \<subseteq> rs: read_stream "brs_read frecv" "\<lambda>(buf, f). buf @ pending f" "\<lambda>(buf, f). finv f"
proof
  fix s :: "byte list \<times> 'f" and n
  assume "case s of (buf, f) \<Rightarrow> finv f" "n \<le> length (case s of (buf, f) \<Rightarrow> buf @ pending f)"
  then show "\<exists>s'. brs_read frecv s n = ret (take n (case s of (buf, f) \<Rightarrow> buf @ pending f), s') \<and>
       (case s' of (buf, f) \<Rightarrow> finv f) \<and>
       (case s' of (buf, f) \<Rightarrow> buf @ pending f) = drop n (case s of (buf, f) \<Rightarrow> buf @ pending f)"
    using read_loop_ok [of "snd s" n "fst s" "[]"] by (auto simp: brs_read_def split: prod.splits)
qed

context fabric
begin

text \<open>Written in any chunks, flushed, read in any chunks.\<close>

lemma stream_round_trip:
  assumes "finv f" and "pending f = []" and "0 < n" and "\<forall>m\<le>n. sendable m"
    and "sum_list ks \<le> length (concat chunks)"
  shows "\<exists>w f' bufs f''.
     bind_out (bws_writes fsend chunks (BufferedWriteStream n) f) (\<lambda>(w, f). bws_flush fsend w f) = ret (w, f') \<and>
     read_list (brs_read frecv) ks (BufferedReadStream f') = ret (bufs, f'') \<and>
     concat bufs = take (sum_list ks) (concat chunks) \<and> map length bufs = ks"
proof -
  have "ws_ok (BufferedWriteStream n)" using assms by (simp add: ws_ok_def BufferedWriteStream_def)
  from writes_ok [OF assms(1) this, of chunks] obtain w1 f1 where
    1: "bws_writes fsend chunks (BufferedWriteStream n) f = ret (w1, f1)" "finv f1" "ws_ok w1"
      "pending f1 @ wbuf w1 = concat chunks"
    using assms(2) by (auto simp: BufferedWriteStream_def)
  then have "sendable (length (wbuf w1))" by (auto simp: ws_ok_def)
  from flush_ok [OF 1(2) disjI1, OF this] obtain f2 where
    2: "bws_flush fsend w1 f1 = ret (w1\<lparr>wbuf := []\<rparr>, f2)" "finv f2" "pending f2 = concat chunks"
    using 1(4) by auto
  with rs.read_list_ok [of "BufferedReadStream f2" ks] assms(5) obtain bufs s' where
    "read_list (brs_read frecv) ks (BufferedReadStream f2) = ret (bufs, s')"
    "map length bufs = ks" "concat bufs = take (sum_list ks) (concat chunks)"
    by (auto simp: BufferedReadStream_def)
  with 1 2 show ?thesis by auto
qed

end

end
