(* ===== verification/Serialize.thy ===== *)
theory Serialize
  imports Streams
begin

text \<open>
  The stream operators of \<open>networking/DataStreaming.h\<close>.  An \<open>operator<<\<close> is the
  list of the \<open>write\<close> calls it makes, in order; an \<open>operator>>\<close> is a function of
  the \<open>read\<close> of the stream it is given.  Plain data is written as its object
  representation; a float is its bit pattern (nothing here computes with it).
  The locale \<open>read_stream\<close> gives one composition rule per construct.
\<close>

type_synonym write_calls = "byte list list"
type_synonym 's reader = "'s \<Rightarrow> nat \<Rightarrow> (byte list \<times> 's) outcome"
type_synonym ('s, 'a) decoder = "'s \<Rightarrow> ('a \<times> 's) outcome"

type_synonym float_bits = u32
type_synonym vec2i = "i32 \<times> i32"
type_synonym vec3i = "i32 \<times> i32 \<times> i32"
type_synonym vec2f = "float_bits \<times> float_bits"
type_synonym vec3f = "float_bits \<times> float_bits \<times> float_bits"
type_synonym vec4f = "float_bits \<times> float_bits \<times> float_bits \<times> float_bits"

definition then_dec :: "('s, 'a) decoder \<Rightarrow> ('a \<Rightarrow> ('s, 'b) decoder) \<Rightarrow> ('s, 'b) decoder" where
  "then_dec d k s = bind_out (d s) (\<lambda>(x, s'). k x s')"

definition ret_dec :: "'a \<Rightarrow> ('s, 'a) decoder" where
  "ret_dec x s = ret (x, s)"

section \<open>Plain data\<close>

definition byte_of_char :: "char \<Rightarrow> byte" where
  "byte_of_char c = word_of_nat (of_char c)"

definition char_of_byte :: "byte \<Rightarrow> char" where
  "char_of_byte b = char_of (unat b)"

definition word4 :: "u32 \<Rightarrow> byte list" where
  "word4 w = le_bytes 4 (unat w)"

definition word8 :: "u64 \<Rightarrow> byte list" where
  "word8 w = le_bytes 8 (unat w)"

definition wr_u32 :: "u32 \<Rightarrow> write_calls" where
  "wr_u32 w = [word4 w]"

definition wr_u64 :: "u64 \<Rightarrow> write_calls" where
  "wr_u64 w = [word8 w]"

definition wr_bool :: "bool \<Rightarrow> write_calls" where
  "wr_bool b = [[if b then 1 else 0]]"

definition wr_vec2 :: "u32 \<times> u32 \<Rightarrow> write_calls" where
  "wr_vec2 v = (case v of (x, y) \<Rightarrow> [word4 x @ word4 y])"

definition wr_vec3 :: "u32 \<times> u32 \<times> u32 \<Rightarrow> write_calls" where
  "wr_vec3 v = (case v of (x, y, z) \<Rightarrow> [word4 x @ word4 y @ word4 z])"

definition wr_vec4 :: "u32 \<times> u32 \<times> u32 \<times> u32 \<Rightarrow> write_calls" where
  "wr_vec4 v = (case v of (x, y, z, w) \<Rightarrow> [word4 x @ word4 y @ word4 z @ word4 w])"

definition val4 :: "byte list \<Rightarrow> u32" where
  "val4 bs = word_of_nat (le_val bs)"

definition rd_u32 :: "'s reader \<Rightarrow> ('s, u32) decoder" where
  "rd_u32 rd = then_dec (\<lambda>s. rd s 4) (\<lambda>bs. ret_dec (val4 bs))"

definition rd_u64 :: "'s reader \<Rightarrow> ('s, u64) decoder" where
  "rd_u64 rd = then_dec (\<lambda>s. rd s 8) (\<lambda>bs. ret_dec (word_of_nat (le_val bs)))"

definition rd_bool :: "'s reader \<Rightarrow> ('s, bool) decoder" where
  "rd_bool rd = then_dec (\<lambda>s. rd s 1) (\<lambda>bs. ret_dec (bs \<noteq> [0]))"

definition rd_vec2 :: "'s reader \<Rightarrow> ('s, u32 \<times> u32) decoder" where
  "rd_vec2 rd = then_dec (\<lambda>s. rd s 8) (\<lambda>bs. ret_dec (val4 (take 4 bs), val4 (drop 4 bs)))"

definition rd_vec3 :: "'s reader \<Rightarrow> ('s, u32 \<times> u32 \<times> u32) decoder" where
  "rd_vec3 rd = then_dec (\<lambda>s. rd s 12)
     (\<lambda>bs. ret_dec (val4 (take 4 bs), val4 (take 4 (drop 4 bs)), val4 (drop 8 bs)))"

definition rd_vec4 :: "'s reader \<Rightarrow> ('s, u32 \<times> u32 \<times> u32 \<times> u32) decoder" where
  "rd_vec4 rd = then_dec (\<lambda>s. rd s 16)
     (\<lambda>bs. ret_dec (val4 (take 4 bs), val4 (take 4 (drop 4 bs)), val4 (take 4 (drop 8 bs)),
                    val4 (drop 12 bs)))"

section \<open>Strings, vectors and array views\<close>

text \<open>The size is a \<open>size_t\<close>.  A vector writes its elements one by one, an array
  view in one call; a vector of bytes reads both.\<close>

definition wr_size :: "nat \<Rightarrow> write_calls" where
  "wr_size n = wr_u64 (word_of_nat n)"

definition wr_vector :: "('a \<Rightarrow> write_calls) \<Rightarrow> 'a list \<Rightarrow> write_calls" where
  "wr_vector wr xs = wr_size (length xs) @ concat (map wr xs)"

definition wr_array_view :: "byte list \<Rightarrow> write_calls" where
  "wr_array_view bs = wr_size (length bs) @ [bs]"

definition wr_string :: "string \<Rightarrow> write_calls" where
  "wr_string s = wr_size (length s) @ [map byte_of_char s]"

primrec rd_times :: "nat \<Rightarrow> ('s, 'a) decoder \<Rightarrow> ('s, 'a list) decoder" where
  "rd_times 0 d = ret_dec []"
| "rd_times (Suc n) d = then_dec d (\<lambda>x. then_dec (rd_times n d) (\<lambda>xs. ret_dec (x # xs)))"

definition rd_vector :: "'s reader \<Rightarrow> ('s, 'a) decoder \<Rightarrow> ('s, 'a list) decoder" where
  "rd_vector rd d = then_dec (rd_u64 rd) (\<lambda>sz. rd_times (unat sz) d)"

definition wr_byte :: "byte \<Rightarrow> write_calls" where
  "wr_byte b = [[b]]"

definition rd_byte :: "'s reader \<Rightarrow> ('s, byte) decoder" where
  "rd_byte rd = then_dec (\<lambda>s. rd s 1) (\<lambda>bs. ret_dec (hd bs))"

definition rd_string :: "'s reader \<Rightarrow> ('s, string) decoder" where
  "rd_string rd = then_dec (rd_u64 rd)
     (\<lambda>sz. then_dec (\<lambda>s. rd s (unat sz)) (\<lambda>bs. ret_dec (map char_of_byte bs)))"

section \<open>Values come back\<close>

lemma char_of_byte_of_char [simp]: "char_of_byte (byte_of_char c) = c"
  by (simp add: char_of_byte_def byte_of_char_def word_arith of_char_mod_256)

lemma length_word4 [simp]: "length (word4 w) = 4"
  by (simp add: word4_def)

lemma length_word8 [simp]: "length (word8 w) = 8"
  by (simp add: word8_def)

lemma unat_less_u32: "unat (w :: u32) < 256 ^ 4"
  using unsigned_less [of w] by simp

lemma unat_less_u64: "unat (w :: u64) < 256 ^ 8"
  using unsigned_less [of w] by simp

lemma val4_word4 [simp]: "val4 (word4 w) = w"
  by (simp add: val4_def word4_def le_val_bytes_small [OF unat_less_u32])

lemma val8_word8 [simp]: "word_of_nat (le_val (word8 w)) = w"
  by (simp add: word8_def le_val_bytes_small [OF unat_less_u64])

lemma unat_size [simp]: "n < 2 ^ 64 \<Longrightarrow> unat (word_of_nat n :: u64) = n"
  by (simp add: unat_of_nat)

section \<open>Decoding from a stream\<close>

context read_stream
begin

text \<open>\<open>reads d bs x\<close>: whenever \<open>bs\<close> is next on the stream, the decoder \<open>d\<close>
  consumes exactly \<open>bs\<close> and returns \<open>x\<close>.\<close>

definition reads :: "('s, 'a) decoder \<Rightarrow> byte list \<Rightarrow> 'a \<Rightarrow> bool" where
  "reads d bs x \<longleftrightarrow> (\<forall>s rest. rinv s \<longrightarrow> avail s = bs @ rest \<longrightarrow>
     (\<exists>s'. d s = ret (x, s') \<and> rinv s' \<and> avail s' = rest))"

lemma reads_elim:
  assumes "reads d bs x" and "rinv s" and "avail s = bs @ rest"
  obtains s' where "d s = ret (x, s')" "rinv s'" "avail s' = rest"
  using assms unfolding reads_def by blast

lemma reads_ret [intro]: "reads (ret_dec x) [] x"
  by (auto simp: reads_def ret_dec_def)

lemma reads_rd [intro]: "n = length bs \<Longrightarrow> reads (\<lambda>s. rd s n) bs bs"
  unfolding reads_def by (metis append_eq_conv_conj append_take_drop_id length_append le_add1 read_ok)

lemma reads_then:
  assumes "reads d bs x" and "reads (k x) cs y"
  shows "reads (then_dec d k) (bs @ cs) y"
  unfolding reads_def
proof (intro allI impI)
  fix s rest
  assume "rinv s" "avail s = (bs @ cs) @ rest"
  then obtain s1 where "d s = ret (x, s1)" "rinv s1" "avail s1 = cs @ rest"
    using reads_elim [OF assms(1), of s "cs @ rest"] by auto
  moreover from this obtain s2 where "k x s1 = ret (y, s2)" "rinv s2" "avail s2 = rest"
    using reads_elim [OF assms(2), of s1 rest] by auto
  ultimately show "\<exists>s'. then_dec d k s = ret (y, s') \<and> rinv s' \<and> avail s' = rest"
    by (simp add: then_dec_def)
qed

lemma reads_map:
  assumes "reads d bs x" and "y = f x"
  shows "reads (then_dec d (\<lambda>x. ret_dec (f x))) bs y"
  using reads_then [OF assms(1), of "\<lambda>x. ret_dec (f x)" "[]" y] reads_ret [of y] assms(2) by simp

lemma reads_raw: "n = length bs \<Longrightarrow> y = f bs \<Longrightarrow> reads (then_dec (\<lambda>s. rd s n) (\<lambda>x. ret_dec (f x))) bs y"
  by (rule reads_map) auto

lemma reads_u32: "reads (rd_u32 rd) (concat (wr_u32 w)) w"
  unfolding rd_u32_def wr_u32_def by (rule reads_raw) auto

lemma reads_u64: "reads (rd_u64 rd) (concat (wr_u64 w)) w"
  unfolding rd_u64_def wr_u64_def by (rule reads_raw) auto

lemma reads_bool: "reads (rd_bool rd) (concat (wr_bool b)) b"
  unfolding rd_bool_def wr_bool_def by (rule reads_raw) auto

lemma reads_byte: "reads (rd_byte rd) (concat (wr_byte b)) b"
  unfolding rd_byte_def wr_byte_def by (rule reads_raw) auto

lemma reads_vec2: "reads (rd_vec2 rd) (concat (wr_vec2 v)) v"
  unfolding rd_vec2_def wr_vec2_def by (cases v) (auto intro!: reads_raw)

lemma reads_vec3: "reads (rd_vec3 rd) (concat (wr_vec3 v)) v"
  unfolding rd_vec3_def wr_vec3_def by (cases v) (auto intro!: reads_raw)

lemma reads_vec4: "reads (rd_vec4 rd) (concat (wr_vec4 v)) v"
  unfolding rd_vec4_def wr_vec4_def by (cases v) (auto intro!: reads_raw)

lemma reads_size: "n < 2 ^ 64 \<Longrightarrow> reads (k n) cs y \<Longrightarrow>
    reads (then_dec (rd_u64 rd) (\<lambda>sz. k (unat sz))) (concat (wr_size n) @ cs) y"
  unfolding wr_size_def by (rule reads_then [OF reads_u64]) simp

lemma reads_times:
  assumes "\<And>x. x \<in> set xs \<Longrightarrow> reads d (concat (wr x)) x"
  shows "reads (rd_times (length xs) d) (concat (concat (map wr xs))) xs"
  using assms
proof (induction xs)
  case (Cons x xs)
  then have "reads (rd_times (length xs) d) (concat (concat (map wr xs))) xs" by simp
  from reads_then [OF Cons.prems reads_map [OF this refl], of x "\<lambda>y ys. y # ys"]
  show ?case by simp
qed auto

lemma reads_vector:
  assumes "length xs < 2 ^ 64" and "\<And>x. x \<in> set xs \<Longrightarrow> reads d (concat (wr x)) x"
  shows "reads (rd_vector rd d) (concat (wr_vector wr xs)) xs"
  unfolding rd_vector_def wr_vector_def
  using reads_size [of "length xs" "\<lambda>n. rd_times n d", OF assms(1) reads_times [of xs d wr, OF assms(2)]]
  by simp

lemma reads_byte_vector:
  "length bs < 2 ^ 64 \<Longrightarrow> reads (rd_vector rd (rd_byte rd)) (concat (wr_vector wr_byte bs)) bs"
  by (rule reads_vector) (auto intro: reads_byte)

lemma concat_wr_bytes: "concat (concat (map wr_byte bs)) = bs"
  by (induction bs) (auto simp: wr_byte_def)

lemma reads_array_view:
  "length bs < 2 ^ 64 \<Longrightarrow> reads (rd_vector rd (rd_byte rd)) (concat (wr_array_view bs)) bs"
  using reads_byte_vector [of bs] by (simp add: wr_vector_def wr_array_view_def concat_wr_bytes)

lemma reads_string:
  assumes "length s < 2 ^ 64"
  shows "reads (rd_string rd) (concat (wr_string s)) s"
proof -
  have "reads (then_dec (\<lambda>s'. rd s' (length s)) (\<lambda>bs. ret_dec (map char_of_byte bs)))
      (map byte_of_char s) s"
    by (rule reads_raw) (simp_all add: comp_def)
  from reads_size [OF assms, of "\<lambda>n. then_dec (\<lambda>s'. rd s' n) (\<lambda>bs. ret_dec (map char_of_byte bs))", OF this]
  show ?thesis by (simp add: rd_string_def wr_string_def)
qed

end

end
