(* ===== verification/Params.thy ===== *)
theory Params
  imports Serialize
begin

text \<open>
  \<open>utility::Any\<close> and \<open>utility::ParameterizedObject\<close>: the typed, named parameters
  of every OSPRay object and device.  The stored types are the ones the API can
  put into a parameter.  The locale \<open>param_store\<close> is the map the clients see;
  it is interpreted on the parameter list of the code.
\<close>

section \<open>Any\<close>

type_synonym addr = nat

datatype (plugins only: code size) any_val =
    A_int i32
  | A_float float_bits
  | A_string string
  | A_vec2f vec2f
  | A_vec2i vec2i
  | A_vec3f vec3f
  | A_vec3i vec3i
  | A_vec4f vec4f
  | A_voidptr u64
  | A_object "addr option"

datatype any_type =
  TY_int | TY_float | TY_string | TY_vec2f | TY_vec2i | TY_vec3f | TY_vec3i | TY_vec4f
  | TY_voidptr | TY_object

fun valueTypeID :: "any_val \<Rightarrow> any_type" where
  "valueTypeID (A_int _) = TY_int"
| "valueTypeID (A_float _) = TY_float"
| "valueTypeID (A_string _) = TY_string"
| "valueTypeID (A_vec2f _) = TY_vec2f"
| "valueTypeID (A_vec2i _) = TY_vec2i"
| "valueTypeID (A_vec3f _) = TY_vec3f"
| "valueTypeID (A_vec3i _) = TY_vec3i"
| "valueTypeID (A_vec4f _) = TY_vec4f"
| "valueTypeID (A_voidptr _) = TY_voidptr"
| "valueTypeID (A_object _) = TY_object"

text \<open>An \<open>Any\<close> holds a value or nothing (\<open>currentValue == nullptr\<close>).\<close>

type_synonym any = "any_val option"

definition any_valid :: "any \<Rightarrow> bool" where
  "any_valid a \<longleftrightarrow> a \<noteq> None"

definition any_is :: "any_type \<Rightarrow> any \<Rightarrow> bool" where
  "any_is t a \<longleftrightarrow> any_valid a \<and> t = valueTypeID (the a)"

definition any_get :: "any_type \<Rightarrow> any \<Rightarrow> any_val res" where
  "any_get t a =
     (if \<not> any_valid a then Inl (Runtime_error ''Can't query value from an empty Any!'')
      else if any_is t a then Inr (the a)
      else Inl (Runtime_error ''Incorrect type queried for Any!''))"

text \<open>\<open>operator==\<close> calls \<open>isSame\<close> on its left value without a check.\<close>

definition any_eq :: "any \<Rightarrow> any \<Rightarrow> bool res" where
  "any_eq a b = (case a of
      None \<Rightarrow> Inl Undefined_behaviour
    | Some x \<Rightarrow> (case b of
        None \<Rightarrow> Inr False
      | Some y \<Rightarrow> Inr (valueTypeID x = valueTypeID y \<and> x = y)))"

lemma any_get_is: "any_get t a = Inr v \<longleftrightarrow> a = Some v \<and> valueTypeID v = t"
  by (cases a) (auto simp: any_get_def any_valid_def any_is_def)

lemma any_get_fails: "(\<exists>e. any_get t a = Inl e) \<longleftrightarrow> \<not> any_is t a"
  by (cases a) (auto simp: any_get_def any_valid_def any_is_def)

section \<open>Parameter lists\<close>

type_synonym params = "(string \<times> any) list"

definition find_param_idx :: "string \<Rightarrow> params \<Rightarrow> nat option" where
  "find_param_idx nm ps =
     (let i = length (takeWhile (\<lambda>p. fst p \<noteq> nm) ps) in if i < length ps then Some i else None)"

text \<open>\<open>findParam\<close> returns the parameter (its index) and may add an empty one.\<close>

definition findParam :: "string \<Rightarrow> bool \<Rightarrow> params \<Rightarrow> nat option \<times> params" where
  "findParam nm addIfNotExist ps = (case find_param_idx nm ps of
      Some i \<Rightarrow> (Some i, ps)
    | None \<Rightarrow> if addIfNotExist then (Some (length ps), ps @ [(nm, None)]) else (None, ps))"

definition hasParam :: "string \<Rightarrow> params \<Rightarrow> bool" where
  "hasParam nm ps \<longleftrightarrow> fst (findParam nm False ps) \<noteq> None"

definition setParam :: "string \<Rightarrow> any_val \<Rightarrow> params \<Rightarrow> params" where
  "setParam nm v ps = (case findParam nm True ps of
      (Some i, ps') \<Rightarrow> ps'[i := (fst (ps' ! i), Some v)]
    | (None, ps') \<Rightarrow> ps')"

text \<open>\<open>Any::get\<close> throws when the value has another type; the test before it is what
  keeps \<open>getParam\<close> from passing that exception on.\<close>

definition getParam :: "any_type \<Rightarrow> string \<Rightarrow> any_val \<Rightarrow> params \<Rightarrow> any_val res" where
  "getParam t nm valIfNotFound ps = (case fst (findParam nm False ps) of
      None \<Rightarrow> Inr valIfNotFound
    | Some i \<Rightarrow> (if \<not> any_is t (snd (ps ! i)) then Inr valIfNotFound
                 else any_get t (snd (ps ! i))))"

definition removeParam :: "string \<Rightarrow> params \<Rightarrow> params" where
  "removeParam nm ps = erase_first (\<lambda>p. fst p = nm) ps"

text \<open>The specialisations for \<open>bool\<close> store an \<open>int\<close>.\<close>

definition setParam_bool :: "string \<Rightarrow> bool \<Rightarrow> params \<Rightarrow> params" where
  "setParam_bool nm b ps = setParam nm (A_int (if b then 1 else 0)) ps"

definition getParam_bool :: "string \<Rightarrow> bool \<Rightarrow> params \<Rightarrow> bool res" where
  "getParam_bool nm b ps =
     bind_res (getParam TY_int nm (A_int (if b then 1 else 0)) ps) (\<lambda>v. Inr (v \<noteq> A_int 0))"

text \<open>The names are distinct: every list that is built with these operations.\<close>

definition names_ok :: "params \<Rightarrow> bool" where
  "names_ok ps \<longleftrightarrow> distinct (map fst ps)"

lemma find_param_idx_Some:
  "find_param_idx nm ps = Some i \<Longrightarrow>
     i < length ps \<and> fst (ps ! i) = nm \<and> (\<forall>j<i. fst (ps ! j) \<noteq> nm)"
proof -
  let ?P = "\<lambda>p. fst p \<noteq> nm"
  assume "find_param_idx nm ps = Some i"
  then have i: "i = length (takeWhile ?P ps)" "i < length ps"
    by (simp_all only: find_param_idx_def Let_def option.inject option.distinct split: if_splits)
  then have "\<not> ?P (ps ! i)" using nth_length_takeWhile [of ?P ps] by simp
  moreover have "?P (ps ! j)" if "j < i" for j
  proof -
    from that i(1) have j: "j < length (takeWhile ?P ps)" by simp
    then have "takeWhile ?P ps ! j \<in> set (takeWhile ?P ps)" by (rule nth_mem)
    then show ?thesis using takeWhile_nth [OF j] by (auto dest: set_takeWhileD)
  qed
  ultimately show ?thesis using i(2) by simp
qed

lemma find_param_idx_None: "find_param_idx nm ps = None \<longleftrightarrow> nm \<notin> fst ` set ps"
proof -
  have "length (takeWhile (\<lambda>p. fst p \<noteq> nm) ps) < length ps \<longleftrightarrow> nm \<in> fst ` set ps"
    by (induction ps) auto
  then show ?thesis by (simp add: find_param_idx_def Let_def)
qed

lemma map_of_nth: "distinct (map fst ps) \<Longrightarrow> i < length ps \<Longrightarrow> map_of ps (fst (ps ! i)) = Some (snd (ps ! i))"
  by (simp add: map_of_eq_Some_iff)

lemma map_of_findParam:
  assumes "names_ok ps"
  shows "(case fst (findParam nm False ps) of None \<Rightarrow> None | Some i \<Rightarrow> Some (snd (ps ! i))) = map_of ps nm"
proof (cases "find_param_idx nm ps")
  case None
  then have "map_of ps nm = None" by (simp add: find_param_idx_None map_of_eq_None_iff)
  with None show ?thesis by (simp add: findParam_def)
next
  case (Some i)
  with find_param_idx_Some [OF this] assms show ?thesis
    by (auto simp: findParam_def names_ok_def dest: map_of_nth)
qed

lemma hasParam_iff: "hasParam nm ps \<longleftrightarrow> nm \<in> fst ` set ps"
  using find_param_idx_None [of nm ps]
  by (auto simp: hasParam_def findParam_def split: option.splits)

lemma setParam_cases:
  "setParam nm v ps = (case find_param_idx nm ps of
     None \<Rightarrow> ps @ [(nm, Some v)] | Some i \<Rightarrow> ps[i := (nm, Some v)])"
  using find_param_idx_Some [of nm ps]
  by (auto simp: setParam_def findParam_def list_update_append split: option.splits)

lemma names_ok_setParam: "names_ok ps \<Longrightarrow> names_ok (setParam nm v ps)"
proof (cases "find_param_idx nm ps")
  case None
  then have "nm \<notin> fst ` set ps" by (simp add: find_param_idx_None)
  with None show "names_ok ps \<Longrightarrow> names_ok (setParam nm v ps)"
    by (simp add: setParam_cases names_ok_def)
next
  case (Some i)
  with find_param_idx_Some [OF this] have "map fst (ps[i := (nm, Some v)]) = map fst ps"
    by (metis fst_conv list_update_id map_update)
  with Some show "names_ok ps \<Longrightarrow> names_ok (setParam nm v ps)"
    by (simp add: setParam_cases names_ok_def)
qed

lemma map_of_update_idx:
  "distinct (map fst ps) \<Longrightarrow> i < length ps \<Longrightarrow> fst (ps ! i) = k \<Longrightarrow>
   map_of (ps[i := (k, v)]) = (map_of ps)(k \<mapsto> v)"
proof (induction ps arbitrary: i)
  case (Cons p ps)
  show ?case
  proof (cases i)
    case 0
    with Cons show ?thesis by (cases p) auto
  next
    case (Suc j)
    have "map_of (ps[j := (k, v)]) = (map_of ps)(k \<mapsto> v)"
      by (intro Cons.IH) (use Cons.prems Suc in auto)
    moreover have "fst p \<noteq> k" using Cons.prems Suc by auto
    ultimately show ?thesis using Suc by (cases p) (rule ext, auto)
  qed
qed simp

lemma map_of_setParam:
  assumes "names_ok ps"
  shows "map_of (setParam nm v ps) = (map_of ps)(nm \<mapsto> Some v)"
proof (cases "find_param_idx nm ps")
  case None
  then have "map_of ps nm = None" by (simp add: find_param_idx_None map_of_eq_None_iff)
  with None show ?thesis by (auto simp: setParam_cases map_add_def split: option.splits)
next
  case (Some i)
  with find_param_idx_Some [OF this] assms show ?thesis
    by (simp add: setParam_cases names_ok_def map_of_update_idx)
qed

lemma names_ok_removeParam: "names_ok ps \<Longrightarrow> names_ok (removeParam nm ps)"
  by (simp add: names_ok_def removeParam_def erase_first_map_fst distinct_erase_first)

lemma map_of_removeParam:
  "names_ok ps \<Longrightarrow> map_of (removeParam nm ps) = (map_of ps)(nm := None)"
proof (induction ps)
  case (Cons p ps)
  show ?case
  proof (cases "fst p = nm")
    case True
    with Cons.prems have "map_of ps nm = None" by (simp add: names_ok_def map_of_eq_None_iff)
    with True show ?thesis by (cases p) (auto simp: removeParam_def)
  next
    case False
    with Cons show ?thesis by (cases p) (auto simp: removeParam_def names_ok_def)
  qed
qed (simp add: removeParam_def)

section \<open>The interface of a parameter store\<close>

locale param_store =
  fixes lookup :: "'s \<Rightarrow> string \<Rightarrow> any option"
    and set_p :: "string \<Rightarrow> any_val \<Rightarrow> 's \<Rightarrow> 's"
    and remove_p :: "string \<Rightarrow> 's \<Rightarrow> 's"
    and inv_p :: "'s \<Rightarrow> bool"
  assumes lookup_set: "inv_p s \<Longrightarrow> lookup (set_p k v s) = (lookup s)(k \<mapsto> Some v)"
    and inv_set: "inv_p s \<Longrightarrow> inv_p (set_p k v s)"
    and lookup_remove: "inv_p s \<Longrightarrow> lookup (remove_p k s) = (lookup s)(k := None)"
    and inv_remove: "inv_p s \<Longrightarrow> inv_p (remove_p k s)"

context param_store
begin

text \<open>A run of assignments leaves the last value of every name.\<close>

definition set_all :: "(string \<times> any_val) list \<Rightarrow> 's \<Rightarrow> 's" where
  "set_all kvs s = fold (\<lambda>(k, v). set_p k v) kvs s"

lemma inv_set_all: "inv_p s \<Longrightarrow> inv_p (set_all kvs s)"
  by (induction kvs arbitrary: s) (auto simp: set_all_def inv_set)

lemma lookup_set_all:
  "inv_p s \<Longrightarrow>
   lookup (set_all kvs s) = lookup s ++ (\<lambda>k. map_option Some (map_of (rev kvs) k))"
proof (induction kvs arbitrary: s)
  case (Cons kv kvs)
  obtain k v where kv: "kv = (k, v)" by (cases kv)
  have "lookup (set_all (kv # kvs) s) = lookup (set_all kvs (set_p k v s))"
    by (simp add: set_all_def kv)
  also have "\<dots> = (lookup s)(k \<mapsto> Some v) ++ (\<lambda>k. map_option Some (map_of (rev kvs) k))"
    using Cons by (simp add: lookup_set inv_set del: fun_upd_apply)
  finally show ?case by (auto simp: kv map_add_def fun_eq_iff split: option.splits)
qed (simp add: set_all_def map_add_def)

lemma set_remove: "inv_p s \<Longrightarrow> lookup (remove_p k (set_p k v s)) = (lookup s)(k := None)"
  by (simp add: lookup_set lookup_remove inv_set)

lemma last_set_wins: "inv_p s \<Longrightarrow> lookup (set_p k w (set_p k v s)) = lookup (set_p k w s)"
  by (simp add: lookup_set inv_set)

end

interpretation pl: param_store map_of setParam removeParam names_ok
  by unfold_locales
     (simp_all add: map_of_setParam names_ok_setParam map_of_removeParam names_ok_removeParam)

text \<open>What \<open>getParam\<close> answers, from the map.\<close>

lemma getParam_map_of:
  assumes "names_ok ps"
  shows "getParam t nm d ps = Inr (case map_of ps nm of
     Some (Some v) \<Rightarrow> if valueTypeID v = t then v else d | _ \<Rightarrow> d)"
  unfolding getParam_def map_of_findParam [OF assms, of nm, symmetric]
  by (auto simp: any_is_def any_valid_def any_get_def split: option.splits)

section \<open>What the parameters of an object hold\<close>

text \<open>The calls that change the parameters of an object, and the map they stand for.\<close>

datatype param_call = Set_call string any_val | Set_bool_call string bool | Remove_call string

fun param_step :: "param_call \<Rightarrow> params \<Rightarrow> params" where
  "param_step (Set_call nm v) ps = setParam nm v ps"
| "param_step (Set_bool_call nm b) ps = setParam_bool nm b ps"
| "param_step (Remove_call nm) ps = removeParam nm ps"

fun meant_step :: "param_call \<Rightarrow> (string \<rightharpoonup> any_val) \<Rightarrow> (string \<rightharpoonup> any_val)" where
  "meant_step (Set_call nm v) m = m(nm \<mapsto> v)"
| "meant_step (Set_bool_call nm b) m = m(nm \<mapsto> A_int (if b then 1 else 0))"
| "meant_step (Remove_call nm) m = m(nm := None)"

lemma param_step_meant:
  assumes "names_ok ps" and "map_of ps = map_option Some \<circ> m"
  shows "names_ok (param_step c ps) \<and> map_of (param_step c ps) = map_option Some \<circ> meant_step c m"
  using assms
  by (cases c) (auto simp: setParam_bool_def pl.inv_set pl.inv_remove pl.lookup_set pl.lookup_remove fun_eq_iff)

lemma param_calls_meant:
  "names_ok ps \<Longrightarrow> map_of ps = map_option Some \<circ> m \<Longrightarrow>
   names_ok (fold param_step cs ps) \<and> map_of (fold param_step cs ps) = map_option Some \<circ> fold meant_step cs m"
proof (induction cs arbitrary: ps m)
  case (Cons c cs)
  show ?case using Cons.IH param_step_meant [OF Cons.prems, of c] by simp
qed simp

text \<open>C34 Parameters are typed.  After any sequence of calls that set or remove parameters of a new object
  the names are distinct, and \<open>getParam\<close> with a fallback of the type it asks for returns (it
  does not throw the exception of \<open>Any::get\<close>) a value of that
  type: the value that was set last under the name and not removed since, if it has the type, and the fallback
  otherwise.  \<open>hasParam\<close> tells which names
  are set, and a \<open>bool\<close> that is set comes back.\<close>
theorem parameters_typed:
  assumes "valueTypeID d = t"
  shows "names_ok (fold param_step cs []) \<and>
    (\<exists>r. getParam t nm d (fold param_step cs []) = Inr r \<and> valueTypeID r = t \<and>
      r = (case fold meant_step cs (\<lambda>_. None) nm of Some v \<Rightarrow> if valueTypeID v = t then v else d | None \<Rightarrow> d)) \<and>
    (hasParam nm (fold param_step cs []) \<longleftrightarrow> fold meant_step cs (\<lambda>_. None) nm \<noteq> None) \<and>
    (\<forall>b e. getParam_bool nm e (setParam_bool nm b (fold param_step cs [])) = Inr b)"
proof -
  let ?ps = "fold param_step cs []" and ?m = "fold meant_step cs (\<lambda>_. None)"
  have "names_ok [] \<and> map_of [] = map_option Some \<circ> (\<lambda>_. None :: any_val option)" by (simp add: names_ok_def fun_eq_iff)
  then have ok: "names_ok ?ps" "map_of ?ps = map_option Some \<circ> ?m" using param_calls_meant by blast+
  have get: "getParam t nm d ?ps = Inr (case ?m nm of Some v \<Rightarrow> if valueTypeID v = t then v else d | None \<Rightarrow> d)"
    unfolding getParam_map_of [OF ok(1)] ok(2) by (simp split: option.split)
  have has: "hasParam nm ?ps \<longleftrightarrow> ?m nm \<noteq> None"
    using ok(2) by (simp add: hasParam_iff flip: dom_map_of_conv_image_fst) (simp add: dom_def)
  have "getParam_bool nm e (setParam_bool nm b ?ps) = Inr b" for b e
    using getParam_map_of [OF pl.inv_set [OF ok(1)]] pl.lookup_set [OF ok(1)]
    by (simp add: getParam_bool_def setParam_bool_def)
  then show ?thesis using ok(1) get has assms by (simp split: option.split)
qed

lemma parameters_typed_witness:
  "getParam TY_int ''n'' (A_int 1) (fold param_step [Set_call ''n'' (A_int 5), Set_bool_call ''b'' True, Remove_call ''b''] []) = Inr (A_int 5) \<and>
   getParam TY_int ''n'' (A_int 1) (fold param_step [Set_call ''n'' (A_string ''x'')] []) = Inr (A_int 1)"
  using parameters_typed [of "A_int 1" TY_int "[Set_call ''n'' (A_int 5), Set_bool_call ''b'' True, Remove_call ''b'']" "''n''"]
    parameters_typed [of "A_int 1" TY_int "[Set_call ''n'' (A_string ''x'')]" "''n''"]
  by simp

end
