(* ===== verification/OspTypes.thy ===== *)
theory OspTypes
  imports Prelude
begin

text \<open>
  \<open>OSPDataType\<close> and the tables over it in \<open>ospray/common/OSPCommon.cpp\<close>: the size of
  an element, its name, and the type of a name.  The sizes are the ones of the
  64-bit ABI (a pointer has 8 bytes, \<open>vec3fa\<close> is padded to 16).
\<close>

datatype (plugins only: code size) osp_type =
  OSP_DEVICE | OSP_VOID_PTR | OSP_OBJECT | OSP_CAMERA | OSP_DATA | OSP_FRAMEBUFFER
  | OSP_GEOMETRY | OSP_LIGHT | OSP_MATERIAL | OSP_MODEL | OSP_RENDERER | OSP_TEXTURE
  | OSP_TRANSFER_FUNCTION | OSP_VOLUME | OSP_PIXEL_OP | OSP_STRING | OSP_CHAR | OSP_UCHAR
  | OSP_UCHAR2 | OSP_UCHAR3 | OSP_UCHAR4 | OSP_SHORT | OSP_USHORT | OSP_INT | OSP_INT2
  | OSP_INT3 | OSP_INT4 | OSP_UINT | OSP_UINT2 | OSP_UINT3 | OSP_UINT4 | OSP_LONG | OSP_LONG2
  | OSP_LONG3 | OSP_LONG4 | OSP_ULONG | OSP_ULONG2 | OSP_ULONG3 | OSP_ULONG4 | OSP_FLOAT
  | OSP_FLOAT2 | OSP_FLOAT3 | OSP_FLOAT4 | OSP_FLOAT3A | OSP_DOUBLE | OSP_UNKNOWN

fun enum_value :: "osp_type \<Rightarrow> nat" where
  "enum_value OSP_DEVICE = 100"
| "enum_value OSP_VOID_PTR = 200"
| "enum_value OSP_OBJECT = 1000"
| "enum_value OSP_CAMERA = 1100"
| "enum_value OSP_DATA = 1101"
| "enum_value OSP_FRAMEBUFFER = 1102"
| "enum_value OSP_GEOMETRY = 1103"
| "enum_value OSP_LIGHT = 1104"
| "enum_value OSP_MATERIAL = 1105"
| "enum_value OSP_MODEL = 1106"
| "enum_value OSP_RENDERER = 1107"
| "enum_value OSP_TEXTURE = 1108"
| "enum_value OSP_TRANSFER_FUNCTION = 1109"
| "enum_value OSP_VOLUME = 1110"
| "enum_value OSP_PIXEL_OP = 1111"
| "enum_value OSP_STRING = 1500"
| "enum_value OSP_CHAR = 2000"
| "enum_value OSP_UCHAR = 2500"
| "enum_value OSP_UCHAR2 = 2501"
| "enum_value OSP_UCHAR3 = 2502"
| "enum_value OSP_UCHAR4 = 2503"
| "enum_value OSP_SHORT = 3000"
| "enum_value OSP_USHORT = 3500"
| "enum_value OSP_INT = 4000"
| "enum_value OSP_INT2 = 4001"
| "enum_value OSP_INT3 = 4002"
| "enum_value OSP_INT4 = 4003"
| "enum_value OSP_UINT = 4500"
| "enum_value OSP_UINT2 = 4501"
| "enum_value OSP_UINT3 = 4502"
| "enum_value OSP_UINT4 = 4503"
| "enum_value OSP_LONG = 5000"
| "enum_value OSP_LONG2 = 5001"
| "enum_value OSP_LONG3 = 5002"
| "enum_value OSP_LONG4 = 5003"
| "enum_value OSP_ULONG = 5550"
| "enum_value OSP_ULONG2 = 5551"
| "enum_value OSP_ULONG3 = 5552"
| "enum_value OSP_ULONG4 = 5553"
| "enum_value OSP_FLOAT = 6000"
| "enum_value OSP_FLOAT2 = 6001"
| "enum_value OSP_FLOAT3 = 6002"
| "enum_value OSP_FLOAT4 = 6003"
| "enum_value OSP_FLOAT3A = 6004"
| "enum_value OSP_DOUBLE = 7000"
| "enum_value OSP_UNKNOWN = 22222"

definition unknown_type :: cxx_error where
  "unknown_type = Runtime_error ''unknown OSPDataType''"

fun sizeOf :: "osp_type \<Rightarrow> nat res" where
  "sizeOf OSP_VOID_PTR = Inr 8"
| "sizeOf OSP_OBJECT = Inr 8"
| "sizeOf OSP_CAMERA = Inr 8"
| "sizeOf OSP_DATA = Inr 8"
| "sizeOf OSP_DEVICE = Inr 8"
| "sizeOf OSP_FRAMEBUFFER = Inr 8"
| "sizeOf OSP_GEOMETRY = Inr 8"
| "sizeOf OSP_LIGHT = Inr 8"
| "sizeOf OSP_MATERIAL = Inr 8"
| "sizeOf OSP_MODEL = Inr 8"
| "sizeOf OSP_RENDERER = Inr 8"
| "sizeOf OSP_TEXTURE = Inr 8"
| "sizeOf OSP_TRANSFER_FUNCTION = Inr 8"
| "sizeOf OSP_VOLUME = Inr 8"
| "sizeOf OSP_PIXEL_OP = Inr 8"
| "sizeOf OSP_STRING = Inr 8"
| "sizeOf OSP_CHAR = Inr 1"
| "sizeOf OSP_UCHAR = Inr 1"
| "sizeOf OSP_UCHAR2 = Inr 2"
| "sizeOf OSP_UCHAR3 = Inr 3"
| "sizeOf OSP_UCHAR4 = Inr 4"
| "sizeOf OSP_SHORT = Inr 2"
| "sizeOf OSP_USHORT = Inr 2"
| "sizeOf OSP_INT = Inr 4"
| "sizeOf OSP_INT2 = Inr 8"
| "sizeOf OSP_INT3 = Inr 12"
| "sizeOf OSP_INT4 = Inr 16"
| "sizeOf OSP_UINT = Inr 4"
| "sizeOf OSP_UINT2 = Inr 8"
| "sizeOf OSP_UINT3 = Inr 12"
| "sizeOf OSP_UINT4 = Inr 16"
| "sizeOf OSP_LONG = Inr 8"
| "sizeOf OSP_LONG2 = Inr 16"
| "sizeOf OSP_LONG3 = Inr 24"
| "sizeOf OSP_LONG4 = Inr 32"
| "sizeOf OSP_ULONG = Inr 8"
| "sizeOf OSP_ULONG2 = Inr 16"
| "sizeOf OSP_ULONG3 = Inr 24"
| "sizeOf OSP_ULONG4 = Inr 32"
| "sizeOf OSP_FLOAT = Inr 4"
| "sizeOf OSP_FLOAT2 = Inr 8"
| "sizeOf OSP_FLOAT3 = Inr 12"
| "sizeOf OSP_FLOAT4 = Inr 16"
| "sizeOf OSP_FLOAT3A = Inr 16"
| "sizeOf OSP_DOUBLE = Inr 8"
| "sizeOf OSP_UNKNOWN = Inl unknown_type"

fun stringForType :: "osp_type \<Rightarrow> string res" where
  "stringForType OSP_VOID_PTR = Inr ''void_ptr''"
| "stringForType OSP_OBJECT = Inr ''object''"
| "stringForType OSP_CAMERA = Inr ''camera''"
| "stringForType OSP_DATA = Inr ''data''"
| "stringForType OSP_DEVICE = Inr ''device''"
| "stringForType OSP_FRAMEBUFFER = Inr ''framebuffer''"
| "stringForType OSP_GEOMETRY = Inr ''geometry''"
| "stringForType OSP_LIGHT = Inr ''light''"
| "stringForType OSP_MATERIAL = Inr ''material''"
| "stringForType OSP_MODEL = Inr ''model''"
| "stringForType OSP_RENDERER = Inr ''renderer''"
| "stringForType OSP_TEXTURE = Inr ''texture''"
| "stringForType OSP_TRANSFER_FUNCTION = Inr ''transfer_function''"
| "stringForType OSP_VOLUME = Inr ''volume''"
| "stringForType OSP_PIXEL_OP = Inr ''pixel_op''"
| "stringForType OSP_STRING = Inr ''string''"
| "stringForType OSP_CHAR = Inr ''char''"
| "stringForType OSP_UCHAR = Inr ''uchar''"
| "stringForType OSP_UCHAR2 = Inr ''uchar2''"
| "stringForType OSP_UCHAR3 = Inr ''uchar3''"
| "stringForType OSP_UCHAR4 = Inr ''uchar4''"
| "stringForType OSP_SHORT = Inr ''short''"
| "stringForType OSP_USHORT = Inr ''ushort''"
| "stringForType OSP_INT = Inr ''int''"
| "stringForType OSP_INT2 = Inr ''int2''"
| "stringForType OSP_INT3 = Inr ''int3''"
| "stringForType OSP_INT4 = Inr ''int4''"
| "stringForType OSP_UINT = Inr ''uint''"
| "stringForType OSP_UINT2 = Inr ''uint2''"
| "stringForType OSP_UINT3 = Inr ''uint3''"
| "stringForType OSP_UINT4 = Inr ''uint4''"
| "stringForType OSP_LONG = Inr ''long''"
| "stringForType OSP_LONG2 = Inr ''long2''"
| "stringForType OSP_LONG3 = Inr ''long3''"
| "stringForType OSP_LONG4 = Inr ''long4''"
| "stringForType OSP_ULONG = Inr ''ulong''"
| "stringForType OSP_ULONG2 = Inr ''ulong2''"
| "stringForType OSP_ULONG3 = Inr ''ulong3''"
| "stringForType OSP_ULONG4 = Inr ''ulong4''"
| "stringForType OSP_FLOAT = Inr ''float''"
| "stringForType OSP_FLOAT2 = Inr ''float2''"
| "stringForType OSP_FLOAT3 = Inr ''float3''"
| "stringForType OSP_FLOAT4 = Inr ''float4''"
| "stringForType OSP_FLOAT3A = Inr ''float3a''"
| "stringForType OSP_DOUBLE = Inr ''double''"
| "stringForType OSP_UNKNOWN = Inl unknown_type"

text \<open>\<open>typeForString\<close> compares with a fixed list; the null pointer is \<open>None\<close>.\<close>

definition type_names :: "(string \<times> osp_type) list" where
  "type_names = [
     (''char'', OSP_CHAR),
     (''double'', OSP_DOUBLE),
     (''float'', OSP_FLOAT),
     (''float2'', OSP_FLOAT2),
     (''float3'', OSP_FLOAT3),
     (''float4'', OSP_FLOAT4),
     (''int'', OSP_INT),
     (''int2'', OSP_INT2),
     (''int3'', OSP_INT3),
     (''int4'', OSP_INT4),
     (''uchar'', OSP_UCHAR),
     (''uchar2'', OSP_UCHAR2),
     (''uchar3'', OSP_UCHAR3),
     (''uchar4'', OSP_UCHAR4),
     (''short'', OSP_SHORT),
     (''ushort'', OSP_USHORT),
     (''uint'', OSP_UINT),
     (''uint2'', OSP_UINT2),
     (''uint3'', OSP_UINT3),
     (''uint4'', OSP_UINT4)]"

definition typeForString :: "string option \<Rightarrow> osp_type" where
  "typeForString s = (case s of
      None \<Rightarrow> OSP_UNKNOWN
    | Some nm \<Rightarrow> (case map_of type_names nm of None \<Rightarrow> OSP_UNKNOWN | Some t \<Rightarrow> t))"

text \<open>The types whose elements a data array counts as object references.\<close>

definition object_formats :: "osp_type list" where
  "object_formats =
    [OSP_OBJECT, OSP_CAMERA, OSP_DATA, OSP_FRAMEBUFFER, OSP_GEOMETRY, OSP_LIGHT, OSP_MATERIAL,
     OSP_MODEL, OSP_RENDERER, OSP_TEXTURE, OSP_TRANSFER_FUNCTION, OSP_VOLUME, OSP_PIXEL_OP]"

lemma sizeOf_total: "t \<noteq> OSP_UNKNOWN \<Longrightarrow> \<exists>n. sizeOf t = Inr n \<and> 0 < n \<and> n \<le> 32"
  by (cases t) simp_all

lemma typeForString_known:
  "typeForString (Some nm) \<noteq> OSP_UNKNOWN \<Longrightarrow> stringForType (typeForString (Some nm)) = Inr nm"
  by (simp add: typeForString_def type_names_def split: if_splits)

definition all_types :: "osp_type list" where
  "all_types =
    [OSP_DEVICE, OSP_VOID_PTR, OSP_OBJECT, OSP_CAMERA, OSP_DATA, OSP_FRAMEBUFFER, OSP_GEOMETRY,
     OSP_LIGHT, OSP_MATERIAL, OSP_MODEL, OSP_RENDERER, OSP_TEXTURE, OSP_TRANSFER_FUNCTION,
     OSP_VOLUME, OSP_PIXEL_OP, OSP_STRING, OSP_CHAR, OSP_UCHAR, OSP_UCHAR2, OSP_UCHAR3,
     OSP_UCHAR4, OSP_SHORT, OSP_USHORT, OSP_INT, OSP_INT2, OSP_INT3, OSP_INT4, OSP_UINT,
     OSP_UINT2, OSP_UINT3, OSP_UINT4, OSP_LONG, OSP_LONG2, OSP_LONG3, OSP_LONG4, OSP_ULONG,
     OSP_ULONG2, OSP_ULONG3, OSP_ULONG4, OSP_FLOAT, OSP_FLOAT2, OSP_FLOAT3, OSP_FLOAT4,
     OSP_FLOAT3A, OSP_DOUBLE, OSP_UNKNOWN]"

lemma all_types_complete [simp]: "t \<in> set all_types"
  by (cases t) (simp_all add: all_types_def)

lemma enum_value_inj: "enum_value t = enum_value u \<Longrightarrow> t = u"
proof -
  have "distinct (map enum_value all_types)" by (simp add: all_types_def)
  then have "inj_on enum_value (set all_types)" by (simp add: distinct_map)
  then show "enum_value t = enum_value u \<Longrightarrow> t = u" by (simp add: inj_on_def)
qed

lemma stringForType_inj: "stringForType t = stringForType u \<Longrightarrow> t = u"
proof -
  have "distinct (map stringForType all_types)" by code_simp
  then have "inj_on stringForType (set all_types)" by (simp add: distinct_map)
  then show "stringForType t = stringForType u \<Longrightarrow> t = u" by (simp add: inj_on_def)
qed

instantiation osp_type :: linorder
begin

definition less_eq_osp_type :: "osp_type \<Rightarrow> osp_type \<Rightarrow> bool" where
  "less_eq_osp_type t u \<longleftrightarrow> enum_value t \<le> enum_value u"

definition less_osp_type :: "osp_type \<Rightarrow> osp_type \<Rightarrow> bool" where
  "less_osp_type t u \<longleftrightarrow> enum_value t < enum_value u"

instance
  by standard (auto simp: less_eq_osp_type_def less_osp_type_def dest: enum_value_inj)

end

end
