(* ===== verification/Objects.thy ===== *)
theory Objects
  imports Params OspTypes "HOL-Library.Multiset"
begin

text \<open>
  Managed objects: the reference counts of \<open>memory::RefCount\<close>, the references an
  object holds (parameters of object type, a model's geometries and volumes, the
  elements of a data array of objects, a geometry's material list, a frame
  buffer's pixel op), destruction, and the operations that move references.

  A heap is a list of objects, an address an index; a destroyed object leaves
  \<open>None\<close> and its address is not used again, so that an access to it shows as
  undefined behaviour.  \<open>release_refs\<close> is \<open>refDec\<close> with the destructors it
  triggers; what a dying object holds is released before anything else.
\<close>

section \<open>Objects\<close>

record mobj =
  refCounter :: int
  managedObjectType :: osp_type
  paramList :: params
  geometry :: "addr list"
  volume :: "addr list"
  elems :: "addr option list"
  materialListData :: "addr option"
  pixelOp :: "addr option"
  objectsListeningForChanges :: "addr list"

type_synonym heap = "mobj option list"

definition fresh_object :: "osp_type \<Rightarrow> mobj" where
  "fresh_object ty = \<lparr>refCounter = 1, managedObjectType = ty, paramList = [], geometry = [],
     volume = [], elems = [], materialListData = None, pixelOp = None,
     objectsListeningForChanges = []\<rparr>"

definition get_obj :: "addr \<Rightarrow> heap \<Rightarrow> mobj option" where
  "get_obj a h = (if a < length h then h ! a else None)"

definition live :: "heap \<Rightarrow> addr \<Rightarrow> bool" where
  "live h a \<longleftrightarrow> get_obj a h \<noteq> None"

definition with_obj :: "addr \<Rightarrow> heap \<Rightarrow> (mobj \<Rightarrow> 'a res) \<Rightarrow> 'a res" where
  "with_obj a h k = (case get_obj a h of None \<Rightarrow> Inl Undefined_behaviour | Some ob \<Rightarrow> k ob)"

definition modify_obj :: "addr \<Rightarrow> (mobj \<Rightarrow> mobj) \<Rightarrow> heap \<Rightarrow> heap res" where
  "modify_obj a f h = with_obj a h (\<lambda>ob. Inr (h[a := Some (f ob)]))"

definition new_obj :: "mobj \<Rightarrow> heap \<Rightarrow> addr \<times> heap" where
  "new_obj ob h = (length h, h @ [Some ob])"

fun object_of :: "any \<Rightarrow> addr list" where
  "object_of (Some (A_object (Some a))) = [a]"
| "object_of _ = []"

definition param_objects :: "params \<Rightarrow> addr list" where
  "param_objects ps = concat (map (object_of \<circ> snd) ps)"

definition opt_list :: "'a option \<Rightarrow> 'a list" where
  "opt_list x = (case x of None \<Rightarrow> [] | Some a \<Rightarrow> [a])"

definition owned :: "mobj \<Rightarrow> addr list" where
  "owned ob = geometry ob @ volume ob @ concat (map opt_list (elems ob)) @
     opt_list (materialListData ob) @ opt_list (pixelOp ob) @ param_objects (paramList ob)"

section \<open>Reference counting\<close>

definition refInc :: "addr \<Rightarrow> heap \<Rightarrow> heap res" where
  "refInc a = modify_obj a (\<lambda>ob. ob\<lparr>refCounter := refCounter ob + 1\<rparr>)"

definition live_count :: "heap \<Rightarrow> nat" where
  "live_count h = length (filter (\<lambda>x. x \<noteq> None) h)"

lemma live_count_remove:
  "get_obj a h = Some ob \<Longrightarrow> live_count (h[a := None]) < live_count h"
proof -
  assume "get_obj a h = Some ob"
  then have "a < length h" "h ! a = Some ob" by (auto simp: get_obj_def split: if_splits)
  then show ?thesis
  proof (induction h arbitrary: a)
    case (Cons x h)
    then show ?case by (cases a) (auto simp: live_count_def)
  qed simp
qed

lemma live_count_keep:
  "get_obj a h = Some ob \<Longrightarrow> live_count (h[a := Some ob']) = live_count h"
proof -
  assume "get_obj a h = Some ob"
  then have "a < length h" "h ! a = Some ob" by (auto simp: get_obj_def split: if_splits)
  then show ?thesis
  proof (induction h arbitrary: a)
    case (Cons x h)
    then show ?case by (cases a) (auto simp: live_count_def)
  qed simp
qed

function release_refs :: "addr list \<Rightarrow> heap \<Rightarrow> heap res" where
  "release_refs [] h = Inr h"
| "release_refs (a # as) h = (case get_obj a h of
      None \<Rightarrow> Inl Undefined_behaviour
    | Some ob \<Rightarrow>
        if refCounter ob - 1 = 0 then release_refs (owned ob @ as) (h[a := None])
        else release_refs as (h[a := Some (ob\<lparr>refCounter := refCounter ob - 1\<rparr>)]))"
  by pat_completeness auto
termination
  by (relation "measures [\<lambda>(as, h). live_count h, \<lambda>(as, h). length as]")
     (auto simp: live_count_remove live_count_keep)

definition refDec :: "addr \<Rightarrow> heap \<Rightarrow> heap res" where
  "refDec a h = release_refs [a] h"

section \<open>Balanced heaps\<close>

text \<open>\<open>refs h\<close> are all the references held by live objects.  A heap is balanced
  for the multiset \<open>R\<close> of references held from outside (the application's, and
  those nobody holds any more) when every reference is to a live object and every
  count is the number of references.\<close>

definition own_opt :: "mobj option \<Rightarrow> addr multiset" where
  "own_opt x = (case x of None \<Rightarrow> {#} | Some ob \<Rightarrow> mset (owned ob))"

definition refs :: "heap \<Rightarrow> addr multiset" where
  "refs h = sum_list (map own_opt h)"

definition balanced :: "heap \<Rightarrow> addr multiset \<Rightarrow> bool" where
  "balanced h R \<longleftrightarrow> (\<forall>a. a \<in># refs h + R \<longrightarrow> live h a) \<and>
     (\<forall>a ob. get_obj a h = Some ob \<longrightarrow>
        0 < refCounter ob \<and> refCounter ob = int (count (refs h + R) a))"

lemma get_obj_update [simp]:
  "get_obj a (h[b := x]) = (if a = b \<and> b < length h then x else get_obj a h)"
  by (auto simp: get_obj_def)

lemma get_obj_less: "get_obj a h = Some ob \<Longrightarrow> a < length h"
  by (auto simp: get_obj_def split: if_splits)

lemma live_update [simp]:
  "live (h[b := x]) a \<longleftrightarrow> (if a = b \<and> b < length h then x \<noteq> None else live h a)"
  by (simp add: live_def)

lemma refs_update:
  "a < length h \<Longrightarrow> refs (h[a := x]) + own_opt (h ! a) = refs h + own_opt x"
proof (induction h arbitrary: a)
  case (Cons y h)
  then show ?case by (cases a) (auto simp: refs_def ac_simps)
qed simp

lemma refs_update_obj:
  "get_obj a h = Some ob \<Longrightarrow> refs (h[a := x]) + mset (owned ob) = refs h + own_opt x"
  using refs_update [of a h x] by (auto simp: get_obj_def own_opt_def split: if_splits)

lemma refs_same:
  assumes "get_obj a h = Some ob" and "owned ob' = owned ob"
  shows "refs (h[a := Some ob']) = refs h"
  using refs_update_obj [OF assms(1), of "Some ob'"] assms(2) by (simp add: own_opt_def)

lemma refs_new: "refs (h @ [Some ob]) = refs h + mset (owned ob)"
  by (simp add: refs_def own_opt_def)

lemma owned_count [simp]: "owned (ob\<lparr>refCounter := c\<rparr>) = owned ob"
  by (simp add: owned_def)

lemma balanced_live: "balanced h R \<Longrightarrow> a \<in># refs h + R \<Longrightarrow> live h a"
  unfolding balanced_def by blast

lemma balanced_obj:
  "balanced h R \<Longrightarrow> get_obj a h = Some ob \<Longrightarrow> refCounter ob = int (count (refs h + R) a) \<and> 0 < refCounter ob"
  unfolding balanced_def by blast

lemma balancedI:
  assumes "\<And>a. a \<in># refs h + R \<Longrightarrow> live h a"
    and "\<And>a ob. get_obj a h = Some ob \<Longrightarrow> 0 < refCounter ob"
    and "\<And>a ob. get_obj a h = Some ob \<Longrightarrow> refCounter ob = int (count (refs h + R) a)"
  shows "balanced h R"
  using assms unfolding balanced_def by blast

text \<open>Releasing references that are there keeps the heap balanced.\<close>

lemma balanced_remove:
  assumes "balanced h (add_mset a R)" and "get_obj a h = Some ob" and "refCounter ob - 1 = 0"
  shows "balanced (h[a := None]) (mset (owned ob) + R)"
proof -
  have eq: "refs (h[a := None]) + (mset (owned ob) + R) = refs h + R"
    using refs_update_obj [OF assms(2), of None] by (simp add: own_opt_def ac_simps)
  have "count (refs h + add_mset a R) a = 1"
    using balanced_obj [OF assms(1,2)] assms(3) by simp
  then have none: "a \<notin># refs h + R" by (simp add: not_in_iff)
  show ?thesis
  proof (rule balancedI)
    fix b
    assume "b \<in># refs (h[a := None]) + (mset (owned ob) + R)"
    then have "b \<in># refs h + R" using eq by simp
    with none balanced_live [OF assms(1), of b] show "live (h[a := None]) b" by auto
  next
    fix b ob'
    assume "get_obj b (h[a := None]) = Some ob'"
    then have b: "b \<noteq> a" "get_obj b h = Some ob'" using get_obj_less [OF assms(2)]
      by (auto split: if_splits)
    from balanced_obj [OF assms(1) b(2)] show "0 < refCounter ob'" by simp
    have "count (refs (h[a := None]) + (mset (owned ob) + R)) b = count (refs h + R) b"
      by (simp only: eq)
    with balanced_obj [OF assms(1) b(2)] b(1)
    show "refCounter ob' = int (count (refs (h[a := None]) + (mset (owned ob) + R)) b)" by simp
  qed
qed

lemma balanced_dec:
  assumes "balanced h (add_mset a R)" and "get_obj a h = Some ob" and "refCounter ob - 1 \<noteq> 0"
  shows "balanced (h[a := Some (ob\<lparr>refCounter := refCounter ob - 1\<rparr>)]) R"
proof -
  have eq: "refs (h[a := Some (ob\<lparr>refCounter := refCounter ob - 1\<rparr>)]) = refs h"
    by (rule refs_same [OF assms(2)]) simp
  show ?thesis
  proof (rule balancedI, goal_cases)
    case (1 b)
    with balanced_live [OF assms(1), of b] show ?case by (auto simp: eq)
  next
    case (2 b ob')
    with balanced_obj [OF assms(1), of b] balanced_obj [OF assms(1,2)] assms(3) show ?case
      by (auto split: if_splits)
  next
    case (3 b ob')
    then show ?case unfolding eq
      using balanced_obj [OF assms(1), of b] balanced_obj [OF assms(1,2)] get_obj_less [OF assms(2)]
      by (auto split: if_splits)
  qed
qed

lemma release_balanced:
  "balanced h (mset as + R) \<Longrightarrow> \<exists>h'. release_refs as h = Inr h' \<and> balanced h' R"
proof (induction as h rule: release_refs.induct)
  case (2 a as h)
  then have "live h a" by (intro balanced_live) auto
  then obtain ob where ob: "get_obj a h = Some ob" by (auto simp: live_def)
  have b: "balanced h (add_mset a (mset as + R))" using "2.prems" by simp
  show ?case
  proof (cases "refCounter ob - 1 = 0")
    case True
    from balanced_remove [OF b ob True]
    have "balanced (h[a := None]) (mset (owned ob @ as) + R)" by (simp add: ac_simps)
    from "2.IH"(1) [OF ob True this] show ?thesis using ob True by simp
  next
    case False
    from "2.IH"(2) [OF ob False balanced_dec [OF b ob False]] show ?thesis using ob False by simp
  qed
qed simp

lemma refDec_balanced:
  "balanced h (add_mset a R) \<Longrightarrow> \<exists>h'. refDec a h = Inr h' \<and> balanced h' R"
  using release_balanced [of h "[a]" R] by (simp add: refDec_def)

lemma refInc_ok:
  assumes "balanced h R" and "live h a"
  shows "\<exists>h'. refInc a h = Inr h' \<and> balanced h' (add_mset a R) \<and>
     (\<forall>b. get_obj b h' = (if b = a then map_option (\<lambda>ob. ob\<lparr>refCounter := refCounter ob + 1\<rparr>) (get_obj a h)
                          else get_obj b h))"
proof -
  from assms(2) obtain ob where ob: "get_obj a h = Some ob" by (auto simp: live_def)
  have eq: "refs (h[a := Some (ob\<lparr>refCounter := refCounter ob + 1\<rparr>)]) = refs h"
    by (rule refs_same [OF ob]) simp
  have "balanced (h[a := Some (ob\<lparr>refCounter := refCounter ob + 1\<rparr>)]) (add_mset a R)"
  proof (rule balancedI, goal_cases)
    case (1 b)
    with balanced_live [OF assms(1), of b] assms(2) show ?case by (auto simp: eq)
  next
    case (2 b ob')
    with balanced_obj [OF assms(1), of b] balanced_obj [OF assms(1) ob] show ?case
      by (auto split: if_splits)
  next
    case (3 b ob')
    then show ?case unfolding eq
      using balanced_obj [OF assms(1), of b] balanced_obj [OF assms(1) ob] get_obj_less [OF ob]
      by (auto split: if_splits)
  qed
  then show ?thesis using ob get_obj_less [OF ob]
    by (simp add: refInc_def modify_obj_def with_obj_def)
qed

text \<open>Changing what an object holds moves references between it and the outside.\<close>

lemma balanced_modify:
  assumes "balanced h R" and "get_obj a h = Some ob" and "refCounter ob' = refCounter ob"
    and "mset (owned ob') + S = mset (owned ob) + R" 
  shows "balanced (h[a := Some ob']) S"
proof -
  have eq: "refs (h[a := Some ob']) + S = refs h + R"
  proof -
    have "refs (h[a := Some ob']) + mset (owned ob) + S + mset (owned ob') = refs h + mset (owned ob') + (S + mset (owned ob'))"
      using refs_update_obj [OF assms(2), of "Some ob'"] by (simp add: own_opt_def)
    also have "S + mset (owned ob') = mset (owned ob) + R" using assms(4) by (simp add: ac_simps)
    finally have "refs (h[a := Some ob']) + S + (mset (owned ob) + mset (owned ob')) =
        refs h + R + (mset (owned ob) + mset (owned ob'))" by (simp add: ac_simps)
    then show ?thesis by (simp only: add_right_cancel)
  qed
  show ?thesis
  proof (rule balancedI, goal_cases)
    case (1 b)
    then have "b \<in># refs h + R" by (simp only: eq)
    with balanced_live [OF assms(1), of b] show ?case by auto
  next
    case (2 b ob'')
    with balanced_obj [OF assms(1), of b] balanced_obj [OF assms(1,2)] assms(3) show ?case
      by (auto split: if_splits)
  next
    case (3 b ob'')
    show ?case unfolding eq using 3 balanced_obj [OF assms(1), of b] balanced_obj [OF assms(1,2)] assms(3)
      get_obj_less [OF assms(2)] by (auto split: if_splits)
  qed
qed

lemma balanced_new:
  assumes "balanced h (mset (owned ob) + R)" and "refCounter ob = 1"
  shows "balanced (h @ [Some ob]) (add_mset (length h) R)"
proof -
  have old: "get_obj b (h @ [Some ob]) = (if b = length h then Some ob else get_obj b h)" for b
    by (auto simp: get_obj_def nth_append)
  have nolive: "\<not> live h (length h)" by (simp add: live_def get_obj_def)
  then have zero: "count (refs h + (mset (owned ob) + R)) (length h) = 0"
    using balanced_live [OF assms(1)] by (metis not_in_iff)
  have eq: "refs (h @ [Some ob]) + add_mset (length h) R = add_mset (length h) (refs h + (mset (owned ob) + R))"
    by (simp add: refs_new ac_simps)
  show ?thesis
  proof (rule balancedI, goal_cases)
    case (1 b)
    then have "b \<in># add_mset (length h) (refs h + (mset (owned ob) + R))" by (simp only: eq)
    then have "b = length h \<or> b \<in># refs h + (mset (owned ob) + R)" by auto
    with balanced_live [OF assms(1), of b] show ?case by (auto simp: live_def old)
  next
    case (2 b ob')
    with balanced_obj [OF assms(1), of b] assms(2) show ?case by (auto simp: old split: if_splits)
  next
    case (3 b ob')
    show ?case unfolding eq using 3 balanced_obj [OF assms(1), of b] assms(2) zero
      by (auto simp: old split: if_splits)
  qed
qed

section \<open>What a release does to the other objects\<close>

lemma dead_stays_dead: "release_refs as h = Inr h' \<Longrightarrow> get_obj a h = None \<Longrightarrow> get_obj a h' = None"
proof (induction as h rule: release_refs.induct)
  case (2 b as h)
  then show ?case by (cases "a = b") (auto split: option.splits if_splits)
qed simp

text \<open>An update of an object that survives can be made before or after a release
  (the code releases the old value of a parameter before it overwrites it).\<close>

lemma release_update:
  assumes "release_refs as (h[t := Some (f ob)]) = Inr h2" and "get_obj t h = Some ob"
    and "live h2 t" and "\<And>c ob. f (ob\<lparr>refCounter := c\<rparr>) = (f ob)\<lparr>refCounter := c\<rparr>"
    and "refCounter (f ob) = refCounter ob"
  shows "\<exists>h1 c. release_refs as h = Inr h1 \<and> get_obj t h1 = Some (ob\<lparr>refCounter := c\<rparr>) \<and>
     h2 = h1[t := Some (f (ob\<lparr>refCounter := c\<rparr>))]"
  using assms(1,2,3,5)
proof (induction as h arbitrary: ob rule: release_refs.induct)
  case (1 h)
  then show ?case by (intro exI [of _ h] exI [of _ "refCounter ob"]) simp
next
  case (2 a as h)
  have t: "t < length h" using "2.prems"(2) by (rule get_obj_less)
  show ?case
  proof (cases "a = t")
    case True
    have nz: "refCounter ob - 1 \<noteq> 0"
    proof
      assume z: "refCounter ob - 1 = 0"
      then have "release_refs (owned (f ob) @ as) (h[t := None]) = Inr h2"
        using "2.prems" True t by simp
      from dead_stays_dead [OF this, of t] t "2.prems"(3) show False by (simp add: live_def)
    qed
    let ?h = "h[t := Some (ob\<lparr>refCounter := refCounter ob - 1\<rparr>)]"
    have "release_refs as (?h[t := Some (f (ob\<lparr>refCounter := refCounter ob - 1\<rparr>))]) = Inr h2"
      using "2.prems" True t nz by (simp add: assms(4))
    moreover have "get_obj t ?h = Some (ob\<lparr>refCounter := refCounter ob - 1\<rparr>)" using t by simp
    ultimately obtain h1 c where
      "release_refs as ?h = Inr h1" "get_obj t h1 = Some (ob\<lparr>refCounter := refCounter ob - 1\<rparr>\<lparr>refCounter := c\<rparr>)"
      "h2 = h1[t := Some (f (ob\<lparr>refCounter := refCounter ob - 1\<rparr>\<lparr>refCounter := c\<rparr>))]"
      using "2.IH"(2) [of ob "ob\<lparr>refCounter := refCounter ob - 1\<rparr>"] "2.prems" True nz assms(4)
      by (auto simp: assms(4))
    then show ?thesis using True nz "2.prems"(2) by (intro exI [of _ h1] exI [of _ c]) simp
  next
    case False
    then have same: "get_obj a (h[t := Some (f ob)]) = get_obj a h" by simp
    with "2.prems"(1) obtain ob1 where ob1: "get_obj a h = Some ob1"
      by (auto split: option.splits if_splits)
    show ?thesis
    proof (cases "refCounter ob1 - 1 = 0")
      case True
      have "release_refs (owned ob1 @ as) (h[a := None, t := Some (f ob)]) = Inr h2"
        using "2.prems"(1) ob1 True False same by (simp add: list_update_swap [of a t])
      from "2.IH"(1) [OF ob1 True this _ "2.prems"(3,4)] "2.prems"(2) False ob1 True
      show ?thesis by simp
    next
      case False2: False
      have "release_refs as (h[a := Some (ob1\<lparr>refCounter := refCounter ob1 - 1\<rparr>), t := Some (f ob)]) = Inr h2"
        using "2.prems"(1) ob1 False2 False same by (simp add: list_update_swap [of a t])
      from "2.IH"(2) [OF ob1 False2 this _ "2.prems"(3,4)] "2.prems"(2) False ob1 False2
      show ?thesis by simp
    qed
  qed
qed

end
