(* ===== verification/Works.thy ===== *)
theory Works
  imports Serialize
begin

text \<open>
  The work units of the MPI offload device (\<open>modules/mpi/common/OSPWork\<close>): one
  constructor per C++ class, each with its \<open>serialize\<close> and \<open>deserialize\<close>, the
  type tags of \<open>translatedHash\<close>, the registry that maps a tag to the class it
  creates, and \<open>readWork\<close>, which the worker's loop calls.  What a unit does when
  it runs is in the theory \<open>WorkRun\<close>.

  \<open>type_info::hash_code\<close> belongs to the C++ runtime: it is a parameter.
\<close>

section \<open>The units\<close>

type_synonym handle = u64

datatype object_kind =
  K_Renderer | K_Model | K_Geometry | K_Camera | K_Volume | K_TransferFunction | K_PixelOp | K_Texture

datatype (plugins only: code size) param_value =
    P_object handle
  | P_string string
  | P_int i32
  | P_bool bool
  | P_float float_bits
  | P_vec2f vec2f
  | P_vec2i vec2i
  | P_vec3f vec3f
  | P_vec3i vec3i
  | P_vec4f vec4f

datatype param_type =
  T_object | T_string | T_int | T_bool | T_float | T_vec2f | T_vec2i | T_vec3f | T_vec3i | T_vec4f

fun param_type_of :: "param_value \<Rightarrow> param_type" where
  "param_type_of (P_object _) = T_object"
| "param_type_of (P_string _) = T_string"
| "param_type_of (P_int _) = T_int"
| "param_type_of (P_bool _) = T_bool"
| "param_type_of (P_float _) = T_float"
| "param_type_of (P_vec2f _) = T_vec2f"
| "param_type_of (P_vec2i _) = T_vec2i"
| "param_type_of (P_vec3f _) = T_vec3f"
| "param_type_of (P_vec3i _) = T_vec3i"
| "param_type_of (P_vec4f _) = T_vec4f"

text \<open>The fields are in the order of the C++ classes; \<open>NewData\<close> has the bytes of
  its \<open>dataView\<close>.\<close>

datatype (plugins only: code size) work =
    SetLoadBalancer i32 i32 handle
  | NewObjectT object_kind string handle
  | NewMaterial handle string handle
  | NewMaterial2 string string handle
  | NewLight string handle
  | NewData handle u64 u32 "byte list" i32
  | SetRegion handle vec3i vec3i u32 "byte list"
  | CommitObject handle
  | ClearFrameBuffer handle u32
  | RenderFrame handle handle u32 float_bits
  | AddVolume handle handle
  | AddGeometry handle handle
  | RemoveGeometry handle handle
  | RemoveVolume handle handle
  | CreateFrameBuffer handle vec2i u32 u32
  | SetParam handle string param_value
  | SetMaterial handle handle
  | RemoveParam handle string
  | SetPixelOp handle handle
  | CommandRelease handle
  | LoadModule string i32
  | CommandFinalize
  | Pick handle vec2f "byte list"

datatype (plugins only: code size) work_type =
    W_SetLoadBalancer | W_NewObjectT object_kind | W_NewMaterial | W_NewMaterial2 | W_NewLight
  | W_NewData | W_SetRegion | W_CommitObject | W_ClearFrameBuffer | W_RenderFrame | W_AddVolume
  | W_AddGeometry | W_RemoveGeometry | W_RemoveVolume | W_CreateFrameBuffer
  | W_SetParam param_type | W_SetMaterial | W_RemoveParam | W_SetPixelOp | W_CommandRelease
  | W_LoadModule | W_CommandFinalize | W_Pick

fun type_of :: "work \<Rightarrow> work_type" where
  "type_of (SetLoadBalancer _ _ _) = W_SetLoadBalancer"
| "type_of (NewObjectT k _ _) = W_NewObjectT k"
| "type_of (NewMaterial _ _ _) = W_NewMaterial"
| "type_of (NewMaterial2 _ _ _) = W_NewMaterial2"
| "type_of (NewLight _ _) = W_NewLight"
| "type_of (NewData _ _ _ _ _) = W_NewData"
| "type_of (SetRegion _ _ _ _ _) = W_SetRegion"
| "type_of (CommitObject _) = W_CommitObject"
| "type_of (ClearFrameBuffer _ _) = W_ClearFrameBuffer"
| "type_of (RenderFrame _ _ _ _) = W_RenderFrame"
| "type_of (AddVolume _ _) = W_AddVolume"
| "type_of (AddGeometry _ _) = W_AddGeometry"
| "type_of (RemoveGeometry _ _) = W_RemoveGeometry"
| "type_of (RemoveVolume _ _) = W_RemoveVolume"
| "type_of (CreateFrameBuffer _ _ _ _) = W_CreateFrameBuffer"
| "type_of (SetParam _ _ v) = W_SetParam (param_type_of v)"
| "type_of (SetMaterial _ _) = W_SetMaterial"
| "type_of (RemoveParam _ _) = W_RemoveParam"
| "type_of (SetPixelOp _ _) = W_SetPixelOp"
| "type_of (CommandRelease _) = W_CommandRelease"
| "type_of (LoadModule _ _) = W_LoadModule"
| "type_of CommandFinalize = W_CommandFinalize"
| "type_of (Pick _ _ _) = W_Pick"

section \<open>Serialising\<close>

fun wr_param :: "param_value \<Rightarrow> write_calls" where
  "wr_param (P_object h) = wr_u64 h"
| "wr_param (P_string s) = wr_string s"
| "wr_param (P_int i) = wr_u32 i"
| "wr_param (P_bool b) = wr_bool b"
| "wr_param (P_float f) = wr_u32 f"
| "wr_param (P_vec2f v) = wr_vec2 v"
| "wr_param (P_vec2i v) = wr_vec2 v"
| "wr_param (P_vec3f v) = wr_vec3 v"
| "wr_param (P_vec3i v) = wr_vec3 v"
| "wr_param (P_vec4f v) = wr_vec4 v"

definition SetLoadBalancer_serialize :: "i32 \<Rightarrow> handle \<Rightarrow> write_calls" where
  "SetLoadBalancer_serialize dyn h = wr_u64 h @ wr_u32 dyn"

definition NewObjectT_serialize :: "string \<Rightarrow> handle \<Rightarrow> write_calls" where
  "NewObjectT_serialize ty h = wr_u64 h @ wr_string ty"

definition NewMaterial_serialize :: "handle \<Rightarrow> string \<Rightarrow> handle \<Rightarrow> write_calls" where
  "NewMaterial_serialize r ty h = wr_u64 h @ wr_u64 r @ wr_string ty"

definition NewMaterial2_serialize :: "string \<Rightarrow> string \<Rightarrow> handle \<Rightarrow> write_calls" where
  "NewMaterial2_serialize rty mty h = wr_u64 h @ wr_string rty @ wr_string mty"

definition NewLight_serialize :: "string \<Rightarrow> handle \<Rightarrow> write_calls" where
  "NewLight_serialize ty h = wr_u64 h @ wr_string ty"

definition NewData_serialize :: "handle \<Rightarrow> u64 \<Rightarrow> u32 \<Rightarrow> byte list \<Rightarrow> i32 \<Rightarrow> write_calls" where
  "NewData_serialize h n fmt bs flags = wr_u64 h @ wr_u64 n @ wr_u32 fmt @ wr_u32 flags @ wr_array_view bs"

definition SetRegion_serialize :: "handle \<Rightarrow> vec3i \<Rightarrow> vec3i \<Rightarrow> u32 \<Rightarrow> byte list \<Rightarrow> write_calls" where
  "SetRegion_serialize h st sz ty bs = wr_u64 h @ wr_vec3 st @ wr_vec3 sz @ wr_u32 ty @ wr_vector wr_byte bs"

definition CommitObject_serialize :: "handle \<Rightarrow> write_calls" where
  "CommitObject_serialize h = wr_u64 h"

definition ClearFrameBuffer_serialize :: "handle \<Rightarrow> u32 \<Rightarrow> write_calls" where
  "ClearFrameBuffer_serialize h ch = wr_u64 h @ wr_u32 ch"

definition RenderFrame_serialize :: "handle \<Rightarrow> handle \<Rightarrow> u32 \<Rightarrow> write_calls" where
  "RenderFrame_serialize fb r ch = wr_u64 fb @ wr_u64 r @ wr_u32 ch"

definition AddVolume_serialize :: "handle \<Rightarrow> handle \<Rightarrow> write_calls" where
  "AddVolume_serialize m ob = wr_u64 m @ wr_u64 ob"

definition AddGeometry_serialize :: "handle \<Rightarrow> handle \<Rightarrow> write_calls" where
  "AddGeometry_serialize m ob = wr_u64 m @ wr_u64 ob"

definition RemoveGeometry_serialize :: "handle \<Rightarrow> handle \<Rightarrow> write_calls" where
  "RemoveGeometry_serialize m ob = wr_u64 m @ wr_u64 ob"

definition RemoveVolume_serialize :: "handle \<Rightarrow> handle \<Rightarrow> write_calls" where
  "RemoveVolume_serialize m ob = wr_u64 m @ wr_u64 ob"

definition CreateFrameBuffer_serialize :: "handle \<Rightarrow> vec2i \<Rightarrow> u32 \<Rightarrow> u32 \<Rightarrow> write_calls" where
  "CreateFrameBuffer_serialize h d fmt ch = wr_u64 h @ wr_vec2 d @ wr_u32 fmt @ wr_u32 ch"

definition SetParam_serialize :: "handle \<Rightarrow> string \<Rightarrow> param_value \<Rightarrow> write_calls" where
  "SetParam_serialize h nm v = wr_u64 h @ wr_string nm @ wr_param v"

definition SetMaterial_serialize :: "handle \<Rightarrow> handle \<Rightarrow> write_calls" where
  "SetMaterial_serialize h m = wr_u64 h @ wr_u64 m"

definition RemoveParam_serialize :: "handle \<Rightarrow> string \<Rightarrow> write_calls" where
  "RemoveParam_serialize h nm = wr_u64 h @ wr_string nm"

definition SetPixelOp_serialize :: "handle \<Rightarrow> handle \<Rightarrow> write_calls" where
  "SetPixelOp_serialize fb po = wr_u64 fb @ wr_u64 po"

definition CommandRelease_serialize :: "handle \<Rightarrow> write_calls" where
  "CommandRelease_serialize h = wr_u64 h"

definition LoadModule_serialize :: "string \<Rightarrow> write_calls" where
  "LoadModule_serialize nm = wr_string nm"

definition CommandFinalize_serialize :: "write_calls" where
  "CommandFinalize_serialize = []"

definition Pick_serialize :: "handle \<Rightarrow> vec2f \<Rightarrow> write_calls" where
  "Pick_serialize r pos = wr_u64 r @ wr_vec2 pos"

fun serialize :: "work \<Rightarrow> write_calls" where
  "serialize (SetLoadBalancer dyn n h) = SetLoadBalancer_serialize dyn h"
| "serialize (NewObjectT k ty h) = NewObjectT_serialize ty h"
| "serialize (NewMaterial r ty h) = NewMaterial_serialize r ty h"
| "serialize (NewMaterial2 rty mty h) = NewMaterial2_serialize rty mty h"
| "serialize (NewLight ty h) = NewLight_serialize ty h"
| "serialize (NewData h n fmt bs flags) = NewData_serialize h n fmt bs flags"
| "serialize (SetRegion h st sz ty bs) = SetRegion_serialize h st sz ty bs"
| "serialize (CommitObject h) = CommitObject_serialize h"
| "serialize (ClearFrameBuffer h ch) = ClearFrameBuffer_serialize h ch"
| "serialize (RenderFrame fb r ch v) = RenderFrame_serialize fb r ch"
| "serialize (AddVolume m ob) = AddVolume_serialize m ob"
| "serialize (AddGeometry m ob) = AddGeometry_serialize m ob"
| "serialize (RemoveGeometry m ob) = RemoveGeometry_serialize m ob"
| "serialize (RemoveVolume m ob) = RemoveVolume_serialize m ob"
| "serialize (CreateFrameBuffer h d fmt ch) = CreateFrameBuffer_serialize h d fmt ch"
| "serialize (SetParam h nm v) = SetParam_serialize h nm v"
| "serialize (SetMaterial h m) = SetMaterial_serialize h m"
| "serialize (RemoveParam h nm) = RemoveParam_serialize h nm"
| "serialize (SetPixelOp fb po) = SetPixelOp_serialize fb po"
| "serialize (CommandRelease h) = CommandRelease_serialize h"
| "serialize (LoadModule nm e) = LoadModule_serialize nm"
| "serialize CommandFinalize = CommandFinalize_serialize"
| "serialize (Pick r pos res) = Pick_serialize r pos"

lemmas serialize_defs =
  SetLoadBalancer_serialize_def
  NewObjectT_serialize_def
  NewMaterial_serialize_def
  NewMaterial2_serialize_def
  NewLight_serialize_def
  NewData_serialize_def
  SetRegion_serialize_def
  CommitObject_serialize_def
  ClearFrameBuffer_serialize_def
  RenderFrame_serialize_def
  AddVolume_serialize_def
  AddGeometry_serialize_def
  RemoveGeometry_serialize_def
  RemoveVolume_serialize_def
  CreateFrameBuffer_serialize_def
  SetParam_serialize_def
  SetMaterial_serialize_def
  RemoveParam_serialize_def
  SetPixelOp_serialize_def
  CommandRelease_serialize_def
  LoadModule_serialize_def
  CommandFinalize_serialize_def
  Pick_serialize_def

section \<open>Deserialising\<close>

text \<open>A work unit is created with its default constructor and then reads its
  fields: the ones that are not sent keep their default.\<close>

definition rd_bytes :: "'s reader \<Rightarrow> ('s, byte list) decoder" where
  "rd_bytes rd = rd_vector rd (rd_byte rd)"

fun rd_param :: "param_type \<Rightarrow> 's reader \<Rightarrow> ('s, param_value) decoder" where
  "rd_param T_object rd = then_dec (rd_u64 rd) (\<lambda>v. ret_dec (P_object v))"
| "rd_param T_string rd = then_dec (rd_string rd) (\<lambda>v. ret_dec (P_string v))"
| "rd_param T_int rd = then_dec (rd_u32 rd) (\<lambda>v. ret_dec (P_int v))"
| "rd_param T_bool rd = then_dec (rd_bool rd) (\<lambda>v. ret_dec (P_bool v))"
| "rd_param T_float rd = then_dec (rd_u32 rd) (\<lambda>v. ret_dec (P_float v))"
| "rd_param T_vec2f rd = then_dec (rd_vec2 rd) (\<lambda>v. ret_dec (P_vec2f v))"
| "rd_param T_vec2i rd = then_dec (rd_vec2 rd) (\<lambda>v. ret_dec (P_vec2i v))"
| "rd_param T_vec3f rd = then_dec (rd_vec3 rd) (\<lambda>v. ret_dec (P_vec3f v))"
| "rd_param T_vec3i rd = then_dec (rd_vec3 rd) (\<lambda>v. ret_dec (P_vec3i v))"
| "rd_param T_vec4f rd = then_dec (rd_vec4 rd) (\<lambda>v. ret_dec (P_vec4f v))"

definition SetLoadBalancer_deserialize :: "'s reader \<Rightarrow> ('s, work) decoder" where
  "SetLoadBalancer_deserialize rd =
     then_dec (rd_u64 rd) (\<lambda>h. then_dec (rd_u32 rd) (\<lambda>dyn. ret_dec (SetLoadBalancer dyn 4 h)))"

definition NewObjectT_deserialize :: "object_kind \<Rightarrow> 's reader \<Rightarrow> ('s, work) decoder" where
  "NewObjectT_deserialize k rd =
     then_dec (rd_u64 rd) (\<lambda>h. then_dec (rd_string rd) (\<lambda>ty. ret_dec (NewObjectT k ty h)))"

definition NewMaterial_deserialize :: "'s reader \<Rightarrow> ('s, work) decoder" where
  "NewMaterial_deserialize rd =
     then_dec (rd_u64 rd) (\<lambda>h. then_dec (rd_u64 rd) (\<lambda>r.
     then_dec (rd_string rd) (\<lambda>ty. ret_dec (NewMaterial r ty h))))"

definition NewMaterial2_deserialize :: "'s reader \<Rightarrow> ('s, work) decoder" where
  "NewMaterial2_deserialize rd =
     then_dec (rd_u64 rd) (\<lambda>h. then_dec (rd_string rd) (\<lambda>rty.
     then_dec (rd_string rd) (\<lambda>mty. ret_dec (NewMaterial2 rty mty h))))"

definition NewLight_deserialize :: "'s reader \<Rightarrow> ('s, work) decoder" where
  "NewLight_deserialize rd =
     then_dec (rd_u64 rd) (\<lambda>h. then_dec (rd_string rd) (\<lambda>ty. ret_dec (NewLight ty h)))"

definition NewData_deserialize :: "'s reader \<Rightarrow> ('s, work) decoder" where
  "NewData_deserialize rd =
     then_dec (rd_u64 rd) (\<lambda>h. then_dec (rd_u64 rd) (\<lambda>n. then_dec (rd_u32 rd) (\<lambda>fmt.
     then_dec (rd_u32 rd) (\<lambda>flags. then_dec (rd_bytes rd) (\<lambda>bs.
     ret_dec (NewData h n fmt bs flags))))))"

definition SetRegion_deserialize :: "'s reader \<Rightarrow> ('s, work) decoder" where
  "SetRegion_deserialize rd =
     then_dec (rd_u64 rd) (\<lambda>h. then_dec (rd_vec3 rd) (\<lambda>st. then_dec (rd_vec3 rd) (\<lambda>sz.
     then_dec (rd_u32 rd) (\<lambda>ty. then_dec (rd_bytes rd) (\<lambda>bs.
     ret_dec (SetRegion h st sz ty bs))))))"

definition CommitObject_deserialize :: "'s reader \<Rightarrow> ('s, work) decoder" where
  "CommitObject_deserialize rd = then_dec (rd_u64 rd) (\<lambda>h. ret_dec (CommitObject h))"

definition ClearFrameBuffer_deserialize :: "'s reader \<Rightarrow> ('s, work) decoder" where
  "ClearFrameBuffer_deserialize rd =
     then_dec (rd_u64 rd) (\<lambda>h. then_dec (rd_u32 rd) (\<lambda>ch. ret_dec (ClearFrameBuffer h ch)))"

definition RenderFrame_deserialize :: "'s reader \<Rightarrow> ('s, work) decoder" where
  "RenderFrame_deserialize rd =
     then_dec (rd_u64 rd) (\<lambda>fb. then_dec (rd_u64 rd) (\<lambda>r. then_dec (rd_u32 rd) (\<lambda>ch.
     ret_dec (RenderFrame fb r ch 0))))"

definition AddVolume_deserialize :: "'s reader \<Rightarrow> ('s, work) decoder" where
  "AddVolume_deserialize rd =
     then_dec (rd_u64 rd) (\<lambda>m. then_dec (rd_u64 rd) (\<lambda>ob. ret_dec (AddVolume m ob)))"

definition AddGeometry_deserialize :: "'s reader \<Rightarrow> ('s, work) decoder" where
  "AddGeometry_deserialize rd =
     then_dec (rd_u64 rd) (\<lambda>m. then_dec (rd_u64 rd) (\<lambda>ob. ret_dec (AddGeometry m ob)))"

definition RemoveGeometry_deserialize :: "'s reader \<Rightarrow> ('s, work) decoder" where
  "RemoveGeometry_deserialize rd =
     then_dec (rd_u64 rd) (\<lambda>m. then_dec (rd_u64 rd) (\<lambda>ob. ret_dec (RemoveGeometry m ob)))"

definition RemoveVolume_deserialize :: "'s reader \<Rightarrow> ('s, work) decoder" where
  "RemoveVolume_deserialize rd =
     then_dec (rd_u64 rd) (\<lambda>m. then_dec (rd_u64 rd) (\<lambda>ob. ret_dec (RemoveVolume m ob)))"

definition CreateFrameBuffer_deserialize :: "'s reader \<Rightarrow> ('s, work) decoder" where
  "CreateFrameBuffer_deserialize rd =
     then_dec (rd_u64 rd) (\<lambda>h. then_dec (rd_vec2 rd) (\<lambda>d. then_dec (rd_u32 rd) (\<lambda>fmt.
     then_dec (rd_u32 rd) (\<lambda>ch. ret_dec (CreateFrameBuffer h d fmt ch)))))"

definition SetParam_deserialize :: "param_type \<Rightarrow> 's reader \<Rightarrow> ('s, work) decoder" where
  "SetParam_deserialize t rd =
     then_dec (rd_u64 rd) (\<lambda>h. then_dec (rd_string rd) (\<lambda>nm.
     then_dec (rd_param t rd) (\<lambda>v. ret_dec (SetParam h nm v))))"

definition SetMaterial_deserialize :: "'s reader \<Rightarrow> ('s, work) decoder" where
  "SetMaterial_deserialize rd =
     then_dec (rd_u64 rd) (\<lambda>h. then_dec (rd_u64 rd) (\<lambda>m. ret_dec (SetMaterial h m)))"

definition RemoveParam_deserialize :: "'s reader \<Rightarrow> ('s, work) decoder" where
  "RemoveParam_deserialize rd =
     then_dec (rd_u64 rd) (\<lambda>h. then_dec (rd_string rd) (\<lambda>nm. ret_dec (RemoveParam h nm)))"

definition SetPixelOp_deserialize :: "'s reader \<Rightarrow> ('s, work) decoder" where
  "SetPixelOp_deserialize rd =
     then_dec (rd_u64 rd) (\<lambda>fb. then_dec (rd_u64 rd) (\<lambda>po. ret_dec (SetPixelOp fb po)))"

definition CommandRelease_deserialize :: "'s reader \<Rightarrow> ('s, work) decoder" where
  "CommandRelease_deserialize rd = then_dec (rd_u64 rd) (\<lambda>h. ret_dec (CommandRelease h))"

definition LoadModule_deserialize :: "'s reader \<Rightarrow> ('s, work) decoder" where
  "LoadModule_deserialize rd = then_dec (rd_string rd) (\<lambda>nm. ret_dec (LoadModule nm 0))"

definition CommandFinalize_deserialize :: "'s reader \<Rightarrow> ('s, work) decoder" where
  "CommandFinalize_deserialize rd = ret_dec CommandFinalize"

definition Pick_deserialize :: "'s reader \<Rightarrow> ('s, work) decoder" where
  "Pick_deserialize rd =
     then_dec (rd_u64 rd) (\<lambda>r. then_dec (rd_vec2 rd) (\<lambda>pos. ret_dec (Pick r pos [])))"

fun deserialize :: "work_type \<Rightarrow> 's reader \<Rightarrow> ('s, work) decoder" where
  "deserialize W_SetLoadBalancer rd = SetLoadBalancer_deserialize rd"
| "deserialize (W_NewObjectT k) rd = NewObjectT_deserialize k rd"
| "deserialize W_NewMaterial rd = NewMaterial_deserialize rd"
| "deserialize W_NewMaterial2 rd = NewMaterial2_deserialize rd"
| "deserialize W_NewLight rd = NewLight_deserialize rd"
| "deserialize W_NewData rd = NewData_deserialize rd"
| "deserialize W_SetRegion rd = SetRegion_deserialize rd"
| "deserialize W_CommitObject rd = CommitObject_deserialize rd"
| "deserialize W_ClearFrameBuffer rd = ClearFrameBuffer_deserialize rd"
| "deserialize W_RenderFrame rd = RenderFrame_deserialize rd"
| "deserialize W_AddVolume rd = AddVolume_deserialize rd"
| "deserialize W_AddGeometry rd = AddGeometry_deserialize rd"
| "deserialize W_RemoveGeometry rd = RemoveGeometry_deserialize rd"
| "deserialize W_RemoveVolume rd = RemoveVolume_deserialize rd"
| "deserialize W_CreateFrameBuffer rd = CreateFrameBuffer_deserialize rd"
| "deserialize (W_SetParam t) rd = SetParam_deserialize t rd"
| "deserialize W_SetMaterial rd = SetMaterial_deserialize rd"
| "deserialize W_RemoveParam rd = RemoveParam_deserialize rd"
| "deserialize W_SetPixelOp rd = SetPixelOp_deserialize rd"
| "deserialize W_CommandRelease rd = CommandRelease_deserialize rd"
| "deserialize W_LoadModule rd = LoadModule_deserialize rd"
| "deserialize W_CommandFinalize rd = CommandFinalize_deserialize rd"
| "deserialize W_Pick rd = Pick_deserialize rd"

lemmas deserialize_defs =
  SetLoadBalancer_deserialize_def
  NewObjectT_deserialize_def
  NewMaterial_deserialize_def
  NewMaterial2_deserialize_def
  NewLight_deserialize_def
  NewData_deserialize_def
  SetRegion_deserialize_def
  CommitObject_deserialize_def
  ClearFrameBuffer_deserialize_def
  RenderFrame_deserialize_def
  AddVolume_deserialize_def
  AddGeometry_deserialize_def
  RemoveGeometry_deserialize_def
  RemoveVolume_deserialize_def
  CreateFrameBuffer_deserialize_def
  SetParam_deserialize_def
  SetMaterial_deserialize_def
  RemoveParam_deserialize_def
  SetPixelOp_deserialize_def
  CommandRelease_deserialize_def
  LoadModule_deserialize_def
  CommandFinalize_deserialize_def
  Pick_deserialize_def

section \<open>What arrives\<close>

text \<open>The fields that are not sent are back to their default on the worker.\<close>

fun wire_image :: "work \<Rightarrow> work" where
  "wire_image (SetLoadBalancer dyn n h) = SetLoadBalancer dyn 4 h"
| "wire_image (RenderFrame fb r ch v) = RenderFrame fb r ch 0"
| "wire_image (LoadModule nm e) = LoadModule nm 0"
| "wire_image (Pick r pos res) = Pick r pos []"
| "wire_image w = w"

text \<open>A length is a \<open>size_t\<close>.\<close>

fun sizes_fit :: "work \<Rightarrow> bool" where
  "sizes_fit (NewObjectT k ty h) \<longleftrightarrow> length ty < 2 ^ 64"
| "sizes_fit (NewMaterial r ty h) \<longleftrightarrow> length ty < 2 ^ 64"
| "sizes_fit (NewMaterial2 rty mty h) \<longleftrightarrow> length rty < 2 ^ 64 \<and> length mty < 2 ^ 64"
| "sizes_fit (NewLight ty h) \<longleftrightarrow> length ty < 2 ^ 64"
| "sizes_fit (NewData h n fmt bs flags) \<longleftrightarrow> length bs < 2 ^ 64"
| "sizes_fit (SetRegion h st sz ty bs) \<longleftrightarrow> length bs < 2 ^ 64"
| "sizes_fit (SetParam h nm (P_string s)) \<longleftrightarrow> length nm < 2 ^ 64 \<and> length s < 2 ^ 64"
| "sizes_fit (SetParam h nm v) \<longleftrightarrow> length nm < 2 ^ 64"
| "sizes_fit (RemoveParam h nm) \<longleftrightarrow> length nm < 2 ^ 64"
| "sizes_fit (LoadModule nm e) \<longleftrightarrow> length nm < 2 ^ 64"
| "sizes_fit w \<longleftrightarrow> True"

lemma type_of_wire_image [simp]: "type_of (wire_image w) = type_of w"
  by (cases w) auto

context read_stream
begin

lemmas reads_prim = reads_u32 reads_u64 reads_bool reads_vec2 reads_vec3 reads_vec4 reads_string

lemma reads_bytes:
  "length bs < 2 ^ 64 \<Longrightarrow> reads (rd_bytes rd) (concat (wr_vector wr_byte bs)) bs"
  "length bs < 2 ^ 64 \<Longrightarrow> reads (rd_bytes rd) (concat (wr_array_view bs)) bs"
  unfolding rd_bytes_def by (rule reads_byte_vector reads_array_view; assumption)+

lemma reads_param:
  "(\<And>s. v = P_string s \<Longrightarrow> length s < 2 ^ 64) \<Longrightarrow>
   reads (rd_param (param_type_of v) rd) (concat (wr_param v)) v"
  by (cases v) (auto intro!: reads_map reads_prim)

lemma reads_work:
  "sizes_fit w \<Longrightarrow> reads (deserialize (type_of w) rd) (concat (serialize w)) (wire_image w)"
proof (cases w)
  case (SetParam h nm v)
  assume "sizes_fit w"
  with SetParam have "length nm < 2 ^ 64" "\<And>s. v = P_string s \<Longrightarrow> length s < 2 ^ 64"
    by (cases v; simp)+
  with SetParam show ?thesis by (auto simp: serialize_defs deserialize_defs intro!: reads_then reads_map reads_prim reads_param)
qed (auto simp: serialize_defs deserialize_defs intro!: reads_then reads_map reads_prim reads_bytes reads_ret)

end

end
