(* ===== verification/Handles.thy ===== *)
theory Handles
  imports Objects Works
begin

text \<open>
  Object handles (\<open>ospray/common/ObjectHandle.cpp\<close>): the per-process table from
  64-bit handles to objects, which the offload device uses in place of pointers.
  The table is a \<open>std::map\<close> over signed 64-bit keys: an association list kept in
  key order.  The pointer stored can be null.
\<close>

record handle_table =
  objectByHandle :: "(handle \<times> addr option) list"
  freedHandles :: "handle list"
  nextFreeLocalID :: i32

definition initial_handles :: handle_table where
  "initial_handles = \<lparr>objectByHandle = [], freedHandles = [], nextFreeLocalID = 1\<rparr>"

definition NULL_HANDLE :: handle where
  "NULL_HANDLE = 0"

text \<open>The default constructor allocates: a freed handle, else the next local ID
  (with owner 0).  Incrementing the largest \<open>int32\<close> is undefined.\<close>

definition ObjectHandle_new :: "handle_table \<Rightarrow> (handle \<times> handle_table) res" where
  "ObjectHandle_new t = (case freedHandles t of
      h # hs \<Rightarrow> Inr (h, t\<lparr>freedHandles := hs\<rparr>)
    | [] \<Rightarrow> if sint (nextFreeLocalID t) = 2 ^ 31 - 1 then Inl Undefined_behaviour
            else Inr (ucast (nextFreeLocalID t), t\<lparr>nextFreeLocalID := nextFreeLocalID t + 1\<rparr>))"

definition ObjectHandle_free :: "handle \<Rightarrow> handle_table \<Rightarrow> handle_table" where
  "ObjectHandle_free h t = t\<lparr>freedHandles := h # freedHandles t\<rparr>"

fun map_insert :: "handle \<Rightarrow> 'a \<Rightarrow> (handle \<times> 'a) list \<Rightarrow> (handle \<times> 'a) list" where
  "map_insert k v [] = [(k, v)]"
| "map_insert k v ((k', v') # m) =
     (if k = k' then (k, v) # m
      else if sint k < sint k' then (k, v) # (k', v') # m
      else (k', v') # map_insert k v m)"

definition ObjectHandle_assign :: "handle \<Rightarrow> addr option \<Rightarrow> handle_table \<Rightarrow> handle_table" where
  "ObjectHandle_assign h p t = t\<lparr>objectByHandle := map_insert h p (objectByHandle t)\<rparr>"

definition ObjectHandle_defined :: "handle \<Rightarrow> handle_table \<Rightarrow> bool" where
  "ObjectHandle_defined h t \<longleftrightarrow> map_of (objectByHandle t) h \<noteq> None"

definition ObjectHandle_lookup :: "handle \<Rightarrow> handle_table \<Rightarrow> addr option" where
  "ObjectHandle_lookup h t =
     (if h = NULL_HANDLE then None
      else (case map_of (objectByHandle t) h of None \<Rightarrow> None | Some p \<Rightarrow> p))"

definition ObjectHandle_of_object :: "addr \<Rightarrow> handle_table \<Rightarrow> handle" where
  "ObjectHandle_of_object a t = (case filter (\<lambda>e. snd e = Some a) (objectByHandle t) of
      [] \<Rightarrow> NULL_HANDLE | e # _ \<Rightarrow> fst e)"

text \<open>\<open>freeObject\<close> dereferences the iterator it finds: the end of the table, or a
  null pointer, is undefined.\<close>

definition ObjectHandle_freeObject :: "handle \<Rightarrow> handle_table \<Rightarrow> heap \<Rightarrow> (handle_table \<times> heap) res" where
  "ObjectHandle_freeObject h t hp = (case map_of (objectByHandle t) h of
      Some (Some a) \<Rightarrow> bind_res (refDec a hp) (\<lambda>hp'.
        Inr (t\<lparr>objectByHandle := erase_first (\<lambda>e. fst e = h) (objectByHandle t)\<rparr>, hp'))
    | _ \<Rightarrow> Inl Undefined_behaviour)"

definition ObjectHandle_ownerRank :: "handle \<Rightarrow> i32" where
  "ObjectHandle_ownerRank h = ucast (drop_bit 32 h)"

definition ObjectHandle_objID :: "handle \<Rightarrow> i32" where
  "ObjectHandle_objID h = ucast h"

section \<open>The table is a map\<close>

definition table_ok :: "handle_table \<Rightarrow> bool" where
  "table_ok t \<longleftrightarrow> distinct (map fst (objectByHandle t))"

lemma map_of_map_insert: "map_of (map_insert k v m) = (map_of m)(k \<mapsto> v)"
proof (induction k v m rule: map_insert.induct)
  case (2 k v k' v' m)
  then show ?case by (rule_tac ext) auto
qed simp

lemma set_map_insert: "fst ` set (map_insert k v m) = insert k (fst ` set m)"
  by (induction k v m rule: map_insert.induct) auto

lemma distinct_map_insert:
  assumes "sorted (map (\<lambda>e. sint (fst e)) m)" and "distinct (map fst m)"
  shows "distinct (map fst (map_insert k v m)) \<and> sorted (map (\<lambda>e. sint (fst e)) (map_insert k v m))"
  using assms
proof (induction k v m rule: map_insert.induct)
  case (2 k v k' v' m)
  have keys: "set (map fst (map_insert k v m)) = insert k (fst ` set m)"
    using set_map_insert [of k v m] by simp
  have later: "sint k' \<le> sint (fst e)" if "e \<in> set m" for e using that "2.prems"(1) by auto
  consider "k = k'" | "k \<noteq> k'" "sint k < sint k'" | "k \<noteq> k'" "\<not> sint k < sint k'" by blast
  then show ?case
  proof cases
    case 2
    then have "k \<notin> fst ` set m" using later by fastforce
    with 2 "2.prems" later show ?thesis by (fastforce simp: less_imp_le)
  next
    case 3
    have ih: "distinct (map fst (map_insert k v m)) \<and> sorted (map (\<lambda>e. sint (fst e)) (map_insert k v m))"
      using "2.IH" 3 "2.prems" by simp
    have "\<forall>e\<in>set (map_insert k v m). sint k' \<le> sint (fst e)"
    proof
      fix e
      assume "e \<in> set (map_insert k v m)"
      then have "fst e \<in> insert k (fst ` set m)" using keys by auto
      with later 3 show "sint k' \<le> sint (fst e)" by auto
    qed
    with ih 3 "2.prems" keys show ?thesis by auto
  qed (use "2.prems" in auto)
qed simp

definition table_inv :: "handle_table \<Rightarrow> bool" where
  "table_inv t \<longleftrightarrow> table_ok t \<and> sorted (map (\<lambda>e. sint (fst e)) (objectByHandle t))"

lemma table_inv_initial: "table_inv initial_handles"
  by (simp add: table_inv_def table_ok_def initial_handles_def)

lemma table_inv_assign: "table_inv t \<Longrightarrow> table_inv (ObjectHandle_assign h p t)"
  using distinct_map_insert [of "objectByHandle t" h p]
  by (simp add: table_inv_def table_ok_def ObjectHandle_assign_def)

lemma map_of_erase_first:
  "distinct (map fst m) \<Longrightarrow> map_of (erase_first (\<lambda>e. fst e = k) m) = (map_of m)(k := None)"
proof (induction m)
  case (Cons e m)
  show ?case
  proof (cases "fst e = k")
    case True
    with Cons.prems have "map_of m k = None" by (simp add: map_of_eq_None_iff)
    with True show ?thesis by (cases e) auto
  next
    case False
    with Cons show ?thesis by (cases e) auto
  qed
qed simp

lemma sorted_erase_first: "sorted (map f m) \<Longrightarrow> sorted (map f (erase_first P m))"
proof (induction m)
  case (Cons e m)
  then show ?case using set_erase_first_subset [of P m] by auto
qed simp

lemma table_inv_erase:
  "table_inv t \<Longrightarrow> table_inv (t\<lparr>objectByHandle := erase_first (\<lambda>e. fst e = h) (objectByHandle t)\<rparr>)"
  by (simp add: table_inv_def table_ok_def erase_first_map_fst distinct_erase_first sorted_erase_first)

section \<open>Allocation\<close>

primrec allocate_handles :: "nat \<Rightarrow> handle_table \<Rightarrow> (handle list \<times> handle_table) res" where
  "allocate_handles 0 t = Inr ([], t)"
| "allocate_handles (Suc n) t =
     bind_res (ObjectHandle_new t) (\<lambda>(h, t').
     bind_res (allocate_handles n t') (\<lambda>(hs, t''). Inr (h # hs, t'')))"

lemma sint_of_nat_i32: "m < 2 ^ 31 \<Longrightarrow> sint (word_of_nat m :: i32) = int m"
  by (simp add: sint_uint signed_take_bit_int_eq_self uint_nat unat_of_nat)

lemma allocate_handles_ok:
  assumes "freedHandles t = []" and "nextFreeLocalID t = word_of_nat k" and "k + n < 2 ^ 31"
  shows "\<exists>t'. allocate_handles n t = Inr (map word_of_nat [k..<k + n], t')"
  using assms
proof (induction n arbitrary: t k)
  case (Suc n)
  have sint: "sint (nextFreeLocalID t) = int k"
    using Suc.prems by (simp add: sint_of_nat_i32)
  then have "sint (nextFreeLocalID t) \<noteq> 2 ^ 31 - 1" using Suc.prems(3) by simp
  moreover have "ucast (nextFreeLocalID t) = (word_of_nat k :: handle)"
    using Suc.prems(2,3) by (simp add: word_unat_eq_iff unsigned_ucast_eq unat_of_nat take_bit_nat_eq_self)
  ultimately have "ObjectHandle_new t = Inr (word_of_nat k, t\<lparr>nextFreeLocalID := word_of_nat (Suc k)\<rparr>)"
    using Suc.prems by (simp add: ObjectHandle_new_def add.commute)
  moreover obtain t' where
    "allocate_handles n (t\<lparr>nextFreeLocalID := word_of_nat (Suc k)\<rparr>) = Inr (map word_of_nat [Suc k..<Suc k + n], t')"
    using Suc.IH [of "t\<lparr>nextFreeLocalID := word_of_nat (Suc k)\<rparr>" "Suc k"] Suc.prems by auto
  moreover have "[k..<k + Suc n] = k # [Suc k..<Suc k + n]" by (subst upt_conv_Cons) auto
  ultimately show ?case by simp
qed simp

text \<open>C38 The handles a process allocates are the numbers 1, 2, 3, ...: distinct,
  never the null handle, and owned by rank 0, up to the largest 32-bit ID.\<close>

theorem allocated_handles_distinct:
  assumes "n < 2 ^ 31 - 1"
  shows "\<exists>hs t. allocate_handles n initial_handles = Inr (hs, t) \<and> length hs = n \<and> distinct hs \<and>
     NULL_HANDLE \<notin> set hs \<and> (\<forall>h\<in>set hs. ObjectHandle_ownerRank h = 0)"
proof -
  obtain t where t: "allocate_handles n initial_handles = Inr (map word_of_nat [1..<1 + n], t)"
    using allocate_handles_ok [of initial_handles 1 n] assms by (auto simp: initial_handles_def)
  have small: "unat (word_of_nat m :: handle) = m" if "m \<in> set [1..<1 + n]" for m
    using that assms by (auto simp: unat_of_nat)
  have "distinct (map (word_of_nat :: nat \<Rightarrow> handle) [1..<1 + n])"
    unfolding distinct_map by (intro conjI inj_on_inverseI [of _ unat]) (simp, erule small)
  moreover have "NULL_HANDLE \<notin> set (map word_of_nat [1..<1 + n])"
  proof
    assume "NULL_HANDLE \<in> set (map word_of_nat [1..<1 + n])"
    then obtain m where m: "m \<in> set [1..<1 + n]" "(0 :: handle) = word_of_nat m"
      unfolding NULL_HANDLE_def set_map by (rule imageE)
    from small [OF m(1)] m show False by (auto simp flip: m(2))
  qed
  moreover have "ObjectHandle_ownerRank (word_of_nat m) = 0" if "m \<in> set [1..<1 + n]" for m
  proof -
    have "m < 2 ^ 32" using that assms by auto
    then have "unat (drop_bit 32 (word_of_nat m :: handle)) = 0"
      using small [OF that] by (simp add: drop_bit_eq_div unat_div_distrib)
    then show ?thesis by (simp add: ObjectHandle_ownerRank_def unat_eq_zero)
  qed
  ultimately show ?thesis using t by (intro exI [of _ "map word_of_nat [1..<1 + n]"] exI [of _ t]) auto
qed

theorem allocated_handles_distinct_witness:
  "\<exists>hs t. allocate_handles 3 initial_handles = Inr (hs, t) \<and> length hs = 3 \<and> distinct hs \<and>
     NULL_HANDLE \<notin> set hs \<and> (\<forall>h\<in>set hs. ObjectHandle_ownerRank h = 0)"
  by (rule allocated_handles_distinct) simp

end
