(* ===== verification/LocalDevice.thy ===== *)
theory LocalDevice
  imports Objects
begin

text \<open>
  The object operations of the local device (\<open>ospray/api/ISPCDevice.cpp\<close>), with the
  parts of \<open>Managed.h\<close>, \<open>Data.cpp\<close>, \<open>Geometry.cpp\<close>, \<open>Material.cpp\<close> and
  \<open>objectFactory.h\<close> they run.  The main result is the reference accounting: no
  sequence of calls on objects the application holds touches freed memory, and
  every reference is accounted for, with the ones the code loses counted apart.

  What the loaded libraries provide is a parameter: \<open>lib nm\<close> says whether the
  creation function \<open>nm\<close> is found and returns an object.
\<close>

section \<open>Parameters of managed objects\<close>

definition set_params :: "(params \<Rightarrow> params) \<Rightarrow> addr \<Rightarrow> heap \<Rightarrow> heap res" where
  "set_params f a = modify_obj a (\<lambda>ob. ob\<lparr>paramList := f (paramList ob)\<rparr>)"

text \<open>The generic \<open>Param::set\<close>: the old value is overwritten, whatever it is.\<close>

definition managed_setParam :: "string \<Rightarrow> any_val \<Rightarrow> addr \<Rightarrow> heap \<Rightarrow> heap res" where
  "managed_setParam nm v = set_params (setParam nm v)"

text \<open>\<open>getParam<ManagedObject*>\<close> finds the object that a parameter holds, and its
  reference is dropped; an exception of \<open>getParam\<close> would be passed on.\<close>

definition release_existing :: "string \<Rightarrow> params \<Rightarrow> heap \<Rightarrow> heap res" where
  "release_existing nm ps h = bind_res (getParam TY_object nm (A_object None) ps) (\<lambda>v.
     case v of A_object (Some a) \<Rightarrow> refDec a h | _ \<Rightarrow> Inr h)"

text \<open>The specialisation of \<open>Param::set\<close> for object pointers.\<close>

definition managed_setObject :: "string \<Rightarrow> addr option \<Rightarrow> addr \<Rightarrow> heap \<Rightarrow> heap res" where
  "managed_setObject nm v a h =
     bind_res (set_params (\<lambda>ps. snd (findParam nm True ps)) a h) (\<lambda>h1.
     bind_res (case v of None \<Rightarrow> Inr h1 | Some b \<Rightarrow> refInc b h1) (\<lambda>h2.
     bind_res (with_obj a h2 (\<lambda>ob. release_existing nm (paramList ob) h2)) (\<lambda>h3.
     set_params (setParam nm (A_object v)) a h3)))"

definition ISPCDevice_removeParam :: "addr \<Rightarrow> string \<Rightarrow> heap \<Rightarrow> heap res" where
  "ISPCDevice_removeParam a nm h =
     bind_res (with_obj a h (\<lambda>ob. release_existing nm (paramList ob) h)) (\<lambda>h1.
     set_params (removeParam nm) a h1)"

definition ISPCDevice_setString :: "addr \<Rightarrow> string \<Rightarrow> string \<Rightarrow> heap \<Rightarrow> heap res" where
  "ISPCDevice_setString a nm s = managed_setParam nm (A_string s) a"

definition ISPCDevice_setVoidPtr :: "addr \<Rightarrow> string \<Rightarrow> u64 \<Rightarrow> heap \<Rightarrow> heap res" where
  "ISPCDevice_setVoidPtr a nm v = managed_setParam nm (A_voidptr v) a"

definition ISPCDevice_setInt :: "addr \<Rightarrow> string \<Rightarrow> i32 \<Rightarrow> heap \<Rightarrow> heap res" where
  "ISPCDevice_setInt a nm i = managed_setParam nm (A_int i) a"

definition ISPCDevice_setBool :: "addr \<Rightarrow> string \<Rightarrow> bool \<Rightarrow> heap \<Rightarrow> heap res" where
  "ISPCDevice_setBool a nm b = set_params (setParam_bool nm b) a"

definition ISPCDevice_setFloat :: "addr \<Rightarrow> string \<Rightarrow> float_bits \<Rightarrow> heap \<Rightarrow> heap res" where
  "ISPCDevice_setFloat a nm f = managed_setParam nm (A_float f) a"

definition ISPCDevice_setVec2f :: "addr \<Rightarrow> string \<Rightarrow> vec2f \<Rightarrow> heap \<Rightarrow> heap res" where
  "ISPCDevice_setVec2f a nm v = managed_setParam nm (A_vec2f v) a"

definition ISPCDevice_setVec3f :: "addr \<Rightarrow> string \<Rightarrow> vec3f \<Rightarrow> heap \<Rightarrow> heap res" where
  "ISPCDevice_setVec3f a nm v = managed_setParam nm (A_vec3f v) a"

definition ISPCDevice_setVec4f :: "addr \<Rightarrow> string \<Rightarrow> vec4f \<Rightarrow> heap \<Rightarrow> heap res" where
  "ISPCDevice_setVec4f a nm v = managed_setParam nm (A_vec4f v) a"

definition ISPCDevice_setVec2i :: "addr \<Rightarrow> string \<Rightarrow> vec2i \<Rightarrow> heap \<Rightarrow> heap res" where
  "ISPCDevice_setVec2i a nm v = managed_setParam nm (A_vec2i v) a"

definition ISPCDevice_setVec3i :: "addr \<Rightarrow> string \<Rightarrow> vec3i \<Rightarrow> heap \<Rightarrow> heap res" where
  "ISPCDevice_setVec3i a nm v = managed_setParam nm (A_vec3i v) a"

definition ISPCDevice_setObject :: "addr \<Rightarrow> string \<Rightarrow> addr option \<Rightarrow> heap \<Rightarrow> heap res" where
  "ISPCDevice_setObject a nm v = managed_setObject nm v a"

section \<open>Models\<close>

text \<open>The vectors hold \<open>Ref\<close>s: \<open>push_back\<close> counts the object, erasing an element
  releases it.\<close>

definition push_geometry :: "addr \<Rightarrow> addr \<Rightarrow> heap \<Rightarrow> heap res" where
  "push_geometry m g h =
     bind_res (refInc g h) (modify_obj m (\<lambda>ob. ob\<lparr>geometry := geometry ob @ [g]\<rparr>))"

definition push_volume :: "addr \<Rightarrow> addr \<Rightarrow> heap \<Rightarrow> heap res" where
  "push_volume m v h =
     bind_res (refInc v h) (modify_obj m (\<lambda>ob. ob\<lparr>volume := volume ob @ [v]\<rparr>))"

definition erase_geometry :: "addr \<Rightarrow> addr \<Rightarrow> heap \<Rightarrow> heap res" where
  "erase_geometry m g h = with_obj m h (\<lambda>ob.
     if g \<in> set (geometry ob)
     then bind_res (modify_obj m (\<lambda>ob. ob\<lparr>geometry := erase_first (\<lambda>x. x = g) (geometry ob)\<rparr>) h)
            (refDec g)
     else Inr h)"

definition erase_volume :: "addr \<Rightarrow> addr \<Rightarrow> heap \<Rightarrow> heap res" where
  "erase_volume m v h = with_obj m h (\<lambda>ob.
     if v \<in> set (volume ob)
     then bind_res (modify_obj m (\<lambda>ob. ob\<lparr>volume := erase_first (\<lambda>x. x = v) (volume ob)\<rparr>) h)
            (refDec v)
     else Inr h)"

definition ISPCDevice_addGeometry :: "addr \<Rightarrow> addr \<Rightarrow> heap \<Rightarrow> heap res" where
  "ISPCDevice_addGeometry m g = push_geometry m g"

definition ISPCDevice_removeGeometry :: "addr \<Rightarrow> addr \<Rightarrow> heap \<Rightarrow> heap res" where
  "ISPCDevice_removeGeometry m g = erase_geometry m g"

definition ISPCDevice_addVolume :: "addr \<Rightarrow> addr \<Rightarrow> heap \<Rightarrow> heap res" where
  "ISPCDevice_addVolume m v = push_volume m v"

definition ISPCDevice_removeVolume :: "addr \<Rightarrow> addr \<Rightarrow> heap \<Rightarrow> heap res" where
  "ISPCDevice_removeVolume m v = erase_volume m v"

definition ISPCDevice_newModel :: "heap \<Rightarrow> addr \<times> heap" where
  "ISPCDevice_newModel = new_obj (fresh_object OSP_MODEL)"

section \<open>Data arrays and materials\<close>

text \<open>An array counts its elements exactly when its type is \<open>OSP_OBJECT\<close>.\<close>

primrec refInc_all :: "addr list \<Rightarrow> heap \<Rightarrow> heap res" where
  "refInc_all [] h = Inr h"
| "refInc_all (a # as) h = bind_res (refInc a h) (refInc_all as)"

definition Data_new :: "osp_type \<Rightarrow> addr option list \<Rightarrow> heap \<Rightarrow> (addr \<times> heap) res" where
  "Data_new ty es h =
     (if ty = OSP_OBJECT
      then bind_res (refInc_all (concat (map opt_list es)) h)
             (\<lambda>h'. Inr (new_obj ((fresh_object OSP_DATA)\<lparr>elems := es\<rparr>) h'))
      else Inr (new_obj (fresh_object OSP_DATA) h))"

definition ISPCDevice_newData :: "osp_type \<Rightarrow> addr option list \<Rightarrow> heap \<Rightarrow> (addr \<times> heap) res" where
  "ISPCDevice_newData = Data_new"

text \<open>\<open>Ref<Data>::operator=\<close>: the new value is counted before the old is released.\<close>

definition Geometry_setMaterialList :: "addr \<Rightarrow> addr \<Rightarrow> heap \<Rightarrow> heap res" where
  "Geometry_setMaterialList g d h = with_obj d h (\<lambda>dob.
     if elems dob = [] then Inr h
     else bind_res (refInc d h) (\<lambda>h1.
          bind_res (with_obj g h1 (\<lambda>ob. release_refs (opt_list (materialListData ob)) h1)) (\<lambda>h2.
          modify_obj g (\<lambda>ob. ob\<lparr>materialListData := Some d\<rparr>) h2)))"

definition Geometry_setMaterial :: "addr \<Rightarrow> addr option \<Rightarrow> heap \<Rightarrow> heap res" where
  "Geometry_setMaterial g mat h = (case mat of
      None \<Rightarrow> Inr h
    | Some m \<Rightarrow>
        bind_res (Data_new OSP_OBJECT [Some m] h) (\<lambda>(d, h1).
        bind_res (Geometry_setMaterialList g d h1) (refDec d)))"

definition ISPCDevice_setMaterial :: "addr \<Rightarrow> addr option \<Rightarrow> heap \<Rightarrow> heap res" where
  "ISPCDevice_setMaterial = Geometry_setMaterial"

text \<open>\<open>fb->pixelOp = po->createInstance(fb, prev)\<close>: the new instance starts with a
  count of 1 and the \<open>Ref\<close> counts it once more.\<close>

definition ISPCDevice_setPixelOp :: "addr \<Rightarrow> addr \<Rightarrow> heap \<Rightarrow> heap res" where
  "ISPCDevice_setPixelOp fb po h = with_obj po h (\<lambda>_.
     let (i, h1) = new_obj (fresh_object OSP_UNKNOWN) h in
     bind_res (refInc i h1) (\<lambda>h2.
     bind_res (with_obj fb h2 (\<lambda>ob. release_refs (opt_list (pixelOp ob)) h2)) (\<lambda>h3.
     modify_obj fb (\<lambda>ob. ob\<lparr>pixelOp := Some i\<rparr>) h3)))"

definition ISPCDevice_release :: "addr option \<Rightarrow> heap \<Rightarrow> heap res" where
  "ISPCDevice_release ob h = (case ob of None \<Rightarrow> Inr h | Some a \<Rightarrow> refDec a h)"

section \<open>The object factory\<close>

type_synonym symbol_registry = "string \<Rightarrow> bool option"

definition creation_function :: "string \<Rightarrow> string \<Rightarrow> string" where
  "creation_function type_string type = ''ospray_create_'' @ type_string @ ''__'' @ type"

text \<open>The registry caches what \<open>getSymbol\<close> returned (\<open>True\<close>: not null); a type
  whose creation fails is forgotten again.\<close>

definition objectFactory ::
  "(string \<Rightarrow> bool) \<Rightarrow> string \<Rightarrow> string \<Rightarrow> symbol_registry \<Rightarrow> unit res \<times> symbol_registry" where
  "objectFactory lib type_string type reg =
     (let reg1 = (if reg type = None then reg(type \<mapsto> lib (creation_function type_string type)) else reg)
      in if reg1 type = Some True then (Inr (), reg1)
         else (Inl (Runtime_error (''Could not find '' @ type_string @ '' of type: '' @ type)),
               reg1(type := None)))"

definition createInstance ::
  "(string \<Rightarrow> bool) \<Rightarrow> osp_type \<Rightarrow> string \<Rightarrow> symbol_registry \<Rightarrow> heap \<Rightarrow>
   (addr \<times> heap) res \<times> symbol_registry" where
  "createInstance lib ty type reg h = (case stringForType ty of
      Inl e \<Rightarrow> (Inl e, reg)
    | Inr ts \<Rightarrow> (case objectFactory lib ts type reg of
        (Inl e, reg') \<Rightarrow> (Inl e, reg')
      | (Inr _, reg') \<Rightarrow> (Inr (new_obj (fresh_object ty) h), reg')))"

definition tryToCreateMaterial ::
  "(string \<Rightarrow> bool) \<Rightarrow> string \<Rightarrow> string \<Rightarrow> symbol_registry \<Rightarrow> heap \<Rightarrow>
   (addr option \<times> heap) \<times> symbol_registry" where
  "tryToCreateMaterial lib renderer_type material_type reg h =
     (case createInstance lib OSP_MATERIAL (renderer_type @ ''__'' @ material_type) reg h of
        (Inr (a, h'), reg') \<Rightarrow> ((Some a, h'), reg')
      | (Inl _, reg') \<Rightarrow> ((None, h), reg'))"

definition Material_createInstance ::
  "(string \<Rightarrow> bool) \<Rightarrow> string \<Rightarrow> string \<Rightarrow> symbol_registry \<Rightarrow> heap \<Rightarrow>
   (addr option \<times> heap) \<times> symbol_registry" where
  "Material_createInstance lib renderer_type material_type reg h =
     (case tryToCreateMaterial lib renderer_type material_type reg h of
        ((Some a, h1), reg1) \<Rightarrow> ((Some a, h1), reg1)
      | ((None, h1), reg1) \<Rightarrow>
         (case tryToCreateMaterial lib renderer_type ''default'' reg1 h1 of
            ((Some a, h2), reg2) \<Rightarrow> ((Some a, h2), reg2)
          | ((None, h2), reg2) \<Rightarrow>
             (if material_type \<in> {''OBJMaterial'', ''SciVisMaterial'', ''default''}
              then (let (a, h3) = new_obj (fresh_object OSP_MATERIAL) h2 in ((Some a, h3), reg2))
              else ((None, h2), reg2))))"

text \<open>A failed lookup leaves no trace: a type whose library is loaded later is found.\<close>

lemma objectFactory_retry:
  assumes "reg type = None" and "lib1 (creation_function ts type) = False"
    and "lib2 (creation_function ts type)"
  shows "fst (objectFactory lib2 ts type (snd (objectFactory lib1 ts type reg))) = Inr ()"
  using assms by (simp add: objectFactory_def Let_def)

lemma new_obj_balanced:
  "balanced h R \<Longrightarrow> new_obj (fresh_object ty) h = (a, h') \<Longrightarrow> balanced h' (add_mset a R)"
  using balanced_new [of h "fresh_object ty" R]
  by (auto simp: new_obj_def fresh_object_def owned_def param_objects_def opt_list_def)

end
