(* ===== verification/LocalRefs.thy ===== *)
theory LocalRefs
  imports LocalDevice
begin

text \<open>
  Reference accounting of the local device: each operation keeps the heap
  balanced, with the references the code loses listed; then the same for whole
  sequences of API calls by an application that only passes objects it holds.
\<close>

section \<open>References in parameters\<close>

text \<open>The object a parameter holds, as a list of at most one address.\<close>

definition existing_object :: "string \<Rightarrow> params \<Rightarrow> addr list" where
  "existing_object nm ps = (case getParam TY_object nm (A_object None) ps of
      Inr (A_object (Some a)) \<Rightarrow> [a] | _ \<Rightarrow> [])"

lemma release_existing_refs [simp]:
  "release_existing nm ps h = release_refs (existing_object nm ps) h"
proof -
  have "\<exists>v. getParam TY_object nm (A_object None) ps = Inr v"
    by (auto simp: getParam_def any_get_def any_is_def split: option.split)
  then show ?thesis
    by (auto simp: release_existing_def existing_object_def refDec_def simp del: release_refs.simps(2)
        split: any_val.split option.split)
qed

lemma existing_object_idx:
  "existing_object nm ps = (case find_param_idx nm ps of None \<Rightarrow> [] | Some i \<Rightarrow> object_of (snd (ps ! i)))"
proof (cases "find_param_idx nm ps")
  case None
  then show ?thesis by (simp add: existing_object_def getParam_def findParam_def)
next
  case (Some i)
  have eq: "getParam TY_object nm (A_object None) ps =
    Inr (if any_is TY_object (snd (ps ! i)) then the (snd (ps ! i)) else A_object None)"
    using Some by (simp add: getParam_def findParam_def any_get_def any_is_def)
  show ?thesis
  proof (cases "snd (ps ! i)")
    case None
    with eq Some show ?thesis by (simp add: existing_object_def any_is_def any_valid_def)
  next
    case (Some v)
    with eq \<open>find_param_idx nm ps = Some i\<close> show ?thesis
      by (cases v) (auto simp: existing_object_def any_is_def any_valid_def split: option.splits)
  qed
qed

lemma param_objects_simps [simp]:
  "param_objects [] = []"
  "param_objects (p # ps) = object_of (snd p) @ param_objects ps"
  "param_objects (ps @ qs) = param_objects ps @ param_objects qs"
  by (simp_all add: param_objects_def)

lemma param_objects_update:
  "i < length ps \<Longrightarrow> mset (param_objects (ps[i := (nm, v)])) + mset (object_of (snd (ps ! i))) =
     mset (param_objects ps) + mset (object_of v)"
proof (induction ps arbitrary: i)
  case (Cons p ps)
  show ?case
  proof (cases i)
    case (Suc j)
    with Cons.IH [of j] Cons.prems show ?thesis by (simp add: add.assoc)
  qed simp
qed simp

lemma param_objects_set:
  "mset (param_objects (setParam nm v ps)) + mset (existing_object nm ps) =
     mset (param_objects ps) + mset (object_of (Some v))"
proof (cases "find_param_idx nm ps")
  case None
  then show ?thesis by (simp add: setParam_cases existing_object_idx)
next
  case (Some i)
  with find_param_idx_Some [OF this] param_objects_update [of i ps nm "Some v"] show ?thesis
    by (simp add: setParam_cases existing_object_idx)
qed

lemma find_param_idx_Cons:
  "find_param_idx nm (p # ps) = (if fst p = nm then Some 0 else map_option Suc (find_param_idx nm ps))"
  by (simp add: find_param_idx_def Let_def)

lemma param_objects_remove:
  "mset (param_objects (removeParam nm ps)) + mset (existing_object nm ps) = mset (param_objects ps)"
proof (induction ps)
  case (Cons p ps)
  then show ?case
    by (cases "find_param_idx nm ps")
       (auto simp: removeParam_def existing_object_idx find_param_idx_Cons)
qed (simp add: removeParam_def existing_object_idx find_param_idx_def)

lemma param_objects_find [simp]: "param_objects (snd (findParam nm b ps)) = param_objects ps"
  by (auto simp: findParam_def split: option.splits)

lemma existing_object_find [simp]:
  "existing_object nm (snd (findParam nm True ps)) = existing_object nm ps"
proof (cases "find_param_idx nm ps")
  case None
  then have "nm \<notin> fst ` set ps" by (simp add: find_param_idx_None)
  then have "takeWhile (\<lambda>p. fst p \<noteq> nm) (ps @ [(nm, None)]) = ps"
    by (subst takeWhile_append2) auto
  then have "find_param_idx nm (ps @ [(nm, None)]) = Some (length ps)"
    by (simp add: find_param_idx_def)
  with None show ?thesis by (simp add: existing_object_idx findParam_def)
next
  case (Some i)
  then show ?thesis by (simp add: findParam_def)
qed

section \<open>The operations keep the heap balanced\<close>

lemma modify_obj_ok:
  assumes "balanced h R" and "live h a"
    and "\<And>ob. get_obj a h = Some ob \<Longrightarrow> refCounter (f ob) = refCounter ob \<and>
           mset (owned (f ob)) + S = mset (owned ob) + R"
  shows "\<exists>h'. modify_obj a f h = Inr h' \<and> balanced h' S"
proof -
  from assms(2) obtain ob where ob: "get_obj a h = Some ob" by (auto simp: live_def)
  from balanced_modify [OF assms(1) ob] assms(3) [OF ob] show ?thesis
    by (simp add: modify_obj_def with_obj_def ob)
qed

text \<open>Release what \<open>a\<close> is about to drop, then make it drop it.\<close>

lemma release_then_modify:
  assumes "balanced h S" and "get_obj a h = Some ob" and "a \<in># R"
    and "\<And>c ob. f (ob\<lparr>refCounter := c\<rparr>) = (f ob)\<lparr>refCounter := c\<rparr>"
    and "mset (owned (f ob)) + (mset as + R) = mset (owned ob) + S"
  shows "\<exists>h1 h'. release_refs as h = Inr h1 \<and> modify_obj a f h1 = Inr h' \<and> balanced h' R"
proof -
  have "refCounter (f (ob\<lparr>refCounter := refCounter ob\<rparr>)) = refCounter ob" unfolding assms(4) by simp
  then have cnt: "refCounter (f ob) = refCounter ob" by simp
  from balanced_modify [OF assms(1,2) cnt assms(5)]
  have "balanced (h[a := Some (f ob)]) (mset as + R)" .
  from release_balanced [OF this] obtain h2 where
    h2: "release_refs as (h[a := Some (f ob)]) = Inr h2" "balanced h2 R" by blast
  have "live h2 a" using balanced_live [OF h2(2), of a] assms(3) by simp
  from release_update [OF h2(1) assms(2) this assms(4) cnt] obtain h1 c where
    h1: "release_refs as h = Inr h1" "get_obj a h1 = Some (ob\<lparr>refCounter := c\<rparr>)"
      "h2 = h1[a := Some (f (ob\<lparr>refCounter := c\<rparr>))]" by blast
  then show ?thesis using h2(2) by (auto simp: modify_obj_def with_obj_def)
qed

lemma held_live: "balanced h (R + L) \<Longrightarrow> a \<in># R \<Longrightarrow> live h a"
  by (rule balanced_live) auto

lemma setParam_balanced:
  assumes "balanced h R" and "get_obj a h = Some ob" and "object_of (Some v) = []"
  shows "\<exists>h'. managed_setParam nm v a h = Inr h' \<and>
     balanced h' (R + mset (existing_object nm (paramList ob)))"
  unfolding managed_setParam_def set_params_def
proof (rule modify_obj_ok [OF assms(1)])
  show "live h a" using assms(2) by (simp add: live_def)
  fix ob'
  assume "get_obj a h = Some ob'"
  with assms(2) have ob': "ob' = ob" by simp
  have "mset (owned (ob\<lparr>paramList := setParam nm v (paramList ob)\<rparr>)) +
      mset (existing_object nm (paramList ob)) = mset (owned ob)"
    using param_objects_set [of nm v "paramList ob"] assms(3)
    by (simp add: owned_def)
  then show "refCounter (ob'\<lparr>paramList := setParam nm v (paramList ob')\<rparr>) = refCounter ob' \<and>
      mset (owned (ob'\<lparr>paramList := setParam nm v (paramList ob')\<rparr>)) +
        (R + mset (existing_object nm (paramList ob))) = mset (owned ob') + R"
    by (simp add: ob' ac_simps)
qed

lemma setObject_balanced:
  assumes "balanced h R" and "a \<in># R" and "\<And>b. v = Some b \<Longrightarrow> live h b"
  shows "\<exists>h'. managed_setObject nm v a h = Inr h' \<and> balanced h' R"
proof -
  let ?add = "\<lambda>ps. snd (findParam nm True ps)"
  have "live h a" using balanced_live [OF assms(1)] assms(2) by simp
  moreover from this obtain ob where ob: "get_obj a h = Some ob" by (auto simp: live_def)
  ultimately obtain h1 where 1: "set_params ?add a h = Inr h1" "balanced h1 R"
    using modify_obj_ok [OF assms(1), of a "\<lambda>ob. ob\<lparr>paramList := ?add (paramList ob)\<rparr>" R]
    by (auto simp: set_params_def owned_def)
  then have ob1: "get_obj a h1 = Some (ob\<lparr>paramList := ?add (paramList ob)\<rparr>)"
    and h1: "h1 = h[a := Some (ob\<lparr>paramList := ?add (paramList ob)\<rparr>)]"
    using ob get_obj_less [OF ob] by (auto simp: set_params_def modify_obj_def with_obj_def)
  have "\<exists>h2 c. (case v of None \<Rightarrow> Inr h1 | Some b \<Rightarrow> refInc b h1) = Inr h2 \<and>
      balanced h2 (mset (object_of (Some (A_object v))) + R) \<and>
      get_obj a h2 = Some (ob\<lparr>paramList := ?add (paramList ob), refCounter := c\<rparr>)"
  proof (cases v)
    case None
    with 1 ob1 show ?thesis by (intro exI [of _ h1] exI [of _ "refCounter ob"]) simp
  next
    case (Some b)
    have "live h1 b" using assms(3) [OF Some] by (auto simp: h1)
    from refInc_ok [OF 1(2) this] obtain h2 where h2: "refInc b h1 = Inr h2"
      "balanced h2 (add_mset b R)"
      "get_obj a h2 = (if a = b then map_option (\<lambda>ob. ob\<lparr>refCounter := refCounter ob + 1\<rparr>) (get_obj b h1)
                       else get_obj a h1)" by blast
    then have "get_obj a h2 = Some (ob\<lparr>paramList := ?add (paramList ob),
        refCounter := (if a = b then refCounter ob + 1 else refCounter ob)\<rparr>)"
      using ob1 by auto
    with h2(1,2) Some show ?thesis
      by (intro exI [of _ h2] exI [of _ "if a = b then refCounter ob + 1 else refCounter ob"]) simp
  qed
  then obtain h2 c where 2: "(case v of None \<Rightarrow> Inr h1 | Some b \<Rightarrow> refInc b h1) = Inr h2"
    "balanced h2 (mset (object_of (Some (A_object v))) + R)"
    "get_obj a h2 = Some (ob\<lparr>paramList := ?add (paramList ob), refCounter := c\<rparr>)" by blast
  let ?ob2 = "ob\<lparr>paramList := ?add (paramList ob), refCounter := c\<rparr>"
  let ?f = "\<lambda>ob. ob\<lparr>paramList := setParam nm (A_object v) (paramList ob)\<rparr>"
  have "mset (owned (?f ?ob2)) + (mset (existing_object nm (paramList ?ob2)) + R) =
      mset (owned ?ob2) + (mset (object_of (Some (A_object v))) + R)"
    using param_objects_set [of nm "A_object v" "paramList ?ob2"] by (simp add: owned_def ac_simps)
  from release_then_modify [where f = ?f, OF 2(2,3) assms(2) _ this]
  obtain h3 h' where "release_refs (existing_object nm (paramList ?ob2)) h2 = Inr h3"
    "modify_obj a ?f h3 = Inr h'" "balanced h' R" by auto
  with 1 2 show ?thesis
    by (simp add: managed_setObject_def with_obj_def set_params_def)
qed

lemma removeParam_balanced:
  assumes "balanced h R" and "a \<in># R"
  shows "\<exists>h'. ISPCDevice_removeParam a nm h = Inr h' \<and> balanced h' R"
proof -
  have "live h a" using balanced_live [OF assms(1)] assms(2) by simp
  then obtain ob where ob: "get_obj a h = Some ob" by (auto simp: live_def)
  let ?f = "\<lambda>ob. ob\<lparr>paramList := removeParam nm (paramList ob)\<rparr>"
  have "mset (owned (?f ob)) + (mset (existing_object nm (paramList ob)) + R) = mset (owned ob) + R"
    using param_objects_remove [of nm "paramList ob"] by (simp add: owned_def ac_simps)
  from release_then_modify [where f = ?f, OF assms(1) ob assms(2) _ this] ob show ?thesis
    by (auto simp: ISPCDevice_removeParam_def with_obj_def set_params_def)
qed

lemma push_balanced:
  assumes "balanced h R" and "live h m" and "live h g"
  shows "\<exists>h'. push_geometry m g h = Inr h' \<and> balanced h' R"
    and "\<exists>h'. push_volume m g h = Inr h' \<and> balanced h' R"
proof -
  from refInc_ok [OF assms(1,3)] obtain h1 where
    1: "refInc g h1' = refInc g h1'" "refInc g h = Inr h1" "balanced h1 (add_mset g R)"
      "\<forall>b. get_obj b h1 = (if b = g then map_option (\<lambda>ob. ob\<lparr>refCounter := refCounter ob + 1\<rparr>) (get_obj g h)
                          else get_obj b h)" by blast
  then have "live h1 m" using assms(2) by (auto simp: live_def)
  from modify_obj_ok [OF 1(3) this, of "\<lambda>ob. ob\<lparr>geometry := geometry ob @ [g]\<rparr>" R] 1
  show "\<exists>h'. push_geometry m g h = Inr h' \<and> balanced h' R"
    by (simp add: push_geometry_def owned_def)
  from modify_obj_ok [OF 1(3) \<open>live h1 m\<close>, of "\<lambda>ob. ob\<lparr>volume := volume ob @ [g]\<rparr>" R] 1
  show "\<exists>h'. push_volume m g h = Inr h' \<and> balanced h' R"
    by (simp add: push_volume_def owned_def)
qed

lemma mset_erase_first:
  "x \<in> set xs \<Longrightarrow> add_mset x (mset (erase_first (\<lambda>y. y = x) xs)) = mset xs"
  by (induction xs) auto

lemma erase_balanced:
  assumes "balanced h R" and "live h m"
  shows "\<exists>h'. erase_geometry m g h = Inr h' \<and> balanced h' R"
    and "\<exists>h'. erase_volume m g h = Inr h' \<and> balanced h' R"
proof -
  from assms(2) obtain ob where ob: "get_obj m h = Some ob" by (auto simp: live_def)
  show "\<exists>h'. erase_geometry m g h = Inr h' \<and> balanced h' R"
  proof (cases "g \<in> set (geometry ob)")
    case True
    let ?f = "\<lambda>ob. ob\<lparr>geometry := erase_first (\<lambda>x. x = g) (geometry ob)\<rparr>"
    have "mset (owned (?f ob)) + add_mset g R = mset (owned ob) + R"
      using mset_erase_first [OF True] by (simp add: owned_def flip: add_mset_add_single)
    then obtain h1 where "modify_obj m ?f h = Inr h1" "balanced h1 (add_mset g R)"
      using modify_obj_ok [OF assms, of ?f "add_mset g R"] ob by auto
    with refDec_balanced [of h1 g R] True ob show ?thesis
      by (auto simp: erase_geometry_def with_obj_def)
  qed (use ob assms in \<open>simp add: erase_geometry_def with_obj_def\<close>)
  show "\<exists>h'. erase_volume m g h = Inr h' \<and> balanced h' R"
  proof (cases "g \<in> set (volume ob)")
    case True
    let ?f = "\<lambda>ob. ob\<lparr>volume := erase_first (\<lambda>x. x = g) (volume ob)\<rparr>"
    have "mset (owned (?f ob)) + add_mset g R = mset (owned ob) + R"
      using mset_erase_first [OF True] by (simp add: owned_def flip: add_mset_add_single)
    then obtain h1 where "modify_obj m ?f h = Inr h1" "balanced h1 (add_mset g R)"
      using modify_obj_ok [OF assms, of ?f "add_mset g R"] ob by auto
    with refDec_balanced [of h1 g R] True ob show ?thesis
      by (auto simp: erase_volume_def with_obj_def)
  qed (use ob assms in \<open>simp add: erase_volume_def with_obj_def\<close>)
qed

lemma refInc_all_ok:
  assumes "balanced h R" and "\<forall>a\<in>set as. live h a"
  shows "\<exists>h'. refInc_all as h = Inr h' \<and> balanced h' (mset as + R) \<and> (\<forall>b. live h' b = live h b) \<and>
     length h' = length h"
  using assms
proof (induction as arbitrary: h R)
  case (Cons a as)
  from refInc_ok [OF Cons.prems(1), of a] Cons.prems(2) obtain h1 where
    1: "refInc a h = Inr h1" "balanced h1 (add_mset a R)" "\<forall>b. live h1 b = live h b"
    by (auto simp: live_def)
  then have "length h1 = length h"
    by (auto simp: refInc_def modify_obj_def with_obj_def split: option.splits)
  with Cons.IH [OF 1(2)] 1 Cons.prems show ?case by auto
qed simp

lemma live_append [simp]: "live (h @ [x]) b \<longleftrightarrow> live h b \<or> b = length h \<and> x \<noteq> None"
  by (auto simp: live_def get_obj_def nth_append)

lemma Data_new_balanced:
  assumes "balanced h R" and "\<forall>e\<in>set es. \<forall>a. e = Some a \<longrightarrow> live h a"
  shows "\<exists>h'. Data_new ty es h = Inr (length h, h') \<and> balanced h' (add_mset (length h) R) \<and>
     (\<forall>b. live h b \<longrightarrow> live h' b)"
proof (cases "ty = OSP_OBJECT")
  case True
  have "\<forall>a\<in>set (concat (map opt_list es)). live h a"
    using assms(2) by (auto simp: opt_list_def split: option.splits)
  from refInc_all_ok [OF assms(1) this] obtain h1 where
    1: "refInc_all (concat (map opt_list es)) h = Inr h1"
      "balanced h1 (mset (concat (map opt_list es)) + R)" "\<forall>b. live h1 b = live h b"
      "length h1 = length h" by blast
  let ?d = "(fresh_object OSP_DATA)\<lparr>elems := es\<rparr>"
  have "owned ?d = concat (map opt_list es)" "refCounter ?d = 1"
    by (simp_all add: owned_def fresh_object_def opt_list_def)
  with balanced_new [of h1 ?d R] 1 True show ?thesis
    by (simp add: Data_new_def new_obj_def)
next
  case False
  with new_obj_balanced [OF assms(1), of OSP_DATA] show ?thesis
    by (simp add: Data_new_def new_obj_def)
qed

lemma setMaterialList_balanced:
  assumes "balanced h R" and "g \<in># R" and "live h d"
  shows "\<exists>h'. Geometry_setMaterialList g d h = Inr h' \<and> balanced h' R"
proof -
  from assms(3) obtain dob where d: "get_obj d h = Some dob" by (auto simp: live_def)
  show ?thesis
  proof (cases "elems dob = []")
    case True
    with d assms(1) show ?thesis by (simp add: Geometry_setMaterialList_def with_obj_def)
  next
    case False
    from refInc_ok [OF assms(1,3)] obtain h1 where
      1: "refInc d h = Inr h1" "balanced h1 (add_mset d R)" by blast
    then have "live h1 g" using balanced_live [OF 1(2)] assms(2) by simp
    then obtain ob where ob: "get_obj g h1 = Some ob" by (auto simp: live_def)
    let ?f = "\<lambda>ob. ob\<lparr>materialListData := Some d\<rparr>"
    have "mset (owned (?f ob)) + (mset (opt_list (materialListData ob)) + R) =
        mset (owned ob) + add_mset d R"
      by (simp add: owned_def opt_list_def split: option.splits)
    from release_then_modify [where f = ?f, OF 1(2) ob assms(2) _ this] 1 d False ob show ?thesis
      by (auto simp: Geometry_setMaterialList_def with_obj_def)
  qed
qed

lemma setMaterial_balanced:
  assumes "balanced h R" and "g \<in># R" and "\<And>m. mat = Some m \<Longrightarrow> live h m"
  shows "\<exists>h'. Geometry_setMaterial g mat h = Inr h' \<and> balanced h' R"
proof (cases mat)
  case None
  with assms show ?thesis by (simp add: Geometry_setMaterial_def)
next
  case (Some m)
  with Data_new_balanced [OF assms(1), of "[Some m]" OSP_OBJECT] assms(3) obtain h1 where
    1: "Data_new OSP_OBJECT [Some m] h = Inr (length h, h1)" "balanced h1 (add_mset (length h) R)"
    by auto
  then have "live h1 (length h)" using balanced_live by auto
  from setMaterialList_balanced [OF 1(2) _ this, of g] assms(2) obtain h2 where
    2: "Geometry_setMaterialList g (length h) h1 = Inr h2" "balanced h2 (add_mset (length h) R)"
    by auto
  from refDec_balanced [OF 2(2)] 1 2 Some show ?thesis
    by (auto simp: Geometry_setMaterial_def)
qed

text \<open>The instance keeps a count of one that nothing will ever release.\<close>

lemma setPixelOp_balanced:
  assumes "balanced h R" and "fb \<in># R" and "live h po"
  shows "\<exists>h'. ISPCDevice_setPixelOp fb po h = Inr h' \<and> balanced h' (add_mset (length h) R)"
proof -
  let ?h0 = "h @ [Some (fresh_object OSP_UNKNOWN)]"
  have 0: "balanced ?h0 (add_mset (length h) R)"
    using new_obj_balanced [OF assms(1), of OSP_UNKNOWN] by (simp add: new_obj_def)
  then have "live ?h0 (length h)" using balanced_live by auto
  from refInc_ok [OF 0 this] obtain h1 where
    1: "refInc (length h) ?h0 = Inr h1" "balanced h1 (add_mset (length h) (add_mset (length h) R))"
    by blast
  have fb: "fb \<in># add_mset (length h) R" using assms(2) by simp
  then have "live h1 fb" using balanced_live [OF 1(2), of fb] assms(2) by simp
  then obtain ob where ob: "get_obj fb h1 = Some ob" by (auto simp: live_def)
  let ?f = "\<lambda>ob. ob\<lparr>pixelOp := Some (length h)\<rparr>"
  have "mset (owned (?f ob)) + (mset (opt_list (pixelOp ob)) + add_mset (length h) R) =
      mset (owned ob) + add_mset (length h) (add_mset (length h) R)"
    by (simp add: owned_def opt_list_def split: option.splits)
  from release_then_modify [where f = ?f, OF 1(2) ob fb _ this] 1 ob assms(3) show ?thesis
    by (auto simp: ISPCDevice_setPixelOp_def with_obj_def new_obj_def live_def)
qed

section \<open>Sequences of API calls\<close>

datatype (plugins only: code size) api_call =
    C_new osp_type string
  | C_newMaterial string string
  | C_newModel
  | C_newData osp_type "addr option list"
  | C_setValue addr string any_val
  | C_setBool addr string bool
  | C_setObject addr string "addr option"
  | C_removeParam addr string
  | C_addGeometry addr addr
  | C_removeGeometry addr addr
  | C_addVolume addr addr
  | C_removeVolume addr addr
  | C_setMaterial addr "addr option"
  | C_setPixelOp addr addr
  | C_release "addr option"

record device_state =
  objects :: heap
  registries :: "osp_type \<Rightarrow> symbol_registry"

definition no_result :: "heap res \<Rightarrow> device_state \<Rightarrow> addr option res \<times> device_state" where
  "no_result r d = (case r of
      Inl e \<Rightarrow> (Inl e, d)
    | Inr h \<Rightarrow> (Inr None, d\<lparr>objects := h\<rparr>))"

fun local_call :: "(string \<Rightarrow> bool) \<Rightarrow> api_call \<Rightarrow> device_state \<Rightarrow> addr option res \<times> device_state" where
  "local_call lib (C_new ty type) d =
     (case createInstance lib ty type (registries d ty) (objects d) of
        (Inl e, reg) \<Rightarrow> (Inl e, d\<lparr>registries := (registries d)(ty := reg)\<rparr>)
      | (Inr (a, h), reg) \<Rightarrow> (Inr (Some a), d\<lparr>objects := h, registries := (registries d)(ty := reg)\<rparr>))"
| "local_call lib (C_newMaterial rty mty) d =
     (case Material_createInstance lib rty mty (registries d OSP_MATERIAL) (objects d) of
        ((a, h), reg) \<Rightarrow> (Inr a, d\<lparr>objects := h, registries := (registries d)(OSP_MATERIAL := reg)\<rparr>))"
| "local_call lib C_newModel d =
     (case ISPCDevice_newModel (objects d) of (a, h) \<Rightarrow> (Inr (Some a), d\<lparr>objects := h\<rparr>))"
| "local_call lib (C_newData ty es) d =
     (case ISPCDevice_newData ty es (objects d) of
        Inl e \<Rightarrow> (Inl e, d)
      | Inr (a, h) \<Rightarrow> (Inr (Some a), d\<lparr>objects := h\<rparr>))"
| "local_call lib (C_setValue a nm v) d = no_result (managed_setParam nm v a (objects d)) d"
| "local_call lib (C_setBool a nm b) d = no_result (ISPCDevice_setBool a nm b (objects d)) d"
| "local_call lib (C_setObject a nm v) d = no_result (ISPCDevice_setObject a nm v (objects d)) d"
| "local_call lib (C_removeParam a nm) d = no_result (ISPCDevice_removeParam a nm (objects d)) d"
| "local_call lib (C_addGeometry m g) d = no_result (ISPCDevice_addGeometry m g (objects d)) d"
| "local_call lib (C_removeGeometry m g) d = no_result (ISPCDevice_removeGeometry m g (objects d)) d"
| "local_call lib (C_addVolume m v) d = no_result (ISPCDevice_addVolume m v (objects d)) d"
| "local_call lib (C_removeVolume m v) d = no_result (ISPCDevice_removeVolume m v (objects d)) d"
| "local_call lib (C_setMaterial g m) d = no_result (ISPCDevice_setMaterial g m (objects d)) d"
| "local_call lib (C_setPixelOp fb po) d = no_result (ISPCDevice_setPixelOp fb po (objects d)) d"
| "local_call lib (C_release ob) d = no_result (ISPCDevice_release ob (objects d)) d"

text \<open>What an application may call: it passes objects it holds a reference to,
  and a value parameter is not an object pointer (those go through \<open>setObject\<close>).\<close>

fun may_call :: "addr multiset \<Rightarrow> api_call \<Rightarrow> bool" where
  "may_call R (C_new ty type) \<longleftrightarrow> True"
| "may_call R (C_newMaterial rty mty) \<longleftrightarrow> True"
| "may_call R C_newModel \<longleftrightarrow> True"
| "may_call R (C_newData ty es) \<longleftrightarrow> list_all (\<lambda>e. case e of None \<Rightarrow> True | Some a \<Rightarrow> a \<in># R) es"
| "may_call R (C_setValue a nm v) \<longleftrightarrow> a \<in># R \<and> valueTypeID v \<noteq> TY_object"
| "may_call R (C_setBool a nm b) \<longleftrightarrow> a \<in># R"
| "may_call R (C_setObject a nm v) \<longleftrightarrow> a \<in># R \<and> (case v of None \<Rightarrow> True | Some b \<Rightarrow> b \<in># R)"
| "may_call R (C_removeParam a nm) \<longleftrightarrow> a \<in># R"
| "may_call R (C_addGeometry m g) \<longleftrightarrow> m \<in># R \<and> g \<in># R"
| "may_call R (C_removeGeometry m g) \<longleftrightarrow> m \<in># R \<and> g \<in># R"
| "may_call R (C_addVolume m v) \<longleftrightarrow> m \<in># R \<and> v \<in># R"
| "may_call R (C_removeVolume m v) \<longleftrightarrow> m \<in># R \<and> v \<in># R"
| "may_call R (C_setMaterial g m) \<longleftrightarrow> g \<in># R \<and> (case m of None \<Rightarrow> True | Some b \<Rightarrow> b \<in># R)"
| "may_call R (C_setPixelOp fb po) \<longleftrightarrow> fb \<in># R \<and> po \<in># R"
| "may_call R (C_release ob) \<longleftrightarrow> (case ob of None \<Rightarrow> True | Some a \<Rightarrow> a \<in># R)"

text \<open>What the application holds after a call: a new object is handed out with
  one reference, a release gives one up.\<close>

definition holds_after :: "api_call \<Rightarrow> addr option res \<Rightarrow> addr multiset \<Rightarrow> addr multiset" where
  "holds_after c r R = (case c of
      C_release (Some a) \<Rightarrow> R - {#a#}
    | _ \<Rightarrow> (case r of Inr (Some a) \<Rightarrow> add_mset a R | _ \<Rightarrow> R))"

text \<open>The references a call loses: the object in a parameter that a plain value
  overwrites, and one count of every pixel op instance.\<close>

definition loses :: "api_call \<Rightarrow> heap \<Rightarrow> addr multiset" where
  "loses c h = (case c of
      C_setValue a nm v \<Rightarrow> (case get_obj a h of None \<Rightarrow> {#} | Some ob \<Rightarrow> mset (existing_object nm (paramList ob)))
    | C_setBool a nm v \<Rightarrow> (case get_obj a h of None \<Rightarrow> {#} | Some ob \<Rightarrow> mset (existing_object nm (paramList ob)))
    | C_setPixelOp fb po \<Rightarrow> {#length h#}
    | _ \<Rightarrow> {#})"

lemma Material_createInstance_balanced:
  assumes "balanced h R" and "Material_createInstance lib rty mty reg h = ((a, h'), reg')"
  shows "balanced h' (case a of None \<Rightarrow> R | Some b \<Rightarrow> add_mset b R)"
proof -
  have created: "balanced h2 (case b of None \<Rightarrow> R | Some x \<Rightarrow> add_mset x R) \<and> (b = None \<longrightarrow> h2 = h)"
    if "tryToCreateMaterial lib r m rg h = ((b, h2), rg')" for r m rg b h2 rg'
    using that assms(1) new_obj_balanced [OF assms(1), of OSP_MATERIAL]
    by (auto simp: tryToCreateMaterial_def createInstance_def split: prod.splits sum.splits)
  obtain a1 h1 r1 where 1: "tryToCreateMaterial lib rty mty reg h = ((a1, h1), r1)"
    by (metis prod.exhaust)
  show ?thesis
  proof (cases a1)
    case (Some x)
    with 1 assms(2) created [OF 1] show ?thesis by (simp add: Material_createInstance_def)
  next
    case None
    with created [OF 1] have "h1 = h" by simp
    obtain a2 h2 r2 where 2: "tryToCreateMaterial lib rty ''default'' r1 h = ((a2, h2), r2)"
      by (metis prod.exhaust)
    show ?thesis
    proof (cases a2)
      case (Some x)
      with 1 2 None \<open>h1 = h\<close> assms(2) created [OF 2] show ?thesis
        by (simp add: Material_createInstance_def)
    next
      case none2: None
      with created [OF 2] have "h2 = h" by simp
      with 1 2 None none2 \<open>h1 = h\<close> assms new_obj_balanced [OF assms(1), of OSP_MATERIAL] show ?thesis
        by (auto simp: Material_createInstance_def split: if_splits prod.splits)
    qed
  qed
qed

lemma local_call_balanced:
  assumes "balanced (objects d) (R + L)" and "may_call R c"
  shows "\<exists>r d'. local_call lib c d = (r, d') \<and> (\<forall>e. r = Inl e \<longrightarrow> (\<exists>m. e = Runtime_error m)) \<and>
     balanced (objects d') (holds_after c r R + (L + loses c (objects d)))"
proof -
  note held = held_live [OF assms(1)]
  show ?thesis
  proof (cases c)
    case (C_new ty type)
    show ?thesis
    proof (cases "createInstance lib ty type (registries d ty) (objects d)")
      case (Pair r reg)
      show ?thesis
      proof (cases r)
        case (Inl e)
        with Pair have "\<exists>m. e = Runtime_error m"
          by (auto simp: createInstance_def objectFactory_def Let_def unknown_type_def
              split: sum.splits prod.splits if_splits elim!: stringForType.elims)
        with Inl Pair C_new assms(1) show ?thesis by (simp add: holds_after_def loses_def)
      next
        case (Inr p)
        then obtain a h where p: "p = (a, h)" by (cases p)
        with Pair Inr have "new_obj (fresh_object ty) (objects d) = (a, h)"
          by (auto simp: createInstance_def split: sum.splits prod.splits)
        from new_obj_balanced [OF assms(1) this] Inr Pair p C_new show ?thesis
          by (simp add: holds_after_def loses_def)
      qed
    qed
  next
    case (C_newMaterial rty mty)
    obtain a h reg where eq:
      "Material_createInstance lib rty mty (registries d OSP_MATERIAL) (objects d) = ((a, h), reg)"
      by (metis prod.exhaust)
    from Material_createInstance_balanced [OF assms(1) this] eq C_newMaterial show ?thesis
      by (cases a) (simp_all add: holds_after_def loses_def)
  next
    case C_newModel
    with new_obj_balanced [OF assms(1)] show ?thesis
      by (simp add: ISPCDevice_newModel_def holds_after_def loses_def new_obj_def)
  next
    case (C_newData ty es)
    with assms(2) have mine: "\<forall>e\<in>set es. (case e of None \<Rightarrow> True | Some a \<Rightarrow> a \<in># R)"
      by (simp add: list_all_iff)
    have "\<forall>e\<in>set es. \<forall>a. e = Some a \<longrightarrow> live (objects d) a"
      using mine by (fastforce intro: held)
    from Data_new_balanced [OF assms(1) this, of ty] C_newData show ?thesis
      by (auto simp: ISPCDevice_newData_def holds_after_def loses_def)
  next
    case (C_setValue a nm v)
    with assms(2) held obtain ob where ob: "get_obj a (objects d) = Some ob" by (auto simp: live_def)
    have "object_of (Some v) = []" using assms(2) C_setValue by (cases v) auto
    from setParam_balanced [OF assms(1) ob this, of nm] obtain h' where
      "managed_setParam nm v a (objects d) = Inr h'"
      "balanced h' (R + L + mset (existing_object nm (paramList ob)))" by blast
    with ob C_setValue show ?thesis
      by (simp add: no_result_def holds_after_def loses_def add.assoc)
  next
    case (C_setBool a nm b)
    with assms(2) held obtain ob where ob: "get_obj a (objects d) = Some ob" by (auto simp: live_def)
    from setParam_balanced [OF assms(1) ob, of "A_int (if b then 1 else 0)" nm] obtain h' where
      "managed_setParam nm (A_int (if b then 1 else 0)) a (objects d) = Inr h'"
      "balanced h' (R + L + mset (existing_object nm (paramList ob)))" by auto
    then have "ISPCDevice_setBool a nm b (objects d) = Inr h'"
      by (simp add: ISPCDevice_setBool_def managed_setParam_def setParam_bool_def [abs_def])
    with \<open>balanced h' _\<close> ob C_setBool show ?thesis
      by (simp add: no_result_def holds_after_def loses_def add.assoc)
  next
    case (C_setObject a nm v)
    then have "live (objects d) b" if "v = Some b" for b using that assms(2) held by simp
    with setObject_balanced [OF assms(1), of a v nm] assms(2) C_setObject show ?thesis
      by (auto simp: no_result_def holds_after_def loses_def ISPCDevice_setObject_def)
  next
    case (C_removeParam a nm)
    with removeParam_balanced [OF assms(1), of a nm] assms(2) show ?thesis
      by (auto simp: no_result_def holds_after_def loses_def)
  next
    case (C_addGeometry m g)
    with push_balanced(1) [OF assms(1), of m g] assms(2) held show ?thesis
      by (auto simp: no_result_def holds_after_def loses_def ISPCDevice_addGeometry_def)
  next
    case (C_removeGeometry m g)
    with erase_balanced(1) [OF assms(1), of m g] assms(2) held show ?thesis
      by (auto simp: no_result_def holds_after_def loses_def ISPCDevice_removeGeometry_def)
  next
    case (C_addVolume m v)
    with push_balanced(2) [OF assms(1), of m v] assms(2) held show ?thesis
      by (auto simp: no_result_def holds_after_def loses_def ISPCDevice_addVolume_def)
  next
    case (C_removeVolume m v)
    with erase_balanced(2) [OF assms(1), of m v] assms(2) held show ?thesis
      by (auto simp: no_result_def holds_after_def loses_def ISPCDevice_removeVolume_def)
  next
    case (C_setMaterial g m)
    then have "live (objects d) b" if "m = Some b" for b using that assms(2) held by simp
    with setMaterial_balanced [OF assms(1), of g m] assms(2) C_setMaterial show ?thesis
      by (auto simp: no_result_def holds_after_def loses_def ISPCDevice_setMaterial_def)
  next
    case (C_setPixelOp fb po)
    with setPixelOp_balanced [OF assms(1), of fb po] assms(2) held show ?thesis
      by (auto simp: no_result_def holds_after_def loses_def)
  next
    case (C_release ob)
    show ?thesis
    proof (cases ob)
      case None
      with C_release assms(1) show ?thesis
        by (simp add: no_result_def holds_after_def loses_def ISPCDevice_release_def)
    next
      case (Some a)
      with assms(2) C_release have "a \<in># R" by simp
      then have "R + L = add_mset a (R - {#a#} + L)" by (metis insert_DiffM union_mset_add_mset_left)
      with refDec_balanced [of "objects d" a "R - {#a#} + L"] assms(1) Some C_release show ?thesis
        by (auto simp: no_result_def holds_after_def loses_def ISPCDevice_release_def)
    qed
  qed
qed

text \<open>A run: the API layer catches an exception and the application goes on.\<close>

record app_state =
  device :: device_state
  holds :: "addr multiset"
  lost :: "addr multiset"

definition app_step :: "(string \<Rightarrow> bool) \<Rightarrow> api_call \<Rightarrow> app_state \<Rightarrow> app_state" where
  "app_step lib c s = (case local_call lib c (device s) of (r, d') \<Rightarrow>
     \<lparr>device = d', holds = holds_after c r (holds s), lost = lost s + loses c (objects (device s))\<rparr>)"

definition initial_app :: app_state where
  "initial_app = \<lparr>device = \<lparr>objects = [], registries = (\<lambda>_ _. None)\<rparr>, holds = {#}, lost = {#}\<rparr>"

inductive app_reachable :: "(string \<Rightarrow> bool) \<Rightarrow> app_state \<Rightarrow> bool" for lib where
  app_init: "app_reachable lib initial_app"
| app_call: "app_reachable lib s \<Longrightarrow> may_call (holds s) c \<Longrightarrow> app_reachable lib (app_step lib c s)"

lemma app_reachable_balanced:
  "app_reachable lib s \<Longrightarrow> balanced (objects (device s)) (holds s + lost s)"
proof (induction rule: app_reachable.induct)
  case app_init
  show ?case by (simp add: initial_app_def balanced_def refs_def get_obj_def)
next
  case (app_call s c)
  from local_call_balanced [OF app_call.IH app_call.hyps(2), of lib] show ?case
    by (auto simp: app_step_def)
qed

text \<open>Runs from a state, and what they cannot undo.\<close>

primrec app_run :: "(string \<Rightarrow> bool) \<Rightarrow> api_call list \<Rightarrow> app_state \<Rightarrow> app_state" where
  "app_run lib [] s = s"
| "app_run lib (c # cs) s = app_run lib cs (app_step lib c s)"

primrec may_run :: "(string \<Rightarrow> bool) \<Rightarrow> api_call list \<Rightarrow> app_state \<Rightarrow> bool" where
  "may_run lib [] s \<longleftrightarrow> True"
| "may_run lib (c # cs) s \<longleftrightarrow> may_call (holds s) c \<and> may_run lib cs (app_step lib c s)"

lemma app_run_reachable: "app_reachable lib s \<Longrightarrow> may_run lib cs s \<Longrightarrow> app_reachable lib (app_run lib cs s)"
  by (induction cs arbitrary: s) (auto intro: app_call)

lemma lost_stays: "x \<in># lost s \<Longrightarrow> x \<in># lost (app_run lib cs s)"
  by (induction cs arbitrary: s) (auto simp: app_step_def split: prod.splits)

lemma lost_never_freed:
  assumes "app_reachable lib s" and "x \<in># lost s" and "may_run lib cs s"
  shows "live (objects (device (app_run lib cs s))) x"
  using balanced_live [OF app_reachable_balanced [OF app_run_reachable [OF assms(1,3)]], of x]
    lost_stays [OF assms(2), of lib cs] by simp

section \<open>Properties\<close>

text \<open>C6 No use after free: in every state an application can reach by calls that
  pass objects it holds, the next such call returns or throws a runtime error; it
  never touches a destroyed object.\<close>

theorem local_calls_are_safe:
  assumes "app_reachable lib s" and "may_call (holds s) c"
  shows "\<exists>r d. local_call lib c (device s) = (r, d) \<and> (\<forall>e. r = Inl e \<longrightarrow> (\<exists>m. e = Runtime_error m))"
  using local_call_balanced [OF app_reachable_balanced [OF assms(1)] assms(2), of lib] by auto

theorem local_calls_are_safe_witness:
  "\<exists>r d. local_call (\<lambda>_. True) C_newModel (device initial_app) = (r, d) \<and>
     (\<forall>e. r = Inl e \<longrightarrow> (\<exists>m. e = Runtime_error m))"
  using local_calls_are_safe [OF app_init, of C_newModel "\<lambda>_. True"] by simp

text \<open>C5 Reference counts: in every reachable state each live object's count is the
  number of references to it (from live objects, from the application, and the
  lost ones), and every reference is to a live object.  So an object is destroyed
  exactly when its last reference goes.\<close>

theorem reference_counts_exact:
  assumes "app_reachable lib s"
  shows "(\<forall>a ob. get_obj a (objects (device s)) = Some ob \<longrightarrow>
            refCounter ob = int (count (refs (objects (device s))) a + count (holds s) a + count (lost s) a) \<and>
            0 < refCounter ob) \<and>
         (\<forall>a. a \<in># refs (objects (device s)) + holds s + lost s \<longrightarrow> live (objects (device s)) a)"
proof (intro conjI allI impI)
  note bal = app_reachable_balanced [OF assms]
  fix a
  show "live (objects (device s)) a" if "a \<in># refs (objects (device s)) + holds s + lost s"
    using balanced_live [OF bal, of a] that by (simp add: add.assoc)
  fix ob
  assume "get_obj a (objects (device s)) = Some ob"
  from balanced_obj [OF bal this]
  show "refCounter ob = int (count (refs (objects (device s))) a + count (holds s) a + count (lost s) a)"
    "0 < refCounter ob" by simp_all
qed

theorem reference_counts_exact_witness:
  "let s = app_step (\<lambda>_. True) C_newModel initial_app in
   get_obj 0 (objects (device s)) = Some (fresh_object OSP_MODEL) \<and>
   refCounter (fresh_object OSP_MODEL) =
     int (count (refs (objects (device s))) 0 + count (holds s) 0 + count (lost s) 0)"
proof -
  let ?s = "app_step (\<lambda>_. True) C_newModel initial_app"
  have "app_reachable (\<lambda>_. True) ?s" by (rule app_call [OF app_init]) simp
  from reference_counts_exact [OF this]
  have "\<forall>a ob. get_obj a (objects (device ?s)) = Some ob \<longrightarrow>
      refCounter ob = int (count (refs (objects (device ?s))) a + count (holds ?s) a + count (lost ?s) a)"
    by blast
  moreover have "get_obj 0 (objects (device ?s)) = Some (fresh_object OSP_MODEL)"
    by (simp add: app_step_def initial_app_def ISPCDevice_newModel_def new_obj_def get_obj_def)
  ultimately show ?thesis unfolding Let_def by blast
qed

text \<open>A leak: when a plain value is set on a parameter that holds an object, the
  object's reference is dropped without a decrement, so the object stays alive
  whatever the application does and releases afterwards.\<close>

theorem value_over_object_leaks:
  assumes "app_reachable lib s" and "may_call (holds s) (C_setValue a nm v)"
    and "get_obj a (objects (device s)) = Some ob" and "existing_object nm (paramList ob) = [x]"
    and "may_run lib cs (app_step lib (C_setValue a nm v) s)"
  shows "live (objects (device (app_run lib cs (app_step lib (C_setValue a nm v) s)))) x"
proof (rule lost_never_freed)
  show "app_reachable lib (app_step lib (C_setValue a nm v) s)" using assms(1,2) by (rule app_call)
  show "x \<in># lost (app_step lib (C_setValue a nm v) s)"
    using assms(3,4) by (auto simp: app_step_def loses_def split: prod.splits)
qed (rule assms(5))

definition leak_example :: app_state where
  "leak_example = app_run (\<lambda>_. True) [C_newModel, C_newModel, C_setObject 0 ''x'' (Some 1)] initial_app"

theorem value_over_object_leaks_witness:
  "live (objects (device (app_run (\<lambda>_. True) [C_release (Some 1), C_release (Some 0)]
     (app_step (\<lambda>_. True) (C_setValue 0 ''x'' (A_int 7)) leak_example)))) 1"
proof -
  note run = leak_example_def initial_app_def app_step_def ISPCDevice_newModel_def new_obj_def
    get_obj_def no_result_def ISPCDevice_setObject_def managed_setObject_def set_params_def
    modify_obj_def with_obj_def findParam_def find_param_idx_def refInc_def fresh_object_def
    existing_object_def getParam_def any_is_def any_get_def any_valid_def setParam_def
    ISPCDevice_release_def refDec_def owned_def opt_list_def holds_after_def managed_setParam_def loses_def
  have "app_reachable (\<lambda>_. True) leak_example"
    unfolding leak_example_def by (rule app_run_reachable [OF app_init]) (simp add: run)
  moreover have "may_call (holds leak_example) (C_setValue 0 ''x'' (A_int 7))"
    by (simp add: run)
  moreover have "\<exists>ob. get_obj 0 (objects (device leak_example)) = Some ob \<and>
      existing_object ''x'' (paramList ob) = [1]"
    by (simp add: run)
  moreover have "may_run (\<lambda>_. True) [C_release (Some 1), C_release (Some 0)]
      (app_step (\<lambda>_. True) (C_setValue 0 ''x'' (A_int 7)) leak_example)"
    by (simp add: run)
  ultimately show ?thesis using value_over_object_leaks by blast
qed

text \<open>Every \<open>setPixelOp\<close> leaks: the instance the pixel op creates is counted once
  by \<open>new\<close> and once by the frame buffer's \<open>Ref\<close>, and only the latter is ever given
  back.\<close>

theorem pixel_op_instance_leaks:
  assumes "app_reachable lib s" and "may_call (holds s) (C_setPixelOp fb po)"
    and "may_run lib cs (app_step lib (C_setPixelOp fb po) s)"
  shows "live (objects (device (app_run lib cs (app_step lib (C_setPixelOp fb po) s))))
     (length (objects (device s)))"
proof (rule lost_never_freed)
  show "app_reachable lib (app_step lib (C_setPixelOp fb po) s)" using assms(1,2) by (rule app_call)
  show "length (objects (device s)) \<in># lost (app_step lib (C_setPixelOp fb po) s)"
    by (auto simp: app_step_def loses_def split: prod.splits)
qed (rule assms(3))

theorem pixel_op_instance_leaks_witness:
  "live (objects (device (app_run (\<lambda>_. True) [C_release (Some 1), C_release (Some 0)]
     (app_step (\<lambda>_. True) (C_setPixelOp 0 1)
       (app_run (\<lambda>_. True) [C_newModel, C_newModel] initial_app))))) 2"
proof -
  note run = initial_app_def app_step_def ISPCDevice_newModel_def new_obj_def get_obj_def
    no_result_def ISPCDevice_setPixelOp_def ISPCDevice_release_def refDec_def owned_def modify_obj_def with_obj_def refInc_def fresh_object_def
    holds_after_def loses_def opt_list_def
  let ?s = "app_run (\<lambda>_. True) [C_newModel, C_newModel] initial_app"
  have "app_reachable (\<lambda>_. True) ?s" by (rule app_run_reachable [OF app_init]) (simp add: run)
  moreover have "may_call (holds ?s) (C_setPixelOp 0 1)" by (simp add: run)
  moreover have "may_run (\<lambda>_. True) [C_release (Some 1), C_release (Some 0)]
      (app_step (\<lambda>_. True) (C_setPixelOp 0 1) ?s)"
    by (simp add: run)
  moreover have "length (objects (device ?s)) = 2" by (simp add: run)
  ultimately show ?thesis using pixel_op_instance_leaks by metis
qed

end
