(* ===== verification/WorkRun.thy ===== *)
theory WorkRun
  imports Handles LocalRefs
begin

text \<open>
  What the work units do (\<open>run\<close> on a worker, \<open>runOnMaster\<close> on the master;
  \<open>modules/mpi/common/OSPWork\<close>), on the state of one rank: its objects, its handle
  table, the load balancer that is installed, and the list of calls it makes into
  parts that are not modelled here (the commit of an object, rendering, MPI).

  Results of those parts, and the build mode (\<open>NDEBUG\<close>), are parameters.
\<close>

section \<open>The state of a rank\<close>

datatype load_balancer =
  No_balancer | Dynamic_slave handle | Static_slave | Dynamic_master handle i32 | Static_master

datatype (plugins only: code size) rank_event =
    E_commit addr
  | E_clear addr u32
  | E_renderFrame addr addr u32
  | E_barrier
  | E_worker_barrier
  | E_setRegion addr "byte list" vec3i vec3i
  | E_pick addr vec2f
  | E_send_pick "byte list"
  | E_recv_pick
  | E_loadModule string
  | E_maml_shutdown
  | E_mpi_finalize
  | E_exit
  | E_status string

record rank =
  robjects :: heap
  rregistries :: "osp_type \<Rightarrow> symbol_registry"
  handles :: handle_table
  balancer :: load_balancer
  rlog :: "rank_event list"
  world_rank :: nat

record env =
  lib :: "string \<Rightarrow> bool"
  ndebug :: bool
  volume_accepts :: "addr \<Rightarrow> byte list \<Rightarrow> vec3i \<Rightarrow> vec3i \<Rightarrow> bool"
  frame_variance :: "addr \<Rightarrow> addr \<Rightarrow> u32 \<Rightarrow> float_bits"
  pick_answer :: "addr \<Rightarrow> vec2f \<Rightarrow> byte list"
  received_pick :: "byte list"
  load_module :: "string \<Rightarrow> i32 res"
  makes_instance :: bool

type_synonym 'a rank_op = "rank \<Rightarrow> ('a \<times> rank) res"

definition log_event :: "rank_event \<Rightarrow> rank \<Rightarrow> rank" where
  "log_event e r = r\<lparr>rlog := rlog r @ [e]\<rparr>"

definition on_heap :: "(heap \<Rightarrow> heap res) \<Rightarrow> rank \<Rightarrow> rank res" where
  "on_heap f r = bind_res (f (robjects r)) (\<lambda>h. Inr (r\<lparr>robjects := h\<rparr>))"

definition lookup :: "handle \<Rightarrow> rank \<Rightarrow> addr option" where
  "lookup h r = ObjectHandle_lookup h (handles r)"

definition assign :: "handle \<Rightarrow> addr option \<Rightarrow> rank \<Rightarrow> rank" where
  "assign h p r = r\<lparr>handles := ObjectHandle_assign h p (handles r)\<rparr>"

text \<open>\<open>Assert(obj)\<close> followed by a use of \<open>obj\<close>.\<close>

definition asserted :: "env \<Rightarrow> addr option \<Rightarrow> (addr \<Rightarrow> 'a res) \<Rightarrow> 'a res" where
  "asserted E p k = (case p of
      Some a \<Rightarrow> k a
    | None \<Rightarrow> Inl (if ndebug E then Undefined_behaviour else Assertion_failed))"

text \<open>\<open>dynamic_cast<Renderer*>(obj)\<close> and the like; null stays null.\<close>

definition has_type :: "osp_type \<Rightarrow> addr option \<Rightarrow> rank \<Rightarrow> bool" where
  "has_type ty p r = (case p of None \<Rightarrow> False | Some a \<Rightarrow> (case get_obj a (robjects r) of
      None \<Rightarrow> False | Some ob \<Rightarrow> managedObjectType ob = ty))"

section \<open>Creating objects\<close>

definition create :: "env \<Rightarrow> osp_type \<Rightarrow> string \<Rightarrow> handle \<Rightarrow> rank \<Rightarrow> rank res" where
  "create E ty type h r = (case createInstance (lib E) ty type (rregistries r ty) (robjects r) of
      (Inl e, reg) \<Rightarrow> Inl e
    | (Inr (a, hp), reg) \<Rightarrow>
        Inr (assign h (Some a) (r\<lparr>robjects := hp, rregistries := (rregistries r)(ty := reg)\<rparr>)))"

fun kind_type :: "object_kind \<Rightarrow> osp_type" where
  "kind_type K_Renderer = OSP_RENDERER"
| "kind_type K_Model = OSP_MODEL"
| "kind_type K_Geometry = OSP_GEOMETRY"
| "kind_type K_Camera = OSP_CAMERA"
| "kind_type K_Volume = OSP_VOLUME"
| "kind_type K_TransferFunction = OSP_TRANSFER_FUNCTION"
| "kind_type K_PixelOp = OSP_PIXEL_OP"
| "kind_type K_Texture = OSP_TEXTURE"

definition create_plain :: "osp_type \<Rightarrow> handle \<Rightarrow> rank \<Rightarrow> rank" where
  "create_plain ty h r = (case new_obj (fresh_object ty) (robjects r) of
     (a, hp) \<Rightarrow> assign h (Some a) (r\<lparr>robjects := hp\<rparr>))"

definition NewModel_run :: "handle \<Rightarrow> rank \<Rightarrow> rank res" where
  "NewModel_run h r = Inr (create_plain OSP_MODEL h r)"

definition NewObjectT_run :: "env \<Rightarrow> object_kind \<Rightarrow> string \<Rightarrow> handle \<Rightarrow> rank \<Rightarrow> rank res" where
  "NewObjectT_run E k type h r =
     (if k = K_Model then NewModel_run h r else create E (kind_type k) type h r)"

definition NewMaterial2_run :: "env \<Rightarrow> string \<Rightarrow> string \<Rightarrow> handle \<Rightarrow> rank \<Rightarrow> rank res" where
  "NewMaterial2_run E rty mty h r =
     (case Material_createInstance (lib E) rty mty (rregistries r OSP_MATERIAL) (robjects r) of
        ((a, hp), reg) \<Rightarrow>
          Inr (assign h a (r\<lparr>robjects := hp, rregistries := (rregistries r)(OSP_MATERIAL := reg)\<rparr>)))"

definition NewMaterial_run :: "env \<Rightarrow> handle \<Rightarrow> string \<Rightarrow> handle \<Rightarrow> rank \<Rightarrow> rank res" where
  "NewMaterial_run E renderer mty h r = (case lookup renderer r of
      None \<Rightarrow> Inl Undefined_behaviour
    | Some a \<Rightarrow> with_obj a (robjects r) (\<lambda>ob.
        bind_res (getParam TY_string ''externalNameFromAPI'' (A_string '''') (paramList ob)) (\<lambda>v. case v of
           A_string rty \<Rightarrow> NewMaterial2_run E rty mty h r
         | _ \<Rightarrow> NewMaterial2_run E '''' mty h r)))"

definition NewLight_run :: "env \<Rightarrow> string \<Rightarrow> handle \<Rightarrow> rank \<Rightarrow> rank res" where
  "NewLight_run E type h r = create E OSP_LIGHT type h r"

text \<open>The handles of an array of objects are replaced by pointers in place; the loop
  reads \<open>nItems\<close> entries of 8 bytes, whatever the array holds.\<close>

definition handle_at :: "byte list \<Rightarrow> nat \<Rightarrow> handle" where
  "handle_at bs i = word_of_nat (le_val (take 8 (drop (8 * i) bs)))"

definition translate_handles :: "nat \<Rightarrow> byte list \<Rightarrow> rank \<Rightarrow> addr option list res" where
  "translate_handles n bs r =
     (if length bs < 8 * n then Inl Undefined_behaviour
      else Inr (map (\<lambda>i. let h = handle_at bs i in
                         if h \<noteq> NULL_HANDLE then lookup h r else None) [0..<n]))"

fun type_of_enum :: "u32 \<Rightarrow> osp_type" where
  "type_of_enum n = (case filter (\<lambda>t. enum_value t = unat n) all_types of [] \<Rightarrow> OSP_UNKNOWN | t # _ \<Rightarrow> t)"

lemma type_of_enum_value: "type_of_enum (word_of_nat (enum_value ty)) = ty"
proof -
  let ?xs = "filter (\<lambda>t. enum_value t = enum_value ty) all_types"
  have "enum_value ty < 2 ^ 32" by (cases ty) simp_all
  then have enum: "unat (word_of_nat (enum_value ty) :: u32) = enum_value ty"
    by (simp add: unat_of_nat)
  have "ty \<in> set ?xs" "\<forall>t\<in>set ?xs. t = ty" by (auto dest: enum_value_inj)
  then obtain ts where "?xs = ty # ts" by (cases ?xs) auto
  then show ?thesis by (simp add: enum)
qed

definition NewData_run :: "env \<Rightarrow> handle \<Rightarrow> u64 \<Rightarrow> u32 \<Rightarrow> byte list \<Rightarrow> rank \<Rightarrow> rank res" where
  "NewData_run E h nItems fmt bs r =
     (let ty = type_of_enum fmt in
      if \<not> ndebug E \<and> ty = OSP_STRING then Inl Assertion_failed
      else bind_res (if ty \<in> set object_formats then translate_handles (unat nItems) bs r else Inr []) (\<lambda>es.
           bind_res (sizeOf ty) (\<lambda>_.
           bind_res (Data_new ty es (robjects r)) (\<lambda>(a, hp).
           Inr (assign h (Some a) (r\<lparr>robjects := hp\<rparr>))))))"

definition CreateFrameBuffer_run :: "env \<Rightarrow> handle \<Rightarrow> vec2i \<Rightarrow> rank \<Rightarrow> rank res" where
  "CreateFrameBuffer_run E h dims r =
     (if \<not> ndebug E \<and> \<not> (0 < sint (fst dims) \<and> 0 < sint (snd dims)) then Inl Assertion_failed
      else Inr (create_plain OSP_FRAMEBUFFER h r))"

section \<open>Parameters and links between objects\<close>

fun any_of_param :: "param_value \<Rightarrow> any_val" where
  "any_of_param (P_object h) = A_object None"
| "any_of_param (P_string s) = A_string s"
| "any_of_param (P_int i) = A_int i"
| "any_of_param (P_bool b) = A_int (if b then 1 else 0)"
| "any_of_param (P_float f) = A_float f"
| "any_of_param (P_vec2f v) = A_vec2f v"
| "any_of_param (P_vec2i v) = A_vec2i v"
| "any_of_param (P_vec3f v) = A_vec3f v"
| "any_of_param (P_vec3i v) = A_vec3i v"
| "any_of_param (P_vec4f v) = A_vec4f v"

definition SetParam_object_run :: "env \<Rightarrow> handle \<Rightarrow> string \<Rightarrow> handle \<Rightarrow> rank \<Rightarrow> rank res" where
  "SetParam_object_run E h nm v r = asserted E (lookup h r) (\<lambda>a.
     if v = NULL_HANDLE then on_heap (managed_setObject nm None a) r
     else (case lookup v r of
             None \<Rightarrow> if ndebug E then on_heap (managed_setObject nm None a) r else Inl Assertion_failed
           | Some b \<Rightarrow> on_heap (managed_setObject nm (Some b) a) r))"

definition SetParam_run :: "env \<Rightarrow> handle \<Rightarrow> string \<Rightarrow> param_value \<Rightarrow> rank \<Rightarrow> rank res" where
  "SetParam_run E h nm v r = (case v of
      P_object o' \<Rightarrow> SetParam_object_run E h nm o' r
    | _ \<Rightarrow> asserted E (lookup h r) (\<lambda>a. on_heap (managed_setParam nm (any_of_param v) a) r))"

definition SetParam_runOnMaster :: "handle \<Rightarrow> string \<Rightarrow> param_value \<Rightarrow> rank \<Rightarrow> rank res" where
  "SetParam_runOnMaster h nm v r = (case v of
      P_object _ \<Rightarrow> Inr r
    | _ \<Rightarrow> if \<not> ObjectHandle_defined h (handles r) then Inr r
           else if has_type OSP_RENDERER (lookup h r) r \<or> has_type OSP_VOLUME (lookup h r) r
                then (case lookup h r of
                        None \<Rightarrow> Inr r
                      | Some a \<Rightarrow> on_heap (managed_setParam nm (any_of_param v) a) r)
                else Inr r)"

definition SetMaterial_run :: "env \<Rightarrow> handle \<Rightarrow> handle \<Rightarrow> rank \<Rightarrow> rank res" where
  "SetMaterial_run E g m r = asserted E (lookup g r) (\<lambda>a.
     if lookup m r = None \<and> \<not> ndebug E then Inl Assertion_failed
     else on_heap (Geometry_setMaterial a (lookup m r)) r)"

definition RemoveParam_run :: "env \<Rightarrow> handle \<Rightarrow> string \<Rightarrow> rank \<Rightarrow> rank res" where
  "RemoveParam_run E h nm r = asserted E (lookup h r) (\<lambda>a. on_heap (set_params (removeParam nm) a) r)"

definition RemoveParam_runOnMaster :: "handle \<Rightarrow> string \<Rightarrow> rank \<Rightarrow> rank res" where
  "RemoveParam_runOnMaster h nm r =
     (if has_type OSP_RENDERER (lookup h r) r \<or> has_type OSP_VOLUME (lookup h r) r
      then (case lookup h r of None \<Rightarrow> Inr r | Some a \<Rightarrow> on_heap (set_params (removeParam nm) a) r)
      else Inr r)"

definition AddGeometry_run :: "env \<Rightarrow> handle \<Rightarrow> handle \<Rightarrow> rank \<Rightarrow> rank res" where
  "AddGeometry_run E m g r = asserted E (lookup m r) (\<lambda>ma. asserted E (lookup g r) (\<lambda>ga.
     on_heap (push_geometry ma ga) r))"

definition AddVolume_run :: "env \<Rightarrow> handle \<Rightarrow> handle \<Rightarrow> rank \<Rightarrow> rank res" where
  "AddVolume_run E m v r = asserted E (lookup m r) (\<lambda>ma. asserted E (lookup v r) (\<lambda>va.
     on_heap (push_volume ma va) r))"

definition RemoveGeometry_run :: "env \<Rightarrow> handle \<Rightarrow> handle \<Rightarrow> rank \<Rightarrow> rank res" where
  "RemoveGeometry_run E m g r = asserted E (lookup m r) (\<lambda>ma. asserted E (lookup g r) (\<lambda>ga.
     on_heap (erase_geometry ma ga) r))"

text \<open>The code appends the volume before it looks for it.\<close>

definition RemoveVolume_run :: "env \<Rightarrow> handle \<Rightarrow> handle \<Rightarrow> rank \<Rightarrow> rank res" where
  "RemoveVolume_run E m v r = asserted E (lookup m r) (\<lambda>ma. asserted E (lookup v r) (\<lambda>va.
     on_heap (\<lambda>h. bind_res (push_volume ma va h) (erase_volume ma va)) r))"

definition SetPixelOp_run :: "env \<Rightarrow> handle \<Rightarrow> handle \<Rightarrow> rank \<Rightarrow> rank res" where
  "SetPixelOp_run E fb po r = asserted E (lookup fb r) (\<lambda>fa. asserted E (lookup po r) (\<lambda>pa.
     if makes_instance E then on_heap (ISPCDevice_setPixelOp fa pa) r
     else bind_res (on_heap (\<lambda>h. with_obj fa h (\<lambda>ob.
                      bind_res (release_refs (opt_list (pixelOp ob)) h)
                        (modify_obj fa (\<lambda>ob. ob\<lparr>pixelOp := None\<rparr>)))) r)
            (\<lambda>r'. Inr (log_event (E_status ''PixelOp did not create an instance!'') r'))))"

section \<open>Commands\<close>

definition SetLoadBalancer_run :: "i32 \<Rightarrow> handle \<Rightarrow> rank \<Rightarrow> rank res" where
  "SetLoadBalancer_run dyn h r =
     Inr (r\<lparr>balancer := (if dyn \<noteq> 0 then Dynamic_slave h else Static_slave)\<rparr>)"

definition SetLoadBalancer_runOnMaster :: "i32 \<Rightarrow> i32 \<Rightarrow> handle \<Rightarrow> rank \<Rightarrow> rank res" where
  "SetLoadBalancer_runOnMaster dyn n h r =
     Inr (r\<lparr>balancer := (if dyn \<noteq> 0 then Dynamic_master h n else Static_master)\<rparr>)"

definition CommitObject_run :: "handle \<Rightarrow> rank \<Rightarrow> rank res" where
  "CommitObject_run h r = (case lookup h r of
      Some a \<Rightarrow> Inr (log_event (E_commit a) r)
    | None \<Rightarrow> Inl (Runtime_error ''did not have object to commit!''))"

definition CommitObject_runOnMaster :: "handle \<Rightarrow> rank \<Rightarrow> rank res" where
  "CommitObject_runOnMaster h r =
     (if ObjectHandle_defined h (handles r) \<and> has_type OSP_RENDERER (lookup h r) r
      then (case lookup h r of Some a \<Rightarrow> Inr (log_event (E_commit a) r) | None \<Rightarrow> Inr r)
      else Inr r)"

definition SetRegion_run :: "env \<Rightarrow> handle \<Rightarrow> vec3i \<Rightarrow> vec3i \<Rightarrow> byte list \<Rightarrow> rank \<Rightarrow> rank res" where
  "SetRegion_run E h st sz bs r = asserted E (lookup h r) (\<lambda>a.
     if \<not> volume_accepts E a bs st sz then Inl (Runtime_error ''Failed to set region for volume'')
     else Inr (log_event (E_setRegion a bs st sz) r))"

definition ClearFrameBuffer_run :: "env \<Rightarrow> handle \<Rightarrow> u32 \<Rightarrow> rank \<Rightarrow> rank res" where
  "ClearFrameBuffer_run E h ch r =
     asserted E (lookup h r) (\<lambda>a. Inr (log_event (E_clear a ch) r))"

definition RenderFrame_run ::
  "env \<Rightarrow> handle \<Rightarrow> handle \<Rightarrow> u32 \<Rightarrow> rank \<Rightarrow> (float_bits \<times> rank) res" where
  "RenderFrame_run E fb rn ch r =
     (let r1 = log_event E_barrier r in
      asserted E (lookup rn r1) (\<lambda>ra. asserted E (lookup fb r1) (\<lambda>fa.
        Inr (frame_variance E ra fa ch, log_event (E_renderFrame ra fa ch) r1))))"

definition CommandRelease_run :: "handle \<Rightarrow> rank \<Rightarrow> rank res" where
  "CommandRelease_run h r =
     bind_res (ObjectHandle_freeObject h (handles r) (robjects r)) (\<lambda>(t, hp).
     Inr (r\<lparr>handles := t, robjects := hp\<rparr>))"

definition CommandRelease_runOnMaster :: "handle \<Rightarrow> rank \<Rightarrow> rank res" where
  "CommandRelease_runOnMaster h r =
     (if ObjectHandle_defined h (handles r) then CommandRelease_run h r else Inr r)"

definition LoadModule_run :: "env \<Rightarrow> string \<Rightarrow> rank \<Rightarrow> (i32 \<times> rank) res" where
  "LoadModule_run E nm r =
     bind_res (load_module E nm) (\<lambda>code. Inr (code, log_event (E_loadModule nm) r))"

definition CommandFinalize_runOnMaster :: "rank \<Rightarrow> rank" where
  "CommandFinalize_runOnMaster r =
     log_event E_mpi_finalize (log_event E_barrier (log_event E_maml_shutdown r))"

definition CommandFinalize_run :: "rank \<Rightarrow> rank" where
  "CommandFinalize_run r = log_event E_exit (CommandFinalize_runOnMaster r)"

definition Pick_run :: "env \<Rightarrow> handle \<Rightarrow> vec2f \<Rightarrow> byte list \<Rightarrow> rank \<Rightarrow> (byte list \<times> rank) res" where
  "Pick_run E h pos old r =
     (if world_rank r = 1
      then asserted E (lookup h r) (\<lambda>a.
             let res = pick_answer E a pos
             in Inr (res, log_event E_worker_barrier
                            (log_event (E_send_pick res) (log_event (E_pick a pos) r))))
      else Inr (old, log_event E_worker_barrier r))"

definition Pick_runOnMaster :: "env \<Rightarrow> rank \<Rightarrow> byte list \<times> rank" where
  "Pick_runOnMaster E r = (received_pick E, log_event E_recv_pick r)"

section \<open>Dispatch\<close>

definition keeping :: "work \<Rightarrow> rank res \<Rightarrow> (work \<times> rank) res" where
  "keeping w x = bind_res x (\<lambda>r. Inr (w, r))"

fun run :: "env \<Rightarrow> work \<Rightarrow> work rank_op" where
  "run E (SetLoadBalancer dyn n h) r = keeping (SetLoadBalancer dyn n h) (SetLoadBalancer_run dyn h r)"
| "run E (NewObjectT k ty h) r = keeping (NewObjectT k ty h) (NewObjectT_run E k ty h r)"
| "run E (NewMaterial rn ty h) r = keeping (NewMaterial rn ty h) (NewMaterial_run E rn ty h r)"
| "run E (NewMaterial2 rty mty h) r = keeping (NewMaterial2 rty mty h) (NewMaterial2_run E rty mty h r)"
| "run E (NewLight ty h) r = keeping (NewLight ty h) (NewLight_run E ty h r)"
| "run E (NewData h n fmt bs fl) r = keeping (NewData h n fmt bs fl) (NewData_run E h n fmt bs r)"
| "run E (SetRegion h st sz ty bs) r = keeping (SetRegion h st sz ty bs) (SetRegion_run E h st sz bs r)"
| "run E (CommitObject h) r = keeping (CommitObject h) (CommitObject_run h r)"
| "run E (ClearFrameBuffer h ch) r = keeping (ClearFrameBuffer h ch) (ClearFrameBuffer_run E h ch r)"
| "run E (RenderFrame fb rn ch v) r =
     bind_res (RenderFrame_run E fb rn ch r) (\<lambda>(v', r'). Inr (RenderFrame fb rn ch v', r'))"
| "run E (AddVolume m ob) r = keeping (AddVolume m ob) (AddVolume_run E m ob r)"
| "run E (AddGeometry m ob) r = keeping (AddGeometry m ob) (AddGeometry_run E m ob r)"
| "run E (RemoveGeometry m ob) r = keeping (RemoveGeometry m ob) (RemoveGeometry_run E m ob r)"
| "run E (RemoveVolume m ob) r = keeping (RemoveVolume m ob) (RemoveVolume_run E m ob r)"
| "run E (CreateFrameBuffer h d fmt ch) r =
     keeping (CreateFrameBuffer h d fmt ch) (CreateFrameBuffer_run E h d r)"
| "run E (SetParam h nm v) r = keeping (SetParam h nm v) (SetParam_run E h nm v r)"
| "run E (SetMaterial g m) r = keeping (SetMaterial g m) (SetMaterial_run E g m r)"
| "run E (RemoveParam h nm) r = keeping (RemoveParam h nm) (RemoveParam_run E h nm r)"
| "run E (SetPixelOp fb po) r = keeping (SetPixelOp fb po) (SetPixelOp_run E fb po r)"
| "run E (CommandRelease h) r = keeping (CommandRelease h) (CommandRelease_run h r)"
| "run E (LoadModule nm e) r = bind_res (LoadModule_run E nm r) (\<lambda>(e', r'). Inr (LoadModule nm e', r'))"
| "run E CommandFinalize r = Inr (CommandFinalize, CommandFinalize_run r)"
| "run E (Pick h pos res) r = bind_res (Pick_run E h pos res r) (\<lambda>(res', r'). Inr (Pick h pos res', r'))"

text \<open>The default of \<open>runOnMaster\<close> does nothing.\<close>

fun runOnMaster :: "env \<Rightarrow> work \<Rightarrow> work rank_op" where
  "runOnMaster E (SetLoadBalancer dyn n h) r =
     keeping (SetLoadBalancer dyn n h) (SetLoadBalancer_runOnMaster dyn n h r)"
| "runOnMaster E (NewObjectT k ty h) r =
     (if k = K_Renderer \<or> k = K_Volume then run E (NewObjectT k ty h) r else Inr (NewObjectT k ty h, r))"
| "runOnMaster E (CommitObject h) r = keeping (CommitObject h) (CommitObject_runOnMaster h r)"
| "runOnMaster E (ClearFrameBuffer h ch) r = run E (ClearFrameBuffer h ch) r"
| "runOnMaster E (RenderFrame fb rn ch v) r = run E (RenderFrame fb rn ch v) r"
| "runOnMaster E (CreateFrameBuffer h d fmt ch) r = run E (CreateFrameBuffer h d fmt ch) r"
| "runOnMaster E (SetParam h nm v) r = keeping (SetParam h nm v) (SetParam_runOnMaster h nm v r)"
| "runOnMaster E (RemoveParam h nm) r = keeping (RemoveParam h nm) (RemoveParam_runOnMaster h nm r)"
| "runOnMaster E (CommandRelease h) r = keeping (CommandRelease h) (CommandRelease_runOnMaster h r)"
| "runOnMaster E (LoadModule nm e) r = run E (LoadModule nm e) r"
| "runOnMaster E CommandFinalize r = Inr (CommandFinalize, CommandFinalize_runOnMaster r)"
| "runOnMaster E (Pick h pos res) r = (case Pick_runOnMaster E r of (res', r') \<Rightarrow> Inr (Pick h pos res', r'))"
| "runOnMaster E w r = Inr (w, r)"

end
