(* ===== verification/WorkEffects.thy ===== *)
theory WorkEffects
  imports WorkRun
begin

text \<open>
  Properties of running the work units: which handles a rank has after each of
  them, on the worker and on the master; what the removal of a geometry and of a
  volume does to a model.
\<close>

section \<open>Handles defined on a rank\<close>

definition defined_handles :: "rank \<Rightarrow> handle set" where
  "defined_handles r = fst ` set (objectByHandle (handles r))"

definition rank_ok :: "rank \<Rightarrow> bool" where
  "rank_ok r \<longleftrightarrow> table_inv (handles r)"

text \<open>The handle a unit defines where it runs, and the one it releases.\<close>

fun creates :: "work \<Rightarrow> handle option" where
  "creates (NewObjectT k ty h) = Some h"
| "creates (NewMaterial rn ty h) = Some h"
| "creates (NewMaterial2 rty mty h) = Some h"
| "creates (NewLight ty h) = Some h"
| "creates (NewData h n fmt bs fl) = Some h"
| "creates (CreateFrameBuffer h d fmt ch) = Some h"
| "creates w = None"

fun releases :: "work \<Rightarrow> handle option" where
  "releases (CommandRelease h) = Some h"
| "releases w = None"

definition handles_after :: "work \<Rightarrow> handle set \<Rightarrow> handle set" where
  "handles_after w H = (case creates w of
      Some h \<Rightarrow> insert h H
    | None \<Rightarrow> (case releases w of Some h \<Rightarrow> H - {h} | None \<Rightarrow> H))"

lemma defined_iff: "ObjectHandle_defined h (handles r) \<longleftrightarrow> h \<in> defined_handles r"
  by (simp add: ObjectHandle_defined_def defined_handles_def map_of_eq_None_iff)

lemma on_heap_handles: "on_heap f r = Inr r' \<Longrightarrow> handles r' = handles r"
  by (auto simp: on_heap_def bind_res_eq_Inr)

lemma asserted_Inr: "asserted E p k = Inr x \<longleftrightarrow> (\<exists>a. p = Some a \<and> k a = Inr x)"
  by (auto simp: asserted_def split: option.splits)

lemma log_event_handles [simp]: "handles (log_event e r) = handles r"
  by (simp add: log_event_def)

lemma assign_defined [simp]: "defined_handles (assign h p r) = insert h (defined_handles r)"
  by (simp add: defined_handles_def assign_def ObjectHandle_assign_def set_map_insert)

lemma assign_ok [simp]: "rank_ok r \<Longrightarrow> rank_ok (assign h p r)"
  by (simp add: rank_ok_def assign_def table_inv_assign)

lemma same_handles:
  "handles r' = handles r \<Longrightarrow> defined_handles r' = defined_handles r \<and> rank_ok r' = rank_ok r"
  by (simp add: defined_handles_def rank_ok_def)

lemma assigned_handles:
  "rank_ok r \<Longrightarrow> handles r' = ObjectHandle_assign h p (handles r) \<Longrightarrow>
   rank_ok r' \<and> defined_handles r' = insert h (defined_handles r)"
  using table_inv_assign by (simp add: rank_ok_def defined_handles_def ObjectHandle_assign_def set_map_insert)

lemma create_handles: "create E ty type h r = Inr r' \<Longrightarrow> \<exists>p. handles r' = ObjectHandle_assign h p (handles r)"
  by (auto simp: create_def assign_def split: prod.splits sum.splits)

lemma NewMaterial2_handles:
  "NewMaterial2_run E rty mty h r = Inr r' \<Longrightarrow> \<exists>p. handles r' = ObjectHandle_assign h p (handles r)"
  by (auto simp: NewMaterial2_run_def assign_def split: prod.splits)

lemma NewMaterial_handles:
  "NewMaterial_run E rn mty h r = Inr r' \<Longrightarrow> \<exists>p. handles r' = ObjectHandle_assign h p (handles r)"
proof -
  assume run: "NewMaterial_run E rn mty h r = Inr r'"
  then obtain ps v where "getParam TY_string ''externalNameFromAPI'' (A_string []) ps = Inr v"
    and "(case v of A_string rty \<Rightarrow> NewMaterial2_run E rty mty h r | _ \<Rightarrow> NewMaterial2_run E [] mty h r) = Inr r'"
    by (auto simp: NewMaterial_run_def with_obj_def bind_res_eq_Inr split: option.splits)
  then show ?thesis by (cases v) (auto simp: NewMaterial2_handles)
qed

lemma NewData_handles:
  "NewData_run E h n fmt bs r = Inr r' \<Longrightarrow> \<exists>p. handles r' = ObjectHandle_assign h p (handles r)"
  by (auto simp: NewData_run_def Let_def bind_res_eq_Inr assign_def split: if_splits)

lemma create_plain_handles: "\<exists>p. handles (create_plain ty h r) = ObjectHandle_assign h p (handles r)"
  by (auto simp: create_plain_def assign_def split: prod.splits)

lemma creating_run:
  "run E w r = Inr (w', r') \<Longrightarrow> creates w = Some h \<Longrightarrow>
   \<exists>p. handles r' = ObjectHandle_assign h p (handles r)"
  by (cases w)
     (auto simp: keeping_def bind_res_eq_Inr NewObjectT_run_def NewModel_run_def NewLight_run_def
       CreateFrameBuffer_run_def create_plain_handles NewMaterial2_handles NewMaterial_handles
       NewData_handles dest: create_handles split: if_splits)

lemma release_run:
  assumes "CommandRelease_run h r = Inr r'" and "rank_ok r"
  shows "rank_ok r' \<and> defined_handles r' = defined_handles r - {h} \<and> h \<in> defined_handles r"
proof -
  from assms(1) obtain a hp where
    a: "map_of (objectByHandle (handles r)) h = Some (Some a)" and
    r': "handles r' = (handles r)\<lparr>objectByHandle := erase_first (\<lambda>e. fst e = h) (objectByHandle (handles r))\<rparr>"
    by (auto simp: CommandRelease_run_def ObjectHandle_freeObject_def bind_res_eq_Inr
        split: option.splits)
  have "distinct (map fst (objectByHandle (handles r)))"
    using assms(2) by (simp add: rank_ok_def table_inv_def table_ok_def)
  then have "set (erase_first (\<lambda>x. x = h) (map fst (objectByHandle (handles r)))) = defined_handles r - {h}"
    by (simp add: set_erase_first_eq defined_handles_def)
  moreover have "h \<in> defined_handles r"
    using a by (metis defined_iff ObjectHandle_defined_def option.distinct(1))
  ultimately show ?thesis
    using table_inv_erase assms(2) by (simp add: rank_ok_def defined_handles_def r' flip: erase_first_map_fst)
qed

lemma plain_run:
  "run E w r = Inr (w', r') \<Longrightarrow> creates w = None \<Longrightarrow> releases w = None \<Longrightarrow> handles r' = handles r"
proof (cases w)
  case (SetParam h nm v)
  then show "run E w r = Inr (w', r') \<Longrightarrow> handles r' = handles r"
    by (auto simp: keeping_def bind_res_eq_Inr SetParam_run_def SetParam_object_run_def asserted_Inr
        dest!: on_heap_handles split: param_value.splits option.splits if_splits)
qed (auto simp: keeping_def bind_res_eq_Inr asserted_Inr Let_def SetLoadBalancer_run_def SetRegion_run_def
       CommitObject_run_def ClearFrameBuffer_run_def RenderFrame_run_def AddVolume_run_def
       AddGeometry_run_def RemoveGeometry_run_def RemoveVolume_run_def SetMaterial_run_def
       RemoveParam_run_def SetPixelOp_run_def LoadModule_run_def CommandFinalize_run_def
       CommandFinalize_runOnMaster_def Pick_run_def
     dest!: on_heap_handles split: option.splits if_splits)

lemma run_handles:
  assumes "run E w r = Inr (w', r')" and "rank_ok r"
  shows "rank_ok r' \<and> defined_handles r' = handles_after w (defined_handles r)"
proof (cases "creates w")
  case (Some h)
  with creating_run [OF assms(1) Some] assigned_handles [OF assms(2)] show ?thesis
    by (auto simp: handles_after_def)
next
  case None
  show ?thesis
  proof (cases "releases w")
    case (Some h)
    then have "w = CommandRelease h" by (cases w) auto
    with assms release_run [of h r] None Some show ?thesis
      by (auto simp: keeping_def bind_res_eq_Inr handles_after_def)
  next
    case none: None
    from plain_run [OF assms(1) None none] same_handles [of r' r] assms(2) None none show ?thesis
      by (simp add: handles_after_def)
  qed
qed

lemma master_plain:
  "runOnMaster E w r = Inr (w', r') \<Longrightarrow> creates w = None \<Longrightarrow> releases w = None \<Longrightarrow> handles r' = handles r"
proof (cases w)
  case (SetParam h nm v)
  then show "runOnMaster E w r = Inr (w', r') \<Longrightarrow> handles r' = handles r"
    by (auto simp: keeping_def bind_res_eq_Inr SetParam_runOnMaster_def
        dest!: on_heap_handles split: param_value.splits option.splits if_splits)
next
  case (RenderFrame fb rn ch v)
  then show "runOnMaster E w r = Inr (w', r') \<Longrightarrow> handles r' = handles r"
    using plain_run [of E w r w' r'] by simp
next
  case (ClearFrameBuffer h ch)
  then show "runOnMaster E w r = Inr (w', r') \<Longrightarrow> handles r' = handles r"
    using plain_run [of E w r w' r'] by simp
next
  case (LoadModule nm e)
  then show "runOnMaster E w r = Inr (w', r') \<Longrightarrow> handles r' = handles r"
    using plain_run [of E w r w' r'] by simp
qed (auto simp: keeping_def bind_res_eq_Inr SetLoadBalancer_runOnMaster_def
       CommitObject_runOnMaster_def RemoveParam_runOnMaster_def CommandFinalize_runOnMaster_def
       Pick_runOnMaster_def
     dest!: on_heap_handles split: option.splits if_splits)

lemma master_handles:
  assumes "runOnMaster E w r = Inr (w', r')" and "rank_ok r"
  shows "rank_ok r' \<and> defined_handles r' \<subseteq> handles_after w (defined_handles r)"
proof (cases "creates w")
  case (Some h)
  then have "runOnMaster E w r = run E w r \<or> runOnMaster E w r = Inr (w, r)"
    by (cases w) auto
  then show ?thesis
  proof
    assume "runOnMaster E w r = run E w r"
    with assms run_handles [of E w r w' r'] show ?thesis by simp
  next
    assume "runOnMaster E w r = Inr (w, r)"
    with assms Some show ?thesis by (auto simp: handles_after_def)
  qed
next
  case None
  show ?thesis
  proof (cases "releases w")
    case (Some h)
    then have w: "w = CommandRelease h" by (cases w) auto
    show ?thesis
    proof (cases "h \<in> defined_handles r")
      case True
      with w assms have "CommandRelease_run h r = Inr r'"
        by (auto simp: keeping_def bind_res_eq_Inr CommandRelease_runOnMaster_def defined_iff)
      from release_run [OF this assms(2)] None Some show ?thesis by (simp add: handles_after_def)
    next
      case False
      with w assms have "r' = r"
        by (auto simp: keeping_def bind_res_eq_Inr CommandRelease_runOnMaster_def defined_iff)
      with False assms(2) None Some show ?thesis by (auto simp: handles_after_def)
    qed
  next
    case none: None
    from master_plain [OF assms(1) None none] same_handles [of r' r] assms(2) None none show ?thesis
      by (simp add: handles_after_def)
  qed
qed

section \<open>Master and worker\<close>

text \<open>The sequence of units the API calls make, run on the master and on a worker.\<close>

primrec run_all :: "(work \<Rightarrow> work rank_op) \<Rightarrow> work list \<Rightarrow> rank \<Rightarrow> rank res" where
  "run_all f [] r = Inr r"
| "run_all f (w # ws) r = bind_res (f w r) (\<lambda>(w', r'). run_all f ws r')"

lemma handles_after_mono: "H \<subseteq> K \<Longrightarrow> handles_after w H \<subseteq> handles_after w K"
  by (auto simp: handles_after_def split: option.splits)

text \<open>C11 The master never knows a handle the workers do not know: whatever units run,
  the handles defined on the master are defined on each worker, and the worker
  has exactly the handles of the objects created and not released.\<close>

theorem master_handles_on_workers:
  assumes "run_all (runOnMaster EM) ws m = Inr m'" and "run_all (run EW) ws w = Inr w'"
    and "rank_ok m" and "rank_ok w" and "defined_handles m \<subseteq> defined_handles w"
  shows "defined_handles m' \<subseteq> defined_handles w' \<and>
         defined_handles w' = fold handles_after ws (defined_handles w)"
  using assms
proof (induction ws arbitrary: m w)
  case (Cons x ws)
  from Cons.prems(1) obtain x1 m1 where m: "runOnMaster EM x m = Inr (x1, m1)"
    "run_all (runOnMaster EM) ws m1 = Inr m'" by (auto simp: bind_res_eq_Inr)
  from Cons.prems(2) obtain x2 w1 where w: "run EW x w = Inr (x2, w1)"
    "run_all (run EW) ws w1 = Inr w'" by (auto simp: bind_res_eq_Inr)
  from master_handles [OF m(1) Cons.prems(3)] run_handles [OF w(1) Cons.prems(4)]
    handles_after_mono [OF Cons.prems(5), of x]
  have "rank_ok m1" "rank_ok w1" "defined_handles m1 \<subseteq> defined_handles w1"
    "defined_handles w1 = handles_after x (defined_handles w)" by auto
  with Cons.IH [OF m(2) w(2)] show ?case by (metis fold_simps(2))
qed simp

definition empty_rank :: rank where
  "empty_rank = \<lparr>robjects = [], rregistries = (\<lambda>_ _. None), handles = initial_handles,
     balancer = No_balancer, rlog = [], world_rank = 1\<rparr>"

definition plain_env :: env where
  "plain_env = \<lparr>lib = (\<lambda>_. True), ndebug = False, volume_accepts = (\<lambda>_ _ _ _. True),
     frame_variance = (\<lambda>_ _ _. 0), pick_answer = (\<lambda>_ _. []), received_pick = [],
     load_module = (\<lambda>_. Inr 0), makes_instance = True\<rparr>"

lemma rank_ok_empty: "rank_ok empty_rank"
  by (simp add: rank_ok_def empty_rank_def table_inv_initial)

theorem master_handles_on_workers_witness:
  "\<exists>m' w'. run_all (runOnMaster plain_env) [NewObjectT K_Model '''' 1, NewObjectT K_Volume ''v'' 2, CommandRelease 1]
       empty_rank = Inr m' \<and>
     run_all (run plain_env) [NewObjectT K_Model '''' 1, NewObjectT K_Volume ''v'' 2, CommandRelease 1]
       empty_rank = Inr w' \<and>
     defined_handles m' \<subseteq> defined_handles w' \<and> defined_handles w' = {2}"
proof -
  let ?ws = "[NewObjectT K_Model '''' 1, NewObjectT K_Volume ''v'' 2, CommandRelease 1]"
  note defs = keeping_def NewObjectT_run_def NewModel_run_def create_plain_def new_obj_def
    fresh_object_def assign_def ObjectHandle_assign_def empty_rank_def initial_handles_def
    plain_env_def create_def createInstance_def objectFactory_def Let_def
    CommandRelease_run_def CommandRelease_runOnMaster_def ObjectHandle_defined_def
    ObjectHandle_freeObject_def refDec_def get_obj_def owned_def opt_list_def
  have m: "\<exists>m'. run_all (runOnMaster plain_env) ?ws empty_rank = Inr m'"
    by (simp add: defs)
  have w: "\<exists>w'. run_all (run plain_env) ?ws empty_rank = Inr w'"
    by (simp add: defs)
  from m w obtain m' w' where mw: "run_all (runOnMaster plain_env) ?ws empty_rank = Inr m'"
    "run_all (run plain_env) ?ws empty_rank = Inr w'" by blast
  have "fold handles_after ?ws (defined_handles empty_rank) = {2}"
    by (auto simp: handles_after_def defined_handles_def empty_rank_def initial_handles_def)
  with master_handles_on_workers [OF mw rank_ok_empty rank_ok_empty subset_refl]
  have "defined_handles m' \<subseteq> defined_handles w' \<and> defined_handles w' = {2}" by metis
  with mw show ?thesis by blast
qed

section \<open>Removing from a model\<close>

lemma release_keeps:
  "release_refs as h = Inr h' \<Longrightarrow> get_obj a h' = Some ob' \<Longrightarrow>
   \<exists>ob. get_obj a h = Some ob \<and> ob' = ob\<lparr>refCounter := refCounter ob'\<rparr>"
proof (induction as h rule: release_refs.induct)
  case (2 b as h)
  from "2.prems"(1) obtain ob where ob: "get_obj b h = Some ob" by (auto split: option.splits)
  show ?case
  proof (cases "refCounter ob - 1 = 0")
    case True
    with "2.prems" ob have "release_refs (owned ob @ as) (h[b := None]) = Inr h'" by simp
    from "2.IH"(1) [OF ob True this "2.prems"(2)] get_obj_less [OF ob] show ?thesis
      by (auto split: if_splits)
  next
    case False
    with "2.prems" ob have "release_refs as (h[b := Some (ob\<lparr>refCounter := refCounter ob - 1\<rparr>)]) = Inr h'"
      by simp
    from "2.IH"(2) [OF ob False this "2.prems"(2)] get_obj_less [OF ob] ob show ?thesis
      by (auto split: if_splits)
  qed
qed simp

text \<open>Removing a geometry takes exactly one reference to it out of the model, and
  nothing else of the model changes but its count.\<close>

theorem remove_geometry_removes:
  assumes "balanced (robjects r) R" and "lookup m r = Some ma" and "lookup g r = Some ga"
    and "ma \<in># R" and "get_obj ma (robjects r) = Some ob"
  shows "\<exists>r' c. RemoveGeometry_run E m g r = Inr r' \<and> balanced (robjects r') R \<and>
     get_obj ma (robjects r') =
       Some (ob\<lparr>geometry := erase_first (\<lambda>x. x = ga) (geometry ob), refCounter := c\<rparr>)"
proof -
  let ?ob' = "ob\<lparr>geometry := erase_first (\<lambda>x. x = ga) (geometry ob)\<rparr>"
  have ma: "live (robjects r) ma" using assms(5) by (simp add: live_def)
  from erase_balanced(1) [OF assms(1) ma, of ga] obtain h' where
    h': "erase_geometry ma ga (robjects r) = Inr h'" "balanced h' R" by blast
  have "live h' ma" using balanced_live [OF h'(2)] assms(4) by simp
  then obtain ob2 where ob2: "get_obj ma h' = Some ob2" by (auto simp: live_def)
  have "\<exists>c. ob2 = ?ob'\<lparr>refCounter := c\<rparr>"
  proof (cases "ga \<in> set (geometry ob)")
    case True
    with h'(1) assms(5) have "release_refs [ga] ((robjects r)[ma := Some ?ob']) = Inr h'"
      by (simp add: erase_geometry_def with_obj_def modify_obj_def refDec_def)
    from release_keeps [OF this ob2] get_obj_less [OF assms(5)] show ?thesis by auto
  next
    case False
    then have "erase_first (\<lambda>x. x = ga) (geometry ob) = geometry ob"
      by (intro erase_first_none) auto
    with False h'(1) assms(5) ob2 show ?thesis
      by (auto simp: erase_geometry_def with_obj_def intro!: exI [of _ "refCounter ob"])
  qed
  with h' ob2 assms(2,3) show ?thesis
    by (auto simp: RemoveGeometry_run_def asserted_def on_heap_def)
qed

definition model_rank :: "mobj \<Rightarrow> osp_type \<Rightarrow> rank" where
  "model_rank model ty =
     empty_rank\<lparr>robjects := [Some model, Some ((fresh_object ty)\<lparr>refCounter := 2\<rparr>)],
       handles := initial_handles\<lparr>objectByHandle := [(1, Some 0), (2, Some 1)]\<rparr>\<rparr>"

lemma model_rank_balanced:
  assumes "owned model = [1]" and "refCounter model = 1"
  shows "balanced (robjects (model_rank model ty)) {#0, 1#}"
proof -
  have "refs (robjects (model_rank model ty)) = {#1#}"
    using assms by (simp add: model_rank_def refs_def own_opt_def owned_def fresh_object_def
        param_objects_def opt_list_def)
  then show ?thesis using assms(2)
    by (auto simp: balanced_def live_def get_obj_def model_rank_def fresh_object_def less_Suc_eq
        nth_Cons split: nat.splits if_splits)
qed

theorem remove_geometry_removes_witness:
  "\<exists>r' c. RemoveGeometry_run plain_env 1 2
       (model_rank ((fresh_object OSP_MODEL)\<lparr>geometry := [1]\<rparr>) OSP_GEOMETRY) = Inr r' \<and>
     balanced (robjects r') {#0, 1#} \<and>
     get_obj 0 (robjects r') = Some ((fresh_object OSP_MODEL)\<lparr>geometry := [], refCounter := c\<rparr>)"
proof -
  let ?m = "(fresh_object OSP_MODEL)\<lparr>geometry := [1]\<rparr>"
  let ?r = "model_rank ?m OSP_GEOMETRY"
  have "balanced (robjects ?r) {#0, 1#}"
    by (rule model_rank_balanced) (simp_all add: owned_def fresh_object_def opt_list_def)
  moreover have "lookup 1 ?r = Some 0" "lookup 2 ?r = Some 1"
    by (simp_all add: lookup_def ObjectHandle_lookup_def model_rank_def NULL_HANDLE_def)
  moreover have "get_obj 0 (robjects ?r) = Some ?m" by (simp add: get_obj_def model_rank_def)
  ultimately show ?thesis using remove_geometry_removes [of ?r "{#0, 1#}" 1 0 2 1 ?m plain_env] by auto
qed

text \<open>Removing a volume on a worker removes nothing: the volume is appended first,
  so afterwards the model refers to as many volumes as before, the removed one
  included.  (The local device's \<open>removeVolume\<close> does remove it.)\<close>

theorem remove_volume_keeps_volume:
  assumes "balanced (robjects r) R" and "lookup m r = Some ma" and "lookup v r = Some va"
    and "ma \<in># R" and "va \<in># R" and "get_obj ma (robjects r) = Some ob"
  shows "\<exists>r' ob'. RemoveVolume_run E m v r = Inr r' \<and> get_obj ma (robjects r') = Some ob' \<and>
     mset (volume ob') = mset (volume ob)"
proof -
  have ma: "live (robjects r) ma" and va: "live (robjects r) va"
    using balanced_live [OF assms(1)] assms(4,5) by simp_all
  from push_balanced(2) [OF assms(1) ma va] obtain h1 where
    h1: "push_volume ma va (robjects r) = Inr h1" "balanced h1 R" by blast
  then obtain ob1 where ob1: "get_obj ma h1 = Some ob1" "volume ob1 = volume ob @ [va]"
    using assms(6) get_obj_less [OF assms(6)]
    by (auto simp: push_volume_def refInc_def modify_obj_def with_obj_def bind_res_eq_Inr
        split: option.splits if_splits)
  have "live h1 ma" using ob1 by (simp add: live_def)
  from erase_balanced(2) [OF h1(2) this, of va] obtain h2 where
    h2: "erase_volume ma va h1 = Inr h2" "balanced h2 R" by blast
  have "live h2 ma" using balanced_live [OF h2(2)] assms(4) by simp
  then obtain ob2 where ob2: "get_obj ma h2 = Some ob2" by (auto simp: live_def)
  let ?ob' = "ob1\<lparr>volume := erase_first (\<lambda>x. x = va) (volume ob1)\<rparr>"
  have in1: "va \<in> set (volume ob1)" using ob1 by simp
  with h2(1) ob1(1) have "release_refs [va] (h1[ma := Some ?ob']) = Inr h2"
    by (simp add: erase_volume_def with_obj_def modify_obj_def refDec_def)
  from release_keeps [OF this ob2] get_obj_less [OF ob1(1)]
  obtain c where "ob2 = ?ob'\<lparr>refCounter := c\<rparr>" by auto
  then have vol: "volume ob2 = erase_first (\<lambda>x. x = va) (volume ob1)" by simp
  have "add_mset va (mset (volume ob2)) = add_mset va (mset (volume ob))"
    using mset_erase_first [OF in1] ob1(2) vol by simp
  with h1 h2 ob2 assms(2,3) show ?thesis
    by (auto simp: RemoveVolume_run_def asserted_def on_heap_def)
qed

theorem remove_volume_keeps_volume_witness:
  "\<exists>r' ob'. RemoveVolume_run plain_env 1 2
       (model_rank ((fresh_object OSP_MODEL)\<lparr>volume := [1]\<rparr>) OSP_VOLUME) = Inr r' \<and>
     get_obj 0 (robjects r') = Some ob' \<and> volume ob' = [1]"
proof -
  let ?m = "(fresh_object OSP_MODEL)\<lparr>volume := [1]\<rparr>"
  let ?r = "model_rank ?m OSP_VOLUME"
  have "balanced (robjects ?r) {#0, 1#}"
    by (rule model_rank_balanced) (simp_all add: owned_def fresh_object_def opt_list_def)
  moreover have "lookup 1 ?r = Some 0" "lookup 2 ?r = Some 1"
    by (simp_all add: lookup_def ObjectHandle_lookup_def model_rank_def NULL_HANDLE_def)
  moreover have "get_obj 0 (robjects ?r) = Some ?m" by (simp add: get_obj_def model_rank_def)
  ultimately show ?thesis
    using remove_volume_keeps_volume [of ?r "{#0, 1#}" 1 0 2 1 ?m plain_env] by auto
qed

end
