(* ===== verification/Fabrics.thy ===== *)
theory Fabrics
  imports Streams "HOL-Library.Stream"
begin

text \<open>
  The two fabrics the buffered streams run on, and the proof that each keeps the
  interface \<open>fabric\<close>: \<open>SocketFabric\<close> with the buffered socket below it
  (\<open>ospcommon/networking/Socket.cpp\<close>), and \<open>MPIBcastFabric\<close>.

  The operating system's \<open>::send\<close> and \<open>::recv\<close> are an environment: each call
  consumes the next event of a schedule, which says how many bytes the call
  moves at most, or that it fails.  The theorems on the round trip assume a
  schedule whose calls succeed and move at least one byte; every other schedule
  is a behaviour of the model too.
\<close>

section \<open>The buffered socket\<close>

datatype os_event = Xfer nat | Os_error

text \<open>\<open>obuf\<close> holds \<open>obuf[0 .. oend)\<close>; \<open>ibuf\<close> holds \<open>ibuf[0 .. iend)\<close>.\<close>

record buffered_socket_t =
  ibuf :: "byte list"
  isize :: nat
  istart :: nat
  obuf :: "byte list"
  osize :: nat

definition buffered_socket :: "nat \<Rightarrow> nat \<Rightarrow> buffered_socket_t" where
  "buffered_socket isz osz = \<lparr>ibuf = [], isize = isz, istart = 0, obuf = [], osize = osz\<rparr>"

text \<open>One connection: the sender's socket, the receiver's, the bytes the
  operating system holds in between, and the schedules of the two hosts.\<close>

record link =
  tx :: buffered_socket_t
  rx :: buffered_socket_t
  wire :: "byte list"
  tx_env :: "os_event stream"
  rx_env :: "os_event stream"

partial_function (option) socket_flush_loop ::
  "byte list \<Rightarrow> link \<Rightarrow> link outcome" where
  "socket_flush_loop data l =
     (if data = [] then ret l
      else (case shd (tx_env l) of
              Os_error \<Rightarrow> raise (Runtime_error ''error writing to socket'')
            | Xfer k \<Rightarrow>
                let n = min k (length data)
                in socket_flush_loop (drop n data)
                     (l\<lparr>wire := wire l @ take n data, tx_env := stl (tx_env l)\<rparr>)))"

definition socket_flush :: "link \<Rightarrow> link outcome" where
  "socket_flush l =
     bind_out (socket_flush_loop (obuf (tx l)) l) (\<lambda>l'. ret (l'\<lparr>tx := (tx l')\<lparr>obuf := []\<rparr>\<rparr>))"

partial_function (option) socket_write :: "byte list \<Rightarrow> link \<Rightarrow> link outcome" where
  "socket_write data l =
     (if data = [] then ret l
      else (case (if length (obuf (tx l)) = osize (tx l) then socket_flush l else ret l) of
              None \<Rightarrow> None
            | Some (Inl e) \<Rightarrow> Some (Inl e)
            | Some (Inr l1) \<Rightarrow>
                let bsize = min (length data) (osize (tx l1) - length (obuf (tx l1)))
                in socket_write (drop bsize data)
                     (l1\<lparr>tx := (tx l1)\<lparr>obuf := obuf (tx l1) @ take bsize data\<rparr>\<rparr>)))"

text \<open>\<open>::recv\<close> on an empty connection blocks; it returns 0 when the peer has
  closed it, which is the event \<open>Xfer 0\<close>.\<close>

definition os_recv :: "nat \<Rightarrow> link \<Rightarrow> (byte list \<times> link) outcome" where
  "os_recv n l = (case shd (rx_env l) of
      Os_error \<Rightarrow> raise (Runtime_error ''error reading from socket'')
    | Xfer k \<Rightarrow>
        if k = 0 then raise Disconnect
        else if wire l = [] then None
        else let m = min k n
             in ret (take m (wire l), l\<lparr>wire := drop m (wire l), rx_env := stl (rx_env l)\<rparr>))"

definition socket_read_some :: "nat \<Rightarrow> link \<Rightarrow> (byte list \<times> link) outcome" where
  "socket_read_some bytes l =
     bind_out
       (if istart (rx l) = length (ibuf (rx l))
        then bind_out (os_recv (isize (rx l)) l)
               (\<lambda>(d, l'). ret (l'\<lparr>rx := (rx l')\<lparr>istart := 0, ibuf := d\<rparr>\<rparr>))
        else ret l)
       (\<lambda>l1. let s = rx l1;
                 bsize = min (length (ibuf s) - istart s) bytes
             in ret (take bsize (drop (istart s) (ibuf s)),
                     l1\<lparr>rx := s\<lparr>istart := istart s + bsize\<rparr>\<rparr>))"

text \<open>\<open>read(socket, data, bytes)\<close>: the whole request, by as many partial reads as needed.\<close>

partial_function (option) socket_read_loop ::
  "nat \<Rightarrow> byte list \<Rightarrow> link \<Rightarrow> (byte list \<times> link) outcome" where
  "socket_read_loop bytes acc l =
     (if bytes = 0 then ret (acc, l)
      else (case socket_read_some bytes l of
              None \<Rightarrow> None
            | Some (Inl e) \<Rightarrow> Some (Inl e)
            | Some (Inr (d, l')) \<Rightarrow> socket_read_loop (bytes - length d) (acc @ d) l'))"

definition socket_read :: "link \<Rightarrow> nat \<Rightarrow> (byte list \<times> link) outcome" where
  "socket_read l n = socket_read_loop n [] l"

section \<open>SocketFabric\<close>

definition socket_fabric_bufsize :: nat where
  "socket_fabric_bufsize = 64 * 1024"

definition socket_fabric_send :: "byte list \<Rightarrow> link \<Rightarrow> link outcome" where
  "socket_fabric_send mem l = bind_out (socket_write mem l) socket_flush"

definition socket_fabric_read :: "link \<Rightarrow> (byte list \<times> link) outcome" where
  "socket_fabric_read l = socket_read_some socket_fabric_bufsize l"

definition socket_connection :: "os_event stream \<Rightarrow> os_event stream \<Rightarrow> link" where
  "socket_connection te re =
     \<lparr>tx = buffered_socket (64 * 1024) (64 * 1024), rx = buffered_socket (64 * 1024) (64 * 1024),
      wire = [], tx_env = te, rx_env = re\<rparr>"

definition socket_pending :: "link \<Rightarrow> byte list" where
  "socket_pending l = drop (istart (rx l)) (ibuf (rx l)) @ wire l @ obuf (tx l)"

definition env_ok :: "os_event stream \<Rightarrow> bool" where
  "env_ok s \<longleftrightarrow> (\<forall>e\<in>sset s. \<exists>k. e = Xfer (Suc k))"

text \<open>Between calls the sender's buffer is empty (a fabric send flushes).\<close>

definition socket_inv :: "link \<Rightarrow> bool" where
  "socket_inv l \<longleftrightarrow>
     length (obuf (tx l)) \<le> osize (tx l) \<and> 0 < osize (tx l) \<and> 0 < isize (rx l) \<and>
     istart (rx l) \<le> length (ibuf (rx l)) \<and> env_ok (tx_env l) \<and> env_ok (rx_env l)"

definition socket_ready :: "link \<Rightarrow> bool" where
  "socket_ready l \<longleftrightarrow> socket_inv l \<and> obuf (tx l) = []"

lemma env_ok_step:
  assumes "env_ok s"
  obtains k where "shd s = Xfer (Suc k)" "env_ok (stl s)"
proof -
  from assms have "env_ok (stl s)" "\<exists>k. shd s = Xfer (Suc k)"
    by (auto simp: env_ok_def stl_sset shd_sset)
  then show ?thesis using that by blast
qed

lemma flush_loop_Nil [simp]: "socket_flush_loop [] l = ret l"
  by (simp add: socket_flush_loop.simps)

lemma flush_loop_step:
  "data \<noteq> [] \<Longrightarrow> shd (tx_env l) = Xfer k \<Longrightarrow> n = min k (length data) \<Longrightarrow>
   socket_flush_loop data l =
     socket_flush_loop (drop n data) (l\<lparr>wire := wire l @ take n data, tx_env := stl (tx_env l)\<rparr>)"
  by (subst socket_flush_loop.simps) (simp add: Let_def)

lemma flush_loop_ok:
  assumes "env_ok (tx_env l)"
  shows "\<exists>e. socket_flush_loop data l = ret (l\<lparr>wire := wire l @ data, tx_env := e\<rparr>) \<and> env_ok e"
  using assms
proof (induction data arbitrary: l rule: length_induct)
  case (1 data)
  show ?case
  proof (cases "data = []")
    case True
    with 1 show ?thesis by (intro exI [of _ "tx_env l"]) simp
  next
    case False
    obtain k where k: "shd (tx_env l) = Xfer (Suc k)" "env_ok (stl (tx_env l))"
      using "1.prems" by (rule env_ok_step)
    define n where "n = min (Suc k) (length data)"
    define l1 where "l1 = l\<lparr>wire := wire l @ take n data, tx_env := stl (tx_env l)\<rparr>"
    have short: "length (drop n data) < length data" using False by (simp add: n_def)
    have "env_ok (tx_env l1)" using k by (simp add: l1_def)
    from "1.IH" [rule_format, OF short this] obtain e where
      "socket_flush_loop (drop n data) l1 = ret (l1\<lparr>wire := wire l1 @ drop n data, tx_env := e\<rparr>)"
      "env_ok e" by blast
    then show ?thesis using flush_loop_step [OF False k(1) n_def]
      by (intro exI [of _ e]) (simp add: l1_def)
  qed
qed

lemma socket_flush_ok:
  assumes "socket_inv l"
  shows "\<exists>l'. socket_flush l = ret l' \<and> socket_inv l' \<and> obuf (tx l') = [] \<and> rx l' = rx l \<and>
     wire l' = wire l @ obuf (tx l) \<and> osize (tx l') = osize (tx l)"
  using flush_loop_ok [of l "obuf (tx l)"] assms
  by (auto simp: socket_flush_def socket_inv_def)

lemma socket_write_Nil [simp]: "socket_write [] l = ret l"
  by (simp add: socket_write.simps)

lemma socket_write_step:
  "data \<noteq> [] \<Longrightarrow>
   (if length (obuf (tx l)) = osize (tx l) then socket_flush l else ret l) = ret l1 \<Longrightarrow>
   bsize = min (length data) (osize (tx l1) - length (obuf (tx l1))) \<Longrightarrow>
   socket_write data l = socket_write (drop bsize data)
     (l1\<lparr>tx := (tx l1)\<lparr>obuf := obuf (tx l1) @ take bsize data\<rparr>\<rparr>)"
  by (subst socket_write.simps) (simp add: ret_def Let_def)

lemma socket_write_ok:
  assumes "socket_inv l"
  shows "\<exists>l'. socket_write data l = ret l' \<and> socket_inv l' \<and>
     socket_pending l' = socket_pending l @ data"
  using assms
proof (induction data arbitrary: l rule: length_induct)
  case (1 data)
  show ?case
  proof (cases "data = []")
    case True
    with 1 show ?thesis by simp
  next
    case False
    obtain l1 where
      l1: "(if length (obuf (tx l)) = osize (tx l) then socket_flush l else ret l) = ret l1"
        "socket_inv l1" "length (obuf (tx l1)) < osize (tx l1)" "socket_pending l1 = socket_pending l"
      using socket_flush_ok [OF "1.prems"] "1.prems"
      by (cases "length (obuf (tx l)) = osize (tx l)") (auto simp: socket_pending_def socket_inv_def)
    define n where "n = min (length data) (osize (tx l1) - length (obuf (tx l1)))"
    define l2 where "l2 = l1\<lparr>tx := (tx l1)\<lparr>obuf := obuf (tx l1) @ take n data\<rparr>\<rparr>"
    have short: "length (drop n data) < length data" using False l1 by (simp add: n_def)
    have "socket_inv l2" using l1 by (auto simp: l2_def socket_inv_def n_def)
    from "1.IH" [rule_format, OF short this] show ?thesis
      using socket_write_step [OF False l1(1) n_def] l1(4)
      by (auto simp: l2_def socket_pending_def)
  qed
qed

lemma os_recv_ok:
  assumes "env_ok (rx_env l)" and "wire l \<noteq> []" and "0 < n"
  shows "\<exists>m e. os_recv n l = ret (take m (wire l), l\<lparr>wire := drop m (wire l), rx_env := e\<rparr>) \<and>
     env_ok e \<and> 0 < m"
proof -
  from assms(1) obtain k where "shd (rx_env l) = Xfer (Suc k)" "env_ok (stl (rx_env l))"
    by (rule env_ok_step)
  with assms show ?thesis
    by (intro exI [of _ "min (Suc k) n"] exI [of _ "stl (rx_env l)"]) (simp add: os_recv_def Let_def)
qed

lemma socket_read_some_ok:
  assumes "socket_ready l" and "socket_pending l \<noteq> []" and "0 < n"
  shows "\<exists>b l'. socket_read_some n l = ret (b, l') \<and> socket_ready l' \<and>
     socket_pending l = b @ socket_pending l' \<and> b \<noteq> [] \<and> length b \<le> n"
proof (cases "istart (rx l) = length (ibuf (rx l))")
  case True
  with assms have w: "wire l \<noteq> []" "env_ok (rx_env l)" "0 < isize (rx l)"
    by (auto simp: socket_pending_def socket_ready_def socket_inv_def)
  from os_recv_ok [OF w(2,1,3)] obtain m e where
    "os_recv (isize (rx l)) l = ret (take m (wire l), l\<lparr>wire := drop m (wire l), rx_env := e\<rparr>)"
    "env_ok e" "0 < m" by blast
  with True w assms show ?thesis
    by (auto simp: socket_read_some_def Let_def socket_ready_def socket_inv_def socket_pending_def
        min_def take_drop_mid)
next
  case False
  have "take (min a n) xs @ drop (a0 + min a n) ys = xs" if "xs = drop a0 ys" for a a0 and xs ys :: "byte list"
    using that by (metis append_take_drop_id drop_drop add.commute)
  with False assms show ?thesis
    by (auto simp: socket_read_some_def Let_def socket_ready_def socket_inv_def socket_pending_def)
qed

lemma socket_read_loop_done [simp]: "socket_read_loop 0 acc l = ret (acc, l)"
  by (simp add: socket_read_loop.simps)

lemma socket_read_loop_step:
  "0 < n \<Longrightarrow> socket_read_some n l = ret (d, l') \<Longrightarrow>
   socket_read_loop n acc l = socket_read_loop (n - length d) (acc @ d) l'"
  by (subst socket_read_loop.simps) (simp add: ret_def)

lemma socket_read_loop_ok:
  assumes "socket_ready l" and "n \<le> length (socket_pending l)"
  shows "\<exists>l'. socket_read_loop n acc l = ret (acc @ take n (socket_pending l), l') \<and>
     socket_ready l' \<and> socket_pending l' = drop n (socket_pending l)"
  using assms
proof (induction n arbitrary: acc l rule: less_induct)
  case (less n)
  show ?case
  proof (cases "n = 0")
    case True
    with less show ?thesis by simp
  next
    case False
    with less have "socket_pending l \<noteq> []" "0 < n" by auto
    from socket_read_some_ok [OF less.prems(1) this] obtain b l' where
      b: "socket_read_some n l = ret (b, l')" "socket_ready l'"
         "socket_pending l = b @ socket_pending l'" "b \<noteq> []" "length b \<le> n" by blast
    with False have "n - length b < n" "n - length b \<le> length (socket_pending l')"
      using less.prems by auto
    from less.IH [OF this(1) b(2) this(2), of "acc @ b"] b False show ?thesis
      by (simp add: socket_read_loop_step)
  qed
qed

interpretation sock: fabric socket_fabric_send socket_fabric_read socket_pending "\<lambda>_. 0"
  "\<lambda>_. True" socket_ready
proof
  fix f bs
  assume "socket_ready f"
  then obtain l1 where "socket_write bs f = ret l1" "socket_inv l1"
    "socket_pending l1 = socket_pending f @ bs"
    using socket_write_ok [of f bs] by (auto simp: socket_ready_def)
  with socket_flush_ok [of l1]
  show "\<exists>f'. socket_fabric_send bs f = ret f' \<and> socket_ready f' \<and>
      socket_pending f' = socket_pending f @ bs"
    by (auto simp: socket_fabric_send_def socket_ready_def socket_pending_def)
next
  fix f
  assume "socket_ready f" "socket_pending f \<noteq> []"
  then show "\<exists>b f'. socket_fabric_read f = ret (b, f') \<and> socket_ready f' \<and>
      socket_pending f = b @ socket_pending f' \<and> (b = [] \<longrightarrow> (0::nat) < 0)"
    using socket_read_some_ok [of f socket_fabric_bufsize]
    by (auto simp: socket_fabric_read_def socket_fabric_bufsize_def)
qed

text \<open>The unbuffered \<open>read\<close> of the socket layer is a read stream of its own.\<close>

interpretation sock_raw: read_stream socket_read socket_pending socket_ready
  by unfold_locales (simp add: socket_read_def socket_read_loop_ok [of _ _ "[]", simplified])

section \<open>MPIBcastFabric\<close>

text \<open>A broadcast from the one sender is a message every receiver gets in order; a
  fabric send is two of them, the size and the payload.  The receiver blocks
  until the sender enters the matching call.  Receiving into a buffer of another
  size than the message is undefined in MPI.\<close>

datatype bcast = Bcast_size u32 | Bcast_data "byte list"

definition mpi_count_ok :: "u32 \<Rightarrow> bool" where
  "mpi_count_ok sz \<longleftrightarrow> unat sz < 2 ^ 31"

definition mpi_send :: "bool \<Rightarrow> byte list \<Rightarrow> bcast list \<Rightarrow> bcast list outcome" where
  "mpi_send ndebug mem q =
     (if \<not> ndebug \<and> \<not> length mem < 2 ^ 30 then raise Assertion_failed
      else let sz32 = word_of_nat (length mem) :: u32
           in if mpi_count_ok sz32
              then ret (q @ [Bcast_size sz32, Bcast_data (take (unat sz32) mem)])
              else raise (Runtime_error ''MPI call returned error''))"

fun mpi_read :: "bcast list \<Rightarrow> (byte list \<times> bcast list) outcome" where
  "mpi_read [] = None"
| "mpi_read (Bcast_data d # q) = raise Undefined_behaviour"
| "mpi_read [Bcast_size sz] = None"
| "mpi_read (Bcast_size sz # Bcast_size sz' # q) = raise Undefined_behaviour"
| "mpi_read (Bcast_size sz # Bcast_data d # q) =
     (if length d = unat sz then ret (d, q) else raise Undefined_behaviour)"

fun mpi_pending :: "bcast list \<Rightarrow> byte list" where
  "mpi_pending [] = []"
| "mpi_pending (Bcast_size sz # q) = mpi_pending q"
| "mpi_pending (Bcast_data d # q) = d @ mpi_pending q"

fun mpi_inv :: "bcast list \<Rightarrow> bool" where
  "mpi_inv [] \<longleftrightarrow> True"
| "mpi_inv (Bcast_size sz # Bcast_data d # q) \<longleftrightarrow> length d = unat sz \<and> mpi_inv q"
| "mpi_inv q \<longleftrightarrow> False"

definition mpi_sendable :: "nat \<Rightarrow> bool" where
  "mpi_sendable n \<longleftrightarrow> n < 2 ^ 30"

lemma mpi_pending_append [simp]: "mpi_pending (p @ q) = mpi_pending p @ mpi_pending q"
  by (induction p rule: mpi_pending.induct) auto

lemma mpi_inv_append: "mpi_inv p \<Longrightarrow> mpi_inv q \<Longrightarrow> mpi_inv (p @ q)"
  by (induction p rule: mpi_inv.induct) auto

lemma mpi_send_small:
  assumes "length mem < 2 ^ 30"
  shows "mpi_send nd mem q = ret (q @ [Bcast_size (word_of_nat (length mem)), Bcast_data mem])"
    and "unat (word_of_nat (length mem) :: u32) = length mem"
proof -
  show len: "unat (word_of_nat (length mem) :: u32) = length mem"
    using assms by (simp add: unat_of_nat)
  show "mpi_send nd mem q = ret (q @ [Bcast_size (word_of_nat (length mem)), Bcast_data mem])"
    using assms by (simp add: mpi_send_def Let_def len mpi_count_ok_def)
qed

interpretation mpi: fabric "mpi_send nd" mpi_read mpi_pending length mpi_sendable mpi_inv for nd
proof
  fix q and bs :: "byte list"
  assume "mpi_inv q" "mpi_sendable (length bs)"
  with mpi_send_small [of bs]
  show "\<exists>q'. mpi_send nd bs q = ret q' \<and> mpi_inv q' \<and> mpi_pending q' = mpi_pending q @ bs"
    by (auto simp: mpi_sendable_def intro!: mpi_inv_append)
next
  fix q
  assume "mpi_inv q" "mpi_pending q \<noteq> []"
  then show "\<exists>b q'. mpi_read q = ret (b, q') \<and> mpi_inv q' \<and> mpi_pending q = b @ mpi_pending q' \<and>
      (b = [] \<longrightarrow> length q' < length q)"
    by (cases q rule: mpi_inv.cases) auto
qed

end
