(* ===== verification/WorkChannel.thy ===== *)
theory WorkChannel
  imports Works Fabrics
begin

text \<open>
  How a work unit gets from the master to a worker: the type tags of
  \<open>translatedHash\<close> (\<open>ospray/common/OSPCommon.cpp\<close>), the registry, the sending half
  of \<open>MPIOffloadDevice::processWork\<close> and the receiving half of the worker's loop.
  The transport lemmas are proved once for every fabric.
\<close>

section \<open>Type tags\<close>

record hash_table =
  id_translation :: "u64 \<Rightarrow> u64 option"
  newIndex :: u64

definition empty_table :: hash_table where
  "empty_table = \<lparr>id_translation = (\<lambda>_. None), newIndex = 0\<rparr>"

definition translatedHash :: "u64 \<Rightarrow> hash_table \<Rightarrow> u64 \<times> hash_table" where
  "translatedHash v t = (case id_translation t v of
      None \<Rightarrow> (newIndex t,
               t\<lparr>id_translation := (id_translation t)(v \<mapsto> newIndex t), newIndex := newIndex t + 1\<rparr>)
    | Some i \<Rightarrow> (i, t))"

section \<open>The registry\<close>

type_synonym registry = "u64 \<Rightarrow> work_type option"

definition registerWorkUnit ::
  "(work_type \<Rightarrow> u64) \<Rightarrow> work_type \<Rightarrow> registry \<times> hash_table \<Rightarrow> registry \<times> hash_table" where
  "registerWorkUnit hash ty = (\<lambda>(reg, tab).
     let (tag, tab') = translatedHash (hash ty) tab in (reg(tag \<mapsto> ty), tab'))"

definition registered_types :: "work_type list" where
  "registered_types =
    [W_SetLoadBalancer,
     W_NewObjectT K_Renderer, W_NewObjectT K_Model, W_NewObjectT K_Geometry, W_NewObjectT K_Camera,
     W_NewObjectT K_Volume, W_NewObjectT K_TransferFunction, W_NewObjectT K_PixelOp,
     W_NewMaterial, W_NewMaterial2, W_NewLight,
     W_NewData, W_NewObjectT K_Texture,
     W_CommitObject, W_CommandRelease,
     W_LoadModule,
     W_AddGeometry, W_AddVolume, W_RemoveGeometry, W_RemoveVolume,
     W_CreateFrameBuffer, W_ClearFrameBuffer, W_RenderFrame,
     W_SetRegion, W_SetPixelOp,
     W_SetMaterial, W_SetParam T_object, W_SetParam T_string, W_SetParam T_int, W_SetParam T_bool,
     W_SetParam T_float, W_SetParam T_vec2f, W_SetParam T_vec2i, W_SetParam T_vec3f,
     W_SetParam T_vec3i, W_SetParam T_vec4f,
     W_RemoveParam,
     W_CommandFinalize, W_Pick]"

definition registerOSPWorkItems ::
  "(work_type \<Rightarrow> u64) \<Rightarrow> registry \<times> hash_table \<Rightarrow> registry \<times> hash_table" where
  "registerOSPWorkItems hash = fold (registerWorkUnit hash) registered_types"

section \<open>Sending and receiving\<close>

text \<open>\<open>processWork\<close> up to the call of \<open>runOnMaster\<close>.\<close>

definition send_work ::
  "'f sender \<Rightarrow> (work_type \<Rightarrow> u64) \<Rightarrow> work \<Rightarrow> bool \<Rightarrow> hash_table \<times> wstream \<times> 'f \<Rightarrow>
   (hash_table \<times> wstream \<times> 'f) outcome" where
  "send_work fsend hash w flushWriteStream = (\<lambda>(tab, ws, f).
     let (tag, tab') = translatedHash (hash (type_of w)) tab in
     bind_out (bws_writes fsend (word8 tag # serialize w) ws f) (\<lambda>(ws', f').
     bind_out (if flushWriteStream then bws_flush fsend ws' f' else ret (ws', f')) (\<lambda>(ws'', f'').
     ret (tab', ws'', f''))))"

primrec send_works ::
  "'f sender \<Rightarrow> (work_type \<Rightarrow> u64) \<Rightarrow> (work \<times> bool) list \<Rightarrow> hash_table \<times> wstream \<times> 'f \<Rightarrow>
   (hash_table \<times> wstream \<times> 'f) outcome" where
  "send_works fsend hash [] st = ret st"
| "send_works fsend hash (w # ws) st =
     bind_out (send_work fsend hash (fst w) (snd w) st) (send_works fsend hash ws)"

definition readWork :: "registry \<Rightarrow> 's reader \<Rightarrow> ('s, work) decoder" where
  "readWork reg rd = then_dec (rd_u64 rd) (\<lambda>tag.
     (case reg tag of
        None \<Rightarrow> (\<lambda>s. raise (Runtime_error ''Invalid work type received''))
      | Some ty \<Rightarrow> deserialize ty rd))"

text \<open>The first \<open>n\<close> rounds of the worker's loop.\<close>

definition read_works :: "registry \<Rightarrow> nat \<Rightarrow> 's reader \<Rightarrow> ('s, work list) decoder" where
  "read_works reg n rd = rd_times n (readWork reg rd)"

section \<open>Tags depend on the order of registration only\<close>

text \<open>\<open>tags_ok hash xs st\<close>: \<open>st\<close> is the state after registering exactly \<open>xs\<close>.\<close>

definition tags_ok :: "(work_type \<Rightarrow> u64) \<Rightarrow> work_type list \<Rightarrow> registry \<times> hash_table \<Rightarrow> bool" where
  "tags_ok hash xs = (\<lambda>(reg, tab).
     newIndex tab = word_of_nat (length xs) \<and>
     (\<forall>i<length xs. id_translation tab (hash (xs ! i)) = Some (word_of_nat i) \<and>
                    reg (word_of_nat i) = Some (xs ! i)) \<and>
     (\<forall>v. v \<notin> hash ` set xs \<longrightarrow> id_translation tab v = None))"

lemma registered_types_complete: "type_of w \<in> set registered_types"
proof (cases w)
  case (NewObjectT k ty h)
  then show ?thesis by (cases k) (simp_all add: registered_types_def)
next
  case (SetParam h nm v)
  then show ?thesis by (cases v) (simp_all add: registered_types_def)
qed (simp_all add: registered_types_def)

lemma distinct_registered_types: "distinct registered_types"
  by (simp add: registered_types_def)

lemma length_registered_types: "length registered_types = 39"
  by (simp add: registered_types_def)

lemma tags_ok_register:
  assumes "tags_ok hash xs (reg, tab)" and "hash x \<notin> hash ` set xs" and "length xs < 2 ^ 64"
  shows "tags_ok hash (xs @ [x]) (registerWorkUnit hash x (reg, tab))"
proof -
  have neq: "(word_of_nat i :: u64) \<noteq> word_of_nat (length xs)" if "i < length xs" for i
    using that assms(3) by (metis nat_neq_iff order_less_trans unat_size)
  have "id_translation tab (hash x) = None" using assms by (simp add: tags_ok_def)
  moreover have "hash (xs ! i) \<noteq> hash x" if "i < length xs" for i
    using assms(2) that by (metis image_eqI nth_mem)
  ultimately show ?thesis using assms neq
    by (auto simp: tags_ok_def registerWorkUnit_def translatedHash_def nth_append less_Suc_eq)
qed

lemma tags_ok_fold:
  assumes "tags_ok hash xs st" and "inj_on hash (set (xs @ ys))" and "distinct (xs @ ys)"
    and "length (xs @ ys) < 2 ^ 64"
  shows "tags_ok hash (xs @ ys) (fold (registerWorkUnit hash) ys st)"
  using assms
proof (induction ys arbitrary: xs st)
  case (Cons y ys)
  have "hash y \<notin> hash ` set xs" using Cons.prems(2,3) by (auto simp: inj_on_def)
  then have "tags_ok hash (xs @ [y]) (registerWorkUnit hash y st)"
    using Cons.prems by (cases st) (auto intro: tags_ok_register)
  from Cons.IH [OF this] Cons.prems show ?case by simp
qed simp

lemma tags_ok_registered:
  assumes "inj_on hash (set registered_types)"
  shows "tags_ok hash registered_types (registerOSPWorkItems hash (\<lambda>_. None, empty_table))"
proof -
  have "tags_ok hash [] (\<lambda>_. None, empty_table)"
    by (simp add: tags_ok_def empty_table_def)
  from tags_ok_fold [OF this, of registered_types] assms distinct_registered_types
  show ?thesis by (simp add: registerOSPWorkItems_def length_registered_types)
qed

definition tag_of :: "work \<Rightarrow> u64" where
  "tag_of w = word_of_nat (LEAST i. registered_types ! i = type_of w)"

lemma tag_lookup:
  assumes "tags_ok hash registered_types (reg, tab)"
  shows "id_translation tab (hash (type_of w)) = Some (tag_of w)"
    and "reg (tag_of w) = Some (type_of w)"
proof -
  define i where "i = (LEAST i. registered_types ! i = type_of w)"
  obtain j where j: "j < length registered_types" "registered_types ! j = type_of w"
    using registered_types_complete [of w] by (auto simp: in_set_conv_nth)
  then have "registered_types ! i = type_of w" "i \<le> j"
    unfolding i_def by (auto intro: LeastI Least_le)
  moreover from this j have "i < length registered_types" by simp
  with assms have "id_translation tab (hash (registered_types ! i)) = Some (word_of_nat i)"
    "reg (word_of_nat i) = Some (registered_types ! i)" by (auto simp: tags_ok_def)
  ultimately show "id_translation tab (hash (type_of w)) = Some (tag_of w)"
    "reg (tag_of w) = Some (type_of w)"
    by (simp_all add: tag_of_def flip: i_def)
qed

lemma translatedHash_known [simp]:
  "id_translation tab v = Some i \<Longrightarrow> translatedHash v tab = (i, tab)"
  by (simp add: translatedHash_def)

definition wire_bytes :: "work \<Rightarrow> byte list" where
  "wire_bytes w = word8 (tag_of w) @ concat (serialize w)"

section \<open>Transport over any fabric\<close>

context fabric
begin

lemma send_work_ok:
  assumes "finv f" and "ws_ok ws" and "tags_ok hash registered_types (reg, tab)"
  shows "\<exists>ws' f'. send_work fsend hash w b (tab, ws, f) = ret (tab, ws', f') \<and> finv f' \<and> ws_ok ws' \<and>
     maxBufferSize ws' = maxBufferSize ws \<and>
     pending f' @ wbuf ws' = pending f @ wbuf ws @ wire_bytes w \<and> (b \<longrightarrow> wbuf ws' = [])"
proof -
  from writes_ok [OF assms(1,2), of "word8 (tag_of w) # serialize w"] obtain ws1 f1 where
    1: "bws_writes fsend (word8 (tag_of w) # serialize w) ws f = ret (ws1, f1)" "finv f1" "ws_ok ws1"
      "maxBufferSize ws1 = maxBufferSize ws"
      "pending f1 @ wbuf ws1 = pending f @ wbuf ws @ wire_bytes w"
    by (auto simp: wire_bytes_def)
  then have "sendable (length (wbuf ws1))" by (auto simp: ws_ok_def)
  from flush_ok [OF 1(2) disjI1, OF this] obtain f2 where
    2: "bws_flush fsend ws1 f1 = ret (ws1\<lparr>wbuf := []\<rparr>, f2)" "finv f2" "pending f2 = pending f1 @ wbuf ws1"
    by blast
  have "ws_ok (ws1\<lparr>wbuf := []\<rparr>)" using 1(3) by (auto simp: ws_ok_def)
  with 1 2 tag_lookup(1) [OF assms(3), of w] show ?thesis
    by (cases b) (simp_all add: send_work_def Let_def)
qed

lemma send_works_ok:
  assumes "finv f" and "ws_ok ws" and "tags_ok hash registered_types (reg, tab)"
  shows "\<exists>ws' f'. send_works fsend hash us (tab, ws, f) = ret (tab, ws', f') \<and> finv f' \<and> ws_ok ws' \<and>
     maxBufferSize ws' = maxBufferSize ws \<and>
     pending f' @ wbuf ws' = pending f @ wbuf ws @ concat (map (wire_bytes \<circ> fst) us) \<and>
     (us \<noteq> [] \<and> snd (last us) \<longrightarrow> wbuf ws' = [])"
  using assms(1,2)
proof (induction us arbitrary: ws f)
  case (Cons u us)
  from send_work_ok [OF Cons.prems assms(3), of "fst u" "snd u"] obtain ws1 f1 where
    1: "send_work fsend hash (fst u) (snd u) (tab, ws, f) = ret (tab, ws1, f1)" "finv f1" "ws_ok ws1"
      "maxBufferSize ws1 = maxBufferSize ws"
      "pending f1 @ wbuf ws1 = pending f @ wbuf ws @ wire_bytes (fst u)" "snd u \<longrightarrow> wbuf ws1 = []"
    by blast
  from Cons.IH [OF 1(2,3)] obtain ws2 f2 where
    2: "send_works fsend hash us (tab, ws1, f1) = ret (tab, ws2, f2)" "finv f2" "ws_ok ws2"
      "maxBufferSize ws2 = maxBufferSize ws1"
      "pending f2 @ wbuf ws2 = pending f1 @ wbuf ws1 @ concat (map (wire_bytes \<circ> fst) us)"
      "us \<noteq> [] \<and> snd (last us) \<longrightarrow> wbuf ws2 = []"
    by blast
  have "pending f2 @ wbuf ws2 = (pending f1 @ wbuf ws1) @ concat (map (wire_bytes \<circ> fst) us)"
    using 2(5) by simp
  also note 1(5)
  finally show ?case using 1 2 by (cases "us = []") auto
qed simp

end

context read_stream
begin

lemma reads_readWork:
  assumes "tags_ok hash registered_types (reg, tab)" and "sizes_fit w"
  shows "reads (readWork reg rd) (wire_bytes w) (wire_image w)"
proof -
  have "reads (then_dec (rd_u64 rd) (\<lambda>tag.
     (case reg tag of
        None \<Rightarrow> (\<lambda>s. raise (Runtime_error ''Invalid work type received''))
      | Some ty \<Rightarrow> deserialize ty rd))) (concat (wr_u64 (tag_of w)) @ concat (serialize w)) (wire_image w)"
    using tag_lookup(2) [OF assms(1), of w] reads_work [OF assms(2)]
    by (intro reads_then [OF reads_u64]) simp
  then show ?thesis by (simp add: readWork_def wire_bytes_def wr_u64_def)
qed

lemma reads_read_works:
  assumes "tags_ok hash registered_types (reg, tab)" and "\<forall>w\<in>set ws. sizes_fit w"
  shows "reads (read_works reg (length ws) rd) (concat (map wire_bytes ws)) (map wire_image ws)"
  using assms(2) unfolding read_works_def
proof (induction ws)
  case (Cons w ws)
  then have "reads (rd_times (length ws) (readWork reg rd)) (concat (map wire_bytes ws)) (map wire_image ws)"
    by simp
  moreover have "reads (readWork reg rd) (wire_bytes w) (wire_image w)"
    using reads_readWork [OF assms(1)] Cons.prems by simp
  ultimately have "reads (then_dec (readWork reg rd)
      (\<lambda>x. then_dec (rd_times (length ws) (readWork reg rd)) (\<lambda>xs. ret_dec (x # xs))))
      (wire_bytes w @ concat (map wire_bytes ws)) (wire_image w # map wire_image ws)"
    by (intro reads_then reads_map) auto
  then show ?case by simp
qed (auto intro: reads_ret)

end

section \<open>A conversation\<close>

text \<open>The master sends a batch of units and flushes (as \<open>renderFrame\<close>, \<open>pick\<close>,
  \<open>loadModule\<close> and the shutdown do); the worker's loop reads them; then the next
  batch.  Flushes inside a batch are as the calls ask.\<close>

primrec converse ::
  "'f sender \<Rightarrow> 'f receiver \<Rightarrow> (work_type \<Rightarrow> u64) \<Rightarrow> registry \<Rightarrow> (work \<times> bool) list list \<Rightarrow>
   hash_table \<times> wstream \<times> byte list \<times> 'f \<Rightarrow>
   (work list list \<times> (hash_table \<times> wstream \<times> byte list \<times> 'f)) outcome" where
  "converse fsend frecv mhash wreg [] st = ret ([], st)"
| "converse fsend frecv mhash wreg (b # bs) st = (case st of (tab, ws, buf, f) \<Rightarrow>
     bind_out (send_works fsend mhash b (tab, ws, f)) (\<lambda>(tab1, ws1, f1).
     bind_out (bws_flush fsend ws1 f1) (\<lambda>(ws2, f2).
     bind_out (read_works wreg (length b) (brs_read frecv) (buf, f2)) (\<lambda>(got, (buf3, f3)).
     bind_out (converse fsend frecv mhash wreg bs (tab1, ws2, buf3, f3)) (\<lambda>(gots, st').
     ret (got # gots, st'))))))"

context fabric
begin

lemma converse_ok:
  assumes "finv f" and "ws_ok ws" and "wbuf ws = []" and "buf = []" and "pending f = []"
    and "tags_ok mhash registered_types (mreg, mtab)" and "tags_ok whash registered_types (wreg, wtab)"
    and "\<forall>b\<in>set bs. \<forall>u\<in>set b. sizes_fit (fst u)"
  shows "\<exists>st. converse fsend frecv mhash wreg bs (mtab, ws, buf, f) =
     ret (map (map (wire_image \<circ> fst)) bs, st)"
  using assms(1-5,8)
proof (induction bs arbitrary: ws buf f)
  case (Cons b bs)
  from send_works_ok [OF Cons.prems(1,2) assms(6), of b] obtain ws1 f1 where
    1: "send_works fsend mhash b (mtab, ws, f) = ret (mtab, ws1, f1)" "finv f1" "ws_ok ws1"
      "pending f1 @ wbuf ws1 = concat (map (wire_bytes \<circ> fst) b)"
    using Cons.prems by auto
  then have "sendable (length (wbuf ws1))" by (auto simp: ws_ok_def)
  from flush_ok [OF 1(2) disjI1, OF this] obtain f2 where
    2: "bws_flush fsend ws1 f1 = ret (ws1\<lparr>wbuf := []\<rparr>, f2)" "finv f2"
      "pending f2 = concat (map wire_bytes (map fst b))"
    using 1(4) by (auto simp: comp_def)
  have "\<forall>w\<in>set (map fst b). sizes_fit w" using Cons.prems(6) by auto
  from rs.reads_elim [OF rs.reads_read_works [OF assms(7) this], of "(buf, f2)" "[]"] 2 Cons.prems(4)
  obtain s' where 3: "read_works wreg (length b) (brs_read frecv) (buf, f2) = ret (map wire_image (map fst b), s')"
      "case s' of (buf, f) \<Rightarrow> finv f" "(case s' of (buf, f) \<Rightarrow> buf @ pending f) = []"
    by auto
  obtain buf3 f3 where s': "s' = (buf3, f3)" by (cases s')
  have "ws_ok (ws1\<lparr>wbuf := []\<rparr>)" using 1(3) by (auto simp: ws_ok_def)
  with Cons.IH [of f3 "ws1\<lparr>wbuf := []\<rparr>" buf3] 3 s' Cons.prems obtain st where
    "converse fsend frecv mhash wreg bs (mtab, ws1\<lparr>wbuf := []\<rparr>, buf3, f3) =
      ret (map (map (wire_image \<circ> fst)) bs, st)" by auto
  with 1 2 3 s' show ?case by (intro exI [of _ st]) (simp add: comp_def)
qed simp

lemma ws_ok_fresh:
  "0 < n \<Longrightarrow> \<forall>m\<le>n. sendable m \<Longrightarrow> ws_ok (BufferedWriteStream n)"
  by (simp add: ws_ok_def BufferedWriteStream_def)

end

text \<open>Both ends start as the device and the worker do: each registers the work
  items in a fresh process, the write stream has a buffer of \<open>n\<close> bytes.\<close>

definition offload_session ::
  "'f sender \<Rightarrow> 'f receiver \<Rightarrow> (work_type \<Rightarrow> u64) \<Rightarrow> (work_type \<Rightarrow> u64) \<Rightarrow> nat \<Rightarrow> 'f \<Rightarrow>
   (work \<times> bool) list list \<Rightarrow> work list list outcome" where
  "offload_session fsend frecv mhash whash n f bs =
     (let (mreg, mtab) = registerOSPWorkItems mhash (\<lambda>_. None, empty_table);
          (wreg, wtab) = registerOSPWorkItems whash (\<lambda>_. None, empty_table)
      in bind_out (converse fsend frecv mhash wreg bs (mtab, BufferedWriteStream n, [], f))
           (\<lambda>(gots, st). ret gots))"

context fabric
begin

lemma session_ok:
  assumes "finv f" and "pending f = []" and "0 < n" and "\<forall>m\<le>n. sendable m"
    and "inj_on mhash (set registered_types)" and "inj_on whash (set registered_types)"
    and "\<forall>b\<in>set bs. \<forall>u\<in>set b. sizes_fit (fst u)"
  shows "offload_session fsend frecv mhash whash n f bs = ret (map (map (wire_image \<circ> fst)) bs)"
proof -
  obtain mreg mtab where m: "registerOSPWorkItems mhash (\<lambda>_. None, empty_table) = (mreg, mtab)"
    by (cases "registerOSPWorkItems mhash (\<lambda>_. None, empty_table)")
  obtain wreg wtab where w: "registerOSPWorkItems whash (\<lambda>_. None, empty_table) = (wreg, wtab)"
    by (cases "registerOSPWorkItems whash (\<lambda>_. None, empty_table)")
  have "wbuf (BufferedWriteStream n) = []" by (simp add: BufferedWriteStream_def)
  from converse_ok [OF assms(1) ws_ok_fresh [OF assms(3,4)] this refl assms(2)
      tags_ok_registered [OF assms(5), unfolded m] tags_ok_registered [OF assms(6), unfolded w] assms(7)]
  show ?thesis by (auto simp: offload_session_def m w)
qed

end

end
