(* ===== verification/MpiOffload.thy ===== *)
theory MpiOffload
  imports WorkEffects WorkChannel
begin

text \<open>
  The master's side of the MPI offload device (\<open>modules/mpi/MPIOffloadDevice.cpp\<close>):
  every API method as the work unit it makes, with the handle it allocates, the
  flush it asks for, and \<open>processWork\<close>, which sends the unit and runs its
  master-side variant.  \<open>sent\<close> is what goes into the write stream; the theory
  \<open>WorkChannel\<close> says how it reaches the workers.
\<close>

record offload =
  mrank :: rank
  sent :: "(work \<times> bool) list"

definition processWork :: "env \<Rightarrow> work \<Rightarrow> bool \<Rightarrow> offload \<Rightarrow> (work \<times> offload) res" where
  "processWork E w flushWriteStream d =
     bind_res (runOnMaster E w (mrank d)) (\<lambda>(w', r).
     Inr (w', d\<lparr>mrank := r, sent := sent d @ [(w, flushWriteStream)]\<rparr>))"

definition process :: "env \<Rightarrow> work \<Rightarrow> bool \<Rightarrow> offload \<Rightarrow> offload res" where
  "process E w fl d = bind_res (processWork E w fl d) (\<lambda>(w', d'). Inr d')"

definition allocateHandle :: "offload \<Rightarrow> (handle \<times> offload) res" where
  "allocateHandle d = bind_res (ObjectHandle_new (handles (mrank d))) (\<lambda>(h, t).
     Inr (h, d\<lparr>mrank := (mrank d)\<lparr>handles := t\<rparr>\<rparr>))"

definition process_new :: "env \<Rightarrow> (handle \<Rightarrow> work) \<Rightarrow> offload \<Rightarrow> (handle \<times> offload) res" where
  "process_new E mk d = bind_res (allocateHandle d) (\<lambda>(h, d1).
     bind_res (process E (mk h) False d1) (\<lambda>d2. Inr (h, d2)))"

text \<open>The constructors of the parameter units check their handle.\<close>

definition handle_checked :: "env \<Rightarrow> handle \<Rightarrow> 'a res \<Rightarrow> 'a res" where
  "handle_checked E h k = (if \<not> ndebug E \<and> h = NULL_HANDLE then Inl Assertion_failed else k)"

section \<open>Objects\<close>

definition Offload_frameBufferCreate :: "env \<Rightarrow> vec2i \<Rightarrow> u32 \<Rightarrow> u32 \<Rightarrow> offload \<Rightarrow> (handle \<times> offload) res" where
  "Offload_frameBufferCreate E dims mode channels =
     process_new E (\<lambda>h. CreateFrameBuffer h dims mode channels)"

definition Offload_newModel :: "env \<Rightarrow> offload \<Rightarrow> (handle \<times> offload) res" where
  "Offload_newModel E = process_new E (NewObjectT K_Model '''')"

definition Offload_newPixelOp :: "env \<Rightarrow> string \<Rightarrow> offload \<Rightarrow> (handle \<times> offload) res" where
  "Offload_newPixelOp E type = process_new E (NewObjectT K_PixelOp type)"

definition Offload_newRenderer :: "env \<Rightarrow> string \<Rightarrow> offload \<Rightarrow> (handle \<times> offload) res" where
  "Offload_newRenderer E type = process_new E (NewObjectT K_Renderer type)"

definition Offload_newCamera :: "env \<Rightarrow> string \<Rightarrow> offload \<Rightarrow> (handle \<times> offload) res" where
  "Offload_newCamera E type = process_new E (NewObjectT K_Camera type)"

definition Offload_newVolume :: "env \<Rightarrow> string \<Rightarrow> offload \<Rightarrow> (handle \<times> offload) res" where
  "Offload_newVolume E type = process_new E (NewObjectT K_Volume type)"

definition Offload_newGeometry :: "env \<Rightarrow> string \<Rightarrow> offload \<Rightarrow> (handle \<times> offload) res" where
  "Offload_newGeometry E type = process_new E (NewObjectT K_Geometry type)"

definition Offload_newTransferFunction :: "env \<Rightarrow> string \<Rightarrow> offload \<Rightarrow> (handle \<times> offload) res" where
  "Offload_newTransferFunction E type = process_new E (NewObjectT K_TransferFunction type)"

definition Offload_newTexture :: "env \<Rightarrow> string \<Rightarrow> offload \<Rightarrow> (handle \<times> offload) res" where
  "Offload_newTexture E type = process_new E (NewObjectT K_Texture type)"

definition Offload_newMaterial :: "env \<Rightarrow> handle \<Rightarrow> string \<Rightarrow> offload \<Rightarrow> (handle \<times> offload) res" where
  "Offload_newMaterial E renderer mty = process_new E (NewMaterial renderer mty)"

definition Offload_newMaterial2 :: "env \<Rightarrow> string \<Rightarrow> string \<Rightarrow> offload \<Rightarrow> (handle \<times> offload) res" where
  "Offload_newMaterial2 E rty mty = process_new E (NewMaterial2 rty mty)"

definition Offload_newLight :: "env \<Rightarrow> string \<Rightarrow> offload \<Rightarrow> (handle \<times> offload) res" where
  "Offload_newLight E type = process_new E (NewLight type)"

text \<open>\<open>NewData::NewData\<close>: the bytes are taken from \<open>init\<close> (\<open>None\<close>: a null pointer); too
  short an array is read past its end.\<close>

definition NewData_bytes :: "osp_type \<Rightarrow> u64 \<Rightarrow> byte list option \<Rightarrow> byte list res" where
  "NewData_bytes ty nItems init = (case init of
      None \<Rightarrow> Inr []
    | Some src \<Rightarrow>
        if nItems = 0 then Inr []
        else bind_res (sizeOf ty) (\<lambda>sz.
             let numBytes = unat (word_of_nat sz * nItems :: u64)
             in if length src < numBytes then Inl Undefined_behaviour else Inr (take numBytes src)))"

definition Offload_newData ::
  "env \<Rightarrow> u64 \<Rightarrow> osp_type \<Rightarrow> byte list option \<Rightarrow> i32 \<Rightarrow> offload \<Rightarrow> (handle \<times> offload) res" where
  "Offload_newData E nItems ty init flags d =
     bind_res (allocateHandle d) (\<lambda>(h, d1).
     bind_res (NewData_bytes ty nItems init) (\<lambda>bs.
     bind_res (process E (NewData h nItems (word_of_nat (enum_value ty)) bs flags) False d1) (\<lambda>d2.
     Inr (h, d2))))"

definition Offload_commit :: "env \<Rightarrow> handle \<Rightarrow> offload \<Rightarrow> offload res" where
  "Offload_commit E h = process E (CommitObject h) False"

definition Offload_release :: "env \<Rightarrow> handle \<Rightarrow> offload \<Rightarrow> offload res" where
  "Offload_release E h = process E (CommandRelease h) False"

section \<open>Parameters\<close>

definition Offload_setVoidPtr :: "offload \<Rightarrow> offload res" where
  "Offload_setVoidPtr d =
     Inl (Runtime_error ''setting a void pointer as parameter to an object is not allowed in MPI mode'')"

definition Offload_removeParam :: "env \<Rightarrow> handle \<Rightarrow> string \<Rightarrow> offload \<Rightarrow> offload res" where
  "Offload_removeParam E h nm d = handle_checked E h (process E (RemoveParam h nm) False d)"

definition Offload_setString :: "env \<Rightarrow> handle \<Rightarrow> string \<Rightarrow> string \<Rightarrow> offload \<Rightarrow> offload res" where
  "Offload_setString E h nm v d = handle_checked E h (process E (SetParam h nm (P_string v)) False d)"

definition Offload_setBool :: "env \<Rightarrow> handle \<Rightarrow> string \<Rightarrow> bool \<Rightarrow> offload \<Rightarrow> offload res" where
  "Offload_setBool E h nm v d = handle_checked E h (process E (SetParam h nm (P_bool v)) False d)"

definition Offload_setFloat :: "env \<Rightarrow> handle \<Rightarrow> string \<Rightarrow> float_bits \<Rightarrow> offload \<Rightarrow> offload res" where
  "Offload_setFloat E h nm v d = handle_checked E h (process E (SetParam h nm (P_float v)) False d)"

definition Offload_setInt :: "env \<Rightarrow> handle \<Rightarrow> string \<Rightarrow> i32 \<Rightarrow> offload \<Rightarrow> offload res" where
  "Offload_setInt E h nm v d = handle_checked E h (process E (SetParam h nm (P_int v)) False d)"

definition Offload_setVec2f :: "env \<Rightarrow> handle \<Rightarrow> string \<Rightarrow> vec2f \<Rightarrow> offload \<Rightarrow> offload res" where
  "Offload_setVec2f E h nm v d = handle_checked E h (process E (SetParam h nm (P_vec2f v)) False d)"

definition Offload_setVec3f :: "env \<Rightarrow> handle \<Rightarrow> string \<Rightarrow> vec3f \<Rightarrow> offload \<Rightarrow> offload res" where
  "Offload_setVec3f E h nm v d = handle_checked E h (process E (SetParam h nm (P_vec3f v)) False d)"

definition Offload_setVec4f :: "env \<Rightarrow> handle \<Rightarrow> string \<Rightarrow> vec4f \<Rightarrow> offload \<Rightarrow> offload res" where
  "Offload_setVec4f E h nm v d = handle_checked E h (process E (SetParam h nm (P_vec4f v)) False d)"

definition Offload_setVec2i :: "env \<Rightarrow> handle \<Rightarrow> string \<Rightarrow> vec2i \<Rightarrow> offload \<Rightarrow> offload res" where
  "Offload_setVec2i E h nm v d = handle_checked E h (process E (SetParam h nm (P_vec2i v)) False d)"

definition Offload_setVec3i :: "env \<Rightarrow> handle \<Rightarrow> string \<Rightarrow> vec3i \<Rightarrow> offload \<Rightarrow> offload res" where
  "Offload_setVec3i E h nm v d = handle_checked E h (process E (SetParam h nm (P_vec3i v)) False d)"

definition Offload_setObject :: "env \<Rightarrow> handle \<Rightarrow> string \<Rightarrow> handle \<Rightarrow> offload \<Rightarrow> offload res" where
  "Offload_setObject E h nm v d = handle_checked E h (process E (SetParam h nm (P_object v)) False d)"

definition Offload_setMaterial :: "env \<Rightarrow> handle \<Rightarrow> handle \<Rightarrow> offload \<Rightarrow> offload res" where
  "Offload_setMaterial E g m d =
     handle_checked E g (handle_checked E m (process E (SetMaterial g m) False d))"

definition Offload_setPixelOp :: "env \<Rightarrow> handle \<Rightarrow> handle \<Rightarrow> offload \<Rightarrow> offload res" where
  "Offload_setPixelOp E fb po = process E (SetPixelOp fb po) False"

section \<open>Models\<close>

definition Offload_addGeometry :: "env \<Rightarrow> handle \<Rightarrow> handle \<Rightarrow> offload \<Rightarrow> offload res" where
  "Offload_addGeometry E m g = process E (AddGeometry m g) False"

definition Offload_addVolume :: "env \<Rightarrow> handle \<Rightarrow> handle \<Rightarrow> offload \<Rightarrow> offload res" where
  "Offload_addVolume E m v = process E (AddVolume m v) False"

definition Offload_removeGeometry :: "env \<Rightarrow> handle \<Rightarrow> handle \<Rightarrow> offload \<Rightarrow> offload res" where
  "Offload_removeGeometry E m g = process E (RemoveGeometry m g) False"

definition Offload_removeVolume :: "env \<Rightarrow> handle \<Rightarrow> handle \<Rightarrow> offload \<Rightarrow> offload res" where
  "Offload_removeVolume E m v = process E (RemoveVolume m v) False"

section \<open>Volumes\<close>

text \<open>\<open>getString\<close> copies at most 2048 characters into a buffer of that size; a string
  that fills it is not terminated.\<close>

definition Offload_getString :: "handle \<Rightarrow> string \<Rightarrow> offload \<Rightarrow> string option res" where
  "Offload_getString h nm d = (case lookup h (mrank d) of
      None \<Rightarrow> Inl Undefined_behaviour
    | Some a \<Rightarrow> with_obj a (robjects (mrank d)) (\<lambda>ob.
        if hasParam nm (paramList ob)
        then bind_res (getParam TY_string nm (A_string '''') (paramList ob)) (\<lambda>v. case v of
                A_string s \<Rightarrow> if length s < 2048 then Inr (Some s) else Inl Undefined_behaviour
              | _ \<Rightarrow> Inr (Some ''''))
        else Inr None))"

text \<open>The size of a region is a product of \<open>size_t\<close>s; the extents are signed.\<close>

definition SetRegion_size :: "nat \<Rightarrow> vec3i \<Rightarrow> u64" where
  "SetRegion_size sz v = (case v of (x, y, z) \<Rightarrow> word_of_nat sz * scast x * scast y * scast z)"

definition SetRegion_new :: "handle \<Rightarrow> vec3i \<Rightarrow> vec3i \<Rightarrow> byte list \<Rightarrow> osp_type \<Rightarrow> work res" where
  "SetRegion_new h start extent src ty =
     bind_res (sizeOf ty) (\<lambda>sz.
     let bytes = unat (SetRegion_size sz extent)
     in if bytes > 2000000000
        then Inl (Runtime_error ''MPI ospSetRegion does not support region sizes > 2GB'')
        else if length src < bytes then Inl Undefined_behaviour
        else Inr (SetRegion h start extent (word_of_nat (enum_value ty)) (take bytes src)))"

definition Offload_setRegion ::
  "env \<Rightarrow> handle \<Rightarrow> byte list \<Rightarrow> vec3i \<Rightarrow> vec3i \<Rightarrow> offload \<Rightarrow> offload res" where
  "Offload_setRegion E h src index extent d =
     bind_res (Offload_getString h ''voxelType'' d) (\<lambda>nm.
     let ty = typeForString nm
     in if \<not> ndebug E \<and> ty = OSP_UNKNOWN then Inl Assertion_failed
        else bind_res (SetRegion_new h index extent src ty) (\<lambda>w. process E w False d))"

section \<open>Frames and modules\<close>

definition Offload_frameBufferClear :: "env \<Rightarrow> handle \<Rightarrow> u32 \<Rightarrow> offload \<Rightarrow> offload res" where
  "Offload_frameBufferClear E fb ch = process E (ClearFrameBuffer fb ch) False"

definition Offload_renderFrame ::
  "env \<Rightarrow> handle \<Rightarrow> handle \<Rightarrow> u32 \<Rightarrow> offload \<Rightarrow> (float_bits \<times> offload) res" where
  "Offload_renderFrame E fb rn ch d =
     bind_res (processWork E (RenderFrame fb rn ch 0) True d) (\<lambda>(w, d').
     case w of RenderFrame _ _ _ v \<Rightarrow> Inr (v, d') | _ \<Rightarrow> Inr (0, d'))"

definition Offload_pick :: "env \<Rightarrow> handle \<Rightarrow> vec2f \<Rightarrow> offload \<Rightarrow> (byte list \<times> offload) res" where
  "Offload_pick E rn pos d =
     bind_res (processWork E (Pick rn pos []) True d) (\<lambda>(w, d').
     case w of Pick _ _ res \<Rightarrow> Inr (res, d') | _ \<Rightarrow> Inr ([], d'))"

definition Offload_loadModule :: "env \<Rightarrow> string \<Rightarrow> offload \<Rightarrow> (i32 \<times> offload) res" where
  "Offload_loadModule E nm d =
     bind_res (processWork E (LoadModule nm 0) True d) (\<lambda>(w, d').
     case w of LoadModule _ e \<Rightarrow> Inr (e, d') | _ \<Rightarrow> Inr (0, d'))"

definition Offload_destroy :: "env \<Rightarrow> offload \<Rightarrow> offload res" where
  "Offload_destroy E = process E CommandFinalize True"

section \<open>Committing the device\<close>

text \<open>\<open>bufferSize = 1024 * size_t(writeBufferSize * 1024)\<close>; \<open>scaled\<close> is the value of the
  cast.  The old stream is flushed, a new one is made, and the load balancer unit
  is the first thing written to it.\<close>

definition write_buffer_size :: "u64 \<Rightarrow> u64" where
  "write_buffer_size scaled = 1024 * scaled"

definition Offload_commit_device ::
  "'f sender \<Rightarrow> (work_type \<Rightarrow> u64) \<Rightarrow> i32 \<Rightarrow> i32 \<Rightarrow> handle \<Rightarrow> u64 \<Rightarrow>
   hash_table \<times> wstream \<times> 'f \<Rightarrow> (hash_table \<times> wstream \<times> 'f) outcome" where
  "Offload_commit_device fsend hash dyn prealloc h scaled = (\<lambda>(tab, ws, f).
     bind_out (bws_flush fsend ws f) (\<lambda>(ws1, f1).
     send_work fsend hash (SetLoadBalancer dyn prealloc h) False
       (tab, BufferedWriteStream (unat (write_buffer_size scaled)), f1)))"

text \<open>A write buffer scale below 1/1024 hangs the device: the cast gives 0, the new
  write stream has no room, and committing never returns.\<close>

theorem tiny_write_buffer_hangs:
  assumes "wbuf ws = []"
  shows "Offload_commit_device fsend hash dyn prealloc h 0 (tab, ws, f) = None"
proof -
  have "bws_write fsend (word8 t) (BufferedWriteStream 0) f = None" for t
    by (rule bws_write_no_room) (auto simp: BufferedWriteStream_def dest: arg_cong [of _ _ length])
  with assms show ?thesis
    by (auto simp: Offload_commit_device_def bws_flush_def send_work_def write_buffer_size_def
        split: prod.splits)
qed

theorem tiny_write_buffer_hangs_witness:
  "Offload_commit_device (mpi_send True) (\<lambda>_. 5) 0 4 1 0
     (empty_table, BufferedWriteStream (1024 * 1024), []) = None"
  by (rule tiny_write_buffer_hangs) (simp add: BufferedWriteStream_def)

text \<open>Creating an array of objects without initial data is fatal on the workers:
  the constructor sends no bytes, and \<open>NewData::run\<close> reads the handles anyway.
  (The local device initialises such an array with null pointers.)\<close>

theorem empty_object_array_fatal:
  assumes "ty \<in> set object_formats" and "0 < nItems"
  shows "NewData_bytes ty nItems None = Inr [] \<and>
     NewData_run E h nItems (word_of_nat (enum_value ty)) [] r = Inl Undefined_behaviour"
proof -
  have "type_of_enum (word_of_nat (enum_value ty)) = ty" by (rule type_of_enum_value)
  moreover have "ty \<noteq> OSP_STRING" using assms(1) by (auto simp: object_formats_def)
  moreover have "translate_handles (unat nItems) [] r = Inl Undefined_behaviour"
    using assms(2) by (simp add: translate_handles_def word_less_nat_alt)
  ultimately show ?thesis using assms(1) by (simp add: NewData_bytes_def NewData_run_def Let_def)
qed

theorem empty_object_array_fatal_witness:
  "NewData_run plain_env 9 1 (word_of_nat (enum_value OSP_OBJECT)) [] empty_rank = Inl Undefined_behaviour"
  using empty_object_array_fatal [of OSP_OBJECT 1 plain_env 9 empty_rank] by (simp add: object_formats_def)

end
