(* ===== verification/Libraries.thy ===== *)
theory Libraries
  imports Prelude "HOL-Library.List_Lexorder" "HOL-Library.Char_ord"
begin

text \<open>
  The repository of loaded shared libraries (\<open>components/ospcommon/library.cpp\<close>) and
  \<open>loadLocalModule\<close> of \<open>ospray/common/OSPCommon.cpp\<close>, for Linux.  The dynamic linker
  is a parameter, the record \<open>linker\<close>: \<open>dlopen\<close> gives a handle or null, \<open>dlsym\<close> says
  whether a symbol is found through a handle, where the null handle is
  \<open>RTLD_DEFAULT\<close>; \<open>call_init\<close> says whether a module's initialiser returns normally.
\<close>

type_synonym lib_handle = "nat option"

record linker =
  library_location :: string
  soversion :: string
  dlopen :: "string \<Rightarrow> lib_handle"
  dlsym :: "lib_handle \<Rightarrow> string \<Rightarrow> bool"
  call_init :: "string \<Rightarrow> bool"

section \<open>Ordered maps\<close>

text \<open>\<open>std::map\<close> as the list of its entries in key order.\<close>

fun std_insert :: "'k::linorder \<Rightarrow> 'v \<Rightarrow> ('k \<times> 'v) list \<Rightarrow> ('k \<times> 'v) list" where
  "std_insert k v [] = [(k, v)]"
| "std_insert k v (p # ps) =
     (if k < fst p then (k, v) # p # ps
      else if k = fst p then (k, v) # ps
      else p # std_insert k v ps)"

lemma set_fst_std_insert: "fst ` set (std_insert k v ps) = insert k (fst ` set ps)"
  by (induction ps) auto

lemma sorted_std_insert:
  "sorted_wrt (<) (map fst ps) \<Longrightarrow> sorted_wrt (<) (map fst (std_insert k v ps))"
proof (induction ps)
  case (Cons p ps)
  have "\<forall>x\<in>fst ` set (std_insert k v ps). fst p < x" if "fst p < k"
    using Cons.prems that unfolding set_fst_std_insert by auto
  with Cons show ?case by auto
qed simp

lemma map_of_std_insert:
  "sorted_wrt (<) (map fst ps) \<Longrightarrow> map_of (std_insert k v ps) = (map_of ps)(k \<mapsto> v)"
proof (induction ps)
  case (Cons p ps)
  have "map_of ps k = None" if "k < fst p"
    using Cons.prems that by (force simp: map_of_eq_None_iff)
  with Cons show ?case by (cases p) (auto simp: fun_eq_iff)
qed simp

section \<open>Libraries\<close>

text \<open>A \<open>Library\<close> is its handle; opening it tries the plain name and then the name
  with the version.  A failure leaves the null handle.\<close>

definition Library_open :: "linker \<Rightarrow> string \<Rightarrow> bool \<Rightarrow> lib_handle" where
  "Library_open ld nm anchor =
     (let libLocation = (if anchor then library_location ld else []);
          fullName = libLocation @ ''lib'' @ nm @ ''.so''
      in (case dlopen ld fullName of
            None \<Rightarrow> dlopen ld (fullName @ ''.'' @ soversion ld)
          | Some h \<Rightarrow> Some h))"

definition Library_getSymbol :: "linker \<Rightarrow> lib_handle \<Rightarrow> string \<Rightarrow> bool" where
  "Library_getSymbol ld lib s = dlsym ld lib s"

type_synonym repository = "(string \<times> lib_handle) list"

definition libraryExists :: "string \<Rightarrow> repository \<Rightarrow> bool" where
  "libraryExists nm repo \<longleftrightarrow> map_of repo nm \<noteq> None"

definition repo_add :: "linker \<Rightarrow> string \<Rightarrow> bool \<Rightarrow> repository \<Rightarrow> repository" where
  "repo_add ld nm anchor repo =
     (if libraryExists nm repo then repo else std_insert nm (Library_open ld nm anchor) repo)"

definition addDefaultLibrary :: "repository \<Rightarrow> repository" where
  "addDefaultLibrary repo = std_insert ''ospray'' None repo"

text \<open>The loop goes through the libraries in the order of their names until one has
  the symbol; the result is that library.\<close>

fun repo_getSymbol :: "linker \<Rightarrow> repository \<Rightarrow> string \<Rightarrow> (string \<times> lib_handle) option" where
  "repo_getSymbol ld [] s = None"
| "repo_getSymbol ld (l # ls) s = (if Library_getSymbol ld (snd l) s then Some l else repo_getSymbol ld ls s)"

definition getSymbol :: "linker \<Rightarrow> repository \<Rightarrow> string \<Rightarrow> bool" where
  "getSymbol ld repo s \<longleftrightarrow> repo_getSymbol ld repo s \<noteq> None"

datatype osp_error =
    OSP_NO_ERROR | OSP_UNKNOWN_ERROR | OSP_INVALID_ARGUMENT | OSP_INVALID_OPERATION
  | OSP_OUT_OF_MEMORY | OSP_UNSUPPORTED_CPU

definition loadLocalModule :: "linker \<Rightarrow> string \<Rightarrow> repository \<Rightarrow> osp_error res \<times> repository" where
  "loadLocalModule ld nm repo =
     (let repo1 = repo_add ld (''ospray_module_'' @ nm) True repo;
          initSymName = ''ospray_init_module_'' @ nm
      in if \<not> getSymbol ld repo1 initSymName
         then (Inl (Runtime_error (''#osp:api: could not find module initializer '' @ initSymName)), repo1)
         else if call_init ld initSymName then (Inr OSP_NO_ERROR, repo1)
         else (Inr OSP_UNKNOWN_ERROR, repo1))"

definition repo_ok :: "repository \<Rightarrow> bool" where
  "repo_ok repo \<longleftrightarrow> sorted_wrt (<) (map fst repo)"

lemma getSymbol_iff: "getSymbol ld repo s \<longleftrightarrow> (\<exists>l\<in>set repo. dlsym ld (snd l) s)"
  unfolding getSymbol_def by (induction repo) (auto simp: Library_getSymbol_def)

lemma repo_ok_add: "repo_ok repo \<Longrightarrow> repo_ok (repo_add ld nm anchor repo)"
  by (simp add: repo_ok_def repo_add_def sorted_std_insert)

lemma repo_ok_default: "repo_ok repo \<Longrightarrow> repo_ok (addDefaultLibrary repo)"
  by (simp add: repo_ok_def addDefaultLibrary_def sorted_std_insert)

lemma std_insert_keeps:
  "p \<in> set ps \<Longrightarrow> fst p \<noteq> k \<Longrightarrow> p \<in> set (std_insert k v ps)"
  by (induction ps) auto

lemma set_std_insert: "set (std_insert k v ps) \<subseteq> insert (k, v) (set ps)"
  by (induction ps) auto

lemma getSymbol_add: "getSymbol ld repo s \<Longrightarrow> getSymbol ld (repo_add ld nm anchor repo) s"
proof -
  assume "getSymbol ld repo s"
  then obtain l where l: "l \<in> set repo" "dlsym ld (snd l) s" by (auto simp: getSymbol_iff)
  show ?thesis
  proof (cases "libraryExists nm repo")
    case False
    then have "fst l \<noteq> nm" using l(1) by (auto simp: libraryExists_def map_of_eq_None_iff)
    from std_insert_keeps [OF l(1) this] l(2) False show ?thesis
      by (auto simp: getSymbol_iff repo_add_def)
  qed (use \<open>getSymbol ld repo s\<close> in \<open>simp add: repo_add_def\<close>)
qed

lemma libraryExists_add:
  "repo_ok repo \<Longrightarrow> libraryExists nm (repo_add ld m anchor repo) \<longleftrightarrow> nm = m \<or> libraryExists nm repo"
  by (auto simp: libraryExists_def repo_add_def repo_ok_def map_of_std_insert)

text \<open>C39 Loading a module.  Loading keeps every symbol that could be found before
  and the repository ordered.  But a library that cannot be opened still counts
  as loaded, with the null handle that searches the whole program: as long as the
  repository is the one the failed load left, the same name is never opened again, even
  when the linker could open it by then.\<close>

theorem module_loading:
  assumes "repo_ok repo" and "loadLocalModule ld nm repo = (r, repo')"
  shows "repo_ok repo' \<and> (\<forall>s. getSymbol ld repo s \<longrightarrow> getSymbol ld repo' s) \<and>
     libraryExists (''ospray_module_'' @ nm) repo' \<and>
     (\<forall>ld2 anchor. repo_add ld2 (''ospray_module_'' @ nm) anchor repo' = repo')"
proof -
  have eq: "repo' = repo_add ld (''ospray_module_'' @ nm) True repo"
    using assms(2) by (auto simp: loadLocalModule_def Let_def split: if_splits)
  then have ex: "libraryExists (''ospray_module_'' @ nm) repo'"
    using libraryExists_add [OF assms(1)] by simp
  with eq assms(1) show ?thesis
    by (auto simp: repo_ok_add getSymbol_add) (simp_all add: repo_add_def)
qed

definition demo_linker :: "string list \<Rightarrow> linker" where
  "demo_linker files = \<lparr>library_location = ''/opt/'', soversion = ''1'',
     dlopen = (\<lambda>f. if List.member files f then Some (length f) else None),
     dlsym = (\<lambda>h s. h = Some 27 \<and> s = ''ospray_init_module_mpi''),
     call_init = (\<lambda>_. True)\<rparr>"

theorem module_loading_witness:
  "loadLocalModule (demo_linker []) ''mpi'' [] =
     (Inl (Runtime_error ''#osp:api: could not find module initializer ospray_init_module_mpi''),
      [(''ospray_module_mpi'', None)]) \<and>
   repo_add (demo_linker [''/opt/libospray_module_mpi.so'']) ''ospray_module_mpi'' True
     [(''ospray_module_mpi'', None)] = [(''ospray_module_mpi'', None)]"
proof -
  have r: "loadLocalModule (demo_linker []) ''mpi'' [] =
     (Inl (Runtime_error ''#osp:api: could not find module initializer ospray_init_module_mpi''),
      [(''ospray_module_mpi'', None)])" by code_simp
  have ok: "repo_ok []" by (simp add: repo_ok_def)
  from module_loading [OF ok r] r show ?thesis by simp
qed

end
