(* ===== verification/CommandLine.thy ===== *)
theory CommandLine
  imports LocalDevice Libraries
begin

text \<open>
  The generic part of a device (\<open>ospray/api/Device.h\<close>), the process it lives in, the
  messages and errors of \<open>ospray/common/OSPCommon.cpp\<close>, \<open>removeArgs\<close> of
  \<open>components/ospcommon/common.cpp\<close>, and the command line parser
  \<open>initFromCommandLine\<close>, which is compared with a parser that just walks the list
  of arguments.
\<close>

section \<open>Devices and the process\<close>

text \<open>Where a message goes: the stream or the callback that is installed.\<close>

datatype sink = To_nothing | To_cout | To_cerr | To_trace_file | To_callback nat

record 's device =
  dev_kind :: string
  dev_params :: params
  numThreads :: i32
  debugMode :: bool
  apiTraceEnabled :: bool
  threadAffinity :: i32
  msg_fcn :: sink
  error_fcn :: sink
  trace_fcn :: sink
  lastErrorCode :: osp_error
  lastErrorMsg :: string
  committed :: bool
  dev_state :: 's

definition AUTO_DETECT :: i32 where "AUTO_DETECT = 2"
definition AFFINITIZE :: i32 where "AFFINITIZE = 1"
definition DEAFFINITIZE :: i32 where "DEAFFINITIZE = 0"

definition new_device :: "string \<Rightarrow> 's \<Rightarrow> 's device" where
  "new_device kind st = \<lparr>dev_kind = kind, dev_params = [], numThreads = - 1, debugMode = False,
     apiTraceEnabled = False, threadAffinity = AUTO_DETECT, msg_fcn = To_nothing,
     error_fcn = To_nothing, trace_fcn = To_nothing, lastErrorCode = OSP_NO_ERROR,
     lastErrorMsg = ''no error'', committed = False, dev_state = st\<rparr>"

text \<open>\<open>logLevel\<close> is a static member; \<open>printed\<close> collects what is written to the
  streams and handed to the callbacks.\<close>

record 's proc =
  current :: "'s device option"
  logLevel :: u32
  printed :: "(sink \<times> string) list"
  repo :: repository
  device_registry :: symbol_registry
  tasking_threads :: "i32 option"

definition emit :: "sink \<Rightarrow> string \<Rightarrow> 's proc \<Rightarrow> 's proc" where
  "emit sk m p = (if sk = To_nothing then p else p\<lparr>printed := printed p @ [(sk, m)]\<rparr>)"

definition deviceIsSet :: "'s proc \<Rightarrow> bool" where
  "deviceIsSet p \<longleftrightarrow> current p \<noteq> None"

definition postStatusMsg :: "string \<Rightarrow> u32 \<Rightarrow> 's proc \<Rightarrow> 's proc" where
  "postStatusMsg m postAtLogLevel p =
     (if logLevel p \<ge> postAtLogLevel \<and> deviceIsSet p
      then emit (msg_fcn (the (current p))) (m @ [CHR 0x0A]) p else p)"

definition handleError :: "osp_error \<Rightarrow> string \<Rightarrow> 's proc \<Rightarrow> 's proc" where
  "handleError e message p =
     (case current p of
        Some d \<Rightarrow> emit (error_fcn d) message (p\<lparr>current := Some (d\<lparr>lastErrorCode := e, lastErrorMsg := message\<rparr>)\<rparr>)
      | None \<Rightarrow> emit To_cerr (''#osp: INITIALIZATION ERROR --> '' @ message) p)"

definition postTraceMsg :: "string \<Rightarrow> 's proc \<Rightarrow> 's proc" where
  "postTraceMsg message p = (case current p of Some d \<Rightarrow> emit (trace_fcn d) message p | None \<Rightarrow> p)"

lemma emit_simps [simp]:
  "current (emit sk m p) = current p" "logLevel (emit sk m p) = logLevel p" "repo (emit sk m p) = repo p"
  "device_registry (emit sk m p) = device_registry p" "tasking_threads (emit sk m p) = tasking_threads p"
  by (simp_all add: emit_def)

lemma postStatusMsg_simps [simp]:
  "current (postStatusMsg m l p) = current p" "logLevel (postStatusMsg m l p) = logLevel p"
  "repo (postStatusMsg m l p) = repo p"
  by (simp_all add: postStatusMsg_def)

section \<open>Removing arguments\<close>

definition removeArgs :: "nat \<Rightarrow> string list \<Rightarrow> nat \<Rightarrow> nat \<Rightarrow> nat \<times> string list" where
  "removeArgs ac av pos howMany =
     (ac - howMany, fold (\<lambda>i av. av[i - howMany := av ! i]) [pos + howMany..<ac] av)"

lemma shift_down:
  assumes "h \<le> a" and "a \<le> n" and "n \<le> length av"
  shows "fold (\<lambda>i av. av[i - h := av ! i]) [a..<n] av =
     take (a - h) av @ take (n - a) (drop a av) @ drop (n - h) av"
  using assms(2,3)
proof (induction n)
  case (Suc n)
  show ?case
  proof (cases "a = Suc n")
    case True
    then show ?thesis by simp
  next
    case False
    with Suc.prems have n: "a \<le> n" "n < length av" by auto
    let ?av = "take (a - h) av @ take (n - a) (drop a av) @ drop (n - h) av"
    have IH: "fold (\<lambda>i av. av[i - h := av ! i]) [a..<n] av = ?av" using Suc.IH n by simp
    have len: "length (take (a - h) av @ take (n - a) (drop a av)) = n - h"
      using n assms(1) by simp
    have get: "?av ! n = av ! n"
    proof -
      have "\<not> n < n - h" by simp
      have "?av ! n = drop (n - h) av ! (n - (n - h))"
        unfolding append_assoc [symmetric] nth_append len using \<open>\<not> n < n - h\<close> by (rule if_not_P)
      then show ?thesis using n assms(1) by simp
    qed
    have "?av[n - h := av ! n] = (take (a - h) av @ take (n - a) (drop a av)) @ (drop (n - h) av)[0 := av ! n]"
      unfolding append_assoc [symmetric] list_update_append len by simp
    also have "(drop (n - h) av)[0 := av ! n] = av ! n # drop (Suc n - h) av"
      using n assms(1) by (simp add: Cons_nth_drop_Suc [symmetric] Suc_diff_le)
    also have "(take (a - h) av @ take (n - a) (drop a av)) @ av ! n # drop (Suc n - h) av =
        take (a - h) av @ take (Suc n - a) (drop a av) @ drop (Suc n - h) av"
      using n by (simp add: take_Suc_conv_app_nth Suc_diff_le)
    finally show ?thesis using n IH get by simp
  qed
qed simp

lemma removeArgs_visible:
  assumes "w + h \<le> ac" and "ac \<le> length av"
  shows "take (fst (removeArgs ac av w h)) (snd (removeArgs ac av w h)) =
     take w av @ drop (w + h) (take ac av)"
proof -
  have "snd (removeArgs ac av w h) = take w av @ take (ac - (w + h)) (drop (w + h) av) @ drop (ac - h) av"
    using shift_down [of h "w + h" ac av] assms by (simp add: removeArgs_def)
  then show ?thesis using assms by (simp add: removeArgs_def drop_take ac_simps)
qed

lemma length_removeArgs [simp]: "length (snd (removeArgs ac av w h)) = length av"
proof -
  have "length (fold (\<lambda>i av. av[i - h := av ! i]) xs av) = length av" for xs
    by (induction xs arbitrary: av) auto
  then show ?thesis by (simp add: removeArgs_def)
qed

section \<open>The options\<close>

text \<open>\<open>atoi\<close>: white space, a sign, the digits that follow.  The value is reduced to
  the width of \<open>int\<close>; the C standard leaves values that do not fit undefined.\<close>

definition is_space :: "char \<Rightarrow> bool" where
  "is_space c \<longleftrightarrow> c \<in> {CHR '' '', CHR 0x09, CHR 0x0A, CHR 0x0B, CHR 0x0C, CHR 0x0D}"

definition digit_val :: "char \<Rightarrow> nat option" where
  "digit_val c = (let n = (of_char c :: nat) in if 48 \<le> n \<and> n \<le> 57 then Some (n - 48) else None)"

fun read_digits :: "nat \<Rightarrow> string \<Rightarrow> nat" where
  "read_digits acc [] = acc"
| "read_digits acc (c # cs) = (case digit_val c of None \<Rightarrow> acc | Some d \<Rightarrow> read_digits (10 * acc + d) cs)"

definition atoi :: "string \<Rightarrow> i32" where
  "atoi s = (case dropWhile is_space s of
      [] \<Rightarrow> 0
    | c # cs \<Rightarrow>
        if c = CHR ''-'' then - word_of_nat (read_digits 0 cs)
        else if c = CHR ''+'' then word_of_nat (read_digits 0 cs)
        else word_of_nat (read_digits 0 (c # cs)))"

lemma atoi_examples: "atoi ''42'' = 42" "atoi '' -7x'' = - 7" "atoi ''abc'' = 0"
  by code_simp+

text \<open>\<open>device->setParam\<close> on the current device, which \<open>ospInit\<close> has set by then.\<close>

definition device_setParam :: "string \<Rightarrow> any_val \<Rightarrow> 's proc \<Rightarrow> 's proc" where
  "device_setParam nm v p =
     p\<lparr>current := map_option (\<lambda>d. d\<lparr>dev_params := setParam nm v (dev_params d)\<rparr>) (current p)\<rparr>"

definition device_setParam_bool :: "string \<Rightarrow> bool \<Rightarrow> 's proc \<Rightarrow> 's proc" where
  "device_setParam_bool nm b p =
     p\<lparr>current := map_option (\<lambda>d. d\<lparr>dev_params := setParam_bool nm b (dev_params d)\<rparr>) (current p)\<rparr>"

text \<open>One pass of the loop: the option at \<open>i\<close>, with the argument behind it when
  \<open>i + 1 < ac\<close>.  The result is how many arguments are removed, \<open>None\<close> for \<open>++i\<close>.\<close>

definition cl_option :: "string \<Rightarrow> string option \<Rightarrow> 's proc \<Rightarrow> nat option \<times> 's proc" where
  "cl_option parm arg p =
    (if parm = ''--osp:debug'' then
       (Some 1, device_setParam ''errorOutput'' (A_string ''cerr'')
         (device_setParam ''logOutput'' (A_string ''cout'') (device_setParam_bool ''debug'' True p)))
     else if parm = ''--osp:verbose'' then
       (Some 1, device_setParam ''errorOutput'' (A_string ''cerr'')
         (device_setParam ''logOutput'' (A_string ''cout'') (device_setParam ''logLevel'' (A_int 1) p)))
     else if parm = ''--osp:vv'' then
       (Some 1, device_setParam ''errorOutput'' (A_string ''cerr'')
         (device_setParam ''logOutput'' (A_string ''cout'') (device_setParam ''logLevel'' (A_int 2) p)))
     else if parm = ''--osp:loglevel'' then
       (case arg of
          Some n \<Rightarrow> (Some 2, device_setParam ''logLevel'' (A_int (atoi n)) p)
        | None \<Rightarrow> (Some 1, postStatusMsg ''<n> argument required for --osp:loglevel!'' 0 p))
     else if parm = ''--osp:logoutput'' then
       (case arg of
          Some dst \<Rightarrow> (Some 2,
            if dst = ''cout'' \<or> dst = ''cerr'' then device_setParam ''logOutput'' (A_string dst) p
            else postStatusMsg (''You must use '' @ [CHR 0x27] @ ''cout'' @ [CHR 0x27] @ '' or '' @
                   [CHR 0x27] @ ''cerr'' @ [CHR 0x27] @ '' for --osp:logoutput!'') 0 p)
        | None \<Rightarrow> (Some 1, postStatusMsg ''<dst> argument required for --osp:logoutput!'' 0 p))
     else if parm = ''--osp:erroroutput'' then
       (case arg of
          Some dst \<Rightarrow> (Some 2,
            if dst = ''cout'' \<or> dst = ''cerr'' then device_setParam ''errorOutput'' (A_string dst) p
            else postStatusMsg (''You must use '' @ [CHR 0x27] @ ''cout'' @ [CHR 0x27] @ '' or '' @
                   [CHR 0x27] @ ''cerr'' @ [CHR 0x27] @ '' for --osp:erroroutput!'') 0 p)
        | None \<Rightarrow> (Some 1, postStatusMsg ''<dst> argument required for --osp:erroroutput!'' 0 p))
     else if parm = ''--osp:numthreads'' \<or> parm = ''--osp:num-threads'' then
       (case arg of
          Some n \<Rightarrow> (Some 2, device_setParam ''numThreads'' (A_int (atoi n)) p)
        | None \<Rightarrow> (Some 1, postStatusMsg ''<n> argument required for --osp:numthreads'' 0 p))
     else if parm = ''--osp:setaffinity'' \<or> parm = ''--osp:affinity'' then
       (case arg of
          Some n \<Rightarrow> (Some 2, device_setParam_bool ''setAffinity'' (atoi n \<noteq> 0) p)
        | None \<Rightarrow> (Some 1, postStatusMsg ''<n> argument required for --osp:setaffinity!'' 0 p))
     else (None, p))"

definition arg_behind :: "nat \<Rightarrow> string list \<Rightarrow> nat \<Rightarrow> string option" where
  "arg_behind ac av i = (if i + 1 < ac then Some (av ! (i + 1)) else None)"

lemma cl_option_removes:
  "fst (cl_option parm arg p) = Some n \<Longrightarrow> n = 1 \<or> (n = 2 \<and> arg \<noteq> None)"
  by (auto simp: cl_option_def split: if_splits option.splits)

function cl_loop :: "nat \<Rightarrow> string list \<Rightarrow> nat \<Rightarrow> 's proc \<Rightarrow> nat \<times> string list \<times> 's proc" where
  "cl_loop ac av i p = (if i < ac then
       (case cl_option (av ! i) (arg_behind ac av i) p of
          (Some n, p') \<Rightarrow> cl_loop (fst (removeArgs ac av i n)) (snd (removeArgs ac av i n)) i p'
        | (None, p') \<Rightarrow> cl_loop ac av (i + 1) p')
     else (ac, av, p))"
  by pat_completeness auto
termination
proof (relation "measure (\<lambda>(ac, av, i, p). ac - i)")
  fix ac :: nat and av :: "string list" and i :: nat and p p' :: "'s proc" and o' n
  assume i: "i < ac" and "(o', p') = cl_option (av ! i) (arg_behind ac av i) p" and "o' = Some n"
  then have "fst (cl_option (av ! i) (arg_behind ac av i) p) = Some n" by (metis fst_conv)
  from cl_option_removes [OF this] have "0 < n" by auto
  with i show "((fst (removeArgs ac av i n), snd (removeArgs ac av i n), i, p'), ac, av, i, p)
     \<in> measure (\<lambda>(ac, av, i, p). ac - i)" by (simp add: removeArgs_def)
qed auto

declare cl_loop.simps [simp del]

definition initFromCommandLine :: "nat \<Rightarrow> string list \<Rightarrow> 's proc \<Rightarrow> nat \<times> string list \<times> 's proc" where
  "initFromCommandLine ac av p = cl_loop ac av 1 p"

section \<open>The reference parser\<close>

text \<open>What each option means: how many arguments it takes, and the parameters of the
  device it sets.  An option whose argument is missing or wrong sets nothing.\<close>

definition option_table :: "string \<Rightarrow> string option \<Rightarrow> (nat \<times> (string \<times> any_val) list) option" where
  "option_table parm arg =
    (let outputs = [(''logOutput'', A_string ''cout''), (''errorOutput'', A_string ''cerr'')];
         int_arg = (\<lambda>nm f. case arg of Some n \<Rightarrow> Some (2, [(nm, A_int (f (atoi n)))]) | None \<Rightarrow> Some (1, []));
         stream_arg = (\<lambda>nm. case arg of
            Some dst \<Rightarrow> Some (2, if dst \<in> {''cout'', ''cerr''} then [(nm, A_string dst)] else [])
          | None \<Rightarrow> Some (1, []))
     in if parm = ''--osp:debug'' then Some (1, (''debug'', A_int 1) # outputs)
        else if parm = ''--osp:verbose'' then Some (1, (''logLevel'', A_int 1) # outputs)
        else if parm = ''--osp:vv'' then Some (1, (''logLevel'', A_int 2) # outputs)
        else if parm = ''--osp:loglevel'' then int_arg ''logLevel'' id
        else if parm = ''--osp:logoutput'' then stream_arg ''logOutput''
        else if parm = ''--osp:erroroutput'' then stream_arg ''errorOutput''
        else if parm \<in> {''--osp:numthreads'', ''--osp:num-threads''} then int_arg ''numThreads'' id
        else if parm \<in> {''--osp:setaffinity'', ''--osp:affinity''}
          then int_arg ''setAffinity'' (\<lambda>n. if n = 0 then 0 else 1)
        else None)"

text \<open>The arguments that are kept and the settings, in order.\<close>

function cl_walk :: "string list \<Rightarrow> string list \<times> (string \<times> any_val) list" where
  "cl_walk [] = ([], [])"
| "cl_walk (a # as) = (case option_table a (case as of [] \<Rightarrow> None | b # _ \<Rightarrow> Some b) of
      None \<Rightarrow> (a # fst (cl_walk as), snd (cl_walk as))
    | Some (n, kvs) \<Rightarrow> (fst (cl_walk (drop (n - 1) as)), kvs @ snd (cl_walk (drop (n - 1) as))))"
  by pat_completeness auto
termination by (relation "measure length") auto

definition set_on_device :: "(string \<times> any_val) list \<Rightarrow> 's device option \<Rightarrow> 's device option" where
  "set_on_device kvs = map_option (\<lambda>d. d\<lparr>dev_params := pl.set_all kvs (dev_params d)\<rparr>)"

lemma set_on_device_simps [simp]:
  "set_on_device [] c = c"
  "set_on_device (kv # kvs) c =
     set_on_device kvs (map_option (\<lambda>d. d\<lparr>dev_params := setParam (fst kv) (snd kv) (dev_params d)\<rparr>) c)"
  "set_on_device (kvs @ kvs') c = set_on_device kvs' (set_on_device kvs c)"
  by (cases c; simp add: set_on_device_def pl.set_all_def split_def)+

lemma current_device_setParam [simp]:
  "current (device_setParam nm v p) = set_on_device [(nm, v)] (current p)"
  "current (device_setParam_bool nm b p) = set_on_device [(nm, A_int (if b then 1 else 0))] (current p)"
  by (cases "current p"; simp add: device_setParam_def device_setParam_bool_def setParam_bool_def)+

lemma cl_option_table:
  "fst (cl_option parm arg p) = map_option fst (option_table parm arg)"
  "current (snd (cl_option parm arg p)) =
     set_on_device (case option_table parm arg of None \<Rightarrow> [] | Some (n, kvs) \<Rightarrow> kvs) (current p)"
  unfolding cl_option_def option_table_def Let_def
  by (cases arg; simp del: set_on_device_simps(2) add: set_on_device_simps(3) [symmetric])+

lemma cl_loop_walk:
  assumes "i \<le> ac" and "ac \<le> length av" and "cl_loop ac av i p = (ac', av', p')"
  shows "take ac' av' = take i av @ fst (cl_walk (drop i (take ac av))) \<and> ac' \<le> length av' \<and>
     current p' = set_on_device (snd (cl_walk (drop i (take ac av)))) (current p)"
  using assms
proof (induction ac av i p arbitrary: ac' av' p' rule: cl_loop.induct)
  case (1 ac av i p)
  show ?case
  proof (cases "i < ac")
    case False
    with 1 show ?thesis by (simp add: cl_loop.simps)
  next
    case True
    define as where "as = drop (Suc i) (take ac av)"
    have args: "drop i (take ac av) = av ! i # as"
      using True 1(4) by (simp add: as_def Cons_nth_drop_Suc [symmetric])
    have behind: "arg_behind ac av i = (case as of [] \<Rightarrow> None | b # _ \<Rightarrow> Some b)"
    proof (cases "Suc i < ac")
      case True
      then have "as = av ! Suc i # drop (Suc (Suc i)) (take ac av)"
        using 1(4) by (simp add: as_def Cons_nth_drop_Suc [symmetric])
      with True show ?thesis by (simp add: arg_behind_def)
    qed (simp add: arg_behind_def as_def)
    obtain o' q where o': "cl_option (av ! i) (arg_behind ac av i) p = (o', q)" by (metis prod.exhaust)
    note tab = cl_option_table [of "av ! i" "arg_behind ac av i" p, unfolded o' fst_conv snd_conv]
    show ?thesis
    proof (cases o')
      case None
      with 1(5) True o' have "cl_loop ac av (i + 1) q = (ac', av', p')" by (simp add: cl_loop.simps)
      from 1(1) [OF True o' [symmetric] None] True 1(4) this have
        "take ac' av' = take (Suc i) av @ fst (cl_walk as) \<and> ac' \<le> length av' \<and>
         current p' = set_on_device (snd (cl_walk as)) (current q)" by (simp add: as_def)
      moreover have "option_table (av ! i) (arg_behind ac av i) = None" using tab None by simp
      moreover have "take (Suc i) av = take i av @ [av ! i]"
        using True 1(4) by (simp add: take_Suc_conv_app_nth)
      ultimately show ?thesis using tab args by (simp add: behind)
    next
      case (Some n)
      then obtain kvs where kvs: "option_table (av ! i) (arg_behind ac av i) = Some (n, kvs)"
        using tab(1) by auto
      define ac1 where "ac1 = fst (removeArgs ac av i n)"
      define av1 where "av1 = snd (removeArgs ac av i n)"
      have n: "1 \<le> n" "i + n \<le> ac"
        using cl_option_removes [of "av ! i" "arg_behind ac av i" p n] o' Some True
        by (auto simp: arg_behind_def split: if_splits)
      have vis: "take ac1 av1 = take i av @ drop (n - 1) as"
        using removeArgs_visible [OF n(2) 1(4)] n(1) by (simp add: ac1_def av1_def as_def add.commute)
      have "ac1 = ac - n" by (simp add: ac1_def removeArgs_def)
      moreover have "length av1 = length av" by (simp add: av1_def)
      ultimately have len: "ac1 = ac - n" "length av1 = length av" by auto
      have i: "i \<le> ac1" "ac1 \<le> length av1" "i \<le> length av" using n len 1(4) by auto
      have "take i (take ac1 av1) = take i av" "drop i (take ac1 av1) = drop (n - 1) as"
        using i unfolding vis by simp_all
      moreover have "take i (take ac1 av1) = take i av1" using i by simp
      ultimately have parts: "take i av1 = take i av" "drop i (take ac1 av1) = drop (n - 1) as" by simp_all
      have "cl_loop ac1 av1 i q = (ac', av', p')"
        using 1(5) True o' Some by (simp add: cl_loop.simps [of ac av] ac1_def av1_def)
      from 1(2) [OF True o' [symmetric] Some, folded ac1_def av1_def, OF i(1,2) this] parts
      have "take ac' av' = take i av @ fst (cl_walk (drop (n - 1) as)) \<and> ac' \<le> length av' \<and>
         current p' = set_on_device (snd (cl_walk (drop (n - 1) as))) (current q)" by simp
      then show ?thesis using tab(2) kvs args by (simp add: behind)
    qed
  qed
qed

text \<open>C20 The command line.  \<open>initFromCommandLine\<close> works in place on the argument vector
  while it removes what it has recognised; it leaves the arguments that the reference
  parser keeps, in order and behind the program name, and the parameters of the
  current device are those from before overridden by the settings of the options,
  where the last setting of a parameter wins.\<close>

theorem command_line_parsed:
  assumes "1 \<le> ac" and "ac \<le> length av" and "current p = Some d" and "names_ok (dev_params d)"
    and "initFromCommandLine ac av p = (ac', av', p')"
  shows "take ac' av' = hd av # fst (cl_walk (tl (take ac av))) \<and>
     (\<exists>d'. current p' = Some d' \<and> map_of (dev_params d') =
        map_of (dev_params d) ++ (\<lambda>k. map_option Some (map_of (rev (snd (cl_walk (tl (take ac av))))) k)))"
proof -
  from assms have "cl_loop ac av 1 p = (ac', av', p')" by (simp add: initFromCommandLine_def)
  note walk = cl_loop_walk [OF assms(1,2) this]
  moreover have "take 1 av = [hd av]" using assms(1,2) by (cases av) auto
  moreover have "drop 1 (take ac av) = tl (take ac av)" by (simp add: drop_Suc)
  ultimately show ?thesis
    using assms(3,4) by (simp add: set_on_device_def pl.lookup_set_all)
qed

definition demo_proc :: "unit proc" where
  "demo_proc = \<lparr>current = Some (new_device ''default'' ()), logLevel = 0, printed = [], repo = [],
     device_registry = Map.empty, tasking_threads = None\<rparr>"

theorem command_line_parsed_witness:
  "take (fst (initFromCommandLine 6 [''app'', ''--osp:vv'', ''scene.sg'', ''--osp:loglevel'', ''7'', ''--osp:numthreads''] demo_proc))
     (fst (snd (initFromCommandLine 6 [''app'', ''--osp:vv'', ''scene.sg'', ''--osp:loglevel'', ''7'', ''--osp:numthreads''] demo_proc)))
   = [''app'', ''scene.sg'']"
proof -
  let ?av = "[''app'', ''--osp:vv'', ''scene.sg'', ''--osp:loglevel'', ''7'', ''--osp:numthreads'']"
  obtain ac' av' p' where eq: "initFromCommandLine 6 ?av demo_proc = (ac', av', p')" by (metis prod.exhaust)
  have "fst (cl_walk (tl (take 6 ?av))) = [''scene.sg'']" by code_simp
  with command_line_parsed [of 6 ?av demo_proc, OF _ _ _ _ eq] show ?thesis
    by (simp add: demo_proc_def new_device_def names_ok_def eq [unfolded demo_proc_def new_device_def])
qed

end
