(* ===== verification/StringUtils.thy ===== *)
theory StringUtils
  imports Prelude
begin

text \<open>
  The string helpers of \<open>ospcommon\<close>: \<open>utility/StringManip.h\<close>, the pseudo URLs of
  \<open>utility/PseudoURL.cpp\<close>, the file names of \<open>FileName.cpp\<close>, the argument lists of
  \<open>utility/ArgumentList.h\<close> and \<open>removeArgs\<close> of \<open>common.cpp\<close>.  The searches of
  \<open>std::string\<close> are defined first; \<open>None\<close> is \<open>npos\<close>.
\<close>

section \<open>Searching strings\<close>

definition find_first :: "(char \<Rightarrow> bool) \<Rightarrow> string \<Rightarrow> nat \<Rightarrow> nat option" where
  "find_first P s p =
     (let i = p + length (takeWhile (\<lambda>c. \<not> P c) (drop p s)) in if i < length s then Some i else None)"

definition find_last :: "(char \<Rightarrow> bool) \<Rightarrow> string \<Rightarrow> nat option" where
  "find_last P s =
     (let i = length (takeWhile (\<lambda>c. \<not> P c) (rev s)) in
      if i < length s then Some (length s - 1 - i) else None)"

fun find_str :: "string \<Rightarrow> string \<Rightarrow> nat option" where
  "find_str pat s = (if take (length pat) s = pat then Some 0 else
     (case s of [] \<Rightarrow> None | _ # t \<Rightarrow> map_option Suc (find_str pat t)))"

declare find_str.simps [simp del]

definition substr :: "string \<Rightarrow> nat \<Rightarrow> nat \<Rightarrow> string" where
  "substr s p n = take n (drop p s)"

lemma find_first_Some:
  "find_first P s p = Some i \<Longrightarrow>
     p \<le> i \<and> i < length s \<and> P (s ! i) \<and> (\<forall>j. p \<le> j \<and> j < i \<longrightarrow> \<not> P (s ! j))"
proof -
  let ?t = "takeWhile (\<lambda>c. \<not> P c) (drop p s)"
  assume "find_first P s p = Some i"
  then have i: "i = p + length ?t" "i < length s" by (auto simp: find_first_def Let_def split: if_splits)
  then have "length ?t < length (drop p s)" by simp
  from nth_length_takeWhile [OF this] i have "P (s ! i)" by simp
  moreover have "\<not> P (s ! j)" if j: "p \<le> j" "j < i" for j
  proof -
    from j i have *: "j - p < length ?t" by simp
    then have "\<not> P (?t ! (j - p))" by (auto dest!: nth_mem set_takeWhileD)
    with takeWhile_nth [OF *] j i show ?thesis by simp
  qed
  ultimately show ?thesis using i by simp
qed

lemma find_first_None: "find_first P s p = None \<longleftrightarrow> (\<forall>c\<in>set (drop p s). \<not> P c)"
proof -
  have "length (takeWhile (\<lambda>c. \<not> P c) xs) < length xs \<longleftrightarrow> (\<exists>c\<in>set xs. P c)" for xs
    by (induction xs) auto
  from this [of "drop p s"] have
    "p + length (takeWhile (\<lambda>c. \<not> P c) (drop p s)) < length s \<longleftrightarrow> (\<exists>c\<in>set (drop p s). P c)"
    by (cases "p \<le> length s") auto
  then show ?thesis by (simp add: find_first_def Let_def)
qed

lemma find_first_split:
  assumes "find_first P s p = Some i"
  shows "drop p s = take (i - p) (drop p s) @ s ! i # drop (Suc i) s"
    and "\<forall>c\<in>set (take (i - p) (drop p s)). \<not> P c" and "P (s ! i)"
proof -
  note i = find_first_Some [OF assms]
  then have "drop (i - p) (drop p s) = s ! i # drop (Suc i) s" by (simp add: Cons_nth_drop_Suc)
  with append_take_drop_id [of "i - p" "drop p s"]
  show "drop p s = take (i - p) (drop p s) @ s ! i # drop (Suc i) s" by simp
  show "\<forall>c\<in>set (take (i - p) (drop p s)). \<not> P c" using i by (auto simp: in_set_conv_nth)
  show "P (s ! i)" using i by simp
qed

lemma find_last_Some:
  assumes "find_last P s = Some i"
  shows "i < length s" and "P (s ! i)" and "\<forall>c\<in>set (drop (Suc i) s). \<not> P c"
proof -
  let ?n = "length (takeWhile (\<lambda>c. \<not> P c) (rev s))"
  from assms have i: "?n < length s" "i = length s - 1 - ?n"
    by (auto simp: find_last_def Let_def split: if_splits)
  then show "i < length s" by simp
  have "\<not> \<not> P (rev s ! ?n)" using nth_length_takeWhile [of "\<lambda>c. \<not> P c" "rev s"] i(1) by simp
  then show "P (s ! i)" using i by (simp add: rev_nth)
  have "takeWhile (\<lambda>c. \<not> P c) (rev s) = take ?n (rev s)" by (rule takeWhile_eq_take)
  also have "\<dots> = rev (drop (length s - ?n) s)" by (simp add: take_rev)
  also have "length s - ?n = Suc i" using i by simp
  finally have "set (drop (Suc i) s) = set (takeWhile (\<lambda>c. \<not> P c) (rev s))" by simp
  then show "\<forall>c\<in>set (drop (Suc i) s). \<not> P c" by (auto dest: set_takeWhileD)
qed

lemma find_last_None: "find_last P s = None \<longleftrightarrow> (\<forall>c\<in>set s. \<not> P c)"
proof -
  have "length (takeWhile (\<lambda>c. \<not> P c) xs) < length xs \<longleftrightarrow> (\<exists>c\<in>set xs. P c)" for xs
    by (induction xs) auto
  from this [of "rev s"] show ?thesis by (auto simp: find_last_def Let_def)
qed

lemma find_last_append:
  "P c \<Longrightarrow> \<forall>x\<in>set t. \<not> P x \<Longrightarrow> find_last P (s @ c # t) = Some (length s)"
proof -
  assume "P c" "\<forall>x\<in>set t. \<not> P x"
  then have "takeWhile (\<lambda>c. \<not> P c) (rev (s @ c # t)) = rev t"
    by (subst rev_append, simp only: rev.simps append_assoc) (subst takeWhile_append2, auto)
  then show ?thesis by (simp add: find_last_def)
qed

lemma find_first_append:
  "P c \<Longrightarrow> \<forall>x\<in>set s. \<not> P x \<Longrightarrow> find_first P (s @ c # t) 0 = Some (length s)"
  by (simp add: find_first_def takeWhile_append2)

lemma find_str_first:
  "\<forall>i<n. take (length pat) (drop i s) \<noteq> pat \<Longrightarrow> take (length pat) (drop n s) = pat \<Longrightarrow>
     n \<le> length s \<Longrightarrow> find_str pat s = Some n"
proof (induction n arbitrary: s)
  case 0
  then show ?case by (simp add: find_str.simps)
next
  case (Suc n)
  then obtain c t where s: "s = c # t" by (cases s) auto
  have "take (length pat) s \<noteq> pat" using Suc.prems(1) by force
  moreover have "find_str pat t = Some n"
    using Suc.prems s by (intro Suc.IH) force+
  ultimately show ?case by (subst find_str.simps) (simp add: s)
qed

lemma find_str_absent:
  "\<forall>i\<le>length s. take (length pat) (drop i s) \<noteq> pat \<Longrightarrow> find_str pat s = None"
proof (induction s)
  case Nil
  then show ?case by (subst find_str.simps) simp
next
  case (Cons c s)
  have "take (length pat) (c # s) \<noteq> pat" using Cons.prems by force
  moreover have "find_str pat s = None" using Cons.prems by (intro Cons.IH) force
  ultimately show ?case by (subst find_str.simps) simp
qed

section \<open>Splitting\<close>

text \<open>The fields of a string between its delimiters, empty ones included: the
  reference the splitting routines are compared with.\<close>

fun fields_of :: "(char \<Rightarrow> bool) \<Rightarrow> string \<Rightarrow> string list" where
  "fields_of P [] = [[]]"
| "fields_of P (c # s) = (if P c then [] # fields_of P s else (c # hd (fields_of P s)) # tl (fields_of P s))"

lemma fields_not_Nil [simp]: "fields_of P s \<noteq> []"
  by (cases s) auto

lemma fields_none: "\<forall>c\<in>set s. \<not> P c \<Longrightarrow> fields_of P s = [s]"
  by (induction s) auto

lemma fields_append: "P c \<Longrightarrow> \<forall>x\<in>set u. \<not> P x \<Longrightarrow> fields_of P (u @ c # v) = u # fields_of P v"
  by (induction u) auto

lemma fields_find:
  "fields_of P (drop p s) = (case find_first P s p of
      None \<Rightarrow> [drop p s]
    | Some i \<Rightarrow> take (i - p) (drop p s) # fields_of P (drop (Suc i) s))"
proof (cases "find_first P s p")
  case None
  then have "fields_of P (drop p s) = [drop p s]" by (intro fields_none) (simp add: find_first_None)
  with None show ?thesis by simp
next
  case (Some i)
  note sp = find_first_split [OF Some]
  have "fields_of P (drop p s) = take (i - p) (drop p s) # fields_of P (drop (Suc i) s)"
    by (subst sp(1)) (rule fields_append [OF sp(3,2)])
  with Some show ?thesis by simp
qed

fun longestBeginningMatch :: "string \<Rightarrow> string \<Rightarrow> string" where
  "longestBeginningMatch (a # as) (b # bs) = (if a = b then a # longestBeginningMatch as bs else [])"
| "longestBeginningMatch _ _ = []"

definition beginsWith :: "string \<Rightarrow> string \<Rightarrow> bool" where
  "beginsWith inputString startsWithString \<longleftrightarrow>
     length (longestBeginningMatch inputString startsWithString) = length startsWithString"

text \<open>The loop over \<open>std::getline\<close>: it stops when no character is left.\<close>

function split_char :: "char \<Rightarrow> string \<Rightarrow> string list" where
  "split_char d s = (if s = [] then [] else
     (let item = takeWhile (\<lambda>c. c \<noteq> d) s in item # split_char d (drop (Suc (length item)) s)))"
  by pat_completeness auto
termination by (relation "measure (\<lambda>(d, s). length s)") auto

declare split_char.simps [simp del]

text \<open>When \<open>find_first_of\<close> returns \<open>npos\<close>, the next search from there fails.\<close>

function split_set :: "string \<Rightarrow> string \<Rightarrow> nat \<Rightarrow> string list" where
  "split_set delim s pos = (case find_first (\<lambda>c. c \<notin> set delim) s pos of
      None \<Rightarrow> []
    | Some b \<Rightarrow> (case find_first (\<lambda>c. c \<in> set delim) s b of
        None \<Rightarrow> [drop b s]
      | Some e \<Rightarrow> substr s b (e - b) # split_set delim s e))"
  by pat_completeness auto
termination
proof (relation "measure (\<lambda>(delim, s, pos). length s - pos)")
  fix delim s pos b e
  assume b: "find_first (\<lambda>c. c \<notin> set delim) s pos = Some b"
    and e: "find_first (\<lambda>c. c \<in> set delim) s b = Some e"
  from find_first_Some [OF b] find_first_Some [OF e] have "pos \<le> b" "b \<le> e" "e \<noteq> b" "e < length s"
    by auto
  then show "((delim, s, e), delim, s, pos) \<in> measure (\<lambda>(delim, s, pos). length s - pos)" by simp
qed simp

declare split_set.simps [simp del]

function tokenize_loop :: "string \<Rightarrow> char \<Rightarrow> nat \<Rightarrow> string list \<Rightarrow> string list" where
  "tokenize_loop str delim prev tokens = (case find_first (\<lambda>c. c = delim) str prev of
      Some fnd \<Rightarrow> tokenize_loop str delim (fnd + 1)
        (if fnd - prev > 1 then tokens @ [substr str prev (fnd - prev)] else tokens)
    | None \<Rightarrow> if length str - prev > 1 then tokens @ [drop prev str] else tokens)"
  by pat_completeness auto
termination
  by (relation "measure (\<lambda>(str, delim, prev, tokens). length str - prev)")
     (auto dest: find_first_Some)

declare tokenize_loop.simps [simp del]

definition tokenize :: "string \<Rightarrow> char \<Rightarrow> string list \<Rightarrow> string list" where
  "tokenize str delim tokens = tokenize_loop str delim 0 tokens"

lemma beginsWith_prefix: "beginsWith s t \<longleftrightarrow> (\<exists>u. s = t @ u)"
proof (induction s t rule: longestBeginningMatch.induct)
  case (1 a as b bs)
  then show ?case by (auto simp: beginsWith_def)
qed (auto simp: beginsWith_def)

lemma takeWhile_field: "takeWhile (\<lambda>c. \<not> P c) s = hd (fields_of P s)"
  by (induction s) auto

lemma drop_field:
  "tl (fields_of P s) = (if \<forall>c\<in>set s. \<not> P c then []
     else fields_of P (drop (Suc (length (takeWhile (\<lambda>c. \<not> P c) s))) s))"
  by (induction s) auto

lemma split_char_fields:
  "split_char d s = (let fs = fields_of (\<lambda>c. c = d) s in if last fs = [] then butlast fs else fs)"
proof (induction d s rule: split_char.induct)
  case (1 d s)
  let ?P = "\<lambda>c. c = d"
  show ?case
  proof (cases "s = []")
    case True
    then show ?thesis by (simp add: split_char.simps)
  next
    case False
    let ?item = "takeWhile (\<lambda>c. c \<noteq> d) s"
    have unf: "split_char d s = ?item # split_char d (drop (Suc (length ?item)) s)"
      using False by (simp add: split_char.simps Let_def)
    have fs: "fields_of ?P s = ?item # tl (fields_of ?P s)"
      using takeWhile_field [of ?P s] by simp
    show ?thesis
    proof (cases "d \<in> set s")
      case True
      then have some: "(\<forall>c\<in>set s. \<not> ?P c) = False" by blast
      have tl: "tl (fields_of ?P s) = fields_of ?P (drop (Suc (length ?item)) s)"
        by (subst drop_field) (simp only: some if_False)
      have "fields_of ?P s = ?item # fields_of ?P (drop (Suc (length ?item)) s)"
        by (rule fs [unfolded tl])
      with 1 [OF False refl] unf show ?thesis by (simp add: Let_def)
    next
      case no: False
      have it: "?item = s" using no by (subst takeWhile_eq_all_conv) auto
      have "fields_of ?P s = [s]" using no by (intro fields_none) auto
      moreover have "split_char d [] = []" by (simp add: split_char.simps)
      ultimately show ?thesis using unf [unfolded it] False by simp
    qed
  qed
qed

lemma split_set_fields:
  "split_set delim s pos = filter (\<lambda>f. f \<noteq> []) (fields_of (\<lambda>c. c \<in> set delim) (drop pos s))"
proof (induction delim s pos rule: split_set.induct)
  case (1 delim s pos)
  let ?P = "\<lambda>c. c \<in> set delim"
  have skip: "filter (\<lambda>f. f \<noteq> []) (fields_of ?P (u @ v)) = filter (\<lambda>f. f \<noteq> []) (fields_of ?P v)"
    if "\<forall>c\<in>set u. ?P c" for u v
    using that by (induction u) auto
  show ?case
  proof (cases "find_first (\<lambda>c. \<not> ?P c) s pos")
    case None
    then have "\<forall>c\<in>set (drop pos s). ?P c" by (simp add: find_first_None)
    from skip [OF this, of "[]"] None show ?thesis by (simp add: split_set.simps)
  next
    case (Some b)
    note b = find_first_Some [OF Some]
    have eq: "drop pos s = take (b - pos) (drop pos s) @ drop b s"
      using find_first_split(1) [OF Some] b by (simp add: Cons_nth_drop_Suc)
    have "filter (\<lambda>f. f \<noteq> []) (fields_of ?P (drop pos s)) = filter (\<lambda>f. f \<noteq> []) (fields_of ?P (drop b s))"
      by (subst eq, rule skip) (use find_first_split(2) [OF Some] in simp)
    also have "\<dots> = split_set delim s pos"
    proof (cases "find_first ?P s b")
      case None
      with Some fields_find [of ?P b s] b show ?thesis by (simp add: split_set.simps)
    next
      case e: (Some e)
      note e' = find_first_Some [OF e]
      have "e \<noteq> b" using b e' by auto
      have IH: "split_set delim s e = filter (\<lambda>f. f \<noteq> []) (fields_of ?P (drop e s))"
        by (rule 1 [OF Some e])
      have "fields_of ?P (drop e s) = [] # fields_of ?P (drop (Suc e) s)"
        using fields_find [of ?P e s] e' by (simp add: find_first_def Cons_nth_drop_Suc [symmetric])
      then show ?thesis
        using fields_find [of ?P b s] e e' \<open>e \<noteq> b\<close> b
        by (simp add: split_set.simps [of delim s pos] Some IH substr_def)
    qed
    finally show ?thesis by simp
  qed
qed

lemma tokenize_loop_fields:
  "tokenize_loop str delim prev tokens =
     tokens @ filter (\<lambda>f. 1 < length f) (fields_of (\<lambda>c. c = delim) (drop prev str))"
proof (induction str delim prev tokens rule: tokenize_loop.induct)
  case (1 str delim prev tokens)
  show ?case
  proof (cases "find_first (\<lambda>c. c = delim) str prev")
    case None
    then show ?thesis by (subst tokenize_loop.simps) (simp add: fields_find)
  next
    case (Some fnd)
    note f = find_first_Some [OF Some]
    from f have "prev \<le> fnd" "fnd < length str" by simp_all
    then have len: "length (take (fnd - prev) (drop prev str)) = fnd - prev" by simp
    from 1 [OF Some] show ?thesis
      by (subst tokenize_loop.simps, subst fields_find) (simp add: Some substr_def len del: length_take)
  qed
qed

end
