(* ===== verification/ApiDevice.thy ===== *)
theory ApiDevice
  imports CommandLine StringUtils
begin

text \<open>
  Starting up: \<open>Device::createDevice\<close> and \<open>Device::commit\<close> (\<open>ospray/api/Device.cpp\<close>),
  the exception barrier of the API (\<open>OSPRAY_CATCH_BEGIN\<close> and \<open>OSPRAY_CATCH_END\<close>) and
  \<open>ospInit\<close> with the options it looks for itself (\<open>ospray/api/API.cpp\<close>, theory \<open>ApiInit\<close>).

  The record \<open>host\<close> holds what the program asks its surroundings: the dynamic linker,
  the environment, the process id and the features of the CPU.  \<open>fresh\<close> gives the
  state a newly created device of a type starts with.  \<open>Device::commit\<close> is virtual; the
  model here is the implementation of the base class, which the classes of devices call
  first (theory \<open>DeviceStart\<close>).
\<close>

record host =
  ld :: linker
  getenv :: "string \<Rightarrow> string option"
  has_sse41 :: bool
  pid_string :: string

section \<open>Environment variables and parameters\<close>

definition getEnvVar_int :: "host \<Rightarrow> string \<Rightarrow> i32 option" where
  "getEnvVar_int h var = map_option atoi (getenv h var)"

definition getEnvVar_string :: "host \<Rightarrow> string \<Rightarrow> string option" where
  "getEnvVar_string h var = getenv h var"

definition value_or :: "'a option \<Rightarrow> 'a \<Rightarrow> 'a" where
  "value_or v default_value = (case v of Some x \<Rightarrow> x | None \<Rightarrow> default_value)"

definition param_int :: "string \<Rightarrow> i32 \<Rightarrow> params \<Rightarrow> i32 res" where
  "param_int nm d ps = bind_res (getParam TY_int nm (A_int d) ps) (\<lambda>v.
     Inr (case v of A_int i \<Rightarrow> i | _ \<Rightarrow> d))"

definition param_string :: "string \<Rightarrow> string \<Rightarrow> params \<Rightarrow> string res" where
  "param_string nm d ps = bind_res (getParam TY_string nm (A_string d) ps) (\<lambda>v.
     Inr (case v of A_string s \<Rightarrow> s | _ \<Rightarrow> d))"

lemma getParam_Inr: "\<exists>v. getParam t nm d ps = Inr v"
  by (auto simp: getParam_def any_get_def any_is_def split: option.split)

text \<open>Reading a parameter of a device never throws.\<close>

lemma params_read:
  "\<exists>b. getParam_bool nm e ps = Inr b" "\<exists>i. param_int nm k ps = Inr i" "\<exists>s. param_string nm l ps = Inr s"
  using getParam_Inr [of TY_int nm "A_int (if e then 1 else 0)" ps] getParam_Inr [of TY_int nm "A_int k" ps]
    getParam_Inr [of TY_string nm "A_string l" ps]
  by (auto simp: getParam_bool_def param_int_def param_string_def)

section \<open>Committing a device\<close>

definition select_sink :: "string \<Rightarrow> sink \<Rightarrow> sink" where
  "select_sink dst old =
     (if dst = ''cout'' then To_cout else if dst = ''cerr'' then To_cerr
      else if dst = ''none'' then To_nothing else old)"

definition commit_fields :: "host \<Rightarrow> 's device \<Rightarrow> 's proc \<Rightarrow> ('s device \<times> 's proc) res" where
  "commit_fields h d p =
    (let ps = dev_params d in
     bind_res (getParam_bool ''debug'' False ps) (\<lambda>debug_p.
     bind_res (getParam_bool ''traceApi'' False ps) (\<lambda>trace_p.
     bind_res (param_int ''logLevel'' 0 ps) (\<lambda>level_p.
     bind_res (param_int ''numThreads'' (- 1) ps) (\<lambda>threads_p.
     bind_res (param_string ''logOutput'' [] ps) (\<lambda>log_p.
     bind_res (param_string ''errorOutput'' [] ps) (\<lambda>error_p.
     bind_res (param_int ''setAffinity'' (value_or (getEnvVar_int h ''OSPRAY_SET_AFFINITY'') AUTO_DETECT) ps) (\<lambda>affinity.
     let debug = (case getEnvVar_int h ''OSPRAY_DEBUG'' of Some v \<Rightarrow> v \<noteq> 0 | None \<Rightarrow> debug_p);
         traceAPI = (case getEnvVar_int h ''OSPRAY_TRACE_API'' of Some v \<Rightarrow> v \<noteq> 0 | None \<Rightarrow> trace_p);
         trace = (if traceAPI \<and> \<not> apiTraceEnabled d then To_trace_file
                  else if \<not> traceAPI then To_nothing else trace_fcn d);
         level = value_or (getEnvVar_int h ''OSPRAY_LOG_LEVEL'') level_p;
         threads = (if debug then 1 else value_or (getEnvVar_int h ''OSPRAY_THREADS'') threads_p);
         logdst = value_or (getEnvVar_string h ''OSPRAY_LOG_OUTPUT'') log_p;
         errdst = value_or (getEnvVar_string h ''OSPRAY_ERROR_OUTPUT'') error_p
     in Inr (d\<lparr>debugMode := debug, trace_fcn := trace, apiTraceEnabled := traceAPI,
           numThreads := threads,
           msg_fcn := select_sink logdst (msg_fcn d),
           error_fcn := select_sink errdst (error_fcn d),
           threadAffinity := affinity,
           committed := True\<rparr>,
         p\<lparr>logLevel := (if debug then 2 else level), tasking_threads := Some threads\<rparr>)))))))))"

lemma commit_fields_returns: "\<exists>d' p'. commit_fields h d p = Inr (d', p')"
proof -
  obtain b1 b2 where "getParam_bool ''debug'' False (dev_params d) = Inr b1"
    "getParam_bool ''traceApi'' False (dev_params d) = Inr b2" by (metis params_read(1))
  moreover obtain i1 i2 i3 where "param_int ''logLevel'' 0 (dev_params d) = Inr i1"
    "param_int ''numThreads'' (- 1) (dev_params d) = Inr i2"
    "param_int ''setAffinity'' (value_or (getEnvVar_int h ''OSPRAY_SET_AFFINITY'') AUTO_DETECT) (dev_params d) = Inr i3"
    by (metis params_read(2))
  moreover obtain s1 s2 where "param_string ''logOutput'' [] (dev_params d) = Inr s1"
    "param_string ''errorOutput'' [] (dev_params d) = Inr s2" by (metis params_read(3))
  ultimately show ?thesis by (simp add: commit_fields_def Let_def)
qed

lemma commit_fields_commits:
  assumes "commit_fields h d p = Inr (d', p')"
  shows "committed d'" "dev_kind d' = dev_kind d" "dev_params d' = dev_params d" "dev_state d' = dev_state d"
    "current p' = current p"
  using assms by (auto simp: commit_fields_def Let_def bind_res_eq_Inr)

definition unsupported_cpu :: "'s proc \<Rightarrow> 's proc" where
  "unsupported_cpu = handleError OSP_UNSUPPORTED_CPU ''OSPRay only runs on CPUs that support at least SSE4.1''"

text \<open>The device that is committed is the current one, or another one.  A parameter
  that cannot be read would end the call in the middle; \<open>commit_fields_returns\<close>
  shows that this does not happen.\<close>

definition Device_commit_current :: "host \<Rightarrow> 's proc \<Rightarrow> unit res \<times> 's proc" where
  "Device_commit_current h p =
     (if \<not> has_sse41 h then (Inr (), unsupported_cpu p)
      else (case current p of
              None \<Rightarrow> (Inl Undefined_behaviour, p)
            | Some d \<Rightarrow> (case commit_fields h d p of
                Inl e \<Rightarrow> (Inl e, p)
              | Inr (d', p') \<Rightarrow> (Inr (), p'\<lparr>current := Some d'\<rparr>))))"

definition Device_commit_other :: "host \<Rightarrow> 's device \<Rightarrow> 's proc \<Rightarrow> unit res \<times> 's device \<times> 's proc" where
  "Device_commit_other h d p =
     (if \<not> has_sse41 h then (Inr (), d, unsupported_cpu p)
      else (case commit_fields h d p of
          Inl e \<Rightarrow> (Inl e, d, p)
        | Inr (d', p') \<Rightarrow> (Inr (), d', p')))"

fun digits_of :: "nat \<Rightarrow> string" where
  "digits_of n = (if n < 10 then [char_of (48 + n)] else digits_of (n div 10) @ [char_of (48 + n mod 10)])"

declare digits_of.simps [simp del]

definition generateEmbreeDeviceCfg :: "'s device \<Rightarrow> string" where
  "generateEmbreeDeviceCfg d =
     (if debugMode d then '' threads=1,verbose=2''
      else if sint (numThreads d) > 0 then '' threads='' @ digits_of (nat (sint (numThreads d))) else []) @
     (if threadAffinity d = AFFINITIZE then '',set_affinity=1''
      else if threadAffinity d = DEAFFINITIZE then '',set_affinity=0'' else [])"

text \<open>A device parameter, seen through the map that the parameter list implements.\<close>

definition int_param :: "'s device \<Rightarrow> string \<Rightarrow> i32 option" where
  "int_param d nm = (case map_of (dev_params d) nm of Some (Some (A_int i)) \<Rightarrow> Some i | _ \<Rightarrow> None)"

lemma param_int_map_of:
  "names_ok (dev_params d) \<Longrightarrow> param_int nm v (dev_params d) = Inr (value_or (int_param d nm) v)"
  by (auto simp: param_int_def getParam_map_of int_param_def value_or_def
      split: option.splits any_val.splits)

lemma getParam_bool_map_of:
  "names_ok (dev_params d) \<Longrightarrow> getParam_bool nm False (dev_params d) = Inr (value_or (int_param d nm) 0 \<noteq> 0)"
  by (auto simp: getParam_bool_def getParam_map_of int_param_def value_or_def
      split: option.splits any_val.splits)

text \<open>C40 Where a committed device takes its settings from.  The debug mode, the log level
  and the number of threads come from the environment variable, else from the parameter,
  else from the default, and debug mode forces level 2 and one thread.  For the thread
  affinity it is the other way round: a parameter overrides the environment.\<close>

theorem commit_settings:
  assumes "names_ok (dev_params d)" and "current p = Some d" and "has_sse41 h"
    and "Device_commit_current h p = (r, p')"
  shows "r = Inr () \<and> (\<exists>d'. current p' = Some d' \<and> committed d' \<and> dev_params d' = dev_params d \<and>
     (debugMode d' \<longleftrightarrow> value_or (getEnvVar_int h ''OSPRAY_DEBUG'') (value_or (int_param d ''debug'') 0) \<noteq> 0) \<and>
     logLevel p' = (if debugMode d' then 2
        else value_or (getEnvVar_int h ''OSPRAY_LOG_LEVEL'') (value_or (int_param d ''logLevel'') 0)) \<and>
     numThreads d' = (if debugMode d' then 1
        else value_or (getEnvVar_int h ''OSPRAY_THREADS'') (value_or (int_param d ''numThreads'') (- 1))) \<and>
     tasking_threads p' = Some (numThreads d') \<and>
     threadAffinity d' =
        value_or (int_param d ''setAffinity'') (value_or (getEnvVar_int h ''OSPRAY_SET_AFFINITY'') AUTO_DETECT))"
proof -
  obtain d' p1 where cf: "commit_fields h d p = Inr (d', p1)" using commit_fields_returns by blast
  with assms have p': "r = Inr ()" "p' = p1\<lparr>current := Some d'\<rparr>" by (simp_all add: Device_commit_current_def)
  note pars = param_int_map_of [OF assms(1)] getParam_bool_map_of [OF assms(1)]
  obtain s1 s2 where strings: "param_string ''logOutput'' [] (dev_params d) = Inr s1"
    "param_string ''errorOutput'' [] (dev_params d) = Inr s2" by (metis params_read(3))
  note cf = cf [unfolded commit_fields_def Let_def pars strings bind_res_simps, symmetric]
  from cf have "debugMode d' \<longleftrightarrow> value_or (getEnvVar_int h ''OSPRAY_DEBUG'') (value_or (int_param d ''debug'') 0) \<noteq> 0"
    by (cases "getEnvVar_int h ''OSPRAY_DEBUG''") (simp_all add: value_or_def)
  moreover from cf have "committed d'" "dev_params d' = dev_params d"
    "threadAffinity d' = value_or (int_param d ''setAffinity'') (value_or (getEnvVar_int h ''OSPRAY_SET_AFFINITY'') AUTO_DETECT)"
    by simp_all
  moreover from cf have "logLevel p1 = (if debugMode d' then 2
        else value_or (getEnvVar_int h ''OSPRAY_LOG_LEVEL'') (value_or (int_param d ''logLevel'') 0))"
    "numThreads d' = (if debugMode d' then 1
        else value_or (getEnvVar_int h ''OSPRAY_THREADS'') (value_or (int_param d ''numThreads'') (- 1)))"
    "tasking_threads p1 = Some (numThreads d')"
    by simp_all
  ultimately show ?thesis unfolding p' by simp
qed

definition demo_host :: host where
  "demo_host = \<lparr>ld = demo_linker [], getenv = [''OSPRAY_THREADS'' \<mapsto> ''8'', ''OSPRAY_SET_AFFINITY'' \<mapsto> ''1''],
     has_sse41 = True, pid_string = ''(pid 1)''\<rparr>"

definition tuned_device :: "unit device" where
  "tuned_device = (new_device ''default'' ())\<lparr>dev_params :=
      [(''numThreads'', Some (A_int 2)), (''setAffinity'', Some (A_int 0))]\<rparr>"

definition tuned_proc :: "unit proc" where
  "tuned_proc = \<lparr>current = Some tuned_device, logLevel = 0, printed = [], repo = [],
     device_registry = Map.empty, tasking_threads = None\<rparr>"

theorem commit_settings_witness:
  "map_option (\<lambda>d. (numThreads d, threadAffinity d)) (current (snd (Device_commit_current demo_host tuned_proc))) = Some (8, 0)"
proof -
  have e: "getEnvVar_int demo_host ''OSPRAY_THREADS'' = Some 8" "getEnvVar_int demo_host ''OSPRAY_DEBUG'' = None"
    "getEnvVar_int demo_host ''OSPRAY_SET_AFFINITY'' = Some 1"
    by code_simp+
  have q: "int_param tuned_device ''debug'' = None" "int_param tuned_device ''setAffinity'' = Some 0"
    by code_simp+
  have "names_ok (dev_params tuned_device)" "current tuned_proc = Some tuned_device" "has_sse41 demo_host"
    by (simp_all add: tuned_device_def tuned_proc_def names_ok_def demo_host_def)
  from commit_settings [OF this prod.collapse [symmetric]] show ?thesis
    unfolding e q by (auto simp: value_or_def)
qed

end
