(* ===== verification/DeviceStart.thy ===== *)
theory DeviceStart
  imports ApiDevice
begin

text \<open>
  \<open>commit\<close> is a virtual function: what the classes of devices do when they are
  committed for the first time (\<open>ospray/api/ISPCDevice.cpp\<close>,
  \<open>modules/mpi/MPIOffloadDevice.cpp\<close>, \<open>modules/mpi/MPIDistributedDevice.cpp\<close>), which
  is the only time \<open>ospInit\<close> does it.

  The offload device sets up the groups of MPI processes, and a process that becomes a
  worker stays in \<open>runWorker\<close>; a process that launches the workers by \<open>fork\<close> ends in
  \<open>exit\<close>.  A commit is therefore an option: \<open>None\<close> when the call does not come back.

  The record \<open>services\<close> holds what is asked of Embree and MPI: whether an Embree device can
  be created, what the MPI calls of each part of the set-up answer (an error, or the rank and
  the size of the group \<open>world\<close> after them), and on which side of the \<open>fork\<close> the process is.
  The loop of a worker can only be left by an exception.  The streams and the load balancer
  that a device sets up at the end are state of its own (\<open>Offload_commit_device\<close> models that
  part of the offload device).  Status messages about MPI are left out.
\<close>

section \<open>Exceptions\<close>

text \<open>\<open>what()\<close> of an exception; a failed assertion and undefined behaviour are none.\<close>

fun what :: "cxx_error \<Rightarrow> string option" where
  "what (Runtime_error m) = Some m"
| "what Out_of_range = Some ''out_of_range''"
| "what Disconnect = Some ''Disconnect''"
| "what Assertion_failed = None"
| "what Undefined_behaviour = None"

definition caught :: "'a res \<Rightarrow> bool" where
  "caught r \<longleftrightarrow> (case r of Inl e \<Rightarrow> what e \<noteq> None | Inr _ \<Rightarrow> True)"

lemma caught_simps [simp]: "caught (Inr x)" "caught (Inl e) \<longleftrightarrow> what e \<noteq> None"
  by (simp_all add: caught_def)

section \<open>What the devices ask for\<close>

datatype mpi_part = Init_MPI | Set_up_master | Set_up_worker | Launch_workers | Accept_workers | Connect_to_master

record 's services =
  embree_ready :: bool
  embree_error :: "string \<Rightarrow> bool"
  mpi_calls :: "mpi_part \<Rightarrow> (int \<times> int) res"
  port_name :: string
  forked_parent :: bool
  worker_loop :: "'s proc \<Rightarrow> (cxx_error \<times> 's proc) option"
  offload_start :: "'s device \<Rightarrow> 's res"
  distributed_start :: "'s device \<Rightarrow> 's res"
  module_commit :: "'s device \<Rightarrow> 's proc \<Rightarrow> (unit res \<times> 's proc) option"

section \<open>The local device\<close>

definition start_embree :: "'s services \<Rightarrow> 's proc \<Rightarrow> unit res" where
  "start_embree S p = (case current p of
      None \<Rightarrow> Inl Undefined_behaviour
    | Some d \<Rightarrow> if embree_error S (generateEmbreeDeviceCfg d) then Inl Assertion_failed else Inr ())"

definition ISPCDevice_commit :: "'s services \<Rightarrow> host \<Rightarrow> 's proc \<Rightarrow> unit res \<times> 's proc" where
  "ISPCDevice_commit S h p = (case Device_commit_current h p of
      (Inl e, p1) \<Rightarrow> (Inl e, p1)
    | (Inr _, p1) \<Rightarrow> (if embree_ready S then Inr () else start_embree S p1, p1))"

section \<open>The offload device\<close>

text \<open>How the set-up of the MPI groups ends: with the new rank and nranks of \<open>world\<close>, with
  an exception, or not at all.\<close>

definition masterRank :: int where "masterRank = 0"

definition runWorker :: "'s services \<Rightarrow> 's proc \<Rightarrow> ((int \<times> int) res \<times> 's proc) option" where
  "runWorker S p = (case worker_loop S p of None \<Rightarrow> None | Some (e, p') \<Rightarrow> Some (Inl e, p'))"

definition createMPI_RanksBecomeWorkers :: "'s services \<Rightarrow> 's proc \<Rightarrow> ((int \<times> int) res \<times> 's proc) option" where
  "createMPI_RanksBecomeWorkers S p = (case mpi_calls S Init_MPI of
      Inl e \<Rightarrow> Some (Inl e, p)
    | Inr (rank, nranks) \<Rightarrow>
        if nranks \<le> 1 then Some (Inl (Runtime_error ''No MPI workers found.''), p)
        else if rank = masterRank then
          (case mpi_calls S Set_up_master of Inl e \<Rightarrow> Some (Inl e, p) | Inr w \<Rightarrow> Some (Inr (rank, nranks), p))
        else
          (case mpi_calls S Set_up_worker of Inl e \<Rightarrow> Some (Inl e, p) | Inr w \<Rightarrow> runWorker S p))"

definition createMPI_ListenForWorkers :: "'s services \<Rightarrow> 's proc \<Rightarrow> ((int \<times> int) res \<times> 's proc) option" where
  "createMPI_ListenForWorkers S p = (case mpi_calls S Init_MPI of
      Inl e \<Rightarrow> Some (Inl e, p)
    | Inr (rank, nranks) \<Rightarrow>
        if rank \<noteq> masterRank then
          Some (Inl (Runtime_error ''--osp:mpi-listen only makes sense with a single rank...''), p)
        else Some (mpi_calls S Accept_workers, p))"

definition createMPI_connectToListener :: "'s services \<Rightarrow> 's proc \<Rightarrow> ((int \<times> int) res \<times> 's proc) option" where
  "createMPI_connectToListener S p = (case mpi_calls S Init_MPI of
      Inl e \<Rightarrow> Some (Inl e, p)
    | Inr _ \<Rightarrow> (case mpi_calls S Connect_to_master of Inl e \<Rightarrow> Some (Inl e, p) | Inr w \<Rightarrow> runWorker S p))"

text \<open>The command line for the shell is printed into an array of 10000 characters.\<close>

definition command_fits :: "'s services \<Rightarrow> string \<Rightarrow> bool" where
  "command_fits S launchCommand \<longleftrightarrow> length launchCommand + 1 + length (port_name S) < 10000"

definition createMPI_LaunchWorkerGroup ::
  "'s services \<Rightarrow> string \<Rightarrow> 's proc \<Rightarrow> ((int \<times> int) res \<times> 's proc) option" where
  "createMPI_LaunchWorkerGroup S launchCommand p = (case mpi_calls S Init_MPI of
      Inl e \<Rightarrow> Some (Inl e, p)
    | Inr (rank, nranks) \<Rightarrow>
        if (rank = 0 \<or> nranks = - 1) \<and> \<not> command_fits S launchCommand then Some (Inl Undefined_behaviour, p)
        else if (rank = 0 \<or> nranks = - 1) \<and> forked_parent S then None
        else (case mpi_calls S Launch_workers of Inl e \<Rightarrow> Some (Inl e, p) | Inr w \<Rightarrow> Some (Inr (rank, nranks), p)))"

definition connect_mpi :: "'s services \<Rightarrow> params \<Rightarrow> 's proc \<Rightarrow> ((int \<times> int) res \<times> 's proc) option" where
  "connect_mpi S ps p = (case param_string ''mpiMode'' ''mpi'' ps of
      Inl e \<Rightarrow> Some (Inl e, p)
    | Inr mode \<Rightarrow>
        if mode = ''mpi'' then createMPI_RanksBecomeWorkers S p
        else if mode = ''mpi-launch'' then
          (case param_string ''launchCommand'' [] ps of
             Inl e \<Rightarrow> Some (Inl e, p)
           | Inr launchCommand \<Rightarrow>
               if launchCommand = [] then
                 Some (Inl (Runtime_error ''You must provide the launchCommand parameter in mpi-launch mode!''), p)
               else createMPI_LaunchWorkerGroup S launchCommand p)
        else if mode = ''mpi-listen'' then createMPI_ListenForWorkers S p
        else if mode = ''mpi-connect'' then
          (case param_string ''portName'' [] ps of
             Inl e \<Rightarrow> Some (Inl e, p)
           | Inr portName \<Rightarrow>
               if portName = [] then Some (Inl (Runtime_error
                 ''You must provide the port name string where the master is listening at!''), p)
               else createMPI_connectToListener S p)
        else Some (Inl (Runtime_error ''Invalid MPI mode!''), p))"

definition startup_error :: string where
  "startup_error = ''OSPRay MPI startup error. Use mpirun -n 1 <command> when calling an application '' @
     ''that tries to spawn to start the application you were trying to start.''"

definition with_state :: "('s device \<Rightarrow> 's res) \<Rightarrow> 's proc \<Rightarrow> unit res \<times> 's proc" where
  "with_state start p = (case current p of
      None \<Rightarrow> (Inl Undefined_behaviour, p)
    | Some d \<Rightarrow> (case start d of
        Inl e \<Rightarrow> (Inl e, p) | Inr st \<Rightarrow> (Inr (), p\<lparr>current := Some (d\<lparr>dev_state := st\<rparr>)\<rparr>)))"

definition MPIOffloadDevice_commit :: "'s services \<Rightarrow> host \<Rightarrow> 's proc \<Rightarrow> (unit res \<times> 's proc) option" where
  "MPIOffloadDevice_commit S h p = (case Device_commit_current h p of
      (Inl e, p1) \<Rightarrow> Some (Inl e, p1)
    | (Inr _, p1) \<Rightarrow> (case current p1 of
        None \<Rightarrow> Some (Inl Undefined_behaviour, p1)
      | Some d \<Rightarrow> (case connect_mpi S (dev_params d) p1 of
          None \<Rightarrow> None
        | Some (Inl e, p2) \<Rightarrow> Some (Inl e, p2)
        | Some (Inr (rank, nranks), p2) \<Rightarrow>
            if nranks \<noteq> 1 \<and> rank < 0 then Some (Inl (Runtime_error startup_error), p2)
            else Some (with_state (offload_start S) p2))))"

section \<open>The distributed device, and devices of other modules\<close>

definition MPIDistributedDevice_commit :: "'s services \<Rightarrow> host \<Rightarrow> 's proc \<Rightarrow> unit res \<times> 's proc" where
  "MPIDistributedDevice_commit S h p = (case Device_commit_current h p of
      (Inl e, p1) \<Rightarrow> (Inl e, p1)
    | (Inr _, p1) \<Rightarrow> (case mpi_calls S Init_MPI of
        Inl e \<Rightarrow> (Inl e, p1)
      | Inr _ \<Rightarrow> (case start_embree S p1 of
          Inl e \<Rightarrow> (Inl e, p1)
        | Inr _ \<Rightarrow> with_state (distributed_start S) p1)))"

text \<open>The names the classes are registered under.\<close>

definition local_types :: "string list" where
  "local_types = [''local_device'', ''local'', ''default_device'', ''default'']"

definition offload_types :: "string list" where
  "offload_types = [''mpi_offload'', ''mpi'']"

definition distributed_types :: "string list" where
  "distributed_types = [''mpi_distributed_device'', ''mpi_distributed'']"

text \<open>The virtual call \<open>currentDevice->commit()\<close>.\<close>

definition commit_device :: "'s services \<Rightarrow> host \<Rightarrow> 's proc \<Rightarrow> (unit res \<times> 's proc) option" where
  "commit_device S h p = (case current p of
      None \<Rightarrow> Some (Inl Undefined_behaviour, p)
    | Some d \<Rightarrow>
        if dev_kind d \<in> set local_types then Some (ISPCDevice_commit S h p)
        else if dev_kind d \<in> set offload_types then MPIOffloadDevice_commit S h p
        else if dev_kind d \<in> set distributed_types then Some (MPIDistributedDevice_commit S h p)
        else module_commit S d p)"

section \<open>What a commit comes to\<close>

text \<open>The parts outside fail with exceptions of the standard library only, Embree has a
  device for every configuration, and a device of another module is still the
  current one when its commit succeeds.\<close>

definition services_ok :: "'s services \<Rightarrow> bool" where
  "services_ok S \<longleftrightarrow> (\<forall>cfg. \<not> embree_error S cfg) \<and> (\<forall>c. caught (mpi_calls S c)) \<and>
     (\<forall>p e p'. worker_loop S p = Some (e, p') \<longrightarrow> what e \<noteq> None) \<and>
     (\<forall>d. caught (offload_start S d)) \<and> (\<forall>d. caught (distributed_start S d)) \<and>
     (\<forall>d p r p'. module_commit S d p = Some (r, p') \<longrightarrow> caught r \<and>
        (r = Inr () \<longrightarrow> (\<exists>d'. current p' = Some d' \<and> dev_kind d' = dev_kind d)))"

definition module_device :: "'s device \<Rightarrow> bool" where
  "module_device d \<longleftrightarrow> dev_kind d \<notin> set (local_types @ offload_types @ distributed_types)"

definition in_mpi_mode :: "string \<Rightarrow> 's device \<Rightarrow> bool" where
  "in_mpi_mode mode d \<longleftrightarrow> dev_kind d \<in> set offload_types \<and>
     param_string ''mpiMode'' ''mpi'' (dev_params d) = Inr mode"

text \<open>The cases in which the commit may keep the process for good: a worker of the ranks
  mode, the launching side of the fork, a worker that connects to its master, and a device
  of a module that is not modelled.\<close>

definition may_stay :: "'s services \<Rightarrow> 's device \<Rightarrow> bool" where
  "may_stay S d \<longleftrightarrow>
     in_mpi_mode ''mpi'' d \<and> (\<exists>rank n. mpi_calls S Init_MPI = Inr (rank, n) \<and> 1 < n \<and> rank \<noteq> masterRank) \<or>
     in_mpi_mode ''mpi-launch'' d \<and> forked_parent S \<or> in_mpi_mode ''mpi-connect'' d \<or> module_device d"

definition long_command :: "'s services \<Rightarrow> 's device \<Rightarrow> bool" where
  "long_command S d \<longleftrightarrow> in_mpi_mode ''mpi-launch'' d \<and>
     (\<exists>cmd. param_string ''launchCommand'' [] (dev_params d) = Inr cmd \<and> \<not> command_fits S cmd)"

text \<open>In the ranks mode only the master comes back from the set-up.\<close>

definition is_master :: "'s services \<Rightarrow> bool" where
  "is_master S \<longleftrightarrow> (\<exists>n. mpi_calls S Init_MPI = Inr (masterRank, n) \<and> 1 < n)"

lemma Device_commit_current_keeps:
  assumes "current p = Some d"
  obtains d' p' where "Device_commit_current h p = (Inr (), p')" "current p' = Some d'"
    "dev_kind d' = dev_kind d" "dev_params d' = dev_params d" "has_sse41 h \<longrightarrow> committed d'"
proof (cases "has_sse41 h")
  case False
  with assms that [of "unsupported_cpu p" "d\<lparr>lastErrorCode := OSP_UNSUPPORTED_CPU,
     lastErrorMsg := ''OSPRay only runs on CPUs that support at least SSE4.1''\<rparr>"] show ?thesis
    by (simp add: Device_commit_current_def unsupported_cpu_def handleError_def emit_def)
next
  case True
  obtain d' q where "commit_fields h d p = Inr (d', q)" using commit_fields_returns by blast
  with commit_fields_commits [OF this] assms True that [of "q\<lparr>current := Some d'\<rparr>" d'] show ?thesis
    by (simp add: Device_commit_current_def)
qed

lemma runWorker_caught: "services_ok S \<Longrightarrow> runWorker S p = Some (r, p') \<Longrightarrow> caught r \<and> (\<forall>w. r \<noteq> Inr w)"
  by (cases "worker_loop S p") (auto simp: services_ok_def runWorker_def, blast)

lemma mpi_calls_caught: "services_ok S \<Longrightarrow> mpi_calls S c = Inl e \<Longrightarrow> what e \<noteq> None"
  by (auto simp: services_ok_def caught_def split: sum.splits)

lemma connect_mpi_outcome:
  assumes "services_ok S" and "dev_kind d \<in> set offload_types" and "ps = dev_params d"
  shows "case connect_mpi S ps p of
      None \<Rightarrow> may_stay S d
    | Some (r, p') \<Rightarrow> (caught r \<or> r = Inl Undefined_behaviour \<and> long_command S d) \<and>
        (\<forall>w. r = Inr w \<longrightarrow> current p' = current p \<and> (in_mpi_mode ''mpi'' d \<longrightarrow> is_master S))"
proof -
  obtain mode cmd port where pars: "param_string ''mpiMode'' ''mpi'' ps = Inr mode"
    "param_string ''launchCommand'' [] ps = Inr cmd" "param_string ''portName'' [] ps = Inr port"
    by (metis params_read(3))
  have mode: "in_mpi_mode m d \<longleftrightarrow> m = mode" for m
    using assms(2,3) pars(1) by (auto simp: in_mpi_mode_def)
  note defs = connect_mpi_def pars mode may_stay_def long_command_def is_master_def assms(3) [symmetric]
  note outside = mpi_calls_caught [OF assms(1)] runWorker_caught [OF assms(1)]
  consider "mode = ''mpi''" | "mode = ''mpi-launch''" | "mode = ''mpi-listen''" | "mode = ''mpi-connect''"
    | "mode \<notin> {''mpi'', ''mpi-launch'', ''mpi-listen'', ''mpi-connect''}" by blast
  then show ?thesis
  proof cases
    case 1
    then show ?thesis
      by (auto simp: defs createMPI_RanksBecomeWorkers_def dest: outside split: sum.split option.split)
  next
    case 2
    then show ?thesis
      by (auto simp: defs createMPI_LaunchWorkerGroup_def dest: outside split: sum.split option.split)
  next
    case 3
    then show ?thesis
      by (auto simp: defs createMPI_ListenForWorkers_def caught_def dest: outside split: sum.split option.split)
  next
    case 4
    then show ?thesis
      by (auto simp: defs createMPI_connectToListener_def dest: outside split: sum.split option.split)
  next
    case 5
    then show ?thesis by (auto simp: defs)
  qed
qed

text \<open>After a commit that succeeds: the device is still there; it is committed when its class
  is one of the three and the CPU is supported, and an offload device in the ranks mode
  belongs to the master.\<close>

definition started :: "'s services \<Rightarrow> host \<Rightarrow> 's device \<Rightarrow> bool" where
  "started S h d \<longleftrightarrow> (\<not> module_device d \<and> has_sse41 h \<longrightarrow> committed d) \<and>
     (in_mpi_mode ''mpi'' d \<longrightarrow> is_master S)"

lemma in_mpi_mode_cong:
  "dev_kind d' = dev_kind d \<Longrightarrow> dev_params d' = dev_params d \<Longrightarrow> in_mpi_mode m d' = in_mpi_mode m d"
  by (simp add: in_mpi_mode_def)

lemma not_offload: "dev_kind d \<notin> set offload_types \<Longrightarrow> \<not> in_mpi_mode m d"
  by (simp add: in_mpi_mode_def)

lemma ISPCDevice_commit_outcome:
  assumes "services_ok S" and "current p = Some d" and "dev_kind d \<in> set local_types"
  shows "\<exists>p' d'. ISPCDevice_commit S h p = (Inr (), p') \<and> current p' = Some d' \<and> started S h d'"
proof -
  from assms(2) obtain d' p1 where c: "Device_commit_current h p = (Inr (), p1)" "current p1 = Some d'"
    "dev_kind d' = dev_kind d" "has_sse41 h \<longrightarrow> committed d'" by (rule Device_commit_current_keeps)
  moreover from assms(3) c(3) have "dev_kind d' \<notin> set offload_types"
    by (auto simp: local_types_def offload_types_def)
  ultimately show ?thesis using assms(1)
    by (auto simp: ISPCDevice_commit_def start_embree_def services_ok_def started_def not_offload)
qed

lemma with_state_outcome:
  assumes "\<forall>d. caught (start d)" and "current p = Some d" and "has_sse41 h \<longrightarrow> committed d"
    and "in_mpi_mode ''mpi'' d \<longrightarrow> is_master S"
  shows "caught (fst (with_state start p)) \<and> (fst (with_state start p) = Inr () \<longrightarrow>
     (\<exists>d'. current (snd (with_state start p)) = Some d' \<and> started S h d'))"
proof (cases "start d")
  case (Inl e)
  with assms(1) have "what e \<noteq> None" by (metis caught_simps(2))
  with Inl assms(2) show ?thesis by (simp add: with_state_def)
next
  case (Inr st)
  with assms show ?thesis by (simp add: with_state_def started_def in_mpi_mode_def)
qed

lemma MPIDistributedDevice_commit_outcome:
  assumes "services_ok S" and "current p = Some d" and "dev_kind d \<in> set distributed_types"
    and "MPIDistributedDevice_commit S h p = (r, p')"
  shows "caught r \<and> (r = Inr () \<longrightarrow> (\<exists>d'. current p' = Some d' \<and> started S h d'))"
proof -
  from assms(2) obtain d' p1 where c: "Device_commit_current h p = (Inr (), p1)" "current p1 = Some d'"
    "dev_kind d' = dev_kind d" "has_sse41 h \<longrightarrow> committed d'" by (rule Device_commit_current_keeps)
  from assms(3) c(3) have "\<not> in_mpi_mode ''mpi'' d'"
    by (intro not_offload) (auto simp: distributed_types_def offload_types_def)
  moreover have "\<forall>d. caught (distributed_start S d)" using assms(1) by (simp add: services_ok_def)
  ultimately have w: "caught (fst (with_state (distributed_start S) p1)) \<and> (fst (with_state (distributed_start S) p1) = Inr () \<longrightarrow>
     (\<exists>d'. current (snd (with_state (distributed_start S) p1)) = Some d' \<and> started S h d'))"
    using c by (intro with_state_outcome) auto
  have "\<not> embree_error S cfg" for cfg using assms(1) by (simp add: services_ok_def)
  with c(1,2) assms(4) w mpi_calls_caught [OF assms(1), of Init_MPI] show ?thesis
    by (auto simp: MPIDistributedDevice_commit_def start_embree_def split: sum.splits prod.splits)
qed

lemma MPIOffloadDevice_commit_outcome:
  assumes "services_ok S" and "current p = Some d" and "dev_kind d \<in> set offload_types"
  shows "case MPIOffloadDevice_commit S h p of
      None \<Rightarrow> may_stay S d
    | Some (r, p') \<Rightarrow> (caught r \<or> r = Inl Undefined_behaviour \<and> long_command S d) \<and>
        (r = Inr () \<longrightarrow> (\<exists>d'. current p' = Some d' \<and> started S h d'))"
proof -
  from assms(2) obtain d1 p1 where c: "Device_commit_current h p = (Inr (), p1)" "current p1 = Some d1"
    "dev_kind d1 = dev_kind d" "dev_params d1 = dev_params d" "has_sse41 h \<longrightarrow> committed d1"
    by (rule Device_commit_current_keeps)
  note conn = connect_mpi_outcome [OF assms(1,3) c(4), of p1]
  show ?thesis
  proof (cases "connect_mpi S (dev_params d1) p1")
    case None
    with c conn show ?thesis by (simp add: MPIOffloadDevice_commit_def)
  next
    case (Some rp)
    obtain r p2 where rp: "rp = (r, p2)" by (cases rp)
    show ?thesis
    proof (cases r)
      case (Inl e)
      with c conn Some rp show ?thesis by (simp add: MPIOffloadDevice_commit_def)
    next
      case (Inr w)
      obtain rank n where w: "w = (rank, n)" by (cases w)
      with conn Some rp Inr c(2) have "current p2 = Some d1" "in_mpi_mode ''mpi'' d1 \<longrightarrow> is_master S"
        using in_mpi_mode_cong [OF c(3,4)] by auto
      moreover have "\<forall>d. caught (offload_start S d)" using assms(1) by (simp add: services_ok_def)
      ultimately have "caught (fst (with_state (offload_start S) p2)) \<and> (fst (with_state (offload_start S) p2) = Inr () \<longrightarrow>
         (\<exists>d'. current (snd (with_state (offload_start S) p2)) = Some d' \<and> started S h d'))"
        using c(5) by (intro with_state_outcome) auto
      with c(1,2) Some rp Inr w show ?thesis
        by (auto simp: MPIOffloadDevice_commit_def split: prod.splits)
    qed
  qed
qed

lemma commit_device_outcome:
  assumes "services_ok S" and "current p = Some d"
  shows "case commit_device S h p of
      None \<Rightarrow> may_stay S d
    | Some (r, p') \<Rightarrow> (caught r \<or> r = Inl Undefined_behaviour \<and> long_command S d) \<and>
        (r = Inr () \<longrightarrow> (\<exists>d'. current p' = Some d' \<and> started S h d'))"
proof -
  consider "dev_kind d \<in> set local_types" | "dev_kind d \<in> set offload_types" "dev_kind d \<notin> set local_types"
    | "dev_kind d \<in> set distributed_types" "dev_kind d \<notin> set local_types" "dev_kind d \<notin> set offload_types"
    | "module_device d" by (auto simp: module_device_def)
  then show ?thesis
  proof cases
    case 1
    with ISPCDevice_commit_outcome [OF assms, of h] assms(2) show ?thesis by (auto simp: commit_device_def)
  next
    case 2
    with MPIOffloadDevice_commit_outcome [OF assms, of h] assms(2) show ?thesis by (simp add: commit_device_def)
  next
    case 3
    obtain r p' where "MPIDistributedDevice_commit S h p = (r, p')" by fastforce
    with MPIDistributedDevice_commit_outcome [OF assms 3(1) this] 3 assms(2) show ?thesis
      by (simp add: commit_device_def)
  next
    case 4
    have stay: "may_stay S d" using 4 by (simp add: may_stay_def)
    have eq: "commit_device S h p = module_commit S d p"
      using 4 assms(2) by (simp add: commit_device_def module_device_def)
    show ?thesis
    proof (cases "module_commit S d p")
      case (Some rp)
      obtain r p' where rp: "rp = (r, p')" by (cases rp)
      with Some assms(1) have ok: "caught r" "r = Inr () \<longrightarrow> (\<exists>d'. current p' = Some d' \<and> dev_kind d' = dev_kind d)"
        by (auto simp: services_ok_def)
      have "started S h d'" if "dev_kind d' = dev_kind d" for d'
        using 4 that by (auto simp: started_def module_device_def in_mpi_mode_def)
      with ok Some rp eq show ?thesis by auto
    qed (simp add: eq stay)
  qed
qed

text \<open>A rank that becomes a worker and whose loop is not ended by an exception never
  comes back.\<close>

lemma worker_rank_stays:
  assumes "current p = Some d" and "in_mpi_mode ''mpi'' d" and "mpi_calls S Init_MPI = Inr (rank, n)"
    and "rank \<noteq> 0" and "1 < n" and "mpi_calls S Set_up_worker = Inr w" and "\<And>q. worker_loop S q = None"
  shows "commit_device S h p = None"
proof -
  from assms(1) obtain d1 p1 where c: "Device_commit_current h p = (Inr (), p1)" "current p1 = Some d1"
    "dev_kind d1 = dev_kind d" "dev_params d1 = dev_params d" by (rule Device_commit_current_keeps)
  have kind: "dev_kind d \<in> set offload_types" "dev_kind d \<notin> set local_types"
    using assms(2) by (auto simp: in_mpi_mode_def local_types_def offload_types_def)
  have "connect_mpi S (dev_params d1) p1 = None"
    using assms(2-) c(4) by (simp add: connect_mpi_def in_mpi_mode_def createMPI_RanksBecomeWorkers_def
        runWorker_def masterRank_def)
  with c(1,2) assms(1) kind show ?thesis by (simp add: commit_device_def MPIOffloadDevice_commit_def)
qed

text \<open>The array for the command line of the launcher.\<close>

lemma launch_command_overflows:
  assumes "current p = Some d" and "in_mpi_mode ''mpi-launch'' d" and "mpi_calls S Init_MPI = Inr (0, n)"
    and "param_string ''launchCommand'' [] (dev_params d) = Inr cmd" and "10000 \<le> length cmd"
  shows "\<exists>p'. commit_device S h p = Some (Inl Undefined_behaviour, p')"
proof -
  from assms(1) obtain d1 p1 where c: "Device_commit_current h p = (Inr (), p1)" "current p1 = Some d1"
    "dev_kind d1 = dev_kind d" "dev_params d1 = dev_params d" by (rule Device_commit_current_keeps)
  have kind: "dev_kind d \<in> set offload_types" "dev_kind d \<notin> set local_types"
    using assms(2) by (auto simp: in_mpi_mode_def local_types_def offload_types_def)
  have "cmd \<noteq> []" "\<not> command_fits S cmd" using assms(5) by (auto simp: command_fits_def)
  then have "connect_mpi S (dev_params d1) p1 = Some (Inl Undefined_behaviour, p1)"
    using assms(2-) c(4) by (simp add: connect_mpi_def in_mpi_mode_def createMPI_LaunchWorkerGroup_def)
  with c(1,2) assms(1) kind show ?thesis by (simp add: commit_device_def MPIOffloadDevice_commit_def)
qed

end
