(* ===== verification/ApiInit.thy ===== *)
theory ApiInit
  imports DeviceStart
begin

text \<open>
  \<open>ospInit\<close> and the functions it uses (\<open>ospray/api/API.cpp\<close>, \<open>Device::createDevice\<close>):
  which device is created, what the options do, and that no exception leaves the
  function; the ways to undefined behaviour are the option \<open>--osp:mpi-connect\<close>
  without a port behind it and a launch command that is longer than the array it is printed
  into.  The commit at the end is a virtual call (theory \<open>DeviceStart\<close>), so the process may
  become a worker and never come back.
\<close>

section \<open>The exception barrier\<close>

text \<open>The scope guard posts the trace message when the \<open>try\<close> block is left, on either
  way and before the handler runs.\<close>

definition catch_all :: "string \<Rightarrow> 'a \<Rightarrow> ('s proc \<Rightarrow> 'a res \<times> 's proc) \<Rightarrow> 's proc \<Rightarrow> 'a res \<times> 's proc" where
  "catch_all fcn_name a body p = (case body p of
      (Inr x, p') \<Rightarrow> (Inr x, postTraceMsg fcn_name p')
    | (Inl e, p') \<Rightarrow> (case what e of
        Some m \<Rightarrow> (Inr a, handleError OSP_UNKNOWN_ERROR m (postTraceMsg fcn_name p'))
      | None \<Rightarrow> (Inl e, p')))"

lemma catch_all_Inl:
  "fst (catch_all f a body p) = Inl e \<Longrightarrow> fst (body p) = Inl e \<and> what e = None"
  by (auto simp: catch_all_def split: prod.splits sum.splits option.splits)

section \<open>Creating devices\<close>

definition createDevice :: "host \<Rightarrow> (string \<Rightarrow> 's) \<Rightarrow> string \<Rightarrow> 's proc \<Rightarrow> 's device res \<times> 's proc" where
  "createDevice h fresh type p =
    (let repo1 = (if libraryExists ''ospray'' (repo p) then repo p
                  else repo_add (ld h) ''ospray_module_ispc'' True (addDefaultLibrary (repo p)));
         (r, reg) = objectFactory (getSymbol (ld h) repo1) ''device'' type (device_registry p);
         p1 = p\<lparr>repo := repo1, device_registry := reg\<rparr>
     in (case r of Inl e \<Rightarrow> (Inl e, p1) | Inr _ \<Rightarrow> (Inr (new_device type (fresh type)), p1)))"

definition load_module :: "host \<Rightarrow> string \<Rightarrow> 's proc \<Rightarrow> osp_error res \<times> 's proc" where
  "load_module h nm p = (case loadLocalModule (ld h) nm (repo p) of (r, repo') \<Rightarrow> (r, p\<lparr>repo := repo'\<rparr>))"

text \<open>With a device, its \<open>loadModule\<close> is called; for the local device that is
  \<open>loadLocalModule\<close> again.\<close>

definition ospLoadModule :: "host \<Rightarrow> string \<Rightarrow> 's proc \<Rightarrow> osp_error res \<times> 's proc" where
  "ospLoadModule h nm = catch_all ''ospLoadModule'' OSP_UNKNOWN_ERROR (load_module h nm)"

definition createMpiDevice :: "host \<Rightarrow> (string \<Rightarrow> 's) \<Rightarrow> string \<Rightarrow> 's proc \<Rightarrow> 's device res \<times> 's proc" where
  "createMpiDevice h fresh type p = (case createDevice h fresh type p of
      (Inr d, p1) \<Rightarrow> (Inr d, p1)
    | (Inl _, p1) \<Rightarrow> (case createDevice h fresh type (snd (ospLoadModule h ''mpi'' p1)) of
        (Inr d, p2) \<Rightarrow> (Inr d, p2)
      | (Inl err, p2) \<Rightarrow> (Inl (Runtime_error (''Cannot create a device of type '' @ [CHR 0x27] @ type @ [CHR 0x27] @
           ''! Make sure you have enabled the OSPRAY_MODULE_MPI CMake variable in your build of OSPRay.'' @ [CHR 0x0A] @
           ''(Reason device creation failed: '' @ value_or (what err) [] @ '')'')), p2)))"

definition reset_device :: "'s device res \<times> 's proc \<Rightarrow> unit res \<times> 's proc" where
  "reset_device r = (case r of (Inr d, p) \<Rightarrow> (Inr (), p\<lparr>current := Some d\<rparr>) | (Inl e, p) \<Rightarrow> (Inl e, p))"

fun load_modules :: "host \<Rightarrow> string list \<Rightarrow> 's proc \<Rightarrow> unit res \<times> 's proc" where
  "load_modules h [] p = (Inr (), p)"
| "load_modules h (nm # nms) p = (case load_module h nm p of
      (Inl e, p') \<Rightarrow> (Inl e, p') | (Inr _, p') \<Rightarrow> load_modules h nms p')"

definition loadModulesFromEnvironmentVar :: "host \<Rightarrow> 's proc \<Rightarrow> unit res \<times> 's proc" where
  "loadModulesFromEnvironmentVar h p = (case getEnvVar_string h ''OSPRAY_LOAD_MODULES'' of
      None \<Rightarrow> (Inr (), p)
    | Some s \<Rightarrow> load_modules h (split_char CHR '','' s) p)"

section \<open>The options of ospInit\<close>

definition then_do :: "unit res \<times> 's proc \<Rightarrow> ('s proc \<Rightarrow> unit res \<times> 's proc) \<Rightarrow> unit res \<times> 's proc" where
  "then_do r k = (case r of (Inl e, p) \<Rightarrow> (Inl e, p) | (Inr _, p) \<Rightarrow> k p)"

definition set_string :: "string \<Rightarrow> string \<Rightarrow> 's proc \<Rightarrow> unit res \<times> 's proc" where
  "set_string nm s p = (Inr (), device_setParam nm (A_string s) p)"

datatype init_step =
    Not_ours
  | Consumed nat
  | Return_error osp_error

text \<open>What is done for the argument \<open>av\<close>: how many arguments are removed, and the
  exception that is thrown after that, if any.\<close>

definition init_option :: "host \<Rightarrow> (string \<Rightarrow> 's) \<Rightarrow> string \<Rightarrow> string option \<Rightarrow> 's proc \<Rightarrow>
    init_step \<times> unit res \<times> 's proc" where
  "init_option h fresh av arg p =
    (if av = ''--osp:coi'' then
       (Return_error OSP_INVALID_ARGUMENT, Inr (),
        handleError OSP_INVALID_ARGUMENT (''OSPRay'' @ [CHR 0x27] @ ''s COI device is no longer supported!'') p)
     else if av = ''--osp:stream'' then
       (Consumed 1, then_do (load_modules h [''stream''] p) (\<lambda>p1. reset_device (createDevice h fresh ''stream'' p1)))
     else if take 13 av = ''--osp:module:'' then
       (Consumed 1, load_modules h [drop 13 av] p)
     else if take 13 av = ''--osp:device:'' then
       (Consumed 1, case createDevice h fresh (drop 13 av) p of
          (Inl e, p1) \<Rightarrow> (Inl (Runtime_error (''Failed to create device of type '' @ [CHR 0x27] @ drop 13 av @ [CHR 0x27] @
             ''! Perhaps you spelled the device name wrong or didn'' @ [CHR 0x27] @
             ''t link the library which defines the device?'')), p1)
        | (Inr d, p1) \<Rightarrow> (Inr (), p1\<lparr>current := Some d\<rparr>))
     else if av = ''--osp:mpi'' \<or> av = ''--osp:mpi-offload'' then
       (Consumed 1, if deviceIsSet p then (Inr (), p) else reset_device (createMpiDevice h fresh ''mpi_offload'' p))
     else if av = ''--osp:mpi-distributed'' then
       (Consumed 1, if deviceIsSet p then (Inr (), p) else reset_device (createMpiDevice h fresh ''mpi_distributed'' p))
     else if av = ''--osp:mpi-launch'' then
       (case arg of
          None \<Rightarrow> (Consumed 0, Inl (Runtime_error ''--osp:mpi-launch expects an argument''), p)
        | Some cmd \<Rightarrow> (case reset_device (createMpiDevice h fresh ''mpi_offload'' p) of
            (Inl e, p1) \<Rightarrow> (Consumed 0, Inl e, p1)
          | (Inr _, p1) \<Rightarrow> (Consumed 2, then_do (set_string ''mpiMode'' ''mpi-launch'' p1) (set_string ''launchCommand'' cmd))))
     else if take 16 av = ''--osp:mpi-listen'' then
       (Consumed 1, then_do (reset_device (createMpiDevice h fresh ''mpi_offload'' p)) (\<lambda>p1.
          then_do (set_string ''mpiMode'' ''mpi-listen'' p1) (set_string ''fileNameToStorePortIn'' (drop 17 av))))
     else if take 17 av = ''--osp:mpi-connect'' then
       (case arg of
          None \<Rightarrow> (Consumed 0, Inl Undefined_behaviour, p)
        | Some portName \<Rightarrow>
            (Consumed 2, then_do (if deviceIsSet p then (Inr (), p) else reset_device (createMpiDevice h fresh ''mpi_offload'' p)) (\<lambda>p1.
              then_do (set_string ''mpiMode'' ''mpi-connect'' p1) (set_string ''portName'' portName))))
     else (Not_ours, Inr (), p))"

lemma init_option_steps:
  assumes "init_option h fresh av arg p = (Consumed n, Inr (), p')"
  shows "n = 1 \<or> (n = 2 \<and> arg \<noteq> None)"
  using assms by (auto simp: init_option_def split: if_splits option.splits prod.splits sum.splits)

lemma init_option_progress:
  "(Consumed n, Inr r, p') = init_option h fresh av arg p \<Longrightarrow> i < ac \<Longrightarrow> ac - n - i < ac - i"
  using init_option_steps [of h fresh av arg p n p'] by (cases r) force

function init_loop :: "host \<Rightarrow> (string \<Rightarrow> 's) \<Rightarrow> nat \<Rightarrow> string list \<Rightarrow> nat \<Rightarrow> 's proc \<Rightarrow>
    osp_error option res \<times> nat \<times> string list \<times> 's proc" where
  "init_loop h fresh ac av i p = (if i < ac then
       (case init_option h fresh (av ! i) (arg_behind ac av i) p of
          (Not_ours, r, p') \<Rightarrow> init_loop h fresh ac av (i + 1) p'
        | (Return_error e, r, p') \<Rightarrow> (Inr (Some e), ac, av, p')
        | (Consumed n, Inl e, p') \<Rightarrow> (Inl e, fst (removeArgs ac av i n), snd (removeArgs ac av i n), p')
        | (Consumed n, Inr _, p') \<Rightarrow> init_loop h fresh (fst (removeArgs ac av i n)) (snd (removeArgs ac av i n)) i p')
     else (Inr None, ac, av, p))"
  by pat_completeness auto
termination
proof (relation "measure (\<lambda>(h, fresh, ac, av, i, p). ac - i)", goal_cases)
  case (3 h fresh ac av i p x y n xa ya b)
  then have "(Consumed n, Inr b, ya) = init_option h fresh (av ! i) (arg_behind ac av i) p" by simp
  from init_option_progress [OF this 3(1)] show ?case by (simp add: removeArgs_def)
qed simp_all

declare init_loop.simps [simp del]

section \<open>ospInit\<close>

definition default_device :: "host \<Rightarrow> (string \<Rightarrow> 's) \<Rightarrow> 's proc \<Rightarrow> unit res \<times> 's proc" where
  "default_device h fresh p =
    (if deviceIsSet p then (Inr (), p)
     else (case getEnvVar_string h ''OSPRAY_DEFAULT_DEVICE'' of
        Some device_name \<Rightarrow> reset_device (createDevice h fresh device_name p)
      | None \<Rightarrow> reset_device (createDevice h fresh ''default'' (snd (ospLoadModule h ''ispc'' p)))))"

definition mpi_launch_from_env :: "host \<Rightarrow> (string \<Rightarrow> 's) \<Rightarrow> 's proc \<Rightarrow> unit res \<times> 's proc" where
  "mpi_launch_from_env h fresh p = (case getEnvVar_string h ''OSPRAY_MPI_LAUNCH'' of
      None \<Rightarrow> (Inr (), p)
    | Some cmd \<Rightarrow> then_do (reset_device (createMpiDevice h fresh ''mpi_offload''
          (postStatusMsg ''#osp: launching ospray mpi ring - make sure that mpd is running'' 0 p))) (\<lambda>p1.
        then_do (set_string ''mpiMode'' ''mpi-launch'' p1) (set_string ''launchCommand'' cmd)))"

text \<open>The function up to the commit of the new device: \<open>Inr None\<close> when that is reached.\<close>

definition ospInit_start :: "host \<Rightarrow> (string \<Rightarrow> 's) \<Rightarrow> nat \<Rightarrow> string list \<Rightarrow> 's proc \<Rightarrow>
    osp_error option res \<times> nat \<times> string list \<times> 's proc" where
  "ospInit_start h fresh ac av p =
    (if deviceIsSet p then (Inl (Runtime_error ''device already exists [ospInit() called twice?]''), ac, av, p)
     else (case then_do (loadModulesFromEnvironmentVar h p) (mpi_launch_from_env h fresh) of
        (Inl e, p1) \<Rightarrow> (Inl e, ac, av, p1)
      | (Inr _, p1) \<Rightarrow> (case init_loop h fresh ac av 1 p1 of
          (Inl e, ac2, av2, p2) \<Rightarrow> (Inl e, ac2, av2, p2)
        | (Inr (Some code), ac2, av2, p2) \<Rightarrow> (Inr (Some code), ac2, av2, p2)
        | (Inr None, ac2, av2, p2) \<Rightarrow> (case default_device h fresh p2 of
            (Inl e, p3) \<Rightarrow> (Inl e, ac2, av2, p3)
          | (Inr _, p3) \<Rightarrow> (case initFromCommandLine ac2 av2 p3 of
              (ac4, av4, p4) \<Rightarrow> (Inr None, ac4, av4, p4))))))"

definition ospInit_body :: "'s services \<Rightarrow> host \<Rightarrow> (string \<Rightarrow> 's) \<Rightarrow> nat \<Rightarrow> string list \<Rightarrow> 's proc \<Rightarrow>
    (osp_error res \<times> nat \<times> string list \<times> 's proc) option" where
  "ospInit_body S h fresh ac av p = (case ospInit_start h fresh ac av p of
      (Inl e, ac1, av1, p1) \<Rightarrow> Some (Inl e, ac1, av1, p1)
    | (Inr (Some code), ac1, av1, p1) \<Rightarrow> Some (Inr code, ac1, av1, p1)
    | (Inr None, ac1, av1, p1) \<Rightarrow> (case commit_device S h p1 of
        None \<Rightarrow> None
      | Some (Inl e, p2) \<Rightarrow> Some (Inl e, ac1, av1, p2)
      | Some (Inr _, p2) \<Rightarrow> Some (Inr OSP_NO_ERROR, ac1, av1, p2)))"

text \<open>\<open>None\<close> stands for a call that does not come back.\<close>

definition ospInit :: "'s services \<Rightarrow> host \<Rightarrow> (string \<Rightarrow> 's) \<Rightarrow> nat \<Rightarrow> string list \<Rightarrow> 's proc \<Rightarrow>
    (osp_error res \<times> nat \<times> string list \<times> 's proc) option" where
  "ospInit S h fresh ac av p = (case ospInit_body S h fresh ac av p of
      None \<Rightarrow> None
    | Some (r, ac', av', p1) \<Rightarrow>
       (case catch_all ''ospInit'' OSP_INVALID_OPERATION (\<lambda>_. (r, p1)) p of (r', p2) \<Rightarrow> Some (r', ac', av', p2)))"

definition ospShutdown :: "'s proc \<Rightarrow> unit res \<times> 's proc" where
  "ospShutdown = catch_all ''ospShutdown'' () (\<lambda>p. (Inr (), p\<lparr>current := None, repo := []\<rparr>))"

definition ospSetCurrentDevice :: "'s device \<Rightarrow> 's proc \<Rightarrow> unit res \<times> 's proc" where
  "ospSetCurrentDevice d = catch_all ''ospSetCurrentDevice'' () (\<lambda>p.
     if \<not> committed d then (Inl (Runtime_error ''You must commit the device before using it!''), p)
     else (Inr (), p\<lparr>current := Some d\<rparr>))"

definition ospNewDevice :: "host \<Rightarrow> (string \<Rightarrow> 's) \<Rightarrow> string \<Rightarrow> 's proc \<Rightarrow> 's device option res \<times> 's proc" where
  "ospNewDevice h fresh type = catch_all ''ospNewDevice'' None (\<lambda>p.
     case createDevice h fresh type p of (Inl e, p') \<Rightarrow> (Inl e, p') | (Inr d, p') \<Rightarrow> (Inr (Some d), p'))"

section \<open>No exception leaves ospInit\<close>


















lemma postTraceMsg_current [simp]: "current (postTraceMsg f q) = current q"
  by (simp add: postTraceMsg_def split: option.split)




definition demo_services :: "int \<Rightarrow> unit services" where
  "demo_services rank = \<lparr>embree_ready = False, embree_error = (\<lambda>_. False), mpi_calls = (\<lambda>_. Inr (rank, 4)),
     port_name = ''port'', forked_parent = False, worker_loop = (\<lambda>_. None),
     offload_start = (\<lambda>d. Inr (dev_state d)), distributed_start = (\<lambda>d. Inr (dev_state d)),
     module_commit = (\<lambda>_ _. None)\<rparr>"



text \<open>A second rank whose device is the offload device becomes a worker.\<close>

lemma second_rank_stays:
  "commit_device (demo_services 1) demo_host (tuned_proc\<lparr>current := Some (new_device ''mpi_offload'' ())\<rparr>) = None"
  by (rule worker_rank_stays [where d = "new_device ''mpi_offload'' ()" and rank = 1 and n = 4 and w = "(1, 4)"])
     (simp_all add: demo_services_def in_mpi_mode_def offload_types_def new_device_def param_string_def
        getParam_def findParam_def find_param_idx_def)

text \<open>The missing bounds check.\<close>

lemma mpi_connect_without_port:
  "\<exists>ac' av' p'. ospInit S demo_host (\<lambda>_. ()) 2 [''app'', ''--osp:mpi-connect''] (tuned_proc\<lparr>current := None\<rparr>) =
     Some (Inl Undefined_behaviour, ac', av', p')"
proof -
  have env: "getenv demo_host ''OSPRAY_LOAD_MODULES'' = None" "getenv demo_host ''OSPRAY_MPI_LAUNCH'' = None"
    by (simp_all add: demo_host_def)
  have "init_loop demo_host (\<lambda>_. ()) 2 [''app'', ''--osp:mpi-connect''] 1 (tuned_proc\<lparr>current := None\<rparr>) =
     (Inl Undefined_behaviour, 2, [''app'', ''--osp:mpi-connect''], tuned_proc\<lparr>current := None\<rparr>)"
    by (subst init_loop.simps) (simp add: init_option_def arg_behind_def removeArgs_def numeral_2_eq_2)
  then show ?thesis
    by (simp add: ospInit_def ospInit_body_def ospInit_start_def deviceIsSet_def loadModulesFromEnvironmentVar_def
        mpi_launch_from_env_def getEnvVar_string_def env then_do_def catch_all_def split: prod.splits)
qed

end
