(* ===== verification/ApiEntry.thy ===== *)
theory ApiEntry
  imports ApiInit LocalRefs
begin

text \<open>
  The functions of the public API (\<open>ospray/api/API.cpp\<close>) that work on objects: each
  checks that there is a device, calls it and catches what it throws.  The locale
  \<open>device_interface\<close> states what the API relies on in a device; it is interpreted
  on the local device.  \<open>exec\<close> stands for the virtual call into the current device.
\<close>

section \<open>Calling the current device\<close>

definition not_initialized :: "host \<Rightarrow> cxx_error" where
  "not_initialized h = Runtime_error (''OSPRay not yet initialized (most likely this means you tried to call an '' @
     ''ospray API function before first calling ospInit())'' @ pid_string h)"

definition call_device :: "host \<Rightarrow> (api_call \<Rightarrow> 's \<Rightarrow> addr option res \<times> 's) \<Rightarrow> api_call \<Rightarrow>
    's proc \<Rightarrow> addr option res \<times> 's proc" where
  "call_device h exec c p = (case current p of
      None \<Rightarrow> (Inl (not_initialized h), p)
    | Some d \<Rightarrow> (case exec c (dev_state d) of
        (r, st) \<Rightarrow> (r, p\<lparr>current := Some (d\<lparr>dev_state := st\<rparr>)\<rparr>)))"

definition api :: "string \<Rightarrow> host \<Rightarrow> (api_call \<Rightarrow> 's \<Rightarrow> addr option res \<times> 's) \<Rightarrow> api_call \<Rightarrow>
    's proc \<Rightarrow> addr option res \<times> 's proc" where
  "api nm h exec c = catch_all nm None (call_device h exec c)"

text \<open>The functions that create an object post a message when the device returns null.\<close>

definition api_new :: "string \<Rightarrow> string \<Rightarrow> string \<Rightarrow> host \<Rightarrow> (api_call \<Rightarrow> 's \<Rightarrow> addr option res \<times> 's) \<Rightarrow>
    api_call \<Rightarrow> 's proc \<Rightarrow> addr option res \<times> 's proc" where
  "api_new nm kind type h exec c = catch_all nm None (\<lambda>p. (case call_device h exec c p of
      (Inr None, p') \<Rightarrow> (Inr None, postStatusMsg
         (''#ospray: could not create '' @ kind @ '' '' @ [CHR 0x27] @ type @ [CHR 0x27]) 1 p')
    | (r, p') \<Rightarrow> (r, p')))"

text \<open>The names of renderers and pixel operations with \<open>-\<close> and \<open>:\<close> replaced.\<close>

definition clean_type :: "string \<Rightarrow> string" where
  "clean_type = map (\<lambda>c. if c = CHR ''-'' \<or> c = CHR '':'' then CHR ''_'' else c)"

section \<open>The functions\<close>

definition ospNewGeometry :: "host \<Rightarrow> (api_call \<Rightarrow> 's \<Rightarrow> addr option res \<times> 's) \<Rightarrow> string \<Rightarrow>
    's proc \<Rightarrow> addr option res \<times> 's proc" where
  "ospNewGeometry h exec type = api_new ''ospNewGeometry'' ''geometry'' type h exec (C_new OSP_GEOMETRY type)"

definition ospNewCamera :: "host \<Rightarrow> (api_call \<Rightarrow> 's \<Rightarrow> addr option res \<times> 's) \<Rightarrow> string \<Rightarrow>
    's proc \<Rightarrow> addr option res \<times> 's proc" where
  "ospNewCamera h exec type = api_new ''ospNewCamera'' ''camera'' type h exec (C_new OSP_CAMERA type)"

definition ospNewTexture :: "host \<Rightarrow> (api_call \<Rightarrow> 's \<Rightarrow> addr option res \<times> 's) \<Rightarrow> string \<Rightarrow>
    's proc \<Rightarrow> addr option res \<times> 's proc" where
  "ospNewTexture h exec type = api_new ''ospNewTexture'' ''texture'' type h exec (C_new OSP_TEXTURE type)"

definition ospNewVolume :: "host \<Rightarrow> (api_call \<Rightarrow> 's \<Rightarrow> addr option res \<times> 's) \<Rightarrow> string \<Rightarrow>
    's proc \<Rightarrow> addr option res \<times> 's proc" where
  "ospNewVolume h exec type = api_new ''ospNewVolume'' ''volume'' type h exec (C_new OSP_VOLUME type)"

definition ospNewTransferFunction :: "host \<Rightarrow> (api_call \<Rightarrow> 's \<Rightarrow> addr option res \<times> 's) \<Rightarrow> string \<Rightarrow>
    's proc \<Rightarrow> addr option res \<times> 's proc" where
  "ospNewTransferFunction h exec type = api_new ''ospNewTransferFunction'' ''transferFunction'' type h exec (C_new OSP_TRANSFER_FUNCTION type)"

definition ospNewLight3 :: "host \<Rightarrow> (api_call \<Rightarrow> 's \<Rightarrow> addr option res \<times> 's) \<Rightarrow> string \<Rightarrow>
    's proc \<Rightarrow> addr option res \<times> 's proc" where
  "ospNewLight3 h exec light_type = api_new ''ospNewLight3'' ''light'' light_type h exec (C_new OSP_LIGHT light_type)"

definition ospNewRenderer :: "host \<Rightarrow> (api_call \<Rightarrow> 's \<Rightarrow> addr option res \<times> 's) \<Rightarrow> string \<Rightarrow>
    's proc \<Rightarrow> addr option res \<times> 's proc" where
  "ospNewRenderer h exec type = api_new ''ospNewRenderer'' ''renderer'' (clean_type type) h exec (C_new OSP_RENDERER (clean_type type))"

definition ospNewPixelOp :: "host \<Rightarrow> (api_call \<Rightarrow> 's \<Rightarrow> addr option res \<times> 's) \<Rightarrow> string \<Rightarrow>
    's proc \<Rightarrow> addr option res \<times> 's proc" where
  "ospNewPixelOp h exec type = api ''ospNewPixelOp'' h exec (C_new OSP_PIXEL_OP (clean_type type))"

definition ospNewMaterial2 :: "host \<Rightarrow> (api_call \<Rightarrow> 's \<Rightarrow> addr option res \<times> 's) \<Rightarrow> string \<Rightarrow> string \<Rightarrow>
    's proc \<Rightarrow> addr option res \<times> 's proc" where
  "ospNewMaterial2 h exec renderer_type material_type = api_new ''ospNewMaterial2'' ''material'' material_type h exec (C_newMaterial renderer_type material_type)"

definition ospNewModel :: "host \<Rightarrow> (api_call \<Rightarrow> 's \<Rightarrow> addr option res \<times> 's) \<Rightarrow>
    's proc \<Rightarrow> addr option res \<times> 's proc" where
  "ospNewModel h exec = api ''ospNewModel'' h exec (C_newModel)"

definition ospNewData :: "host \<Rightarrow> (api_call \<Rightarrow> 's \<Rightarrow> addr option res \<times> 's) \<Rightarrow> osp_type \<Rightarrow> addr option list \<Rightarrow>
    's proc \<Rightarrow> addr option res \<times> 's proc" where
  "ospNewData h exec format init = api ''ospNewData'' h exec (C_newData format init)"

definition ospAddGeometry :: "host \<Rightarrow> (api_call \<Rightarrow> 's \<Rightarrow> addr option res \<times> 's) \<Rightarrow> addr \<Rightarrow> addr \<Rightarrow>
    's proc \<Rightarrow> addr option res \<times> 's proc" where
  "ospAddGeometry h exec model ob = api ''ospAddGeometry'' h exec (C_addGeometry model ob)"

definition ospRemoveGeometry :: "host \<Rightarrow> (api_call \<Rightarrow> 's \<Rightarrow> addr option res \<times> 's) \<Rightarrow> addr \<Rightarrow> addr \<Rightarrow>
    's proc \<Rightarrow> addr option res \<times> 's proc" where
  "ospRemoveGeometry h exec model ob = api ''ospRemoveGeometry'' h exec (C_removeGeometry model ob)"

definition ospAddVolume :: "host \<Rightarrow> (api_call \<Rightarrow> 's \<Rightarrow> addr option res \<times> 's) \<Rightarrow> addr \<Rightarrow> addr \<Rightarrow>
    's proc \<Rightarrow> addr option res \<times> 's proc" where
  "ospAddVolume h exec model ob = api ''ospAddVolume'' h exec (C_addVolume model ob)"

definition ospRemoveVolume :: "host \<Rightarrow> (api_call \<Rightarrow> 's \<Rightarrow> addr option res \<times> 's) \<Rightarrow> addr \<Rightarrow> addr \<Rightarrow>
    's proc \<Rightarrow> addr option res \<times> 's proc" where
  "ospRemoveVolume h exec model ob = api ''ospRemoveVolume'' h exec (C_removeVolume model ob)"

definition ospSetMaterial :: "host \<Rightarrow> (api_call \<Rightarrow> 's \<Rightarrow> addr option res \<times> 's) \<Rightarrow> addr \<Rightarrow> addr option \<Rightarrow>
    's proc \<Rightarrow> addr option res \<times> 's proc" where
  "ospSetMaterial h exec geom mat = api ''ospSetMaterial'' h exec (C_setMaterial geom mat)"

definition ospSetPixelOp :: "host \<Rightarrow> (api_call \<Rightarrow> 's \<Rightarrow> addr option res \<times> 's) \<Rightarrow> addr \<Rightarrow> addr \<Rightarrow>
    's proc \<Rightarrow> addr option res \<times> 's proc" where
  "ospSetPixelOp h exec fb op = api ''ospSetPixelOp'' h exec (C_setPixelOp fb op)"

definition ospSetObject :: "host \<Rightarrow> (api_call \<Rightarrow> 's \<Rightarrow> addr option res \<times> 's) \<Rightarrow> addr \<Rightarrow> string \<Rightarrow> addr option \<Rightarrow>
    's proc \<Rightarrow> addr option res \<times> 's proc" where
  "ospSetObject h exec target nm val = api ''ospSetObject'' h exec (C_setObject target nm val)"

definition ospSetData :: "host \<Rightarrow> (api_call \<Rightarrow> 's \<Rightarrow> addr option res \<times> 's) \<Rightarrow> addr \<Rightarrow> string \<Rightarrow> addr option \<Rightarrow>
    's proc \<Rightarrow> addr option res \<times> 's proc" where
  "ospSetData h exec ob nm val = api ''ospSetData'' h exec (C_setObject ob nm val)"

definition ospSet1b :: "host \<Rightarrow> (api_call \<Rightarrow> 's \<Rightarrow> addr option res \<times> 's) \<Rightarrow> addr \<Rightarrow> string \<Rightarrow> i32 \<Rightarrow>
    's proc \<Rightarrow> addr option res \<times> 's proc" where
  "ospSet1b h exec ob nm x = api ''ospSet1b'' h exec (C_setBool ob nm (x \<noteq> 0))"

definition ospSetString :: "host \<Rightarrow> (api_call \<Rightarrow> 's \<Rightarrow> addr option res \<times> 's) \<Rightarrow> addr \<Rightarrow> string \<Rightarrow> string \<Rightarrow>
    's proc \<Rightarrow> addr option res \<times> 's proc" where
  "ospSetString h exec ob nm s = api ''ospSetString'' h exec (C_setValue ob nm (A_string s))"

definition ospSetf :: "host \<Rightarrow> (api_call \<Rightarrow> 's \<Rightarrow> addr option res \<times> 's) \<Rightarrow> addr \<Rightarrow> string \<Rightarrow> float_bits \<Rightarrow>
    's proc \<Rightarrow> addr option res \<times> 's proc" where
  "ospSetf h exec ob nm x = api ''ospSetf'' h exec (C_setValue ob nm (A_float x))"

definition ospSet1f :: "host \<Rightarrow> (api_call \<Rightarrow> 's \<Rightarrow> addr option res \<times> 's) \<Rightarrow> addr \<Rightarrow> string \<Rightarrow> float_bits \<Rightarrow>
    's proc \<Rightarrow> addr option res \<times> 's proc" where
  "ospSet1f h exec ob nm x = api ''ospSet1f'' h exec (C_setValue ob nm (A_float x))"

definition ospSeti :: "host \<Rightarrow> (api_call \<Rightarrow> 's \<Rightarrow> addr option res \<times> 's) \<Rightarrow> addr \<Rightarrow> string \<Rightarrow> i32 \<Rightarrow>
    's proc \<Rightarrow> addr option res \<times> 's proc" where
  "ospSeti h exec ob nm x = api ''ospSeti'' h exec (C_setValue ob nm (A_int x))"

definition ospSet1i :: "host \<Rightarrow> (api_call \<Rightarrow> 's \<Rightarrow> addr option res \<times> 's) \<Rightarrow> addr \<Rightarrow> string \<Rightarrow> i32 \<Rightarrow>
    's proc \<Rightarrow> addr option res \<times> 's proc" where
  "ospSet1i h exec ob nm x = api ''ospSet1i'' h exec (C_setValue ob nm (A_int x))"

definition ospSetVec2f :: "host \<Rightarrow> (api_call \<Rightarrow> 's \<Rightarrow> addr option res \<times> 's) \<Rightarrow> addr \<Rightarrow> string \<Rightarrow> vec2f \<Rightarrow>
    's proc \<Rightarrow> addr option res \<times> 's proc" where
  "ospSetVec2f h exec ob nm v = api ''ospSetVec2f'' h exec (C_setValue ob nm (A_vec2f v))"

definition ospSetVec2i :: "host \<Rightarrow> (api_call \<Rightarrow> 's \<Rightarrow> addr option res \<times> 's) \<Rightarrow> addr \<Rightarrow> string \<Rightarrow> vec2i \<Rightarrow>
    's proc \<Rightarrow> addr option res \<times> 's proc" where
  "ospSetVec2i h exec ob nm v = api ''ospSetVec2i'' h exec (C_setValue ob nm (A_vec2i v))"

definition ospSetVec3f :: "host \<Rightarrow> (api_call \<Rightarrow> 's \<Rightarrow> addr option res \<times> 's) \<Rightarrow> addr \<Rightarrow> string \<Rightarrow> vec3f \<Rightarrow>
    's proc \<Rightarrow> addr option res \<times> 's proc" where
  "ospSetVec3f h exec ob nm v = api ''ospSetVec3f'' h exec (C_setValue ob nm (A_vec3f v))"

definition ospSetVec3i :: "host \<Rightarrow> (api_call \<Rightarrow> 's \<Rightarrow> addr option res \<times> 's) \<Rightarrow> addr \<Rightarrow> string \<Rightarrow> vec3i \<Rightarrow>
    's proc \<Rightarrow> addr option res \<times> 's proc" where
  "ospSetVec3i h exec ob nm v = api ''ospSetVec3i'' h exec (C_setValue ob nm (A_vec3i v))"

definition ospSetVec4f :: "host \<Rightarrow> (api_call \<Rightarrow> 's \<Rightarrow> addr option res \<times> 's) \<Rightarrow> addr \<Rightarrow> string \<Rightarrow> vec4f \<Rightarrow>
    's proc \<Rightarrow> addr option res \<times> 's proc" where
  "ospSetVec4f h exec ob nm v = api ''ospSetVec4f'' h exec (C_setValue ob nm (A_vec4f v))"

definition ospSet2f :: "host \<Rightarrow> (api_call \<Rightarrow> 's \<Rightarrow> addr option res \<times> 's) \<Rightarrow> addr \<Rightarrow> string \<Rightarrow> float_bits \<Rightarrow> float_bits \<Rightarrow>
    's proc \<Rightarrow> addr option res \<times> 's proc" where
  "ospSet2f h exec ob nm x y = api ''ospSet2f'' h exec (C_setValue ob nm (A_vec2f (x, y)))"

definition ospSet2i :: "host \<Rightarrow> (api_call \<Rightarrow> 's \<Rightarrow> addr option res \<times> 's) \<Rightarrow> addr \<Rightarrow> string \<Rightarrow> i32 \<Rightarrow> i32 \<Rightarrow>
    's proc \<Rightarrow> addr option res \<times> 's proc" where
  "ospSet2i h exec ob nm x y = api ''ospSet2i'' h exec (C_setValue ob nm (A_vec2i (x, y)))"

definition ospSet3f :: "host \<Rightarrow> (api_call \<Rightarrow> 's \<Rightarrow> addr option res \<times> 's) \<Rightarrow> addr \<Rightarrow> string \<Rightarrow> float_bits \<Rightarrow> float_bits \<Rightarrow> float_bits \<Rightarrow>
    's proc \<Rightarrow> addr option res \<times> 's proc" where
  "ospSet3f h exec ob nm x y z = api ''ospSet3f'' h exec (C_setValue ob nm (A_vec3f (x, y, z)))"

definition ospSet3i :: "host \<Rightarrow> (api_call \<Rightarrow> 's \<Rightarrow> addr option res \<times> 's) \<Rightarrow> addr \<Rightarrow> string \<Rightarrow> i32 \<Rightarrow> i32 \<Rightarrow> i32 \<Rightarrow>
    's proc \<Rightarrow> addr option res \<times> 's proc" where
  "ospSet3i h exec ob nm x y z = api ''ospSet3i'' h exec (C_setValue ob nm (A_vec3i (x, y, z)))"

definition ospSet4f :: "host \<Rightarrow> (api_call \<Rightarrow> 's \<Rightarrow> addr option res \<times> 's) \<Rightarrow> addr \<Rightarrow> string \<Rightarrow> float_bits \<Rightarrow> float_bits \<Rightarrow> float_bits \<Rightarrow> float_bits \<Rightarrow>
    's proc \<Rightarrow> addr option res \<times> 's proc" where
  "ospSet4f h exec ob nm x y z w = api ''ospSet4f'' h exec (C_setValue ob nm (A_vec4f (x, y, z, w)))"

definition ospSetVoidPtr :: "host \<Rightarrow> (api_call \<Rightarrow> 's \<Rightarrow> addr option res \<times> 's) \<Rightarrow> addr \<Rightarrow> string \<Rightarrow> u64 \<Rightarrow>
    's proc \<Rightarrow> addr option res \<times> 's proc" where
  "ospSetVoidPtr h exec ob nm v = api ''ospSetVoidPtr'' h exec (C_setValue ob nm (A_voidptr v))"

definition ospRemoveParam :: "host \<Rightarrow> (api_call \<Rightarrow> 's \<Rightarrow> addr option res \<times> 's) \<Rightarrow> addr \<Rightarrow> string \<Rightarrow>
    's proc \<Rightarrow> addr option res \<times> 's proc" where
  "ospRemoveParam h exec ob nm = api ''ospRemoveParam'' h exec (C_removeParam ob nm)"

definition ospRelease :: "host \<Rightarrow> (api_call \<Rightarrow> 's \<Rightarrow> addr option res \<times> 's) \<Rightarrow> addr option \<Rightarrow>
    's proc \<Rightarrow> addr option res \<times> 's proc" where
  "ospRelease h exec ob = api ''ospRelease'' h exec (C_release ob)"

text \<open>An instance of a model: a geometry whose transformation and model are set by further
  API calls.  They are made whatever \<open>ospNewGeometry\<close> returned; a null object is
  dereferenced by the device.\<close>

definition ospNewInstance :: "host \<Rightarrow> (api_call \<Rightarrow> 's \<Rightarrow> addr option res \<times> 's) \<Rightarrow> addr option \<Rightarrow>
    vec3f \<times> vec3f \<times> vec3f \<times> vec3f \<Rightarrow> 's proc \<Rightarrow> addr option res \<times> 's proc" where
  "ospNewInstance h exec model xfm = catch_all ''ospNewInstance'' None (\<lambda>p. (case xfm of (vx, vy, vz, pp) \<Rightarrow>
     if \<not> deviceIsSet p then (Inl (not_initialized h), p) else
     (case ospNewGeometry h exec ''instance'' p of
        (Inr (Some geom), p0) \<Rightarrow>
          (let p1 = snd (ospSetVec3f h exec geom ''xfm.l.vx'' vx p0);
               p2 = snd (ospSetVec3f h exec geom ''xfm.l.vy'' vy p1);
               p3 = snd (ospSetVec3f h exec geom ''xfm.l.vz'' vz p2);
               p4 = snd (ospSetVec3f h exec geom ''xfm.p'' pp p3);
               p5 = snd (ospSetObject h exec geom ''model'' model p4)
           in (Inr (Some geom), p5))
      | (Inr None, p0) \<Rightarrow> (Inl Undefined_behaviour, p0)
      | (Inl e, p0) \<Rightarrow> (Inl e, p0))))"

section \<open>What the API relies on in a device\<close>

locale device_interface =
  fixes exec :: "api_call \<Rightarrow> 's \<Rightarrow> addr option res \<times> 's"
    and good :: "addr multiset \<Rightarrow> 's \<Rightarrow> bool"
  assumes exec_holds: "good R s \<Longrightarrow> may_call R c \<Longrightarrow> exec c s = (r, s') \<Longrightarrow>
     good (holds_after c r R) s' \<and> caught r"

definition api_ready :: "(addr multiset \<Rightarrow> 's \<Rightarrow> bool) \<Rightarrow> addr multiset \<Rightarrow> 's proc \<Rightarrow> bool" where
  "api_ready good R p \<longleftrightarrow> (case current p of None \<Rightarrow> False | Some d \<Rightarrow> good R (dev_state d))"

lemma holds_after_null: "holds_after c (Inl e) R = holds_after c (Inr None) R"
  by (simp add: holds_after_def split: api_call.split option.split)

lemma current_postTraceMsg [simp]: "current (postTraceMsg m p) = current p"
  by (simp add: postTraceMsg_def split: option.split)

context device_interface
begin

lemma api_call_ok:
  assumes "api_ready good R p" and "may_call R c"
  shows "\<exists>r p'. api nm h exec c p = (Inr r, p') \<and> api_ready good (holds_after c (Inr r) R) p'"
proof -
  from assms(1) obtain d where d: "current p = Some d" "good R (dev_state d)"
    by (auto simp: api_ready_def split: option.splits)
  obtain r st where r: "exec c (dev_state d) = (r, st)" by (metis prod.exhaust)
  note ok = exec_holds [OF d(2) assms(2) r]
  show ?thesis
  proof (cases r)
    case (Inr x)
    with d r ok show ?thesis
      by (simp add: api_def catch_all_def call_device_def api_ready_def)
  next
    case (Inl e)
    with ok obtain m where "what e = Some m" by auto
    with Inl d r ok show ?thesis
      by (simp add: api_def catch_all_def call_device_def api_ready_def handleError_def holds_after_null)
  qed
qed

end

interpretation local: device_interface "local_call lib" "\<lambda>R d. \<exists>L. balanced (objects d) (R + L)"
proof unfold_locales
  fix R s c r s'
  assume "\<exists>L. balanced (objects s) (R + L)" and "may_call R c" and call: "local_call lib c s = (r, s')"
  then obtain L where "balanced (objects s) (R + L)" by blast
  from local_call_balanced [OF this \<open>may_call R c\<close>, of lib] call
  show "(\<exists>L. balanced (objects s') (holds_after c r R + L)) \<and> caught r"
    by (cases r) auto
qed

text \<open>C22 No API call throws.  A call on an object the application holds, made while the local
  device is current, always returns: when the device throws, the call returns null, the error
  code and the message of the exception are in the device, and the application holds what it
  held (less an object it gave back).\<close>

theorem api_calls_return:
  assumes "current p = Some d" and "balanced (objects (dev_state d)) (R + L)" and "may_call R c"
  shows "\<exists>r p' d' L'. api nm h (local_call lib) c p = (Inr r, p') \<and> current p' = Some d' \<and>
     balanced (objects (dev_state d')) (holds_after c (Inr r) R + L') \<and>
     (\<forall>m. fst (local_call lib c (dev_state d)) = Inl (Runtime_error m) \<longrightarrow>
        r = None \<and> lastErrorCode d' = OSP_UNKNOWN_ERROR \<and> lastErrorMsg d' = m)"
proof -
  have "api_ready (\<lambda>R d. \<exists>L. balanced (objects d) (R + L)) R p"
    using assms(1,2) by (auto simp: api_ready_def)
  from local.api_call_ok [OF this assms(3), of nm h lib] obtain r p' where
    r: "api nm h (local_call lib) c p = (Inr r, p')"
      "api_ready (\<lambda>R d. \<exists>L. balanced (objects d) (R + L)) (holds_after c (Inr r) R) p'" by blast
  then obtain d' L' where d': "current p' = Some d'"
    "balanced (objects (dev_state d')) (holds_after c (Inr r) R + L')"
    by (auto simp: api_ready_def split: option.splits)
  have "r = None \<and> lastErrorCode d' = OSP_UNKNOWN_ERROR \<and> lastErrorMsg d' = m"
    if "fst (local_call lib c (dev_state d)) = Inl (Runtime_error m)" for m
    using that r(1) assms(1) d'(1)
    by (cases "local_call lib c (dev_state d)")
       (auto simp: api_def catch_all_def call_device_def handleError_def)
  with r(1) d' show ?thesis by blast
qed

theorem api_calls_return_witness:
  "\<exists>r p' d'. api ''ospNewGeometry'' demo_host (local_call (\<lambda>_. False)) (C_new OSP_GEOMETRY ''cones'')
       (\<lparr>current = Some (new_device ''default'' \<lparr>objects = [], registries = \<lambda>_. Map.empty\<rparr>), logLevel = 0,
         printed = [], repo = [], device_registry = Map.empty, tasking_threads = None\<rparr>) = (Inr r, p') \<and>
     current p' = Some d' \<and> r = None \<and> lastErrorMsg d' = ''Could not find geometry of type: cones''"
proof -
  let ?d = "new_device ''default'' \<lparr>objects = [], registries = \<lambda>_. Map.empty\<rparr>"
  let ?p = "\<lparr>current = Some ?d, logLevel = 0, printed = [], repo = [], device_registry = Map.empty,
     tasking_threads = None\<rparr>"
  have "balanced (objects (dev_state ?d)) ({#} + {#})" by (simp add: new_device_def) (rule balancedI, auto simp: refs_def get_obj_def)
  moreover have "may_call {#} (C_new OSP_GEOMETRY ''cones'')" by simp
  moreover have "fst (local_call (\<lambda>_. False) (C_new OSP_GEOMETRY ''cones'') (dev_state ?d)) =
     Inl (Runtime_error ''Could not find geometry of type: cones'')"
    by (simp add: new_device_def createInstance_def objectFactory_def)
  ultimately show ?thesis
    using api_calls_return [of ?p ?d "{#}" "{#}" "C_new OSP_GEOMETRY ''cones''" "''ospNewGeometry''" demo_host "\<lambda>_. False"]
    by auto
qed

text \<open>Without the geometry \<open>instance\<close>, \<open>ospNewInstance\<close> goes on with a null object.\<close>

lemma new_instance_of_null:
  assumes "current p = Some d" and "registries (dev_state d) OSP_GEOMETRY ''instance'' = None"
  shows "fst (ospNewInstance h (local_call (\<lambda>_. False)) model xfm p) = Inl Undefined_behaviour"
proof -
  have "local_call (\<lambda>_. False) (C_new OSP_GEOMETRY ''instance'') (dev_state d) =
     (Inl (Runtime_error ''Could not find geometry of type: instance''),
      (dev_state d)\<lparr>registries := (registries (dev_state d))(OSP_GEOMETRY := (registries (dev_state d) OSP_GEOMETRY)(''instance'' := None))\<rparr>)"
    using assms(2) by (simp add: createInstance_def objectFactory_def)
  then have "fst (ospNewGeometry h (local_call (\<lambda>_. False)) ''instance'' p) = Inr None"
    using assms(1) by (simp add: ospNewGeometry_def api_new_def catch_all_def call_device_def)
  then show ?thesis using assms(1)
    by (cases xfm) (auto simp: ospNewInstance_def catch_all_def deviceIsSet_def split: prod.splits)
qed

end
