(* ===== verification/FileNames.thy ===== *)
theory FileNames
  imports StringUtils
begin

text \<open>
  Pseudo URLs (\<open>utility/PseudoURL.cpp\<close>): \<open>type://file:name=value:...\<close>, and the
  class \<open>FileName\<close> of \<open>FileName.cpp\<close> with \<open>'/'\<close> as the path separator.
\<close>

section \<open>Pseudo URLs\<close>

record pseudo_url =
  url_type :: string
  url_fileName :: string
  url_params :: "(string \<times> string) list"

definition parse_arg :: "string \<Rightarrow> string \<times> string" where
  "parse_arg arg = (case find_first (\<lambda>c. c = CHR ''='') arg 0 of
      Some equalSign \<Rightarrow> (substr arg 0 equalSign, drop (equalSign + 1) arg)
    | None \<Rightarrow> (arg, []))"

definition PseudoURL :: "string \<Rightarrow> pseudo_url" where
  "PseudoURL inputString =
     (let (ty, tmp) = (case find_str ''://'' inputString of
              Some separator \<Rightarrow> (substr inputString 0 separator, drop (separator + 3) inputString)
            | None \<Rightarrow> ([], inputString));
          colonSeparatedComponents = tokenize tmp CHR '':'' []
      in (case colonSeparatedComponents of
            [] \<Rightarrow> \<lparr>url_type = ty, url_fileName = [], url_params = []\<rparr>
          | fn # args \<Rightarrow> \<lparr>url_type = ty, url_fileName = fn, url_params = map parse_arg args\<rparr>))"

definition getType :: "pseudo_url \<Rightarrow> string" where
  "getType u = url_type u"

definition getFileName :: "pseudo_url \<Rightarrow> string" where
  "getFileName u = url_fileName u"

text \<open>The loop keeps the last index with the name.\<close>

fun getValue_loop :: "string \<Rightarrow> nat \<Rightarrow> (string \<times> string) list \<Rightarrow> nat option \<Rightarrow> nat option" where
  "getValue_loop nm i [] found = found"
| "getValue_loop nm i (p # ps) found = getValue_loop nm (Suc i) ps (if fst p = nm then Some i else found)"

definition getValue :: "string \<Rightarrow> pseudo_url \<Rightarrow> string res" where
  "getValue nm u = (case getValue_loop nm 0 (url_params u) None of
      None \<Rightarrow> Inl (Runtime_error ''PseudoURL::getValue queried value of not-specified parameter'')
    | Some found \<Rightarrow> Inr (snd (url_params u ! found)))"

definition url_hasParam :: "string \<Rightarrow> pseudo_url \<Rightarrow> bool" where
  "url_hasParam nm u = list_ex (\<lambda>p. fst p = nm) (url_params u)"

text \<open>The text of a pseudo URL.\<close>

definition show_arg :: "string \<times> string \<Rightarrow> string" where
  "show_arg p = fst p @ CHR ''='' # snd p"

primrec show_args :: "(string \<times> string) list \<Rightarrow> string" where
  "show_args [] = []"
| "show_args (p # ps) = CHR '':'' # show_arg p @ show_args ps"

definition show_url :: "pseudo_url \<Rightarrow> string" where
  "show_url u = url_type u @ ''://'' @ url_fileName u @ show_args (url_params u)"

definition arg_ok :: "string \<times> string \<Rightarrow> bool" where
  "arg_ok p \<longleftrightarrow> CHR ''='' \<notin> set (fst p) \<and> CHR '':'' \<notin> set (fst p) \<and> CHR '':'' \<notin> set (snd p) \<and> p \<noteq> ([], [])"

definition url_ok :: "pseudo_url \<Rightarrow> bool" where
  "url_ok u \<longleftrightarrow> CHR '':'' \<notin> set (url_type u) \<and> CHR '':'' \<notin> set (url_fileName u) \<and>
     1 < length (url_fileName u) \<and> list_all arg_ok (url_params u)"

lemma tokenize_fields:
  "tokenize str delim tokens = tokens @ filter (\<lambda>f. 1 < length f) (fields_of (\<lambda>c. c = delim) str)"
  by (simp add: tokenize_def tokenize_loop_fields)

lemma parse_show_arg: "CHR ''='' \<notin> set (fst p) \<Longrightarrow> parse_arg (show_arg p) = p"
proof -
  assume "CHR ''='' \<notin> set (fst p)"
  then have "find_first (\<lambda>c. c = CHR ''='') (fst p @ CHR ''='' # snd p) 0 = Some (length (fst p))"
    by (intro find_first_append) auto
  then show ?thesis by (simp add: parse_arg_def show_arg_def substr_def)
qed

lemma fields_show_args:
  "CHR '':'' \<notin> set f \<Longrightarrow> list_all arg_ok ps \<Longrightarrow>
     fields_of (\<lambda>c. c = CHR '':'') (f @ show_args ps) = f # map show_arg ps"
proof (induction ps arbitrary: f)
  case Nil
  then show ?case by (auto intro!: fields_none)
next
  case (Cons p ps)
  then have "CHR '':'' \<notin> set (show_arg p)" by (auto simp: arg_ok_def show_arg_def)
  with Cons have "fields_of (\<lambda>c. c = CHR '':'') (show_arg p @ show_args ps) = map show_arg (p # ps)" by simp
  with Cons.prems show ?case
    using fields_append [of "\<lambda>c. c = CHR '':''" "CHR '':''" f "show_arg p @ show_args ps"] by auto
qed

lemma arg_ok_length: "arg_ok p \<Longrightarrow> 1 < length (show_arg p)"
  by (cases p) (auto simp: arg_ok_def show_arg_def)

lemma find_separator:
  assumes "CHR '':'' \<notin> set ty"
  shows "find_str ''://'' (ty @ ''://'' @ r) = Some (length ty)"
proof (rule find_str_first)
  show "\<forall>i<length ty. take (length ''://'') (drop i (ty @ ''://'' @ r)) \<noteq> ''://''"
  proof (intro allI impI notI)
    fix i
    assume i: "i < length ty" and "take (length ''://'') (drop i (ty @ ''://'' @ r)) = ''://''"
    then have "hd (take (length ''://'') (drop i (ty @ ''://'' @ r))) = CHR '':''" by simp
    then have "(ty @ ''://'' @ r) ! i = CHR '':''" using i by (simp add: hd_drop_conv_nth nth_append)
    then have "ty ! i = CHR '':''" using i by (simp add: nth_append)
    with nth_mem [OF i] assms show False by simp
  qed
qed simp_all

lemma getValue_loop_last:
  "getValue_loop nm i ps found =
     (if \<exists>p\<in>set ps. fst p = nm
      then Some (i + (length ps - 1 - length (takeWhile (\<lambda>p. fst p \<noteq> nm) (rev ps)))) else found)"
proof (induction ps arbitrary: i found)
  case (Cons p ps)
  show ?case
  proof (cases "\<exists>q\<in>set ps. fst q = nm")
    case True
    then have "takeWhile (\<lambda>p. fst p \<noteq> nm) (rev ps @ [p]) = takeWhile (\<lambda>p. fst p \<noteq> nm) (rev ps)"
      by (auto intro: takeWhile_append1)
    moreover have "length (takeWhile (\<lambda>p. fst p \<noteq> nm) (rev ps)) < length ps"
    proof -
      have "length (takeWhile Q xs) < length xs" if "\<exists>x\<in>set xs. \<not> Q x" for Q and xs :: "(string \<times> string) list"
        using that by (induction xs) auto
      from this [of "rev ps" "\<lambda>p. fst p \<noteq> nm"] True show ?thesis by simp
    qed
    ultimately show ?thesis using True Cons.IH by simp
  next
    case False
    then have "takeWhile (\<lambda>p. fst p \<noteq> nm) (rev ps @ [p]) = rev ps @ (if fst p = nm then [] else [p])"
      by (subst takeWhile_append2) auto
    with False Cons.IH show ?thesis by simp
  qed
qed simp

text \<open>\<open>getValue\<close> is the lookup in which the last value of a name counts.\<close>

lemma getValue_map_of:
  "getValue nm u = (case map_of (rev (url_params u)) nm of
      None \<Rightarrow> Inl (Runtime_error ''PseudoURL::getValue queried value of not-specified parameter'')
    | Some v \<Rightarrow> Inr v)"
proof (cases "\<exists>p\<in>set (url_params u). fst p = nm")
  case False
  then have "map_of (rev (url_params u)) nm = None" by (auto simp: map_of_eq_None_iff)
  with False show ?thesis by (simp add: getValue_def getValue_loop_last)
next
  case True
  let ?ps = "url_params u" and ?Q = "\<lambda>p. fst p \<noteq> nm"
  let ?n = "length (takeWhile ?Q (rev ?ps))"
  have look: "map_of xs nm = Some (snd (xs ! length (takeWhile ?Q xs))) \<and> length (takeWhile ?Q xs) < length xs"
    if "\<exists>p\<in>set xs. fst p = nm" for xs
    using that by (induction xs) auto
  from look [of "rev ?ps"] True have "map_of (rev ?ps) nm = Some (snd (rev ?ps ! ?n))" "?n < length ?ps"
    by auto
  moreover from this have "rev ?ps ! ?n = ?ps ! (length ?ps - 1 - ?n)" by (simp add: rev_nth)
  ultimately show ?thesis using True by (simp add: getValue_def getValue_loop_last)
qed

text \<open>C27 A pseudo URL is parsed back from its text: for a type and a file name without
  colons (the file name longer than one character), and parameters without colons
  whose names have no equal sign, the constructor recovers type, file name and every
  parameter in order; \<open>getValue\<close> then gives the last value of a name and throws for
  a name that is not there.\<close>

theorem pseudo_url_round_trip:
  assumes "url_ok u"
  shows "PseudoURL (show_url u) = u \<and>
     getValue nm (PseudoURL (show_url u)) = (case map_of (rev (url_params u)) nm of
        None \<Rightarrow> Inl (Runtime_error ''PseudoURL::getValue queried value of not-specified parameter'')
      | Some v \<Rightarrow> Inr v)"
proof -
  let ?r = "url_fileName u @ show_args (url_params u)"
  from assms have ty: "CHR '':'' \<notin> set (url_type u)" and fn: "CHR '':'' \<notin> set (url_fileName u)"
    "1 < length (url_fileName u)" and ps: "list_all arg_ok (url_params u)"
    by (auto simp: url_ok_def)
  have "filter (\<lambda>f. 1 < length f) (map show_arg (url_params u)) = map show_arg (url_params u)"
    using ps by (intro filter_True) (auto simp: list_all_iff intro!: arg_ok_length [simplified])
  then have "tokenize ?r CHR '':'' [] = url_fileName u # map show_arg (url_params u)"
    using fn by (simp add: tokenize_fields fields_show_args ps)
  moreover have "map (parse_arg \<circ> show_arg) (url_params u) = url_params u"
    using ps by (intro map_idI) (auto simp: list_all_iff arg_ok_def intro: parse_show_arg)
  ultimately have "PseudoURL (show_url u) = u"
    by (simp add: PseudoURL_def show_url_def find_separator [OF ty, simplified] substr_def)
  then show ?thesis by (simp add: getValue_map_of)
qed

theorem pseudo_url_round_trip_witness:
  "PseudoURL ''points://a.raw:format=xyz:radius=2:radius=3'' =
     \<lparr>url_type = ''points'', url_fileName = ''a.raw'',
      url_params = [(''format'', ''xyz''), (''radius'', ''2''), (''radius'', ''3'')]\<rparr> \<and>
   getValue ''radius'' (PseudoURL ''points://a.raw:format=xyz:radius=2:radius=3'') = Inr ''3''"
  using pseudo_url_round_trip [of "\<lparr>url_type = ''points'', url_fileName = ''a.raw'',
      url_params = [(''format'', ''xyz''), (''radius'', ''2''), (''radius'', ''3'')]\<rparr>" "''radius''"]
  by (auto simp: url_ok_def arg_ok_def show_url_def show_arg_def)

text \<open>Components of one character are lost: the example of the comment in
  \<open>tokenize\<close> yields no token at all.\<close>

lemma tokenize_drops_single: "tokenize ''a::c::b'' CHR '':'' [] = []"
  by (simp add: tokenize_fields)

section \<open>File names\<close>

definition path_sep :: char where
  "path_sep = CHR ''/''"

function strip_separators :: "string \<Rightarrow> string" where
  "strip_separators f = (if f \<noteq> [] \<and> last f = path_sep then strip_separators (butlast f) else f)"
  by pat_completeness auto
termination by (relation "measure length") auto

declare strip_separators.simps [simp del]

text \<open>A file name is its string; this is the constructor.\<close>

definition FileName :: "string \<Rightarrow> string" where
  "FileName s = strip_separators (map (\<lambda>c. if c = CHR 0x5C \<or> c = CHR ''/'' then path_sep else c) s)"

definition fn_path :: "string \<Rightarrow> string" where
  "fn_path f = (case find_last (\<lambda>c. c = path_sep) f of None \<Rightarrow> [] | Some i \<Rightarrow> substr f 0 (i + 1))"

definition fn_base :: "string \<Rightarrow> string" where
  "fn_base f = (case find_last (\<lambda>c. c = path_sep) f of None \<Rightarrow> f | Some i \<Rightarrow> drop (i + 1) f)"

definition fn_ext :: "string \<Rightarrow> string" where
  "fn_ext f = (case find_last (\<lambda>c. c = CHR ''.'') f of None \<Rightarrow> [] | Some i \<Rightarrow> drop (i + 1) f)"

definition fn_dropExt :: "string \<Rightarrow> string" where
  "fn_dropExt f = (case find_last (\<lambda>c. c = CHR ''.'') f of None \<Rightarrow> FileName f | Some i \<Rightarrow> FileName (substr f 0 i))"

definition fn_name :: "string \<Rightarrow> string" where
  "fn_name f =
     (let start = (case find_last (\<lambda>c. c = path_sep) f of None \<Rightarrow> 0 | Some i \<Rightarrow> i + 1);
          e = (case find_last (\<lambda>c. c = CHR ''.'') f of None \<Rightarrow> length f
                 | Some i \<Rightarrow> if i < start then length f else i)
      in substr f start (e - start))"

definition fn_setExt :: "string \<Rightarrow> string \<Rightarrow> string" where
  "fn_setExt f ext =
     (let start = (case find_last (\<lambda>c. c = path_sep) f of None \<Rightarrow> 0 | Some i \<Rightarrow> i + 1)
      in (case find_last (\<lambda>c. c = CHR ''.'') f of
            None \<Rightarrow> FileName (f @ ext)
          | Some e \<Rightarrow> if e < start then FileName (f @ ext) else FileName (substr f 0 e @ ext)))"

definition fn_addExt :: "string \<Rightarrow> string \<Rightarrow> string" where
  "fn_addExt f ext = FileName (f @ ext)"

definition fn_plus :: "string \<Rightarrow> string \<Rightarrow> string" where
  "fn_plus f other = (if f = [] then other else FileName (f @ path_sep # other))"

definition fn_plus_string :: "string \<Rightarrow> string \<Rightarrow> string" where
  "fn_plus_string f other = fn_plus f (FileName other)"

text \<open>\<open>find_first_of\<close> searches for any character of \<open>base\<close>.\<close>

definition fn_minus :: "string \<Rightarrow> string \<Rightarrow> string" where
  "fn_minus f base = (case find_first (\<lambda>c. c \<in> set base) f 0 of
      None \<Rightarrow> f | Some p \<Rightarrow> FileName (drop (p + 1) f))"

text \<open>What the constructor establishes.\<close>

definition fname_ok :: "string \<Rightarrow> bool" where
  "fname_ok f \<longleftrightarrow> CHR 0x5C \<notin> set f \<and> (f \<noteq> [] \<longrightarrow> last f \<noteq> path_sep)"

lemma strip_separators_split:
  "\<exists>n. f = strip_separators f @ replicate n path_sep \<and>
       (strip_separators f \<noteq> [] \<longrightarrow> last (strip_separators f) \<noteq> path_sep)"
proof (induction f rule: strip_separators.induct)
  case (1 f)
  show ?case
  proof (cases "f \<noteq> [] \<and> last f = path_sep")
    case True
    from 1 [OF True] obtain n where n:
      "butlast f = strip_separators (butlast f) @ replicate n path_sep"
      "strip_separators (butlast f) \<noteq> [] \<longrightarrow> last (strip_separators (butlast f)) \<noteq> path_sep" by blast
    have "f = butlast f @ [path_sep]" using True by (metis append_butlast_last_id)
    then have "f = strip_separators (butlast f) @ replicate (Suc n) path_sep"
      using n(1) by (metis append_assoc replicate_append_same replicate_Suc)
    moreover have "strip_separators f = strip_separators (butlast f)"
      using True by (subst strip_separators.simps) simp
    ultimately show ?thesis using n(2) by (intro exI [of _ "Suc n"]) simp
  next
    case False
    then have "strip_separators f = f" by (subst strip_separators.simps) auto
    with False show ?thesis by (intro exI [of _ 0]) auto
  qed
qed

lemma FileName_ok: "fname_ok (FileName s)"
proof -
  let ?m = "map (\<lambda>c. if c = CHR 0x5C \<or> c = CHR ''/'' then path_sep else c) s"
  from strip_separators_split [of ?m] obtain n where
    n: "?m = strip_separators ?m @ replicate n path_sep"
      "strip_separators ?m \<noteq> [] \<longrightarrow> last (strip_separators ?m) \<noteq> path_sep" by blast
  have "CHR 0x5C \<notin> set ?m" by (auto simp: path_sep_def)
  then have "CHR 0x5C \<notin> set (strip_separators ?m)" by (subst (asm) n(1)) simp
  with n(2) show ?thesis unfolding fname_ok_def FileName_def by blast
qed

lemma FileName_id: "fname_ok f \<Longrightarrow> FileName f = f"
proof -
  assume ok: "fname_ok f"
  then have "map (\<lambda>c. if c = CHR 0x5C \<or> c = CHR ''/'' then path_sep else c) f = f"
    by (intro map_idI) (auto simp: fname_ok_def path_sep_def)
  with ok show ?thesis
    by (simp add: FileName_def fname_ok_def) (subst strip_separators.simps, auto)
qed

lemma path_base: "fn_path f @ fn_base f = f"
  by (auto simp: fn_path_def fn_base_def substr_def split: option.splits)

lemma path_length:
  "length (fn_path f) = (case find_last (\<lambda>c. c = path_sep) f of None \<Rightarrow> 0 | Some i \<Rightarrow> i + 1)"
  by (auto simp: fn_path_def substr_def dest: find_last_Some(1) split: option.splits)

lemma path_name:
  "fn_path f @ fn_name f =
     (case find_last (\<lambda>c. c = CHR ''.'') f of
        None \<Rightarrow> f | Some e \<Rightarrow> if e < length (fn_path f) then f else take e f)"
proof -
  have p: "fn_path f = take (length (fn_path f)) f"
    by (metis append_eq_conv_conj path_base)
  have n: "fn_name f = (case find_last (\<lambda>c. c = CHR ''.'') f of
        None \<Rightarrow> drop (length (fn_path f)) f
      | Some e \<Rightarrow> if e < length (fn_path f) then drop (length (fn_path f)) f
                  else take (e - length (fn_path f)) (drop (length (fn_path f)) f))"
    by (simp add: fn_name_def path_length [symmetric] Let_def substr_def split: option.splits)
  have t: "take k f @ take (e - k) (drop k f) = take e f" if "k \<le> e" for k e
    using that by (metis le_add_diff_inverse take_add)
  show ?thesis by (subst p, subst n) (auto simp: t split: option.splits)
qed

text \<open>The extension is the part behind the last dot of the base name.\<close>

lemma name_ext:
  assumes "CHR ''.'' \<in> set (fn_base f)"
  shows "fn_base f = fn_name f @ CHR ''.'' # fn_ext f" and "CHR ''.'' \<notin> set (fn_ext f)"
proof -
  let ?D = "\<lambda>c. c = CHR ''.''" and ?k = "length (fn_path f)"
  have base: "drop ?k f = fn_base f" by (metis append_eq_conv_conj path_base)
  have "CHR ''.'' \<in> set f" using assms path_base by (metis UnI2 set_append)
  then obtain e where e: "find_last ?D f = Some e" using find_last_None [of ?D f] by fastforce
  note le = find_last_Some [OF e]
  have "\<not> e < ?k"
  proof
    assume "e < ?k"
    then have "set (drop ?k f) \<subseteq> set (drop (Suc e) f)" by (simp add: set_drop_subset_set_drop)
    with le(3) assms base show False by auto
  qed
  then have "fn_path f @ fn_name f = take e f" using path_name [of f] e by simp
  then have "fn_path f @ fn_name f @ CHR ''.'' # fn_ext f = f"
    using le by (metis (mono_tags) append_assoc append_take_drop_id Cons_nth_drop_Suc e fn_ext_def
        option.simps(5) Suc_eq_plus1)
  then show "fn_base f = fn_name f @ CHR ''.'' # fn_ext f" by (metis path_base same_append_eq)
  show "CHR ''.'' \<notin> set (fn_ext f)" using le(3) e by (auto simp: fn_ext_def)
qed

text \<open>C28 Parts of a file name.  The constructor yields a name without backslashes
  and trailing separators and leaves such a name as it is; path and base name make up
  the file name; and \<open>setExt\<close> replaces the extension of the base name (appends it when
  the base name has none) without touching the path.\<close>

theorem file_name_parts:
  "fname_ok (FileName s) \<and> FileName (FileName s) = FileName s \<and>
   fn_path f @ fn_base f = f \<and>
   fn_setExt f ext = FileName (fn_path f @ fn_name f @ ext) \<and>
   fn_base f = fn_name f @ (if CHR ''.'' \<in> set (fn_base f) then CHR ''.'' # fn_ext f else [])"
proof (intro conjI)
  show "fname_ok (FileName s)" by (rule FileName_ok)
  then show "FileName (FileName s) = FileName s" by (rule FileName_id)
  show "fn_path f @ fn_base f = f" by (rule path_base)
  show "fn_setExt f ext = FileName (fn_path f @ fn_name f @ ext)"
    unfolding append_assoc [symmetric] path_name
    by (simp add: fn_setExt_def path_length Let_def substr_def split: option.splits)
  show "fn_base f = fn_name f @ (if CHR ''.'' \<in> set (fn_base f) then CHR ''.'' # fn_ext f else [])"
  proof (cases "CHR ''.'' \<in> set (fn_base f)")
    case True
    with name_ext(1) [OF True] show ?thesis by simp
  next
    case False
    have "fn_path f @ fn_name f = f"
    proof (cases "find_last (\<lambda>c. c = CHR ''.'') f")
      case (Some e)
      note le = find_last_Some [OF Some]
      have "e < length (fn_path f)"
      proof (rule ccontr)
        assume "\<not> e < length (fn_path f)"
        moreover have "f ! e = (fn_path f @ fn_base f) ! e" by (simp add: path_base)
        moreover have "e < length (fn_path f @ fn_base f)" using le(1) by (simp only: path_base)
        ultimately have "f ! e \<in> set (fn_base f)" by (simp add: nth_append)
        with le(2) False show False by simp
      qed
      with Some path_name [of f] show ?thesis by simp
    qed (simp add: path_name)
    then show ?thesis using False by (metis append_Nil2 path_base same_append_eq)
  qed
qed

text \<open>\<open>dropExt\<close> and \<open>ext\<close> do not look at the separator: a dot in a directory name cuts the
  path.  And \<open>operator-\<close> does not remove a base path.\<close>

lemma dropExt_cuts_directory: "fn_dropExt ''data.v2/head'' = ''data'' \<and> fn_ext ''data.v2/head'' = ''v2/head''"
  by code_simp

lemma minus_not_inverse: "fn_minus (fn_plus ''scene'' ''mesh'') ''scene'' = ''cene/mesh''"
  by code_simp

end
