(* ===== verification/AsyncLoop.thy ===== *)
theory AsyncLoop
  imports Prelude
begin

text \<open>
  \<open>AsyncLoop\<close> (\<open>components/ospcommon/AsyncLoop.h\<close>): a background thread that calls a
  function over and over while the loop is started.  The model is a step relation on
  the shared flags, the mutex and the program counters of the background thread and
  of the one client thread that calls \<open>start\<close>, \<open>stop\<close> and the destructor.  Every
  access to shared data is a step of its own.  Waiting on the condition variable with
  a predicate is the loop of the standard: test the predicate, and when it is false
  release the mutex and block in one step.  Spurious wakeups, which the standard
  allows, are steps of their own relation.
\<close>

section \<open>The state\<close>

datatype thread = Loop | Client

datatype loop_pc =
    L_top      \<comment> \<open>\<open>while (threadShouldBeAlive)\<close>\<close>
  | L_lock     \<comment> \<open>\<open>unique_lock lock(loopRunningMutex)\<close>\<close>
  | L_pred     \<comment> \<open>the predicate of \<open>wait\<close>\<close>
  | L_block    \<comment> \<open>about to block\<close>
  | L_waiting  \<comment> \<open>blocked\<close>
  | L_relock   \<comment> \<open>woken, takes the mutex again\<close>
  | L_alive    \<comment> \<open>\<open>if (!threadShouldBeAlive) return\<close>\<close>
  | L_enter    \<comment> \<open>\<open>insideLoopBody = true\<close>\<close>
  | L_test     \<comment> \<open>\<open>if (loopShouldBeRunning)\<close>\<close>
  | L_body     \<comment> \<open>\<open>fcn()\<close>\<close>
  | L_leave    \<comment> \<open>\<open>insideLoopBody = false\<close>\<close>
  | L_unlock   \<comment> \<open>end of the scope of \<open>lock\<close>\<close>
  | L_return   \<comment> \<open>\<open>lock\<close> is released on the way out\<close>
  | L_done

datatype client_pc =
    C_idle
  | S_test | S_set | S_notify
  | P_test | P_clear | P_lock | P_pred | P_block | P_waiting | P_relock | P_unlock
  | D_kill | D_test | D_set | D_notify | D_join | D_done

record async_loop =
  threadShouldBeAlive :: bool
  loopShouldBeRunning :: bool
  insideLoopBody :: bool
  mutex_owner :: "thread option"
  lpc :: loop_pc
  cpc :: client_pc

definition AsyncLoop_init :: async_loop where
  "AsyncLoop_init = \<lparr>threadShouldBeAlive = True, loopShouldBeRunning = False, insideLoopBody = False,
     mutex_owner = None, lpc = L_top, cpc = C_idle\<rparr>"

section \<open>The background thread\<close>

inductive loop_step :: "async_loop \<Rightarrow> async_loop \<Rightarrow> bool" where
  top: "lpc s = L_top \<Longrightarrow> loop_step s (s\<lparr>lpc := (if threadShouldBeAlive s then L_lock else L_done)\<rparr>)"
| lock: "lpc s = L_lock \<Longrightarrow> mutex_owner s = None \<Longrightarrow>
    loop_step s (s\<lparr>lpc := L_pred, mutex_owner := Some Loop\<rparr>)"
| pred: "lpc s = L_pred \<Longrightarrow> loop_step s (s\<lparr>lpc := (if loopShouldBeRunning s then L_alive else L_block)\<rparr>)"
| block: "lpc s = L_block \<Longrightarrow> loop_step s (s\<lparr>lpc := L_waiting, mutex_owner := None\<rparr>)"
| relock: "lpc s = L_relock \<Longrightarrow> mutex_owner s = None \<Longrightarrow>
    loop_step s (s\<lparr>lpc := L_pred, mutex_owner := Some Loop\<rparr>)"
| alive: "lpc s = L_alive \<Longrightarrow> loop_step s (s\<lparr>lpc := (if threadShouldBeAlive s then L_enter else L_return)\<rparr>)"
| enter: "lpc s = L_enter \<Longrightarrow> loop_step s (s\<lparr>lpc := L_test, insideLoopBody := True\<rparr>)"
| test: "lpc s = L_test \<Longrightarrow> loop_step s (s\<lparr>lpc := (if loopShouldBeRunning s then L_body else L_leave)\<rparr>)"
| body: "lpc s = L_body \<Longrightarrow> loop_step s (s\<lparr>lpc := L_leave\<rparr>)"
| leave: "lpc s = L_leave \<Longrightarrow> loop_step s (s\<lparr>lpc := L_unlock, insideLoopBody := False\<rparr>)"
| unlock: "lpc s = L_unlock \<Longrightarrow> loop_step s (s\<lparr>lpc := L_top, mutex_owner := None\<rparr>)"
| return: "lpc s = L_return \<Longrightarrow> loop_step s (s\<lparr>lpc := L_done, mutex_owner := None\<rparr>)"

section \<open>The client\<close>

text \<open>\<open>notify_one\<close> wakes the background thread if it is blocked, and is lost otherwise.\<close>

definition notify_loop :: "async_loop \<Rightarrow> async_loop" where
  "notify_loop s = (if lpc s = L_waiting then s\<lparr>lpc := L_relock\<rparr> else s)"

inductive client_step :: "async_loop \<Rightarrow> async_loop \<Rightarrow> bool" where
  start: "cpc s = C_idle \<Longrightarrow> client_step s (s\<lparr>cpc := S_test\<rparr>)"
| stop: "cpc s = C_idle \<Longrightarrow> client_step s (s\<lparr>cpc := P_test\<rparr>)"
| destroy: "cpc s = C_idle \<Longrightarrow> client_step s (s\<lparr>cpc := D_kill\<rparr>)"
| start_test: "cpc s = S_test \<Longrightarrow> client_step s (s\<lparr>cpc := (if loopShouldBeRunning s then C_idle else S_set)\<rparr>)"
| start_set: "cpc s = S_set \<Longrightarrow> client_step s (s\<lparr>cpc := S_notify, loopShouldBeRunning := True\<rparr>)"
| start_notify: "cpc s = S_notify \<Longrightarrow> client_step s ((notify_loop s)\<lparr>cpc := C_idle\<rparr>)"
| stop_test: "cpc s = P_test \<Longrightarrow> client_step s (s\<lparr>cpc := (if loopShouldBeRunning s then P_clear else C_idle)\<rparr>)"
| stop_clear: "cpc s = P_clear \<Longrightarrow> client_step s (s\<lparr>cpc := P_lock, loopShouldBeRunning := False\<rparr>)"
| stop_lock: "cpc s = P_lock \<Longrightarrow> mutex_owner s = None \<Longrightarrow>
    client_step s (s\<lparr>cpc := P_pred, mutex_owner := Some Client\<rparr>)"
| stop_pred: "cpc s = P_pred \<Longrightarrow> client_step s (s\<lparr>cpc := (if insideLoopBody s then P_block else P_unlock)\<rparr>)"
| stop_block: "cpc s = P_block \<Longrightarrow> client_step s (s\<lparr>cpc := P_waiting, mutex_owner := None\<rparr>)"
| stop_relock: "cpc s = P_relock \<Longrightarrow> mutex_owner s = None \<Longrightarrow>
    client_step s (s\<lparr>cpc := P_pred, mutex_owner := Some Client\<rparr>)"
| stop_unlock: "cpc s = P_unlock \<Longrightarrow> client_step s (s\<lparr>cpc := C_idle, mutex_owner := None\<rparr>)"
| destroy_kill: "cpc s = D_kill \<Longrightarrow> client_step s (s\<lparr>cpc := D_test, threadShouldBeAlive := False\<rparr>)"
| destroy_test: "cpc s = D_test \<Longrightarrow> client_step s (s\<lparr>cpc := (if loopShouldBeRunning s then D_join else D_set)\<rparr>)"
| destroy_set: "cpc s = D_set \<Longrightarrow> client_step s (s\<lparr>cpc := D_notify, loopShouldBeRunning := True\<rparr>)"
| destroy_notify: "cpc s = D_notify \<Longrightarrow> client_step s ((notify_loop s)\<lparr>cpc := D_join\<rparr>)"
| destroy_join: "cpc s = D_join \<Longrightarrow> lpc s = L_done \<Longrightarrow> client_step s (s\<lparr>cpc := D_done\<rparr>)"

inductive_cases client_stepE: "client_step s s'"
inductive_cases loop_stepE: "loop_step s s'"

inductive spurious_wakeup :: "async_loop \<Rightarrow> async_loop \<Rightarrow> bool" where
  "lpc s = L_waiting \<Longrightarrow> spurious_wakeup s (s\<lparr>lpc := L_relock\<rparr>)"
| "cpc s = P_waiting \<Longrightarrow> spurious_wakeup s (s\<lparr>cpc := P_relock\<rparr>)"

definition al_step :: "async_loop \<Rightarrow> async_loop \<Rightarrow> bool" where
  "al_step s s' \<longleftrightarrow> loop_step s s' \<or> client_step s s'"

inductive al_reachable :: "async_loop \<Rightarrow> bool" where
  init: "al_reachable AsyncLoop_init"
| step: "al_reachable s \<Longrightarrow> al_step s s' \<Longrightarrow> al_reachable s'"
| spurious: "al_reachable s \<Longrightarrow> spurious_wakeup s s' \<Longrightarrow> al_reachable s'"

section \<open>The invariant\<close>

definition loop_holds_lock :: "loop_pc set" where
  "loop_holds_lock = {L_pred, L_block, L_alive, L_enter, L_test, L_body, L_leave, L_unlock, L_return}"

definition inside_stop :: "client_pc set" where
  "inside_stop = {P_lock, P_pred, P_block, P_waiting, P_relock, P_unlock}"

definition al_inv :: "async_loop \<Rightarrow> bool" where
  "al_inv s \<longleftrightarrow>
     (mutex_owner s = Some Loop \<longleftrightarrow> lpc s \<in> loop_holds_lock) \<and>
     (mutex_owner s = Some Client \<longleftrightarrow> cpc s \<in> {P_pred, P_block, P_unlock}) \<and>
     (insideLoopBody s \<longleftrightarrow> lpc s \<in> {L_test, L_body, L_leave}) \<and>
     (cpc s \<in> inside_stop \<longrightarrow> \<not> loopShouldBeRunning s) \<and>
     cpc s \<notin> {P_block, P_waiting, P_relock} \<and>
     (\<not> loopShouldBeRunning s \<and> cpc s \<notin> inside_stop \<longrightarrow> lpc s \<noteq> L_body)"

lemmas al_defs = al_inv_def loop_holds_lock_def inside_stop_def

lemma al_inv_init: "al_inv AsyncLoop_init"
  by (simp add: al_defs AsyncLoop_init_def)

lemma al_inv_loop: "loop_step s s' \<Longrightarrow> al_inv s \<Longrightarrow> al_inv s'"
  by (erule loop_stepE; cases "cpc s"; simp add: al_defs; auto)

lemma al_inv_client: "client_step s s' \<Longrightarrow> al_inv s \<Longrightarrow> al_inv s'"
  by (erule client_stepE; cases "lpc s"; simp add: al_defs notify_loop_def; auto)

lemma al_inv_spurious: "spurious_wakeup s s' \<Longrightarrow> al_inv s \<Longrightarrow> al_inv s'"
  by (erule spurious_wakeup.cases) (auto simp: al_defs)

lemma al_reachable_inv: "al_reachable s \<Longrightarrow> al_inv s"
  by (induction rule: al_reachable.induct)
     (auto simp: al_step_def intro: al_inv_init al_inv_loop al_inv_client al_inv_spurious)

text \<open>C24 A stopped loop is not running.  In every state of the two threads, whatever way
  they interleave and whenever a thread wakes up spuriously: if the loop is not started
  and no call of \<open>stop\<close> is in progress, the background thread is not inside the function;
  at most one thread holds the mutex; and a call of \<open>stop\<close> never blocks on the
  condition, because it gets the mutex only when the function is not running.\<close>

theorem stopped_loop_is_idle:
  assumes "al_reachable s"
  shows "(\<not> loopShouldBeRunning s \<and> cpc s \<notin> inside_stop \<longrightarrow> lpc s \<noteq> L_body) \<and>
     (lpc s \<in> loop_holds_lock \<longrightarrow> cpc s \<notin> {P_pred, P_unlock}) \<and>
     cpc s \<notin> {P_block, P_waiting, P_relock}"
proof -
  from al_reachable_inv [OF assms] have inv: "al_inv s" .
  then have "mutex_owner s = Some Loop" if "lpc s \<in> loop_holds_lock" using that by (simp add: al_inv_def)
  moreover from inv have "mutex_owner s = Some Client" if "cpc s \<in> {P_pred, P_unlock}"
    using that by (simp add: al_inv_def)
  ultimately have "cpc s \<notin> {P_pred, P_unlock}" if "lpc s \<in> loop_holds_lock" using that by force
  with inv show ?thesis unfolding al_inv_def by blast
qed

text \<open>A run, for the witnesses: the background thread and the client each do a number of
  steps.\<close>

lemma al_loop: "al_reachable s \<Longrightarrow> loop_step s s' \<Longrightarrow> al_reachable s'"
  by (rule al_reachable.step [of s]) (auto simp: al_step_def)

lemma al_client: "al_reachable s \<Longrightarrow> client_step s s' \<Longrightarrow> al_reachable s'"
  by (rule al_reachable.step [of s]) (auto simp: al_step_def)

text \<open>The background thread has tested the flag and is about to block; \<open>start\<close> sets
  the flag and notifies in that moment.\<close>

definition missed :: async_loop where
  "missed = \<lparr>threadShouldBeAlive = True, loopShouldBeRunning = True, insideLoopBody = False,
     mutex_owner = None, lpc = L_waiting, cpc = C_idle\<rparr>"

lemma missed_reachable: "al_reachable missed"
proof -
  note i = AsyncLoop_init_def
  have "al_reachable AsyncLoop_init" by (rule al_reachable.init)
  from al_loop [OF this loop_step.top]
  have "al_reachable (AsyncLoop_init\<lparr>lpc := L_lock\<rparr>)" by (simp add: i)
  from al_loop [OF this loop_step.lock]
  have "al_reachable (AsyncLoop_init\<lparr>lpc := L_pred, mutex_owner := Some Loop\<rparr>)" by (simp add: i)
  from al_loop [OF this loop_step.pred]
  have "al_reachable (AsyncLoop_init\<lparr>lpc := L_block, mutex_owner := Some Loop\<rparr>)" by (simp add: i)
  from al_client [OF this client_step.start]
  have "al_reachable (AsyncLoop_init\<lparr>lpc := L_block, mutex_owner := Some Loop, cpc := S_test\<rparr>)" by (simp add: i)
  from al_client [OF this client_step.start_test]
  have "al_reachable (AsyncLoop_init\<lparr>lpc := L_block, mutex_owner := Some Loop, cpc := S_set\<rparr>)" by (simp add: i)
  from al_client [OF this client_step.start_set]
  have "al_reachable (AsyncLoop_init\<lparr>lpc := L_block, mutex_owner := Some Loop, cpc := S_notify,
     loopShouldBeRunning := True\<rparr>)" by (simp add: i)
  from al_client [OF this client_step.start_notify]
  have "al_reachable (AsyncLoop_init\<lparr>lpc := L_block, mutex_owner := Some Loop, loopShouldBeRunning := True\<rparr>)"
    by (simp add: i notify_loop_def)
  from al_loop [OF this loop_step.block] show ?thesis by (simp add: i missed_def)
qed

text \<open>The destructor's \<open>start\<close> finds the flag already set, does not notify, and joins.\<close>

definition stuck :: async_loop where
  "stuck = missed\<lparr>threadShouldBeAlive := False, cpc := D_join\<rparr>"

lemma stuck_reachable: "al_reachable stuck"
proof -
  from al_client [OF missed_reachable client_step.destroy]
  have "al_reachable (missed\<lparr>cpc := D_kill\<rparr>)" by (simp add: missed_def)
  from al_client [OF this client_step.destroy_kill]
  have "al_reachable (missed\<lparr>cpc := D_test, threadShouldBeAlive := False\<rparr>)" by (simp add: missed_def)
  from al_client [OF this client_step.destroy_test] show ?thesis by (simp add: missed_def stuck_def)
qed

text \<open>The lost wakeup.  \<open>start\<close> sets its flag without the mutex, so its notification can
  fall between the test of the background thread and its blocking.  Then the loop is
  started but the function is not called, and the destructor can reach a state
  in which it waits for the thread and neither of the two has a step left.\<close>

theorem destructor_can_hang:
  "al_reachable missed \<and> loopShouldBeRunning missed \<and> lpc missed = L_waiting \<and>
   al_reachable stuck \<and> cpc stuck = D_join \<and> (\<forall>s'. \<not> al_step stuck s')"
proof -
  have "\<not> loop_step stuck s'" for s' by (auto simp: stuck_def missed_def elim!: loop_stepE)
  moreover have "\<not> client_step stuck s'" for s' by (auto simp: stuck_def missed_def elim!: client_stepE)
  ultimately show ?thesis
    using missed_reachable stuck_reachable by (simp add: al_step_def) (simp add: missed_def stuck_def)
qed

theorem stopped_loop_is_idle_witness:
  "al_reachable AsyncLoop_init \<and> lpc AsyncLoop_init \<noteq> L_body"
  using stopped_loop_is_idle [OF al_reachable.init] al_reachable.init
  by (auto simp: AsyncLoop_init_def inside_stop_def)

end
