(* ===== verification/TaskJobs.thy ===== *)
theory TaskJobs
  imports Prelude "HOL-Library.Multiset"
begin

text \<open>
  The internal tasking system (\<open>components/ospcommon/tasking/detail/TaskSys.cpp\<close>): the
  jobs of one task.  Any number of threads work on a task at the same time with
  \<open>Task::workOnIt\<close>; the state holds the atomic counters of the task and, for every
  thread, where it is in that function.  Each access to a counter is one step.
  \<open>ran\<close> records the calls of \<open>run\<close>.  The counters are atomic \<open>int\<close>s in the code and unbounded here,
  so the number of jobs and of threads together has to stay below \<open>2 ^ 31\<close>.  That the thread which completes a task
  may delete it (\<open>delete this\<close>) is left out: the record stays.
\<close>

datatype work_pc =
    W_out               \<comment> \<open>not in \<open>workOnIt\<close>\<close>
  | W_next nat          \<comment> \<open>before \<open>numJobsStarted++\<close>, with \<open>myCompleted\<close>\<close>
  | W_run int nat       \<comment> \<open>about to run this job\<close>
  | W_check nat         \<comment> \<open>behind the loop, before \<open>if (myCompleted != 0)\<close>\<close>
  | W_add nat           \<comment> \<open>before \<open>numJobsCompleted += myCompleted\<close>\<close>
  | W_status            \<comment> \<open>before \<open>status = COMPLETED\<close>\<close>

record task =
  numJobsStarted :: int
  numJobsCompleted :: int
  numJobsInTask :: int
  is_completed :: bool
  ran :: "int list"
  workers :: "work_pc list"

definition new_task :: "int \<Rightarrow> nat \<Rightarrow> task" where
  "new_task n threads = \<lparr>numJobsStarted = 0, numJobsCompleted = 0, numJobsInTask = n,
     is_completed = False, ran = [], workers = replicate threads W_out\<rparr>"

definition set_pc :: "nat \<Rightarrow> work_pc \<Rightarrow> task \<Rightarrow> task" where
  "set_pc i pc t = t\<lparr>workers := (workers t)[i := pc]\<rparr>"

definition at_pc :: "task \<Rightarrow> nat \<Rightarrow> work_pc \<Rightarrow> bool" where
  "at_pc t i pc \<longleftrightarrow> i < length (workers t) \<and> workers t ! i = pc"

inductive work_step :: "task \<Rightarrow> task \<Rightarrow> bool" where
  enter: "at_pc t i W_out \<Longrightarrow> work_step t (set_pc i (W_next 0) t)"
| take_job: "at_pc t i (W_next c) \<Longrightarrow> numJobsStarted t < numJobsInTask t \<Longrightarrow>
    work_step t (set_pc i (W_run (numJobsStarted t) c) (t\<lparr>numJobsStarted := numJobsStarted t + 1\<rparr>))"
| no_job: "at_pc t i (W_next c) \<Longrightarrow> numJobsStarted t \<ge> numJobsInTask t \<Longrightarrow>
    work_step t (set_pc i (W_check c) (t\<lparr>numJobsStarted := numJobsStarted t + 1\<rparr>))"
| run: "at_pc t i (W_run j c) \<Longrightarrow> work_step t (set_pc i (W_next (Suc c)) (t\<lparr>ran := ran t @ [j]\<rparr>))"
| check: "at_pc t i (W_check c) \<Longrightarrow> work_step t (set_pc i (if c \<noteq> 0 then W_add c else W_out) t)"
| add: "at_pc t i (W_add c) \<Longrightarrow>
    work_step t (set_pc i (if numJobsCompleted t + int c = numJobsInTask t then W_status else W_out)
      (t\<lparr>numJobsCompleted := numJobsCompleted t + int c\<rparr>))"
| status: "at_pc t i W_status \<Longrightarrow> work_step t (set_pc i W_out (t\<lparr>is_completed := True\<rparr>))"

inductive work_reachable :: "int \<Rightarrow> nat \<Rightarrow> task \<Rightarrow> bool" for n threads where
  init: "work_reachable n threads (new_task n threads)"
| step: "work_reachable n threads t \<Longrightarrow> work_step t t' \<Longrightarrow> work_reachable n threads t'"

section \<open>The invariant\<close>

text \<open>The job a thread is about to run, and the jobs it has run but not reported.\<close>

fun in_hand :: "work_pc \<Rightarrow> int list" where
  "in_hand (W_run j c) = [j]"
| "in_hand _ = []"

fun unreported :: "work_pc \<Rightarrow> nat" where
  "unreported (W_next c) = c"
| "unreported (W_run j c) = c"
| "unreported (W_check c) = c"
| "unreported (W_add c) = c"
| "unreported _ = 0"

definition taken :: "task \<Rightarrow> int multiset" where
  "taken t = mset_set {0..<min (numJobsStarted t) (numJobsInTask t)}"

fun pc_ok :: "task \<Rightarrow> work_pc \<Rightarrow> bool" where
  "pc_ok t (W_check c) \<longleftrightarrow> numJobsInTask t \<le> numJobsStarted t"
| "pc_ok t (W_add c) \<longleftrightarrow> numJobsInTask t \<le> numJobsStarted t \<and> 0 < c"
| "pc_ok t W_status \<longleftrightarrow> numJobsInTask t \<le> numJobsStarted t \<and> numJobsCompleted t = numJobsInTask t"
| "pc_ok t _ \<longleftrightarrow> True"

definition task_inv :: "task \<Rightarrow> bool" where
  "task_inv t \<longleftrightarrow>
     0 \<le> numJobsStarted t \<and> 0 \<le> numJobsCompleted t \<and> 0 \<le> numJobsInTask t \<and>
     mset (ran t) + mset (concat (map in_hand (workers t))) = taken t \<and>
     numJobsCompleted t + int (sum_list (map unreported (workers t))) = int (length (ran t)) \<and>
     (\<forall>pc\<in>set (workers t). pc_ok t pc) \<and>
     (is_completed t \<longrightarrow> numJobsCompleted t = numJobsInTask t) \<and>
     (numJobsCompleted t = numJobsInTask t \<and> 0 < numJobsInTask t \<longrightarrow> is_completed t \<or> W_status \<in> set (workers t)) \<and>
     (0 < numJobsStarted t \<longrightarrow> numJobsInTask t \<le> numJobsStarted t \<or> (\<exists>pc\<in>set (workers t). pc \<noteq> W_out)) \<and>
     (numJobsInTask t = 0 \<longrightarrow> \<not> is_completed t \<and> W_status \<notin> set (workers t))"

lemma sum_list_update_nat:
  "i < length xs \<Longrightarrow> sum_list (map f (xs[i := x])) + f (xs ! i) = sum_list (map f xs) + (f x :: nat)"
proof (induction xs arbitrary: i)
  case (Cons y ys)
  then show ?case by (cases i) auto
qed simp

lemma mset_concat_update:
  "i < length xs \<Longrightarrow> mset (concat (map f (xs[i := x]))) + mset (f (xs ! i)) = mset (concat (map f xs)) + mset (f x)"
proof (induction xs arbitrary: i)
  case (Cons y ys)
  then show ?case by (cases i) (auto simp: ac_simps)
qed simp

lemma set_pc_parts:
  assumes "at_pc t i old"
  shows "sum_list (map unreported (workers (set_pc i pc t))) + unreported old =
           sum_list (map unreported (workers t)) + unreported pc"
    and "mset (concat (map in_hand (workers (set_pc i pc t)))) + mset (in_hand old) =
           mset (concat (map in_hand (workers t))) + mset (in_hand pc)"
    and "pc \<in> set (workers (set_pc i pc t))"
    and "set (workers (set_pc i pc t)) \<subseteq> insert pc (set (workers t))"
    and "q \<in> set (workers t) \<Longrightarrow> q \<noteq> old \<Longrightarrow> q \<in> set (workers (set_pc i pc t))"
proof -
  from assms have i: "i < length (workers t)" "workers t ! i = old" by (auto simp: at_pc_def)
  show "sum_list (map unreported (workers (set_pc i pc t))) + unreported old =
      sum_list (map unreported (workers t)) + unreported pc"
    using sum_list_update_nat [OF i(1), of unreported pc] by (simp add: set_pc_def i(2))
  show "mset (concat (map in_hand (workers (set_pc i pc t)))) + mset (in_hand old) =
      mset (concat (map in_hand (workers t))) + mset (in_hand pc)"
    using mset_concat_update [OF i(1), of in_hand pc] by (simp add: set_pc_def i(2))
  show "pc \<in> set (workers (set_pc i pc t))" using i(1) by (simp add: set_pc_def set_update_memI)
  show "set (workers (set_pc i pc t)) \<subseteq> insert pc (set (workers t))"
    by (simp add: set_pc_def set_update_subset_insert)
  show "q \<in> set (workers t) \<Longrightarrow> q \<noteq> old \<Longrightarrow> q \<in> set (workers (set_pc i pc t))"
    using i by (auto simp: set_pc_def in_set_conv_nth nth_list_update)
qed

lemma at_pc_member: "at_pc t i pc \<Longrightarrow> pc \<in> set (workers t)"
  by (auto simp: at_pc_def)

lemma set_pc_fields [simp]:
  "numJobsStarted (set_pc i pc t) = numJobsStarted t" "numJobsCompleted (set_pc i pc t) = numJobsCompleted t"
  "numJobsInTask (set_pc i pc t) = numJobsInTask t" "is_completed (set_pc i pc t) = is_completed t"
  "ran (set_pc i pc t) = ran t" "taken (set_pc i pc t) = taken t"
  by (simp_all add: set_pc_def taken_def)

lemma pc_ok_set_pc [simp]: "pc_ok (set_pc i q t) pc = pc_ok t pc"
  by (cases pc) simp_all

lemma task_inv_new: "0 \<le> n \<Longrightarrow> task_inv (new_task n threads)"
proof -
  have "concat (replicate threads []) = []" "sum_list (replicate threads 0) = (0::nat)"
    by (induction threads) auto
  then show "0 \<le> n \<Longrightarrow> task_inv (new_task n threads)"
    by (auto simp: task_inv_def new_task_def taken_def)
qed

lemma taken_next:
  assumes "0 \<le> numJobsStarted t" and "numJobsStarted t < numJobsInTask t"
  shows "taken (t\<lparr>numJobsStarted := numJobsStarted t + 1\<rparr>) = add_mset (numJobsStarted t) (taken t)"
proof -
  have "min (numJobsStarted t + 1) (numJobsInTask t) = numJobsStarted t + 1"
    "min (numJobsStarted t) (numJobsInTask t) = numJobsStarted t" using assms by auto
  moreover have "{0..<numJobsStarted t + 1} = insert (numJobsStarted t) {0..<numJobsStarted t}"
    using assms(1) by auto
  ultimately show ?thesis by (simp add: taken_def)
qed

lemma taken_end:
  "numJobsInTask t \<le> numJobsStarted t \<Longrightarrow> taken (t\<lparr>numJobsStarted := numJobsStarted t + 1\<rparr>) = taken t"
  by (simp add: taken_def min_def)

lemma taken_ignores [simp]: "taken (t\<lparr>ran := r\<rparr>) = taken t" "taken (t\<lparr>numJobsCompleted := k\<rparr>) = taken t"
  "taken (t\<lparr>is_completed := b\<rparr>) = taken t" "taken (t\<lparr>workers := ws\<rparr>) = taken t"
  by (simp_all add: taken_def)

lemma set_pc_update [simp]:
  "workers (set_pc i pc (t\<lparr>numJobsStarted := a\<rparr>)) = workers (set_pc i pc t)"
  "workers (set_pc i pc (t\<lparr>ran := r\<rparr>)) = workers (set_pc i pc t)"
  "workers (set_pc i pc (t\<lparr>numJobsCompleted := k\<rparr>)) = workers (set_pc i pc t)"
  "workers (set_pc i pc (t\<lparr>is_completed := b\<rparr>)) = workers (set_pc i pc t)"
  by (simp_all add: set_pc_def)

lemma pc_ok_mono:
  "pc_ok t pc \<Longrightarrow> pc_ok (t\<lparr>numJobsStarted := numJobsStarted t + 1\<rparr>) pc"
  "pc_ok t pc \<Longrightarrow> pc_ok (t\<lparr>ran := r\<rparr>) pc"
  "pc_ok t pc \<Longrightarrow> pc_ok (t\<lparr>is_completed := b\<rparr>) pc"
  by (cases pc; simp)+

text \<open>Everything reported: the counter cannot exceed the number of jobs taken.\<close>

lemma task_inv_bound:
  assumes "task_inv t"
  shows "numJobsCompleted t + int (sum_list (map unreported (workers t))) +
     int (length (concat (map in_hand (workers t)))) = min (numJobsStarted t) (numJobsInTask t)"
proof -
  from assms have "size (mset (ran t) + mset (concat (map in_hand (workers t)))) = size (taken t)"
    by (simp only: task_inv_def)
  then have "int (length (ran t)) + int (length (concat (map in_hand (workers t)))) =
      int (size (taken t))" by (simp only: size_union size_mset of_nat_add)
  moreover have "int (size (taken t)) = min (numJobsStarted t) (numJobsInTask t)"
    using assms by (simp add: taken_def task_inv_def)
  ultimately show ?thesis using assms by (simp only: task_inv_def)
qed

lemma unreported_member: "pc \<in> set ws \<Longrightarrow> unreported pc \<le> sum_list (map unreported ws)"
  by (induction ws) auto

lemma task_inv_step:
  assumes "work_step t t'" and inv: "task_inv t"
  shows "task_inv t'"
  using assms(1)
proof cases
  case (enter i)
  note p = set_pc_parts [OF enter(2), where pc = "W_next 0"]
  have others: "W_status \<in> set (workers t) \<longleftrightarrow> W_status \<in> set (workers (set_pc i (W_next 0) t))"
    using p(4) p(5) [where q = W_status] by auto
  show ?thesis using inv p(1,2,3,4) others unfolding enter(1) task_inv_def
    by (auto intro!: bexI [OF _ p(3)])
next
  case (take_job i c)
  let ?pc = "W_run (numJobsStarted t) c"
  note p = set_pc_parts [OF take_job(2), where pc = ?pc]
  have tk: "taken (t\<lparr>numJobsStarted := numJobsStarted t + 1\<rparr>) = add_mset (numJobsStarted t) (taken t)"
    using inv take_job(3) by (intro taken_next) (auto simp: task_inv_def)
  have others: "W_status \<in> set (workers t) \<longleftrightarrow> W_status \<in> set (workers (set_pc i ?pc t))"
    using p(4) p(5) [where q = W_status] by auto
  have "\<forall>pc\<in>set (workers (set_pc i ?pc t)). pc_ok (t\<lparr>numJobsStarted := numJobsStarted t + 1\<rparr>) pc"
    using p(4) inv by (auto simp: task_inv_def intro!: pc_ok_mono)
  moreover have "\<exists>pc\<in>set (workers (set_pc i ?pc t)). pc \<noteq> W_out" using p(3) by auto
  moreover have "mset (ran t) + mset (concat (map in_hand (workers (set_pc i ?pc t)))) =
      add_mset (numJobsStarted t) (taken t)"
    using p(2) inv by (simp add: task_inv_def)
  ultimately show ?thesis using inv p(1) others tk unfolding take_job(1) task_inv_def by simp
next
  case (no_job i c)
  let ?pc = "W_check c"
  note p = set_pc_parts [OF no_job(2), where pc = ?pc]
  have others: "W_status \<in> set (workers t) \<longleftrightarrow> W_status \<in> set (workers (set_pc i ?pc t))"
    using p(4) p(5) [where q = W_status] by auto
  have "\<forall>pc\<in>set (workers (set_pc i ?pc t)). pc_ok (t\<lparr>numJobsStarted := numJobsStarted t + 1\<rparr>) pc"
    using p(4) inv no_job(3) by (auto simp: task_inv_def intro!: pc_ok_mono)
  then show ?thesis
    using inv p(1,2) others taken_end [OF no_job(3)] no_job(3) unfolding no_job(1) task_inv_def by simp
next
  case (run i j c)
  let ?pc = "W_next (Suc c)"
  note p = set_pc_parts [OF run(2), where pc = ?pc]
  have others: "W_status \<in> set (workers t) \<longleftrightarrow> W_status \<in> set (workers (set_pc i ?pc t))"
    using p(4) p(5) [where q = W_status] by auto
  have "\<forall>pc\<in>set (workers (set_pc i ?pc t)). pc_ok (t\<lparr>ran := ran t @ [j]\<rparr>) pc"
    using p(4) inv by (auto simp: task_inv_def intro!: pc_ok_mono)
  moreover have "\<exists>pc\<in>set (workers (set_pc i ?pc t)). pc \<noteq> W_out" using p(3) by auto
  moreover have old: "mset (concat (map in_hand (workers t))) =
      add_mset j (mset (concat (map in_hand (workers (set_pc i ?pc t)))))" using p(2) by simp
  have "mset (ran t @ [j]) + mset (concat (map in_hand (workers (set_pc i ?pc t)))) = taken t"
    using inv unfolding task_inv_def old by simp
  ultimately show ?thesis using inv p(1) others unfolding run(1) task_inv_def by simp
next
  case (check i c)
  let ?pc = "if c \<noteq> 0 then W_add c else W_out"
  note p = set_pc_parts [OF check(2), where pc = ?pc]
  have others: "W_status \<in> set (workers t) \<longleftrightarrow> W_status \<in> set (workers (set_pc i ?pc t))"
    using p(4) p(5) [where q = W_status] by auto
  have le: "numJobsInTask t \<le> numJobsStarted t" using inv at_pc_member [OF check(2)] by (auto simp: task_inv_def)
  have "\<forall>pc\<in>set (workers (set_pc i ?pc t)). pc_ok t pc"
    using p(4) inv le by (auto simp: task_inv_def split: if_splits)
  then show ?thesis
    using inv p(1,2) others le unfolding check(1) task_inv_def by (cases "c = 0") auto
next
  case (add i c)
  let ?k = "numJobsCompleted t + int c"
  let ?pc = "if ?k = numJobsInTask t then W_status else W_out"
  note p = set_pc_parts [OF add(2), where pc = ?pc]
  have c: "numJobsInTask t \<le> numJobsStarted t" "0 < c" using inv at_pc_member [OF add(2)] by (auto simp: task_inv_def)
  have le: "?k \<le> numJobsInTask t"
    using task_inv_bound [OF inv] unreported_member [OF at_pc_member [OF add(2)]] c by simp
  then have lt: "numJobsCompleted t < numJobsInTask t" using c by simp
  then have no: "W_status \<notin> set (workers t)" "\<not> is_completed t" using inv by (auto simp: task_inv_def)
  have "pc_ok (t\<lparr>numJobsCompleted := ?k\<rparr>) pc" if "pc \<in> set (workers t)" for pc
    using inv that no(1) by (cases pc) (auto simp: task_inv_def)
  then have "\<forall>pc\<in>set (workers (set_pc i ?pc t)). pc_ok (t\<lparr>numJobsCompleted := ?k\<rparr>) pc"
    using p(4) c by (auto split: if_splits)
  moreover have "0 < numJobsInTask t" "0 \<le> ?k" using lt inv by (auto simp: task_inv_def)
  moreover have "W_status \<in> set (workers (set_pc i ?pc t)) \<longleftrightarrow> ?k = numJobsInTask t"
    using p(3,4) no(1) by (auto split: if_splits)
  ultimately show ?thesis
    using inv p(1,2) no c unfolding add(1) task_inv_def by (simp split: if_splits)
next
  case (status i)
  note p = set_pc_parts [OF status(2), where pc = W_out]
  have done_: "numJobsCompleted t = numJobsInTask t" "numJobsInTask t \<le> numJobsStarted t"
    "numJobsInTask t \<noteq> 0"
    using inv at_pc_member [OF status(2)] by (auto simp: task_inv_def)
  have "\<forall>pc\<in>set (workers (set_pc i W_out t)). pc_ok (t\<lparr>is_completed := True\<rparr>) pc"
    using p(4) inv by (auto simp: task_inv_def intro!: pc_ok_mono)
  then show ?thesis using inv p(1,2) done_ unfolding status(1) task_inv_def by simp
qed

lemma work_reachable_inv: "work_reachable n threads t \<Longrightarrow> 0 \<le> n \<Longrightarrow> task_inv t \<and> numJobsInTask t = n"
proof (induction rule: work_reachable.induct)
  case init
  then show ?case using task_inv_new by (simp add: new_task_def)
next
  case (step t t')
  moreover have "numJobsInTask t' = numJobsInTask t" using step.hyps(2) by cases simp_all
  ultimately show ?case using task_inv_step by blast
qed

section \<open>Results\<close>

lemma taken_distinct: "mset xs \<subseteq># taken t \<Longrightarrow> distinct xs"
proof -
  assume sub: "mset xs \<subseteq># taken t"
  have "count (taken t) a \<le> 1" for a by (simp add: taken_def count_mset_set')
  then have "count (mset xs) a \<le> 1" for a
    using mset_subset_eq_count [OF sub, of a] order_trans by blast
  then have "count (mset xs) a = (if a \<in> set xs then 1 else 0)" for a
    by (metis One_nat_def count_mset_0_iff le_Suc_eq le_zero_eq)
  then show ?thesis by (simp add: distinct_count_atmost_1)
qed

lemma completed_ran:
  assumes inv: "task_inv t" and "numJobsCompleted t = numJobsInTask t"
  shows "set (ran t) = {0..<numJobsInTask t}"
proof -
  have "min (numJobsStarted t) (numJobsInTask t) \<le> numJobsInTask t" by simp
  with task_inv_bound [OF inv] assms(2)
  have none: "length (concat (map in_hand (workers t))) = 0"
    and all: "min (numJobsStarted t) (numJobsInTask t) = numJobsInTask t" by linarith+
  have "mset (ran t) = taken t" using inv none unfolding length_0_conv by (simp only: task_inv_def) simp
  moreover note all
  ultimately have "set_mset (mset (ran t)) = {0..<numJobsInTask t}" by (simp add: taken_def)
  then show ?thesis by simp
qed

text \<open>C16 Every job runs exactly once.  However many threads work on a task and however
  they interleave, no job is run twice, only jobs of the task are run, and a task whose
  status is \<open>COMPLETED\<close> has run them all.\<close>

theorem jobs_run_once:
  assumes "work_reachable n threads t" and "0 \<le> n"
  shows "distinct (ran t) \<and> set (ran t) \<subseteq> {0..<n} \<and> (is_completed t \<longrightarrow> set (ran t) = {0..<n})"
proof -
  from work_reachable_inv [OF assms] have inv: "task_inv t" and n: "numJobsInTask t = n" by auto
  then have "mset (ran t) + mset (concat (map in_hand (workers t))) = taken t" by (simp add: task_inv_def)
  then have sub: "mset (ran t) \<subseteq># taken t" by (metis mset_subset_eq_add_left)
  have "set (ran t) \<subseteq> {0..<n}"
    using set_mset_mono [OF sub] n by (auto simp: taken_def)
  with taken_distinct [OF sub] completed_ran [OF inv] inv n show ?thesis by (auto simp: task_inv_def)
qed

text \<open>C17 No completion is missed.  When a task has jobs, some thread has started on it and
  no thread is in \<open>workOnIt\<close> any more, its status is \<open>COMPLETED\<close>: the thread that waits for
  it, having worked on it itself, is woken.\<close>

theorem task_completes:
  assumes "work_reachable n threads t" and "0 < n"
    and "\<forall>pc\<in>set (workers t). pc = W_out" and "0 < numJobsStarted t"
  shows "is_completed t \<and> set (ran t) = {0..<n}"
proof -
  from work_reachable_inv [OF assms(1)] assms(2) have inv: "task_inv t" and n: "numJobsInTask t = n" by auto
  have "sum_list (map unreported ws) = 0 \<and> concat (map in_hand ws) = []"
    if "\<forall>pc\<in>set ws. pc = W_out" for ws
    using that by (induction ws) auto
  from this [OF assms(3)] have s0: "sum_list (map unreported (workers t)) = 0"
    and c0: "concat (map in_hand (workers t)) = []" by blast+
  have "numJobsCompleted t = min (numJobsStarted t) n"
    using task_inv_bound [OF inv] unfolding s0 c0 n by simp
  moreover have "n \<le> numJobsStarted t" using inv assms(3,4) n by (auto simp: task_inv_def)
  ultimately have k: "numJobsCompleted t = n" by simp
  then have "is_completed t" using inv assms(2,3) n by (auto simp: task_inv_def)
  with completed_ran [OF inv] k n show ?thesis by simp
qed

text \<open>A task without jobs never completes: \<open>parallel_for\<close> over nothing waits for ever,
  because the status is only set by a thread that has completed a job.\<close>

theorem empty_task_never_completes:
  assumes "work_reachable 0 threads t"
  shows "\<not> is_completed t"
  using work_reachable_inv [OF assms] by (auto simp: task_inv_def)

section \<open>Working on a task ends\<close>

fun pc_weight :: "work_pc \<Rightarrow> nat" where
  "pc_weight W_out = 0"
| "pc_weight (W_next c) = 4"
| "pc_weight (W_run j c) = 5"
| "pc_weight (W_check c) = 3"
| "pc_weight (W_add c) = 2"
| "pc_weight W_status = 1"

definition work_left :: "task \<Rightarrow> nat" where
  "work_left t = 2 * nat (numJobsInTask t - numJobsStarted t) + sum_list (map pc_weight (workers t))"

lemma weight_set_pc:
  "at_pc t i old \<Longrightarrow> sum_list (map pc_weight (workers (set_pc i pc t))) + pc_weight old =
     sum_list (map pc_weight (workers t)) + pc_weight pc"
  using sum_list_update_nat [of i "workers t" pc_weight pc] by (auto simp: at_pc_def set_pc_def)

text \<open>C18 \<open>workOnIt\<close> terminates.  Every step of a thread other than entering the function
  makes \<open>work_left\<close> smaller, so the threads that are in it all leave it after
  finitely many steps.\<close>

theorem work_terminates:
  assumes "work_step t t'"
  shows "(\<exists>i. at_pc t i W_out \<and> t' = set_pc i (W_next 0) t) \<or> work_left t' < work_left t"
  using assms
proof cases
  case (enter i)
  then show ?thesis by blast
next
  case (take_job i c)
  moreover from take_job(3) have "nat (numJobsInTask t - numJobsStarted t) =
      Suc (nat (numJobsInTask t - (numJobsStarted t + 1)))" by simp
  ultimately show ?thesis using weight_set_pc [OF take_job(2), of "W_run (numJobsStarted t) c"]
    by (simp add: work_left_def)
next
  case (no_job i c)
  with weight_set_pc [OF no_job(2), of "W_check c"] show ?thesis by (simp add: work_left_def)
next
  case (run i j c)
  with weight_set_pc [OF run(2), of "W_next (Suc c)"] show ?thesis by (simp add: work_left_def)
next
  case (check i c)
  with weight_set_pc [OF check(2), of "if c \<noteq> 0 then W_add c else W_out"] show ?thesis
    by (auto simp: work_left_def split: if_splits)
next
  case (add i c)
  with weight_set_pc [OF add(2), of "if numJobsCompleted t + int c = numJobsInTask t then W_status else W_out"]
  show ?thesis by (auto simp: work_left_def split: if_splits)
next
  case (status i)
  with weight_set_pc [OF status(2), of W_out] show ?thesis by (simp add: work_left_def)
qed

section \<open>A run\<close>

text \<open>One thread works on a task with one job.\<close>

definition finished_one :: task where
  "finished_one = \<lparr>numJobsStarted = 2, numJobsCompleted = 1, numJobsInTask = 1, is_completed = True,
     ran = [0], workers = [W_out]\<rparr>"

lemma finished_one_reachable: "work_reachable 1 1 finished_one"
proof -
  have at: "at_pc t 0 pc" if "workers t = [pc]" for t pc using that by (simp add: at_pc_def)
  have "work_reachable 1 1 (new_task 1 1)" by (rule work_reachable.init)
  from work_reachable.step [OF this work_step.enter [OF at]]
  have "work_reachable 1 1 ((new_task 1 1)\<lparr>workers := [W_next 0]\<rparr>)" by (simp add: new_task_def set_pc_def)
  from work_reachable.step [OF this work_step.take_job [OF at]]
  have "work_reachable 1 1 ((new_task 1 1)\<lparr>numJobsStarted := 1, workers := [W_run 0 0]\<rparr>)"
    by (simp add: new_task_def set_pc_def)
  from work_reachable.step [OF this work_step.run [OF at]]
  have "work_reachable 1 1 ((new_task 1 1)\<lparr>numJobsStarted := 1, ran := [0], workers := [W_next 1]\<rparr>)"
    by (simp add: new_task_def set_pc_def)
  from work_reachable.step [OF this work_step.no_job [OF at]]
  have "work_reachable 1 1 ((new_task 1 1)\<lparr>numJobsStarted := 2, ran := [0], workers := [W_check 1]\<rparr>)"
    by (simp add: new_task_def set_pc_def)
  from work_reachable.step [OF this work_step.check [OF at]]
  have "work_reachable 1 1 ((new_task 1 1)\<lparr>numJobsStarted := 2, ran := [0], workers := [W_add 1]\<rparr>)"
    by (simp add: new_task_def set_pc_def)
  from work_reachable.step [OF this work_step.add [OF at]]
  have "work_reachable 1 1 ((new_task 1 1)\<lparr>numJobsStarted := 2, numJobsCompleted := 1, ran := [0], workers := [W_status]\<rparr>)"
    by (simp add: new_task_def set_pc_def)
  from work_reachable.step [OF this work_step.status [OF at]] show ?thesis
    by (simp add: new_task_def set_pc_def finished_one_def)
qed

theorem jobs_run_once_witness:
  "is_completed finished_one \<and> set (ran finished_one) = {0..<1}"
  using jobs_run_once [OF finished_one_reachable] by (simp add: finished_one_def)

theorem task_completes_witness:
  "is_completed finished_one \<and> workers finished_one = [W_out]"
  using task_completes [OF finished_one_reachable] by (simp add: finished_one_def)

theorem empty_task_never_completes_witness:
  "work_reachable 0 4 (new_task 0 4) \<and> \<not> is_completed (new_task 0 4)"
  using empty_task_never_completes [OF work_reachable.init, of 4] work_reachable.init by blast

theorem work_terminates_witness:
  "work_left (set_pc 0 W_out ((new_task 1 1)\<lparr>is_completed := True\<rparr>)) < work_left ((new_task 1 1)\<lparr>workers := [W_status]\<rparr>)"
proof -
  have "at_pc ((new_task 1 1)\<lparr>workers := [W_status]\<rparr>) 0 W_status" by (simp add: at_pc_def)
  from work_terminates [OF work_step.status [OF this]] show ?thesis
    by (auto simp: set_pc_def new_task_def at_pc_def)
qed

end
