(* ===== verification/TaskQueue.thy ===== *)
theory TaskQueue
  imports Prelude
begin

text \<open>
  The queue of active tasks of the internal tasking system
  (\<open>components/ospcommon/tasking/detail/TaskSys.cpp\<close>): a linked list through the \<open>next\<close>
  pointers of the tasks.  Both operations run under the mutex of the task system, so each
  is one step.  Tasks are objects with a lifetime: \<open>storage\<close> says which ones exist, and
  touching one that does not is undefined behaviour.  The locale \<open>active_queue\<close> is the
  queue as its users see it; it is interpreted on the linked list.
\<close>

datatype schedule_order = BACK_OF_QUEUE | FRONT_OF_QUEUE

record task_sys =
  sys_running :: bool
  activeListFirst :: "nat option"
  activeListLast :: "nat option"
  next_task :: "nat \<Rightarrow> nat option"
  jobs_started :: "nat \<Rightarrow> int"
  jobs_in_task :: "nat \<Rightarrow> int"
  storage :: "nat \<Rightarrow> bool"

definition TaskSys_init :: task_sys where
  "TaskSys_init = \<lparr>sys_running = True, activeListFirst = None, activeListLast = None,
     next_task = (\<lambda>_. None), jobs_started = (\<lambda>_. 0), jobs_in_task = (\<lambda>_. 0), storage = (\<lambda>_. False)\<rparr>"

text \<open>The lifetime of a task: constructed with its counters at 0, and destroyed.\<close>

definition construct_task :: "nat \<Rightarrow> task_sys \<Rightarrow> task_sys" where
  "construct_task t s = s\<lparr>storage := (storage s)(t := True), jobs_started := (jobs_started s)(t := 0),
     jobs_in_task := (jobs_in_task s)(t := 0)\<rparr>"

definition destroy_task :: "nat \<Rightarrow> task_sys \<Rightarrow> task_sys" where
  "destroy_task t s = s\<lparr>storage := (storage s)(t := False)\<rparr>"

definition set_next :: "nat \<Rightarrow> nat option \<Rightarrow> task_sys \<Rightarrow> task_sys res" where
  "set_next t x s = (if storage s t then Inr (s\<lparr>next_task := (next_task s)(t := x)\<rparr>) else Inl Undefined_behaviour)"

definition scheduleTaskInternal :: "schedule_order \<Rightarrow> nat \<Rightarrow> int \<Rightarrow> task_sys \<Rightarrow> task_sys res" where
  "scheduleTaskInternal order t n s =
    (if \<not> storage s t then Inl Undefined_behaviour else
     let s1 = s\<lparr>jobs_in_task := (jobs_in_task s)(t := n)\<rparr>
     in (case activeListFirst s1 of
           None \<Rightarrow> set_next t None (s1\<lparr>activeListFirst := Some t, activeListLast := Some t\<rparr>)
         | Some f \<Rightarrow>
             (case order of
                BACK_OF_QUEUE \<Rightarrow>
                  (case activeListLast s1 of
                     None \<Rightarrow> Inl Undefined_behaviour
                   | Some l \<Rightarrow> bind_res (set_next t None s1) (\<lambda>s2.
                       bind_res (set_next l (Some t) s2) (\<lambda>s3. Inr (s3\<lparr>activeListLast := Some t\<rparr>))))
              | FRONT_OF_QUEUE \<Rightarrow>
                  bind_res (set_next t (Some f) s1) (\<lambda>s2. Inr (s2\<lparr>activeListFirst := Some t\<rparr>)))))"

datatype next_active = Blocked | No_task | Active nat

text \<open>Blocked: the list is empty and the system is running, so the thread waits on the
  condition variable.\<close>

partial_function (option) getNextActiveTask :: "task_sys \<Rightarrow> (next_active \<times> task_sys) outcome" where
  "getNextActiveTask s =
    (if activeListFirst s = None \<and> sys_running s then ret (Blocked, s)
     else if \<not> sys_running s then ret (No_task, s)
     else (case activeListFirst s of
             None \<Rightarrow> raise Undefined_behaviour
           | Some front \<Rightarrow>
               if \<not> storage s front then raise Undefined_behaviour
               else if jobs_started s front \<ge> jobs_in_task s front then
                 (if activeListFirst s = activeListLast s
                  then getNextActiveTask (s\<lparr>activeListFirst := None, activeListLast := None\<rparr>)
                  else getNextActiveTask (s\<lparr>activeListFirst := next_task s front\<rparr>))
               else ret (Active front, s)))"

declare getNextActiveTask.simps [code]

definition exhausted :: "task_sys \<Rightarrow> nat \<Rightarrow> bool" where
  "exhausted s t \<longleftrightarrow> jobs_started s t \<ge> jobs_in_task s t"

section \<open>The list behind the pointers\<close>

fun linked :: "(nat \<Rightarrow> nat option) \<Rightarrow> nat list \<Rightarrow> bool" where
  "linked nx (x # y # xs) \<longleftrightarrow> nx x = Some y \<and> linked nx (y # xs)"
| "linked nx _ \<longleftrightarrow> True"

definition active_list :: "task_sys \<Rightarrow> nat list \<Rightarrow> bool" where
  "active_list s xs \<longleftrightarrow> sys_running s \<and> distinct xs \<and> linked (next_task s) xs \<and>
     (\<forall>x\<in>set xs. storage s x) \<and>
     activeListFirst s = (case xs of [] \<Rightarrow> None | x # _ \<Rightarrow> Some x) \<and>
     (xs \<noteq> [] \<longrightarrow> activeListLast s = Some (last xs))"

lemma linked_cong: "\<forall>x\<in>set (butlast xs). nx x = nx' x \<Longrightarrow> linked nx xs = linked nx' xs"
  by (induction nx xs rule: linked.induct) auto

lemma linked_append: "linked nx xs \<Longrightarrow> xs \<noteq> [] \<Longrightarrow> nx (last xs) = Some t \<Longrightarrow> linked nx (xs @ [t])"
  by (induction nx xs rule: linked.induct) (auto split: if_splits)

lemma linked_tl: "linked nx (x # xs) \<Longrightarrow> linked nx xs"
  by (cases xs) auto

lemma schedule_back_list:
  assumes "active_list s xs" and "storage s t" and "t \<notin> set xs"
  shows "\<exists>s'. scheduleTaskInternal BACK_OF_QUEUE t n s = Inr s' \<and> active_list s' (xs @ [t]) \<and>
     storage s' = storage s \<and> jobs_started s' = jobs_started s \<and> jobs_in_task s' = (jobs_in_task s)(t := n)"
proof (cases xs)
  case Nil
  with assms show ?thesis by (simp add: active_list_def scheduleTaskInternal_def set_next_def)
next
  case (Cons x ys)
  have l: "last xs \<in> set xs" "last xs \<noteq> t" using Cons assms(3) by (auto simp: last_in_set)
  have "linked ((next_task s)(t := None, last xs := Some t)) xs = linked (next_task s) xs"
  proof (intro linked_cong ballI)
    fix y assume y: "y \<in> set (butlast xs)"
    then have "y \<noteq> t" using assms(3) by (auto dest: in_set_butlastD)
    moreover have "butlast xs @ [last xs] = xs" using Cons by simp
    then have "distinct (butlast xs @ [last xs])" using assms(1) by (simp only: active_list_def)
    then have "y \<noteq> last xs" using y by auto
    ultimately show "((next_task s)(t := None, last xs := Some t)) y = next_task s y" by simp
  qed
  then have "linked ((next_task s)(t := None, last xs := Some t)) (xs @ [t])"
    using assms(1) Cons by (intro linked_append) (auto simp: active_list_def)
  with assms l Cons show ?thesis
    by (auto simp: active_list_def scheduleTaskInternal_def set_next_def)
qed

lemma schedule_front_list:
  assumes "active_list s xs" and "storage s t" and "t \<notin> set xs"
  shows "\<exists>s'. scheduleTaskInternal FRONT_OF_QUEUE t n s = Inr s' \<and> active_list s' (t # xs) \<and>
     storage s' = storage s \<and> jobs_started s' = jobs_started s \<and> jobs_in_task s' = (jobs_in_task s)(t := n)"
proof (cases xs)
  case Nil
  with assms show ?thesis by (simp add: active_list_def scheduleTaskInternal_def set_next_def)
next
  case (Cons x ys)
  have "linked ((next_task s)(t := Some x)) xs = linked (next_task s) xs"
    using assms(3) by (intro linked_cong) (auto dest: in_set_butlastD)
  with assms Cons show ?thesis
    by (auto simp: active_list_def scheduleTaskInternal_def set_next_def)
qed

text \<open>A worker drops the exhausted tasks at the front and gets the first other one.\<close>

lemma next_list:
  assumes "active_list s xs"
  shows "\<exists>s'. getNextActiveTask s =
       ret (case dropWhile (exhausted s) xs of [] \<Rightarrow> Blocked | y # _ \<Rightarrow> Active y, s') \<and>
     active_list s' (dropWhile (exhausted s) xs) \<and>
     storage s' = storage s \<and> jobs_started s' = jobs_started s \<and> jobs_in_task s' = jobs_in_task s"
  using assms
proof (induction xs arbitrary: s)
  case Nil
  then show ?case by (subst getNextActiveTask.simps) (auto simp: active_list_def)
next
  case (Cons x xs)
  show ?case
  proof (cases "exhausted s x")
    case False
    with Cons.prems show ?thesis
      by (subst getNextActiveTask.simps) (auto simp: active_list_def exhausted_def)
  next
    case True
    define s1 where "s1 = (if xs = [] then s\<lparr>activeListFirst := None, activeListLast := None\<rparr>
      else s\<lparr>activeListFirst := next_task s x\<rparr>)"
    have "last (x # xs) = x \<longleftrightarrow> xs = []" using Cons.prems by (cases xs) (auto simp: active_list_def)
    then have "getNextActiveTask s = getNextActiveTask s1"
      using Cons.prems True
      by (subst getNextActiveTask.simps) (auto simp: active_list_def exhausted_def s1_def)
    moreover have "active_list s1 xs"
      using Cons.prems by (cases xs) (auto simp: active_list_def s1_def)
    moreover have "exhausted s1 = exhausted s" by (simp add: fun_eq_iff exhausted_def s1_def)
    ultimately show ?thesis using Cons.IH [of s1] True by (auto simp: s1_def)
  qed
qed

section \<open>The queue as its users see it\<close>

locale active_queue =
  fixes enq_back enq_front :: "'t \<Rightarrow> int \<Rightarrow> 's \<Rightarrow> 's res"
    and take_next :: "'s \<Rightarrow> (next_active \<times> 's) outcome"
    and queue :: "'s \<Rightarrow> 't list \<Rightarrow> bool"
    and live :: "'s \<Rightarrow> 't \<Rightarrow> bool"
    and done_t :: "'s \<Rightarrow> 't \<Rightarrow> bool"
    and as_next :: "'t \<Rightarrow> next_active"
  assumes enq_back: "queue s xs \<Longrightarrow> live s t \<Longrightarrow> t \<notin> set xs \<Longrightarrow>
      \<exists>s'. enq_back t n s = Inr s' \<and> queue s' (xs @ [t]) \<and> live s' = live s \<and>
        (\<forall>u. u \<noteq> t \<longrightarrow> done_t s' u = done_t s u)"
    and enq_front: "queue s xs \<Longrightarrow> live s t \<Longrightarrow> t \<notin> set xs \<Longrightarrow>
      \<exists>s'. enq_front t n s = Inr s' \<and> queue s' (t # xs) \<and> live s' = live s \<and>
        (\<forall>u. u \<noteq> t \<longrightarrow> done_t s' u = done_t s u)"
    and take_next: "queue s xs \<Longrightarrow> \<exists>s'. take_next s =
        ret (case dropWhile (done_t s) xs of [] \<Rightarrow> Blocked | y # _ \<Rightarrow> as_next y, s') \<and>
        queue s' (dropWhile (done_t s) xs) \<and> live s' = live s \<and> done_t s' = done_t s"
begin

fun enq_all :: "('t \<times> int) list \<Rightarrow> 's \<Rightarrow> 's res" where
  "enq_all [] s = Inr s"
| "enq_all ((t, n) # tns) s = bind_res (enq_back t n s) (enq_all tns)"

text \<open>Tasks scheduled at the back are in the queue in the order of the calls.\<close>

lemma enq_all_queue:
  "queue s xs \<Longrightarrow> distinct (map fst tns) \<Longrightarrow> \<forall>t\<in>fst ` set tns. live s t \<and> t \<notin> set xs \<Longrightarrow>
     \<exists>s'. enq_all tns s = Inr s' \<and> queue s' (xs @ map fst tns) \<and> live s' = live s"
proof (induction tns arbitrary: s xs)
  case (Cons tn tns)
  obtain t n where tn: "tn = (t, n)" by (cases tn)
  from Cons.prems tn have "live s t" "t \<notin> set xs" by auto
  from enq_back [OF Cons.prems(1) this] obtain s1 where
    1: "enq_back t n s = Inr s1" "queue s1 (xs @ [t])" "live s1 = live s" by blast
  have "\<forall>u\<in>fst ` set tns. live s1 u \<and> u \<notin> set (xs @ [t])"
    using Cons.prems(2,3) tn 1(3) by auto
  from Cons.IH [OF 1(2) _ this] Cons.prems(2) tn 1 show ?case by auto
qed simp

end

interpretation tq: active_queue "scheduleTaskInternal BACK_OF_QUEUE" "scheduleTaskInternal FRONT_OF_QUEUE"
  getNextActiveTask active_list storage exhausted Active
proof unfold_locales
  fix s xs t n
  assume "active_list s xs" "storage s t" "t \<notin> set xs"
  from schedule_back_list [OF this, of n] show
    "\<exists>s'. scheduleTaskInternal BACK_OF_QUEUE t n s = Inr s' \<and> active_list s' (xs @ [t]) \<and>
      storage s' = storage s \<and> (\<forall>u. u \<noteq> t \<longrightarrow> exhausted s' u = exhausted s u)"
    by (auto simp: exhausted_def)
next
  fix s xs t n
  assume "active_list s xs" "storage s t" "t \<notin> set xs"
  from schedule_front_list [OF this, of n] show
    "\<exists>s'. scheduleTaskInternal FRONT_OF_QUEUE t n s = Inr s' \<and> active_list s' (t # xs) \<and>
      storage s' = storage s \<and> (\<forall>u. u \<noteq> t \<longrightarrow> exhausted s' u = exhausted s u)"
    by (auto simp: exhausted_def)
next
  fix s xs
  assume "active_list s xs"
  from next_list [OF this] show "\<exists>s'. getNextActiveTask s =
        ret (case dropWhile (exhausted s) xs of [] \<Rightarrow> Blocked | y # _ \<Rightarrow> Active y, s') \<and>
        active_list s' (dropWhile (exhausted s) xs) \<and> storage s' = storage s \<and> exhausted s' = exhausted s"
    by (fastforce simp: exhausted_def fun_eq_iff)
qed

section \<open>Results\<close>

text \<open>C19 The linked list is a queue.  While the objects in the list exist, a task scheduled at the
  front is the next one a worker gets; a task scheduled at the back comes after
  every task that still has jobs, in the order of the list; the exhausted tasks before
  the one handed out have left the list; and no step touches an object that does not
  exist.\<close>

theorem task_queue_order:
  assumes "active_list s xs" and "storage s t" and "t \<notin> set xs" and "jobs_started s t < n"
  shows "(\<exists>s1 s2. scheduleTaskInternal FRONT_OF_QUEUE t n s = Inr s1 \<and>
       getNextActiveTask s1 = ret (Active t, s2) \<and> active_list s2 (t # xs)) \<and>
     (\<exists>s1 s2. scheduleTaskInternal BACK_OF_QUEUE t n s = Inr s1 \<and>
       getNextActiveTask s1 = ret (Active (hd (dropWhile (exhausted s) xs @ [t])), s2) \<and>
       active_list s2 (dropWhile (exhausted s) xs @ [t]))"
proof
  from schedule_front_list [OF assms(1-3), of n] obtain s1 where
    1: "scheduleTaskInternal FRONT_OF_QUEUE t n s = Inr s1" "active_list s1 (t # xs)"
      "jobs_started s1 = jobs_started s" "jobs_in_task s1 = (jobs_in_task s)(t := n)" by blast
  then have "\<not> exhausted s1 t" using assms(4) by (simp add: exhausted_def)
  with tq.take_next [OF 1(2)] 1(1)
  show "\<exists>s1 s2. scheduleTaskInternal FRONT_OF_QUEUE t n s = Inr s1 \<and>
       getNextActiveTask s1 = ret (Active t, s2) \<and> active_list s2 (t # xs)" by fastforce
next
  from schedule_back_list [OF assms(1-3), of n] obtain s1 where
    1: "scheduleTaskInternal BACK_OF_QUEUE t n s = Inr s1" "active_list s1 (xs @ [t])"
      "jobs_started s1 = jobs_started s" "jobs_in_task s1 = (jobs_in_task s)(t := n)" by blast
  then have "\<not> exhausted s1 t" and "\<forall>u\<in>set xs. exhausted s1 u = exhausted s u"
    using assms(3,4) by (auto simp: exhausted_def)
  then have eq: "dropWhile (exhausted s1) (xs @ [t]) = dropWhile (exhausted s) xs @ [t]"
    by (induction xs) auto
  have head: "(case zs @ [t] of [] \<Rightarrow> Blocked | y # _ \<Rightarrow> Active y) = Active (hd (zs @ [t]))" for zs
    by (cases zs) auto
  from tq.take_next [OF 1(2)] 1(1)
  show "\<exists>s1 s2. scheduleTaskInternal BACK_OF_QUEUE t n s = Inr s1 \<and>
       getNextActiveTask s1 = ret (Active (hd (dropWhile (exhausted s) xs @ [t])), s2) \<and>
       active_list s2 (dropWhile (exhausted s) xs @ [t])"
    unfolding eq head by blast
qed

text \<open>A finished task stays in the list.  Nothing takes a task out when it completes; only
  a worker that looks for work does.  When \<open>parallel_for\<close> has completed its task
  (the waiting thread may do all the work) and the task on its stack is gone, the next
  scheduling at the back writes to the destroyed object.\<close>

theorem finished_task_dangles:
  assumes "active_list s xs" and "t \<notin> set xs" and "u \<noteq> t" and "storage s u"
  shows "\<exists>s1. scheduleTaskInternal BACK_OF_QUEUE t n (construct_task t s) = Inr s1 \<and>
     scheduleTaskInternal BACK_OF_QUEUE u k (destroy_task t s1) = Inl Undefined_behaviour"
proof -
  have "active_list (construct_task t s) xs"
    using assms(1) by (auto simp: active_list_def construct_task_def)
  moreover have "storage (construct_task t s) t" by (simp add: construct_task_def)
  ultimately obtain s1 where
    1: "scheduleTaskInternal BACK_OF_QUEUE t n (construct_task t s) = Inr s1" "active_list s1 (xs @ [t])"
      "storage s1 = storage (construct_task t s)"
    using schedule_back_list assms(2) by blast
  then have "activeListFirst s1 \<noteq> None" "activeListLast s1 = Some t"
    by (auto simp: active_list_def split: list.splits)
  then have "scheduleTaskInternal BACK_OF_QUEUE u k (destroy_task t s1) = Inl Undefined_behaviour"
    using assms(3,4) 1(3)
    by (auto simp: scheduleTaskInternal_def destroy_task_def construct_task_def set_next_def)
  with 1(1) show ?thesis by blast
qed

lemma two_tasks: "active_list (construct_task 2 (construct_task 1 TaskSys_init)) []"
  by (simp add: active_list_def construct_task_def TaskSys_init_def)

theorem task_queue_order_witness:
  "\<exists>s1 s2. scheduleTaskInternal FRONT_OF_QUEUE 1 8 (construct_task 2 (construct_task 1 TaskSys_init)) = Inr s1 \<and>
     getNextActiveTask s1 = ret (Active 1, s2) \<and> active_list s2 [1]"
  using task_queue_order [OF two_tasks, of 1 8] by (simp add: construct_task_def TaskSys_init_def)

theorem finished_task_dangles_witness:
  "\<exists>s1. scheduleTaskInternal BACK_OF_QUEUE 3 8 (construct_task 3 (construct_task 2 (construct_task 1 TaskSys_init))) = Inr s1 \<and>
     scheduleTaskInternal BACK_OF_QUEUE 2 4 (destroy_task 3 s1) = Inl Undefined_behaviour"
  using finished_task_dangles [OF two_tasks, of 3 2 8 4] by (simp add: construct_task_def)

end
