(* ===== verification/SyncUtils.thy ===== *)
theory SyncUtils
  imports Prelude
begin

text \<open>
  Small shared-state utilities of \<open>ospcommon\<close>: \<open>TransactionalBuffer\<close>,
  \<open>TransactionalValue\<close>, \<open>DoubleBufferedValue\<close>, \<open>Optional\<close>, time stamps with observers,
  and the blocks of \<open>parallel_in_blocks_of\<close>.  The operations that take a lock are one
  step each.
\<close>

section \<open>TransactionalBuffer\<close>

type_synonym 'a transactional_buffer = "'a list"

definition tb_push_back :: "'a \<Rightarrow> 'a transactional_buffer \<Rightarrow> 'a transactional_buffer" where
  "tb_push_back v buf = buf @ [v]"

definition tb_consume :: "'a transactional_buffer \<Rightarrow> 'a list \<times> 'a transactional_buffer" where
  "tb_consume buf = (buf, [])"

definition tb_size :: "'a transactional_buffer \<Rightarrow> nat" where "tb_size buf = length buf"

definition tb_empty :: "'a transactional_buffer \<Rightarrow> bool" where "tb_empty buf \<longleftrightarrow> buf = []"

datatype 'a tb_op = Push 'a | Consume

fun tb_run :: "'a tb_op list \<Rightarrow> 'a transactional_buffer \<Rightarrow> 'a list list \<times> 'a transactional_buffer" where
  "tb_run [] buf = ([], buf)"
| "tb_run (Push v # ops) buf = tb_run ops (tb_push_back v buf)"
| "tb_run (Consume # ops) buf = (case tb_consume buf of (vs, buf') \<Rightarrow>
     (case tb_run ops buf' of (vss, b) \<Rightarrow> (vs # vss, b)))"

fun pushed :: "'a tb_op list \<Rightarrow> 'a list" where
  "pushed [] = []"
| "pushed (Push v # ops) = v # pushed ops"
| "pushed (Consume # ops) = pushed ops"

text \<open>Nothing is lost, duplicated or reordered, in whatever order producers and the
  consumer get the lock.\<close>

lemma tb_fifo: "tb_run ops buf = (vss, b) \<Longrightarrow> concat vss @ b = buf @ pushed ops"
  by (induction ops buf arbitrary: vss b rule: tb_run.induct)
     (auto simp: tb_push_back_def tb_consume_def split: prod.splits)

section \<open>TransactionalValue and DoubleBufferedValue\<close>

record 'a transactional_value =
  newValue :: bool
  queuedValue :: 'a
  currentValue :: 'a

definition tv_assign :: "'a \<Rightarrow> 'a transactional_value \<Rightarrow> 'a transactional_value" where
  "tv_assign v t = t\<lparr>queuedValue := v, newValue := True\<rparr>"

definition tv_get :: "'a transactional_value \<Rightarrow> 'a" where
  "tv_get t = currentValue t"

text \<open>\<open>queuedValue\<close> is moved from; its value is not used before it is assigned again.\<close>

definition tv_update :: "'a transactional_value \<Rightarrow> bool \<times> 'a transactional_value" where
  "tv_update t = (if newValue t
     then (True, t\<lparr>currentValue := queuedValue t, newValue := False\<rparr>) else (False, t))"

lemma tv_last_value_wins:
  "vs \<noteq> [] \<Longrightarrow> tv_update (fold tv_assign vs t) = (True, t') \<Longrightarrow> tv_get t' = last vs \<and> \<not> fst (tv_update t')"
proof (induction vs rule: rev_induct)
  case (snoc v vs)
  then show ?case by (auto simp: tv_assign_def tv_update_def tv_get_def)
qed simp

record 'a double_buffered =
  front_value :: nat
  back_value :: nat
  buffer_values :: "'a \<times> 'a"

definition db_init :: "'a \<times> 'a \<Rightarrow> 'a double_buffered" where
  "db_init v = \<lparr>front_value = 0, back_value = 1, buffer_values = v\<rparr>"

definition db_select :: "nat \<Rightarrow> 'a double_buffered \<Rightarrow> 'a" where
  "db_select i d = (if i = 0 then fst (buffer_values d) else snd (buffer_values d))"

definition db_front :: "'a double_buffered \<Rightarrow> 'a" where "db_front d = db_select (front_value d) d"
definition db_back :: "'a double_buffered \<Rightarrow> 'a" where "db_back d = db_select (back_value d) d"

definition db_swap :: "'a double_buffered \<Rightarrow> 'a double_buffered" where
  "db_swap d = d\<lparr>front_value := back_value d, back_value := front_value d\<rparr>"

definition db_write_back :: "'a \<Rightarrow> 'a double_buffered \<Rightarrow> 'a double_buffered" where
  "db_write_back v d = d\<lparr>buffer_values :=
     (if back_value d = 0 then (v, snd (buffer_values d)) else (fst (buffer_values d), v))\<rparr>"

definition db_ok :: "'a double_buffered \<Rightarrow> bool" where
  "db_ok d \<longleftrightarrow> front_value d = 0 \<and> back_value d = 1 \<or> front_value d = 1 \<and> back_value d = 0"

lemma db_swap_ok: "db_ok d \<Longrightarrow> db_ok (db_swap d)"
  by (auto simp: db_ok_def db_swap_def)

lemma db_swap_exchanges:
  "db_front (db_swap d) = db_back d \<and> db_back (db_swap d) = db_front d \<and> db_swap (db_swap d) = d"
  by (simp add: db_front_def db_back_def db_swap_def db_select_def)

lemma db_write_keeps_front:
  "db_ok d \<Longrightarrow> db_front (db_write_back v d) = db_front d \<and> db_front (db_swap (db_write_back v d)) = v"
  by (auto simp: db_ok_def db_front_def db_write_back_def db_swap_def db_select_def)

section \<open>Optional\<close>

text \<open>The storage holds an object (or the bytes of one) or nothing yet; for trivially
  destructible types \<open>reset\<close> leaves the bytes, for the others the object is gone.\<close>

record 'a optional =
  opt_storage :: "'a option"
  hasValue :: bool

definition opt_empty :: "'a optional" where
  "opt_empty = \<lparr>opt_storage = None, hasValue = False\<rparr>"

definition opt_has_value :: "'a optional \<Rightarrow> bool" where
  "opt_has_value p = hasValue p"

definition opt_value :: "'a optional \<Rightarrow> 'a res" where
  "opt_value p = (case opt_storage p of None \<Rightarrow> Inl Undefined_behaviour | Some v \<Rightarrow> Inr v)"

definition opt_value_or :: "'a optional \<Rightarrow> 'a \<Rightarrow> 'a res" where
  "opt_value_or p d = (if opt_has_value p then opt_value p else Inr d)"

definition opt_reset :: "bool \<Rightarrow> 'a optional \<Rightarrow> 'a optional" where
  "opt_reset trivially_destructible p =
     p\<lparr>hasValue := False, opt_storage := (if \<not> trivially_destructible \<and> hasValue p then None else opt_storage p)\<rparr>"

definition opt_emplace :: "bool \<Rightarrow> 'a \<Rightarrow> 'a optional \<Rightarrow> 'a optional" where
  "opt_emplace triv v p = (opt_reset triv p)\<lparr>opt_storage := Some v, hasValue := True\<rparr>"

definition opt_assign_value :: "'a \<Rightarrow> 'a optional \<Rightarrow> 'a optional" where
  "opt_assign_value v p = p\<lparr>opt_storage := Some v, hasValue := True\<rparr>"

text \<open>\<open>operator=(const Optional &)\<close>: no test whether the other side has a value.\<close>

definition opt_assign :: "'a optional \<Rightarrow> 'a optional \<Rightarrow> 'a optional res" where
  "opt_assign other p = bind_res (opt_value other) (\<lambda>v. Inr (p\<lparr>opt_storage := Some v, hasValue := True\<rparr>))"

definition opt_copy :: "'a optional \<Rightarrow> 'a optional res" where
  "opt_copy other = (if opt_has_value other
     then bind_res (opt_value other) (\<lambda>v. Inr (opt_assign_value v opt_empty)) else Inr opt_empty)"

definition opt_ok :: "'a optional \<Rightarrow> bool" where
  "opt_ok p \<longleftrightarrow> (hasValue p \<longrightarrow> opt_storage p \<noteq> None)"

lemma opt_value_or_emplace: "opt_value_or (opt_emplace triv v p) d = Inr v"
  by (simp add: opt_value_or_def opt_emplace_def opt_has_value_def opt_value_def)

lemma opt_copy_ok: "opt_ok p \<Longrightarrow> \<exists>q. opt_copy p = Inr q \<and> opt_value_or q d = opt_value_or p d"
  by (auto simp: opt_copy_def opt_ok_def opt_has_value_def opt_value_def opt_assign_value_def
      opt_empty_def opt_value_or_def)

text \<open>Assigning optionals.  From an \<open>Optional\<close> with a value the assignment copies it.  From an
  empty one it does not empty the target: it reads the storage of the other side, which is
  undefined behaviour when nothing was ever stored there, and makes a reset value (of
  a trivially destructible type) come back.\<close>

theorem optional_assignment:
  assumes "opt_ok other"
  shows "(hasValue other \<longrightarrow> (\<exists>q. opt_assign other p = Inr q \<and> hasValue q \<and> opt_value_or q d = opt_value_or other d)) \<and>
     opt_assign opt_empty p = Inl Undefined_behaviour \<and>
     (\<exists>q. opt_assign (opt_reset True (opt_emplace True v other)) p = Inr q \<and> hasValue q \<and> opt_value_or q d = Inr v)"
  using assms
  by (auto simp: opt_assign_def opt_ok_def opt_value_def opt_value_or_def opt_has_value_def opt_empty_def
      opt_reset_def opt_emplace_def)

theorem optional_assignment_witness:
  "opt_assign (opt_reset True (opt_emplace True (5::int) opt_empty)) (opt_emplace True 1 opt_empty) =
     Inr \<lparr>opt_storage = Some 5, hasValue = True\<rparr>"
proof -
  have "opt_ok (opt_empty :: int optional)" by (simp add: opt_ok_def opt_empty_def)
  from optional_assignment [OF this, of "opt_emplace True 1 opt_empty" 0 5] show ?thesis
    by (auto simp: opt_assign_def opt_value_def opt_value_or_def opt_has_value_def opt_reset_def opt_emplace_def opt_empty_def)
qed

section \<open>Time stamps and observers\<close>

text \<open>\<open>TimeStamp::global\<close> is a counter of type \<open>size_t\<close>.\<close>

definition nextValue :: "u64 \<Rightarrow> u64 \<times> u64" where
  "nextValue global = (global, global + 1)"

text \<open>One observable with its observers, each with the time it last observed.\<close>

record observed =
  global_time :: u64
  lastNotified :: u64
  lastObserved :: "u64 list"

definition Observable_new :: "u64 \<Rightarrow> observed" where
  "Observable_new g = (case nextValue g of (v, g') \<Rightarrow>
     \<lparr>global_time = g', lastNotified = v, lastObserved = []\<rparr>)"

definition Observer_new :: "observed \<Rightarrow> observed" where
  "Observer_new s = (case nextValue (global_time s) of (v, g) \<Rightarrow>
     s\<lparr>global_time := g, lastObserved := lastObserved s @ [v]\<rparr>)"

definition notifyObservers :: "observed \<Rightarrow> observed" where
  "notifyObservers s = (case nextValue (global_time s) of (v, g) \<Rightarrow> s\<lparr>global_time := g, lastNotified := v\<rparr>)"

definition wasNotified :: "nat \<Rightarrow> observed \<Rightarrow> bool \<times> observed" where
  "wasNotified i s =
     (if lastObserved s ! i < lastNotified s
      then (case nextValue (global_time s) of (v, g) \<Rightarrow>
              (True, s\<lparr>global_time := g, lastObserved := (lastObserved s)[i := v]\<rparr>))
      else (False, s))"

text \<open>The specification: for every observer, whether there was a notification it has not seen.\<close>

datatype obs_op = New_observer | Notify | Ask nat

fun obs_spec :: "obs_op \<Rightarrow> bool list \<Rightarrow> bool option \<times> bool list" where
  "obs_spec New_observer ps = (None, ps @ [False])"
| "obs_spec Notify ps = (None, map (\<lambda>_. True) ps)"
| "obs_spec (Ask i) ps = (Some (ps ! i), ps[i := False])"

fun obs_run :: "obs_op \<Rightarrow> observed \<Rightarrow> bool option \<times> observed" where
  "obs_run New_observer s = (None, Observer_new s)"
| "obs_run Notify s = (None, notifyObservers s)"
| "obs_run (Ask i) s = (case wasNotified i s of (b, s') \<Rightarrow> (Some b, s'))"

fun run_ops :: "('o \<Rightarrow> 's \<Rightarrow> bool option \<times> 's) \<Rightarrow> 'o list \<Rightarrow> 's \<Rightarrow> bool option list" where
  "run_ops f [] s = []"
| "run_ops f (x # xs) s = (case f x s of (r, s') \<Rightarrow> r # run_ops f xs s')"

definition pending_rel :: "observed \<Rightarrow> bool list \<Rightarrow> bool" where
  "pending_rel s ps \<longleftrightarrow> length ps = length (lastObserved s) \<and> lastNotified s < global_time s \<and>
     (\<forall>v\<in>set (lastObserved s). v < global_time s \<and> v \<noteq> lastNotified s) \<and>
     (\<forall>i<length ps. ps ! i \<longleftrightarrow> lastObserved s ! i < lastNotified s)"

fun asks_below :: "nat \<Rightarrow> obs_op list \<Rightarrow> bool" where
  "asks_below n [] \<longleftrightarrow> True"
| "asks_below n (New_observer # xs) \<longleftrightarrow> asks_below (Suc n) xs"
| "asks_below n (Notify # xs) \<longleftrightarrow> asks_below n xs"
| "asks_below n (Ask i # xs) \<longleftrightarrow> i < n \<and> asks_below n xs"

lemma word_less_suc: "unat (g :: u64) < 2 ^ 64 - 1 \<Longrightarrow> v \<le> g \<longleftrightarrow> v < g + 1"
proof -
  assume "unat g < 2 ^ 64 - 1"
  then have "unat (g + 1) = unat g + 1" by (subst unat_add_lem [THEN iffD1]) auto
  then show ?thesis by (simp add: word_less_nat_alt word_le_nat_alt less_Suc_eq_le)
qed

lemma obs_step:
  assumes "pending_rel s ps" and "unat (global_time s) < 2 ^ 64 - 1"
    and "case op of Ask i \<Rightarrow> i < length ps | _ \<Rightarrow> True"
  shows "fst (obs_run op s) = fst (obs_spec op ps) \<and> pending_rel (snd (obs_run op s)) (snd (obs_spec op ps)) \<and>
     unat (global_time (snd (obs_run op s))) \<le> unat (global_time s) + 1"
proof -
  have g: "v < global_time s + 1 \<longleftrightarrow> v \<le> global_time s" for v
    using word_less_suc [OF assms(2), of v] by simp
  have up: "unat (global_time s + 1) = unat (global_time s) + 1"
    using assms(2) by (subst unat_add_lem [THEN iffD1]) auto
  have old: "lastNotified s < global_time s" "\<forall>v\<in>set (lastObserved s). v < global_time s \<and> v \<noteq> lastNotified s"
    using assms(1) by (auto simp: pending_rel_def)
  show ?thesis
  proof (cases op)
    case New_observer
    with assms(1) old show ?thesis
      by (auto simp: pending_rel_def Observer_new_def nextValue_def g up nth_append less_Suc_eq)
  next
    case Notify
    with assms(1) old show ?thesis
      by (auto simp: pending_rel_def notifyObservers_def nextValue_def g up)
  next
    case (Ask i)
    then have i: "i < length (lastObserved s)" using assms(1,3) by (simp add: pending_rel_def)
    with Ask assms(1) old show ?thesis
      by (auto simp: pending_rel_def wasNotified_def nextValue_def g up nth_list_update
          dest!: set_update_subset_insert [THEN subsetD])
  qed
qed

lemma obs_refines:
  assumes "pending_rel s ps" and "unat (global_time s) + length ops < 2 ^ 64" and "asks_below (length ps) ops"
  shows "run_ops obs_run ops s = run_ops obs_spec ops ps"
  using assms
proof (induction ops arbitrary: s ps)
  case (Cons op ops)
  have len: "length (snd (obs_spec op ps)) = (case op of New_observer \<Rightarrow> Suc (length ps) | _ \<Rightarrow> length ps)"
    by (cases op) auto
  have "unat (global_time s) < 2 ^ 64 - 1" using Cons.prems(2) by simp
  moreover have "case op of Ask i \<Rightarrow> i < length ps | _ \<Rightarrow> True" using Cons.prems(3) by (cases op) auto
  ultimately have st: "fst (obs_run op s) = fst (obs_spec op ps)" "pending_rel (snd (obs_run op s)) (snd (obs_spec op ps))"
    "unat (global_time (snd (obs_run op s))) \<le> unat (global_time s) + 1"
    using obs_step [OF Cons.prems(1)] by blast+
  have "run_ops obs_run ops (snd (obs_run op s)) = run_ops obs_spec ops (snd (obs_spec op ps))"
  proof (rule Cons.IH [OF st(2)])
    show "unat (global_time (snd (obs_run op s))) + length ops < 2 ^ 64" using st(3) Cons.prems(2) by simp
    show "asks_below (length (snd (obs_spec op ps))) ops" using Cons.prems(3) len by (cases op) auto
  qed
  with st(1) show ?case by (simp add: split_def)
qed simp

text \<open>C25 Observers miss nothing.  For every sequence of new observers, notifications and
  questions (fewer than 2 ^ 64 of them), \<open>wasNotified\<close> answers as in the
  specification that remembers one bit per observer: true exactly when there has been a
  notification since the observer was created or last answered true.\<close>

theorem observers_see_notifications:
  assumes "unat g + 1 + length ops < 2 ^ 64" and "asks_below 0 ops"
  shows "run_ops obs_run ops (Observable_new g) = run_ops obs_spec ops []"
proof (rule obs_refines)
  have "unat (g + 1) = unat g + 1" using assms(1) by (subst unat_add_lem [THEN iffD1]) auto
  then show "pending_rel (Observable_new g) []" and "unat (global_time (Observable_new g)) + length ops < 2 ^ 64"
    using assms(1) by (auto simp: pending_rel_def Observable_new_def nextValue_def word_less_nat_alt)
  show "asks_below (length []) ops" using assms(2) by simp
qed

theorem observers_see_notifications_witness:
  "run_ops obs_run [New_observer, Ask 0, Notify, Notify, New_observer, Ask 0, Ask 0, Ask 1] (Observable_new 7) =
     [None, Some False, None, None, None, Some True, Some False, Some False]"
  using observers_see_notifications [of 7 "[New_observer, Ask 0, Notify, Notify, New_observer, Ask 0, Ask 0, Ask 1]"]
  by simp

section \<open>parallel_in_blocks_of\<close>

text \<open>The index type is \<open>size_t\<close>; the result is the ranges given to \<open>fcn\<close>, by block.\<close>

definition numBlocks :: "u64 \<Rightarrow> u64 \<Rightarrow> u64" where
  "numBlocks BLOCK_SIZE nTasks = (nTasks + BLOCK_SIZE - 1) div BLOCK_SIZE"

definition block_range :: "u64 \<Rightarrow> u64 \<Rightarrow> u64 \<Rightarrow> u64 \<times> u64" where
  "block_range BLOCK_SIZE nTasks blockID =
     (let bgn = blockID * BLOCK_SIZE in (bgn, min (bgn + BLOCK_SIZE) nTasks))"

definition parallel_in_blocks_of :: "u64 \<Rightarrow> u64 \<Rightarrow> (u64 \<times> u64) list" where
  "parallel_in_blocks_of BLOCK_SIZE nTasks =
     map (\<lambda>i. block_range BLOCK_SIZE nTasks (word_of_nat i)) [0..<unat (numBlocks BLOCK_SIZE nTasks)]"

lemma blocks_cover:
  "0 < b \<Longrightarrow> concat (map (\<lambda>i. [i * b..<min (i * b + b) n]) [0..<k]) = [0..<min (k * b) n]" for b n k :: nat
proof (induction k)
  case (Suc k)
  have "[0..<min (k * b) n] @ [k * b..<min (k * b + b) n] = [0..<min (Suc k * b) n]"
  proof (cases "k * b \<le> n")
    case True
    then have "min (k * b) n = k * b" "min (k * b + b) n = min (Suc k * b) n" by (auto simp: add.commute)
    moreover have "k * b \<le> min (Suc k * b) n" using True by simp
    ultimately show ?thesis using upt_add_eq_append [of 0 "k * b" "min (Suc k * b) n - k * b"] by simp
  next
    case False
    then have "n \<le> k * b" "n \<le> Suc k * b" by auto
    then show ?thesis by (simp add: min_def)
  qed
  with Suc show ?case by simp
qed simp

lemma unat_add_minus_one:
  fixes n b :: u64
  assumes "0 < b" and "unat n + unat b - 1 < 2 ^ 64"
  shows "unat (n + b - 1) = unat n + unat b - 1"
proof (cases "unat n + unat b < 2 ^ 64")
  case True
  then have "unat (n + b) = unat n + unat b" by (subst unat_add_lem [THEN iffD1]) auto
  moreover have "1 \<le> n + b" using calculation assms(1) by (simp add: word_le_nat_alt word_less_nat_alt)
  ultimately show ?thesis by (simp add: unat_sub)
next
  case False
  with assms(2) have eq: "unat n + unat b = 2 ^ 64" by simp
  moreover have "word_of_nat (unat n + unat b) = n + b" by simp
  ultimately have "n + b = word_of_nat (2 ^ 64)" by metis
  then have "n + b - 1 = - 1" by simp
  with eq show ?thesis by (simp add: unsigned_minus_1_eq_mask mask_eq_exp_minus_1)
qed

lemma unat_numBlocks:
  assumes "0 < b" and "unat n + unat b - 1 < 2 ^ 64"
  shows "unat (numBlocks b n) = (unat n + unat b - 1) div unat b"
  by (simp add: numBlocks_def unat_div_distrib unat_add_minus_one [OF assms])

lemma numBlocks_cover:
  assumes "0 < b" and "unat n + unat b - 1 < 2 ^ 64"
  shows "unat n \<le> unat (numBlocks b n) * unat b"
proof -
  let ?m = "unat n + unat b - 1"
  have b0: "0 < unat b" using assms(1) by (simp add: word_less_nat_alt)
  have "?m div unat b * unat b + ?m mod unat b = ?m" by (rule div_mult_mod_eq)
  moreover have "?m mod unat b < unat b" using b0 by simp
  ultimately show ?thesis unfolding unat_numBlocks [OF assms] by linarith
qed

lemma block_range_ends:
  assumes "0 < b" and "unat n + unat b - 1 < 2 ^ 64" and "i < unat (numBlocks b n)"
  shows "unat (fst (block_range b n (word_of_nat i))) = i * unat b \<and>
     unat (snd (block_range b n (word_of_nat i))) = min (i * unat b + unat b) (unat n)"
proof -
  have b0: "0 < unat b" using assms(1) by (simp add: word_less_nat_alt)
  have "Suc i * unat b \<le> unat n + unat b - 1"
    using assms(3) unat_numBlocks [OF assms(1,2)] b0 by (metis Suc_leI div_le_mono less_eq_div_iff_mult_less_eq)
  then have le: "i * unat b + unat b \<le> unat n + unat b - 1" by (simp add: add.commute)
  have "i < 2 ^ 64" using assms(3) unsigned_less [of "numBlocks b n", where ?'a = nat] by simp
  then have "unat (word_of_nat i :: u64) = i" by (simp add: unat_of_nat)
  moreover have "i * unat b < 2 ^ 64" using le assms(2) b0 by linarith
  ultimately have m: "unat (word_of_nat i * b) = i * unat b" by (subst unat_mult_lem [THEN iffD1]) auto
  have "unat (word_of_nat i * b + b) = i * unat b + unat b"
    using le assms(2) by (subst unat_add_lem [THEN iffD1]) (auto simp: m)
  then show ?thesis by (simp add: block_range_def Let_def m min_def word_le_nat_alt)
qed

text \<open>C26 Blocks partition the range.  As long as \<open>nTasks + BLOCK_SIZE - 1\<close> does not wrap, the
  blocks cover every index below \<open>nTasks\<close> exactly once and in order, and none is longer than
  \<open>BLOCK_SIZE\<close>; for the largest \<open>nTasks\<close> the sum wraps and there is no block at all.\<close>

theorem blocks_partition:
  assumes "0 < b" and "unat n + unat b - 1 < 2 ^ 64"
  shows "concat (map (\<lambda>(x, y). [unat x..<unat y]) (parallel_in_blocks_of b n)) = [0..<unat n] \<and>
     (\<forall>(x, y)\<in>set (parallel_in_blocks_of b n). unat y - unat x \<le> unat b) \<and>
     parallel_in_blocks_of 2 (- 1) = []"
proof -
  note ends = block_range_ends [OF assms]
  have "map (\<lambda>(x, y). [unat x..<unat y]) (parallel_in_blocks_of b n) =
      map (\<lambda>i. [i * unat b..<min (i * unat b + unat b) (unat n)]) [0..<unat (numBlocks b n)]"
    unfolding parallel_in_blocks_of_def map_map
    by (intro map_cong refl) (use ends in \<open>auto simp: split_def\<close>)
  then have "concat (map (\<lambda>(x, y). [unat x..<unat y]) (parallel_in_blocks_of b n)) = [0..<unat n]"
    using blocks_cover [of "unat b"] numBlocks_cover [OF assms] assms(1)
    by (simp add: word_less_nat_alt min_absorb2)
  moreover have "\<forall>(x, y)\<in>set (parallel_in_blocks_of b n). unat y - unat x \<le> unat b"
  proof -
    have "min (x + c) m - x \<le> c" for x c m :: nat by linarith
    then show ?thesis using ends by (simp add: parallel_in_blocks_of_def split_def)
  qed
  moreover have "parallel_in_blocks_of 2 (- 1) = []" by code_simp
  ultimately show ?thesis by simp
qed

theorem blocks_partition_witness:
  "concat (map (\<lambda>(x, y). [unat x..<unat y]) (parallel_in_blocks_of 4 10)) = [0..<10]"
  using blocks_partition [of 4 10] by simp

end
