(* ===== verification/Tiles.thy ===== *)
theory Tiles
  imports Prelude "HOL-Library.Signed_Division"
begin

text \<open>
  The tiles of a frame buffer: \<open>struct Tile\<close> (\<open>ospray/fb/Tile.h\<close>), the base class
  \<open>FrameBuffer\<close> (\<open>ospray/fb/FrameBuffer.cpp\<close>) and the number of jobs of a tile
  (\<open>ospray/render/LoadBalancer.h\<close>).  Sizes and numbers of tiles are \<open>int\<close>s in
  the code and unbounded integers here; the code does not check \<open>getTotalTiles\<close> and its other products
  of two \<open>int\<close>s, so the lemmas describe it as long as these products fit.  \<open>LocalFrame\<close> makes that
  condition explicit for the local frame buffer, and its constructor fails where a product does not fit.
  The tile size is an option of the build, here the argument \<open>ts\<close>.  What a tile
  stores per pixel is one value of an arbitrary type: it is only copied.
\<close>

section \<open>Vectors and boxes of integers\<close>

type_synonym ivec2 = "int \<times> int"

record box2i =
  lower :: ivec2
  upper :: ivec2

definition box_size :: "box2i \<Rightarrow> ivec2" where
  "box_size b = (fst (upper b) - fst (lower b), snd (upper b) - snd (lower b))"

definition points :: "box2i \<Rightarrow> ivec2 set" where
  "points b = {fst (lower b)..<fst (upper b)} \<times> {snd (lower b)..<snd (upper b)}"

definition divRoundUp :: "int \<Rightarrow> int \<Rightarrow> int" where
  "divRoundUp a b = (a + b - 1) sdiv b"

definition fits32 :: "int \<Rightarrow> bool" where
  "fits32 n \<longleftrightarrow> - (2 ^ 31) \<le> n \<and> n < 2 ^ 31"

lemma divRoundUp_div: "0 < b \<Longrightarrow> 0 \<le> a \<Longrightarrow> divRoundUp a b = (a + b - 1) div b"
  by (cases "a + b = 1") (auto simp: divRoundUp_def signed_divide_int_def sgn_if)

lemma divRoundUp_bounds:
  assumes "0 < b" and "0 \<le> a"
  shows "a \<le> divRoundUp a b * b" "divRoundUp a b * b < a + b"
proof -
  have "(a + b - 1) div b * b + (a + b - 1) mod b = a + b - 1"
    by (rule div_mult_mod_eq)
  moreover have "0 \<le> (a + b - 1) mod b" "(a + b - 1) mod b < b"
    using assms by simp_all
  ultimately show "a \<le> divRoundUp a b * b" "divRoundUp a b * b < a + b"
    unfolding divRoundUp_div [OF assms] by linarith+
qed

lemma divRoundUp_pos:
  assumes "0 < a" and "0 < b" shows "0 < divRoundUp a b"
proof (rule ccontr)
  assume "\<not> 0 < divRoundUp a b"
  then have "divRoundUp a b * b \<le> 0" using assms(2) by (simp add: mult_nonpos_nonneg)
  then show False using divRoundUp_bounds(1) [of b a] assms by linarith
qed

lemma less_divRoundUp_iff:
  assumes "0 < b" and "0 \<le> a"
  shows "t < divRoundUp a b \<longleftrightarrow> t * b < a"
proof
  assume "t < divRoundUp a b"
  then have "(t + 1) * b \<le> divRoundUp a b * b" using assms(1) by (simp add: mult_right_mono)
  then show "t * b < a" using divRoundUp_bounds(2) [OF assms] by (simp add: algebra_simps)
next
  assume "t * b < a"
  then have "t * b < divRoundUp a b * b" using divRoundUp_bounds(1) [OF assms] by linarith
  then show "t < divRoundUp a b" using assms(1) by simp
qed

section \<open>Tile\<close>

record 'p tile =
  region :: box2i
  tile_fbSize :: ivec2
  generation :: int
  children :: int
  sortOrder :: int
  tile_accumID :: int
  pixels :: 'p

definition Tile :: "int \<Rightarrow> ivec2 \<Rightarrow> ivec2 \<Rightarrow> int \<Rightarrow> 'p \<Rightarrow> int \<Rightarrow> 'p tile" where
  "Tile ts t fbsize accumId garbage so =
     \<lparr>region = \<lparr>lower = (fst t * ts, snd t * ts),
        upper = (min (fst t * ts + ts) (fst fbsize), min (snd t * ts + ts) (snd fbsize))\<rparr>,
      tile_fbSize = fbsize, generation = 0, children = 0, sortOrder = so,
      tile_accumID = accumId, pixels = garbage\<rparr>"

section \<open>FrameBuffer\<close>

datatype fb_format = OSP_FB_NONE | OSP_FB_RGBA8 | OSP_FB_SRGBA | OSP_FB_RGBA32F

definition OSP_FB_COLOR :: u32 where "OSP_FB_COLOR = 1"
definition OSP_FB_DEPTH :: u32 where "OSP_FB_DEPTH = 2"
definition OSP_FB_ACCUM :: u32 where "OSP_FB_ACCUM = 4"
definition OSP_FB_VARIANCE :: u32 where "OSP_FB_VARIANCE = 8"
definition OSP_FB_NORMAL :: u32 where "OSP_FB_NORMAL = 16"
definition OSP_FB_ALBEDO :: u32 where "OSP_FB_ALBEDO = 32"

definition has_channel :: "u32 \<Rightarrow> u32 \<Rightarrow> bool" where
  "has_channel channels c \<longleftrightarrow> and channels c \<noteq> 0"

record framebuffer =
  fb_size :: ivec2
  numTiles :: ivec2
  maxValidPixelID :: ivec2
  colorBufferFormat :: fb_format
  hasDepthBuffer :: bool
  hasAccumBuffer :: bool
  hasVarianceBuffer :: bool
  hasNormalBuffer :: bool
  hasAlbedoBuffer :: bool
  frameID :: int

text \<open>The assertion is a build option (\<open>dbg\<close>); without it the sizes are taken as they
  are.  The additions of \<open>divRoundUp\<close> are those of \<open>int\<close>s.\<close>

definition FrameBuffer :: "bool \<Rightarrow> int \<Rightarrow> ivec2 \<Rightarrow> fb_format \<Rightarrow> u32 \<Rightarrow> framebuffer res" where
  "FrameBuffer dbg ts sz fmt channels =
     (if \<not> fits32 (fst sz + ts) \<or> \<not> fits32 (snd sz + ts) \<or> \<not> fits32 (fst sz - 1) \<or> \<not> fits32 (snd sz - 1)
      then Inl Undefined_behaviour
      else if dbg \<and> \<not> (0 < fst sz \<and> 0 < snd sz) then Inl Assertion_failed
      else Inr \<lparr>fb_size = sz, numTiles = (divRoundUp (fst sz) ts, divRoundUp (snd sz) ts),
        maxValidPixelID = (fst sz - 1, snd sz - 1), colorBufferFormat = fmt,
        hasDepthBuffer = has_channel channels OSP_FB_DEPTH,
        hasAccumBuffer = has_channel channels OSP_FB_ACCUM,
        hasVarianceBuffer = has_channel channels OSP_FB_VARIANCE \<and> has_channel channels OSP_FB_ACCUM,
        hasNormalBuffer = has_channel channels OSP_FB_NORMAL,
        hasAlbedoBuffer = has_channel channels OSP_FB_ALBEDO, frameID = - 1\<rparr>)"

definition getTileSize :: "int \<Rightarrow> ivec2" where "getTileSize ts = (ts, ts)"
definition getNumTiles :: "framebuffer \<Rightarrow> ivec2" where "getNumTiles fb = numTiles fb"
definition getTotalTiles :: "framebuffer \<Rightarrow> int" where
  "getTotalTiles fb = fst (numTiles fb) * snd (numTiles fb)"
definition getNumPixels :: "framebuffer \<Rightarrow> ivec2" where "getNumPixels fb = fb_size fb"
definition FrameBuffer_beginFrame :: "framebuffer \<Rightarrow> framebuffer" where
  "FrameBuffer_beginFrame fb = fb\<lparr>frameID := frameID fb + 1\<rparr>"

section \<open>Numbering the tiles\<close>

text \<open>The load balancers turn a task index into a tile, in \<open>size_t\<close>; the buffers keep
  their arrays by \<open>y * numTiles.x + x\<close>.\<close>

definition tile_of_task :: "framebuffer \<Rightarrow> nat \<Rightarrow> ivec2" where
  "tile_of_task fb i =
    (let nx = nat (fst (getNumTiles fb)); ty = i div nx; tx = i - ty * nx in (int tx, int ty))"

definition tile_index :: "framebuffer \<Rightarrow> ivec2 \<Rightarrow> nat" where
  "tile_index fb t = nat (snd t * fst (numTiles fb) + fst t)"

definition getTileIDof :: "int \<Rightarrow> framebuffer \<Rightarrow> ivec2 \<Rightarrow> nat" where
  "getTileIDof ts fb c = nat (fst c div ts + snd c div ts * fst (numTiles fb))"

lemma div_eq_iff_int: "0 < (b :: int) \<Longrightarrow> a div b = q \<longleftrightarrow> q * b \<le> a \<and> a < q * b + b"
proof -
  assume "0 < b"
  have "a div b * b + a mod b = a" by (rule div_mult_mod_eq)
  moreover have "0 \<le> a mod b" "a mod b < b" using \<open>0 < b\<close> by simp_all
  ultimately show ?thesis using int_div_pos_eq [of a b q "a - q * b"]
    by (metis add.commute add_less_cancel_left diff_add_cancel diff_ge_0_iff_ge diff_less_eq mult.commute add_diff_cancel_left' le_add_same_cancel1)
qed

lemma Tile_points:
  assumes "0 < ts"
  shows "p \<in> points (region (Tile ts t sz a px so)) \<longleftrightarrow>
    (fst p div ts, snd p div ts) = t \<and> fst p < fst sz \<and> snd p < snd sz"
  using assms by (cases p; cases t) (auto simp: points_def Tile_def div_eq_iff_int)

lemma tile_of_task_eq:
  "tile_of_task fb i = (int (i mod nat (fst (numTiles fb))), int (i div nat (fst (numTiles fb))))"
  by (simp add: tile_of_task_def getNumTiles_def Let_def minus_div_mult_eq_mod)

text \<open>What the constructor establishes.\<close>

definition frame_ok :: "int \<Rightarrow> framebuffer \<Rightarrow> bool" where
  "frame_ok ts fb \<longleftrightarrow> 0 < ts \<and> 0 < fst (fb_size fb) \<and> 0 < snd (fb_size fb) \<and>
     numTiles fb = (divRoundUp (fst (fb_size fb)) ts, divRoundUp (snd (fb_size fb)) ts) \<and>
     (hasVarianceBuffer fb \<longrightarrow> hasAccumBuffer fb)"

lemma frame_ok_FrameBuffer:
  "FrameBuffer True ts sz fmt ch = Inr fb \<Longrightarrow> 0 < ts \<Longrightarrow> frame_ok ts fb \<and> fb_size fb = sz"
  by (auto simp: FrameBuffer_def frame_ok_def split: if_splits)

lemma frame_ok_numTiles:
  "frame_ok ts fb \<Longrightarrow> 0 < fst (numTiles fb) \<and> 0 < snd (numTiles fb)"
  by (auto simp: frame_ok_def divRoundUp_pos)

lemma numTiles_nat:
  assumes "frame_ok ts fb"
  obtains nx ny where "numTiles fb = (int nx, int ny)" "0 < nx" "0 < ny" "nat (getTotalTiles fb) = ny * nx"
proof -
  obtain nx ny where n: "numTiles fb = (int nx, int ny)"
    using frame_ok_numTiles [OF assms] by (metis less_imp_le nonneg_int_cases prod.collapse)
  moreover have "nat (getTotalTiles fb) = ny * nx"
    by (simp add: getTotalTiles_def n nat_mult_distrib mult.commute)
  ultimately show ?thesis using that frame_ok_numTiles [OF assms] by simp
qed

lemma tile_index_of_task [simp]:
  assumes "frame_ok ts fb"
  shows "tile_index fb (tile_of_task fb i) = i"
proof -
  from assms obtain nx ny where n: "numTiles fb = (int nx, int ny)" by (rule numTiles_nat)
  have "nat (int (i div nx) * int nx + int (i mod nx)) = i div nx * nx + i mod nx"
    by (simp add: nat_add_distrib nat_mult_distrib)
  then show ?thesis by (simp add: tile_index_def tile_of_task_eq n)
qed

lemma task_of_tile_index:
  assumes "frame_ok ts fb" and "0 \<le> fst t" "fst t < fst (numTiles fb)" "0 \<le> snd t" "snd t < snd (numTiles fb)"
  shows "tile_of_task fb (tile_index fb t) = t" "tile_index fb t < nat (getTotalTiles fb)"
proof -
  obtain x y where t: "t = (int x, int y)" using assms by (metis nonneg_int_cases prod.collapse)
  from assms(1) obtain nx ny where n: "numTiles fb = (int nx, int ny)" "nat (getTotalTiles fb) = ny * nx"
    by (rule numTiles_nat)
  have x: "x < nx" and y: "y < ny" using assms by (auto simp: t n)
  have idx: "tile_index fb t = y * nx + x"
    by (simp add: tile_index_def t n nat_add_distrib nat_mult_distrib)
  show "tile_of_task fb (tile_index fb t) = t"
    unfolding idx using x by (simp add: tile_of_task_eq n t)
  have "y * nx + x < Suc y * nx" using x by simp
  also have "\<dots> \<le> ny * nx" using y by (intro mult_le_mono1) simp
  finally show "tile_index fb t < nat (getTotalTiles fb)"
    using idx n by simp
qed

lemma tile_of_task_range:
  assumes "frame_ok ts fb" and "i < nat (getTotalTiles fb)"
  shows "0 \<le> fst (tile_of_task fb i)" "fst (tile_of_task fb i) < fst (numTiles fb)"
    "0 \<le> snd (tile_of_task fb i)" "snd (tile_of_task fb i) < snd (numTiles fb)"
proof -
  from assms(1) obtain nx ny where n: "numTiles fb = (int nx, int ny)" "0 < nx" "nat (getTotalTiles fb) = ny * nx"
    by (rule numTiles_nat)
  have "i div nx < ny" using assms(2) by (simp add: n less_mult_imp_div_less)
  then show "0 \<le> fst (tile_of_task fb i)" "fst (tile_of_task fb i) < fst (numTiles fb)"
    "0 \<le> snd (tile_of_task fb i)" "snd (tile_of_task fb i) < snd (numTiles fb)"
    using n by (simp_all add: tile_of_task_eq)
qed

lemma tile_of_task_inject:
  "frame_ok ts fb \<Longrightarrow> tile_of_task fb i = tile_of_task fb j \<longleftrightarrow> i = j"
  by (metis tile_index_of_task)

section \<open>The number of jobs of a tile\<close>

text \<open>\<open>1 << -2 * spp\<close> is undefined for shifts past the width; with two samples per
  shift the branch is only taken for a non-positive \<open>spp\<close>.\<close>

definition numJobs :: "int \<Rightarrow> int \<Rightarrow> int \<Rightarrow> int \<Rightarrow> int res" where
  "numJobs ts pixels_per_job spp accumID =
    (if accumID > 0 \<or> spp > 0 then Inr (divRoundUp (ts * ts div pixels_per_job) 1)
     else if - 2 * spp \<ge> 31 then Inl Undefined_behaviour
     else Inr (divRoundUp (ts * ts div pixels_per_job) (min (2 ^ nat (- 2 * spp)) (ts * ts))))"

section \<open>The tiles of a frame\<close>

definition tile_region :: "int \<Rightarrow> framebuffer \<Rightarrow> nat \<Rightarrow> box2i" where
  "tile_region ts fb i = region (Tile ts (tile_of_task fb i) (getNumPixels fb) 0 () 0)"

lemma region_Tile:
  "region (Tile ts (tile_of_task fb i) (fb_size fb) a px so) = tile_region ts fb i"
  by (simp add: tile_region_def Tile_def getNumPixels_def)

lemma tile_region_points:
  assumes "0 < ts"
  shows "p \<in> points (tile_region ts fb i) \<longleftrightarrow>
    (fst p div ts, snd p div ts) = tile_of_task fb i \<and> fst p < fst (fb_size fb) \<and> snd p < snd (fb_size fb)"
  by (simp add: tile_region_def Tile_points [OF assms] getNumPixels_def)

lemma tile_region_lower:
  "lower (tile_region ts fb i) = (fst (tile_of_task fb i) * ts, snd (tile_of_task fb i) * ts)"
  by (simp add: tile_region_def Tile_def)

lemma tile_region_disjoint:
  "frame_ok ts fb \<Longrightarrow> i \<noteq> j \<Longrightarrow> points (tile_region ts fb i) \<inter> points (tile_region ts fb j) = {}"
  using tile_of_task_inject by (auto simp: frame_ok_def tile_region_points)

lemma tile_region_nonempty:
  assumes "frame_ok ts fb" and "i < nat (getTotalTiles fb)"
  shows "lower (tile_region ts fb i) \<in> points (tile_region ts fb i)"
  using assms tile_of_task_range [OF assms]
  by (auto simp: frame_ok_def tile_region_points tile_region_lower less_divRoundUp_iff)

lemma tile_regions_cover:
  assumes "frame_ok ts fb"
  shows "(\<Union>i<nat (getTotalTiles fb). points (tile_region ts fb i)) =
    points \<lparr>lower = (0, 0), upper = fb_size fb\<rparr>"
proof (intro equalityI subsetI)
  have ts: "0 < ts" using assms by (simp add: frame_ok_def)
  fix p
  { assume "p \<in> (\<Union>i<nat (getTotalTiles fb). points (tile_region ts fb i))"
    then obtain i where i: "i < nat (getTotalTiles fb)" "p \<in> points (tile_region ts fb i)" by auto
    then have t: "(fst p div ts, snd p div ts) = tile_of_task fb i"
        and le: "fst p < fst (fb_size fb)" "snd p < snd (fb_size fb)"
      unfolding tile_region_points [OF ts] by blast+
    have "0 \<le> fst p div ts" "0 \<le> snd p div ts"
      using tile_of_task_range(1,3) [OF assms i(1)] unfolding t [symmetric] by simp_all
    then have "0 \<le> fst p" "0 \<le> snd p" using ts by (simp_all add: pos_imp_zdiv_nonneg_iff)
    with le show "p \<in> points \<lparr>lower = (0, 0), upper = fb_size fb\<rparr>"
      by (simp add: points_def mem_Times_iff) }
  assume p: "p \<in> points \<lparr>lower = (0, 0), upper = fb_size fb\<rparr>"
  let ?t = "(fst p div ts, snd p div ts)"
  have "fst p div ts * ts \<le> fst p" "snd p div ts * ts \<le> snd p"
    using div_eq_iff_int [OF ts] by blast+
  then have "0 \<le> fst ?t" "fst ?t < fst (numTiles fb)" "0 \<le> snd ?t" "snd ?t < snd (numTiles fb)"
    using p ts assms by (auto simp: points_def frame_ok_def less_divRoundUp_iff pos_imp_zdiv_nonneg_iff)
  from task_of_tile_index [OF assms this]
  have i: "tile_of_task fb (tile_index fb ?t) = ?t" "tile_index fb ?t < nat (getTotalTiles fb)" .
  have "p \<in> points (tile_region ts fb (tile_index fb ?t))"
    unfolding tile_region_points [OF ts] i(1) using p by (simp add: points_def mem_Times_iff)
  with i(2) show "p \<in> (\<Union>i<nat (getTotalTiles fb). points (tile_region ts fb i))" by blast
qed

lemma tile_region_index:
  assumes "frame_ok ts fb"
  shows "getTileIDof ts fb (lower (tile_region ts fb i)) = i"
  using tile_index_of_task [OF assms, of i] assms
  by (simp add: getTileIDof_def tile_region_lower tile_index_def frame_ok_def add.commute)

text \<open>C23 The tiles cover the frame.  For a frame buffer made by the constructor, every
  pixel lies in the region of exactly one tile, no region leaves the frame or is
  empty, and the ways of numbering the tiles (the task index of a load balancer, the
  index of the per-tile arrays, and the tile of a pixel coordinate) agree.\<close>

theorem tiles_partition_frame:
  assumes "FrameBuffer True ts sz fmt ch = Inr fb" and "0 < ts"
  shows "(\<Union>i<nat (getTotalTiles fb). points (tile_region ts fb i)) = points \<lparr>lower = (0, 0), upper = sz\<rparr> \<and>
    (\<forall>i j. i \<noteq> j \<longrightarrow> points (tile_region ts fb i) \<inter> points (tile_region ts fb j) = {}) \<and>
    (\<forall>i<nat (getTotalTiles fb). lower (tile_region ts fb i) \<in> points (tile_region ts fb i) \<and>
       tile_index fb (tile_of_task fb i) = i \<and> getTileIDof ts fb (lower (tile_region ts fb i)) = i)"
proof -
  have "frame_ok ts fb" "fb_size fb = sz" using frame_ok_FrameBuffer [OF assms] by auto
  then show ?thesis
    using tile_regions_cover tile_region_disjoint tile_region_nonempty tile_region_index by auto
qed

definition small_frame :: framebuffer where
  "small_frame = \<lparr>fb_size = (100, 65), numTiles = (2, 2), maxValidPixelID = (99, 64),
     colorBufferFormat = OSP_FB_SRGBA, hasDepthBuffer = False, hasAccumBuffer = True,
     hasVarianceBuffer = True, hasNormalBuffer = False, hasAlbedoBuffer = False, frameID = - 1\<rparr>"

lemma small_frame_made: "FrameBuffer True 64 (100, 65) OSP_FB_SRGBA 13 = Inr small_frame"
  by code_simp

theorem tiles_partition_frame_witness:
  "upper (tile_region 64 small_frame 3) = (100, 65) \<and> getTileIDof 64 small_frame (lower (tile_region 64 small_frame 3)) = 3"
  using tiles_partition_frame [OF small_frame_made]
  by (simp add: tile_region_def tile_of_task_def small_frame_def getTotalTiles_def getNumTiles_def
      getNumPixels_def Tile_def Let_def getTileIDof_def)

end
