(* ===== verification/TileErrors.thy ===== *)
theory TileErrors
  imports Tiles "HOL-Library.Multiset"
begin

text \<open>
  \<open>TileError\<close> (\<open>ospray/fb/TileError.cpp\<close>): the error of every tile and the regions that
  are refined as groups.  The number of tiles and twice that number, an upper bound of the number of regions, are
  \<open>int\<close>s in the code and unbounded here: the lemmas are about frames of less than \<open>2 ^ 30\<close> tiles.  The arithmetic of \<open>float\<close> is the record \<open>F\<close>: nothing below
  depends on its laws, so the lemmas hold for IEEE arithmetic with any rounding, and
  with NaNs.
\<close>

section \<open>Floats\<close>

record 'e arith =
  fzero :: 'e
  finf :: 'e
  ffour :: 'e
  fless :: "'e \<Rightarrow> 'e \<Rightarrow> bool"
  fleq :: "'e \<Rightarrow> 'e \<Rightarrow> bool"
  fadd :: "'e \<Rightarrow> 'e \<Rightarrow> 'e"
  fmul :: "'e \<Rightarrow> 'e \<Rightarrow> 'e"
  fdiv :: "'e \<Rightarrow> 'e \<Rightarrow> 'e"
  fofint :: "int \<Rightarrow> 'e"
  fnext :: "'e \<Rightarrow> 'e"

text \<open>\<open>std::max\<close>; \<open>fnext\<close> is \<open>nextafter(x, inf)\<close>.\<close>

definition fmax :: "('e, 'z) arith_scheme \<Rightarrow> 'e \<Rightarrow> 'e \<Rightarrow> 'e" where
  "fmax F a b = (if fless F a b then b else a)"

section \<open>State\<close>

record 'e tile_error =
  te_numTiles :: ivec2
  tiles :: int
  tileErrorBuffer :: "'e list"
  errorRegion :: "box2i list"

definition TileError_clear :: "('e, 'z) arith_scheme \<Rightarrow> 'e tile_error \<Rightarrow> 'e tile_error" where
  "TileError_clear F te = te\<lparr>tileErrorBuffer := replicate (nat (tiles te)) (finf F),
     errorRegion := [\<lparr>lower = (0, 0), upper = te_numTiles te\<rparr>]\<rparr>"

definition TileError :: "('e, 'z) arith_scheme \<Rightarrow> ivec2 \<Rightarrow> 'e tile_error" where
  "TileError F nt = TileError_clear F
     \<lparr>te_numTiles = nt, tiles = fst nt * snd nt, tileErrorBuffer = [], errorRegion = []\<rparr>"

definition reserved_regions :: "'e tile_error \<Rightarrow> int" where
  "reserved_regions te = divRoundUp (tiles te * 2) 3"

definition te_index :: "'e tile_error \<Rightarrow> ivec2 \<Rightarrow> int" where
  "te_index te t = snd t * fst (te_numTiles te) + fst t"

definition TileError_get :: "('e, 'z) arith_scheme \<Rightarrow> 'e tile_error \<Rightarrow> ivec2 \<Rightarrow> 'e res" where
  "TileError_get F te t =
    (if tiles te \<le> 0 then Inr (finf F)
     else if 0 \<le> te_index te t \<and> te_index te t < tiles te
     then Inr (tileErrorBuffer te ! nat (te_index te t))
     else Inl Undefined_behaviour)"

definition TileError_update :: "ivec2 \<Rightarrow> 'e \<Rightarrow> 'e tile_error \<Rightarrow> 'e tile_error res" where
  "TileError_update t err te =
    (if tiles te > 0
     then if 0 \<le> te_index te t \<and> te_index te t < tiles te
       then Inr (te\<lparr>tileErrorBuffer := (tileErrorBuffer te)[nat (te_index te t) := err]\<rparr>)
       else Inl Undefined_behaviour
     else Inr te)"

section \<open>refine\<close>

text \<open>The error of the frame: the average of the active tiles, or the largest error.\<close>

definition frame_error :: "('e, 'z) arith_scheme \<Rightarrow> 'e \<Rightarrow> 'e list \<Rightarrow> 'e" where
  "frame_error F thr buf =
    (case foldl (\<lambda>(mx, s, n) e. (fmax F mx e,
        if fless F thr e then fadd F s e else s, if fless F thr e then n + 1 else n))
      (fzero F, fzero F, 0 :: int) buf of
     (mx, s, n) \<Rightarrow> if n \<noteq> 0 then fdiv F s (fofint F n) else mx)"

definition region_indices :: "ivec2 \<Rightarrow> box2i \<Rightarrow> nat list" where
  "region_indices nt r = concat (map (\<lambda>y. map (\<lambda>x. nat (y * fst nt + x))
     [fst (lower r)..fst (upper r) - 1]) [snd (lower r)..snd (upper r) - 1])"

definition region_errors :: "('e, 'z) arith_scheme \<Rightarrow> 'e list \<Rightarrow> nat list \<Rightarrow> 'e \<times> 'e" where
  "region_errors F buf idxs =
     foldl (\<lambda>(err, mx) i. (fadd F err (buf ! i), fmax F mx (buf ! i))) (fzero F, fzero F) idxs"

definition raise_errors :: "('e, 'z) arith_scheme \<Rightarrow> 'e \<Rightarrow> nat list \<Rightarrow> 'e list \<Rightarrow> 'e list" where
  "raise_errors F minErr idxs buf = foldl (\<lambda>b i. b[i := fmax F (b ! i) minErr]) buf idxs"

datatype region_step = Keep_region | Remove_region | Split_region

definition area :: "box2i \<Rightarrow> int" where
  "area r = fst (box_size r) * snd (box_size r)"

definition refine_region :: "('e, 'z) arith_scheme \<Rightarrow> 'e \<Rightarrow> ivec2 \<Rightarrow> box2i \<Rightarrow> 'e list \<Rightarrow> 'e list \<times> region_step" where
  "refine_region F thr nt r buf =
    (let idxs = region_indices nt r; (sum, maxErr) = region_errors F buf idxs;
       buf' = (if fless F thr maxErr then raise_errors F (fnext F thr) idxs buf else buf);
       err = fdiv F sum (fofint F (area r))
     in (buf', if fleq F err (fmul F (ffour F) thr)
       then if area r \<le> 2 \<or> fleq F maxErr thr then Remove_region else Split_region
       else Keep_region))"

text \<open>Where a region is split: the copy of it at the end of the vector keeps the upper part.\<close>

definition split_low :: "box2i \<Rightarrow> box2i" where
  "split_low r = (let size = box_size r in
     if fst size > snd size then r\<lparr>upper := (fst (lower r) + fst size div 2, snd (upper r))\<rparr>
     else r\<lparr>upper := (fst (upper r), snd (lower r) + snd size div 2)\<rparr>)"

definition split_high :: "box2i \<Rightarrow> box2i" where
  "split_high r = (let size = box_size r in
     if fst size > snd size then r\<lparr>lower := (fst (lower r) + fst size div 2, snd (lower r))\<rparr>
     else r\<lparr>lower := (fst (lower r), snd (lower r) + snd size div 2)\<rparr>)"

text \<open>The loop processes the regions below \<open>n\<close>; the ones split off behind them are
  left for the next frame.\<close>

definition remove_region :: "nat \<Rightarrow> nat \<Rightarrow> box2i list \<Rightarrow> box2i list" where
  "remove_region i k rs = (let rs1 = rs[i := rs ! k]; rs2 = rs1[k := last rs1] in butlast rs2)"

definition split_region :: "nat \<Rightarrow> box2i list \<Rightarrow> box2i list" where
  "split_region i rs = rs[i := split_low (rs ! i)] @ [split_high (rs ! i)]"

function refine_loop :: "('e, 'z) arith_scheme \<Rightarrow> 'e \<Rightarrow> ivec2 \<Rightarrow> nat \<Rightarrow> nat \<Rightarrow> 'e list \<Rightarrow> box2i list \<Rightarrow> 'e list \<times> box2i list" where
  "refine_loop F thr nt i n buf rs =
    (if i < n
     then (case refine_region F thr nt (rs ! i) buf of
         (buf', Keep_region) \<Rightarrow> refine_loop F thr nt (i + 1) n buf' rs
       | (buf', Remove_region) \<Rightarrow> refine_loop F thr nt i (n - 1) buf' (remove_region i (n - 1) rs)
       | (buf', Split_region) \<Rightarrow> refine_loop F thr nt (i + 1) n buf' (split_region i rs))
     else (buf, rs))"
  by pat_completeness auto
termination by (relation "measure (\<lambda>(F, thr, nt, i, n, buf, rs). n - i)") auto

declare refine_loop.simps [simp del]

definition refine :: "('e, 'z) arith_scheme \<Rightarrow> 'e \<Rightarrow> 'e tile_error \<Rightarrow> 'e \<times> 'e tile_error" where
  "refine F thr te =
    (if tiles te \<le> 0 then (finf F, te)
     else let error = frame_error F thr (tileErrorBuffer te);
        n = (if fless F (fzero F) thr then length (errorRegion te) else 0)
       in case refine_loop F thr (te_numTiles te) 0 n (tileErrorBuffer te) (errorRegion te) of
         (buf, rs) \<Rightarrow> (error, te\<lparr>tileErrorBuffer := buf, errorRegion := rs\<rparr>))"

section \<open>Splitting and removing regions\<close>

definition box_ok :: "ivec2 \<Rightarrow> box2i \<Rightarrow> bool" where
  "box_ok nt r \<longleftrightarrow> 0 \<le> fst (lower r) \<and> fst (lower r) < fst (upper r) \<and> fst (upper r) \<le> fst nt \<and>
     0 \<le> snd (lower r) \<and> snd (lower r) < snd (upper r) \<and> snd (upper r) \<le> snd nt"

lemma mset_butlast_last: "xs \<noteq> [] \<Longrightarrow> mset (butlast xs) = mset xs - {#last xs#}"
  by (cases xs rule: rev_cases) auto

lemma mset_remove_region:
  assumes "i \<le> k" and "k < length rs"
  shows "mset (remove_region i k rs) = mset rs - {#rs ! i#}"
proof -
  let ?rs1 = "rs[i := rs ! k]" and ?rs2 = "rs[i := rs ! k, k := last (rs[i := rs ! k])]"
  have ne: "?rs2 \<noteq> []" "?rs1 \<noteq> []" using assms by auto
  have "last ?rs2 = last ?rs1"
    using assms ne by (cases "k = length rs - 1") (auto simp: last_conv_nth nth_list_update)
  moreover have "?rs1 ! k = rs ! k" using assms by (auto simp: nth_list_update)
  ultimately have "mset (butlast ?rs2) = mset ?rs1 - {#rs ! k#}"
    using assms ne by (simp add: mset_butlast_last mset_update)
  also have "\<dots> = mset rs - {#rs ! i#}" using assms by (simp add: mset_update)
  finally show ?thesis by (simp add: remove_region_def Let_def)
qed

lemma mset_split_region:
  assumes "i < length rs"
  shows "mset (split_region i rs) = mset rs - {#rs ! i#} + {#split_low (rs ! i), split_high (rs ! i)#}"
  using assms by (simp add: split_region_def mset_update)

lemma half_bounds: "2 \<le> (a :: int) \<Longrightarrow> 1 \<le> a div 2 \<and> a div 2 < a \<and> a - a div 2 \<ge> a div 2 \<and> a \<le> 2 * (a div 2) + 1"
  by presburger

lemma half_area:
  assumes "1 \<le> (b :: int)" and "2 \<le> a"
  shows "a div 2 * b + (a - a div 2) * b = a * b" "1 \<le> a div 2 * b" "1 \<le> (a - a div 2) * b"
    "a div 2 * b = 1 \<longrightarrow> a * b \<le> 3" "(a - a div 2) * b = 1 \<longrightarrow> a * b \<le> 3"
proof -
  have h: "1 \<le> a div 2" "1 \<le> a - a div 2" "a - a div 2 \<ge> a div 2" "a \<le> 2 * (a div 2) + 1"
    using half_bounds [OF assms(2)] by auto
  show "a div 2 * b + (a - a div 2) * b = a * b" by (simp add: algebra_simps)
  show "1 \<le> a div 2 * b" "1 \<le> (a - a div 2) * b"
    using mult_mono [of 1 "a div 2" 1 b] mult_mono [of 1 "a - a div 2" 1 b] h assms by simp_all
  show "a div 2 * b = 1 \<longrightarrow> a * b \<le> 3"
    using h assms by (auto simp: pos_zmult_eq_1_iff)
  show "(a - a div 2) * b = 1 \<longrightarrow> a * b \<le> 3"
    using h assms by (auto simp: pos_zmult_eq_1_iff)
qed

lemma split_longer_side:
  assumes "box_ok nt r" and "2 < area r"
  shows "if fst (box_size r) > snd (box_size r) then 2 \<le> fst (box_size r) \<and> 1 \<le> snd (box_size r)
     else 2 \<le> snd (box_size r) \<and> 1 \<le> fst (box_size r)"
proof -
  have "1 \<le> fst (box_size r)" "1 \<le> snd (box_size r)"
    using assms(1) by (auto simp: box_ok_def box_size_def)
  moreover have "snd (box_size r) \<noteq> 1 \<or> fst (box_size r) \<noteq> 1"
    using assms(2) by (auto simp: area_def)
  ultimately show ?thesis by auto
qed

lemma split_area:
  assumes "box_ok nt r" and "2 < area r"
  shows "area (split_low r) + area (split_high r) = area r"
    "1 \<le> area (split_low r)" "1 \<le> area (split_high r)"
    "area (split_low r) = 1 \<longrightarrow> area r \<le> 3" "area (split_high r) = 1 \<longrightarrow> area r \<le> 3"
proof -
  obtain a b where ab: "1 \<le> b" "2 \<le> a" and area: "area r = a * b"
    and low: "area (split_low r) = a div 2 * b" and high: "area (split_high r) = (a - a div 2) * b"
  proof (cases "fst (box_size r) > snd (box_size r)")
    case True
    show ?thesis
    proof (rule that)
      show "1 \<le> snd (box_size r)" "2 \<le> fst (box_size r)" using split_longer_side [OF assms] True by simp_all
    qed (use True in \<open>simp_all add: split_low_def split_high_def Let_def area_def box_size_def\<close>)
  next
    case False
    show ?thesis
    proof (rule that)
      show "1 \<le> fst (box_size r)" "2 \<le> snd (box_size r)" using split_longer_side [OF assms] False by simp_all
    qed (use False in \<open>simp_all add: split_low_def split_high_def Let_def area_def box_size_def mult.commute\<close>)
  qed
  show "area (split_low r) + area (split_high r) = area r"
    "1 \<le> area (split_low r)" "1 \<le> area (split_high r)"
    "area (split_low r) = 1 \<longrightarrow> area r \<le> 3" "area (split_high r) = 1 \<longrightarrow> area r \<le> 3"
    unfolding low high area by (rule half_area [OF ab])+
qed

lemma split_ok:
  assumes "box_ok nt r" and "2 < area r"
  shows "box_ok nt (split_low r)" "box_ok nt (split_high r)"
  using split_longer_side [OF assms] half_bounds [of "fst (box_size r)"] half_bounds [of "snd (box_size r)"] assms(1)
  by (auto simp: split_low_def split_high_def Let_def box_ok_def box_size_def split: if_splits)

lemma split_points:
  assumes "box_ok nt r" and "2 < area r"
  shows "of_bool (p \<in> points (split_low r)) + of_bool (p \<in> points (split_high r)) = (of_bool (p \<in> points r) :: nat)"
  using split_longer_side [OF assms] half_bounds [of "fst (box_size r)"] half_bounds [of "snd (box_size r)"] assms(1)
  by (cases p) (auto simp: split_low_def split_high_def Let_def box_ok_def box_size_def points_def split: if_splits)

text \<open>The number of regions a region can end up as.\<close>

definition region_weight :: "box2i \<Rightarrow> nat" where
  "region_weight r = (if area r \<le> 1 then 1 else nat (2 * area r div 3))"

lemma weight_arith:
  assumes "1 \<le> x" "1 \<le> y" "x + y = (z :: int)" "2 < z" "x = 1 \<longrightarrow> z \<le> 3" "y = 1 \<longrightarrow> z \<le> 3"
  shows "(if x \<le> 1 then 1 else nat (2 * x div 3)) + (if y \<le> 1 then 1 else nat (2 * y div 3)) \<le> nat (2 * z div 3)"
proof -
  consider "x = 1" "y = 2" | "x = 2" "y = 1" | "2 \<le> x" "2 \<le> y" using assms by fastforce
  then show ?thesis
  proof cases
    case 3
    have "2 * x div 3 + 2 * y div 3 \<le> 2 * z div 3" unfolding assms(3) [symmetric] by presburger
    moreover have "0 \<le> 2 * x div 3" "0 \<le> 2 * y div 3" using 3 by (simp_all add: pos_imp_zdiv_nonneg_iff)
    ultimately show ?thesis using 3 by (simp add: nat_mono flip: nat_add_distrib)
  qed (use assms(3) in auto)
qed

lemma split_weight:
  assumes "box_ok nt r" and "2 < area r"
  shows "region_weight (split_low r) + region_weight (split_high r) \<le> region_weight r"
  using weight_arith [OF split_area(2,3,1) [OF assms] assms(2) split_area(4,5) [OF assms]] assms(2)
  by (simp add: region_weight_def)

lemma box_ok_area: "box_ok nt r \<Longrightarrow> 1 \<le> area r"
  using mult_mono [of 1 "fst (box_size r)" 1 "snd (box_size r)"]
  by (auto simp: box_ok_def area_def box_size_def)

lemma weight_pos: "1 \<le> region_weight r"
  by (cases "area r = 2") (auto simp: region_weight_def nat_le_iff)

section \<open>The loop\<close>

lemma refine_region_split:
  "refine_region F thr nt r buf = (buf', Split_region) \<Longrightarrow> 2 < area r"
  by (auto simp: refine_region_def Let_def split: prod.splits if_splits)

lemma length_raise_errors [simp]: "length (raise_errors F e idxs buf) = length buf"
  unfolding raise_errors_def by (induction idxs arbitrary: buf) auto

lemma length_refine_region:
  "refine_region F thr nt r buf = (buf', s) \<Longrightarrow> length buf' = length buf"
  by (auto simp: refine_region_def Let_def split: prod.splits if_splits)

lemma sum_remove_region:
  "i \<le> k \<Longrightarrow> k < length rs \<Longrightarrow> (\<Sum>r\<leftarrow>remove_region i k rs. f r) + (f (rs ! i) :: nat) = (\<Sum>r\<leftarrow>rs. f r)"
proof -
  assume "i \<le> k" "k < length rs"
  from mset_remove_region [OF this] have "mset rs = add_mset (rs ! i) (mset (remove_region i k rs))"
    using \<open>i \<le> k\<close> \<open>k < length rs\<close> by simp
  from arg_cong [OF this, of "\<lambda>m. sum_mset (image_mset f m)"]
  have "sum_mset (mset (map f rs)) = f (rs ! i) + sum_mset (mset (map f (remove_region i k rs)))" by simp
  then show ?thesis unfolding sum_mset_sum_list by simp
qed

lemma sum_split_region:
  "i < length rs \<Longrightarrow> (\<Sum>r\<leftarrow>split_region i rs. f r) + (f (rs ! i) :: nat) =
     (\<Sum>r\<leftarrow>rs. f r) + (f (split_low (rs ! i)) + f (split_high (rs ! i)))"
  using elem_le_sum_list [of i "map f rs"] by (simp add: split_region_def sum_list_update map_update)

lemma set_remove_region:
  "i \<le> k \<Longrightarrow> k < length rs \<Longrightarrow> set (remove_region i k rs) \<subseteq> set rs"
  by (metis diff_subset_eq_self mset_remove_region set_mset_mono set_mset_mset)

lemma length_remove_region [simp]: "length (remove_region i k rs) = length rs - 1"
  by (simp add: remove_region_def Let_def)

lemma set_split_region:
  "i < length rs \<Longrightarrow> set (split_region i rs) \<subseteq> set rs \<union> {split_low (rs ! i), split_high (rs ! i)}"
  using set_update_subset_insert [of rs i "split_low (rs ! i)"] by (auto simp: split_region_def)

lemma length_split_region [simp]: "length (split_region i rs) = length rs + 1"
  by (simp add: split_region_def)

definition loop_ok :: "(box2i \<Rightarrow> nat) \<Rightarrow> ivec2 \<Rightarrow> box2i list \<Rightarrow> 'e list \<Rightarrow> 'e list \<times> box2i list \<Rightarrow> bool" where
  "loop_ok f nt rs buf res \<longleftrightarrow> (\<Sum>r\<leftarrow>snd res. f r) \<le> (\<Sum>r\<leftarrow>rs. f r) \<and>
     (\<forall>r\<in>set (snd res). box_ok nt r) \<and> length (fst res) = length buf"

lemma refine_loop_ok:
  assumes split: "\<And>r. box_ok nt r \<Longrightarrow> 2 < area r \<Longrightarrow> f (split_low r) + f (split_high r) \<le> f r"
  shows "n \<le> length rs \<Longrightarrow> \<forall>r\<in>set rs. box_ok nt r \<Longrightarrow> loop_ok f nt rs buf (refine_loop F thr nt i n buf rs)"
proof (induction "n - i" arbitrary: i n buf rs rule: less_induct)
  case less
  show ?case
  proof (cases "i < n")
    case False
    then show ?thesis using less.prems by (simp add: refine_loop.simps [of F thr nt i n buf rs] loop_ok_def)
  next
    case True
    obtain buf' s where s: "refine_region F thr nt (rs ! i) buf = (buf', s)" by fastforce
    have len: "length buf' = length buf" by (rule length_refine_region [OF s])
    have i: "i < length rs" "i \<le> n - 1" "n - 1 < length rs" using True less.prems by auto
    have ri: "box_ok nt (rs ! i)" using i less.prems by simp
    show ?thesis
    proof (cases s)
      case Keep_region
      from less.hyps [of n "i + 1" rs buf'] True less.prems len
      show ?thesis by (simp add: refine_loop.simps [of F thr nt i n buf rs] s Keep_region loop_ok_def)
    next
      case Remove_region
      have "\<forall>r\<in>set (remove_region i (n - 1) rs). box_ok nt r"
        using set_remove_region [OF i(2,3)] less.prems by blast
      from less.hyps [of "n - 1" i "remove_region i (n - 1) rs" buf'] this True less.prems
      have "loop_ok f nt (remove_region i (n - 1) rs) buf' (refine_loop F thr nt i (n - 1) buf' (remove_region i (n - 1) rs))"
        by simp
      with sum_remove_region [OF i(2,3), of f] len True show ?thesis
        by (simp add: refine_loop.simps [of F thr nt i n buf rs] s Remove_region loop_ok_def)
    next
      case Split_region
      have a: "2 < area (rs ! i)" by (rule refine_region_split [OF s [unfolded Split_region]])
      have "\<forall>r\<in>set (split_region i rs). box_ok nt r"
        using set_split_region [OF i(1)] less.prems split_ok [OF ri a] by auto
      from less.hyps [of n "i + 1" "split_region i rs" buf'] this True less.prems
      have "loop_ok f nt (split_region i rs) buf' (refine_loop F thr nt (i + 1) n buf' (split_region i rs))"
        by simp
      with sum_split_region [OF i(1), of f] split [OF ri a] len True show ?thesis
        by (simp add: refine_loop.simps [of F thr nt i n buf rs] s Split_region loop_ok_def)
    qed
  qed
qed

section \<open>Every reachable state\<close>

inductive te_reachable :: "('e, 'z) arith_scheme \<Rightarrow> ivec2 \<Rightarrow> 'e tile_error \<Rightarrow> bool" for F nt where
  make: "te_reachable F nt (TileError F nt)"
| clear: "te_reachable F nt te \<Longrightarrow> te_reachable F nt (TileError_clear F te)"
| update: "te_reachable F nt te \<Longrightarrow> TileError_update t err te = Inr te' \<Longrightarrow> te_reachable F nt te'"
| refine: "te_reachable F nt te \<Longrightarrow> refine F thr te = (err, te') \<Longrightarrow> te_reachable F nt te'"

definition covers :: "ivec2 \<Rightarrow> box2i list \<Rightarrow> nat" where
  "covers p rs = (\<Sum>r\<leftarrow>rs. of_bool (p \<in> points r))"

definition te_inv :: "ivec2 \<Rightarrow> 'e tile_error \<Rightarrow> bool" where
  "te_inv nt te \<longleftrightarrow> te_numTiles te = nt \<and> tiles te = fst nt * snd nt \<and>
     length (tileErrorBuffer te) = nat (tiles te) \<and> (\<forall>r\<in>set (errorRegion te). box_ok nt r) \<and>
     (\<Sum>r\<leftarrow>errorRegion te. region_weight r) \<le> region_weight \<lparr>lower = (0, 0), upper = nt\<rparr> \<and>
     (\<forall>p. covers p (errorRegion te) \<le> 1)"

lemma te_inv_covers: "te_inv nt te \<Longrightarrow> covers p (errorRegion te) \<le> 1"
  unfolding te_inv_def by blast

lemma te_inv_clear:
  "te_inv nt te \<Longrightarrow> 0 < fst nt \<Longrightarrow> 0 < snd nt \<Longrightarrow> te_inv nt (TileError_clear F te)"
  by (auto simp: te_inv_def TileError_clear_def box_ok_def covers_def)

lemma te_inv_make: "0 < fst nt \<Longrightarrow> 0 < snd nt \<Longrightarrow> te_inv nt (TileError F nt)"
  by (auto simp: te_inv_def TileError_def TileError_clear_def box_ok_def covers_def)

lemma te_inv_update: "te_inv nt te \<Longrightarrow> TileError_update t err te = Inr te' \<Longrightarrow> te_inv nt te'"
  by (auto simp: te_inv_def TileError_update_def split: if_splits)

lemma te_inv_refine:
  assumes inv: "te_inv nt te" and ref: "refine F thr te = (err, te')"
  shows "te_inv nt te'"
proof (cases "tiles te \<le> 0")
  case True
  then show ?thesis using assms by (simp add: refine_def)
next
  case False
  define n where "n = (if fless F (fzero F) thr then length (errorRegion te) else 0)"
  let ?res = "refine_loop F thr nt 0 n (tileErrorBuffer te) (errorRegion te)"
  have te': "te' = te\<lparr>tileErrorBuffer := fst ?res, errorRegion := snd ?res\<rparr>"
    using ref False inv by (auto simp: refine_def Let_def te_inv_def n_def split: prod.splits)
  have n: "n \<le> length (errorRegion te)" "\<forall>r\<in>set (errorRegion te). box_ok nt r"
    using inv by (auto simp: n_def te_inv_def)
  have weight: "loop_ok region_weight nt (errorRegion te) (tileErrorBuffer te) ?res"
    by (rule refine_loop_ok [OF _ n]) (rule split_weight)
  have "loop_ok (\<lambda>r. of_bool (p \<in> points r)) nt (errorRegion te) (tileErrorBuffer te) ?res" for p
    by (rule refine_loop_ok [OF _ n]) (simp add: split_points)
  then have cover: "covers p (snd ?res) \<le> covers p (errorRegion te)" for p
    by (simp add: loop_ok_def covers_def)
  have "covers p (snd ?res) \<le> 1" for p
    using cover [of p] te_inv_covers [OF inv, of p] by simp
  with inv weight show ?thesis unfolding te' te_inv_def loop_ok_def by simp
qed

lemma te_reachable_inv:
  "te_reachable F nt te \<Longrightarrow> 0 < fst nt \<Longrightarrow> 0 < snd nt \<Longrightarrow> te_inv nt te"
  by (induction rule: te_reachable.induct)
     (simp_all add: te_inv_make te_inv_clear, blast intro: te_inv_update, blast intro: te_inv_refine)

lemma two_le_sum_list:
  assumes "i < length xs" "j < length xs" "i \<noteq> j"
  shows "xs ! i + xs ! j \<le> (sum_list xs :: nat)"
proof -
  have "(\<Sum>k\<in>{i, j}. xs ! k) \<le> (\<Sum>k = 0..<length xs. xs ! k)"
    by (rule sum_mono2) (use assms in auto)
  then show ?thesis using assms(3) by (simp add: sum_list_sum_nth)
qed

lemma length_le_weight: "length rs \<le> (\<Sum>r\<leftarrow>rs. region_weight r)"
proof (induction rs)
  case (Cons r rs)
  then show ?case using weight_pos [of r] by simp
qed simp

lemma weight_reserved:
  assumes "0 < fst nt" "0 < snd nt"
  shows "int (region_weight \<lparr>lower = (0, 0), upper = nt\<rparr>) \<le> divRoundUp (fst nt * snd nt * 2) 3"
proof -
  have "0 < fst nt * snd nt" using assms by simp
  then show ?thesis
    by (simp add: region_weight_def area_def box_size_def divRoundUp_div) presburger
qed

text \<open>C15 The regions of the error buffer.  Whatever tile errors are reported and
  whatever thresholds the frames are refined with, the regions are disjoint
  non-empty boxes of tiles inside the frame, and there are never more of them than
  the constructor reserved room for, although the loop splits and removes elements
  of the vector it runs over.\<close>

theorem error_regions_bounded:
  assumes "te_reachable F nt te" and "0 < fst nt" and "0 < snd nt"
  shows "int (length (errorRegion te)) \<le> reserved_regions te \<and>
    length (tileErrorBuffer te) = nat (tiles te) \<and>
    (\<forall>r\<in>set (errorRegion te). box_ok nt r) \<and>
    (\<forall>i<length (errorRegion te). \<forall>j<length (errorRegion te). i \<noteq> j \<longrightarrow>
       points (errorRegion te ! i) \<inter> points (errorRegion te ! j) = {})"
proof -
  have inv: "te_inv nt te" using te_reachable_inv [OF assms] .
  have "int (length (errorRegion te)) \<le> reserved_regions te"
    using length_le_weight [of "errorRegion te"] weight_reserved [OF assms(2,3)] inv
    by (simp add: te_inv_def reserved_regions_def)
  moreover have "points (errorRegion te ! i) \<inter> points (errorRegion te ! j) = {}"
    if "i < length (errorRegion te)" "j < length (errorRegion te)" "i \<noteq> j" for i j
  proof (rule ccontr)
    assume "points (errorRegion te ! i) \<inter> points (errorRegion te ! j) \<noteq> {}"
    then obtain p where "p \<in> points (errorRegion te ! i)" "p \<in> points (errorRegion te ! j)" by blast
    with two_le_sum_list [of i "map (\<lambda>r. of_bool (p \<in> points r)) (errorRegion te)" j] that
    have "2 \<le> covers p (errorRegion te)" by (simp add: covers_def)
    moreover have "covers p (errorRegion te) \<le> 1" by (rule te_inv_covers [OF inv])
    ultimately show False by linarith
  qed
  ultimately show ?thesis using inv by (simp add: te_inv_def)
qed

text \<open>Integers with a largest element stand for the floats of an example.\<close>

definition int_arith :: "int arith" where
  "int_arith = \<lparr>fzero = 0, finf = 1000000, ffour = 4, fless = (<), fleq = (\<le>), fadd = (+), fmul = (*),
     fdiv = (div), fofint = (\<lambda>i. i), fnext = (\<lambda>i. i + 1)\<rparr>"

definition refined :: "int tile_error" where
  "refined = snd (refine int_arith 10 (TileError int_arith (3, 1)
     \<lparr>tileErrorBuffer := [20, 5, 30]\<rparr>))"

theorem error_regions_bounded_witness:
  "refined = \<lparr>te_numTiles = (3, 1), tiles = 3, tileErrorBuffer = [20, 11, 30],
     errorRegion = [\<lparr>lower = (0, 0), upper = (1, 1)\<rparr>, \<lparr>lower = (1, 0), upper = (3, 1)\<rparr>]\<rparr> \<and>
   int (length (errorRegion refined)) \<le> reserved_regions refined"
proof -
  let ?r = "te_reachable int_arith (3, 1)"
  let ?te = "TileError int_arith (3, 1)"
  have "?r (?te\<lparr>tileErrorBuffer := (tileErrorBuffer ?te)[0 := 20]\<rparr>)"
    by (rule te_reachable.update [OF te_reachable.make, where t = "(0, 0)" and err = 20])
       (simp add: TileError_update_def te_index_def TileError_def TileError_clear_def)
  from te_reachable.update [OF this, where t = "(1, 0)" and err = 5]
  have "?r (?te\<lparr>tileErrorBuffer := (tileErrorBuffer ?te)[0 := 20, 1 := 5]\<rparr>)"
    by (simp add: TileError_update_def te_index_def TileError_def TileError_clear_def)
  from te_reachable.update [OF this, where t = "(2, 0)" and err = 30]
  have "?r (?te\<lparr>tileErrorBuffer := [20, 5, 30]\<rparr>)"
    by (simp add: TileError_update_def te_index_def TileError_def TileError_clear_def eval_nat_numeral)
  from te_reachable.refine [OF this, where thr = 10] have "?r refined"
    unfolding refined_def by (metis prod.collapse)
  from error_regions_bounded [OF this] have "int (length (errorRegion refined)) \<le> reserved_regions refined"
    by simp
  moreover have "refined = \<lparr>te_numTiles = (3, 1), tiles = 3, tileErrorBuffer = [20, 11, 30],
     errorRegion = [\<lparr>lower = (0, 0), upper = (1, 1)\<rparr>, \<lparr>lower = (1, 0), upper = (3, 1)\<rparr>]\<rparr>"
    by (simp add: refined_def refine_def TileError_def TileError_clear_def int_arith_def frame_error_def
      refine_loop.simps refine_region_def region_indices_def region_errors_def raise_errors_def area_def
      box_size_def Let_def fmax_def split_region_def split_low_def split_high_def upto.simps)
  ultimately show ?thesis by simp
qed

end
