(* ===== verification/LocalFrame.thy ===== *)
theory LocalFrame
  imports TileErrors
begin

text \<open>
  \<open>LocalFrameBuffer\<close> (\<open>ospray/fb/LocalFB.cpp\<close>) and the load balancer that renders a
  frame into it (\<open>ospray/render/LoadBalancer.cpp\<close>).  The ISPC kernel that accumulates
  a tile is the argument \<open>K\<close> (it returns the error of the tile and the tile with the
  accumulated pixels); that it counts the accumulations of the tile is part of the
  model.  A pixel operation is the pair of functions \<open>ops\<close>.  Buffers are known by who
  allocated them.  The tasks of a frame run concurrently, as two steps each: up to the
  rendering of the tile, and from the write of the tile to the report of the progress.
\<close>

section \<open>LocalFrameBuffer\<close>

datatype channel = COLOR | DEPTH | ACCUM | VARIANCE | NORMAL | ALBEDO

datatype buffer = Null_buffer | User_buffer nat | Own_buffer channel

record 'e local_fb =
  base :: framebuffer
  colorBuffer :: buffer
  depthBuffer :: buffer
  accumBuffer :: buffer
  varianceBuffer :: buffer
  normalBuffer :: buffer
  albedoBuffer :: buffer
  tileAccumID :: "int list"
  tileErrorRegion :: "'e tile_error"
  fb_refs :: int

definition alloc_if :: "bool \<Rightarrow> channel \<Rightarrow> buffer" where
  "alloc_if c ch = (if c then Own_buffer ch else Null_buffer)"

text \<open>The products \<open>size.x*size.y\<close> of the buffers other than the colors, \<open>getTotalTiles()\<close> and \<open>tiles * 2\<close> of
  the tile errors are of type \<open>int\<close>: an overflow is undefined.\<close>

definition pixel_count :: "framebuffer \<Rightarrow> int" where
  "pixel_count fb = fst (fb_size fb) * snd (fb_size fb)"

definition int_products_fit :: "framebuffer \<Rightarrow> bool" where
  "int_products_fit fb \<longleftrightarrow> fits32 (getTotalTiles fb) \<and>
     (hasVarianceBuffer fb \<longrightarrow> fits32 (getTotalTiles fb * 2)) \<and>
     (hasDepthBuffer fb \<or> hasAccumBuffer fb \<or> hasVarianceBuffer fb \<or> hasNormalBuffer fb \<or> hasAlbedoBuffer fb \<longrightarrow>
        fits32 (pixel_count fb))"

definition LocalFrameBuffer ::
  "('e, 'z) arith_scheme \<Rightarrow> bool \<Rightarrow> int \<Rightarrow> ivec2 \<Rightarrow> fb_format \<Rightarrow> u32 \<Rightarrow> buffer \<Rightarrow> 'e local_fb res" where
  "LocalFrameBuffer F dbg ts sz fmt channels colorBufferToUse =
     bind_res (FrameBuffer dbg ts sz fmt channels) (\<lambda>fb.
     if \<not> int_products_fit fb then Inl Undefined_behaviour
     else Inr \<lparr>base = fb,
        colorBuffer = (if colorBufferToUse \<noteq> Null_buffer then colorBufferToUse
          else alloc_if (fmt \<noteq> OSP_FB_NONE) COLOR),
        depthBuffer = alloc_if (hasDepthBuffer fb) DEPTH,
        accumBuffer = alloc_if (hasAccumBuffer fb) ACCUM,
        varianceBuffer = alloc_if (hasVarianceBuffer fb) VARIANCE,
        normalBuffer = alloc_if (hasNormalBuffer fb) NORMAL,
        albedoBuffer = alloc_if (hasAlbedoBuffer fb) ALBEDO,
        tileAccumID = replicate (nat (getTotalTiles fb)) 0,
        tileErrorRegion = TileError F (if hasVarianceBuffer fb then numTiles fb else (0, 0)),
        fb_refs = 1\<rparr>)"

definition LFB_clear :: "('e, 'z) arith_scheme \<Rightarrow> u32 \<Rightarrow> 'e local_fb \<Rightarrow> 'e local_fb" where
  "LFB_clear F flags fb =
    (let fb1 = fb\<lparr>base := (base fb)\<lparr>frameID := - 1\<rparr>\<rparr> in
     if has_channel flags OSP_FB_ACCUM
     then fb1\<lparr>tileAccumID := replicate (length (tileAccumID fb)) 0,
       tileErrorRegion := (if hasVarianceBuffer (base fb) then TileError_clear F (tileErrorRegion fb)
         else tileErrorRegion fb)\<rparr>
     else fb1)"

definition LFB_tile_index :: "'e local_fb \<Rightarrow> ivec2 \<Rightarrow> nat" where
  "LFB_tile_index fb t = tile_index (base fb) t"

definition LFB_accumID :: "'e local_fb \<Rightarrow> ivec2 \<Rightarrow> int res" where
  "LFB_accumID fb t =
    (if LFB_tile_index fb t < length (tileAccumID fb) then Inr (tileAccumID fb ! LFB_tile_index fb t)
     else Inl Undefined_behaviour)"

definition LFB_tileError :: "('e, 'z) arith_scheme \<Rightarrow> 'e local_fb \<Rightarrow> ivec2 \<Rightarrow> 'e res" where
  "LFB_tileError F fb t = TileError_get F (tileErrorRegion fb) t"

definition LFB_beginFrame :: "'e local_fb \<Rightarrow> 'e local_fb" where
  "LFB_beginFrame fb = fb\<lparr>base := FrameBuffer_beginFrame (base fb)\<rparr>"

definition LFB_endFrame :: "('e, 'z) arith_scheme \<Rightarrow> 'e \<Rightarrow> 'e local_fb \<Rightarrow> 'e \<times> 'e local_fb" where
  "LFB_endFrame F thr fb = (case refine F thr (tileErrorRegion fb) of
     (err, te) \<Rightarrow> (err, fb\<lparr>tileErrorRegion := te\<rparr>))"

text \<open>The tile of a pixel coordinate, \<open>tile.region.lower / TILE_SIZE\<close>.\<close>

definition tile_of_pixel :: "int \<Rightarrow> ivec2 \<Rightarrow> ivec2" where
  "tile_of_pixel ts c = (fst c div ts, snd c div ts)"

text \<open>\<open>written\<close> is what is written to the color buffer: the tile after the operations.\<close>

definition LFB_setTile ::
  "int \<Rightarrow> ('p tile \<Rightarrow> 'e \<times> 'p) \<Rightarrow> (('p \<Rightarrow> 'p) \<times> ('p \<Rightarrow> 'p)) option \<Rightarrow> 'p tile \<Rightarrow> 'e local_fb \<Rightarrow>
   ('p tile option \<times> 'e local_fb) res" where
  "LFB_setTile ts K ops t fb =
    (let t1 = (case ops of None \<Rightarrow> t | Some (pre, post) \<Rightarrow> t\<lparr>pixels := pre (pixels t)\<rparr>);
         id = tile_of_pixel ts (lower (region t)); i = LFB_tile_index fb id in
     bind_res (if accumBuffer fb \<noteq> Null_buffer
       then (if i < length (tileAccumID fb) then
          (case K t1 of (err, px) \<Rightarrow>
           let fb1 = fb\<lparr>tileAccumID := (tileAccumID fb)[i := tileAccumID fb ! i + 1]\<rparr>;
               t2 = t1\<lparr>pixels := px\<rparr> in
           if tile_accumID t mod 2 = 1
           then bind_res (TileError_update id err (tileErrorRegion fb1)) (\<lambda>te.
             Inr (t2, fb1\<lparr>tileErrorRegion := te\<rparr>))
           else Inr (t2, fb1))
          else Inl Undefined_behaviour)
       else Inr (t1, fb)) (\<lambda>(t2, fb1).
     let t3 = (case ops of None \<Rightarrow> t2 | Some (pre, post) \<Rightarrow> t2\<lparr>pixels := post (pixels t2)\<rparr>) in
     if colorBuffer fb1 = Null_buffer then Inr (None, fb1)
     else if colorBufferFormat (base fb1) = OSP_FB_NONE then Inl (Runtime_error ''not implemented...'')
     else Inr (Some t3, fb1)))"

section \<open>Mapping\<close>

definition channel_buffer :: "'e local_fb \<Rightarrow> u32 \<Rightarrow> buffer" where
  "channel_buffer fb c =
    (if c = OSP_FB_COLOR then colorBuffer fb
     else if c = OSP_FB_DEPTH then depthBuffer fb
     else if c = OSP_FB_NORMAL then normalBuffer fb
     else if c = OSP_FB_ALBEDO then albedoBuffer fb
     else Null_buffer)"

definition mapBuffer :: "u32 \<Rightarrow> 'e local_fb \<Rightarrow> buffer \<times> 'e local_fb" where
  "mapBuffer c fb = (let buf = channel_buffer fb c in
     (buf, if buf \<noteq> Null_buffer then fb\<lparr>fb_refs := fb_refs fb + 1\<rparr> else fb))"

definition unmap :: "buffer \<Rightarrow> 'e local_fb \<Rightarrow> 'e local_fb res" where
  "unmap mem fb =
    (if mem = Null_buffer then Inr fb
     else if mem \<noteq> colorBuffer fb \<and> mem \<noteq> depthBuffer fb \<and> mem \<noteq> normalBuffer fb \<and> mem \<noteq> albedoBuffer fb
     then Inl (Runtime_error ''ERROR: unmapping a pointer not created by OSPRay!'')
     else Inr (fb\<lparr>fb_refs := fb_refs fb - 1\<rparr>))"

lemma channel_buffer_cases:
  "channel_buffer fb c \<in> {colorBuffer fb, depthBuffer fb, normalBuffer fb, albedoBuffer fb, Null_buffer}"
  unfolding channel_buffer_def by (simp split: if_split)

lemma unmap_map:
  assumes "mapBuffer c fb = (buf, fb')"
  shows "unmap buf fb' = Inr fb"
proof -
  have buf: "buf = channel_buffer fb c"
    and fb': "fb' = (if buf \<noteq> Null_buffer then fb\<lparr>fb_refs := fb_refs fb + 1\<rparr> else fb)"
    using assms by (auto simp: mapBuffer_def Let_def)
  show ?thesis using channel_buffer_cases [of fb c]
    by (cases "buf = Null_buffer") (auto simp: fb' unmap_def simp flip: buf)
qed

lemma unmap_foreign:
  "mem \<noteq> Null_buffer \<Longrightarrow> \<forall>c. mem \<noteq> channel_buffer fb c \<Longrightarrow> \<exists>m. unmap mem fb = Inl (Runtime_error m)"
proof -
  assume "mem \<noteq> Null_buffer" and f: "\<forall>c. mem \<noteq> channel_buffer fb c"
  moreover have "mem \<noteq> colorBuffer fb" "mem \<noteq> depthBuffer fb" "mem \<noteq> normalBuffer fb" "mem \<noteq> albedoBuffer fb"
    using f [rule_format, of OSP_FB_COLOR] f [rule_format, of OSP_FB_DEPTH]
      f [rule_format, of OSP_FB_NORMAL] f [rule_format, of OSP_FB_ALBEDO]
    by (simp_all add: channel_buffer_def OSP_FB_COLOR_def OSP_FB_DEPTH_def OSP_FB_NORMAL_def OSP_FB_ALBEDO_def)
  ultimately show ?thesis by (simp add: unmap_def)
qed

section \<open>Buffers as the constructor makes them\<close>

definition lfb_ok :: "int \<Rightarrow> 'e local_fb \<Rightarrow> bool" where
  "lfb_ok ts fb \<longleftrightarrow> frame_ok ts (base fb) \<and>
     length (tileAccumID fb) = nat (getTotalTiles (base fb)) \<and>
     (colorBuffer fb \<noteq> Null_buffer \<longrightarrow> colorBufferFormat (base fb) \<noteq> OSP_FB_NONE) \<and>
     (hasVarianceBuffer (base fb) \<longrightarrow> te_numTiles (tileErrorRegion fb) = numTiles (base fb)) \<and>
     tiles (tileErrorRegion fb) = (if hasVarianceBuffer (base fb) then getTotalTiles (base fb) else 0) \<and>
     length (tileErrorBuffer (tileErrorRegion fb)) = nat (tiles (tileErrorRegion fb))"

lemma lfb_ok_made:
  assumes "LocalFrameBuffer F True ts sz fmt ch Null_buffer = Inr fb" and "0 < ts"
  shows "lfb_ok ts fb \<and> fb_size (base fb) = sz"
proof -
  from assms(1) obtain b where b: "FrameBuffer True ts sz fmt ch = Inr b"
    by (auto simp: LocalFrameBuffer_def bind_res_eq_Inr)
  have fmt: "colorBufferFormat b = fmt" using b by (auto simp: FrameBuffer_def split: if_splits)
  have fits: "int_products_fit b"
    by (rule ccontr) (use assms(1) in \<open>simp add: LocalFrameBuffer_def b\<close>)
  have fb: "base fb = b" "colorBuffer fb = alloc_if (fmt \<noteq> OSP_FB_NONE) COLOR"
    "tileAccumID fb = replicate (nat (getTotalTiles b)) 0"
    "tileErrorRegion fb = TileError F (if hasVarianceBuffer b then numTiles b else (0, 0))"
    using assms(1) fits by (auto simp: LocalFrameBuffer_def b)
  have "frame_ok ts b" "fb_size b = sz" using frame_ok_FrameBuffer [OF b assms(2)] by auto
  then show ?thesis
    by (simp add: lfb_ok_def fb fmt alloc_if_def TileError_def TileError_clear_def getTotalTiles_def)
qed

abbreviation tile_at :: "'e local_fb \<Rightarrow> nat \<Rightarrow> ivec2" where
  "tile_at fb i \<equiv> tile_of_task (base fb) i"

abbreviation total_tiles :: "'e local_fb \<Rightarrow> nat" where
  "total_tiles fb \<equiv> nat (getTotalTiles (base fb))"

lemma LFB_tile_index_at [simp]: "lfb_ok ts fb \<Longrightarrow> LFB_tile_index fb (tile_at fb i) = i"
  unfolding LFB_tile_index_def lfb_ok_def by (blast intro: tile_index_of_task)

lemma tile_of_pixel_at:
  "lfb_ok ts fb \<Longrightarrow> tile_of_pixel ts (lower (region (Tile ts (tile_at fb i) sz a px so))) = tile_at fb i"
  by (simp add: tile_of_pixel_def Tile_def lfb_ok_def frame_ok_def)

lemma te_index_at:
  assumes "lfb_ok ts fb" and "hasVarianceBuffer (base fb)"
  shows "te_index (tileErrorRegion fb) (tile_at fb i) = int i"
proof -
  have ok: "frame_ok ts (base fb)" using assms by (simp add: lfb_ok_def)
  from ok obtain nx ny where n: "numTiles (base fb) = (int nx, int ny)"
    by (rule numTiles_nat)
  then have "te_numTiles (tileErrorRegion fb) = (int nx, int ny)"
    using assms by (simp add: lfb_ok_def)
  then show ?thesis
    by (simp add: te_index_def tile_of_task_eq n) (simp flip: of_nat_mult of_nat_add)
qed

definition err_at :: "('e, 'z) arith_scheme \<Rightarrow> 'e local_fb \<Rightarrow> nat \<Rightarrow> 'e" where
  "err_at F fb i = (if hasVarianceBuffer (base fb) then tileErrorBuffer (tileErrorRegion fb) ! i else finf F)"

lemma LFB_reads:
  assumes "lfb_ok ts fb" and "i < total_tiles fb"
  shows "LFB_accumID fb (tile_at fb i) = Inr (tileAccumID fb ! i)"
    "LFB_tileError F fb (tile_at fb i) = Inr (err_at F fb i)"
proof -
  show "LFB_accumID fb (tile_at fb i) = Inr (tileAccumID fb ! i)"
    using assms by (simp add: LFB_accumID_def LFB_tile_index_at [OF assms(1)]) (simp add: lfb_ok_def)
  show "LFB_tileError F fb (tile_at fb i) = Inr (err_at F fb i)"
    using assms te_index_at [OF assms(1), of i]
    by (auto simp: LFB_tileError_def TileError_get_def lfb_ok_def err_at_def)
qed

text \<open>What a write of tile \<open>i\<close> changes.\<close>

definition only_tile :: "nat \<Rightarrow> 'e local_fb \<Rightarrow> 'e local_fb \<Rightarrow> bool" where
  "only_tile i fb fb' \<longleftrightarrow> base fb' = base fb \<and> accumBuffer fb' = accumBuffer fb \<and>
     tileAccumID fb' = (if accumBuffer fb = Null_buffer then tileAccumID fb
       else (tileAccumID fb)[i := tileAccumID fb ! i + 1]) \<and>
     (\<forall>j. j \<noteq> i \<longrightarrow> tileErrorBuffer (tileErrorRegion fb') ! j = tileErrorBuffer (tileErrorRegion fb) ! j)"

lemma setTile_ok:
  assumes "lfb_ok ts fb" and "i < total_tiles fb"
  shows "\<exists>w fb'. LFB_setTile ts K ops (Tile ts (tile_at fb i) (fb_size (base fb)) a px so) fb = Inr (w, fb') \<and>
     lfb_ok ts fb' \<and> only_tile i fb fb'"
proof -
  let ?t = "Tile ts (tile_at fb i) (fb_size (base fb)) a px so"
  let ?t1 = "case ops of None \<Rightarrow> ?t | Some (pre, post) \<Rightarrow> ?t\<lparr>pixels := pre (pixels ?t)\<rparr>"
  have len: "i < length (tileAccumID fb)" using assms by (simp add: lfb_ok_def)
  have id: "tile_of_pixel ts (lower (region ?t)) = tile_at fb i"
    by (rule tile_of_pixel_at [OF assms(1)])
  have upd: "\<exists>te. TileError_update (tile_at fb i) err (tileErrorRegion fb) = Inr te \<and>
      te_numTiles te = te_numTiles (tileErrorRegion fb) \<and> tiles te = tiles (tileErrorRegion fb) \<and>
      length (tileErrorBuffer te) = length (tileErrorBuffer (tileErrorRegion fb)) \<and>
      (\<forall>j. j \<noteq> i \<longrightarrow> tileErrorBuffer te ! j = tileErrorBuffer (tileErrorRegion fb) ! j)" for err
    using assms te_index_at [OF assms(1), of i]
    by (auto simp: TileError_update_def lfb_ok_def)
  obtain err px' where K: "K ?t1 = (err, px')" by fastforce
  from upd [of err] obtain te where te:
    "TileError_update (tile_at fb i) err (tileErrorRegion fb) = Inr te"
    "te_numTiles te = te_numTiles (tileErrorRegion fb)" "tiles te = tiles (tileErrorRegion fb)"
    "length (tileErrorBuffer te) = length (tileErrorBuffer (tileErrorRegion fb))"
    "\<forall>j. j \<noteq> i \<longrightarrow> tileErrorBuffer te ! j = tileErrorBuffer (tileErrorRegion fb) ! j" by blast
  show ?thesis
    using assms(1) te len
    by (simp add: LFB_setTile_def Let_def id K LFB_tile_index_at [OF assms(1)] lfb_ok_def only_tile_def)
qed

section \<open>LocalTiledLoadBalancer\<close>

datatype render_pc = Todo | Rendering int | Finished

record 'e frame_run =
  run_fb :: "'e local_fb"
  pixelsDone :: int
  cancel :: bool
  pcs :: "render_pc list"
  sets :: "(nat \<times> int) list"

text \<open>\<open>pixelsDone\<close> is an atomic \<open>int\<close>, whose additions wrap around.\<close>

definition wrap32 :: "int \<Rightarrow> int" where
  "wrap32 n = (n + 2 ^ 31) mod 2 ^ 32 - 2 ^ 31"

lemma wrap32_fits: "fits32 n \<Longrightarrow> wrap32 n = n"
  by (simp add: wrap32_def fits32_def)

text \<open>Before the tasks start, \<open>rcpPixels\<close> is computed from the \<open>int\<close> product of the sizes.\<close>

definition frame_start :: "'e local_fb \<Rightarrow> 'e frame_run res" where
  "frame_start fb =
    (if \<not> fits32 (pixel_count (base fb)) then Inl Undefined_behaviour
     else Inr \<lparr>run_fb = fb, pixelsDone = 0, cancel = False, pcs = replicate (total_tiles fb) Todo, sets = []\<rparr>)"

definition tile_pixels :: "int \<Rightarrow> framebuffer \<Rightarrow> ivec2 \<Rightarrow> int" where
  "tile_pixels ts fb t = min ts (fst (fb_size fb) - fst t * ts) * min ts (snd (fb_size fb) - snd t * ts)"

text \<open>\<open>R\<close> are the pixels that the renderer computes for a tile; \<open>ok\<close> is what the progress
  callback of the application answers.\<close>

inductive render_step ::
  "int \<Rightarrow> ('e, 'z) arith_scheme \<Rightarrow> 'e \<Rightarrow> ('p tile \<Rightarrow> 'e \<times> 'p) \<Rightarrow> (('p \<Rightarrow> 'p) \<times> ('p \<Rightarrow> 'p)) option \<Rightarrow>
   (ivec2 \<Rightarrow> int \<Rightarrow> 'p) \<Rightarrow> 'e frame_run \<Rightarrow> 'e frame_run \<Rightarrow> bool"
  for ts F thr K ops R where
  cancelled: "i < length (pcs r) \<Longrightarrow> pcs r ! i = Todo \<Longrightarrow> cancel r \<Longrightarrow>
    render_step ts F thr K ops R r (r\<lparr>pcs := (pcs r)[i := Finished]\<rparr>)"
| converged: "i < length (pcs r) \<Longrightarrow> pcs r ! i = Todo \<Longrightarrow> \<not> cancel r \<Longrightarrow>
    LFB_accumID (run_fb r) (tile_at (run_fb r) i) = Inr acc \<Longrightarrow>
    LFB_tileError F (run_fb r) (tile_at (run_fb r) i) = Inr e \<Longrightarrow> fleq F e thr \<Longrightarrow>
    render_step ts F thr K ops R r
      (r\<lparr>pixelsDone := wrap32 (pixelsDone r + tile_pixels ts (base (run_fb r)) (tile_at (run_fb r) i)),
         pcs := (pcs r)[i := Finished]\<rparr>)"
| render: "i < length (pcs r) \<Longrightarrow> pcs r ! i = Todo \<Longrightarrow> \<not> cancel r \<Longrightarrow>
    LFB_accumID (run_fb r) (tile_at (run_fb r) i) = Inr acc \<Longrightarrow>
    LFB_tileError F (run_fb r) (tile_at (run_fb r) i) = Inr e \<Longrightarrow> \<not> fleq F e thr \<Longrightarrow>
    render_step ts F thr K ops R r
      (r\<lparr>pixelsDone := wrap32 (pixelsDone r + tile_pixels ts (base (run_fb r)) (tile_at (run_fb r) i)),
         pcs := (pcs r)[i := Rendering acc]\<rparr>)"
| set: "i < length (pcs r) \<Longrightarrow> pcs r ! i = Rendering acc \<Longrightarrow>
    LFB_setTile ts K ops (Tile ts (tile_at (run_fb r) i) (fb_size (base (run_fb r))) acc
      (R (tile_at (run_fb r) i) acc) 0) (run_fb r) = Inr (w, fb') \<Longrightarrow>
    render_step ts F thr K ops R r
      (r\<lparr>run_fb := fb', cancel := (cancel r \<or> \<not> ok), pcs := (pcs r)[i := Finished], sets := sets r @ [(i, acc)]\<rparr>)"

inductive render_reachable ::
  "int \<Rightarrow> ('e, 'z) arith_scheme \<Rightarrow> 'e \<Rightarrow> ('p tile \<Rightarrow> 'e \<times> 'p) \<Rightarrow> (('p \<Rightarrow> 'p) \<times> ('p \<Rightarrow> 'p)) option \<Rightarrow>
   (ivec2 \<Rightarrow> int \<Rightarrow> 'p) \<Rightarrow> 'e local_fb \<Rightarrow> 'e frame_run \<Rightarrow> bool"
  for ts F thr K ops R fb where
  start: "frame_start fb = Inr r \<Longrightarrow> render_reachable ts F thr K ops R fb r"
| step: "render_reachable ts F thr K ops R fb r \<Longrightarrow> render_step ts F thr K ops R r r' \<Longrightarrow>
    render_reachable ts F thr K ops R fb r'"

definition active_tile :: "('e, 'z) arith_scheme \<Rightarrow> 'e \<Rightarrow> 'e local_fb \<Rightarrow> nat \<Rightarrow> bool" where
  "active_tile F thr fb i \<longleftrightarrow> \<not> fleq F (err_at F fb i) thr"

text \<open>What is known of tile \<open>i\<close>, by the state of its task.\<close>

definition tile_inv :: "('e, 'z) arith_scheme \<Rightarrow> 'e \<Rightarrow> 'e local_fb \<Rightarrow> 'e frame_run \<Rightarrow> nat \<Rightarrow> bool" where
  "tile_inv F thr fb r i \<longleftrightarrow>
    (if i \<in> fst ` set (sets r)
     then pcs r ! i = Finished \<and> active_tile F thr fb i \<and>
       tileAccumID (run_fb r) ! i = tileAccumID fb ! i + (if accumBuffer fb = Null_buffer then 0 else 1)
     else tileAccumID (run_fb r) ! i = tileAccumID fb ! i \<and> err_at F (run_fb r) i = err_at F fb i \<and>
       (case pcs r ! i of Todo \<Rightarrow> True
        | Rendering a \<Rightarrow> a = tileAccumID fb ! i \<and> active_tile F thr fb i
        | Finished \<Rightarrow> active_tile F thr fb i \<longrightarrow> cancel r))"

definition todo_pixels :: "int \<Rightarrow> framebuffer \<Rightarrow> render_pc list \<Rightarrow> int" where
  "todo_pixels ts fb ps = (\<Sum>i<length ps. if ps ! i = Todo then tile_pixels ts fb (tile_of_task fb i) else 0)"

definition run_inv :: "int \<Rightarrow> ('e, 'z) arith_scheme \<Rightarrow> 'e \<Rightarrow> 'e local_fb \<Rightarrow> 'e frame_run \<Rightarrow> bool" where
  "run_inv ts F thr fb r \<longleftrightarrow> lfb_ok ts (run_fb r) \<and> base (run_fb r) = base fb \<and>
     accumBuffer (run_fb r) = accumBuffer fb \<and> length (pcs r) = total_tiles fb \<and>
     distinct (map fst (sets r)) \<and> (\<forall>(i, a)\<in>set (sets r). i < total_tiles fb \<and> a = tileAccumID fb ! i) \<and>
     (\<forall>i<total_tiles fb. tile_inv F thr fb r i) \<and> fits32 (pixel_count (base fb)) \<and>
     (\<not> cancel r \<longrightarrow> pixelsDone r + todo_pixels ts (base fb) (pcs r) = fst (fb_size (base fb)) * snd (fb_size (base fb)))"

lemma tile_pixels_card:
  assumes "frame_ok ts fb" and "i < nat (getTotalTiles fb)"
  shows "tile_pixels ts fb (tile_of_task fb i) = int (card (points (tile_region ts fb i)))"
proof -
  have r: "lower (tile_region ts fb i) \<in> points (tile_region ts fb i)"
    by (rule tile_region_nonempty [OF assms])
  have "0 < ts" using assms(1) by (simp add: frame_ok_def)
  with r show ?thesis
    by (simp add: tile_region_def Tile_def points_def tile_pixels_def getNumPixels_def card_cartesian_product min_def)
qed

lemma all_pixels:
  assumes "frame_ok ts fb"
  shows "(\<Sum>i<nat (getTotalTiles fb). tile_pixels ts fb (tile_of_task fb i)) = fst (fb_size fb) * snd (fb_size fb)"
proof -
  have "(\<Sum>i<nat (getTotalTiles fb). tile_pixels ts fb (tile_of_task fb i)) =
      (\<Sum>i<nat (getTotalTiles fb). int (card (points (tile_region ts fb i))))"
    by (simp add: tile_pixels_card [OF assms])
  also have "\<dots> = int (card (\<Union>i<nat (getTotalTiles fb). points (tile_region ts fb i)))"
    by (subst card_UN_disjoint) (use tile_region_disjoint [OF assms] in \<open>auto simp: points_def\<close>)
  also have "\<dots> = fst (fb_size fb) * snd (fb_size fb)"
    unfolding tile_regions_cover [OF assms]
    using assms by (simp add: points_def card_cartesian_product frame_ok_def)
  finally show ?thesis .
qed

lemma run_inv_start:
  assumes "lfb_ok ts fb" and "frame_start fb = Inr r"
  shows "run_inv ts F thr fb r"
proof -
  have fits: "fits32 (pixel_count (base fb))"
    and r: "r = \<lparr>run_fb = fb, pixelsDone = 0, cancel = False, pcs = replicate (total_tiles fb) Todo, sets = []\<rparr>"
    using assms(2) by (simp_all add: frame_start_def split: if_splits)
  have ok: "frame_ok ts (base fb)" using assms(1) by (simp add: lfb_ok_def)
  show ?thesis using assms(1) fits all_pixels [OF ok] by (simp add: run_inv_def r tile_inv_def todo_pixels_def)
qed

text \<open>The pixels still to do lie between none and all, so that the sum of the finished ones never wraps.\<close>

lemma tile_pixels_nonneg:
  "frame_ok ts fb \<Longrightarrow> i < nat (getTotalTiles fb) \<Longrightarrow> 0 \<le> tile_pixels ts fb (tile_of_task fb i)"
  by (simp add: tile_pixels_card)

lemma todo_bounds:
  assumes ok: "frame_ok ts fb" and len: "length ps = nat (getTotalTiles fb)"
  shows "0 \<le> todo_pixels ts fb ps \<and> todo_pixels ts fb ps \<le> pixel_count fb"
proof
  show "0 \<le> todo_pixels ts fb ps"
    unfolding todo_pixels_def by (rule sum_nonneg) (use tile_pixels_nonneg [OF ok] len in simp)
  have "todo_pixels ts fb ps \<le> (\<Sum>i<length ps. tile_pixels ts fb (tile_of_task fb i))"
    unfolding todo_pixels_def by (rule sum_mono) (use tile_pixels_nonneg [OF ok] len in simp)
  then show "todo_pixels ts fb ps \<le> pixel_count fb" using all_pixels [OF ok] by (simp add: len pixel_count_def)
qed

lemma todo_update:
  assumes "i < length ps" and "ps ! i = Todo" and "p \<noteq> Todo"
  shows "todo_pixels ts fb (ps[i := p]) = todo_pixels ts fb ps - tile_pixels ts fb (tile_of_task fb i)"
proof -
  let ?f = "\<lambda>ps j. if ps ! j = Todo then tile_pixels ts fb (tile_of_task fb j) else 0"
  have "sum (?f (ps[i := p])) ({..<length ps} - {i}) = sum (?f ps) ({..<length ps} - {i})"
    by (rule sum.cong) auto
  then show ?thesis using assms
    by (simp add: todo_pixels_def sum.remove [of "{..<length ps}" i])
qed

lemma todo_same:
  "i < length ps \<Longrightarrow> ps ! i \<noteq> Todo \<Longrightarrow> p \<noteq> Todo \<Longrightarrow> todo_pixels ts fb (ps[i := p]) = todo_pixels ts fb ps"
  unfolding todo_pixels_def by (rule sum.cong) (auto simp: nth_list_update)

lemma tile_inv_keep:
  "tile_inv F thr fb r j \<Longrightarrow> j \<in> fst ` set (sets r') \<longleftrightarrow> j \<in> fst ` set (sets r) \<Longrightarrow> pcs r' ! j = pcs r ! j \<Longrightarrow>
   tileAccumID (run_fb r') ! j = tileAccumID (run_fb r) ! j \<Longrightarrow> err_at F (run_fb r') j = err_at F (run_fb r) j \<Longrightarrow>
   (cancel r \<Longrightarrow> cancel r') \<Longrightarrow> tile_inv F thr fb r' j"
  by (auto simp: tile_inv_def split: render_pc.splits)

lemma run_inv_reads:
  assumes "run_inv ts F thr fb r" and "i < total_tiles fb" and "pcs r ! i \<noteq> Finished"
  shows "i \<notin> fst ` set (sets r)" "tileAccumID (run_fb r) ! i = tileAccumID fb ! i"
    "err_at F (run_fb r) i = err_at F fb i"
    "LFB_accumID (run_fb r) (tile_at (run_fb r) i) = Inr (tileAccumID fb ! i)"
    "LFB_tileError F (run_fb r) (tile_at (run_fb r) i) = Inr (err_at F fb i)"
proof -
  have inv: "tile_inv F thr fb r i" using assms by (simp add: run_inv_def)
  then show "i \<notin> fst ` set (sets r)" "tileAccumID (run_fb r) ! i = tileAccumID fb ! i"
      and e: "err_at F (run_fb r) i = err_at F fb i"
    using assms(3) by (auto simp: tile_inv_def split: if_splits)
  with assms show "LFB_accumID (run_fb r) (tile_at (run_fb r) i) = Inr (tileAccumID fb ! i)"
    "LFB_tileError F (run_fb r) (tile_at (run_fb r) i) = Inr (err_at F fb i)"
    using LFB_reads(1) [of ts "run_fb r" i] LFB_reads(2) [of ts "run_fb r" i F] e
    by (simp_all add: run_inv_def)
qed

lemma run_inv_pc:
  assumes inv: "run_inv ts F thr fb r" and i: "i < length (pcs r)" "pcs r ! i = Todo" and p: "p \<noteq> Todo"
    and ok: "tile_inv F thr fb (r\<lparr>pcs := (pcs r)[i := p]\<rparr>) i"
    and px: "\<not> cancel r \<longrightarrow> d = pixelsDone r + tile_pixels ts (base fb) (tile_at fb i)"
  shows "run_inv ts F thr fb (r\<lparr>pixelsDone := d, pcs := (pcs r)[i := p]\<rparr>)"
proof -
  have "tile_inv F thr fb (r\<lparr>pixelsDone := d, pcs := (pcs r)[i := p]\<rparr>) j"
    if "j < total_tiles fb" for j
  proof (cases "j = i")
    case True
    show ?thesis unfolding True by (rule tile_inv_keep [OF ok]) simp_all
  next
    case False
    from inv that have "tile_inv F thr fb r j" by (simp add: run_inv_def)
    then show ?thesis by (rule tile_inv_keep) (use False in simp_all)
  qed
  with inv px show ?thesis
    by (simp add: run_inv_def todo_update [OF i p])
qed

lemma pixels_done_fit:
  assumes inv: "run_inv ts F thr fb r" and i: "i < length (pcs r)" "pcs r ! i = Todo" and "\<not> cancel r"
  shows "wrap32 (pixelsDone r + tile_pixels ts (base fb) (tile_at fb i)) = pixelsDone r + tile_pixels ts (base fb) (tile_at fb i)"
proof (rule wrap32_fits)
  let ?d = "tile_pixels ts (base fb) (tile_at fb i)"
  have ok: "frame_ok ts (base fb)" and len: "length (pcs r) = total_tiles fb"
    using inv by (auto simp: run_inv_def lfb_ok_def)
  have sum: "pixelsDone r + ?d + todo_pixels ts (base fb) ((pcs r)[i := Finished]) = pixel_count (base fb)"
    using inv assms(4) todo_update [OF i, of Finished ts "base fb"] by (simp add: run_inv_def pixel_count_def)
  have "0 \<le> todo_pixels ts (base fb) ((pcs r)[i := Finished]) \<and>
      todo_pixels ts (base fb) ((pcs r)[i := Finished]) \<le> pixel_count (base fb)"
    by (rule todo_bounds [OF ok]) (simp add: len)
  moreover have "pixel_count (base fb) < 2 ^ 31" using inv by (simp add: run_inv_def fits32_def)
  ultimately show "fits32 (pixelsDone r + ?d)" using sum unfolding fits32_def by linarith
qed

lemma run_inv_step:
  assumes "render_step ts F thr K ops R r r'" and "run_inv ts F thr fb r"
  shows "run_inv ts F thr fb r'"
  using assms
proof (induction rule: render_step.induct)
  case (cancelled i r)
  then have "i < total_tiles fb" by (simp add: run_inv_def)
  with run_inv_reads [of ts F thr fb r i] cancelled
  have "tile_inv F thr fb (r\<lparr>pcs := (pcs r)[i := Finished]\<rparr>) i" by (simp add: tile_inv_def)
  from run_inv_pc [OF _ _ _ _ this, of ts "pixelsDone r"] cancelled show ?case by simp
next
  case (converged i r acc e)
  then have i: "i < total_tiles fb" and b: "base (run_fb r) = base fb" by (simp_all add: run_inv_def)
  with run_inv_reads [of ts F thr fb r i] converged
  have "tile_inv F thr fb (r\<lparr>pcs := (pcs r)[i := Finished]\<rparr>) i"
    by (simp add: tile_inv_def active_tile_def)
  from run_inv_pc [OF _ _ _ _ this] converged pixels_done_fit [OF converged(7) converged(1-3)] show ?case by (simp add: b)
next
  case (render i r acc e)
  then have i: "i < total_tiles fb" and b: "base (run_fb r) = base fb" by (simp_all add: run_inv_def)
  with run_inv_reads [of ts F thr fb r i] render
  have "tile_inv F thr fb (r\<lparr>pcs := (pcs r)[i := Rendering acc]\<rparr>) i"
    by (simp add: tile_inv_def active_tile_def)
  from run_inv_pc [OF _ _ _ _ this] render pixels_done_fit [OF render(7) render(1-3)] show ?case by (simp add: b)
next
  case (set i r acc w fb' ok)
  let ?r' = "r\<lparr>run_fb := fb', cancel := (cancel r \<or> \<not> ok), pcs := (pcs r)[i := Finished], sets := sets r @ [(i, acc)]\<rparr>"
  have inv: "lfb_ok ts (run_fb r)" "base (run_fb r) = base fb" "accumBuffer (run_fb r) = accumBuffer fb"
    and i: "i < total_tiles fb"
    using set by (simp_all add: run_inv_def)
  from setTile_ok [OF inv(1), of i K ops acc "R (tile_at (run_fb r) i) acc" 0] i set(3)
  have fb': "lfb_ok ts fb'" "only_tile i (run_fb r) fb'" by (simp_all add: inv(2))
  have reads: "i \<notin> fst ` set (sets r)" "tileAccumID (run_fb r) ! i = tileAccumID fb ! i"
    using run_inv_reads [OF set(4) i] set(2) by simp_all
  have tinv: "tile_inv F thr fb r i" using set(4) i by (simp add: run_inv_def)
  have len: "length (tileAccumID (run_fb r)) = total_tiles fb"
    using inv by (simp add: lfb_ok_def)
  have "tile_inv F thr fb ?r' j" if "j < total_tiles fb" for j
  proof (cases "j = i")
    case True
    with tinv set(1,2) reads fb'(2) len i show ?thesis
      by (simp add: tile_inv_def only_tile_def inv)
  next
    case False
    have "tile_inv F thr fb r j" using set(4) that by (simp add: run_inv_def)
    then show ?thesis
      by (rule tile_inv_keep) (use False fb'(2) in \<open>auto simp: only_tile_def err_at_def inv\<close>)
  qed
  moreover have "acc = tileAccumID fb ! i" using tinv reads set(2) by (simp add: tile_inv_def)
  moreover have "todo_pixels ts (base fb) ((pcs r)[i := Finished]) = todo_pixels ts (base fb) (pcs r)"
    by (rule todo_same) (use set in auto)
  ultimately show ?case using set(4) fb' reads i
    by (auto simp: run_inv_def only_tile_def)
qed

lemma render_reachable_inv:
  "render_reachable ts F thr K ops R fb r \<Longrightarrow> lfb_ok ts fb \<Longrightarrow> run_inv ts F thr fb r"
  by (induction rule: render_reachable.induct) (auto intro: run_inv_start run_inv_step)

lemma render_progress:
  assumes "run_inv ts F thr fb r" and "\<exists>i<total_tiles fb. pcs r ! i \<noteq> Finished"
  shows "\<exists>r'. render_step ts F thr K ops R r r'"
proof -
  from assms(2) obtain i where i: "i < total_tiles fb" "pcs r ! i \<noteq> Finished" by blast
  have inv: "lfb_ok ts (run_fb r)" "base (run_fb r) = base fb" "length (pcs r) = total_tiles fb"
    using assms(1) by (simp_all add: run_inv_def)
  note reads = run_inv_reads(4,5) [OF assms(1) i]
  show ?thesis
  proof (cases "pcs r ! i")
    case Todo
    then show ?thesis
      using render_step.cancelled [of i r] render_step.converged [OF _ Todo _ reads]
        render_step.render [OF _ Todo _ reads] i inv by metis
  next
    case (Rendering acc)
    from setTile_ok [OF inv(1), of i K ops acc "R (tile_at (run_fb r) i) acc" 0] i inv(2)
    obtain w fb' where s: "LFB_setTile ts K ops (Tile ts (tile_at (run_fb r) i) (fb_size (base (run_fb r))) acc
      (R (tile_at (run_fb r) i) acc) 0) (run_fb r) = Inr (w, fb')" by auto
    have "i < length (pcs r)" using i inv(3) by simp
    from render_step.set [where r = r and i = i and acc = acc and w = w and fb' = fb' and ok = True
        and ts = ts and K = K and ops = ops and R = R, OF this Rendering s]
    show ?thesis by blast
  qed (use i in simp)
qed

section \<open>The life of a frame buffer\<close>

inductive fb_reachable :: "('e, 'z) arith_scheme \<Rightarrow> int \<Rightarrow> ('p tile \<Rightarrow> 'e \<times> 'p) \<Rightarrow> 'e local_fb \<Rightarrow> bool"
  for F ts K where
  made: "LocalFrameBuffer F True ts sz fmt ch Null_buffer = Inr fb \<Longrightarrow> 0 < ts \<Longrightarrow> fb_reachable F ts K fb"
| clear: "fb_reachable F ts K fb \<Longrightarrow> fb_reachable F ts K (LFB_clear F flags fb)"
| beginFrame: "fb_reachable F ts K fb \<Longrightarrow> fb_reachable F ts K (LFB_beginFrame fb)"
| tasks: "fb_reachable F ts K fb \<Longrightarrow> render_reachable ts F thr K ops R fb r \<Longrightarrow> fb_reachable F ts K (run_fb r)"
| endFrame: "fb_reachable F ts K fb \<Longrightarrow> LFB_endFrame F thr fb = (err, fb') \<Longrightarrow> fb_reachable F ts K fb'"
| mapped: "fb_reachable F ts K fb \<Longrightarrow> mapBuffer c fb = (buf, fb') \<Longrightarrow> fb_reachable F ts K fb'"
| unmapped: "fb_reachable F ts K fb \<Longrightarrow> unmap buf fb = Inr fb' \<Longrightarrow> fb_reachable F ts K fb'"

lemma length_refine_loop: "length (fst (refine_loop F thr nt i n buf rs)) = length buf"
proof (induction "n - i" arbitrary: i n buf rs rule: less_induct)
  case less
  show ?case
    using length_refine_region [of F thr nt "rs ! i" buf] less
    by (subst refine_loop.simps) (auto split: prod.splits region_step.splits)
qed

lemma refine_shape:
  assumes "refine F thr te = (err, te')"
  shows "te_numTiles te' = te_numTiles te" "tiles te' = tiles te"
    "length (tileErrorBuffer te') = length (tileErrorBuffer te)"
  using assms length_refine_loop [of F thr "te_numTiles te" 0 _ "tileErrorBuffer te" "errorRegion te"]
  by (auto simp: refine_def Let_def split: if_splits prod.splits) (metis fst_conv)+

lemma fb_reachable_ok: "fb_reachable F ts K fb \<Longrightarrow> lfb_ok ts fb"
proof (induction rule: fb_reachable.induct)
  case (made sz fmt ch fb)
  then show ?case using lfb_ok_made by blast
next
  case (tasks fb thr ops R r)
  from render_reachable_inv [OF tasks(2,3)] show ?case by (simp add: run_inv_def)
next
  case (endFrame fb thr err fb')
  then obtain te where "refine F thr (tileErrorRegion fb) = (err, te)" "fb' = fb\<lparr>tileErrorRegion := te\<rparr>"
    by (auto simp: LFB_endFrame_def split: prod.splits)
  with refine_shape [OF this(1)] endFrame(3) show ?case by (simp add: lfb_ok_def)
next
  case (mapped fb c buf fb')
  then show ?case by (cases "channel_buffer fb c = Null_buffer") (auto simp: mapBuffer_def Let_def lfb_ok_def)
next
  case (unmapped fb buf fb')
  then show ?case by (auto simp: unmap_def lfb_ok_def split: if_splits)
qed (simp_all add: LFB_clear_def LFB_beginFrame_def FrameBuffer_beginFrame_def lfb_ok_def frame_ok_def
    getTotalTiles_def TileError_clear_def Let_def)

text \<open>What is known of a frame when all its tasks have finished without a cancellation.\<close>

lemma written_active:
  assumes "run_inv ts F thr fb r" and "i \<in> fst ` set (sets r)"
  shows "i < total_tiles fb \<and> active_tile F thr fb i"
proof -
  have i: "i < total_tiles fb" using assms by (auto simp: run_inv_def)
  then have "tile_inv F thr fb r i" using assms(1) by (simp add: run_inv_def)
  with assms(2) i show ?thesis by (simp add: tile_inv_def)
qed

lemma finished_frame:
  assumes inv: "run_inv ts F thr fb r" and all: "\<forall>i<total_tiles fb. pcs r ! i = Finished" and "\<not> cancel r"
  shows "fst ` set (sets r) = {i. i < total_tiles fb \<and> active_tile F thr fb i}"
    "i < total_tiles fb \<Longrightarrow> tileAccumID (run_fb r) ! i = tileAccumID fb ! i +
       (if active_tile F thr fb i \<and> accumBuffer fb \<noteq> Null_buffer then 1 else 0)"
    "pixelsDone r = fst (fb_size (base fb)) * snd (fb_size (base fb))"
proof -
  have tinv: "tile_inv F thr fb r i" if "i < total_tiles fb" for i using inv that by (simp add: run_inv_def)
  have eq: "i \<in> fst ` set (sets r) \<longleftrightarrow> active_tile F thr fb i" if "i < total_tiles fb" for i
  proof
    show "i \<in> fst ` set (sets r)" if "active_tile F thr fb i"
      using tinv [OF \<open>i < total_tiles fb\<close>] all \<open>i < total_tiles fb\<close> \<open>\<not> cancel r\<close> that
      by (cases "i \<in> fst ` set (sets r)") (simp_all add: tile_inv_def)
  qed (use written_active [OF inv] in blast)
  then show "fst ` set (sets r) = {i. i < total_tiles fb \<and> active_tile F thr fb i}"
    using written_active [OF inv] by blast
  show "tileAccumID (run_fb r) ! i = tileAccumID fb ! i +
       (if active_tile F thr fb i \<and> accumBuffer fb \<noteq> Null_buffer then 1 else 0)" if "i < total_tiles fb" for i
    using tinv [OF that] eq [OF that] by (cases "active_tile F thr fb i") (simp_all add: tile_inv_def)
  have "length (pcs r) = total_tiles fb" using inv by (simp add: run_inv_def)
  then have "todo_pixels ts (base fb) (pcs r) = 0"
    unfolding todo_pixels_def using all by (intro sum.neutral) auto
  then show "pixelsDone r = fst (fb_size (base fb)) * snd (fb_size (base fb))"
    using inv \<open>\<not> cancel r\<close> by (simp add: run_inv_def)
qed

text \<open>A frame of \<open>2 ^ 31\<close> pixels or more: the product of the sizes overflows before the first task starts.\<close>

lemma huge_frame_overflows:
  "2 ^ 31 \<le> pixel_count (base fb) \<Longrightarrow> frame_start fb = Inl Undefined_behaviour"
  by (simp add: frame_start_def fits32_def)

text \<open>C8 A frame of the local device.  The frame buffer is one made by the constructor
  (any size, format and channels) after any operations and frames, \<open>fb\<close> is its state
  when the tasks of a frame start, and the tasks of the tiles run in any interleaving, with any renderer, kernel, pixel
  operation and answers of the progress callback.  The number of pixels is an \<open>int\<close>: for a larger frame
  the product of the sizes overflows and no task starts (lemma \<open>huge_frame_overflows\<close>).  No task fails: while one is
  unfinished some task has a step.  A tile is written at most once, with the
  accumulation number it had when the frame started, and only if its error exceeds the
  threshold.  If the application does not cancel, every such tile is written once all
  tasks have finished, the tile's accumulation count has grown by one if there is an
  accumulation buffer, that of the other tiles has not, and the pixels reported as done, counted in 32
  bits, are those of the frame.\<close>

theorem local_frame_writes_each_tile_once:
  assumes "fb_reachable F ts K fb" and "render_reachable ts F thr K ops R fb r"
  shows "((\<forall>i<total_tiles fb. pcs r ! i = Finished) \<or> (\<exists>r'. render_step ts F thr K ops R r r')) \<and>
    distinct (map fst (sets r)) \<and>
    (\<forall>(i, a)\<in>set (sets r). i < total_tiles fb \<and> active_tile F thr fb i \<and> a = tileAccumID fb ! i) \<and>
    ((\<forall>i<total_tiles fb. pcs r ! i = Finished) \<and> \<not> cancel r \<longrightarrow>
      fst ` set (sets r) = {i. i < total_tiles fb \<and> active_tile F thr fb i} \<and>
      (\<forall>i<total_tiles fb. tileAccumID (run_fb r) ! i = tileAccumID fb ! i +
         (if active_tile F thr fb i \<and> accumBuffer fb \<noteq> Null_buffer then 1 else 0)) \<and>
      pixelsDone r = fst (fb_size (base fb)) * snd (fb_size (base fb)))"
proof -
  have inv: "run_inv ts F thr fb r"
    by (rule render_reachable_inv [OF assms(2) fb_reachable_ok [OF assms(1)]])
  then have sets: "distinct (map fst (sets r))" "\<forall>(i, a)\<in>set (sets r). i < total_tiles fb \<and> a = tileAccumID fb ! i"
    by (simp_all add: run_inv_def)
  have "\<forall>(i, a)\<in>set (sets r). i < total_tiles fb \<and> active_tile F thr fb i \<and> a = tileAccumID fb ! i"
    using sets(2) written_active [OF inv] by (force simp: image_iff)
  moreover have "(\<forall>i<total_tiles fb. pcs r ! i = Finished) \<or> (\<exists>r'. render_step ts F thr K ops R r r')"
    using render_progress [OF inv] by blast
  ultimately show ?thesis using sets(1) finished_frame [OF inv] by blast
qed

definition tiny_fb :: "int local_fb" where
  "tiny_fb = \<lparr>base = \<lparr>fb_size = (3, 2), numTiles = (1, 1), maxValidPixelID = (2, 1), colorBufferFormat = OSP_FB_RGBA8,
       hasDepthBuffer = False, hasAccumBuffer = True, hasVarianceBuffer = False, hasNormalBuffer = False,
       hasAlbedoBuffer = False, frameID = - 1\<rparr>,
     colorBuffer = Own_buffer COLOR, depthBuffer = Null_buffer, accumBuffer = Own_buffer ACCUM,
     varianceBuffer = Null_buffer, normalBuffer = Null_buffer, albedoBuffer = Null_buffer,
     tileAccumID = [0], tileErrorRegion = TileError int_arith (0, 0), fb_refs = 1\<rparr>"

definition tiny_run :: "int frame_run" where
  "tiny_run = \<lparr>run_fb = tiny_fb\<lparr>tileAccumID := [1]\<rparr>, pixelsDone = 6, cancel = False, pcs = [Finished], sets = [(0, 0)]\<rparr>"

lemma tiny_fb_made: "LocalFrameBuffer int_arith True 4 (3, 2) OSP_FB_RGBA8 5 Null_buffer = Inr tiny_fb"
  by code_simp

lemma tiny_run_reachable:
  "render_reachable 4 int_arith 0 (\<lambda>t. (0, pixels t)) None (\<lambda>_ _. ()) tiny_fb tiny_run"
proof -
  note reads = tiny_fb_def wrap32_def getTotalTiles_def LFB_accumID_def LFB_tile_index_def tile_index_def
    tile_of_task_def getNumTiles_def LFB_tileError_def TileError_get_def TileError_def TileError_clear_def
    int_arith_def Let_def tile_pixels_def
  let ?r0 = "\<lparr>run_fb = tiny_fb, pixelsDone = 0, cancel = False, pcs = [Todo], sets = []\<rparr> :: int frame_run"
  have start: "frame_start tiny_fb = Inr ?r0"
    by (simp add: frame_start_def tiny_fb_def pixel_count_def fits32_def getTotalTiles_def)
  let ?r1 = "\<lparr>run_fb = tiny_fb, pixelsDone = 6, cancel = False, pcs = [Rendering 0], sets = []\<rparr> :: int frame_run"
  have "render_step 4 int_arith 0 (\<lambda>t. (0, pixels t)) None (\<lambda>_ _. ()) ?r0 ?r1"
    using render_step.render [where r = ?r0 and i = 0 and ts = 4 and F = int_arith and thr = 0
        and acc = 0 and e = 1000000]
    by (simp add: reads)
  from render_reachable.step [OF render_reachable.start [OF start] this] show ?thesis
  proof (rule render_reachable.step)
    show "render_step 4 int_arith 0 (\<lambda>t. (0, pixels t)) None (\<lambda>_ _. ()) ?r1 tiny_run"
      using render_step.set [where r = ?r1 and i = 0 and ts = 4 and F = int_arith and thr = 0 and ok = True
          and K = "\<lambda>t. (0, pixels t)" and ops = None and R = "\<lambda>_ _. ()" and acc = 0]
      by (simp add: reads LFB_setTile_def tile_of_pixel_def Tile_def tiny_run_def)
  qed
qed

theorem local_frame_writes_each_tile_once_witness:
  "fst ` set (sets tiny_run) = {0} \<and> pixelsDone tiny_run = 6 \<and>
   tileAccumID (run_fb tiny_run) ! 0 = tileAccumID tiny_fb ! 0 + 1"
  using local_frame_writes_each_tile_once [OF fb_reachable.made [OF tiny_fb_made] tiny_run_reachable]
  by (simp add: tiny_run_def tiny_fb_def)

end
