(* ===== verification/DynBalance.thy ===== *)
theory DynBalance
  imports Tiles "HOL-Library.Multiset"
begin

text \<open>
  The dynamic load balancer (\<open>namespace dynamicLoadBalancer\<close> in
  \<open>modules/mpi/render/MPILoadBalancer.cpp\<close>): the master hands tile tasks to the workers
  that ask for them, a worker asks for another one whenever it has rendered one.  The
  whole system is a step relation: the calls of \<open>scheduleTile\<close> that \<open>renderFrame\<close> makes
  in advance, the requests under way to the master, the answers under way to each
  worker (in the order they were sent), the tasks a worker is rendering, and those it
  has rendered but not yet set.  \<open>scheduleTile\<close> is one step, although the code calls it
  from two threads without a lock; a worker is up to its \<open>frameActive = true\<close>.
\<close>

section \<open>The master\<close>

record tile_task =
  task_tileId :: ivec2
  task_accumId :: int
  tilesExhausted :: bool

record scheduler =
  preferredTiles :: "tile_task list list"
  workerNotified :: "bool list"
  closedFrames :: nat

text \<open>\<open>std::max_element\<close> finds the first of the longest queues.\<close>

definition max_element :: "'a list list \<Rightarrow> nat" where
  "max_element qs = fold (\<lambda>i best. if length (qs ! best) < length (qs ! i) then i else best) [1..<length qs] 0"

text \<open>An exhausted answer is a local \<open>TileTask\<close> that is not initialized otherwise: \<open>junk\<close>.\<close>

definition scheduleTile :: "tile_task \<Rightarrow> nat \<Rightarrow> scheduler \<Rightarrow> tile_task option \<times> scheduler" where
  "scheduleTile junk worker s =
    (if workerNotified s ! worker then (None, s)
     else let qs = preferredTiles s; queue = (if qs ! worker = [] then max_element qs else worker) in
       if qs ! queue = []
       then let s1 = s\<lparr>workerNotified := (workerNotified s)[worker := True]\<rparr>
         in (Some (junk\<lparr>tilesExhausted := True\<rparr>),
             if False \<in> set (workerNotified s1) then s1 else s1\<lparr>closedFrames := closedFrames s1 + 1\<rparr>)
       else (Some ((last (qs ! queue))\<lparr>tilesExhausted := False\<rparr>),
             s\<lparr>preferredTiles := qs[queue := butlast (qs ! queue)]\<rparr>))"

section \<open>The workers\<close>

record slave =
  inbox :: "tile_task list"
  tilesAvailable :: bool
  tilesScheduled :: int
  rendering :: "tile_task list"
  rendered_tiles :: "tile_task list"

definition slave_start :: slave where
  "slave_start = \<lparr>inbox = [], tilesAvailable = True, tilesScheduled = 0, rendering = [], rendered_tiles = []\<rparr>"

text \<open>\<open>Slave::incoming\<close>; a scheduled task is one of \<open>rendering\<close>.\<close>

definition slave_incoming :: "tile_task \<Rightarrow> slave \<Rightarrow> slave" where
  "slave_incoming task sl =
    (let sl1 = (if tilesExhausted task then sl\<lparr>tilesAvailable := False\<rparr>
                else sl\<lparr>tilesScheduled := tilesScheduled sl + 1\<rparr>)
     in if tilesAvailable sl1 then sl1\<lparr>rendering := rendering sl1 @ [task]\<rparr> else sl1)"

definition slave_waits :: "slave \<Rightarrow> bool" where
  "slave_waits sl \<longleftrightarrow> \<not> (tilesScheduled sl = 0 \<and> \<not> tilesAvailable sl)"

section \<open>The system\<close>

record dyn =
  sched :: scheduler
  slaves :: "slave list"
  preallocating :: "nat list"
  requests :: "nat list"
  setTiles :: "tile_task list"

definition answer :: "tile_task \<Rightarrow> nat \<Rightarrow> dyn \<Rightarrow> dyn" where
  "answer junk w s = (case scheduleTile junk w (sched s) of
     (None, sc) \<Rightarrow> s\<lparr>sched := sc\<rparr>
   | (Some t, sc) \<Rightarrow> s\<lparr>sched := sc,
       slaves := (slaves s)[w := (slaves s ! w)\<lparr>inbox := inbox (slaves s ! w) @ [t]\<rparr>]\<rparr>)"

text \<open>\<open>tileTask\<close> is two steps: it asks for another task when it has rendered, then it sets
  the tile.\<close>

inductive dyn_step :: "tile_task \<Rightarrow> dyn \<Rightarrow> dyn \<Rightarrow> bool" for junk where
  preallocate: "preallocating s = w # ws \<Longrightarrow> dyn_step junk s (answer junk w (s\<lparr>preallocating := ws\<rparr>))"
| request: "w \<in> set (requests s) \<Longrightarrow> dyn_step junk s (answer junk w (s\<lparr>requests := remove1 w (requests s)\<rparr>))"
| receive: "w < length (slaves s) \<Longrightarrow> inbox (slaves s ! w) = t # ts \<Longrightarrow>
    dyn_step junk s (s\<lparr>slaves := (slaves s)[w := slave_incoming t ((slaves s ! w)\<lparr>inbox := ts\<rparr>)]\<rparr>)"
| render: "w < length (slaves s) \<Longrightarrow> t \<in> set (rendering (slaves s ! w)) \<Longrightarrow>
    dyn_step junk s (s\<lparr>slaves := (slaves s)[w := (slaves s ! w)\<lparr>rendering := remove1 t (rendering (slaves s ! w)),
          rendered_tiles := rendered_tiles (slaves s ! w) @ [t]\<rparr>],
        requests := requests s @ (if tilesAvailable (slaves s ! w) then [w] else [])\<rparr>)"
| set_tile: "w < length (slaves s) \<Longrightarrow> t \<in> set (rendered_tiles (slaves s ! w)) \<Longrightarrow>
    dyn_step junk s (s\<lparr>slaves := (slaves s)[w := (slaves s ! w)\<lparr>rendered_tiles := remove1 t (rendered_tiles (slaves s ! w)),
          tilesScheduled := tilesScheduled (slaves s ! w) - 1\<rparr>],
        setTiles := setTiles s @ [t]\<rparr>)"

text \<open>The start of a frame of \<open>nw\<close> workers with the generated queues \<open>qs\<close>.\<close>

definition dyn_start :: "nat \<Rightarrow> nat \<Rightarrow> tile_task list list \<Rightarrow> dyn" where
  "dyn_start numPreAllocated nw qs =
     \<lparr>sched = \<lparr>preferredTiles = qs, workerNotified = replicate nw False, closedFrames = 0\<rparr>,
      slaves = replicate nw slave_start,
      preallocating = concat (replicate numPreAllocated [0..<nw]), requests = [], setTiles = []\<rparr>"

inductive dyn_steps :: "tile_task \<Rightarrow> dyn \<Rightarrow> nat \<Rightarrow> dyn \<Rightarrow> bool" for junk s0 where
  none: "dyn_steps junk s0 0 s0"
| step: "dyn_steps junk s0 n s \<Longrightarrow> dyn_step junk s s' \<Longrightarrow> dyn_steps junk s0 (Suc n) s'"

section \<open>Scheduling\<close>

lemma max_element_longest:
  "qs \<noteq> [] \<Longrightarrow> max_element qs < length qs \<and> (\<forall>q\<in>set qs. length q \<le> length (qs ! max_element qs))"
proof -
  assume "qs \<noteq> []"
  have "n \<le> length qs \<Longrightarrow> 0 < n \<Longrightarrow>
    (let b = fold (\<lambda>i best. if length (qs ! best) < length (qs ! i) then i else best) [1..<n] 0 in
     b < n \<and> (\<forall>i<n. length (qs ! i) \<le> length (qs ! b)))" for n
  proof (induction n)
    case (Suc n)
    then show ?case by (cases "n = 0") (auto simp: Let_def less_Suc_eq split: if_splits)
  qed simp
  from this [of "length qs"] \<open>qs \<noteq> []\<close> show ?thesis by (auto simp: max_element_def Let_def in_set_conv_nth)
qed

lemma max_element_empty:
  assumes "qs \<noteq> []"
  shows "qs ! max_element qs = [] \<longleftrightarrow> (\<forall>q\<in>set qs. q = [])"
  using max_element_longest [OF assms] by (metis le_zero_eq length_0_conv nth_mem)

text \<open>The flag of a queued task is not initialized; it is set when the task is handed out.\<close>

definition handed_out :: "tile_task \<Rightarrow> tile_task" where
  "handed_out t = t\<lparr>tilesExhausted := False\<rparr>"

definition tasks_of :: "tile_task list list \<Rightarrow> tile_task multiset" where
  "tasks_of qs = (\<Sum>q\<leftarrow>qs. mset (map handed_out q))"

definition queued :: "scheduler \<Rightarrow> tile_task multiset" where
  "queued s = tasks_of (preferredTiles s)"

lemma sum_list_swap:
  fixes f :: "'a \<Rightarrow> 'b::comm_monoid_add"
  shows "k < length xs \<Longrightarrow> (\<Sum>x\<leftarrow>xs[k := y]. f x) + f (xs ! k) = (\<Sum>x\<leftarrow>xs. f x) + f y"
proof (induction xs arbitrary: k)
  case (Cons x xs)
  show ?case
  proof (cases k)
    case (Suc j)
    with Cons show ?thesis by (simp add: add.assoc)
  qed (simp add: ac_simps)
qed simp

lemma queued_empty: "queued s = {#} \<longleftrightarrow> (\<forall>q\<in>set (preferredTiles s). q = [])"
proof -
  have "tasks_of qs = {#} \<longleftrightarrow> (\<forall>q\<in>set qs. q = [])" for qs
    by (induction qs) (auto simp: tasks_of_def)
  then show ?thesis by (simp add: queued_def)
qed

definition sched_ok :: "nat \<Rightarrow> scheduler \<Rightarrow> bool" where
  "sched_ok nw s \<longleftrightarrow> length (preferredTiles s) = nw \<and> length (workerNotified s) = nw \<and>
     (True \<in> set (workerNotified s) \<longrightarrow> queued s = {#}) \<and>
     closedFrames s = (if False \<in> set (workerNotified s) then 0 else 1)"

text \<open>The three outcomes of a request.\<close>

lemma scheduleTile_cases:
  assumes ok: "sched_ok nw s" and w: "w < nw"
  obtains
    (notified) "workerNotified s ! w" "scheduleTile junk w s = (None, s)"
  | (exhausted) t s' where "scheduleTile junk w s = (Some t, s')" "tilesExhausted t" "\<not> workerNotified s ! w"
      "queued s = {#}" "queued s' = {#}" "workerNotified s' = (workerNotified s)[w := True]" "sched_ok nw s'"
  | (task) t s' where "scheduleTile junk w s = (Some t, s')" "\<not> tilesExhausted t" "\<not> workerNotified s ! w"
      "queued s = add_mset t (queued s')" "workerNotified s' = workerNotified s" "sched_ok nw s'"
proof (cases "workerNotified s ! w")
  case True
  then show ?thesis by (intro notified) (simp_all add: scheduleTile_def)
next
  case no: False
  let ?qs = "preferredTiles s"
  define k where "k = (if ?qs ! w = [] then max_element ?qs else w)"
  have ne: "?qs \<noteq> []" and len: "length ?qs = nw" "length (workerNotified s) = nw"
    using ok w by (auto simp: sched_ok_def)
  have k: "k < nw" using max_element_longest [OF ne] w len by (auto simp: k_def)
  have empty: "?qs ! k = [] \<longleftrightarrow> queued s = {#}"
    unfolding queued_empty k_def using max_element_empty [OF ne] nth_mem [of w ?qs] w len by auto
  show ?thesis
  proof (cases "?qs ! k = []")
    case True
    define s1 where "s1 = s\<lparr>workerNotified := (workerNotified s)[w := True]\<rparr>"
    define s' where "s' = (if False \<in> set (workerNotified s1) then s1 else s1\<lparr>closedFrames := closedFrames s1 + 1\<rparr>)"
    have "False \<in> set (workerNotified s)" using no w len by (metis nth_mem)
    then have "sched_ok nw s'" using ok True empty by (auto simp: sched_ok_def s'_def s1_def queued_def)
    moreover have "scheduleTile junk w s = (Some (junk\<lparr>tilesExhausted := True\<rparr>), s')"
      using no True by (simp add: scheduleTile_def Let_def k_def [symmetric] s'_def s1_def)
    ultimately show ?thesis using no True empty
      by (intro exhausted) (auto simp: s'_def s1_def queued_def)
  next
    case False
    define t where "t = handed_out (last (?qs ! k))"
    define s' where "s' = s\<lparr>preferredTiles := ?qs[k := butlast (?qs ! k)]\<rparr>"
    have te: "\<not> tilesExhausted t" by (simp add: t_def handed_out_def)
    have "?qs ! k = butlast (?qs ! k) @ [last (?qs ! k)]" using False by simp
    then have "mset (map handed_out (?qs ! k)) = mset (map handed_out (butlast (?qs ! k) @ [last (?qs ! k)]))"
      by (rule arg_cong)
    then have "mset (map handed_out (?qs ! k)) = add_mset t (mset (map handed_out (butlast (?qs ! k))))"
      by (simp add: t_def)
    moreover have "queued s' + mset (map handed_out (?qs ! k)) = queued s + mset (map handed_out (butlast (?qs ! k)))"
      using sum_list_swap [of k ?qs "\<lambda>q. mset (map handed_out q)" "butlast (?qs ! k)"] k len
      by (simp add: queued_def tasks_of_def s'_def)
    ultimately have q: "queued s = add_mset t (queued s')" by simp
    have "sched_ok nw s'" using ok q by (auto simp: sched_ok_def s'_def)
    moreover have "scheduleTile junk w s = (Some t, s')"
      using no False by (simp add: scheduleTile_def Let_def k_def [symmetric] s'_def t_def handed_out_def)
    ultimately show ?thesis using no te q by (intro task) (simp_all add: s'_def)
  qed
qed

section \<open>The invariant of the system\<close>

definition is_task :: "tile_task \<Rightarrow> bool" where "is_task t \<longleftrightarrow> \<not> tilesExhausted t"

definition slave_ok :: "bool \<Rightarrow> slave \<Rightarrow> bool" where
  "slave_ok notified sl \<longleftrightarrow>
     tilesScheduled sl = int (length (rendering sl) + length (rendered_tiles sl)) \<and>
     (\<forall>t\<in>set (rendering sl) \<union> set (rendered_tiles sl). is_task t) \<and>
     (if \<not> notified then tilesAvailable sl \<and> (\<forall>t\<in>set (inbox sl). is_task t)
      else if tilesAvailable sl then inbox sl \<noteq> [] \<and> \<not> is_task (last (inbox sl)) \<and> (\<forall>t\<in>set (butlast (inbox sl)). is_task t)
      else inbox sl = [])"

definition held :: "slave \<Rightarrow> tile_task multiset" where
  "held sl = mset (filter is_task (inbox sl)) + mset (rendering sl) + mset (rendered_tiles sl)"

definition weight :: "slave \<Rightarrow> nat" where
  "weight sl = (\<Sum>t\<leftarrow>inbox sl. if is_task t then 4 else 1) + 3 * length (rendering sl) + length (rendered_tiles sl)"

definition token :: "dyn \<Rightarrow> nat \<Rightarrow> bool" where
  "token s w \<longleftrightarrow> w \<in> set (preallocating s) \<or> w \<in> set (requests s) \<or>
     inbox (slaves s ! w) \<noteq> [] \<or> rendering (slaves s ! w) \<noteq> []"

definition work_left :: "dyn \<Rightarrow> nat" where
  "work_left s = length (preallocating s) + length (requests s) + 5 * size (queued (sched s)) +
     (\<Sum>sl\<leftarrow>slaves s. weight sl) + 2 * count_list (workerNotified (sched s)) False"

text \<open>A worker that has not been told that the tiles are exhausted has a request, a task
  or an answer somewhere; \<open>X\<close> are workers of which this is not known.\<close>

definition dyn_inv :: "nat \<Rightarrow> tile_task multiset \<Rightarrow> nat set \<Rightarrow> dyn \<Rightarrow> bool" where
  "dyn_inv nw T X s \<longleftrightarrow> sched_ok nw (sched s) \<and> length (slaves s) = nw \<and>
     (\<forall>w\<in>set (preallocating s) \<union> set (requests s). w < nw) \<and>
     (\<forall>w<nw. slave_ok (workerNotified (sched s) ! w) (slaves s ! w)) \<and>
     queued (sched s) + (\<Sum>sl\<leftarrow>slaves s. held sl) + mset (setTiles s) = T \<and>
     (\<forall>w<nw. w \<notin> X \<and> \<not> workerNotified (sched s) ! w \<longrightarrow> token s w)"

lemma dyn_invD:
  assumes "dyn_inv nw T X s"
  shows "sched_ok nw (sched s)" "length (slaves s) = nw"
    "\<And>w. w \<in> set (preallocating s) \<Longrightarrow> w < nw" "\<And>w. w \<in> set (requests s) \<Longrightarrow> w < nw"
    "\<And>w. w < nw \<Longrightarrow> slave_ok (workerNotified (sched s) ! w) (slaves s ! w)"
    "queued (sched s) + (\<Sum>sl\<leftarrow>slaves s. held sl) + mset (setTiles s) = T"
    "\<And>w. w < nw \<Longrightarrow> w \<notin> X \<Longrightarrow> \<not> workerNotified (sched s) ! w \<Longrightarrow> token s w"
  using assms by (auto simp: dyn_inv_def)

lemma count_list_update:
  "w < length bs \<Longrightarrow> \<not> bs ! w \<Longrightarrow> count_list bs False = Suc (count_list (bs[w := True]) False)"
proof (induction bs arbitrary: w)
  case (Cons b bs)
  then show ?case by (cases w) auto
qed simp

lemma answer_step:
  assumes inv: "dyn_inv nw T {w} s" and w: "w < nw"
  shows "dyn_inv nw T {} (answer junk w s) \<and> work_left (answer junk w s) \<le> work_left s"
proof -
  note inv = dyn_invD [OF inv]
  let ?sl = "slaves s ! w"
  have len: "w < length (slaves s)" "w < length (workerNotified (sched s))"
    using w inv(1,2) by (simp_all add: sched_ok_def)
  have ok: "slave_ok (workerNotified (sched s) ! w) ?sl" by (rule inv(5) [OF w])
  from inv(1) w show ?thesis
  proof (cases rule: scheduleTile_cases [where junk = junk])
    case notified
    then have "answer junk w s = s" by (simp add: answer_def)
    then show ?thesis using assms(1) notified(1) by (auto simp: dyn_inv_def)
  next
    case (exhausted t s')
    define sl' where "sl' = ?sl\<lparr>inbox := inbox ?sl @ [t]\<rparr>"
    have ans: "answer junk w s = s\<lparr>sched := s', slaves := (slaves s)[w := sl']\<rparr>"
      using exhausted(1) by (simp add: answer_def sl'_def)
    have "held sl' = held ?sl" "weight sl' = weight ?sl + 1" "slave_ok True sl'"
      using exhausted(2,3) ok by (auto simp: sl'_def held_def weight_def slave_ok_def is_task_def)
    with sum_list_swap [OF len(1), of held sl'] sum_list_swap [OF len(1), of weight sl']
    have sums: "(\<Sum>sl\<leftarrow>(slaves s)[w := sl']. held sl) = (\<Sum>sl\<leftarrow>slaves s. held sl)"
      "(\<Sum>sl\<leftarrow>(slaves s)[w := sl']. weight sl) = (\<Sum>sl\<leftarrow>slaves s. weight sl) + 1" by simp_all
    have "dyn_inv nw T {} (answer junk w s)"
      unfolding ans dyn_inv_def using inv exhausted len sums \<open>slave_ok True sl'\<close>
      by (auto simp: nth_list_update token_def)
    moreover have "work_left (answer junk w s) \<le> work_left s"
      using sums count_list_update [OF len(2) exhausted(3)] exhausted(4,5,6) by (simp add: ans work_left_def)
    ultimately show ?thesis by blast
  next
    case (task t s')
    define sl' where "sl' = ?sl\<lparr>inbox := inbox ?sl @ [t]\<rparr>"
    have ans: "answer junk w s = s\<lparr>sched := s', slaves := (slaves s)[w := sl']\<rparr>"
      using task(1) by (simp add: answer_def sl'_def)
    have "held sl' = add_mset t (held ?sl)" "weight sl' = weight ?sl + 4" "slave_ok False sl'"
      using task(2,3) ok by (auto simp: sl'_def held_def weight_def slave_ok_def is_task_def)
    with sum_list_swap [OF len(1), of held sl'] sum_list_swap [OF len(1), of weight sl']
    have sums: "(\<Sum>sl\<leftarrow>(slaves s)[w := sl']. held sl) = add_mset t (\<Sum>sl\<leftarrow>slaves s. held sl)"
      "(\<Sum>sl\<leftarrow>(slaves s)[w := sl']. weight sl) = (\<Sum>sl\<leftarrow>slaves s. weight sl) + 4" by simp_all
    have tok: "token (answer junk w s) v" if "v < nw" "\<not> workerNotified s' ! v" for v
      using that inv(7) [of v] task len by (cases "v = w") (auto simp: ans token_def sl'_def nth_list_update)
    have oks: "slave_ok (workerNotified s' ! v) ((slaves s)[w := sl'] ! v)" if "v < nw" for v
      using that inv(5) [OF that] task(3,5) len \<open>slave_ok False sl'\<close> by (cases "v = w") simp_all
    have "dyn_inv nw T {} (answer junk w s)"
      using inv task oks sums tok by (auto simp: ans dyn_inv_def)
    moreover have "work_left (answer junk w s) \<le> work_left s"
      using sums task by (simp add: ans work_left_def)
    ultimately show ?thesis by blast
  qed
qed

text \<open>A step of worker \<open>w\<close> on its own: it sends the requests \<open>rs\<close> and sets the tiles \<open>new\<close>.\<close>

lemma slave_step:
  fixes s
  defines "notified \<equiv> \<lambda>w. workerNotified (sched s) ! w"
  assumes inv: "dyn_inv nw T {} s" and w: "w < nw" and rs: "set rs \<subseteq> {w}"
    and ok: "slave_ok (notified w) sl'" and held: "held (slaves s ! w) = held sl' + mset new"
    and less: "weight sl' + length rs < weight (slaves s ! w)"
    and tok: "inbox (slaves s ! w) \<noteq> [] \<or> rendering (slaves s ! w) \<noteq> [] \<Longrightarrow> \<not> notified w \<Longrightarrow>
      rs \<noteq> [] \<or> inbox sl' \<noteq> [] \<or> rendering sl' \<noteq> []"
  defines "s' \<equiv> s\<lparr>slaves := (slaves s)[w := sl'], requests := requests s @ rs, setTiles := setTiles s @ new\<rparr>"
  shows "dyn_inv nw T {} s' \<and> work_left s' < work_left s"
proof -
  note inv = dyn_invD [OF inv]
  have len: "w < length (slaves s)" using w inv(2) by simp
  have "(\<Sum>sl\<leftarrow>(slaves s)[w := sl']. held sl) + mset new + held sl' = (\<Sum>sl\<leftarrow>slaves s. held sl) + held sl'"
    using sum_list_swap [OF len, of held sl'] by (simp add: held ac_simps)
  then have sum_held: "(\<Sum>sl\<leftarrow>(slaves s)[w := sl']. held sl) + mset new = (\<Sum>sl\<leftarrow>slaves s. held sl)" by simp
  have sum_weight: "(\<Sum>sl\<leftarrow>(slaves s)[w := sl']. weight sl) + length rs < (\<Sum>sl\<leftarrow>slaves s. weight sl)"
    using sum_list_swap [OF len, of weight sl'] less by linarith
  have oks: "slave_ok (notified v) ((slaves s)[w := sl'] ! v)" if "v < nw" for v
    using that inv(5) [OF that] ok len by (cases "v = w") (simp_all add: notified_def)
  have toks: "token s' v" if v: "v < nw" "\<not> notified v" for v
  proof -
    have t: "token s v" using inv(7) [OF v(1)] v(2) by (simp add: notified_def)
    show ?thesis
    proof (cases "v = w")
      case True
      then show ?thesis using t tok v(2) rs len by (cases rs) (auto simp: token_def s'_def)
    next
      case False
      then show ?thesis using t by (auto simp: token_def s'_def)
    qed
  qed
  have "queued (sched s) + (\<Sum>sl\<leftarrow>(slaves s)[w := sl']. held sl) + mset (setTiles s @ new) = T"
    unfolding inv(6) [symmetric] sum_held [symmetric] by (simp add: ac_simps)
  moreover have "\<forall>v\<in>set (preallocating s') \<union> set (requests s'). v < nw"
    using inv(3,4) rs w by (auto simp: s'_def)
  ultimately have "dyn_inv nw T {} s'"
    unfolding dyn_inv_def using inv(1,2) oks toks by (simp add: s'_def notified_def)
  moreover have "work_left s' < work_left s" using sum_weight by (simp add: s'_def work_left_def)
  ultimately show ?thesis by blast
qed

lemma mset_remove1_add: "t \<in> set xs \<Longrightarrow> mset xs = add_mset t (mset (remove1 t xs))"
  by simp

lemma length_remove1_Suc: "t \<in> set xs \<Longrightarrow> length xs = Suc (length (remove1 t xs))"
  by (induction xs) auto

lemma dyn_step_inv:
  assumes "dyn_step junk s s'" and inv: "dyn_inv nw T {} s"
  shows "dyn_inv nw T {} s' \<and> work_left s' < work_left s"
  using assms(1)
proof cases
  case (preallocate w ws)
  have w: "w < nw" using dyn_invD(3) [OF inv, of w] preallocate by simp
  have "dyn_inv nw T {w} (s\<lparr>preallocating := ws\<rparr>)"
    using inv preallocate by (auto simp: dyn_inv_def token_def)
  from answer_step [OF this w] preallocate show ?thesis by (simp add: work_left_def) (metis le_imp_less_Suc)
next
  case (request w)
  have w: "w < nw" using dyn_invD(4) [OF inv] request by simp
  have "dyn_inv nw T {w} (s\<lparr>requests := remove1 w (requests s)\<rparr>)"
    using inv by (auto simp: dyn_inv_def token_def dest: notin_set_remove1 in_set_remove1 [THEN iffD2, rotated])
  moreover have "work_left (s\<lparr>requests := remove1 w (requests s)\<rparr>) < work_left s"
    using length_remove1_Suc [OF request(2)] by (simp add: work_left_def)
  ultimately show ?thesis unfolding request(1) using answer_step [OF _ w] by (metis le_less_trans)
next
  case (receive w t ts)
  have w: "w < nw" using receive dyn_invD(2) [OF inv] by simp
  let ?sl = "slaves s ! w" and ?n = "workerNotified (sched s) ! w"
  define sl' where "sl' = slave_incoming t (?sl\<lparr>inbox := ts\<rparr>)"
  have ok: "slave_ok ?n ?sl" by (rule dyn_invD(5) [OF inv w])
  have "slave_ok ?n sl' \<and> held ?sl = held sl' + mset [] \<and> weight sl' + length ([] :: nat list) < weight ?sl \<and>
      (\<not> ?n \<longrightarrow> inbox sl' \<noteq> [] \<or> rendering sl' \<noteq> [])"
    using ok receive(3)
    by (cases "is_task t"; cases ts rule: rev_cases)
       (auto simp: sl'_def slave_incoming_def slave_ok_def held_def weight_def is_task_def split: if_splits)
  with slave_step [OF inv w, of "[]" sl' "[]"] receive(1) show ?thesis by (simp add: sl'_def)
next
  case (render w t)
  have w: "w < nw" using render dyn_invD(2) [OF inv] by simp
  let ?sl = "slaves s ! w" and ?n = "workerNotified (sched s) ! w"
  define sl' where "sl' = ?sl\<lparr>rendering := remove1 t (rendering ?sl), rendered_tiles := rendered_tiles ?sl @ [t]\<rparr>"
  define rs where "rs = (if tilesAvailable ?sl then [w] else [])"
  have ok: "slave_ok ?n ?sl" by (rule dyn_invD(5) [OF inv w])
  have "slave_ok ?n sl'" using ok length_remove1_Suc [OF render(3)] render(3)
    by (auto simp: sl'_def slave_ok_def dest: subsetD [OF set_remove1_subset])
  moreover have "held ?sl = held sl' + mset []" using render(3) by (simp add: sl'_def held_def)
  moreover have "weight sl' + length rs < weight ?sl"
    using length_remove1_Suc [OF render(3)] by (simp add: sl'_def weight_def rs_def)
  moreover have "\<not> ?n \<Longrightarrow> rs \<noteq> []" using ok by (simp add: rs_def slave_ok_def)
  ultimately show ?thesis using slave_step [OF inv w, of rs sl' "[]"] render(1)
    by (auto simp: sl'_def rs_def)
next
  case (set_tile w t)
  have w: "w < nw" using set_tile dyn_invD(2) [OF inv] by simp
  let ?sl = "slaves s ! w" and ?n = "workerNotified (sched s) ! w"
  define sl' where "sl' = ?sl\<lparr>rendered_tiles := remove1 t (rendered_tiles ?sl), tilesScheduled := tilesScheduled ?sl - 1\<rparr>"
  have ok: "slave_ok ?n ?sl" by (rule dyn_invD(5) [OF inv w])
  have "slave_ok ?n sl'" using ok length_remove1_Suc [OF set_tile(3)] set_tile(3)
    by (auto simp: sl'_def slave_ok_def dest: subsetD [OF set_remove1_subset])
  moreover have "held ?sl = held sl' + mset [t]" using set_tile(3) by (simp add: sl'_def held_def)
  moreover have "weight sl' + length ([] :: nat list) < weight ?sl"
    using length_remove1_Suc [OF set_tile(3)] by (simp add: sl'_def weight_def)
  moreover have "inbox ?sl \<noteq> [] \<or> rendering ?sl \<noteq> [] \<Longrightarrow> inbox sl' \<noteq> [] \<or> rendering sl' \<noteq> []"
    by (simp add: sl'_def)
  ultimately show ?thesis using slave_step [OF inv w, of "[]" sl' "[t]"] set_tile(1)
    by (auto simp: sl'_def)
qed

lemma dyn_start_inv:
  assumes "0 < nw" and "0 < np" and "length qs = nw"
  shows "dyn_inv nw (tasks_of qs) {} (dyn_start np nw qs)"
    and "work_left (dyn_start np nw qs) = np * nw + 5 * size (tasks_of qs) + 2 * nw"
proof -
  have zero: "(\<Sum>sl\<leftarrow>replicate n slave_start. f sl) = 0" if "f slave_start = 0"
    for f :: "slave \<Rightarrow> 'b::comm_monoid_add" and n
    using that by (induction n) simp_all
  have "held slave_start = {#}" "weight slave_start = 0" by (simp_all add: held_def weight_def slave_start_def)
  note sums = zero [of held, OF this(1)] zero [of weight, OF this(2)]
  have pre: "set (concat (replicate np [0..<nw])) = {0..<nw}" using assms(2) by (auto simp: set_replicate_conv_if)
  have len: "length (concat (replicate np [0..<nw])) = np * nw" by (simp add: length_concat sum_list_replicate)
  have count: "count_list (replicate n False) False = n" for n by (induction n) simp_all
  show "dyn_inv nw (tasks_of qs) {} (dyn_start np nw qs)"
    using assms sums pre
    by (auto simp: dyn_inv_def dyn_start_def sched_ok_def queued_def slave_ok_def slave_start_def token_def)
  show "work_left (dyn_start np nw qs) = np * nw + 5 * size (tasks_of qs) + 2 * nw"
    using sums len count by (simp add: work_left_def dyn_start_def queued_def)
qed

lemma dyn_steps_inv:
  assumes "dyn_steps junk s0 n s" and "dyn_inv nw T {} s0"
  shows "dyn_inv nw T {} s \<and> n + work_left s \<le> work_left s0"
  using assms(1)
proof induction
  case (step n s s')
  with dyn_step_inv [of junk s s' nw T] show ?case by auto
qed (simp add: assms(2))

lemma stuck_is_finished:
  assumes inv: "dyn_inv nw T {} s" and nw: "0 < nw" and stuck: "\<forall>s'. \<not> dyn_step junk s s'"
  shows "mset (setTiles s) = T \<and> closedFrames (sched s) = 1 \<and> (\<forall>sl\<in>set (slaves s). \<not> slave_waits sl)"
proof -
  note inv = dyn_invD [OF inv]
  have pre: "preallocating s = []"
    using stuck dyn_step.preallocate [of s _ _ junk] by (cases "preallocating s") blast+
  have req: "requests s = []" using stuck dyn_step.request [of _ s junk] by (cases "requests s") (force+)
  have idle: "inbox (slaves s ! w) = [] \<and> rendering (slaves s ! w) = [] \<and> rendered_tiles (slaves s ! w) = []"
    if "w < nw" for w
  proof (intro conjI)
    have w: "w < length (slaves s)" using that inv(2) by simp
    show "inbox (slaves s ! w) = []"
      using stuck dyn_step.receive [OF w, of _ _ junk] by (cases "inbox (slaves s ! w)") blast+
    show "rendering (slaves s ! w) = []"
      using stuck dyn_step.render [OF w, of _ junk] by (metis list.set_intros(1) neq_Nil_conv)
    show "rendered_tiles (slaves s ! w) = []"
      using stuck dyn_step.set_tile [OF w, of _ junk] by (metis list.set_intros(1) neq_Nil_conv)
  qed
  have told: "workerNotified (sched s) ! w" if "w < nw" for w
    using inv(7) [OF that] idle [OF that] pre req by (auto simp: token_def)
  have all: "\<forall>b\<in>set (workerNotified (sched s)). b"
    using told inv(1) by (auto simp: in_set_conv_nth sched_ok_def)
  moreover have "workerNotified (sched s) ! 0 \<in> set (workerNotified (sched s))"
    using inv(1) nw by (intro nth_mem) (simp add: sched_ok_def)
  ultimately have "True \<in> set (workerNotified (sched s))" "False \<notin> set (workerNotified (sched s))"
    using told [OF nw] by auto
  then have closed: "queued (sched s) = {#}" "closedFrames (sched s) = 1" using inv(1) by (auto simp: sched_ok_def)
  have sl: "held sl = {#} \<and> \<not> slave_waits sl" if "sl \<in> set (slaves s)" for sl
  proof -
    from that obtain w where w: "w < nw" "sl = slaves s ! w" unfolding in_set_conv_nth inv(2) by blast
    show ?thesis using inv(5) [OF w(1)] idle [OF w(1)] told [OF w(1)] w(2)
      by (auto simp: held_def slave_waits_def slave_ok_def split: if_splits)
  qed
  have "(\<Sum>sl\<leftarrow>sls. held sl) = {#}" if "set sls \<subseteq> set (slaves s)" for sls
    using that sl by (induction sls) auto
  then have "(\<Sum>sl\<leftarrow>slaves s. held sl) = {#}" by simp
  then have "mset (setTiles s) = T" using inv(6) closed(1) by simp
  with closed(2) sl show ?thesis by blast
qed

text \<open>C3 The dynamic load balancer ends its frames.  For any queues of tasks, any number of
  workers and of tasks handed out in advance (at least one of each), and every order of
  the messages and of the threads in which the answers to one worker stay in order: a run makes a bounded number of steps; no task is rendered twice; the master closes
  the frame at most once, after it has handed out all tasks; and a run that has no step
  left has set the tile of every task exactly once, has closed the frame, and no worker
  is left waiting in \<open>renderFrame\<close> for tasks of its own.\<close>

theorem dynamic_frame_ends:
  assumes "0 < nw" and "0 < np" and "length qs = nw"
    and "dyn_steps junk (dyn_start np nw qs) n s"
  shows "n \<le> np * nw + 5 * size (tasks_of qs) + 2 * nw \<and>
    mset (setTiles s) \<subseteq># (tasks_of qs) \<and>
    closedFrames (sched s) \<le> 1 \<and> (closedFrames (sched s) = 1 \<longrightarrow> queued (sched s) = {#}) \<and>
    ((\<forall>s'. \<not> dyn_step junk s s') \<longrightarrow> mset (setTiles s) = (tasks_of qs) \<and> closedFrames (sched s) = 1 \<and>
      (\<forall>sl\<in>set (slaves s). \<not> slave_waits sl))"
proof -
  from dyn_steps_inv [OF assms(4) dyn_start_inv(1) [OF assms(1-3)]]
  have inv: "dyn_inv nw (tasks_of qs) {} s" and n: "n + work_left s \<le> work_left (dyn_start np nw qs)" by blast+
  have ok: "sched_ok nw (sched s)" by (rule dyn_invD(1) [OF inv])
  then have "workerNotified (sched s) \<noteq> []" using assms(1) by (auto simp: sched_ok_def)
  then have "closedFrames (sched s) \<le> 1 \<and> (closedFrames (sched s) = 1 \<longrightarrow> queued (sched s) = {#})"
    using ok by (cases "workerNotified (sched s)") (auto simp: sched_ok_def split: if_splits)
  moreover have "mset (setTiles s) \<subseteq># (tasks_of qs)"
    using dyn_invD(6) [OF inv] by (metis mset_subset_eq_add_right)
  ultimately show ?thesis
    using n dyn_start_inv(2) [OF assms(1-3)] stuck_is_finished [OF inv assms(1)] by auto
qed

text \<open>The order of the answers matters: a task that overtakes the exhausted answer is
  counted but never rendered, and the worker waits for it.\<close>

lemma overtaken_task_lost:
  assumes "tilesExhausted e" and "\<not> tilesExhausted t" and "tilesScheduled sl = int n"
  shows "rendering (slave_incoming t (slave_incoming e sl)) = rendering sl \<and>
    tilesScheduled (slave_incoming t (slave_incoming e sl)) = int n + 1 \<and>
    slave_waits (slave_incoming t (slave_incoming e sl))"
  using assms by (simp add: slave_incoming_def Let_def slave_waits_def)

definition one_task :: tile_task where
  "one_task = \<lparr>task_tileId = (0, 0), task_accumId = 0, tilesExhausted = False\<rparr>"

definition one_done :: dyn where
  "one_done = \<lparr>sched = \<lparr>preferredTiles = [[]], workerNotified = [True], closedFrames = 1\<rparr>,
     slaves = [slave_start\<lparr>tilesAvailable := False\<rparr>], preallocating = [], requests = [], setTiles = [one_task]\<rparr>"

lemma one_run: "dyn_steps one_task (dyn_start 1 1 [[one_task]]) 6 one_done"
proof -
  let ?step = "dyn_step one_task"
  let ?s = "\<lambda>sc sl rq st. \<lparr>sched = sc, slaves = [sl], preallocating = [], requests = rq, setTiles = st\<rparr>"
  let ?open = "\<lparr>preferredTiles = [[]], workerNotified = [False], closedFrames = 0\<rparr>"
  let ?shut = "\<lparr>preferredTiles = [[]], workerNotified = [True], closedFrames = 1\<rparr>"
  let ?last = "one_task\<lparr>tilesExhausted := True\<rparr>"
  note defs = answer_def scheduleTile_def dyn_start_def slave_start_def max_element_def slave_incoming_def Let_def
    one_task_def one_done_def
  let ?s1 = "?s ?open (slave_start\<lparr>inbox := [one_task]\<rparr>) [] []"
  let ?s2 = "?s ?open (slave_start\<lparr>tilesScheduled := 1, rendering := [one_task]\<rparr>) [] []"
  let ?s3 = "?s ?open (slave_start\<lparr>tilesScheduled := 1, rendered_tiles := [one_task]\<rparr>) [0] []"
  let ?s4 = "?s ?open slave_start [0] [one_task]"
  let ?s5 = "?s ?shut (slave_start\<lparr>inbox := [?last]\<rparr>) [] [one_task]"
  have "?step (dyn_start 1 1 [[one_task]]) ?s1"
    using dyn_step.preallocate [of "dyn_start 1 1 [[one_task]]" 0 "[]" one_task] by (simp add: defs)
  moreover have "?step ?s1 ?s2" using dyn_step.receive [of 0 ?s1 one_task "[]" one_task] by (simp add: defs)
  moreover have "?step ?s2 ?s3" using dyn_step.render [of 0 ?s2 one_task one_task] by (simp add: defs)
  moreover have "?step ?s3 ?s4" using dyn_step.set_tile [of 0 ?s3 one_task one_task] by (simp add: defs)
  moreover have "?step ?s4 ?s5" using dyn_step.request [of 0 ?s4 one_task] by (simp add: defs)
  moreover have "?step ?s5 one_done" using dyn_step.receive [of 0 ?s5 ?last "[]" one_task] by (simp add: defs)
  ultimately have "dyn_steps one_task (dyn_start 1 1 [[one_task]]) (Suc (Suc (Suc (Suc (Suc (Suc 0)))))) one_done"
    by (blast intro: dyn_steps.intros)
  then show ?thesis by (simp add: numeral_eq_Suc)
qed

theorem dynamic_frame_ends_witness:
  "(6 :: nat) \<le> 1 * 1 + 5 * size {#one_task#} + 2 * 1 \<and> mset (setTiles one_done) \<subseteq># {#one_task#} \<and>
   queued (sched one_done) = {#}"
  using dynamic_frame_ends [OF _ _ _ one_run] by (simp add: tasks_of_def handed_out_def one_task_def one_done_def)

end
