(* ===== verification/TileTypes.thy ===== *)
theory TileTypes
  imports Tiles "HOL-Library.Multiset"
begin

text \<open>
  The tiles of the distributed frame buffer
  (\<open>modules/mpi/fb/DistributedFrameBuffer_TileTypes.cpp\<close>): what the owner of a tile does
  with the parts of it that arrive from the ranks that render it.  \<open>process\<close> is one step:
  its bookkeeping is done under the mutex of the tile.  The kernels that add pixels are
  not run; the model records which parts each of them is given, and the calls of
  \<open>DFB::tileIsCompleted\<close>.
\<close>

section \<open>The contract of a tile\<close>

text \<open>\<open>parts i s M\<close> says that \<open>M\<close> are the parts a tile in state \<open>s\<close> is to get in a frame,
  where \<open>i\<close> is the number of instances of it that the frame buffer expects.  Whatever order
  they come in, the tile is completed by the last one, and not before.\<close>

locale dfb_tile =
  fixes newFrame :: "nat \<Rightarrow> 's \<Rightarrow> 's"
    and process :: "'p tile \<Rightarrow> 's \<Rightarrow> 's"
    and completed :: "'s \<Rightarrow> nat"
    and ready :: "'s \<Rightarrow> bool"
    and parts :: "nat \<Rightarrow> 's \<Rightarrow> 'p tile multiset \<Rightarrow> bool"
  assumes completes: "ready s \<Longrightarrow> parts i s M \<Longrightarrow> mset ts \<subseteq># M \<Longrightarrow>
      completed (fold process ts (newFrame i s)) = completed s + (if mset ts = M then 1 else 0)"
    and stays_ready: "ready s \<Longrightarrow> parts i s M \<Longrightarrow> mset ts = M \<Longrightarrow> ready (fold process ts (newFrame i s))"
    and some_part: "parts i s M \<Longrightarrow> M \<noteq> {#}"

section \<open>AlphaBlendTile\_simple\<close>

record 'p alpha_tile =
  bufferedTile :: "'p tile list"
  currentGeneration :: int
  expectedInNextGeneration :: int
  missingInCurrentGeneration :: int
  alpha_errors :: nat
  blended :: "'p tile list list"

definition AlphaBlendTile_newFrame :: "'p alpha_tile \<Rightarrow> 'p alpha_tile" where
  "AlphaBlendTile_newFrame t =
     t\<lparr>currentGeneration := 0, expectedInNextGeneration := 0, missingInCurrentGeneration := 1\<rparr>"

text \<open>\<open>handleError\<close> reports and returns.\<close>

definition check_missing :: "'p alpha_tile \<Rightarrow> 'p alpha_tile" where
  "check_missing t = (if missingInCurrentGeneration t < 0 then t\<lparr>alpha_errors := alpha_errors t + 1\<rparr> else t)"

definition count_part :: "'p tile \<Rightarrow> 'p alpha_tile \<Rightarrow> 'p alpha_tile" where
  "count_part p t = t\<lparr>missingInCurrentGeneration := missingInCurrentGeneration t - 1,
     expectedInNextGeneration := expectedInNextGeneration t + children p\<rparr>"

definition scan_part :: "'p tile \<Rightarrow> 'p alpha_tile \<Rightarrow> 'p alpha_tile" where
  "scan_part p t = check_missing (if generation p = currentGeneration t then count_part p t else t)"

definition next_generation :: "'p alpha_tile \<Rightarrow> 'p alpha_tile" where
  "next_generation t = fold scan_part (bufferedTile t)
     (t\<lparr>currentGeneration := currentGeneration t + 1,
        missingInCurrentGeneration := expectedInNextGeneration t, expectedInNextGeneration := 0\<rparr>)"

definition count_gen :: "int \<Rightarrow> 'p tile list \<Rightarrow> nat" where
  "count_gen g ps = length (filter (\<lambda>p. generation p = g) ps)"

definition kids_gen :: "int \<Rightarrow> 'p tile list \<Rightarrow> int" where
  "kids_gen g ps = (\<Sum>p\<leftarrow>filter (\<lambda>p. generation p = g) ps. children p)"

lemma scan_parts_effect:
  "currentGeneration (fold scan_part ps t) = currentGeneration t \<and>
   bufferedTile (fold scan_part ps t) = bufferedTile t \<and> blended (fold scan_part ps t) = blended t \<and>
   missingInCurrentGeneration (fold scan_part ps t) =
     missingInCurrentGeneration t - int (count_gen (currentGeneration t) ps) \<and>
   expectedInNextGeneration (fold scan_part ps t) =
     expectedInNextGeneration t + kids_gen (currentGeneration t) ps"
  by (induction ps arbitrary: t)
     (auto simp: scan_part_def count_part_def check_missing_def count_gen_def kids_gen_def)

lemma next_generation_effect:
  "currentGeneration (next_generation t) = currentGeneration t + 1"
  "bufferedTile (next_generation t) = bufferedTile t" "blended (next_generation t) = blended t"
  "missingInCurrentGeneration (next_generation t) =
     expectedInNextGeneration t - int (count_gen (currentGeneration t + 1) (bufferedTile t))"
  "expectedInNextGeneration (next_generation t) = kids_gen (currentGeneration t + 1) (bufferedTile t)"
  by (simp_all add: next_generation_def scan_parts_effect)

definition later_parts :: "'p alpha_tile \<Rightarrow> nat" where
  "later_parts t = length (filter (\<lambda>p. currentGeneration t < generation p) (bufferedTile t))"

lemma later_parts_next:
  "later_parts t = later_parts (next_generation t) + count_gen (currentGeneration t + 1) (bufferedTile t)"
proof -
  have "length (filter (\<lambda>p. g < generation p) ps) =
    length (filter (\<lambda>p. g + 1 < generation p) ps) + length (filter (\<lambda>p. generation p = g + 1) ps)"
    for g and ps :: "'a tile list"
    by (induction ps) auto
  from this [of "currentGeneration t" "bufferedTile t"] show ?thesis
    by (simp only: later_parts_def count_gen_def next_generation_effect)
qed

function generations :: "'p alpha_tile \<Rightarrow> 'p alpha_tile" where
  "generations t =
    (if missingInCurrentGeneration t = 0 \<and> expectedInNextGeneration t > 0
     then generations (next_generation t) else t)"
  by pat_completeness auto
termination
proof (relation "measure (\<lambda>t. later_parts t +
    (if missingInCurrentGeneration t = 0 \<and> expectedInNextGeneration t > 0 then 1 else 0))")
  fix t :: "'p alpha_tile"
  assume t: "missingInCurrentGeneration t = 0 \<and> expectedInNextGeneration t > 0"
  then show "(next_generation t, t) \<in> measure (\<lambda>t. later_parts t +
    (if missingInCurrentGeneration t = 0 \<and> expectedInNextGeneration t > 0 then 1 else 0))"
    using later_parts_next [of t] by (auto simp: next_generation_effect)
qed simp

declare generations.simps [simp del]

text \<open>The parts are ordered by decreasing \<open>sortOrder\<close>, as the comparison in the code has it.
  \<open>std::sort\<close> leaves open how parts of equal order are arranged; here they keep the order they came in.\<close>

definition AlphaBlendTile_process :: "'p tile \<Rightarrow> 'p alpha_tile \<Rightarrow> 'p alpha_tile" where
  "AlphaBlendTile_process p t =
    (let t1 = t\<lparr>bufferedTile := bufferedTile t @ [p]\<rparr>;
         t2 = (if generation p = currentGeneration t1
           then generations (check_missing (count_part p t1)) else t1);
         t3 = check_missing t2
     in if missingInCurrentGeneration t3 = 0
        then t3\<lparr>blended := blended t3 @ [sort_key (\<lambda>p. - sortOrder p) (bufferedTile t3)], bufferedTile := []\<rparr>
        else t3)"

text \<open>The parts of a tile are the nodes of a forest with one root: each part says how
  many there are in the next generation because of it.\<close>

definition gen_count :: "int \<Rightarrow> 'p tile multiset \<Rightarrow> int" where
  "gen_count g M = int (size (filter_mset (\<lambda>p. generation p = g) M))"

definition gen_kids :: "int \<Rightarrow> 'p tile multiset \<Rightarrow> int" where
  "gen_kids g M = (\<Sum>p\<in>#filter_mset (\<lambda>p. generation p = g) M. children p)"

definition all_generations :: "'p tile multiset \<Rightarrow> bool" where
  "all_generations M \<longleftrightarrow> (\<forall>p\<in>#M. 0 \<le> generation p) \<and> gen_count 0 M = 1 \<and>
     (\<forall>g\<ge>0. gen_count (g + 1) M = gen_kids g M)"

lemma gen_count_list: "int (count_gen g ps) = gen_count g (mset ps)"
  by (simp add: count_gen_def gen_count_def flip: mset_filter)

lemma gen_kids_list: "kids_gen g ps = gen_kids g (mset ps)"
  by (simp add: kids_gen_def gen_kids_def flip: mset_filter mset_map sum_mset_sum_list)

lemma gen_count_mono: "P \<subseteq># M \<Longrightarrow> gen_count g P \<le> gen_count g M"
  by (simp add: gen_count_def size_mset_mono multiset_filter_mono)

lemma gen_complete:
  assumes "P \<subseteq># M" and "gen_count g P = gen_count g M"
  shows "filter_mset (\<lambda>p. generation p = g) P = filter_mset (\<lambda>p. generation p = g) M"
proof -
  have sub: "filter_mset (\<lambda>p. generation p = g) P \<subseteq># filter_mset (\<lambda>p. generation p = g) M"
    by (rule multiset_filter_mono [OF assms(1)])
  moreover have "size (filter_mset (\<lambda>p. generation p = g) P) = size (filter_mset (\<lambda>p. generation p = g) M)"
    using assms(2) by (simp add: gen_count_def)
  ultimately show ?thesis by (metis mset_subset_size nless_le subset_mset.le_neq_trans)
qed

lemma no_later_parts:
  assumes "all_generations M" and "gen_count h M = 0" and "0 \<le> h"
  shows "gen_count (h + int n) M = 0"
proof (induction n)
  case (Suc n)
  then have none: "filter_mset (\<lambda>p. generation p = h + int n) M = {#}"
    unfolding gen_count_def of_nat_eq_0_iff size_eq_0_iff_empty .
  have "gen_kids (h + int n) M = 0" unfolding gen_kids_def none by simp
  moreover have "gen_count (h + int n + 1) M = gen_kids (h + int n) M"
    using assms(1,3) by (simp add: all_generations_def)
  ultimately show ?case by (simp add: algebra_simps)
qed (simp add: assms(2))

lemma missing_part:
  assumes "P \<subseteq># M" and "P \<noteq> M"
  obtains p R where "M = add_mset p (P + R)"
proof -
  have "M - P \<noteq> {#}" using assms by (auto simp: Diff_eq_empty_iff_mset)
  then obtain p R where "M - P = add_mset p R" by (metis multiset_cases)
  then have "M = add_mset p (P + R)" using assms(1) by (metis subset_mset.add_diff_inverse union_mset_add_mset_right)
  then show ?thesis by (rule that)
qed

lemma gen_count_add [simp]:
  "gen_count g (add_mset p M) = gen_count g M + (if generation p = g then 1 else 0)"
  "gen_count g (M + N) = gen_count g M + gen_count g N"
  by (simp_all add: gen_count_def)

lemma gen_kids_add [simp]:
  "gen_kids g (add_mset p M) = gen_kids g M + (if generation p = g then children p else 0)"
  by (simp add: gen_kids_def)

lemma gen_count_ge_0 [simp]: "0 \<le> gen_count g M"
  by (simp add: gen_count_def)

lemma all_parts_here:
  assumes M: "all_generations M" "P \<subseteq># M" and g: "0 \<le> g"
    and upto: "\<And>h. 0 \<le> h \<Longrightarrow> h \<le> g \<Longrightarrow> gen_count h P = gen_count h M"
    and after: "gen_count (g + 1) M = 0"
  shows "P = M"
proof (rule ccontr)
  assume "P \<noteq> M"
  with M(2) obtain p R where p: "M = add_mset p (P + R)" by (rule missing_part)
  have h: "0 \<le> generation p" using M(1) p by (simp add: all_generations_def)
  have gt: "gen_count (generation p) P < gen_count (generation p) M" using p by (simp add: add.commute add_strict_increasing)
  show False
  proof (cases "generation p \<le> g")
    case True
    with upto [OF h True] gt show ?thesis by simp
  next
    case False
    then have "generation p = g + 1 + int (nat (generation p - g - 1))" by simp
    with no_later_parts [OF M(1) after, of "nat (generation p - g - 1)"] g
    have "gen_count (generation p) M = 0" by simp
    with gt show ?thesis using gen_count_ge_0 [of "generation p" P] by linarith
  qed
qed

text \<open>The state of the tile when the parts \<open>P\<close> have arrived: all generations before the
  current one are complete, and the counters say what is missing of the current one.\<close>

definition alpha_inv :: "'p tile multiset \<Rightarrow> 'p alpha_tile \<Rightarrow> bool" where
  "alpha_inv M t \<longleftrightarrow> (let P = mset (bufferedTile t); g = currentGeneration t in
     P \<subseteq># M \<and> 0 \<le> g \<and> missingInCurrentGeneration t = gen_count g M - gen_count g P \<and>
     expectedInNextGeneration t = gen_kids g P \<and> (\<forall>h. 0 \<le> h \<and> h < g \<longrightarrow> gen_count h P = gen_count h M))"

lemma alpha_invD:
  assumes "alpha_inv M t"
  shows "mset (bufferedTile t) \<subseteq># M" "0 \<le> currentGeneration t"
    "missingInCurrentGeneration t = gen_count (currentGeneration t) M - gen_count (currentGeneration t) (mset (bufferedTile t))"
    "expectedInNextGeneration t = gen_kids (currentGeneration t) (mset (bufferedTile t))"
    "\<And>h. 0 \<le> h \<Longrightarrow> h < currentGeneration t \<Longrightarrow> gen_count h (mset (bufferedTile t)) = gen_count h M"
  using assms by (auto simp: alpha_inv_def Let_def)

lemma alpha_missing_ge_0: "alpha_inv M t \<Longrightarrow> 0 \<le> missingInCurrentGeneration t"
  using alpha_invD(3) gen_count_mono [OF alpha_invD(1)] by fastforce

lemma current_kids:
  assumes "all_generations M" and inv: "alpha_inv M t" and "missingInCurrentGeneration t = 0"
  shows "expectedInNextGeneration t = gen_count (currentGeneration t + 1) M"
proof -
  have "gen_count (currentGeneration t) (mset (bufferedTile t)) = gen_count (currentGeneration t) M"
    using alpha_invD(3) [OF inv] assms(3) by simp
  then have "gen_kids (currentGeneration t) (mset (bufferedTile t)) = gen_kids (currentGeneration t) M"
    using gen_complete [OF alpha_invD(1) [OF inv]] by (simp add: gen_kids_def)
  then show ?thesis using assms(1) alpha_invD(2,4) [OF inv] by (simp add: all_generations_def)
qed

lemma scan_errors:
  "int (count_gen (currentGeneration t) ps) \<le> missingInCurrentGeneration t \<Longrightarrow>
   alpha_errors (fold scan_part ps t) = alpha_errors t"
proof (induction ps arbitrary: t)
  case (Cons p ps)
  then show ?case using Cons.IH [of "scan_part p t"]
    by (auto simp: scan_part_def count_part_def check_missing_def count_gen_def)
qed simp

lemma next_generation_inv:
  assumes M: "all_generations M" and inv: "alpha_inv M t" and "missingInCurrentGeneration t = 0"
  shows "alpha_inv M (next_generation t)" "alpha_errors (next_generation t) = alpha_errors t"
proof -
  let ?P = "mset (bufferedTile t)" and ?g = "currentGeneration t"
  have kids: "expectedInNextGeneration t = gen_count (?g + 1) M" by (rule current_kids [OF assms])
  have eq: "gen_count ?g ?P = gen_count ?g M" using alpha_invD(3) [OF inv] assms(3) by simp
  have "gen_count h ?P = gen_count h M" if "0 \<le> h" "h < ?g + 1" for h
    using alpha_invD(5) [OF inv, of h] eq that by (cases "h = ?g") auto
  with alpha_invD(1,2) [OF inv] kids show "alpha_inv M (next_generation t)"
    by (simp add: alpha_inv_def Let_def next_generation_effect gen_count_list gen_kids_list)
  show "alpha_errors (next_generation t) = alpha_errors t"
    unfolding next_generation_def
    by (subst scan_errors) (simp_all add: gen_count_list kids gen_count_mono [OF alpha_invD(1) [OF inv]])
qed

lemma generations_inv:
  assumes M: "all_generations M"
  shows "alpha_inv M t \<Longrightarrow> alpha_inv M (generations t) \<and> alpha_errors (generations t) = alpha_errors t \<and>
    bufferedTile (generations t) = bufferedTile t \<and> blended (generations t) = blended t \<and>
    (missingInCurrentGeneration (generations t) = 0 \<longleftrightarrow> mset (bufferedTile t) = M)"
proof (induction t rule: generations.induct)
  case (1 t)
  show ?case
  proof (cases "missingInCurrentGeneration t = 0 \<and> expectedInNextGeneration t > 0")
    case True
    with 1 next_generation_inv [OF M, of t] show ?thesis
      by (subst (1 2 3 4 5) generations.simps) (simp add: next_generation_effect)
  next
    case False
    then have eq: "generations t = t" by (subst generations.simps) (rule if_not_P)
    note inv = alpha_invD [OF 1(2)]
    have "mset (bufferedTile t) = M" if "missingInCurrentGeneration t = 0"
    proof (rule all_parts_here [OF M inv(1,2)])
      show "gen_count (currentGeneration t + 1) M = 0"
        using current_kids [OF M 1(2) that] False that gen_count_ge_0 [of "currentGeneration t + 1" M] by linarith
      show "gen_count h (mset (bufferedTile t)) = gen_count h M" if "0 \<le> h" "h \<le> currentGeneration t" for h
        using inv(3,5) that \<open>missingInCurrentGeneration t = 0\<close> by (cases "h = currentGeneration t") auto
    qed
    then show ?thesis using 1(2) inv(3) by (auto simp: eq)
  qed
qed

text \<open>One more part of an unfinished tile.\<close>

definition alpha_waiting :: "'p tile multiset \<Rightarrow> 'p alpha_tile \<Rightarrow> bool" where
  "alpha_waiting M t \<longleftrightarrow> alpha_inv M t \<and> 0 < missingInCurrentGeneration t"

lemma waiting_not_all: "alpha_waiting M t \<Longrightarrow> mset (bufferedTile t) \<noteq> M"
  unfolding alpha_waiting_def by (auto dest: alpha_invD(3))

lemma arrive_inv:
  assumes "alpha_waiting M t" and sub: "add_mset p (mset (bufferedTile t)) \<subseteq># M" and M: "all_generations M"
  defines "t1 \<equiv> t\<lparr>bufferedTile := bufferedTile t @ [p]\<rparr>"
  shows "generation p = currentGeneration t \<Longrightarrow> alpha_inv M (check_missing (count_part p t1)) \<and>
      alpha_errors (check_missing (count_part p t1)) = alpha_errors t"
    and "generation p \<noteq> currentGeneration t \<Longrightarrow> alpha_waiting M t1"
proof -
  have "alpha_inv M t" using assms(1) by (simp add: alpha_waiting_def)
  note inv = alpha_invD [OF this]
  have mono: "gen_count h (mset (bufferedTile t)) + (if generation p = h then 1 else 0) \<le> gen_count h M" for h
    using gen_count_mono [OF sub, of h] by simp
  have later: "currentGeneration t \<le> generation p"
  proof (rule ccontr)
    assume "\<not> currentGeneration t \<le> generation p"
    moreover have "0 \<le> generation p"
      using M mset_subset_eqD [OF sub, of p] by (auto simp: all_generations_def)
    ultimately show False using inv(5) [of "generation p"] mono [of "generation p"] by simp
  qed
  { assume g: "generation p = currentGeneration t"
    have "check_missing (count_part p t1) = count_part p t1"
      using assms(1) by (simp add: check_missing_def count_part_def t1_def alpha_waiting_def)
    then show "alpha_inv M (check_missing (count_part p t1)) \<and>
        alpha_errors (check_missing (count_part p t1)) = alpha_errors t"
      using sub inv g by (simp add: alpha_inv_def Let_def count_part_def t1_def) }
  { assume g: "generation p \<noteq> currentGeneration t"
    then show "alpha_waiting M t1"
      using sub inv assms(1) later by (simp add: alpha_waiting_def alpha_inv_def Let_def t1_def) }
qed

lemma process_waiting:
  assumes t: "alpha_waiting M t" and sub: "add_mset p (mset (bufferedTile t)) \<subseteq># M" and M: "all_generations M"
  defines "ps \<equiv> bufferedTile t @ [p]" and "t' \<equiv> AlphaBlendTile_process p t"
  shows "alpha_errors t' = alpha_errors t \<and>
    (if mset ps = M
     then bufferedTile t' = [] \<and> blended t' = blended t @ [sort_key (\<lambda>p. - sortOrder p) ps]
     else alpha_waiting M t' \<and> bufferedTile t' = ps \<and> blended t' = blended t)"
proof -
  let ?t1 = "t\<lparr>bufferedTile := ps\<rparr>"
  define t2 where "t2 = (if generation p = currentGeneration t
    then generations (check_missing (count_part p ?t1)) else ?t1)"
  note arrive = arrive_inv [OF t sub M, folded ps_def]
  have t2: "alpha_inv M t2 \<and> alpha_errors t2 = alpha_errors t \<and> bufferedTile t2 = ps \<and> blended t2 = blended t \<and>
      (missingInCurrentGeneration t2 = 0 \<longleftrightarrow> mset ps = M)"
  proof (cases "generation p = currentGeneration t")
    case True
    with generations_inv [OF M, of "check_missing (count_part p ?t1)"] arrive(1) [OF True] show ?thesis
      by (simp add: t2_def) (simp add: check_missing_def count_part_def)
  next
    case False
    with arrive(2) [OF False] waiting_not_all [OF arrive(2) [OF False]] show ?thesis
      by (simp add: t2_def alpha_waiting_def)
  qed
  then have "check_missing t2 = t2" using alpha_missing_ge_0 [of M t2] by (simp add: check_missing_def)
  moreover have "t' = (let t3 = check_missing t2 in if missingInCurrentGeneration t3 = 0
      then t3\<lparr>blended := blended t3 @ [sort_key (\<lambda>p. - sortOrder p) (bufferedTile t3)], bufferedTile := []\<rparr> else t3)"
    unfolding t'_def AlphaBlendTile_process_def t2_def ps_def Let_def by simp
  ultimately have "t' = (if missingInCurrentGeneration t2 = 0
      then t2\<lparr>blended := blended t2 @ [sort_key (\<lambda>p. - sortOrder p) (bufferedTile t2)], bufferedTile := []\<rparr> else t2)"
    by (simp only: Let_def)
  with t2 alpha_missing_ge_0 [of M t2] show ?thesis by (auto simp: alpha_waiting_def less_le)
qed

lemma alpha_run:
  assumes M: "all_generations M" and t: "bufferedTile t = []"
  shows "mset ps \<subseteq># M \<Longrightarrow>
    (let t' = fold AlphaBlendTile_process ps (AlphaBlendTile_newFrame t) in
     alpha_errors t' = alpha_errors t \<and>
     (if mset ps = M
      then bufferedTile t' = [] \<and> blended t' = blended t @ [sort_key (\<lambda>p. - sortOrder p) ps]
      else alpha_waiting M t' \<and> bufferedTile t' = ps \<and> blended t' = blended t))"
proof (induction ps rule: rev_induct)
  case Nil
  have "M \<noteq> {#}" using M by (auto simp: all_generations_def gen_count_def)
  then show ?case using M t
    by (simp add: AlphaBlendTile_newFrame_def alpha_waiting_def alpha_inv_def all_generations_def
        gen_count_def [of 0 "{#}"] gen_kids_def [of 0 "{#}"])
next
  case (snoc p ps)
  have sub: "mset ps \<subseteq># M" and ne: "mset ps \<noteq> M"
    using snoc.prems by (auto dest: mset_subset_eq_insertD simp: subset_mset.less_le)
  with process_waiting [OF _ _ M, of "fold AlphaBlendTile_process ps (AlphaBlendTile_newFrame t)" p] snoc
  show ?case by (simp add: Let_def)
qed

definition alpha_after :: "'p tile list \<Rightarrow> 'p alpha_tile \<Rightarrow> 'p alpha_tile" where
  "alpha_after ps t = fold AlphaBlendTile_process ps (AlphaBlendTile_newFrame t)"

text \<open>The kernel \<open>sortAndBlendFragments\<close> sorts the fragments that the parts have for one pixel
  again, by depth: an insertion sort that moves a fragment to the front until one in front of
  it is farther away.  Then it blends from the first to the last.  In \<open>sift\<close> the fragments that
  are in place are listed from the last one to the first.\<close>

fun sift :: "('f \<Rightarrow> 'z::linorder) \<Rightarrow> 'f \<Rightarrow> 'f list \<Rightarrow> 'f list" where
  "sift z x [] = [x]"
| "sift z x (y # ys) = (if z x < z y then x # y # ys else y # sift z x ys)"

definition sort_fragments :: "('f \<Rightarrow> 'z::linorder) \<Rightarrow> 'f list \<Rightarrow> 'f list" where
  "sort_fragments z fs = rev (foldl (\<lambda>placed x. sift z x placed) [] fs)"

definition blend_fragments :: "('f \<Rightarrow> 'c \<Rightarrow> 'c) \<Rightarrow> 'c \<Rightarrow> ('f \<Rightarrow> 'z::linorder) \<Rightarrow> 'f list \<Rightarrow> 'c" where
  "blend_fragments over nothing z fs = foldl (\<lambda>acc f. over f acc) nothing (sort_fragments z fs)"

lemma mset_sift [simp]: "mset (sift z x ys) = add_mset x (mset ys)"
  by (induction ys) auto

lemma set_sift: "set (sift z x ys) = insert x (set ys)"
  by (induction ys) auto

lemma sorted_sift: "sorted (map z ys) \<Longrightarrow> sorted (map z (sift z x ys))"
  by (induction ys) (auto simp: set_sift)

lemma sort_fragments_ok:
  "mset (sort_fragments z fs) = mset fs \<and> sorted_wrt (\<lambda>p q. z p \<ge> z q) (sort_fragments z fs)"
proof -
  have "mset (foldl (\<lambda>placed x. sift z x placed) acc fs) = mset acc + mset fs \<and>
      sorted (map z (foldl (\<lambda>placed x. sift z x placed) acc fs))" if "sorted (map z acc)" for acc
    using that by (induction fs arbitrary: acc) (simp_all add: sorted_sift)
  from this [of "[]"] show ?thesis
    by (simp add: sort_fragments_def sorted_wrt_rev sorted_map)
qed

text \<open>C13 Alpha blending waits for all parts.  The parts of a tile form generations: one
  part in generation 0, and as many in generation \<open>g + 1\<close> as the parts of generation \<open>g\<close>
  have children.  In whatever order they arrive, no part but the last completes the
  tile, no error is reported, and the last one hands all of them to the kernel, ordered as
  the comparison in \<open>process\<close> has it: by decreasing \<open>sortOrder\<close>.  Whatever depths the parts have at a
  pixel, the kernel blends all of them there by decreasing depth, from back to front.  (The comments
  in the header file speak of increasing \<open>sortOrder\<close> and of front-to-back compositing.)\<close>

theorem alpha_tile_blends_all:
  fixes t :: "'p alpha_tile" and z :: "'p tile \<Rightarrow> 'z::linorder"
  assumes "all_generations M" and "bufferedTile t = []" and "mset ps = M"
  shows "(\<forall>k<length ps. blended (alpha_after (take k ps) t) = blended t) \<and>
    (\<exists>bs. blended (alpha_after ps t) = blended t @ [bs] \<and> mset bs = M \<and>
       sorted_wrt (\<lambda>p q. sortOrder p \<ge> sortOrder q) bs \<and>
       mset (sort_fragments z bs) = M \<and> sorted_wrt (\<lambda>p q. z p \<ge> z q) (sort_fragments z bs)) \<and>
    bufferedTile (alpha_after ps t) = [] \<and> alpha_errors (alpha_after ps t) = alpha_errors t"
proof -
  have "blended (alpha_after (take k ps) t) = blended t" if "k < length ps" for k
  proof -
    have "mset (take k ps) \<subseteq># M" using assms(3) by (metis append_take_drop_id mset_append mset_subset_eq_add_left)
    moreover have "mset (take k ps) \<noteq> M" using that assms(3) by (metis length_take min.absorb4 nless_le size_mset)
    ultimately show ?thesis using alpha_run [OF assms(1,2), of "take k ps"] by (simp add: alpha_after_def Let_def)
  qed
  moreover note sort_fragments_ok [of z "sort_key (\<lambda>p. - sortOrder p) ps"]
  moreover have "sorted_wrt (\<lambda>p q. sortOrder p \<ge> sortOrder q) (sort_key (\<lambda>p. - sortOrder p) ps)"
    using sorted_sort_key [of "\<lambda>p. - sortOrder p" ps] by (simp add: sorted_map)
  ultimately show ?thesis
    using alpha_run [OF assms(1,2), of ps] assms(3) by (auto simp: alpha_after_def Let_def)
qed

definition part_of :: "int \<Rightarrow> int \<Rightarrow> int \<Rightarrow> unit tile" where
  "part_of g c so = (Tile 4 (0, 0) (4, 4) 0 () so)\<lparr>generation := g, children := c\<rparr>"

definition no_parts :: "'p alpha_tile" where
  "no_parts = \<lparr>bufferedTile = [], currentGeneration = 0, expectedInNextGeneration = 0,
     missingInCurrentGeneration = 0, alpha_errors = 0, blended = []\<rparr>"

lemma three_parts: "all_generations {#part_of 0 2 5, part_of 1 0 7, part_of 1 0 6#}"
proof -
  have "gen_count (g + 1) {#part_of 0 2 5, part_of 1 0 7, part_of 1 0 6#} =
      gen_kids g {#part_of 0 2 5, part_of 1 0 7, part_of 1 0 6#}" if "0 \<le> g" for g
    using that
    by (cases "g = 0") (auto simp: part_of_def gen_count_def gen_kids_def)
  then show ?thesis unfolding all_generations_def
    by (simp add: part_of_def) (simp add: gen_count_def)
qed

theorem alpha_tile_blends_all_witness:
  "\<exists>bs. blended (alpha_after [part_of 1 0 6, part_of 0 2 5, part_of 1 0 7] no_parts) = [bs] \<and>
     mset bs = {#part_of 0 2 5, part_of 1 0 7, part_of 1 0 6#}"
proof -
  have "mset [part_of 1 0 6, part_of 0 2 5, part_of 1 0 7] = {#part_of 0 2 5, part_of 1 0 7, part_of 1 0 6#}"
    by (simp add: add_mset_commute)
  from alpha_tile_blends_all [OF three_parts _ this, of no_parts sortOrder] show ?thesis
    by (auto simp: no_parts_def)
qed

interpretation alpha: dfb_tile "\<lambda>_. AlphaBlendTile_newFrame :: 'p alpha_tile \<Rightarrow> 'p alpha_tile"
    "AlphaBlendTile_process :: 'p tile \<Rightarrow> _" "length \<circ> blended"
    "\<lambda>t. bufferedTile t = []" "\<lambda>_ _. all_generations"
proof
  fix t :: "'p alpha_tile" and M :: "'p tile multiset" and ps :: "'p tile list" and i :: nat
  assume t: "bufferedTile t = []" and M: "all_generations M"
  show "mset ps \<subseteq># M \<Longrightarrow> (length \<circ> blended) (fold AlphaBlendTile_process ps (AlphaBlendTile_newFrame t)) =
      (length \<circ> blended) t + (if mset ps = M then 1 else 0)"
    using alpha_run [OF M t, of ps] by (simp add: Let_def split: if_splits)
  show "mset ps = M \<Longrightarrow> bufferedTile (fold AlphaBlendTile_process ps (AlphaBlendTile_newFrame t)) = []"
    using alpha_run [OF M t, of ps] by (simp add: Let_def)
next
  fix M :: "'p tile multiset"
  assume "all_generations M"
  then show "M \<noteq> {#}" by (auto simp: all_generations_def gen_count_def)
qed

section \<open>WriteMultipleTile\<close>

text \<open>What is given to the kernels: \<open>accumulate\<close> adds the part to the accumulated colors
  and, for an odd accumulation number, to the variance, and normalizes by that number;
  \<open>Add_simple\<close> only adds; \<open>Add_no_variance\<close> adds to the colors and normalizes.\<close>

datatype 'p add_event = Accumulate "'p tile" | Add_simple "'p tile" | Add_no_variance "'p tile" | Reset_depth "'p tile"

record 'p write_tile =
  maxAccumID :: int
  instances :: nat
  writeOnceTile :: bool
  deferred :: "'p tile option"
  events :: "'p add_event list"
  write_completed :: nat

definition tileBuffered :: "'p write_tile \<Rightarrow> bool" where
  "tileBuffered t \<longleftrightarrow> deferred t \<noteq> None"

definition WriteMultipleTile_newFrame :: "nat \<Rightarrow> 'p write_tile \<Rightarrow> 'p write_tile" where
  "WriteMultipleTile_newFrame tileInstances t =
     t\<lparr>maxAccumID := 0, instances := tileInstances, writeOnceTile := (tileInstances \<le> 1), deferred := None\<rparr>"

text \<open>The part under the mutex.\<close>

definition write_locked :: "'p tile \<Rightarrow> 'p write_tile \<Rightarrow> 'p write_tile" where
  "write_locked p t =
    (let t1 = t\<lparr>maxAccumID := max (maxAccumID t) (tile_accumID p)\<rparr>;
         t2 = (if \<not> tileBuffered t1 \<and> tile_accumID p mod 2 = 0 then t1\<lparr>deferred := Some p\<rparr>
               else t1\<lparr>events := events t1 @ [Add_simple p]\<rparr>)
     in t2\<lparr>instances := instances t2 - 1\<rparr>)"

text \<open>The read-out.  Without a deferred tile the code would use what is in the buffer
  from an earlier frame; the model then adds nothing.\<close>

definition write_done :: "'p write_tile \<Rightarrow> 'p write_tile" where
  "write_done t =
    (let ev = (case deferred t of None \<Rightarrow> []
         | Some b \<Rightarrow> (let b' = b\<lparr>tile_accumID := maxAccumID t\<rparr> in
             if maxAccumID t mod 2 = 0 then [Accumulate b'] else [Add_no_variance b']))
     in t\<lparr>events := events t @ ev, write_completed := write_completed t + 1\<rparr>)"

definition WriteMultipleTile_process :: "'p tile \<Rightarrow> 'p write_tile \<Rightarrow> 'p write_tile" where
  "WriteMultipleTile_process p t =
    (if writeOnceTile t
     then t\<lparr>events := events t @ [Accumulate p], write_completed := write_completed t + 1\<rparr>
     else let t1 = (if tile_accumID p = 0 then t\<lparr>events := events t @ [Reset_depth p]\<rparr> else t);
              t2 = write_locked p t1
       in if instances t2 = 0 then write_done t2 else t2)"

text \<open>The parts of a tile that is rendered several times.\<close>

definition write_parts :: "nat \<Rightarrow> 'p tile multiset \<Rightarrow> bool" where
  "write_parts n M \<longleftrightarrow> size M = max n 1"

lemma write_count:
  "\<not> writeOnceTile t \<Longrightarrow> length ps \<le> instances t \<Longrightarrow> 0 < instances t \<Longrightarrow>
   write_completed (fold WriteMultipleTile_process ps t) =
     write_completed t + (if length ps = instances t then 1 else 0) \<and>
   instances (fold WriteMultipleTile_process ps t) = instances t - length ps \<and>
   \<not> writeOnceTile (fold WriteMultipleTile_process ps t)"
proof (induction ps rule: rev_induct)
  case (snoc p ps)
  then show ?case
    by (auto simp: WriteMultipleTile_process_def write_locked_def write_done_def Let_def)
qed simp

interpretation write_multiple: dfb_tile "WriteMultipleTile_newFrame :: nat \<Rightarrow> 'p write_tile \<Rightarrow> 'p write_tile"
    "WriteMultipleTile_process :: 'p tile \<Rightarrow> _" write_completed "\<lambda>_. True" "\<lambda>n _. write_parts n"
proof
  fix t :: "'p write_tile" and n and M :: "'p tile multiset" and ps :: "'p tile list"
  assume M: "write_parts n M" and sub: "mset ps \<subseteq># M"
  have len: "mset ps = M \<longleftrightarrow> length ps = size M"
    using sub by (metis mset_subset_size nless_le size_mset subset_mset.le_neq_trans)
  have le: "length ps \<le> size M" using size_mset_mono [OF sub] by simp
  show "write_completed (fold WriteMultipleTile_process ps (WriteMultipleTile_newFrame n t)) =
      write_completed t + (if mset ps = M then 1 else 0)"
  proof (cases "n \<le> 1")
    case True
    then have "size M = 1" using M by (simp add: write_parts_def max_def)
    with le len show ?thesis using True
      by (cases ps) (auto simp: WriteMultipleTile_newFrame_def WriteMultipleTile_process_def)
  next
    case False
    with write_count [of "WriteMultipleTile_newFrame n t" ps] le len M show ?thesis
      by (simp add: WriteMultipleTile_newFrame_def write_parts_def max_def)
  qed
next
  fix n and M :: "'p tile multiset"
  assume "write_parts n M"
  then show "M \<noteq> {#}" by (auto simp: write_parts_def max_def split: if_splits)
qed simp

definition even_part :: "'p tile \<Rightarrow> bool" where
  "even_part p \<longleftrightarrow> tile_accumID p mod 2 = 0"

definition adds :: "'p add_event list \<Rightarrow> 'p add_event list" where
  "adds evs = filter (\<lambda>e. case e of Reset_depth _ \<Rightarrow> False | _ \<Rightarrow> True) evs"

definition read_out :: "'p tile \<Rightarrow> int \<Rightarrow> 'p add_event" where
  "read_out b m = (if m mod 2 = 0 then Accumulate (b\<lparr>tile_accumID := m\<rparr>) else Add_no_variance (b\<lparr>tile_accumID := m\<rparr>))"

lemma find_snoc: "find P (xs @ [x]) = (case find P xs of None \<Rightarrow> (if P x then Some x else None) | Some y \<Rightarrow> Some y)"
  by (induction xs) auto

lemma erase_first_snoc: "erase_first P (xs @ [x]) = (if find P xs = None \<and> P x then xs else erase_first P xs @ [x])"
  by (induction xs) auto

lemma adds_simps [simp]:
  "adds (xs @ ys) = adds xs @ adds ys" "adds [] = []" "adds (Add_simple p # xs) = Add_simple p # adds xs"
  "adds (Reset_depth p # xs) = adds xs" "adds (Accumulate p # xs) = Accumulate p # adds xs"
  "adds (Add_no_variance p # xs) = Add_no_variance p # adds xs"
  by (simp_all add: adds_def)

lemma find_None_erase: "find P xs = None \<Longrightarrow> erase_first P xs = xs"
  by (simp add: find_None_iff)

lemma write_step:
  fixes q :: "'p tile"
  assumes "\<not> writeOnceTile t"
  defines "d \<equiv> (if deferred t = None \<and> even_part q then Some q else deferred t)"
    and "m \<equiv> max (maxAccumID t) (tile_accumID q)" and "t' \<equiv> WriteMultipleTile_process q t"
  shows "maxAccumID t' = m" "deferred t' = d" "instances t' = instances t - 1" "\<not> writeOnceTile t'"
    "adds (events t') = adds (events t) @ (if deferred t = None \<and> even_part q then [] else [Add_simple q]) @
       (if instances t - 1 = 0 then map (\<lambda>b. read_out b m) (case d of None \<Rightarrow> [] | Some b \<Rightarrow> [b]) else [])"
proof -
  let ?t1 = "if tile_accumID q = 0 then t\<lparr>events := events t @ [Reset_depth q]\<rparr> else t"
  define t2 where "t2 = write_locked q ?t1"
  have t2: "maxAccumID t2 = m" "deferred t2 = d" "instances t2 = instances t - 1" "\<not> writeOnceTile t2"
    "adds (events t2) = adds (events t) @ (if deferred t = None \<and> even_part q then [] else [Add_simple q])"
    using assms(1) by (simp_all add: t2_def write_locked_def Let_def m_def d_def tileBuffered_def even_part_def)
  have t': "t' = (if instances t2 = 0 then write_done t2 else t2)"
    using assms(1) by (simp add: t'_def WriteMultipleTile_process_def t2_def Let_def)
  show "maxAccumID t' = m" "deferred t' = d" "instances t' = instances t - 1" "\<not> writeOnceTile t'"
    "adds (events t') = adds (events t) @ (if deferred t = None \<and> even_part q then [] else [Add_simple q]) @
       (if instances t - 1 = 0 then map (\<lambda>b. read_out b m) (case d of None \<Rightarrow> [] | Some b \<Rightarrow> [b]) else [])"
    using t2 by (simp_all add: t' write_done_def Let_def read_out_def split: option.split)
qed

lemma write_run:
  "\<not> writeOnceTile t \<Longrightarrow> deferred t = None \<Longrightarrow> length qs \<le> instances t \<Longrightarrow> 0 < instances t \<Longrightarrow>
   (let t' = fold WriteMultipleTile_process qs t; m = fold max (map tile_accumID qs) (maxAccumID t) in
    maxAccumID t' = m \<and> deferred t' = find even_part qs \<and>
    instances t' = instances t - length qs \<and> \<not> writeOnceTile t' \<and>
    adds (events t') = adds (events t) @ map Add_simple (erase_first even_part qs) @
      (if length qs = instances t
       then map (\<lambda>b. read_out b m) (case find even_part qs of None \<Rightarrow> [] | Some b \<Rightarrow> [b]) else []))"
proof (induction qs rule: rev_induct)
  case (snoc q qs)
  let ?t = "fold WriteMultipleTile_process qs t"
  have IH: "maxAccumID ?t = fold max (map tile_accumID qs) (maxAccumID t)" "deferred ?t = find even_part qs"
    "instances ?t = instances t - length qs" "\<not> writeOnceTile ?t"
    "adds (events ?t) = adds (events t) @ map Add_simple (erase_first even_part qs)"
    using snoc by (simp_all add: Let_def)
  note step = write_step [OF IH(4), of q, unfolded IH]
  from snoc.prems(3) step show ?case
    by (simp add: Let_def find_snoc erase_first_snoc find_None_erase max.commute split: option.split)
qed simp

lemma fold_max_range:
  "xs \<noteq> [] \<Longrightarrow> \<forall>x\<in>set xs. (0 :: int) \<le> x \<Longrightarrow> fold max xs 0 = Max (set xs)"
proof (induction xs rule: rev_induct)
  case (snoc x xs)
  then show ?case by (cases "xs = []") (simp_all add: max.commute Max_insert2 flip: Max_insert)
qed simp

text \<open>C14 A tile rendered several times in a frame.  Its \<open>n \<ge> 2\<close> parts carry \<open>n\<close> successive
  accumulation numbers and arrive in any order.  Every part is added to the colors
  once; the first part with an even number is put off and added last, by the read-out,
  which normalizes by the largest number; the other even parts and the odd ones (the
  only ones that count for the variance) are added before.\<close>

theorem write_multiple_adds_each_once:
  assumes "2 \<le> n" and "0 \<le> a" and "distinct (map tile_accumID ps)" and "set (map tile_accumID ps) = {a..<a + int n}"
  shows "\<exists>us b vs. ps = us @ b # vs \<and> even_part b \<and> (\<forall>u\<in>set us. \<not> even_part u) \<and>
    adds (events (fold WriteMultipleTile_process ps (WriteMultipleTile_newFrame n t))) = adds (events t) @ map Add_simple (us @ vs) @ [read_out b (a + int n - 1)]"
proof -
  have "length ps = card (set (map tile_accumID ps))" using distinct_card [OF assms(3)] by simp
  then have len: "length ps = n" unfolding assms(4) by simp
  have "\<exists>x\<in>{a..<a + int n}. x mod 2 = 0"
  proof (cases "a mod 2 = 0")
    case True
    with assms(1) show ?thesis by (intro bexI [of _ a]) auto
  next
    case False
    with assms(1) show ?thesis by (intro bexI [of _ "a + 1"]) (auto, presburger)
  qed
  then have "\<exists>p\<in>set ps. even_part p" unfolding assms(4) [symmetric] by (auto simp: even_part_def)
  from erase_first_split [OF this] obtain us b vs where
    ps: "ps = us @ b # vs" "even_part b" "\<forall>u\<in>set us. \<not> even_part u" "erase_first even_part ps = us @ vs"
    by blast
  have find: "find even_part ps = Some b" using ps(2,3) by (simp add: ps(1)) (induction us, auto)
  have "fold max (map tile_accumID ps) 0 = Max {a..<a + int n}"
    using fold_max_range [of "map tile_accumID ps"] assms(1,2) len unfolding assms(4)
    by (cases ps) auto
  also have "\<dots> = a + int n - 1" using assms(1) by (intro Max_eqI) auto
  finally have max: "fold max (map tile_accumID ps) 0 = a + int n - 1" .
  show ?thesis
    using write_run [of "WriteMultipleTile_newFrame n t" ps] assms(1) len ps find max
    by (intro exI [of _ us] exI [of _ b] exI [of _ vs])
       (simp add: WriteMultipleTile_newFrame_def Let_def)
qed

definition numbered :: "int \<Rightarrow> unit tile" where
  "numbered k = Tile 4 (0, 0) (4, 4) k () 0"

definition fresh_write :: "'p write_tile" where
  "fresh_write = \<lparr>maxAccumID = 0, instances = 0, writeOnceTile = True, deferred = None, events = [], write_completed = 0\<rparr>"

lemma numbered_simps [simp]: "tile_accumID (numbered k) = k" "numbered j = numbered k \<longleftrightarrow> j = k"
  by (auto simp: numbered_def Tile_def)

theorem write_multiple_adds_each_once_witness:
  "adds (events (fold WriteMultipleTile_process [numbered 5, numbered 4, numbered 6] (WriteMultipleTile_newFrame 3 fresh_write))) =
   [Add_simple (numbered 5), Add_simple (numbered 6), Accumulate ((numbered 4)\<lparr>tile_accumID := 6\<rparr>)]"
proof -
  have "{5, 4, 6} = {4..<4 + int 3}" by auto
  then have "\<exists>us b vs. [numbered 5, numbered 4, numbered 6] = us @ b # vs \<and> even_part b \<and>
      (\<forall>u\<in>set us. \<not> even_part u) \<and>
      adds (events (fold WriteMultipleTile_process [numbered 5, numbered 4, numbered 6]
        (WriteMultipleTile_newFrame 3 fresh_write))) =
      adds (events (fresh_write :: unit write_tile)) @ map Add_simple (us @ vs) @ [read_out b (4 + int 3 - 1)]"
    by (intro write_multiple_adds_each_once) simp_all
  then obtain us b vs where
    ps: "[numbered 5, numbered 4, numbered 6] = us @ b # vs" "even_part b" "\<forall>u\<in>set us. \<not> even_part u"
    and ev: "adds (events (fold WriteMultipleTile_process [numbered 5, numbered 4, numbered 6]
        (WriteMultipleTile_newFrame 3 fresh_write))) =
      adds (events (fresh_write :: unit write_tile)) @ map Add_simple (us @ vs) @ [read_out b (4 + int 3 - 1)]"
    by blast
  from ps have "us = [numbered 5] \<and> b = numbered 4 \<and> vs = [numbered 6]"
    by (auto simp: Cons_eq_append_conv even_part_def)
  then show ?thesis unfolding ev by (simp add: fresh_write_def read_out_def)
qed

section \<open>ZCompositeTile\<close>

record 'p z_tile =
  numPartsComposited :: nat
  numWorkers :: nat
  composited :: "'p tile list"
  z_results :: "'p tile list list"

definition ZCompositeTile_newFrame :: "'p z_tile \<Rightarrow> 'p z_tile" where
  "ZCompositeTile_newFrame t = t\<lparr>numPartsComposited := 0\<rparr>"

text \<open>\<open>composited\<close> lists the parts that \<open>compositedTileData\<close> is made of.\<close>

definition ZCompositeTile_process :: "'p tile \<Rightarrow> 'p z_tile \<Rightarrow> 'p z_tile" where
  "ZCompositeTile_process p t =
    (let t1 = t\<lparr>composited := (if numPartsComposited t = 0 then [p] else composited t @ [p]),
              numPartsComposited := numPartsComposited t + 1\<rparr>
     in if numPartsComposited t1 = numWorkers t1 then t1\<lparr>z_results := z_results t1 @ [composited t1]\<rparr>
        else t1)"

lemma z_count:
  "length ps \<le> numWorkers t \<Longrightarrow> 0 < numWorkers t \<Longrightarrow>
   (let t' = fold ZCompositeTile_process ps (ZCompositeTile_newFrame t) in
    z_results t' = z_results t @ (if length ps = numWorkers t then [ps] else []) \<and>
    numPartsComposited t' = length ps \<and> numWorkers t' = numWorkers t \<and> (ps \<noteq> [] \<longrightarrow> composited t' = ps))"
proof (induction ps rule: rev_induct)
  case (snoc p ps)
  then show ?case
    by (cases "ps = []") (auto simp: ZCompositeTile_process_def ZCompositeTile_newFrame_def Let_def)
qed (simp add: ZCompositeTile_newFrame_def)

interpretation z_composite: dfb_tile "\<lambda>_. ZCompositeTile_newFrame :: 'p z_tile \<Rightarrow> 'p z_tile"
    "ZCompositeTile_process :: 'p tile \<Rightarrow> _" "length \<circ> z_results" "\<lambda>_. True"
    "\<lambda>_ t M. size M = numWorkers t \<and> 0 < numWorkers t"
proof
  fix t :: "'p z_tile" and i :: nat and M :: "'p tile multiset" and ps :: "'p tile list"
  assume M: "size M = numWorkers t \<and> 0 < numWorkers t" and sub: "mset ps \<subseteq># M"
  have "mset ps = M \<longleftrightarrow> length ps = size M"
    using sub by (metis mset_subset_size nless_le size_mset subset_mset.le_neq_trans)
  moreover have "length ps \<le> size M" using size_mset_mono [OF sub] by simp
  ultimately show "(length \<circ> z_results) (fold ZCompositeTile_process ps (ZCompositeTile_newFrame t)) =
      (length \<circ> z_results) t + (if mset ps = M then 1 else 0)"
    using z_count [of ps t] M by (simp add: Let_def)
qed auto

end
