(* ===== verification/DistFrame.thy ===== *)
theory DistFrame
  imports TileErrors TileTypes
begin

text \<open>
  One rank of \<open>DistributedFrameBuffer\<close> (\<open>modules/mpi/fb/DistributedFrameBuffer.cpp\<close>): who
  owns which tile, the counting that tells when the rank has completed its tiles, and
  the messages that arrive before the frame is active.  The virtual functions of the
  tiles are the arguments \<open>newFrame\<close>, \<open>process\<close> and \<open>completed\<close> (how often the tile has
  called \<open>tileIsCompleted\<close>).  What the broadcasts of \<open>startNewFrame\<close> deliver is an
  argument of it.  The gathering of the final pixels is in FinalGather; the timings are
  left out.
\<close>

section \<open>Ranks and owners\<close>

record group =
  globalRank :: nat
  numGlobalRanks :: nat
  masterIsAWorker :: bool

definition num_workers :: "group \<Rightarrow> nat" where "num_workers g = numGlobalRanks g - 1"
definition IamTheMaster :: "group \<Rightarrow> bool" where "IamTheMaster g \<longleftrightarrow> globalRank g = 0"
definition IamAWorker :: "group \<Rightarrow> bool" where "IamAWorker g \<longleftrightarrow> 0 < globalRank g"
definition workerRankFromGlobalRank :: "nat \<Rightarrow> nat" where "workerRankFromGlobalRank r = r - 1"
definition globalRankFromWorkerRank :: "nat \<Rightarrow> nat" where "globalRankFromWorkerRank w = 1 + w"

definition ownerIDFromTileID :: "group \<Rightarrow> nat \<Rightarrow> nat" where
  "ownerIDFromTileID g tileID =
    (if masterIsAWorker g then tileID mod numGlobalRanks g
     else globalRankFromWorkerRank (tileID mod num_workers g))"

record tile_desc =
  begin_px :: ivec2
  tileID :: nat
  ownerID :: nat

text \<open>The loops of \<open>createTiles\<close>, for a positive tile size.\<close>

function pixel_steps :: "int \<Rightarrow> int \<Rightarrow> int \<Rightarrow> int list" where
  "pixel_steps ts n x = (if 0 < ts \<and> x < n then x # pixel_steps ts n (x + ts) else [])"
  by pat_completeness auto
termination by (relation "measure (\<lambda>(ts, n, x). nat (n - x))") auto

declare pixel_steps.simps [simp del]

definition createTiles :: "int \<Rightarrow> group \<Rightarrow> framebuffer \<Rightarrow> tile_desc list" where
  "createTiles ts g fb =
    (let starts = concat (map (\<lambda>y. map (\<lambda>x. (x, y)) (pixel_steps ts (fst (getNumPixels fb)) 0))
         (pixel_steps ts (snd (getNumPixels fb)) 0))
     in map (\<lambda>(i, b). \<lparr>begin_px = b, tileID = i, ownerID = ownerIDFromTileID g i\<rparr>) (enumerate 0 starts))"

definition mine :: "group \<Rightarrow> tile_desc \<Rightarrow> bool" where
  "mine g t \<longleftrightarrow> ownerID t = globalRank g"

lemma pixel_steps_from:
  assumes "0 < ts" and "0 \<le> n"
  shows "int i * ts \<le> n + ts \<Longrightarrow>
    pixel_steps ts n (int i * ts) = map (\<lambda>j. int j * ts) [i..<nat (divRoundUp n ts)]"
proof (induction "nat (divRoundUp n ts) - i" arbitrary: i)
  case 0
  then have "\<not> int i < divRoundUp n ts" by simp
  then have "\<not> int i * ts < n" using less_divRoundUp_iff [OF assms] by simp
  then show ?case using 0 by (subst pixel_steps.simps) simp
next
  case (Suc d)
  then have i: "int i < divRoundUp n ts" by simp
  then have lt: "int i * ts < n" using less_divRoundUp_iff [OF assms] by simp
  have "pixel_steps ts n (int i * ts) = int i * ts # pixel_steps ts n (int (Suc i) * ts)"
    using assms(1) lt by (subst pixel_steps.simps) (simp add: algebra_simps)
  also have "pixel_steps ts n (int (Suc i) * ts) = map (\<lambda>j. int j * ts) [Suc i..<nat (divRoundUp n ts)]"
    using Suc lt by (intro Suc.hyps(1)) (auto simp: algebra_simps)
  also have "int i * ts # map (\<lambda>j. int j * ts) [Suc i..<nat (divRoundUp n ts)] =
      map (\<lambda>j. int j * ts) [i..<nat (divRoundUp n ts)]"
    using i by (simp add: upt_conv_Cons zless_nat_eq_int_zless)
  finally show ?case .
qed

text \<open>\<open>createTiles\<close> numbers the tiles as everything else does.\<close>

lemma createTiles_eq:
  assumes "frame_ok ts fb"
  shows "createTiles ts g fb = map (\<lambda>i. \<lparr>begin_px = lower (tile_region ts fb i), tileID = i,
    ownerID = ownerIDFromTileID g i\<rparr>) [0..<nat (getTotalTiles fb)]"
proof -
  from assms obtain nx ny where n: "numTiles fb = (int nx, int ny)" "0 < nx" "0 < ny"
    "nat (getTotalTiles fb) = ny * nx" by (rule numTiles_nat)
  have ts: "0 < ts" and sz: "0 < fst (fb_size fb)" "0 < snd (fb_size fb)"
    and eq: "divRoundUp (fst (fb_size fb)) ts = int nx" "divRoundUp (snd (fb_size fb)) ts = int ny"
    using assms n(1) by (simp_all add: frame_ok_def)
  have div: "nat (divRoundUp (fst (fb_size fb)) ts) = nx" "nat (divRoundUp (snd (fb_size fb)) ts) = ny"
    by (simp_all add: eq)
  have "pixel_steps ts (fst (fb_size fb)) 0 = map (\<lambda>j. int j * ts) [0..<nx]"
    "pixel_steps ts (snd (fb_size fb)) 0 = map (\<lambda>j. int j * ts) [0..<ny]"
    using pixel_steps_from [of ts "fst (fb_size fb)" 0] pixel_steps_from [of ts "snd (fb_size fb)" 0] ts sz div
    by simp_all
  then have starts: "concat (map (\<lambda>y. map (\<lambda>x. (x, y)) (pixel_steps ts (fst (fb_size fb)) 0))
         (pixel_steps ts (snd (fb_size fb)) 0)) =
      map (\<lambda>i. lower (tile_region ts fb i)) [0..<ny * nx]"
    using concat_rows [of "\<lambda>x y. (int x * ts, int y * ts)" nx ny]
    by (simp add: comp_def tile_region_lower tile_of_task_eq n)
  show ?thesis
    unfolding createTiles_def getNumPixels_def starts n(4) Let_def
    by (rule nth_equalityI) (simp_all add: nth_enumerate_eq)
qed

section \<open>The state of a rank\<close>

record ('s, 'e, 'p) dfb =
  d_fb :: framebuffer
  d_group :: group
  allTiles :: "tile_desc list"
  tileStates :: "'s list"
  numTilesCompletedThisFrame :: nat
  numTilesExpected :: "nat list"
  frameIsActive :: bool
  frameIsDone :: bool
  delayedMessage :: "'p tile list"
  d_tileAccumID :: "int list"
  tileInstances :: "int list"
  d_errors :: "'e tile_error"

definition myTiles :: "('s, 'e, 'p) dfb \<Rightarrow> tile_desc list" where
  "myTiles d = filter (mine (d_group d)) (allTiles d)"

text \<open>\<open>make\<close> constructs a tile of the kind the frame mode asks for.\<close>

definition DistributedFrameBuffer ::
  "('e, 'z) arith_scheme \<Rightarrow> int \<Rightarrow> (tile_desc \<Rightarrow> 's) \<Rightarrow> group \<Rightarrow> framebuffer \<Rightarrow> ('s, 'e, 'p) dfb" where
  "DistributedFrameBuffer F ts mk g fb =
     \<lparr>d_fb = fb, d_group = g, allTiles = createTiles ts g fb, tileStates = map mk (createTiles ts g fb),
      numTilesCompletedThisFrame = 0, numTilesExpected = [], frameIsActive = False, frameIsDone = False,
      delayedMessage = [], d_tileAccumID = replicate (nat (getTotalTiles fb)) 0,
      tileInstances = replicate (nat (getTotalTiles fb)) 0,
      d_errors = TileError F (if hasVarianceBuffer fb then numTiles fb else (0, 0))\<rparr>"

definition closeCurrentFrame :: "('s, 'e, 'p) dfb \<Rightarrow> ('s, 'e, 'p) dfb" where
  "closeCurrentFrame d = d\<lparr>frameIsDone := True\<rparr>"

definition isFrameComplete :: "nat \<Rightarrow> ('s, 'e, 'p) dfb \<Rightarrow> bool \<times> ('s, 'e, 'p) dfb" where
  "isFrameComplete n d =
    (let d' = d\<lparr>numTilesCompletedThisFrame := numTilesCompletedThisFrame d + n\<rparr>; g = d_group d in
     (if IamAWorker g \<or> IamTheMaster g \<and> masterIsAWorker g
      then numTilesCompletedThisFrame d' = length (myTiles d')
      else numTilesCompletedThisFrame d' = nat (getTotalTiles (d_fb d')), d'))"

definition tileIsCompleted :: "('s, 'e, 'p) dfb \<Rightarrow> ('s, 'e, 'p) dfb" where
  "tileIsCompleted d = (case isFrameComplete 1 d of (c, d') \<Rightarrow> if c then closeCurrentFrame d' else d')"

definition part_index :: "int \<Rightarrow> framebuffer \<Rightarrow> 'p tile \<Rightarrow> nat" where
  "part_index ts fb p = getTileIDof ts fb (lower (region p))"

text \<open>A part reaches the tile that owns it: \<open>td->process(tile)\<close>.  The cast to \<open>TileData\<close> is
  undefined for the tile of another rank.\<close>

definition deliver ::
  "int \<Rightarrow> ('p tile \<Rightarrow> 's \<Rightarrow> 's) \<Rightarrow> ('s \<Rightarrow> nat) \<Rightarrow> 'p tile \<Rightarrow> ('s, 'e, 'p) dfb \<Rightarrow> ('s, 'e, 'p) dfb res" where
  "deliver ts process completed p d =
    (let i = part_index ts (d_fb d) p in
     if i < length (allTiles d) \<and> mine (d_group d) (allTiles d ! i)
     then let s = tileStates d ! i; s' = process p s
       in Inr ((tileIsCompleted ^^ (completed s' - completed s)) (d\<lparr>tileStates := (tileStates d)[i := s']\<rparr>))
     else Inl Undefined_behaviour)"

fun deliver_all ::
  "int \<Rightarrow> ('p tile \<Rightarrow> 's \<Rightarrow> 's) \<Rightarrow> ('s \<Rightarrow> nat) \<Rightarrow> 'p tile list \<Rightarrow> ('s, 'e, 'p) dfb \<Rightarrow> ('s, 'e, 'p) dfb res" where
  "deliver_all ts process completed [] d = Inr d"
| "deliver_all ts process completed (p # ps) d =
     bind_res (deliver ts process completed p d) (deliver_all ts process completed ps)"

text \<open>A part sent by another rank passes the pixel operation first; \<open>setTile\<close> sends a
  part to the owner, or hands an own part to its tile without the operation.\<close>

definition processMessage where
  "processMessage ts process completed preAccum p d =
     deliver ts process completed (case preAccum of None \<Rightarrow> p | Some f \<Rightarrow> p\<lparr>pixels := f (pixels p)\<rparr>) d"

definition DFB_setTile ::
  "int \<Rightarrow> ('p tile \<Rightarrow> 's \<Rightarrow> 's) \<Rightarrow> ('s \<Rightarrow> nat) \<Rightarrow> 'p tile \<Rightarrow> ('s, 'e, 'p) dfb \<Rightarrow>
   ((nat \<times> 'p tile) option \<times> ('s, 'e, 'p) dfb) res" where
  "DFB_setTile ts process completed p d =
    (let i = part_index ts (d_fb d) p in
     if \<not> i < length (allTiles d) then Inl Undefined_behaviour
     else if \<not> mine (d_group d) (allTiles d ! i) then Inr (Some (ownerID (allTiles d ! i), p), d)
     else if \<not> frameIsActive d
     then Inl (Runtime_error ''#dfb: cannot setTile if frame is inactive!'')
     else bind_res (deliver ts process completed p d) (\<lambda>d'. Inr (None, d')))"

definition incoming where
  "incoming ts process completed preAccum p d =
    (if \<not> frameIsActive d then Inr (d\<lparr>delayedMessage := delayedMessage d @ [p]\<rparr>)
     else processMessage ts process completed preAccum p d)"

section \<open>Starting a frame\<close>

definition DFB_tileError :: "('e, 'z) arith_scheme \<Rightarrow> ('s, 'e, 'p) dfb \<Rightarrow> nat \<Rightarrow> 'e res" where
  "DFB_tileError F d i = TileError_get F (d_errors d) (tile_of_task (d_fb d) i)"

definition converged :: "('e, 'z) arith_scheme \<Rightarrow> 'e \<Rightarrow> ('s, 'e, 'p) dfb \<Rightarrow> nat \<Rightarrow> bool res" where
  "converged F thr d i = (if hasAccumBuffer (d_fb d)
     then bind_res (DFB_tileError F d i) (\<lambda>e. Inr (fleq F e thr)) else Inr False)"

text \<open>The loop over all tiles counts the converged own tiles, and on the master the tiles
  expected from every rank.\<close>

fun count_tiles :: "('e, 'z) arith_scheme \<Rightarrow> 'e \<Rightarrow> nat list \<Rightarrow> ('s, 'e, 'p) dfb \<Rightarrow> ('s, 'e, 'p) dfb res" where
  "count_tiles F thr [] d = Inr d"
| "count_tiles F thr (i # is) d = bind_res (converged F thr d i) (\<lambda>c. count_tiles F thr is
     (if c then (if mine (d_group d) (allTiles d ! i)
         then d\<lparr>numTilesCompletedThisFrame := numTilesCompletedThisFrame d + 1\<rparr> else d)
      else if IamTheMaster (d_group d)
        then d\<lparr>numTilesExpected := (numTilesExpected d)[ownerID (allTiles d ! i) :=
          numTilesExpected d ! ownerID (allTiles d ! i) + 1]\<rparr>
      else d))"

definition sync_errors :: "'e list \<Rightarrow> 'e tile_error \<Rightarrow> 'e tile_error" where
  "sync_errors buf te = (if tiles te \<le> 0 then te else te\<lparr>tileErrorBuffer := buf\<rparr>)"

definition new_frame_tiles :: "(nat \<Rightarrow> 's \<Rightarrow> 's) \<Rightarrow> ('s, 'e, 'p) dfb \<Rightarrow> 's list" where
  "new_frame_tiles newFrame d = map (\<lambda>(i, s). if mine (d_group d) (allTiles d ! i)
     then newFrame (nat (tileInstances d ! i)) s else s) (enumerate 0 (tileStates d))"

definition reset_frame ::
  "(nat \<Rightarrow> 's \<Rightarrow> 's) \<Rightarrow> 'e list \<Rightarrow> int list \<Rightarrow> ('s, 'e, 'p) dfb \<Rightarrow> ('s, 'e, 'p) dfb" where
  "reset_frame newFrame bcast_errors bcast_instances d =
    (let d1 = d\<lparr>delayedMessage := [], d_errors := sync_errors bcast_errors (d_errors d),
              tileInstances := bcast_instances\<rparr>
     in d1\<lparr>tileStates := new_frame_tiles newFrame d1,
          numTilesExpected := (if IamTheMaster (d_group d)
            then replicate (numGlobalRanks (d_group d)) 0 else numTilesExpected d),
          numTilesCompletedThisFrame := 0\<rparr>)"

definition startNewFrame ::
  "int \<Rightarrow> (nat \<Rightarrow> 's \<Rightarrow> 's) \<Rightarrow> ('p tile \<Rightarrow> 's \<Rightarrow> 's) \<Rightarrow> ('s \<Rightarrow> nat) \<Rightarrow> ('p \<Rightarrow> 'p) option \<Rightarrow> ('e, 'z) arith_scheme \<Rightarrow>
   'e \<Rightarrow> 'e list \<Rightarrow> int list \<Rightarrow> ('s, 'e, 'p) dfb \<Rightarrow> ('s, 'e, 'p) dfb res" where
  "startNewFrame ts newFrame process completed preAccum F thr bcast_errors bcast_instances d =
    (if frameIsActive d then Inl (Runtime_error ''Attempt to start frame on already started frame!'')
     else
       bind_res (count_tiles F thr [0..<nat (getTotalTiles (d_fb d))]
         (reset_frame newFrame bcast_errors bcast_instances d)) (\<lambda>d4.
       bind_res (deliver_all ts process completed
           (map (\<lambda>p. case preAccum of None \<Rightarrow> p | Some f \<Rightarrow> p\<lparr>pixels := f (pixels p)\<rparr>) (delayedMessage d))
           (d4\<lparr>frameIsDone := False, frameIsActive := True\<rparr>)) (\<lambda>d5.
       case isFrameComplete 0 d5 of (c, d6) \<Rightarrow> Inr (if c then closeCurrentFrame d6 else d6))))"

text \<open>What the end of the frame leaves of it.\<close>

definition DFB_accumID :: "nat \<Rightarrow> ('s, 'e, 'p) dfb \<Rightarrow> int \<times> ('s, 'e, 'p) dfb" where
  "DFB_accumID i d =
    (if \<not> hasAccumBuffer (d_fb d) then (0, d)
     else (d_tileAccumID d ! i, d\<lparr>tileInstances := (tileInstances d)[i := tileInstances d ! i + 1],
       d_tileAccumID := (d_tileAccumID d)[i := d_tileAccumID d ! i + 1]\<rparr>))"

definition DFB_endFrame :: "('e, 'z) arith_scheme \<Rightarrow> 'e \<Rightarrow> ('s, 'e, 'p) dfb \<Rightarrow> 'e \<times> ('s, 'e, 'p) dfb" where
  "DFB_endFrame F thr d =
    (let d1 = d\<lparr>tileInstances := replicate (length (tileInstances d)) 0\<rparr> in
     if IamTheMaster (d_group d)
     then case refine F thr (d_errors d1) of (err, te) \<Rightarrow> (err, d1\<lparr>d_errors := te\<rparr>)
     else (finf F, d1))"

section \<open>Counting the completed tiles\<close>

definition dfb_ok :: "int \<Rightarrow> ('s, 'e, 'p) dfb \<Rightarrow> bool" where
  "dfb_ok ts d \<longleftrightarrow> frame_ok ts (d_fb d) \<and> allTiles d = createTiles ts (d_group d) (d_fb d) \<and>
     length (tileStates d) = nat (getTotalTiles (d_fb d)) \<and>
     (hasVarianceBuffer (d_fb d) \<longrightarrow> te_numTiles (d_errors d) = numTiles (d_fb d)) \<and>
     tiles (d_errors d) = (if hasVarianceBuffer (d_fb d) then getTotalTiles (d_fb d) else 0)"

lemma dfb_ok_made:
  "frame_ok ts fb \<Longrightarrow> dfb_ok ts (DistributedFrameBuffer F ts mk g fb)"
  by (simp add: dfb_ok_def DistributedFrameBuffer_def createTiles_eq TileError_def TileError_clear_def getTotalTiles_def)

definition my_tile :: "('s, 'e, 'p) dfb \<Rightarrow> nat \<Rightarrow> bool" where
  "my_tile d i \<longleftrightarrow> i < nat (getTotalTiles (d_fb d)) \<and> ownerIDFromTileID (d_group d) i = globalRank (d_group d)"

lemma allTiles_mine:
  assumes "dfb_ok ts d"
  shows "length (allTiles d) = nat (getTotalTiles (d_fb d))"
    "i < nat (getTotalTiles (d_fb d)) \<Longrightarrow> mine (d_group d) (allTiles d ! i) \<longleftrightarrow> my_tile d i"
    "length (myTiles d) = card {i. my_tile d i}"
proof -
  have eq: "allTiles d = map (\<lambda>i. \<lparr>begin_px = lower (tile_region ts (d_fb d) i), tileID = i,
    ownerID = ownerIDFromTileID (d_group d) i\<rparr>) [0..<nat (getTotalTiles (d_fb d))]"
    using assms createTiles_eq by (simp add: dfb_ok_def)
  show "length (allTiles d) = nat (getTotalTiles (d_fb d))" by (simp add: eq)
  show "mine (d_group d) (allTiles d ! i) \<longleftrightarrow> my_tile d i" if "i < nat (getTotalTiles (d_fb d))"
    using that by (simp add: eq mine_def my_tile_def)
  have "length (myTiles d) = length (filter (\<lambda>i. ownerIDFromTileID (d_group d) i = globalRank (d_group d))
      [0..<nat (getTotalTiles (d_fb d))])"
    by (simp add: myTiles_def eq filter_map comp_def mine_def)
  also have "\<dots> = card {i. my_tile d i}"
    by (subst distinct_length_filter) (auto simp: my_tile_def intro: arg_cong [where f = card])
  finally show "length (myTiles d) = card {i. my_tile d i}" .
qed

text \<open>The tiles that are to be completed in a frame with threshold \<open>thr\<close> and errors \<open>te\<close>.\<close>

definition error_of :: "('e, 'z) arith_scheme \<Rightarrow> framebuffer \<Rightarrow> 'e tile_error \<Rightarrow> nat \<Rightarrow> 'e" where
  "error_of F fb te i = (if hasVarianceBuffer fb then tileErrorBuffer te ! i else finf F)"

definition to_complete :: "('e, 'z) arith_scheme \<Rightarrow> 'e \<Rightarrow> framebuffer \<Rightarrow> 'e tile_error \<Rightarrow> nat \<Rightarrow> bool" where
  "to_complete F thr fb te i \<longleftrightarrow> \<not> (hasAccumBuffer fb \<and> fleq F (error_of F fb te i) thr)"

lemma tileError_at:
  assumes "dfb_ok ts d" and "i < nat (getTotalTiles (d_fb d))"
  shows "DFB_tileError F d i = Inr (error_of F (d_fb d) (d_errors d) i)"
proof (cases "hasVarianceBuffer (d_fb d)")
  case False
  then show ?thesis using assms by (simp add: DFB_tileError_def TileError_get_def dfb_ok_def error_of_def)
next
  case True
  have ok: "frame_ok ts (d_fb d)" using assms(1) by (simp add: dfb_ok_def)
  from ok obtain nx ny where n: "numTiles (d_fb d) = (int nx, int ny)" by (rule numTiles_nat)
  have "te_index (d_errors d) (tile_of_task (d_fb d) i) = int i"
    using assms(1) True by (simp add: te_index_def tile_of_task_eq dfb_ok_def n) (simp flip: of_nat_mult of_nat_add)
  moreover have "int i < getTotalTiles (d_fb d)" using assms(2) by simp
  ultimately show ?thesis using assms True
    by (simp add: DFB_tileError_def TileError_get_def dfb_ok_def error_of_def)
qed

lemma converged_eq:
  "dfb_ok ts d \<Longrightarrow> i < nat (getTotalTiles (d_fb d)) \<Longrightarrow>
   converged F thr d i = Inr (\<not> to_complete F thr (d_fb d) (d_errors d) i)"
  by (simp add: converged_def tileError_at to_complete_def)

definition with_counts :: "nat \<Rightarrow> nat list \<Rightarrow> ('s, 'e, 'p) dfb \<Rightarrow> ('s, 'e, 'p) dfb" where
  "with_counts n ex d = d\<lparr>numTilesCompletedThisFrame := n, numTilesExpected := ex\<rparr>"

lemma with_counts_simps [simp]:
  "d_fb (with_counts n ex d) = d_fb d" "d_group (with_counts n ex d) = d_group d"
  "allTiles (with_counts n ex d) = allTiles d" "d_errors (with_counts n ex d) = d_errors d"
  "dfb_ok ts (with_counts n ex d) = dfb_ok ts d" "my_tile (with_counts n ex d) = my_tile d"
  "with_counts m ey (with_counts n ex d) = with_counts m ey d"
  "numTilesCompletedThisFrame (with_counts n ex d) = n"
  by (auto simp: with_counts_def dfb_ok_def my_tile_def)

lemma count_tiles_ok:
  "dfb_ok ts d \<Longrightarrow> \<forall>i\<in>set is. i < nat (getTotalTiles (d_fb d)) \<Longrightarrow>
   \<exists>ex. count_tiles F thr is d = Inr (with_counts (numTilesCompletedThisFrame d +
       length (filter (\<lambda>i. my_tile d i \<and> \<not> to_complete F thr (d_fb d) (d_errors d) i) is)) ex d)"
proof (induction "is" arbitrary: d)
  case Nil
  show ?case by (intro exI [of _ "numTilesExpected d"]) (simp add: with_counts_def)
next
  case (Cons i "is")
  have i: "i < nat (getTotalTiles (d_fb d))" using Cons.prems by simp
  let ?c = "\<not> to_complete F thr (d_fb d) (d_errors d) i"
  define n where "n = numTilesCompletedThisFrame d + (if my_tile d i \<and> ?c then 1 else 0)"
  obtain ex where step: "count_tiles F thr (i # is) d = count_tiles F thr is (with_counts n ex d)"
  proof
    show "count_tiles F thr (i # is) d = count_tiles F thr is (with_counts n
       (if ?c \<or> \<not> IamTheMaster (d_group d) then numTilesExpected d
        else (numTilesExpected d)[ownerID (allTiles d ! i) := numTilesExpected d ! ownerID (allTiles d ! i) + 1]) d)"
      using converged_eq [OF Cons.prems(1) i, of F thr] allTiles_mine(2) [OF Cons.prems(1) i]
      by (simp add: n_def with_counts_def)
  qed
  from Cons.IH [of "with_counts n ex d"] Cons.prems obtain ey where
    rest: "count_tiles F thr is (with_counts n ex d) = Inr (with_counts (n +
       length (filter (\<lambda>i. my_tile d i \<and> \<not> to_complete F thr (d_fb d) (d_errors d) i) is)) ey d)"
    by auto
  show ?case unfolding step rest by (intro exI [of _ ey]) (simp add: n_def)
qed

lemma card_filter_tiles:
  "length (filter (\<lambda>i. my_tile d i \<and> P i) [0..<nat (getTotalTiles (d_fb d))]) = card {i. my_tile d i \<and> P i}"
  by (subst distinct_length_filter) (auto simp: my_tile_def intro!: arg_cong [where f = card])

definition counts_own_tiles :: "group \<Rightarrow> bool" where
  "counts_own_tiles g \<longleftrightarrow> IamAWorker g \<or> masterIsAWorker g"

lemma isFrameComplete_own:
  assumes "counts_own_tiles (d_group d)" and "dfb_ok ts d"
  shows "isFrameComplete n d = (numTilesCompletedThisFrame d + n = card {i. my_tile d i},
     d\<lparr>numTilesCompletedThisFrame := numTilesCompletedThisFrame d + n\<rparr>)"
  using assms allTiles_mine(3) [OF assms(2)]
  by (auto simp: isFrameComplete_def Let_def counts_own_tiles_def IamAWorker_def IamTheMaster_def myTiles_def)

text \<open>The state in which the parts of a frame start to arrive.\<close>

definition frame_started ::
  "int \<Rightarrow> (nat \<Rightarrow> 's \<Rightarrow> 's) \<Rightarrow> ('e, 'z) arith_scheme \<Rightarrow> 'e \<Rightarrow> 'e list \<Rightarrow> int list \<Rightarrow> ('s, 'e, 'p) dfb \<Rightarrow> ('s, 'e, 'p) dfb \<Rightarrow> bool" where
  "frame_started ts newFrame F thr errs inst d d0 \<longleftrightarrow>
     dfb_ok ts d0 \<and> d_fb d0 = d_fb d \<and> d_group d0 = d_group d \<and> frameIsActive d0 \<and>
     d_errors d0 = sync_errors errs (d_errors d) \<and> tileInstances d0 = inst \<and>
     (\<forall>i. my_tile d i \<longrightarrow> tileStates d0 ! i = newFrame (nat (inst ! i)) (tileStates d ! i)) \<and>
     numTilesCompletedThisFrame d0 = card {i. my_tile d i \<and> \<not> to_complete F thr (d_fb d) (d_errors d0) i} \<and>
     (frameIsDone d0 \<longleftrightarrow> numTilesCompletedThisFrame d0 = card {i. my_tile d i})"

lemma startNewFrame_ok:
  assumes ok: "dfb_ok ts d" and own: "counts_own_tiles (d_group d)" and idle: "\<not> frameIsActive d"
    and none: "delayedMessage d = []"
  shows "\<exists>d0. startNewFrame ts newFrame process completed preAccum F thr errs inst d = Inr d0 \<and>
     frame_started ts newFrame F thr errs inst d d0"
proof -
  define d3 where "d3 = reset_frame newFrame errs inst d"
  have d3: "dfb_ok ts d3" "my_tile d3 = my_tile d" "d_fb d3 = d_fb d" "d_group d3 = d_group d"
    "d_errors d3 = sync_errors errs (d_errors d)" "tileInstances d3 = inst" "numTilesCompletedThisFrame d3 = 0"
    using ok by (auto simp: d3_def reset_frame_def Let_def dfb_ok_def sync_errors_def new_frame_tiles_def my_tile_def)
  have states: "tileStates d3 ! i = newFrame (nat (inst ! i)) (tileStates d ! i)" if "my_tile d i" for i
    using that ok allTiles_mine(2) [OF ok, of i]
    by (simp add: d3_def reset_frame_def Let_def new_frame_tiles_def my_tile_def dfb_ok_def nth_enumerate_eq)
  let ?n = "card {i. my_tile d i \<and> \<not> to_complete F thr (d_fb d) (sync_errors errs (d_errors d)) i}"
  obtain ex where count: "count_tiles F thr [0..<nat (getTotalTiles (d_fb d))] d3 = Inr (with_counts ?n ex d3)"
    using count_tiles_ok [OF d3(1), of "[0..<nat (getTotalTiles (d_fb d))]" F thr] d3
      card_filter_tiles [of d]
    by auto
  define d5 where "d5 = (with_counts ?n ex d3)\<lparr>frameIsDone := False, frameIsActive := True\<rparr>"
  have d5: "dfb_ok ts d5" "d_fb d5 = d_fb d" "d_group d5 = d_group d" "my_tile d5 = my_tile d" "frameIsActive d5"
    "d_errors d5 = sync_errors errs (d_errors d)" "tileInstances d5 = inst" "tileStates d5 = tileStates d3"
    "numTilesCompletedThisFrame d5 = ?n" "\<not> frameIsDone d5"
    using d3 by (auto simp: d5_def with_counts_def dfb_ok_def my_tile_def)
  define d0 where "d0 = (if ?n = card {i. my_tile d i} then closeCurrentFrame d5 else d5)"
  have "isFrameComplete 0 d5 = (?n = card {i. my_tile d i}, d5)"
    using isFrameComplete_own [OF own [folded d5(3)] d5(1), of 0] d5 by simp
  then have "startNewFrame ts newFrame process completed preAccum F thr errs inst d = Inr d0"
    using idle none count by (simp add: startNewFrame_def d0_def flip: d3_def d5_def)
  moreover have "frame_started ts newFrame F thr errs inst d d0"
    using d5 states by (auto simp: frame_started_def d0_def closeCurrentFrame_def dfb_ok_def)
  ultimately show ?thesis by blast
qed

section \<open>The frame is done when every tile has got its parts\<close>

definition parts_for :: "int \<Rightarrow> framebuffer \<Rightarrow> nat \<Rightarrow> 'p tile list \<Rightarrow> 'p tile list" where
  "parts_for ts fb i qs = filter (\<lambda>q. part_index ts fb q = i) qs"

lemma parts_for_snoc [simp]:
  "parts_for ts fb i (qs @ [q]) = parts_for ts fb i qs @ (if part_index ts fb q = i then [q] else [])"
  by (simp add: parts_for_def)

lemma deliver_all_snoc:
  "deliver_all ts process completed (qs @ [q]) d =
     bind_res (deliver_all ts process completed qs d) (deliver ts process completed q)"
proof (induction qs arbitrary: d)
  case Nil
  show ?case by (cases "deliver ts process completed q d") simp_all
next
  case (Cons p qs)
  then show ?case by (cases "deliver ts process completed p d") simp_all
qed

lemma tileIsCompleted_own:
  assumes "counts_own_tiles (d_group d)" and "dfb_ok ts d"
  shows "tileIsCompleted d = d\<lparr>numTilesCompletedThisFrame := numTilesCompletedThisFrame d + 1,
    frameIsDone := (frameIsDone d \<or> numTilesCompletedThisFrame d + 1 = card {i. my_tile d i})\<rparr>"
  using isFrameComplete_own [OF assms, of 1] by (simp add: tileIsCompleted_def closeCurrentFrame_def)

lemma card_all: "finite A \<Longrightarrow> card {j \<in> A. P j} = card A \<longleftrightarrow> (\<forall>j\<in>A. P j)"
proof
  assume "finite A" "card {j \<in> A. P j} = card A"
  then have "{j \<in> A. P j} = A" by (intro card_subset_eq) auto
  then show "\<forall>j\<in>A. P j" by blast
next
  assume "\<forall>j\<in>A. P j"
  then have "{j \<in> A. P j} = A" by blast
  then show "card {j \<in> A. P j} = card A" by simp
qed

context dfb_tile
begin

text \<open>\<open>A\<close> are the own tiles to complete, \<open>M i\<close> the parts that tile \<open>i\<close> is to get, and \<open>qs\<close> the
  parts that have arrived since the state \<open>d0\<close> at the start of the frame.\<close>

definition frame_inv ::
  "int \<Rightarrow> nat set \<Rightarrow> (nat \<Rightarrow> 'p tile multiset) \<Rightarrow> ('s, 'e, 'p) dfb \<Rightarrow> 'p tile list \<Rightarrow> ('s, 'e, 'p) dfb \<Rightarrow> bool" where
  "frame_inv ts A M d0 qs d \<longleftrightarrow>
     dfb_ok ts d \<and> d_fb d = d_fb d0 \<and> d_group d = d_group d0 \<and> frameIsActive d = frameIsActive d0 \<and>
     (\<forall>i\<in>A. tileStates d ! i = fold process (parts_for ts (d_fb d0) i qs) (tileStates d0 ! i)) \<and>
     numTilesCompletedThisFrame d = numTilesCompletedThisFrame d0 +
       card {i\<in>A. mset (parts_for ts (d_fb d0) i qs) = M i} \<and>
     (frameIsDone d \<longleftrightarrow> (\<forall>i\<in>A. mset (parts_for ts (d_fb d0) i qs) = M i))"

definition frame_setup ::
  "int \<Rightarrow> nat set \<Rightarrow> (nat \<Rightarrow> 'p tile multiset) \<Rightarrow> ('s, 'e, 'p) dfb \<Rightarrow> bool" where
  "frame_setup ts A M d0 \<longleftrightarrow>
     dfb_ok ts d0 \<and> counts_own_tiles (d_group d0) \<and> A \<subseteq> {i. my_tile d0 i} \<and>
     numTilesCompletedThisFrame d0 + card A = card {i. my_tile d0 i} \<and> (frameIsDone d0 \<longleftrightarrow> A = {}) \<and>
     (\<forall>i\<in>A. \<exists>n s. tileStates d0 ! i = newFrame n s \<and> ready s \<and> parts n s (M i))"

lemma finite_tiles: "finite {i. my_tile d i}"
  by (rule finite_subset [of _ "{..<nat (getTotalTiles (d_fb d))}"]) (auto simp: my_tile_def)

lemma frame_inv_step:
  assumes start: "frame_setup ts A M d0" and inv: "frame_inv ts A M d0 qs d"
    and q: "part_index ts (d_fb d0) q \<in> A"
    and sub: "mset (parts_for ts (d_fb d0) (part_index ts (d_fb d0) q) (qs @ [q])) \<subseteq># M (part_index ts (d_fb d0) q)"
  shows "\<exists>d'. deliver ts process completed q d = Inr d' \<and> frame_inv ts A M d0 (qs @ [q]) d'"
proof -
  let ?pf = "parts_for ts (d_fb d0)"
  define i where "i = part_index ts (d_fb d0) q"
  have d: "dfb_ok ts d" "d_fb d = d_fb d0" "d_group d = d_group d0" using inv by (simp_all add: frame_inv_def)
  have own: "counts_own_tiles (d_group d)" using start d by (simp add: frame_setup_def)
  have iA: "i \<in> A" and mine_i: "my_tile d i" and finA: "finite A"
    using q start d finite_subset [OF _ finite_tiles [of d0]] by (auto simp: i_def frame_setup_def my_tile_def)
  have itotal: "i < nat (getTotalTiles (d_fb d))" using mine_i by (simp add: my_tile_def)
  obtain n s where s: "tileStates d0 ! i = newFrame n s" "ready s" "parts n s (M i)"
    using start iA unfolding frame_setup_def by blast
  have st: "tileStates d ! i = fold process (?pf i qs) (newFrame n s)"
    using inv iA s(1) by (simp add: frame_inv_def)
  have sub': "mset (?pf i qs) + {#q#} \<subseteq># M i" using sub by (simp add: i_def)
  then have before: "mset (?pf i qs) \<subseteq># M i" "mset (?pf i qs) \<noteq> M i"
    by (auto dest: mset_subset_eq_insertD simp: subset_mset.less_le)
  define s' where "s' = process q (tileStates d ! i)"
  have s': "s' = fold process (?pf i (qs @ [q])) (newFrame n s)" unfolding s'_def st by (simp flip: i_def)
  define now where "now \<longleftrightarrow> mset (?pf i (qs @ [q])) = M i"
  have count: "completed s' - completed (tileStates d ! i) = (if now then 1 else 0)"
    unfolding s' st using completes [OF s(2,3) before(1)] completes [OF s(2,3), of "?pf i (qs @ [q])"] before(2) sub
    by (simp add: i_def now_def)
  define d1 where "d1 = d\<lparr>tileStates := (tileStates d)[i := s']\<rparr>"
  have d1: "dfb_ok ts d1" "d_group d1 = d_group d" "my_tile d1 = my_tile d0" "d_fb d1 = d_fb d0"
    using d by (auto simp: d1_def dfb_ok_def my_tile_def)
  define d' where "d' = (if now then d1\<lparr>numTilesCompletedThisFrame := numTilesCompletedThisFrame d1 + 1,
      frameIsDone := (frameIsDone d1 \<or> numTilesCompletedThisFrame d1 + 1 = card {i. my_tile d0 i})\<rparr> else d1)"
  have "deliver ts process completed q d = Inr d'"
    using allTiles_mine(1,2) [OF d(1)] itotal mine_i count tileIsCompleted_own [OF own [folded d1(2)] d1(1)]
    by (simp add: deliver_def Let_def d(2) i_def [symmetric] s'_def [symmetric] d1_def [symmetric] d'_def d1)
  moreover have "frame_inv ts A M d0 (qs @ [q]) d'"
  proof -
    have len: "i < length (tileStates d)" using d(1) itotal by (simp add: dfb_ok_def)
    have states: "tileStates d' ! j = fold process (?pf j (qs @ [q])) (tileStates d0 ! j)" if "j \<in> A" for j
      using inv that len by (cases "j = i") (simp_all add: frame_inv_def d'_def d1_def s' s(1) i_def [symmetric])
    have set_eq: "{j \<in> A. mset (?pf j (qs @ [q])) = M j} =
        (if now then insert i {j \<in> A. mset (?pf j qs) = M j} else {j \<in> A. mset (?pf j qs) = M j})"
      using iA before(2) by (auto simp: now_def i_def)
    have card_eq: "card {j \<in> A. mset (?pf j (qs @ [q])) = M j} =
        card {j \<in> A. mset (?pf j qs) = M j} + (if now then 1 else 0)"
      unfolding set_eq using finA before(2) by simp
    have n: "numTilesCompletedThisFrame d' = numTilesCompletedThisFrame d0 + card {j \<in> A. mset (?pf j (qs @ [q])) = M j}"
      unfolding card_eq using inv by (simp add: d'_def d1_def frame_inv_def)
    have all: "card {j \<in> A. mset (?pf j (qs @ [q])) = M j} = card A \<longleftrightarrow> (\<forall>j\<in>A. mset (?pf j (qs @ [q])) = M j)"
      by (rule card_all [OF finA])
    have not_yet: "\<not> frameIsDone d" using inv iA before(2) by (auto simp: frame_inv_def)
    have "frameIsDone d' \<longleftrightarrow> now \<and> numTilesCompletedThisFrame d' = card {i. my_tile d0 i}"
      using not_yet by (simp add: d'_def d1_def)
    also have "\<dots> \<longleftrightarrow> now \<and> card {j \<in> A. mset (?pf j (qs @ [q])) = M j} = card A"
      using n start by (auto simp: frame_setup_def)
    also have "\<dots> \<longleftrightarrow> (\<forall>j\<in>A. mset (?pf j (qs @ [q])) = M j)"
      unfolding all using iA by (auto simp: now_def)
    finally show ?thesis
      using inv n states d1 by (auto simp: frame_inv_def d'_def d1_def dfb_ok_def)
  qed
  ultimately show ?thesis by blast
qed

lemma frame_run:
  assumes start: "frame_setup ts A M d0"
  shows "(\<forall>q\<in>set qs. part_index ts (d_fb d0) q \<in> A) \<Longrightarrow>
    (\<forall>i\<in>A. mset (parts_for ts (d_fb d0) i qs) \<subseteq># M i) \<Longrightarrow>
    \<exists>d'. deliver_all ts process completed qs d0 = Inr d' \<and> frame_inv ts A M d0 qs d'"
proof (induction qs rule: rev_induct)
  case Nil
  have "M i \<noteq> {#}" if "i \<in> A" for i using start that some_part by (auto simp: frame_setup_def)
  then have none: "{i \<in> A. M i = {#}} = {}" and all: "(\<forall>i\<in>A. M i = {#}) \<longleftrightarrow> A = {}" by auto
  show ?case using start
    by (simp add: none all frame_inv_def frame_setup_def parts_for_def eq_commute [of "{#}"])
next
  case (snoc q qs)
  have "mset (parts_for ts (d_fb d0) i qs) \<subseteq># M i" if "i \<in> A" for i
    using snoc.prems(2) that by (metis mset_append mset_subset_eq_add_left parts_for_snoc subset_mset.trans)
  with snoc obtain d where d: "deliver_all ts process completed qs d0 = Inr d" "frame_inv ts A M d0 qs d"
    by auto
  have q: "part_index ts (d_fb d0) q \<in> A" using snoc.prems(1) by simp
  from frame_inv_step [OF start d(2) q bspec [OF snoc.prems(2) q]] d(1) show ?case
    by (simp add: deliver_all_snoc)
qed

end

end
