(* ===== verification/StaticBalance.thy ===== *)
theory StaticBalance
  imports DistFrame
begin

text \<open>
  A frame on a worker of the static load balancer (\<open>staticLoadBalancer::Slave\<close> in
  \<open>modules/mpi/render/MPILoadBalancer.cpp\<close>) together with its distributed frame buffer.
  The tasks of the \<open>parallel_for\<close> run in an arbitrary order, one after the other: they
  work on different tiles.  What the renderer computes for a tile is the argument \<open>R\<close>;
  \<open>cont\<close> is \<open>continueRendering()\<close>.
\<close>

section \<open>The slave\<close>

definition slave_tasks :: "group \<Rightarrow> framebuffer \<Rightarrow> nat list" where
  "slave_tasks g fb =
    (let ALLTASKS = nat (getTotalTiles fb); size = num_workers g; rank = workerRankFromGlobalRank (globalRank g);
         NTASKS = ALLTASKS div size + (if ALLTASKS mod size > rank then 1 else 0)
     in map (\<lambda>k. k * size + rank) [0..<NTASKS])"

definition rendered :: "int \<Rightarrow> bool \<Rightarrow> 'p \<Rightarrow> (ivec2 \<Rightarrow> int \<Rightarrow> 'p) \<Rightarrow> framebuffer \<Rightarrow> nat \<Rightarrow> int \<Rightarrow> 'p tile" where
  "rendered ts cont garbage R fb i acc =
     Tile ts (tile_of_task fb i) (fb_size fb) acc (if cont then R (tile_of_task fb i) acc else garbage) 0"

text \<open>One task; the first component is the message to the owner of the tile, if one is sent.\<close>

definition slave_task where
  "slave_task ts process completed F thr cont garbage R i d =
    (case DFB_accumID i d of (acc, d1) \<Rightarrow>
     bind_res (DFB_tileError F d1 i) (\<lambda>e.
       if fleq F e thr then Inr ([], d1)
       else bind_res (DFB_setTile ts process completed (rendered ts cont garbage R (d_fb d1) i acc) d1)
         (\<lambda>(m, d2). Inr (case m of None \<Rightarrow> [] | Some x \<Rightarrow> [x], d2))))"

fun slave_all where
  "slave_all task [] d = Inr ([], d)"
| "slave_all task (i # is) d = bind_res (task i d) (\<lambda>(ms, d1).
     bind_res (slave_all task is d1) (\<lambda>(ns, d2). Inr (ms @ ns, d2)))"

text \<open>\<open>waitUntilFinished\<close> does not return before the frame is done; what is after its
  wait and concerns the frame is \<open>frameIsActive = false\<close>.\<close>

definition waitUntilFinished :: "('s, 'e, 'p) dfb \<Rightarrow> ('s, 'e, 'p) dfb option" where
  "waitUntilFinished d = (if frameIsDone d then Some (d\<lparr>frameIsActive := False\<rparr>) else None)"

definition slave_renderFrame where
  "slave_renderFrame ts newFrame process completed preAccum F thr cont garbage R errs inst tasks d =
    (case startNewFrame ts newFrame process completed preAccum F thr errs inst d of
       Inl e \<Rightarrow> Some (Inl e)
     | Inr d0 \<Rightarrow> (case slave_all (slave_task ts process completed F thr cont garbage R) tasks d0 of
         Inl e \<Rightarrow> Some (Inl e)
       | Inr (ms, d1) \<Rightarrow> (case waitUntilFinished d1 of
           None \<Rightarrow> None
         | Some d2 \<Rightarrow> Some (Inr (ms, snd (DFB_endFrame F (finf F) d2))))))"

section \<open>The tasks of a worker are the tiles it owns\<close>

definition is_worker :: "group \<Rightarrow> bool" where
  "is_worker g \<longleftrightarrow> IamAWorker g \<and> globalRank g < numGlobalRanks g \<and> \<not> masterIsAWorker g"

lemma task_count:
  fixes n w t k :: nat
  assumes "w < n"
  shows "k < t div n + (if t mod n > w then 1 else 0) \<longleftrightarrow> k * n + w < t"
proof -
  have t: "t = t div n * n + t mod n" by simp
  have m: "t mod n < n" using assms by simp
  consider "k < t div n" | "k = t div n" | "t div n < k" by linarith
  then show ?thesis
  proof cases
    case 1
    then have "(k + 1) * n \<le> t div n * n" by (intro mult_right_mono) simp_all
    moreover have "t div n * n \<le> t" by (rule div_times_less_eq_dividend)
    ultimately have "k * n + w < t" using assms unfolding distrib_right by linarith
    with 1 show ?thesis by simp
  next
    case 2
    then show ?thesis using t by (cases "w < t mod n") (simp_all only: if_True if_False, linarith+)
  next
    case 3
    then have "(t div n + 1) * n \<le> k * n" by (intro mult_right_mono) simp_all
    then have "\<not> k * n + w < t" using t m unfolding distrib_right by linarith
    with 3 show ?thesis by simp
  qed
qed

lemma slave_tasks_own:
  assumes "is_worker g"
  shows "set (slave_tasks g fb) = {i. i < nat (getTotalTiles fb) \<and> ownerIDFromTileID g i = globalRank g}"
    and "distinct (slave_tasks g fb)"
proof -
  let ?n = "num_workers g" and ?w = "workerRankFromGlobalRank (globalRank g)" and ?t = "nat (getTotalTiles fb)"
  have w: "?w < ?n" "globalRank g = 1 + ?w" "?n \<noteq> 0"
    using assms unfolding is_worker_def IamAWorker_def num_workers_def workerRankFromGlobalRank_def by linarith+
  have tasks: "set (slave_tasks g fb) = {k * ?n + ?w | k. k * ?n + ?w < ?t}"
    by (simp only: slave_tasks_def Let_def set_map set_upt atLeast0LessThan lessThan_def
        task_count [OF w(1)] image_Collect)
  have own: "ownerIDFromTileID g i = globalRank g \<longleftrightarrow> i mod ?n = ?w" for i
  proof -
    have "ownerIDFromTileID g i = 1 + i mod ?n"
      using assms by (simp add: ownerIDFromTileID_def is_worker_def globalRankFromWorkerRank_def)
    then show ?thesis using w(2) by linarith
  qed
  show "set (slave_tasks g fb) = {i. i < ?t \<and> ownerIDFromTileID g i = globalRank g}"
  proof (intro equalityI subsetI)
    fix i assume "i \<in> {i. i < ?t \<and> ownerIDFromTileID g i = globalRank g}"
    then have i: "i mod ?n = ?w" "i < ?t" unfolding own by simp_all
    then have "i = i div ?n * ?n + ?w" using div_mult_mod_eq [of i ?n] by linarith
    then show "i \<in> set (slave_tasks g fb)" unfolding tasks using i(2) by (metis (mono_tags, lifting) mem_Collect_eq)
  next
    fix i assume "i \<in> set (slave_tasks g fb)"
    then obtain k where "i = k * ?n + ?w" "i < ?t" unfolding tasks by blast
    then show "i \<in> {i. i < ?t \<and> ownerIDFromTileID g i = globalRank g}" unfolding own using w(1) by simp
  qed
  show "distinct (slave_tasks g fb)"
    using w(3) by (simp only: slave_tasks_def Let_def distinct_map distinct_upt inj_on_def) simp
qed

section \<open>One task\<close>

lemma tileIsCompleted_keeps:
  "d_errors (tileIsCompleted d) = d_errors d \<and> d_tileAccumID (tileIsCompleted d) = d_tileAccumID d \<and>
   delayedMessage (tileIsCompleted d) = delayedMessage d"
  by (auto simp: tileIsCompleted_def isFrameComplete_def closeCurrentFrame_def Let_def split: prod.split)

lemma tilesAreCompleted_keep:
  "d_errors ((tileIsCompleted ^^ n) d) = d_errors d \<and> d_tileAccumID ((tileIsCompleted ^^ n) d) = d_tileAccumID d \<and>
   delayedMessage ((tileIsCompleted ^^ n) d) = delayedMessage d"
  by (induction n) (simp_all add: tileIsCompleted_keeps)

lemma deliver_keeps:
  "deliver ts process completed p d = Inr d' \<Longrightarrow>
   d_errors d' = d_errors d \<and> d_tileAccumID d' = d_tileAccumID d \<and> delayedMessage d' = delayedMessage d"
  by (auto simp: deliver_def Let_def tilesAreCompleted_keep split: if_splits)

definition slave_part :: "int \<Rightarrow> bool \<Rightarrow> 'p \<Rightarrow> (ivec2 \<Rightarrow> int \<Rightarrow> 'p) \<Rightarrow> ('s, 'e, 'p) dfb \<Rightarrow> nat \<Rightarrow> 'p tile" where
  "slave_part ts cont garbage R d i = rendered ts cont garbage R (d_fb d) i (fst (DFB_accumID i d))"

lemma part_index_rendered:
  "frame_ok ts fb \<Longrightarrow> part_index ts fb (rendered ts cont garbage R fb i acc) = i"
  using tile_region_index [of ts fb i]
  by (simp add: part_index_def rendered_def tile_region_def Tile_def)

lemma DFB_accumID_keeps [simp]:
  "d_fb (snd (DFB_accumID i d)) = d_fb d" "d_group (snd (DFB_accumID i d)) = d_group d"
  "allTiles (snd (DFB_accumID i d)) = allTiles d" "tileStates (snd (DFB_accumID i d)) = tileStates d"
  "d_errors (snd (DFB_accumID i d)) = d_errors d" "frameIsActive (snd (DFB_accumID i d)) = frameIsActive d"
  "frameIsDone (snd (DFB_accumID i d)) = frameIsDone d"
  "numTilesCompletedThisFrame (snd (DFB_accumID i d)) = numTilesCompletedThisFrame d"
  "delayedMessage (snd (DFB_accumID i d)) = delayedMessage d"
  "dfb_ok ts (snd (DFB_accumID i d)) = dfb_ok ts d" "my_tile (snd (DFB_accumID i d)) = my_tile d"
  by (auto simp: DFB_accumID_def dfb_ok_def my_tile_def)

lemma DFB_accumID_other:
  "i \<noteq> j \<Longrightarrow> fst (DFB_accumID j (snd (DFB_accumID i d))) = fst (DFB_accumID j d)"
  by (simp add: DFB_accumID_def)

definition slave_active :: "('e, 'z) arith_scheme \<Rightarrow> 'e \<Rightarrow> ('s, 'e, 'p) dfb \<Rightarrow> nat \<Rightarrow> bool" where
  "slave_active F thr d i \<longleftrightarrow> \<not> fleq F (error_of F (d_fb d) (d_errors d) i) thr"

lemma slave_task_eq:
  assumes "dfb_ok ts d" and "my_tile d i" and "frameIsActive d"
  shows "slave_task ts process completed F thr cont garbage R i d =
    (if slave_active F thr d i
     then bind_res (deliver ts process completed (slave_part ts cont garbage R d i) (snd (DFB_accumID i d)))
       (\<lambda>d'. Inr ([], d'))
     else Inr ([], snd (DFB_accumID i d)))"
proof -
  define acc d1 where "acc = fst (DFB_accumID i d)" and "d1 = snd (DFB_accumID i d)"
  have i: "i < nat (getTotalTiles (d_fb d1))" using assms(2) by (simp add: my_tile_def d1_def)
  have d1: "dfb_ok ts d1" "frame_ok ts (d_fb d1)" using assms(1) by (simp_all add: d1_def dfb_ok_def)
  have own: "i < length (allTiles d1)" "mine (d_group d1) (allTiles d1 ! i)"
    using allTiles_mine(1,2) [OF d1(1)] i assms(2) by (simp_all add: d1_def)
  have err: "DFB_tileError F d1 i = Inr (error_of F (d_fb d) (d_errors d) i)"
    using tileError_at [OF d1(1) i, of F] by (simp add: d1_def)
  have "DFB_setTile ts process completed (slave_part ts cont garbage R d i) d1 =
      bind_res (deliver ts process completed (slave_part ts cont garbage R d i) d1) (\<lambda>d'. Inr (None, d'))"
    using own assms(3) d1(2) by (simp add: DFB_setTile_def slave_part_def part_index_rendered d1_def)
  moreover have "rendered ts cont garbage R (d_fb d1) i acc = slave_part ts cont garbage R d i"
    by (simp add: slave_part_def acc_def d1_def)
  moreover have pair: "DFB_accumID i d = (acc, d1)" by (simp add: acc_def d1_def)
  ultimately show ?thesis using err unfolding slave_task_def pair
    by (cases "deliver ts process completed (slave_part ts cont garbage R d i) d1")
       (simp_all add: slave_active_def)
qed

section \<open>All tasks of a frame\<close>

lemma slave_all_snoc:
  "slave_all task (is @ [i]) d = bind_res (slave_all task is d) (\<lambda>(ms, d1).
     bind_res (task i d1) (\<lambda>(ns, d2). Inr (ms @ ns, d2)))"
proof (induction "is" arbitrary: d)
  case Nil
  show ?case by (cases "task i d") auto
next
  case (Cons j "is")
  show ?case
  proof (cases "task j d")
    case (Inr r)
    then show ?thesis using Cons.IH [of "snd r"]
      by (cases "slave_all task is (snd r)")
         (auto simp: split_beta split: sum.split simp: bind_res_def)
  qed simp
qed

lemma parts_for_tasks:
  assumes "distinct js" and "\<And>j. j \<in> set js \<Longrightarrow> part_index ts fb (f j) = j"
  shows "parts_for ts fb i (map f (filter P js)) = (if i \<in> set js \<and> P i then [f i] else [])"
  using assms
proof (induction js rule: rev_induct)
  case (snoc j js)
  then have "parts_for ts fb i (map f (filter P js)) = (if i \<in> set js \<and> P i then [f i] else [])" by simp
  with snoc.prems show ?case by (cases "P j") auto
qed (simp add: parts_for_def)

context dfb_tile
begin

lemma slave_run:
  fixes d0 :: "('s, 'e, 'p) dfb" and ts and cont and garbage and R and F :: "('e, 'z) arith_scheme" and thr
  defines "part \<equiv> slave_part ts cont garbage R d0" and "act \<equiv> slave_active F thr d0"
  assumes start: "frame_setup ts A (\<lambda>i. {#part i#}) d0" and A: "A = {i. my_tile d0 i \<and> act i}"
    and active: "frameIsActive d0"
  shows "distinct js \<Longrightarrow> \<forall>i\<in>set js. my_tile d0 i \<Longrightarrow>
    \<exists>d'. slave_all (slave_task ts process completed F thr cont garbage R) js d0 = Inr ([], d') \<and>
      frame_inv ts A (\<lambda>i. {#part i#}) d0 (map part (filter act js)) d' \<and>
      d_errors d' = d_errors d0 \<and> delayedMessage d' = delayedMessage d0 \<and>
      (\<forall>i. i \<notin> set js \<longrightarrow> fst (DFB_accumID i d') = fst (DFB_accumID i d0))"
proof (induction js rule: rev_induct)
  case Nil
  have "\<exists>d'. deliver_all ts process completed [] d0 = Inr d' \<and> frame_inv ts A (\<lambda>i. {#part i#}) d0 [] d'"
    by (rule frame_run [OF start]) (simp_all add: parts_for_def)
  then show ?case by simp
next
  case (snoc j js)
  then obtain d where run: "slave_all (slave_task ts process completed F thr cont garbage R) js d0 = Inr ([], d)"
    and inv: "frame_inv ts A (\<lambda>i. {#part i#}) d0 (map part (filter act js)) d"
    and keep: "d_errors d = d_errors d0" "delayedMessage d = delayedMessage d0"
    and acc: "\<And>i. i \<notin> set js \<Longrightarrow> fst (DFB_accumID i d) = fst (DFB_accumID i d0)" by auto
  have d: "dfb_ok ts d" "d_fb d = d_fb d0" "d_group d = d_group d0" "frameIsActive d"
    using inv active by (simp_all add: frame_inv_def)
  have j: "my_tile d j" "my_tile d0 j" "j \<notin> set js" using snoc.prems d by (simp_all add: my_tile_def)
  have part: "slave_part ts cont garbage R d j = part j"
    using acc [OF j(3)] by (simp add: slave_part_def part_def d)
  have act: "slave_active F thr d j = act j" by (simp add: slave_active_def act_def keep d)
  define d1 where "d1 = snd (DFB_accumID j d)"
  have inv1: "frame_inv ts A (\<lambda>i. {#part i#}) d0 (map part (filter act js)) d1"
    using inv by (simp add: frame_inv_def d1_def)
  have idx: "part_index ts (d_fb d0) (part i) = i" for i
    using start by (simp add: part_index_rendered part_def slave_part_def frame_setup_def dfb_ok_def)
  have acc': "fst (DFB_accumID i d1) = fst (DFB_accumID i d0)" if "i \<notin> set (js @ [j])" for i
    using that acc [of i] by (simp add: d1_def DFB_accumID_other)
  note step = slave_task_eq [OF d(1) j(1) d(4), of process completed F thr cont garbage R, unfolded part act, folded d1_def]
  show ?case
  proof (cases "act j")
    case False
    then show ?thesis using run step inv1 keep acc' by (simp add: slave_all_snoc d1_def)
  next
    case True
    then have jA: "part_index ts (d_fb d0) (part j) \<in> A" using j(2) by (simp add: idx A)
    have "parts_for ts (d_fb d0) j (map part (filter act js)) = []"
      using parts_for_tasks [of js ts "d_fb d0" part j act] snoc.prems idx j(3) by simp
    then have "mset (parts_for ts (d_fb d0) (part_index ts (d_fb d0) (part j)) (map part (filter act js) @ [part j]))
        \<subseteq># {#part (part_index ts (d_fb d0) (part j))#}"
      by (simp add: idx)
    from frame_inv_step [OF start inv1 jA this] obtain d' where
      d': "deliver ts process completed (part j) d1 = Inr d'"
      "frame_inv ts A (\<lambda>i. {#part i#}) d0 (map part (filter act js) @ [part j]) d'" by blast
    from deliver_keeps [OF d'(1)] have "d_errors d' = d_errors d0 \<and> delayedMessage d' = delayedMessage d0 \<and>
      (\<forall>i. i \<notin> set (js @ [j]) \<longrightarrow> fst (DFB_accumID i d') = fst (DFB_accumID i d0))"
      using keep acc' d'(2) inv1 by (auto simp: d1_def DFB_accumID_def frame_inv_def split: if_splits)
    with True run step d' show ?thesis by (simp add: slave_all_snoc)
  qed
qed

end

lemma write_frame_setup:
  fixes d d0 :: "('p write_tile, 'e, 'p) dfb"
  assumes start: "frame_started ts WriteMultipleTile_newFrame F thr errs inst d d0"
    and own: "counts_own_tiles (d_group d)"
    and acc: "hasAccumBuffer (d_fb d) \<or> \<not> fleq F (finf F) thr"
    and parts: "\<And>i. my_tile d i \<Longrightarrow> slave_active F thr d0 i \<Longrightarrow> write_parts (nat (inst ! i)) (M i)"
  shows "write_multiple.frame_setup ts {i. my_tile d0 i \<and> slave_active F thr d0 i} M d0"
proof -
  have d0: "dfb_ok ts d0" "d_fb d0 = d_fb d" "d_group d0 = d_group d" "my_tile d0 = my_tile d"
    using start by (auto simp: frame_started_def my_tile_def)
  have var: "hasVarianceBuffer (d_fb d) \<longrightarrow> hasAccumBuffer (d_fb d)"
    using d0(1) unfolding dfb_ok_def frame_ok_def d0(2) by blast
  have "slave_active F thr d0 i \<longleftrightarrow> to_complete F thr (d_fb d) (d_errors d0) i" for i
    using acc var unfolding slave_active_def to_complete_def error_of_def d0(2) by (auto split: if_splits)
  then have n: "numTilesCompletedThisFrame d0 = card {i. my_tile d0 i \<and> \<not> slave_active F thr d0 i}"
    using start unfolding frame_started_def d0(4) by simp
  have fin: "finite {i. my_tile d0 i}" by (rule write_multiple.finite_tiles)
  have "{i. my_tile d0 i} = {i. my_tile d0 i \<and> \<not> slave_active F thr d0 i} \<union> {i. my_tile d0 i \<and> slave_active F thr d0 i}"
    by blast
  moreover have "card ({i. my_tile d0 i \<and> \<not> slave_active F thr d0 i} \<union> {i. my_tile d0 i \<and> slave_active F thr d0 i}) =
      numTilesCompletedThisFrame d0 + card {i. my_tile d0 i \<and> slave_active F thr d0 i}"
    unfolding n by (intro card_Un_disjoint finite_subset [OF _ fin]) blast+
  ultimately have sum: "numTilesCompletedThisFrame d0 + card {i. my_tile d0 i \<and> slave_active F thr d0 i} =
      card {i. my_tile d0 i}" by (simp only:)
  have "frameIsDone d0 \<longleftrightarrow> numTilesCompletedThisFrame d0 = card {i. my_tile d0 i}"
    using start unfolding frame_started_def d0(4) by blast
  also have "\<dots> \<longleftrightarrow> card {i. my_tile d0 i \<and> slave_active F thr d0 i} = 0" unfolding sum [symmetric] by simp
  also have "\<dots> \<longleftrightarrow> {i. my_tile d0 i \<and> slave_active F thr d0 i} = {}"
    by (intro card_0_eq finite_subset [OF _ fin]) blast
  finally have none: "frameIsDone d0 \<longleftrightarrow> {i. my_tile d0 i \<and> slave_active F thr d0 i} = {}" .
  have "\<exists>n t. tileStates d0 ! i = WriteMultipleTile_newFrame n t \<and> write_parts n (M i)"
    if "my_tile d0 i" "slave_active F thr d0 i" for i
    using start parts that unfolding frame_started_def d0(4) by blast
  moreover have "counts_own_tiles (d_group d0)" using own d0 by simp
  ultimately show ?thesis unfolding write_multiple.frame_setup_def using d0(1) sum none by auto
qed

lemma slave_setup:
  fixes d d0 :: "('p write_tile, 'e, 'p) dfb"
  assumes start: "frame_started ts WriteMultipleTile_newFrame F thr errs inst d d0"
    and own: "is_worker (d_group d)" and inst: "\<forall>i. my_tile d i \<longrightarrow> inst ! i \<le> 1"
    and acc: "hasAccumBuffer (d_fb d) \<or> \<not> fleq F (finf F) thr"
  shows "write_multiple.frame_setup ts {i. my_tile d0 i \<and> slave_active F thr d0 i}
    (\<lambda>i. {#slave_part ts cont garbage R d0 i#}) d0"
proof (rule write_frame_setup [OF start _ acc])
  show "counts_own_tiles (d_group d)" using own by (simp add: is_worker_def counts_own_tiles_def)
  fix i assume "my_tile d i"
  then have "nat (inst ! i) \<le> 1" using inst by (simp add: nat_le_iff)
  then show "write_parts (nat (inst ! i)) {#slave_part ts cont garbage R d0 i#}"
    by (simp add: write_parts_def max_def)
qed

lemma slave_run_write:
  fixes d d0 :: "('p write_tile, 'e, 'p) dfb"
  assumes start: "frame_started ts WriteMultipleTile_newFrame F thr errs inst d d0"
    and own: "is_worker (d_group d)" and inst: "\<forall>i. my_tile d i \<longrightarrow> inst ! i \<le> 1"
    and acc: "hasAccumBuffer (d_fb d) \<or> \<not> fleq F (finf F) thr"
    and none: "delayedMessage d0 = []" and js: "distinct js" "\<forall>i\<in>set js. my_tile d i"
  shows "\<exists>d'. slave_all (slave_task ts WriteMultipleTile_process write_completed F thr cont garbage R) js d0 = Inr ([], d') \<and>
     dfb_ok ts d' \<and> d_fb d' = d_fb d \<and> d_group d' = d_group d \<and> delayedMessage d' = [] \<and>
     (frameIsDone d' \<longleftrightarrow> (\<forall>i. my_tile d i \<and> slave_active F thr d0 i \<longrightarrow> i \<in> set js)) \<and>
     (\<forall>i. my_tile d i \<and> slave_active F thr d0 i \<longrightarrow> events (tileStates d' ! i) =
        events (tileStates d ! i) @ (if i \<in> set js then [Accumulate (slave_part ts cont garbage R d0 i)] else []))"
proof -
  let ?A = "{i. my_tile d0 i \<and> slave_active F thr d0 i}" and ?part = "slave_part ts cont garbage R d0"
  have d0: "d_fb d0 = d_fb d" "d_group d0 = d_group d" "my_tile d0 = my_tile d" "frameIsActive d0" "dfb_ok ts d0"
    using start by (auto simp: frame_started_def my_tile_def)
  note start_setup = slave_setup [OF start own inst acc, of cont garbage R]
  obtain d' where run: "slave_all (slave_task ts WriteMultipleTile_process write_completed F thr cont garbage R) js d0 = Inr ([], d')"
    and inv: "write_multiple.frame_inv ts ?A (\<lambda>i. {#?part i#}) d0 (map ?part (filter (slave_active F thr d0) js)) d'"
    and del: "delayedMessage d' = delayedMessage d0"
    using write_multiple.slave_run [OF start_setup refl d0(4) js(1)] js(2) by (auto simp: d0(3))
  have "part_index ts (d_fb d0) (?part i) = i" for i
    using d0(5) by (simp add: slave_part_def part_index_rendered dfb_ok_def)
  then have parts: "parts_for ts (d_fb d0) i (map ?part (filter (slave_active F thr d0) js)) =
      (if i \<in> set js \<and> slave_active F thr d0 i then [?part i] else [])" for i
    by (intro parts_for_tasks js(1))
  have "frameIsDone d' \<longleftrightarrow> (\<forall>i\<in>?A. i \<in> set js)"
    using inv unfolding write_multiple.frame_inv_def parts by auto
  moreover have "events (tileStates d' ! i) = events (tileStates d ! i) @ (if i \<in> set js then [Accumulate (?part i)] else [])"
    if i: "my_tile d i \<and> slave_active F thr d0 i" for i
  proof -
    have "tileStates d' ! i = fold WriteMultipleTile_process (if i \<in> set js \<and> slave_active F thr d0 i then [?part i] else [])
        (tileStates d0 ! i)"
      using inv i unfolding write_multiple.frame_inv_def parts by (simp add: d0)
    moreover have "tileStates d0 ! i = WriteMultipleTile_newFrame (nat (inst ! i)) (tileStates d ! i)"
      using start i by (simp add: frame_started_def)
    moreover have "nat (inst ! i) \<le> Suc 0" using i inst by (simp add: nat_le_iff)
    ultimately show ?thesis using i by (simp add: WriteMultipleTile_process_def WriteMultipleTile_newFrame_def)
  qed
  ultimately show ?thesis using run inv del none d0
    by (intro exI [of _ d']) (auto simp: write_multiple.frame_inv_def)
qed

lemma count_tiles_delays:
  "count_tiles F thr is d = Inr d' \<Longrightarrow> delayedMessage d' = delayedMessage d"
proof (induction "is" arbitrary: d)
  case (Cons i "is")
  then show ?case by (cases "converged F thr d i") (auto split: if_splits)
qed simp

lemma startNewFrame_delays:
  assumes "startNewFrame ts newFrame process completed preAccum F thr errs inst d = Inr d0"
    and "delayedMessage d = []"
  shows "delayedMessage d0 = []"
  using assms
  by (auto simp: startNewFrame_def bind_res_def isFrameComplete_def closeCurrentFrame_def reset_frame_def Let_def
      dest!: count_tiles_delays split: sum.splits if_splits)

text \<open>C7 A frame of the static load balancer.  A worker's frame buffer is idle, the
  broadcast of the master announces no tile twice, and the buffer accumulates or the
  threshold is below the infinite error.  In whatever order the worker runs the tasks the load
  balancer gives it, it sends no message (its tasks are the tiles it owns), the frame is
  done when the last of its tiles above the threshold is set and not before, each of
  them is given to the accumulation once, and \<open>renderFrame\<close> returns with the buffer idle
  again.\<close>

theorem static_slave_completes_frame:
  fixes d :: "('p write_tile, 'e, 'p) dfb"
  assumes "dfb_ok ts d" and "is_worker (d_group d)" and "\<not> frameIsActive d" and "delayedMessage d = []"
    and "\<forall>i. my_tile d i \<longrightarrow> inst ! i \<le> 1" and "hasAccumBuffer (d_fb d) \<or> \<not> fleq F (finf F) thr"
    and "mset tasks = mset (slave_tasks (d_group d) (d_fb d))"
  shows "\<exists>d0. startNewFrame ts WriteMultipleTile_newFrame WriteMultipleTile_process write_completed preAccum
         F thr errs inst d = Inr d0 \<and>
     (\<forall>k. \<exists>d'. slave_all (slave_task ts WriteMultipleTile_process write_completed F thr cont garbage R)
         (take k tasks) d0 = Inr ([], d') \<and>
       (frameIsDone d' \<longleftrightarrow> (\<forall>i\<in>set (drop k tasks). \<not> slave_active F thr d0 i)) \<and>
       (\<forall>i. my_tile d i \<and> slave_active F thr d0 i \<longrightarrow> events (tileStates d' ! i) = events (tileStates d ! i) @
         (if i \<in> set (take k tasks) then [Accumulate (slave_part ts cont garbage R d0 i)] else []))) \<and>
     (\<exists>d'. slave_renderFrame ts WriteMultipleTile_newFrame WriteMultipleTile_process write_completed preAccum
         F thr cont garbage R errs inst tasks d = Some (Inr ([], d')) \<and>
       dfb_ok ts d' \<and> d_fb d' = d_fb d \<and> d_group d' = d_group d \<and> \<not> frameIsActive d' \<and> delayedMessage d' = [])"
proof -
  let ?task = "slave_task ts WriteMultipleTile_process write_completed F thr cont garbage R"
  have own: "counts_own_tiles (d_group d)" using assms(2) by (simp add: is_worker_def counts_own_tiles_def)
  obtain d0 where d0: "startNewFrame ts WriteMultipleTile_newFrame WriteMultipleTile_process write_completed preAccum
      F thr errs inst d = Inr d0" "frame_started ts WriteMultipleTile_newFrame F thr errs inst d d0"
    using startNewFrame_ok [OF assms(1) own assms(3,4)] by blast
  have tasks: "distinct tasks" "set tasks = {i. my_tile d i}"
    using slave_tasks_own [OF assms(2), of "d_fb d"] mset_eq_imp_distinct_iff [OF assms(7)] mset_eq_setD [OF assms(7)]
    by (simp_all add: my_tile_def)
  note run = slave_run_write [OF d0(2) assms(2,5,6) startNewFrame_delays [OF d0(1) assms(4)], of _ cont garbage R]
  have split: "distinct (take k tasks)" "\<forall>i\<in>set (take k tasks). my_tile d i"
    "(\<forall>i. my_tile d i \<and> act i \<longrightarrow> i \<in> set (take k tasks)) \<longleftrightarrow> (\<forall>i\<in>set (drop k tasks). \<not> act i)" for k act
  proof -
    have disj: "set (take k tasks) \<inter> set (drop k tasks) = {}" using tasks(1) by (rule set_take_disj_set_drop_if_distinct) simp
    have un: "{i. my_tile d i} = set (take k tasks) \<union> set (drop k tasks)"
      unfolding tasks(2) [symmetric] by (metis append_take_drop_id set_append)
    show "distinct (take k tasks)" using tasks(1) by simp
    show "\<forall>i\<in>set (take k tasks). my_tile d i" using un by blast
    show "(\<forall>i. my_tile d i \<and> act i \<longrightarrow> i \<in> set (take k tasks)) \<longleftrightarrow> (\<forall>i\<in>set (drop k tasks). \<not> act i)"
      using un disj by blast
  qed
  have steps: "\<exists>d'. slave_all ?task (take k tasks) d0 = Inr ([], d') \<and>
      (frameIsDone d' \<longleftrightarrow> (\<forall>i\<in>set (drop k tasks). \<not> slave_active F thr d0 i)) \<and>
      (\<forall>i. my_tile d i \<and> slave_active F thr d0 i \<longrightarrow> events (tileStates d' ! i) = events (tileStates d ! i) @
         (if i \<in> set (take k tasks) then [Accumulate (slave_part ts cont garbage R d0 i)] else [])) \<and>
      dfb_ok ts d' \<and> d_fb d' = d_fb d \<and> d_group d' = d_group d \<and> delayedMessage d' = []" for k
    using run [OF split(1,2) [of k]] unfolding split(3) by blast
  from steps [of "length tasks"] obtain d1 where
    d1: "slave_all ?task tasks d0 = Inr ([], d1)" "frameIsDone d1" "dfb_ok ts d1" "d_fb d1 = d_fb d"
      "d_group d1 = d_group d" "delayedMessage d1 = []" by auto
  have "\<not> IamTheMaster (d_group d1)" using assms(2) d1(5) by (simp add: is_worker_def IamAWorker_def IamTheMaster_def)
  then have "\<exists>d'. slave_renderFrame ts WriteMultipleTile_newFrame WriteMultipleTile_process write_completed preAccum
         F thr cont garbage R errs inst tasks d = Some (Inr ([], d')) \<and>
       dfb_ok ts d' \<and> d_fb d' = d_fb d \<and> d_group d' = d_group d \<and> \<not> frameIsActive d' \<and> delayedMessage d' = []"
    using d1 d0(1) by (simp add: slave_renderFrame_def waitUntilFinished_def DFB_endFrame_def dfb_ok_def)
  with d0(1) steps show ?thesis by blast
qed

definition second_worker :: group where
  "second_worker = \<lparr>globalRank = 2, numGlobalRanks = 3, masterIsAWorker = False\<rparr>"

definition second_fb :: "(unit write_tile, int, unit) dfb" where
  "second_fb = DistributedFrameBuffer int_arith 64 (\<lambda>_. fresh_write) second_worker small_frame"

theorem static_slave_completes_frame_witness:
  "\<exists>d'. slave_renderFrame 64 WriteMultipleTile_newFrame WriteMultipleTile_process write_completed None
     int_arith 10 True () (\<lambda>_ _. ()) [5, 20, 5, 30] [0, 0, 0, 0] [3, 1] second_fb = Some (Inr ([], d')) \<and>
     \<not> frameIsActive d'"
proof -
  have fb: "d_fb second_fb = small_frame" "d_group second_fb = second_worker"
    by (simp_all add: second_fb_def DistributedFrameBuffer_def)
  have "dfb_ok 64 second_fb"
    unfolding second_fb_def using frame_ok_FrameBuffer [OF small_frame_made] by (intro dfb_ok_made) simp
  moreover have "is_worker (d_group second_fb)" by (simp add: fb second_worker_def is_worker_def IamAWorker_def)
  moreover have "\<not> frameIsActive second_fb" "delayedMessage second_fb = []"
    by (simp_all add: second_fb_def DistributedFrameBuffer_def)
  moreover have "\<forall>i. my_tile second_fb i \<longrightarrow> [0, 0, 0, 0 :: int] ! i \<le> 1"
    by (auto simp: my_tile_def fb small_frame_def getTotalTiles_def less_Suc_eq numeral_eq_Suc)
  moreover have "hasAccumBuffer (d_fb second_fb)" by (simp add: fb small_frame_def)
  moreover have "slave_tasks second_worker small_frame = [1, 3]" by code_simp
  then have "mset [3, 1] = mset (slave_tasks (d_group second_fb) (d_fb second_fb))" by (simp add: fb)
  ultimately show ?thesis
    using static_slave_completes_frame [of 64 second_fb "[0, 0, 0, 0]" int_arith 10 "[3, 1]" None "[5, 20, 5, 30]"
        True "()" "\<lambda>_ _. ()"] by blast
qed

text \<open>Without an accumulation buffer a threshold that the infinite error does not exceed
  makes every worker skip all its tiles, although the frame buffer waits for them.\<close>

lemma static_slave_waits_forever:
  fixes d :: "('p write_tile, 'e, 'p) dfb"
  assumes "dfb_ok ts d" and "is_worker (d_group d)" and "\<not> frameIsActive d" and "delayedMessage d = []"
    and acc: "\<not> hasAccumBuffer (d_fb d)" "fleq F (finf F) thr" and some: "my_tile d i"
    and tasks: "set tasks = set (slave_tasks (d_group d) (d_fb d))"
  shows "slave_renderFrame ts WriteMultipleTile_newFrame WriteMultipleTile_process write_completed preAccum
    F thr cont garbage R errs inst tasks d = None"
proof -
  have own: "counts_own_tiles (d_group d)" using assms(2) by (simp add: is_worker_def counts_own_tiles_def)
  obtain d0 where d0: "startNewFrame ts WriteMultipleTile_newFrame WriteMultipleTile_process write_completed preAccum
      F thr errs inst d = Inr d0" "frame_started ts WriteMultipleTile_newFrame F thr errs inst d d0"
    using startNewFrame_ok [OF assms(1) own assms(3,4)] by blast
  have st: "dfb_ok ts d0" "d_fb d0 = d_fb d" "my_tile d0 = my_tile d" "frameIsActive d0"
    using d0(2) by (auto simp: frame_started_def my_tile_def)
  have "to_complete F thr (d_fb d) (d_errors d0) j" for j by (simp add: to_complete_def acc)
  moreover have "finite {j. my_tile d j}" by (rule write_multiple.finite_tiles)
  then have "card {j. my_tile d j} \<noteq> 0" using some by auto
  ultimately have "\<not> frameIsDone d0" using d0(2) by (simp add: frame_started_def)
  have "\<not> slave_active F thr e j" if "d_fb e = d_fb d" "dfb_ok ts e" for e :: "('p write_tile, 'e, 'p) dfb" and j
    using that acc by (auto simp: slave_active_def error_of_def dfb_ok_def frame_ok_def)
  then have skip: "slave_task ts WriteMultipleTile_process write_completed F thr cont garbage R j e = Inr ([], e)"
    if "d_fb e = d_fb d" "dfb_ok ts e" "my_tile e j" "frameIsActive e" for e :: "('p write_tile, 'e, 'p) dfb" and j
    using slave_task_eq [OF that(2,3,4), of WriteMultipleTile_process write_completed F thr cont garbage R] that acc
    by (simp add: DFB_accumID_def)
  have "slave_all (slave_task ts WriteMultipleTile_process write_completed F thr cont garbage R) js d0 = Inr ([], d0)"
    if "set js \<subseteq> set tasks" for js
    using that
  proof (induction js)
    case (Cons j js)
    then have "my_tile d0 j" using slave_tasks_own(1) [OF assms(2), of "d_fb d"] tasks st by (auto simp: my_tile_def)
    then show ?case using skip [of d0 j] st Cons by simp
  qed simp
  with d0(1) \<open>\<not> frameIsDone d0\<close> show ?thesis by (simp add: slave_renderFrame_def waitUntilFinished_def)
qed

end
