(* ===== verification/DynTasks.thy ===== *)
theory DynTasks
  imports DynBalance StaticBalance
begin

text \<open>
  The tasks of a frame of the dynamic load balancer: \<open>Master::generateTileTasks\<close>
  (\<open>modules/mpi/render/MPILoadBalancer.cpp\<close>) on the frame buffer of the master, and the
  whole frame: the tasks, the run of the load balancer, and the parts that arrive at the
  owner of a tile.  \<open>std::sort\<close> is the argument \<open>srt\<close>, which permutes its input; the local
  \<open>TileTask\<close>, whose flag is not initialized, is \<open>junk\<close>.
\<close>

section \<open>generateTileTasks\<close>

record 'e active_tile =
  at_error :: 'e
  at_id :: ivec2

type_synonym ('s, 'e, 'p) task_state = "('s, 'e, 'p) dfb \<times> tile_task list list"

definition push_task :: "tile_task \<Rightarrow> nat \<Rightarrow> ivec2 \<Rightarrow> ('s, 'e, 'p) task_state \<Rightarrow> ('s, 'e, 'p) task_state" where
  "push_task junk tileNr t s =
    (case DFB_accumID (tile_index (d_fb (fst s)) t) (fst s) of (acc, d') \<Rightarrow>
     let nr = workerRankFromGlobalRank (ownerIDFromTileID (d_group (fst s)) tileNr) in
     (d', (snd s)[nr := snd s ! nr @ [junk\<lparr>task_tileId := t, task_accumId := acc\<rparr>]]))"

text \<open>The loops over \<open>y\<close> and \<open>x\<close> run through the tiles in the order of their numbers.\<close>

fun first_tasks :: "('e, 'z) arith_scheme \<Rightarrow> 'e \<Rightarrow> tile_task \<Rightarrow> nat list \<Rightarrow> ('s, 'e, 'p) task_state \<Rightarrow>
    'e active_tile list \<Rightarrow> (('s, 'e, 'p) task_state \<times> 'e active_tile list) res" where
  "first_tasks F thr junk [] s act = Inr (s, act)"
| "first_tasks F thr junk (i # is) s act = bind_res (DFB_tileError F (fst s) i) (\<lambda>e.
     if fleq F e thr then first_tasks F thr junk is s act
     else let t = tile_of_task (d_fb (fst s)) i in
       first_tasks F thr junk is (push_task junk i t s) (act @ [\<lparr>at_error = e, at_id = t\<rparr>]))"

fun more_tasks :: "tile_task \<Rightarrow> nat \<Rightarrow> 'e active_tile list \<Rightarrow> 'e active_tile list \<Rightarrow> ('s, 'e, 'p) task_state \<Rightarrow>
    ('s, 'e, 'p) task_state" where
  "more_tasks junk (Suc n) activeTiles (a # it) s =
     more_tasks junk n activeTiles (if it = [] then activeTiles else it)
       (push_task junk (tile_index (d_fb (fst s)) (at_id a)) (at_id a) s)"
| "more_tasks junk n activeTiles it s = s"

definition more_error :: "('e, 'z) arith_scheme \<Rightarrow> 'e active_tile \<Rightarrow> 'e active_tile \<Rightarrow> bool" where
  "more_error F a b \<longleftrightarrow> fless F (at_error b) (at_error a)"

definition generateTileTasks ::
  "(('e active_tile \<Rightarrow> 'e active_tile \<Rightarrow> bool) \<Rightarrow> 'e active_tile list \<Rightarrow> 'e active_tile list) \<Rightarrow>
   ('e, 'z) arith_scheme \<Rightarrow> 'e \<Rightarrow> tile_task \<Rightarrow> ('s, 'e, 'p) task_state \<Rightarrow> ('s, 'e, 'p) task_state res" where
  "generateTileTasks srt F thr junk s =
     bind_res (first_tasks F thr junk [0..<nat (getTotalTiles (d_fb (fst s)))] s []) (\<lambda>(s1, act).
       if act = [] then Inr s1
       else let activeTiles = srt (more_error F) act in
         Inr (more_tasks junk (nat (getTotalTiles (d_fb (fst s1))) - length activeTiles) activeTiles activeTiles s1))"

section \<open>Pushing tasks\<close>

definition push_all :: "tile_task \<Rightarrow> nat list \<Rightarrow> ('s, 'e, 'p) task_state \<Rightarrow> ('s, 'e, 'p) task_state" where
  "push_all junk js s = fold (\<lambda>i s. push_task junk i (tile_of_task (d_fb (fst s)) i) s) js s"

lemma push_all_simps [simp]:
  "push_all junk [] s = s"
  "push_all junk (j # js) s = push_all junk js (push_task junk j (tile_of_task (d_fb (fst s)) j) s)"
  "push_all junk (js @ [j]) s = push_task junk j (tile_of_task (d_fb (fst (push_all junk js s))) j) (push_all junk js s)"
  "push_all junk (js @ ks) s = push_all junk ks (push_all junk js s)"
  by (simp_all add: push_all_def)

definition task_acc :: "('s, 'e, 'p) dfb \<Rightarrow> nat \<Rightarrow> nat \<Rightarrow> int" where
  "task_acc d i m = (if hasAccumBuffer (d_fb d) then d_tileAccumID d ! i + int m else 0)"

definition tile_tasks :: "('s, 'e, 'p) dfb \<Rightarrow> nat \<Rightarrow> nat \<Rightarrow> tile_task multiset" where
  "tile_tasks d i n = mset (map (\<lambda>m. \<lparr>task_tileId = tile_of_task (d_fb d) i, task_accumId = task_acc d i m,
     tilesExhausted = False\<rparr>) [0..<n])"

lemma tile_tasks_Suc:
  "tile_tasks d i (Suc n) = add_mset \<lparr>task_tileId = tile_of_task (d_fb d) i, task_accumId = task_acc d i n,
     tilesExhausted = False\<rparr> (tile_tasks d i n)"
  by (simp add: tile_tasks_def)

text \<open>The master's frame buffer before the tasks are generated.\<close>

definition master_ready :: "int \<Rightarrow> ('s, 'e, 'p) dfb \<Rightarrow> bool" where
  "master_ready ts d \<longleftrightarrow> dfb_ok ts d \<and> \<not> masterIsAWorker (d_group d) \<and> 2 \<le> numGlobalRanks (d_group d) \<and>
     length (d_tileAccumID d) = nat (getTotalTiles (d_fb d)) \<and>
     tileInstances d = replicate (nat (getTotalTiles (d_fb d))) 0"

definition pushed :: "int \<Rightarrow> ('s, 'e, 'p) dfb \<Rightarrow> nat list \<Rightarrow> ('s, 'e, 'p) task_state \<Rightarrow> bool" where
  "pushed ts d js s \<longleftrightarrow> d_fb (fst s) = d_fb d \<and> d_group (fst s) = d_group d \<and> d_errors (fst s) = d_errors d \<and>
     dfb_ok ts (fst s) \<and> length (snd s) = num_workers (d_group d) \<and>
     (\<forall>w<num_workers (d_group d). \<forall>t\<in>set (snd s ! w).
        ownerIDFromTileID (d_group d) (tile_index (d_fb d) (task_tileId t)) = globalRankFromWorkerRank w) \<and>
     tasks_of (snd s) = (\<Sum>i<nat (getTotalTiles (d_fb d)). tile_tasks d i (count_list js i)) \<and>
     length (d_tileAccumID (fst s)) = nat (getTotalTiles (d_fb d)) \<and>
     length (tileInstances (fst s)) = nat (getTotalTiles (d_fb d)) \<and>
     (\<forall>i<nat (getTotalTiles (d_fb d)).
        tileInstances (fst s) ! i = (if hasAccumBuffer (d_fb d) then int (count_list js i) else 0) \<and>
        (hasAccumBuffer (d_fb d) \<longrightarrow> d_tileAccumID (fst s) ! i = d_tileAccumID d ! i + int (count_list js i)))"

lemma pushed_start:
  assumes "master_ready ts d"
  shows "pushed ts d [] (d, replicate (num_workers (d_group d)) [])"
proof -
  have "tasks_of (replicate n []) = {#}" for n by (induction n) (simp_all add: tasks_of_def)
  then show ?thesis using assms by (simp add: pushed_def master_ready_def tile_tasks_def)
qed

lemma sum_count_snoc:
  assumes "j < n"
  shows "(\<Sum>i<n. tile_tasks d i (count_list (js @ [j]) i)) =
    add_mset \<lparr>task_tileId = tile_of_task (d_fb d) j, task_accumId = task_acc d j (count_list js j),
      tilesExhausted = False\<rparr> (\<Sum>i<n. tile_tasks d i (count_list js i))"
proof -
  have j: "j \<in> {..<n}" using assms by simp
  have "(\<Sum>i\<in>{..<n} - {j}. tile_tasks d i (count_list (js @ [j]) i)) =
      (\<Sum>i\<in>{..<n} - {j}. tile_tasks d i (count_list js i))"
    by (rule sum.cong) auto
  then show ?thesis
    unfolding sum.remove [OF finite_lessThan j] by (simp add: tile_tasks_Suc)
qed

lemma pushed_step:
  assumes m: "master_ready ts d" and s: "pushed ts d js s" and j: "j < nat (getTotalTiles (d_fb d))"
  shows "pushed ts d (js @ [j]) (push_task junk j (tile_of_task (d_fb d) j) s)"
proof -
  let ?t = "tile_of_task (d_fb d) j" and ?n = "num_workers (d_group d)"
  have ok: "frame_ok ts (d_fb d)" using m by (simp add: master_ready_def dfb_ok_def)
  have idx: "tile_index (d_fb d) ?t = j" using tile_index_of_task [OF ok] by simp
  define nr where "nr = workerRankFromGlobalRank (ownerIDFromTileID (d_group d) j)"
  have nr: "nr < ?n" "ownerIDFromTileID (d_group d) j = globalRankFromWorkerRank nr"
    using m by (auto simp: nr_def ownerIDFromTileID_def master_ready_def globalRankFromWorkerRank_def
        workerRankFromGlobalRank_def num_workers_def)
  define acc d' where "acc = fst (DFB_accumID j (fst s))" and "d' = snd (DFB_accumID j (fst s))"
  define task where "task = junk\<lparr>task_tileId := ?t, task_accumId := acc\<rparr>"
  have fb: "d_fb (fst s) = d_fb d" "d_group (fst s) = d_group d" using s by (simp_all add: pushed_def)
  have step: "push_task junk j ?t s = (d', (snd s)[nr := snd s ! nr @ [task]])"
    by (simp add: push_task_def fb idx split_beta nr_def task_def acc_def d'_def Let_def)
  have acc: "acc = task_acc d j (count_list js j)"
    using s j by (simp add: acc_def DFB_accumID_def task_acc_def fb pushed_def)
  have lens: "nr < length (snd s)" "length (d_tileAccumID d') = nat (getTotalTiles (d_fb d))"
    "length (tileInstances d') = nat (getTotalTiles (d_fb d))"
    using s nr by (simp_all add: pushed_def d'_def DFB_accumID_def)
  have ids: "\<forall>i<nat (getTotalTiles (d_fb d)).
        tileInstances d' ! i = (if hasAccumBuffer (d_fb d) then int (count_list (js @ [j]) i) else 0) \<and>
        (hasAccumBuffer (d_fb d) \<longrightarrow> d_tileAccumID d' ! i = d_tileAccumID d ! i + int (count_list (js @ [j]) i))"
    using s by (auto simp: d'_def DFB_accumID_def pushed_def nth_list_update)
  have "tasks_of ((snd s)[nr := snd s ! nr @ [task]]) + mset (map handed_out (snd s ! nr)) =
      tasks_of (snd s) + mset (map handed_out (snd s ! nr @ [task]))"
    unfolding tasks_of_def by (rule sum_list_swap [OF lens(1)])
  then have "tasks_of ((snd s)[nr := snd s ! nr @ [task]]) = add_mset (handed_out task) (tasks_of (snd s))" by simp
  moreover have "handed_out task = \<lparr>task_tileId = ?t, task_accumId = task_acc d j (count_list js j), tilesExhausted = False\<rparr>"
    by (simp add: task_def handed_out_def acc)
  ultimately have tasks: "tasks_of ((snd s)[nr := snd s ! nr @ [task]]) =
      (\<Sum>i<nat (getTotalTiles (d_fb d)). tile_tasks d i (count_list (js @ [j]) i))"
    using s unfolding pushed_def sum_count_snoc [OF j] by simp
  have "task_tileId task = ?t" by (simp add: task_def)
  then have own: "\<forall>w<?n. \<forall>t\<in>set (((snd s)[nr := snd s ! nr @ [task]]) ! w).
        ownerIDFromTileID (d_group d) (tile_index (d_fb d) (task_tileId t)) = globalRankFromWorkerRank w"
    using s nr lens(1) by (auto simp: pushed_def nth_list_update idx)
  show ?thesis
    using s lens ids tasks own unfolding step pushed_def by (simp add: d'_def)
qed

lemma push_all_pushed:
  assumes "master_ready ts d" and "pushed ts d js s"
  shows "\<forall>k\<in>set ks. k < nat (getTotalTiles (d_fb d)) \<Longrightarrow> pushed ts d (js @ ks) (push_all junk ks s)"
proof (induction ks rule: rev_induct)
  case (snoc k ks)
  then have IH: "pushed ts d (js @ ks) (push_all junk ks s)" by simp
  then have "d_fb (fst (push_all junk ks s)) = d_fb d" by (simp add: pushed_def)
  with pushed_step [OF assms(1) IH, of k junk] snoc.prems show ?case by simp
qed (simp add: assms(2))

section \<open>The two loops\<close>

lemma first_tasks_ok:
  assumes m: "master_ready ts d"
  shows "pushed ts d js s \<Longrightarrow> \<forall>i\<in>set is. i < nat (getTotalTiles (d_fb d)) \<Longrightarrow>
    first_tasks F thr junk is s act = Inr (push_all junk (filter (slave_active F thr d) is) s,
      act @ map (\<lambda>i. \<lparr>at_error = error_of F (d_fb d) (d_errors d) i, at_id = tile_of_task (d_fb d) i\<rparr>)
        (filter (slave_active F thr d) is))"
proof (induction "is" arbitrary: js s act)
  case (Cons i "is")
  have fb: "d_fb (fst s) = d_fb d" "d_errors (fst s) = d_errors d" "dfb_ok ts (fst s)"
    using Cons.prems(1) by (simp_all add: pushed_def)
  then have err: "DFB_tileError F (fst s) i = Inr (error_of F (d_fb d) (d_errors d) i)"
    using tileError_at [OF fb(3), of i F] Cons.prems(2) by simp
  show ?case
  proof (cases "slave_active F thr d i")
    case True
    then have push: "first_tasks F thr junk (i # is) s act = first_tasks F thr junk is
        (push_task junk i (tile_of_task (d_fb d) i) s)
        (act @ [\<lparr>at_error = error_of F (d_fb d) (d_errors d) i, at_id = tile_of_task (d_fb d) i\<rparr>])"
      using err by (simp add: slave_active_def fb Let_def)
    show ?thesis
      using Cons.IH [OF pushed_step [OF m Cons.prems(1), of i junk]] Cons.prems(2) True push by (simp add: fb)
  next
    case False
    then show ?thesis using Cons err by (simp add: slave_active_def)
  qed
qed simp

fun cycle :: "nat \<Rightarrow> 'a list \<Rightarrow> 'a list \<Rightarrow> 'a list" where
  "cycle (Suc n) xs (a # it) = a # cycle n xs (if it = [] then xs else it)"
| "cycle n xs it = []"

lemma cycle_eq:
  "r < length xs \<Longrightarrow> cycle n xs (drop r xs) = map (\<lambda>k. xs ! ((r + k) mod length xs)) [0..<n]"
proof (induction n arbitrary: r)
  case (Suc n)
  have "cycle (Suc n) xs (drop r xs) = xs ! r # cycle n xs (drop (Suc r mod length xs) xs)"
  proof (cases "Suc r < length xs")
    case True
    then show ?thesis using Suc.prems by (simp flip: Cons_nth_drop_Suc)
  next
    case False
    then have "Suc r = length xs" using Suc.prems by simp
    then show ?thesis using Suc.prems by (simp flip: Cons_nth_drop_Suc)
  qed
  also have "\<dots> = xs ! r # map (\<lambda>k. xs ! ((Suc r mod length xs + k) mod length xs)) [0..<n]"
    using Suc.prems by (subst Suc.IH) (auto intro: mod_less_divisor)
  also have "\<dots> = map (\<lambda>k. xs ! ((r + k) mod length xs)) (0 # map Suc [0..<n])"
    using Suc.prems by (simp add: mod_add_left_eq)
  also have "0 # map Suc [0..<n] = [0..<Suc n]" unfolding map_Suc_upt by (simp add: upt_conv_Cons del: upt_Suc)
  finally show ?case .
qed simp

lemma more_tasks_eq:
  assumes m: "master_ready ts d" and all: "\<forall>a\<in>set xs. \<exists>i<nat (getTotalTiles (d_fb d)). at_id a = tile_of_task (d_fb d) i"
  shows "pushed ts d js s \<Longrightarrow> set it \<subseteq> set xs \<Longrightarrow>
    more_tasks junk n xs it s = push_all junk (map (\<lambda>a. tile_index (d_fb d) (at_id a)) (cycle n xs it)) s"
proof (induction n arbitrary: js it s)
  case (Suc n)
  show ?case
  proof (cases it)
    case (Cons a rest)
    have ok: "frame_ok ts (d_fb d)" using m by (simp add: master_ready_def dfb_ok_def)
    have fb: "d_fb (fst s) = d_fb d" using Suc.prems(1) by (simp add: pushed_def)
    obtain i where i: "i < nat (getTotalTiles (d_fb d))" "at_id a = tile_of_task (d_fb d) i"
      using all Suc.prems(2) Cons by auto
    have "set (if rest = [] then xs else rest) \<subseteq> set xs" using Suc.prems(2) Cons by auto
    from Suc.IH [OF pushed_step [OF m Suc.prems(1) i(1), of junk] this] show ?thesis
      using i ok by (simp add: Cons fb)
  qed simp
qed simp

definition share :: "nat \<Rightarrow> nat \<Rightarrow> nat \<Rightarrow> nat" where
  "share t n p = t div n + (if t mod n > p then 1 else 0)"

lemma count_cycle:
  assumes "distinct xs" and "p < length xs"
  shows "count_list (map (\<lambda>k. xs ! (k mod length xs)) [0..<t]) (xs ! p) = share t (length xs) p"
proof -
  let ?n = "length xs"
  have "count_list (map (\<lambda>k. xs ! (k mod ?n)) [0..<t]) (xs ! p) = card {k. k < t \<and> k mod ?n = p}"
  proof (induction t)
    case (Suc t)
    have "t mod ?n < ?n" using assms(2) by (intro mod_less_divisor) linarith
    then have same: "xs ! (t mod ?n) = xs ! p \<longleftrightarrow> t mod ?n = p" using assms by (simp add: nth_eq_iff_index_eq)
    have "{k. k < Suc t \<and> k mod ?n = p} = (if t mod ?n = p then insert t {k. k < t \<and> k mod ?n = p}
        else {k. k < t \<and> k mod ?n = p})" by (auto simp: less_Suc_eq)
    with Suc same show ?case by simp
  qed simp
  also have "{k. k < t \<and> k mod ?n = p} = (\<lambda>j. j * ?n + p) ` {..<share t ?n p}"
  proof (intro equalityI subsetI)
    fix k assume "k \<in> {k. k < t \<and> k mod ?n = p}"
    then have k: "k < t" "k mod ?n = p" by simp_all
    then have eq: "k = k div ?n * ?n + p" using div_mult_mod_eq [of k ?n] by linarith
    then have "k div ?n < share t ?n p" unfolding share_def task_count [OF assms(2)] using k(1) by simp
    with eq show "k \<in> (\<lambda>j. j * ?n + p) ` {..<share t ?n p}" by blast
  next
    fix k assume "k \<in> (\<lambda>j. j * ?n + p) ` {..<share t ?n p}"
    then show "k \<in> {k. k < t \<and> k mod ?n = p}"
      using assms(2) by (auto simp: share_def task_count [OF assms(2)])
  qed
  also have "card ((\<lambda>j. j * ?n + p) ` {..<share t ?n p}) = share t ?n p"
    using assms(2) by (subst card_image) (auto simp: inj_on_def)
  finally show ?thesis .
qed

section \<open>The tasks of a frame\<close>

definition permutes :: "((('e active_tile \<Rightarrow> 'e active_tile \<Rightarrow> bool) \<Rightarrow> 'e active_tile list \<Rightarrow> 'e active_tile list)) \<Rightarrow> bool" where
  "permutes srt \<longleftrightarrow> (\<forall>R xs. mset (srt R xs) = mset xs)"

definition active_tiles :: "('e, 'z) arith_scheme \<Rightarrow> 'e \<Rightarrow> ('s, 'e, 'p) dfb \<Rightarrow> 'e active_tile list" where
  "active_tiles F thr d = map (\<lambda>i. \<lparr>at_error = error_of F (d_fb d) (d_errors d) i, at_id = tile_of_task (d_fb d) i\<rparr>)
     (filter (slave_active F thr d) [0..<nat (getTotalTiles (d_fb d))])"

text \<open>The numbers of the active tiles in the order in which they get the additional tasks.\<close>

definition tile_order where
  "tile_order srt F thr d = map (\<lambda>a. tile_index (d_fb d) (at_id a)) (srt (more_error F) (active_tiles F thr d))"

lemma tile_order_active:
  assumes "dfb_ok ts d" and "permutes srt"
  shows "mset (tile_order srt F thr d) = mset (filter (slave_active F thr d) [0..<nat (getTotalTiles (d_fb d))])"
    and "distinct (tile_order srt F thr d)"
    and "set (tile_order srt F thr d) = {i. i < nat (getTotalTiles (d_fb d)) \<and> slave_active F thr d i}"
proof -
  have "frame_ok ts (d_fb d)" using assms(1) by (simp add: dfb_ok_def)
  then have "map (\<lambda>a. tile_index (d_fb d) (at_id a)) (active_tiles F thr d) =
      filter (slave_active F thr d) [0..<nat (getTotalTiles (d_fb d))]"
    by (simp add: active_tiles_def comp_def)
  moreover have "mset (tile_order srt F thr d) = mset (map (\<lambda>a. tile_index (d_fb d) (at_id a)) (active_tiles F thr d))"
    using assms(2) by (simp add: tile_order_def permutes_def)
  ultimately show eq: "mset (tile_order srt F thr d) = mset (filter (slave_active F thr d) [0..<nat (getTotalTiles (d_fb d))])"
    by simp
  show "distinct (tile_order srt F thr d)" using mset_eq_imp_distinct_iff [OF eq] by simp
  show "set (tile_order srt F thr d) = {i. i < nat (getTotalTiles (d_fb d)) \<and> slave_active F thr d i}"
    using mset_eq_setD [OF eq] by auto
qed

lemma generateTileTasks_pushed:
  assumes m: "master_ready ts d" and srt: "permutes srt"
  shows "\<exists>js s. generateTileTasks srt F thr junk (d, replicate (num_workers (d_group d)) []) = Inr s \<and> pushed ts d js s \<and>
    (\<forall>i. i \<notin> set (tile_order srt F thr d) \<longrightarrow> count_list js i = 0) \<and>
    (\<forall>p<length (tile_order srt F thr d). count_list js (tile_order srt F thr d ! p) =
       share (nat (getTotalTiles (d_fb d))) (length (tile_order srt F thr d)) p)"
proof -
  let ?order = "tile_order srt F thr d" and ?total = "nat (getTotalTiles (d_fb d))"
  let ?act = "filter (slave_active F thr d) [0..<?total]" and ?n = "length (tile_order srt F thr d)"
  let ?sorted = "srt (more_error F) (active_tiles F thr d)"
  let ?s0 = "(d, replicate (num_workers (d_group d)) [])"
  have dok: "dfb_ok ts d" using m by (simp add: master_ready_def)
  note order = tile_order_active [OF dok srt, of F thr]
  have start: "pushed ts d [] ?s0" by (rule pushed_start [OF m])
  define s1 where "s1 = push_all junk ?act ?s0"
  have first: "first_tasks F thr junk [0..<?total] ?s0 [] = Inr (s1, active_tiles F thr d)"
    using first_tasks_ok [OF m start, of "[0..<?total]" F thr junk "[]"] by (simp add: s1_def active_tiles_def)
  have s1: "pushed ts d ?act s1"
    using push_all_pushed [OF m start, of ?act junk] by (simp add: s1_def)
  have fb: "d_fb (fst s1) = d_fb d" using s1 by (simp add: pushed_def)
  show ?thesis
  proof (cases "active_tiles F thr d = []")
    case True
    then have none: "?act = []" by (simp add: active_tiles_def)
    then have "?order = []" using order(1) by simp
    then show ?thesis using first True s1 none
      by (intro exI [of _ "[]"] exI [of _ s1]) (simp add: generateTileTasks_def)
  next
    case False
    have perm: "mset ?sorted = mset (active_tiles F thr d)" using srt by (simp add: permutes_def)
    have n: "length ?sorted = ?n" by (simp add: tile_order_def)
    have nth: "?order ! j = tile_index (d_fb d) (at_id (?sorted ! j))" if "j < length ?sorted" for j
      using that by (simp add: tile_order_def)
    have "?n = length ?act" using mset_eq_length [OF order(1)] .
    then have n_le: "?n \<le> ?total" using length_filter_le [of _ "[0..<?total]"] by simp
    have n_pos: "0 < ?n" using False mset_eq_length [OF perm] n by simp
    have ids: "\<forall>a\<in>set ?sorted. \<exists>i<?total. at_id a = tile_of_task (d_fb d) i"
      unfolding mset_eq_setD [OF perm] by (auto simp: active_tiles_def)
    define extra where "extra = map (\<lambda>k. ?order ! (k mod ?n)) [0..<?total - ?n]"
    have "cycle (?total - ?n) ?sorted (drop 0 ?sorted) = map (\<lambda>k. ?sorted ! ((0 + k) mod length ?sorted)) [0..<?total - ?n]"
      using n n_pos by (intro cycle_eq) simp
    then have cyc: "map (\<lambda>a. tile_index (d_fb d) (at_id a)) (cycle (?total - ?n) ?sorted ?sorted) = extra"
      using n_pos nth by (simp add: extra_def n)
    have more: "more_tasks junk (?total - ?n) ?sorted ?sorted s1 = push_all junk extra s1"
      using more_tasks_eq [OF m ids s1, of ?sorted junk "?total - ?n"] cyc by simp
    define s2 where "s2 = push_all junk extra s1"
    have extra_range: "\<forall>k\<in>set extra. k \<in> set ?order" using n_pos by (auto simp: extra_def)
    then have s2: "pushed ts d (?act @ extra) s2"
      unfolding s2_def using order(3) by (intro push_all_pushed [OF m s1]) auto
    have gen: "generateTileTasks srt F thr junk ?s0 = Inr s2"
      using first False more n by (simp add: generateTileTasks_def fb s2_def Let_def)
    have "count_list (?act @ extra) i = count_list (?order @ extra) i" for i
      using order(1) by (simp flip: count_mset)
    moreover have "?order @ extra = map (\<lambda>k. ?order ! (k mod ?n)) [0..<?total]"
    proof -
      have "map (\<lambda>k. ?order ! (k mod ?n)) [0..<?n + (?total - ?n)] =
          map (\<lambda>k. ?order ! (k mod ?n)) [0..<?n] @ map (\<lambda>k. ?order ! (k mod ?n)) [?n..<?n + (?total - ?n)]"
        using upt_add_eq_append [of 0 ?n "?total - ?n"] by simp
      also have "map (\<lambda>k. ?order ! (k mod ?n)) [0..<?n] = ?order" by (rule nth_equalityI) simp_all
      also have "map (\<lambda>k. ?order ! (k mod ?n)) [?n..<?n + (?total - ?n)] = extra"
        unfolding map_upt_shift extra_def by simp
      finally show ?thesis using n_le by simp
    qed
    ultimately have counts: "count_list (?act @ extra) i = count_list (map (\<lambda>k. ?order ! (k mod ?n)) [0..<?total]) i" for i
      by simp
    have "count_list (?act @ extra) i = 0" if "i \<notin> set ?order" for i
      using that extra_range order(3) by (intro count_notin) auto
    moreover have "count_list (?act @ extra) (?order ! p) = share ?total ?n p" if "p < ?n" for p
      unfolding counts by (rule count_cycle [OF order(2) that])
    ultimately show ?thesis using gen s2 by blast
  qed
qed

lemma filter_sum_mset: "filter_mset P (\<Sum>i<n. f i) = (\<Sum>i<(n::nat). filter_mset P (f i))"
  by (induction n) simp_all

lemma task_in_sum: "t \<in># (\<Sum>j<(n::nat). f j) \<longleftrightarrow> (\<exists>j<n. t \<in># f j)"
  by (induction n) (auto simp: less_Suc_eq)

lemma tasks_of_tile:
  assumes ok: "frame_ok ts (d_fb d)" and i: "i < n"
  shows "filter_mset (\<lambda>t. task_tileId t = tile_of_task (d_fb d) i) (\<Sum>j<n. tile_tasks d j (c j)) = tile_tasks d i (c i)"
proof -
  have "filter_mset (\<lambda>t. task_tileId t = tile_of_task (d_fb d) i) (tile_tasks d j k) =
      (if j = i then tile_tasks d j k else {#})" for j k
    using tile_of_task_inject [OF ok] by (induction k) (auto simp: tile_tasks_def)
  then show ?thesis unfolding filter_sum_mset using i by simp
qed

text \<open>C12 The tasks of a dynamically balanced frame.  For every frame of the master, whatever
  the errors and the threshold, and however \<open>std::sort\<close> orders equal errors: a tile above
  the threshold that is at position \<open>p\<close> of the \<open>k\<close> sorted tiles gets a \<open>k\<close>-th of as many
  tasks as there are tiles, rounded up for the first positions, and the others get none; the tasks of a tile carry successive
  accumulation numbers; the frame buffer expects as many instances of the tile (or does
  not count them without accumulation); and the tasks wait in the queue of the worker
  that owns the tile.\<close>

theorem dynamic_tasks_share_frame:
  assumes "master_ready ts d" and "permutes srt"
  shows "\<exists>d' qs. generateTileTasks srt F thr junk (d, replicate (num_workers (d_group d)) []) = Inr (d', qs) \<and>
    (\<forall>i<nat (getTotalTiles (d_fb d)). \<exists>n.
       (i \<notin> set (tile_order srt F thr d) \<longrightarrow> n = 0) \<and>
       (\<forall>p<length (tile_order srt F thr d). tile_order srt F thr d ! p = i \<longrightarrow>
          n = share (nat (getTotalTiles (d_fb d))) (length (tile_order srt F thr d)) p) \<and>
       filter_mset (\<lambda>t. task_tileId t = tile_of_task (d_fb d) i) (tasks_of qs) = tile_tasks d i n \<and>
       tileInstances d' ! i = (if hasAccumBuffer (d_fb d) then int n else 0)) \<and>
    (\<forall>w<num_workers (d_group d). \<forall>t\<in>set (qs ! w).
       ownerIDFromTileID (d_group d) (tile_index (d_fb d) (task_tileId t)) = globalRankFromWorkerRank w)"
proof -
  from generateTileTasks_pushed [OF assms, of F thr junk] obtain js s where
    gen: "generateTileTasks srt F thr junk (d, replicate (num_workers (d_group d)) []) = Inr s"
    and s: "pushed ts d js s"
    and none: "\<forall>i. i \<notin> set (tile_order srt F thr d) \<longrightarrow> count_list js i = 0"
    and some: "\<forall>p<length (tile_order srt F thr d). count_list js (tile_order srt F thr d ! p) =
       share (nat (getTotalTiles (d_fb d))) (length (tile_order srt F thr d)) p" by blast
  have ok: "frame_ok ts (d_fb d)" using assms(1) by (simp add: master_ready_def dfb_ok_def)
  have "filter_mset (\<lambda>t. task_tileId t = tile_of_task (d_fb d) i) (tasks_of (snd s)) = tile_tasks d i (count_list js i)"
    if "i < nat (getTotalTiles (d_fb d))" for i
    using tasks_of_tile [OF ok that, of "count_list js"] s by (simp add: pushed_def)
  moreover have "tileInstances (fst s) ! i = (if hasAccumBuffer (d_fb d) then int (count_list js i) else 0)"
    if "i < nat (getTotalTiles (d_fb d))" for i
    using that s by (simp add: pushed_def)
  moreover have "\<forall>w<num_workers (d_group d). \<forall>t\<in>set (snd s ! w).
       ownerIDFromTileID (d_group d) (tile_index (d_fb d) (task_tileId t)) = globalRankFromWorkerRank w"
    using s by (simp add: pushed_def)
  ultimately show ?thesis using gen none some
    by (intro exI [of _ "fst s"] exI [of _ "snd s"]) auto
qed

section \<open>The whole frame\<close>

text \<open>\<open>Slave::tileTask\<close> makes the tile from the task.\<close>

definition task_part :: "int \<Rightarrow> bool \<Rightarrow> 'p \<Rightarrow> (ivec2 \<Rightarrow> int \<Rightarrow> 'p) \<Rightarrow> framebuffer \<Rightarrow> tile_task \<Rightarrow> 'p tile" where
  "task_part ts cont garbage R fb t =
     Tile ts (task_tileId t) (fb_size fb) (task_accumId t)
       (if cont then R (task_tileId t) (task_accumId t) else garbage) 0"

lemma part_index_task:
  assumes "frame_ok ts fb" and "task_tileId t = tile_of_task fb j"
  shows "part_index ts fb (task_part ts cont garbage R fb t) = j"
  using part_index_rendered [OF assms(1), of cont garbage R j "task_accumId t"] assms(2)
  by (cases cont) (simp_all add: task_part_def rendered_def)

text \<open>A worker at the start of the frame, with the values the master broadcasts.\<close>

definition worker_ready :: "int \<Rightarrow> ('s, 'e, 'p) dfb \<Rightarrow> nat \<Rightarrow> ('t, 'e, 'p) dfb \<Rightarrow> bool" where
  "worker_ready ts d r dw \<longleftrightarrow> dfb_ok ts dw \<and> d_fb dw = d_fb d \<and> 0 < r \<and>
     d_group dw = (d_group d)\<lparr>globalRank := r\<rparr> \<and> \<not> frameIsActive dw \<and> delayedMessage dw = []"

lemma slave_active_synced:
  assumes "master_ready ts d" and "worker_ready ts d r dw" and "d_fb d0 = d_fb dw"
    and "d_errors d0 = sync_errors (tileErrorBuffer (d_errors d)) (d_errors dw)"
  shows "slave_active F thr d0 = slave_active F thr d"
proof -
  have "error_of F (d_fb d0) (d_errors d0) i = error_of F (d_fb d) (d_errors d) i" for i
  proof (cases "hasVarianceBuffer (d_fb d)")
    case True
    have ok: "frame_ok ts (d_fb d)" using assms(1) by (simp add: master_ready_def dfb_ok_def)
    then have "0 < getTotalTiles (d_fb d)" using frame_ok_numTiles by (simp add: getTotalTiles_def)
    moreover have "tiles (d_errors dw) = getTotalTiles (d_fb d)"
      using assms(2) True unfolding worker_ready_def dfb_ok_def by simp
    ultimately show ?thesis using assms(2,3,4) True by (simp add: error_of_def sync_errors_def worker_ready_def)
  qed (use assms(2,3) in \<open>simp add: error_of_def worker_ready_def\<close>)
  then show ?thesis using assms(2,3) by (simp add: slave_active_def fun_eq_iff worker_ready_def)
qed

lemma arrived_counts:
  assumes m: "master_ready ts d" and s: "pushed ts d js s"
    and ps: "mset ps = filter_mset (\<lambda>p. ownerIDFromTileID (d_group d) (part_index ts (d_fb d) p) = r)
      (image_mset (task_part ts cont garbage R (d_fb d)) (tasks_of (snd s)))"
    and i: "i < nat (getTotalTiles (d_fb d))" "ownerIDFromTileID (d_group d) i = r"
  shows "size (mset (parts_for ts (d_fb d) i ps)) = count_list js i"
proof -
  let ?part = "task_part ts cont garbage R (d_fb d)"
  have ok: "frame_ok ts (d_fb d)" using m by (simp add: master_ready_def dfb_ok_def)
  have tasks: "tasks_of (snd s) = (\<Sum>j<nat (getTotalTiles (d_fb d)). tile_tasks d j (count_list js j))"
    using s by (simp add: pushed_def)
  have "\<exists>j. task_tileId t = tile_of_task (d_fb d) j" if "t \<in># tasks_of (snd s)" for t
    using that unfolding tasks task_in_sum by (auto simp: tile_tasks_def)
  then have idx: "part_index ts (d_fb d) (?part t) = i \<longleftrightarrow> task_tileId t = tile_of_task (d_fb d) i"
    if "t \<in># tasks_of (snd s)" for t
    using that part_index_task [OF ok] tile_of_task_inject [OF ok] by metis
  have "mset (parts_for ts (d_fb d) i ps) = filter_mset (\<lambda>p. part_index ts (d_fb d) p = i) (mset ps)"
    by (simp add: parts_for_def)
  also have "\<dots> = filter_mset (\<lambda>p. part_index ts (d_fb d) p = i) (image_mset ?part (tasks_of (snd s)))"
    unfolding ps filter_filter_mset using i(2) by (intro filter_mset_cong) auto
  also have "\<dots> = image_mset ?part (filter_mset (\<lambda>t. part_index ts (d_fb d) (?part t) = i) (tasks_of (snd s)))"
    by (simp add: filter_mset_image_mset)
  also have "filter_mset (\<lambda>t. part_index ts (d_fb d) (?part t) = i) (tasks_of (snd s)) =
      filter_mset (\<lambda>t. task_tileId t = tile_of_task (d_fb d) i) (tasks_of (snd s))"
    using idx by (intro filter_mset_cong refl)
  also have "\<dots> = tile_tasks d i (count_list js i)" unfolding tasks by (rule tasks_of_tile [OF ok i(1)])
  finally show ?thesis by (simp add: tile_tasks_def)
qed

lemma parts_for_append: "parts_for ts fb i (xs @ ys) = parts_for ts fb i xs @ parts_for ts fb i ys"
  by (simp add: parts_for_def)

text \<open>Any parts whose numbers the tiles expect complete the frame with the last one.\<close>

lemma frame_done_last:
  fixes d0 :: "('p write_tile, 'e, 'p) dfb"
  assumes start: "write_multiple.frame_setup ts A (\<lambda>i. mset (parts_for ts (d_fb d0) i ps)) d0"
    and mem: "\<forall>p\<in>set ps. part_index ts (d_fb d0) p \<in> A" and k: "k \<le> length ps"
  shows "\<exists>d1. deliver_all ts WriteMultipleTile_process write_completed (take k ps) d0 = Inr d1 \<and>
    (frameIsDone d1 \<longleftrightarrow> k = length ps)"
proof -
  let ?pf = "parts_for ts (d_fb d0)"
  have cat: "?pf i ps = ?pf i (take k ps) @ ?pf i (drop k ps)" for i
    by (simp flip: parts_for_append)
  obtain d1 where d1: "deliver_all ts WriteMultipleTile_process write_completed (take k ps) d0 = Inr d1"
    "write_multiple.frame_inv ts A (\<lambda>i. mset (?pf i ps)) d0 (take k ps) d1"
    using write_multiple.frame_run [OF start, of "take k ps"] mem cat by (auto dest: in_set_takeD)
  have "frameIsDone d1 \<longleftrightarrow> (\<forall>i\<in>A. ?pf i (drop k ps) = [])"
    using d1(2) by (simp add: write_multiple.frame_inv_def cat)
  also have "\<dots> \<longleftrightarrow> drop k ps = []"
  proof
    assume none: "\<forall>i\<in>A. ?pf i (drop k ps) = []"
    show "drop k ps = []"
    proof (rule ccontr)
      assume "drop k ps \<noteq> []"
      then obtain q where q: "q \<in> set (drop k ps)" by (meson list.set_sel(1))
      then have "q \<in> set (?pf (part_index ts (d_fb d0) q) (drop k ps))" by (simp add: parts_for_def)
      with none mem q show False by (auto dest: in_set_dropD)
    qed
  qed (simp add: parts_for_def)
  finally show ?thesis using d1(1) k by auto
qed

text \<open>C2 A dynamically balanced frame is completed.  The master generates the tasks of a
  frame, the load balancer runs to its end in any order of its steps, and a worker starts the frame
  with the errors and the instance counts of the master.  Whatever the order in which the rendered
  parts of its tiles arrive, the frame of this worker is done with the last one and not
  before.\<close>

theorem dynamic_frame_completes:
  fixes dw :: "('p write_tile, 'e, 'p) dfb"
  assumes "master_ready ts d" and "permutes srt" and "0 < np"
    and "generateTileTasks srt F thr junk (d, replicate (num_workers (d_group d)) []) = Inr (d', qs)"
    and "dyn_steps junk (dyn_start np (num_workers (d_group d)) qs) n s" and "\<forall>s'. \<not> dyn_step junk s s'"
    and "worker_ready ts d r dw" and "hasAccumBuffer (d_fb d) \<or> \<not> fleq F (finf F) thr"
    and "mset ps = mset (filter (\<lambda>p. ownerIDFromTileID (d_group d) (part_index ts (d_fb d) p) = r)
      (map (task_part ts cont garbage R (d_fb d)) (setTiles s)))"
  shows "\<exists>d0. startNewFrame ts WriteMultipleTile_newFrame WriteMultipleTile_process write_completed preAccum
       F thr (tileErrorBuffer (d_errors d)) (tileInstances d') dw = Inr d0 \<and>
     (\<forall>k\<le>length ps. \<exists>d1. deliver_all ts WriteMultipleTile_process write_completed (take k ps) d0 = Inr d1 \<and>
       (frameIsDone d1 \<longleftrightarrow> k = length ps))"
proof -
  let ?total = "nat (getTotalTiles (d_fb d))" and ?nw = "num_workers (d_group d)"
  have ok: "frame_ok ts (d_fb d)" using assms(1) by (simp add: master_ready_def dfb_ok_def)
  from generateTileTasks_pushed [OF assms(1,2), of F thr junk] assms(4) obtain js where
    s: "pushed ts d js (d', qs)"
    and none: "\<And>i. i \<notin> set (tile_order srt F thr d) \<Longrightarrow> count_list js i = 0"
    and some: "\<And>p. p < length (tile_order srt F thr d) \<Longrightarrow> count_list js (tile_order srt F thr d ! p) =
       share ?total (length (tile_order srt F thr d)) p" by auto
  have len: "length qs = ?nw" "0 < ?nw" using s assms(1) by (simp_all add: pushed_def master_ready_def num_workers_def)
  have "mset (setTiles s) = tasks_of qs"
    using stuck_is_finished [OF _ len(2) assms(6)] dyn_steps_inv [OF assms(5) dyn_start_inv(1) [OF len(2) assms(3) len(1)]]
    by blast
  then have ps: "mset ps = filter_mset (\<lambda>p. ownerIDFromTileID (d_group d) (part_index ts (d_fb d) p) = r)
      (image_mset (task_part ts cont garbage R (d_fb d)) (tasks_of (snd (d', qs))))"
    using assms(9) by simp
  have dok: "dfb_ok ts d" using assms(1) by (simp add: master_ready_def)
  note order = tile_order_active [OF dok assms(2), of F thr]
  have n_le: "length (tile_order srt F thr d) \<le> ?total"
    using mset_eq_length [OF order(1)] length_filter_le [of _ "[0..<?total]"] by simp
  have active: "count_list js i \<noteq> 0 \<longleftrightarrow> i < ?total \<and> slave_active F thr d i" for i
  proof
    show "i < ?total \<and> slave_active F thr d i" if "count_list js i \<noteq> 0"
      using that none [of i] order(3) by auto
    assume "i < ?total \<and> slave_active F thr d i"
    then have "i \<in> set (tile_order srt F thr d)" unfolding order(3) by simp
    then obtain p where p: "p < length (tile_order srt F thr d)" "tile_order srt F thr d ! p = i"
      by (auto simp: in_set_conv_nth)
    have "0 < ?total div length (tile_order srt F thr d)" using p(1) n_le by (intro div_greater_zero_iff [THEN iffD2]) auto
    with some [OF p(1)] p(2) show "count_list js i \<noteq> 0" by (simp add: share_def)
  qed
  have dw: "dfb_ok ts dw" "counts_own_tiles (d_group dw)" "\<not> frameIsActive dw" "delayedMessage dw = []" "d_fb dw = d_fb d"
    using assms(7) by (auto simp: worker_ready_def counts_own_tiles_def IamAWorker_def)
  have own: "ownerIDFromTileID (d_group dw) i = ownerIDFromTileID (d_group d) i" "globalRank (d_group dw) = r" for i
    using assms(7) by (simp_all add: worker_ready_def ownerIDFromTileID_def num_workers_def)
  obtain d0 where d0: "startNewFrame ts WriteMultipleTile_newFrame WriteMultipleTile_process write_completed preAccum
      F thr (tileErrorBuffer (d_errors d)) (tileInstances d') dw = Inr d0"
    "frame_started ts WriteMultipleTile_newFrame F thr (tileErrorBuffer (d_errors d)) (tileInstances d') dw d0"
    using startNewFrame_ok [OF dw(1-4)] by blast
  have st: "d_fb d0 = d_fb dw" "my_tile d0 = my_tile dw" "d_errors d0 = sync_errors (tileErrorBuffer (d_errors d)) (d_errors dw)"
    using d0(2) by (auto simp: frame_started_def my_tile_def)
  have act: "slave_active F thr d0 = slave_active F thr d" by (rule slave_active_synced [OF assms(1,7) st(1,3)])
  let ?A = "{i. my_tile d0 i \<and> slave_active F thr d0 i}"
  have "write_multiple.frame_setup ts ?A (\<lambda>i. mset (parts_for ts (d_fb d0) i ps)) d0"
  proof (rule write_frame_setup [OF d0(2) dw(2)])
    show "hasAccumBuffer (d_fb dw) \<or> \<not> fleq F (finf F) thr" using assms(8) dw(5) by simp
    fix i assume i: "my_tile dw i" "slave_active F thr d0 i"
    then have it: "i < ?total" "ownerIDFromTileID (d_group d) i = r" by (simp_all add: my_tile_def own dw(5))
    have n: "size (mset (parts_for ts (d_fb d) i ps)) = count_list js i" by (rule arrived_counts [OF assms(1) s ps it])
    have inst: "tileInstances d' ! i = (if hasAccumBuffer (d_fb d) then int (count_list js i) else 0)"
      using s it(1) by (simp add: pushed_def)
    have pos: "count_list js i \<noteq> 0" unfolding active using it(1) i(2) act by simp
    have "count_list js i = 1" if no: "\<not> hasAccumBuffer (d_fb d)"
    proof -
      have "slave_active F thr d j" for j
        using assms(8) no ok by (auto simp: slave_active_def error_of_def frame_ok_def)
      then have "length (tile_order srt F thr d) = ?total" using mset_eq_length [OF order(1)] by (simp add: filter_True)
      moreover obtain p where "p < length (tile_order srt F thr d)" "tile_order srt F thr d ! p = i"
        using none [of i] pos by (auto simp: in_set_conv_nth)
      ultimately show ?thesis using some [of p] by (simp add: share_def)
    qed
    then show "write_parts (nat (tileInstances d' ! i)) (mset (parts_for ts (d_fb d0) i ps))"
      using n pos inst st(1) dw(5) by (simp add: write_parts_def max_def)
  qed
  moreover have "\<forall>p\<in>set ps. part_index ts (d_fb d0) p \<in> ?A"
  proof
    fix p assume p: "p \<in> set ps"
    then have "p \<in># mset ps" by simp
    then obtain t where t: "t \<in># tasks_of qs" "p = task_part ts cont garbage R (d_fb d) t"
      and r: "ownerIDFromTileID (d_group d) (part_index ts (d_fb d) p) = r" unfolding ps by auto
    obtain j where j: "j < ?total" "t \<in># tile_tasks d j (count_list js j)"
      using t(1) s by (auto simp: pushed_def task_in_sum)
    then have "task_tileId t = tile_of_task (d_fb d) j" "count_list js j \<noteq> 0" by (auto simp: tile_tasks_def)
    then have "part_index ts (d_fb d) p = j" "slave_active F thr d j"
      unfolding t(2) using part_index_task [OF ok] active by auto
    with j(1) r show "part_index ts (d_fb d0) p \<in> ?A" by (simp add: st dw(5) my_tile_def own act)
  qed
  ultimately show ?thesis using d0(1) frame_done_last [of ts ?A d0 ps] by blast
qed

section \<open>Example frames\<close>

fun insert_by :: "('a \<Rightarrow> 'a \<Rightarrow> bool) \<Rightarrow> 'a \<Rightarrow> 'a list \<Rightarrow> 'a list" where
  "insert_by R x [] = [x]"
| "insert_by R x (y # ys) = (if R y x then y # insert_by R x ys else x # y # ys)"

definition sort_by :: "('a \<Rightarrow> 'a \<Rightarrow> bool) \<Rightarrow> 'a list \<Rightarrow> 'a list" where
  "sort_by R xs = foldr (insert_by R) xs []"

lemma permutes_sort_by: "permutes sort_by"
proof -
  have ins: "mset (insert_by R x ys) = add_mset x (mset ys)" for R and x :: "'a active_tile" and ys
    by (induction ys) auto
  have "mset (foldr (insert_by R) xs []) = mset xs" for R and xs :: "'a active_tile list"
    by (induction xs) (simp_all add: ins)
  then show ?thesis by (simp add: permutes_def sort_by_def)
qed

definition four_tiles :: "(unit write_tile, int, unit) dfb" where
  "four_tiles = (DistributedFrameBuffer int_arith 64 (\<lambda>_. fresh_write)
     \<lparr>globalRank = 0, numGlobalRanks = 3, masterIsAWorker = False\<rparr> small_frame)
     \<lparr>d_errors := (TileError int_arith (2, 2))\<lparr>tileErrorBuffer := [5, 20, 5, 30]\<rparr>\<rparr>"

lemma four_tiles_ready: "master_ready 64 four_tiles"
proof -
  have "frame_ok 64 small_frame" using frame_ok_FrameBuffer [OF small_frame_made] by simp
  from dfb_ok_made [OF this, of int_arith "\<lambda>_. fresh_write"] show ?thesis
    by (simp add: master_ready_def four_tiles_def dfb_ok_def DistributedFrameBuffer_def TileError_def TileError_clear_def
        small_frame_def getTotalTiles_def)
qed

theorem dynamic_tasks_share_frame_witness:
  "\<exists>d' qs. generateTileTasks sort_by int_arith 10 one_task (four_tiles, [[], []]) = Inr (d', qs) \<and>
     tileInstances d' ! 3 = 2 \<and> tileInstances d' ! 0 = 0"
proof -
  have fb: "d_fb four_tiles = small_frame" "num_workers (d_group four_tiles) = 2"
    by (simp_all add: four_tiles_def DistributedFrameBuffer_def num_workers_def)
  let ?order = "tile_order sort_by int_arith 10 four_tiles"
  have order: "?order = [3, 1]" by code_simp
  let ?n = "nat (getTotalTiles (d_fb four_tiles))"
  have total: "?n = 4" "hasAccumBuffer (d_fb four_tiles)" by (simp_all add: fb small_frame_def getTotalTiles_def)
  from dynamic_tasks_share_frame [OF four_tiles_ready permutes_sort_by, of int_arith 10 one_task] obtain d' qs where
    gen: "generateTileTasks sort_by int_arith 10 one_task (four_tiles, replicate (num_workers (d_group four_tiles)) []) = Inr (d', qs)"
    and tiles: "\<forall>i<?n. \<exists>n. (i \<notin> set ?order \<longrightarrow> n = 0) \<and>
       (\<forall>p<length ?order. ?order ! p = i \<longrightarrow> n = share ?n (length ?order) p) \<and>
       filter_mset (\<lambda>t. task_tileId t = tile_of_task (d_fb four_tiles) i) (tasks_of qs) = tile_tasks four_tiles i n \<and>
       tileInstances d' ! i = (if hasAccumBuffer (d_fb four_tiles) then int n else 0)"
    by (elim exE conjE) (rule that)
  have "share 4 (Suc (Suc 0)) 0 = 2" by code_simp
  then have "tileInstances d' ! 3 = 2"
    using tiles [rule_format, of 3] unfolding order total(1) by (auto simp: total(2) less_Suc_eq)
  moreover have "tileInstances d' ! 0 = 0"
    using tiles [rule_format, of 0] unfolding order total(1) by (auto simp: total(2))
  ultimately have "tileInstances d' ! 3 = 2 \<and> tileInstances d' ! 0 = 0" by simp
  with gen fb show ?thesis by (auto simp: numeral_eq_Suc)
qed

definition one_tile :: framebuffer where
  "one_tile = \<lparr>fb_size = (3, 2), numTiles = (1, 1), maxValidPixelID = (2, 1), colorBufferFormat = OSP_FB_RGBA8,
     hasDepthBuffer = False, hasAccumBuffer = True, hasVarianceBuffer = False, hasNormalBuffer = False,
     hasAlbedoBuffer = False, frameID = - 1\<rparr>"

definition one_tile_on :: "nat \<Rightarrow> (unit write_tile, int, unit) dfb" where
  "one_tile_on r = DistributedFrameBuffer int_arith 4 (\<lambda>_. fresh_write)
     \<lparr>globalRank = r, numGlobalRanks = 2, masterIsAWorker = False\<rparr> one_tile"

lemma one_tile_made: "FrameBuffer True 4 (3, 2) OSP_FB_RGBA8 4 = Inr one_tile"
  by code_simp

lemma one_tile_on_simps:
  "d_fb (one_tile_on r) = one_tile" "num_workers (d_group (one_tile_on r)) = 1"
  by (simp_all add: one_tile_on_def DistributedFrameBuffer_def num_workers_def)

lemma one_tile_on_ok: "dfb_ok 4 (one_tile_on r)"
  unfolding one_tile_on_def using frame_ok_FrameBuffer [OF one_tile_made] by (intro dfb_ok_made) simp

lemma one_tile_ready:
  "master_ready 4 (one_tile_on 0)" "worker_ready 4 (one_tile_on 0) 1 (one_tile_on 1)"
proof -
  show "master_ready 4 (one_tile_on 0)"
    using one_tile_on_ok by (simp add: master_ready_def one_tile_on_def DistributedFrameBuffer_def)
  show "worker_ready 4 (one_tile_on 0) 1 (one_tile_on 1)"
    using one_tile_on_ok [of 1] by (simp add: worker_ready_def one_tile_on_def DistributedFrameBuffer_def)
qed

lemma one_tile_tasks:
  "\<exists>d'. generateTileTasks sort_by int_arith 10 one_task (one_tile_on 0, [[]]) = Inr (d', [[one_task]]) \<and> tileInstances d' = [1]"
  by (simp add: generateTileTasks_def one_tile_on_simps one_tile_def getTotalTiles_def DFB_tileError_def
      TileError_get_def push_task_def DFB_accumID_def tile_of_task_def getNumTiles_def sort_by_def Let_def
      one_tile_on_def DistributedFrameBuffer_def TileError_def TileError_clear_def int_arith_def tile_index_def
      ownerIDFromTileID_def num_workers_def workerRankFromGlobalRank_def globalRankFromWorkerRank_def one_task_def)

lemma one_done_stuck: "\<not> dyn_step one_task one_done s'"
  by (auto elim!: dyn_step.cases simp: one_done_def slave_start_def)

lemma one_part_owner:
  "ownerIDFromTileID (d_group (one_tile_on 0)) (part_index 4 one_tile (task_part 4 True () R one_tile one_task)) = 1"
proof -
  have "ownerIDFromTileID (d_group (one_tile_on 0)) n = 1" for n
    by (simp add: one_tile_on_def DistributedFrameBuffer_def ownerIDFromTileID_def num_workers_def globalRankFromWorkerRank_def)
  then show ?thesis by blast
qed

theorem dynamic_frame_completes_witness:
  "\<exists>d0 d1. startNewFrame 4 WriteMultipleTile_newFrame WriteMultipleTile_process write_completed None int_arith 10
       (tileErrorBuffer (d_errors (one_tile_on 0))) [1] (one_tile_on 1) = Inr d0 \<and>
     deliver_all 4 WriteMultipleTile_process write_completed [task_part 4 True () (\<lambda>_ _. ()) one_tile one_task] d0 = Inr d1 \<and>
     frameIsDone d1"
proof -
  let ?p = "task_part 4 True () (\<lambda>_ _. ()) one_tile one_task"
  obtain d' where gen: "generateTileTasks sort_by int_arith 10 one_task
      (one_tile_on 0, replicate (num_workers (d_group (one_tile_on 0))) []) = Inr (d', [[one_task]])"
    and inst: "tileInstances d' = [1]"
    using one_tile_tasks by (auto simp: one_tile_on_simps)
  have run: "dyn_steps one_task (dyn_start 1 (num_workers (d_group (one_tile_on 0))) [[one_task]]) 6 one_done"
    using one_run by (simp add: one_tile_on_simps)
  have acc: "hasAccumBuffer (d_fb (one_tile_on 0)) \<or> \<not> fleq int_arith (finf int_arith) 10"
    by (simp add: one_tile_on_simps one_tile_def)
  have ps: "mset [?p] = mset (filter (\<lambda>p. ownerIDFromTileID (d_group (one_tile_on 0)) (part_index 4 (d_fb (one_tile_on 0)) p) = 1)
      (map (task_part 4 True () (\<lambda>_ _. ()) (d_fb (one_tile_on 0))) (setTiles one_done)))"
    using one_part_owner by (simp add: one_done_def one_tile_on_simps)
  from dynamic_frame_completes [OF one_tile_ready(1) permutes_sort_by zero_less_one gen run _ one_tile_ready(2) acc ps, of None]
    one_done_stuck obtain d0 where
    d0: "startNewFrame 4 WriteMultipleTile_newFrame WriteMultipleTile_process write_completed None int_arith 10
       (tileErrorBuffer (d_errors (one_tile_on 0))) (tileInstances d') (one_tile_on 1) = Inr d0"
    and all: "\<forall>k\<le>length [?p]. \<exists>d1. deliver_all 4 WriteMultipleTile_process write_completed (take k [?p]) d0 = Inr d1 \<and>
       (frameIsDone d1 \<longleftrightarrow> k = length [?p])" by blast
  from all [rule_format, of 1] obtain d1 where
    "deliver_all 4 WriteMultipleTile_process write_completed [?p] d0 = Inr d1" "frameIsDone d1" by auto
  with d0 show ?thesis unfolding inst by blast
qed

end
