(* ===== verification/TileMessages.thy ===== *)
theory TileMessages
  imports DistFrame
begin

text \<open>
  The messages that carry finished tiles to the master
  (\<open>modules/mpi/fb/DistributedFrameBuffer_TileMessages.cpp\<close>) and what the master does with
  one (\<open>DistributedFrameBuffer::processMessage\<close>).  A message is its header and the cells
  of four bytes that follow it; offsets are counted in cells behind the header.  The
  fields of the structs that the master reads are packed, as all their members have
  a size that is a multiple of their alignment.
\<close>

section \<open>Commands\<close>

definition WORKER_WRITE_TILE :: u32 where "WORKER_WRITE_TILE = 2"
definition MASTER_WRITE_TILE_I8 :: u32 where "MASTER_WRITE_TILE_I8 = 4"
definition MASTER_WRITE_TILE_F32 :: u32 where "MASTER_WRITE_TILE_F32 = 8"
definition MASTER_TILE_HAS_DEPTH :: u32 where "MASTER_TILE_HAS_DEPTH = 16"
definition MASTER_TILE_HAS_AUX :: u32 where "MASTER_TILE_HAS_AUX = 32"

definition tagged :: "u32 \<Rightarrow> u32 \<Rightarrow> bool" where
  "tagged cmd tag \<longleftrightarrow> and cmd tag \<noteq> 0"

section \<open>Parts of a tile\<close>

definition cells :: "int \<Rightarrow> nat" where
  "cells ts = nat ts * nat ts"

text \<open>Copying outside of a buffer is undefined.\<close>

definition put :: "nat \<Rightarrow> 'w list \<Rightarrow> 'w list \<Rightarrow> 'w list res" where
  "put off xs b = (if off + length xs \<le> length b then Inr (take off b @ xs @ drop (off + length xs) b)
     else Inl Undefined_behaviour)"

definition fetch :: "nat \<Rightarrow> nat \<Rightarrow> 'w list \<Rightarrow> 'w list res" where
  "fetch off n b = (if off + n \<le> length b then Inr (take n (drop off b)) else Inl Undefined_behaviour)"

text \<open>A tile in memory: 16 cells with its region and counts, then the arrays \<open>r g b a z\<close> and
  \<open>nx ny nz ar ag ab\<close>.  \<open>sizeof(WriteTileMessage)\<close> counts the command, so a message without the
  auxiliary arrays carries one cell of \<open>nx\<close>.\<close>

definition tile_cells :: "int \<Rightarrow> nat" where "tile_cells ts = 16 + 11 * cells ts"

definition write_msg_cells :: "int \<Rightarrow> bool \<Rightarrow> nat" where
  "write_msg_cells ts hasAux = (if hasAux then tile_cells ts else 1 + 16 + 5 * cells ts)"

definition makeWriteTileMessage :: "int \<Rightarrow> bool \<Rightarrow> 'w list \<Rightarrow> (u32 \<times> 'w list) res" where
  "makeWriteTileMessage ts hasAux t = bind_res (fetch 0 (write_msg_cells ts hasAux) t) (\<lambda>xs. Inr (WORKER_WRITE_TILE, xs))"

definition unpackWriteTileMessage :: "int \<Rightarrow> bool \<Rightarrow> u32 \<times> 'w list \<Rightarrow> 'w list \<Rightarrow> 'w list res" where
  "unpackWriteTileMessage ts hasAux msg t = bind_res (fetch 0 (write_msg_cells ts hasAux) (snd msg)) (\<lambda>xs. put 0 xs t)"

text \<open>The counts and the colors and depths of the tile arrive, and with the auxiliary
  buffers all of it; what is not sent stays as it is.\<close>

lemma write_tile_message_arrives:
  assumes "0 < ts" and "length t = tile_cells ts" and "length garbage = tile_cells ts"
  shows "\<exists>msg t'. makeWriteTileMessage ts hasAux t = Inr msg \<and> unpackWriteTileMessage ts hasAux msg garbage = Inr t' \<and>
    length t' = tile_cells ts \<and> take (16 + 5 * cells ts) t' = take (16 + 5 * cells ts) t \<and> (hasAux \<longrightarrow> t' = t) \<and>
    drop (write_msg_cells ts hasAux) t' = drop (write_msg_cells ts hasAux) garbage"
proof -
  have "0 < cells ts" using assms(1) by (simp add: cells_def)
  then have "write_msg_cells ts hasAux \<le> tile_cells ts" "16 + 5 * cells ts \<le> write_msg_cells ts hasAux"
    by (simp_all add: write_msg_cells_def tile_cells_def)
  then show ?thesis using assms(2,3)
    by (auto simp: makeWriteTileMessage_def unpackWriteTileMessage_def fetch_def put_def write_msg_cells_def min_absorb1)
qed

section \<open>Building a message\<close>

definition pixelSize :: "fb_format \<Rightarrow> nat" where
  "pixelSize fmt = (case fmt of OSP_FB_NONE \<Rightarrow> 0 | OSP_FB_RGBA8 \<Rightarrow> 1 | OSP_FB_SRGBA \<Rightarrow> 1 | OSP_FB_RGBA32F \<Rightarrow> 4)"

definition header_cells :: nat where "header_cells = 4"

definition masterMsgSize :: "int \<Rightarrow> fb_format \<Rightarrow> bool \<Rightarrow> bool \<Rightarrow> bool \<Rightarrow> nat res" where
  "masterMsgSize ts fmt hasDepth hasNormal hasAlbedo =
    (if fmt = OSP_FB_NONE then Inl (Runtime_error ''Do not use per tile message for FB_NONE! (msgSize)'')
     else Inr (header_cells + pixelSize fmt * cells ts +
       (if hasDepth \<or> hasNormal \<or> hasAlbedo then cells ts else 0) +
       (if hasNormal \<or> hasAlbedo then 2 * 3 * cells ts else 0)))"

record ('e, 'w) master_message =
  msg_command :: u32
  msg_coords :: ivec2
  msg_error :: 'e
  msg_body :: "'w list"

text \<open>The final tile: the converted colors (room for four cells per pixel), the depth, and
  normals and albedos of three cells per pixel (the kernel that accumulates a tile
  has stored them as vectors from \<open>nx\<close> and \<open>ar\<close> on).\<close>

record 'w final_tile =
  ft_color :: "'w list"
  ft_z :: "'w list"
  ft_normal :: "'w list"
  ft_albedo :: "'w list"

definition MasterTileMessageBuilder ::
  "int \<Rightarrow> fb_format \<Rightarrow> bool \<Rightarrow> bool \<Rightarrow> bool \<Rightarrow> 'w \<Rightarrow> ivec2 \<Rightarrow> 'e \<Rightarrow> ('e, 'w) master_message res" where
  "MasterTileMessageBuilder ts fmt hasDepth hasNormal hasAlbedo garbage coords err =
     bind_res (masterMsgSize ts fmt hasDepth hasNormal hasAlbedo) (\<lambda>size. Inr
       \<lparr>msg_command = or (or (if fmt = OSP_FB_RGBA32F then MASTER_WRITE_TILE_F32 else MASTER_WRITE_TILE_I8)
            (if hasDepth then MASTER_TILE_HAS_DEPTH else 0))
          (if hasNormal \<or> hasAlbedo then MASTER_TILE_HAS_AUX else 0),
        msg_coords = coords, msg_error = err, msg_body = replicate (size - header_cells) garbage\<rparr>)"

definition setColor :: "int \<Rightarrow> fb_format \<Rightarrow> 'w list \<Rightarrow> 'w list \<Rightarrow> 'w list res" where
  "setColor ts fmt color b =
    (if fmt \<noteq> OSP_FB_NONE then put 0 (take (pixelSize fmt * cells ts) color) b else Inr b)"

definition setDepth :: "int \<Rightarrow> fb_format \<Rightarrow> bool \<Rightarrow> 'w list \<Rightarrow> 'w list \<Rightarrow> 'w list res" where
  "setDepth ts fmt hasDepth depth b =
    (if hasDepth then put (pixelSize fmt * cells ts) (take (cells ts) depth) b else Inr b)"

definition setNormal :: "int \<Rightarrow> fb_format \<Rightarrow> bool \<Rightarrow> 'w list \<Rightarrow> 'w list \<Rightarrow> 'w list res" where
  "setNormal ts fmt hasNormal normal b =
    (if hasNormal then put (pixelSize fmt * cells ts + cells ts) (take (3 * cells ts) normal) b else Inr b)"

definition setAlbedo :: "int \<Rightarrow> fb_format \<Rightarrow> bool \<Rightarrow> 'w list \<Rightarrow> 'w list \<Rightarrow> 'w list res" where
  "setAlbedo ts fmt hasAlbedo albedo b =
    (if hasAlbedo then put (pixelSize fmt * cells ts + cells ts + 3 * cells ts) (take (3 * cells ts) albedo) b
     else Inr b)"

text \<open>The lambda \<open>msg\<close> of \<open>tileIsCompleted\<close>.\<close>

definition master_msg ::
  "int \<Rightarrow> framebuffer \<Rightarrow> 'w \<Rightarrow> ivec2 \<Rightarrow> 'e \<Rightarrow> 'w final_tile \<Rightarrow> ('e, 'w) master_message res" where
  "master_msg ts fb garbage coords err f =
     bind_res (MasterTileMessageBuilder ts (colorBufferFormat fb) (hasDepthBuffer fb) (hasNormalBuffer fb)
         (hasAlbedoBuffer fb) garbage coords err) (\<lambda>m.
     bind_res (setColor ts (colorBufferFormat fb) (ft_color f) (msg_body m)) (\<lambda>b1.
     bind_res (setDepth ts (colorBufferFormat fb) (hasDepthBuffer fb) (ft_z f) b1) (\<lambda>b2.
     bind_res (setNormal ts (colorBufferFormat fb) (hasNormalBuffer fb) (ft_normal f) b2) (\<lambda>b3.
     bind_res (setAlbedo ts (colorBufferFormat fb) (hasAlbedoBuffer fb) (ft_albedo f) b3) (\<lambda>b4.
     Inr (m\<lparr>msg_body := b4\<rparr>))))))"

section \<open>Reading a message\<close>

record 'w master_fb =
  mf_color :: "'w list list"
  mf_depth :: "'w list"
  mf_normal :: "'w list list"
  mf_albedo :: "'w list list"

definition store :: "nat \<Rightarrow> 'a \<Rightarrow> 'a list \<Rightarrow> 'a list res" where
  "store j x xs = (if j < length xs then Inr (xs[j := x]) else Inl Undefined_behaviour)"

text \<open>The body of the loops over \<open>iy\<close> and \<open>ix\<close>; \<open>pc\<close> is the size of a \<open>ColorT\<close>.\<close>

definition write_pixel ::
  "int \<Rightarrow> framebuffer \<Rightarrow> nat \<Rightarrow> ('e, 'w) master_message \<Rightarrow> nat \<times> nat \<Rightarrow> 'w master_fb \<Rightarrow> 'w master_fb res" where
  "write_pixel ts fb pc m = (\<lambda>(ix, iy) mb.
    (let iiy = int iy + snd (msg_coords m); iix = int ix + fst (msg_coords m);
         j = nat (iix + iiy * fst (getNumPixels fb)); k = ix + iy * nat ts in
     if iiy \<ge> snd (getNumPixels fb) then Inr mb
     else if iix \<ge> fst (getNumPixels fb) then Inr mb
     else
       bind_res (bind_res (fetch (pc * k) pc (msg_body m)) (\<lambda>c. store j c (mf_color mb))) (\<lambda>color.
       bind_res (if hasDepthBuffer fb \<and> tagged (msg_command m) MASTER_TILE_HAS_DEPTH
         then bind_res (fetch (pc * cells ts + k) 1 (msg_body m)) (\<lambda>d. store j (hd d) (mf_depth mb))
         else Inr (mf_depth mb)) (\<lambda>depth.
       bind_res (if tagged (msg_command m) MASTER_TILE_HAS_AUX \<and> hasNormalBuffer fb
         then bind_res (fetch (pc * cells ts + cells ts + 3 * k) 3 (msg_body m)) (\<lambda>v. store j v (mf_normal mb))
         else Inr (mf_normal mb)) (\<lambda>normal.
       bind_res (if tagged (msg_command m) MASTER_TILE_HAS_AUX \<and> hasAlbedoBuffer fb
         then bind_res (fetch (pc * cells ts + cells ts + 3 * cells ts + 3 * k) 3 (msg_body m))
           (\<lambda>v. store j v (mf_albedo mb))
         else Inr (mf_albedo mb)) (\<lambda>albedo.
       Inr \<lparr>mf_color = color, mf_depth = depth, mf_normal = normal, mf_albedo = albedo\<rparr>))))))"

fun write_pixels where
  "write_pixels ts fb pc m [] mb = Inr mb"
| "write_pixels ts fb pc m (p # ps) mb = bind_res (write_pixel ts fb pc m p mb) (write_pixels ts fb pc m ps)"

definition tile_offsets :: "int \<Rightarrow> (nat \<times> nat) list" where
  "tile_offsets ts = concat (map (\<lambda>iy. map (\<lambda>ix. (ix, iy)) [0..<nat ts]) [0..<nat ts])"

definition update_error where
  "update_error F ts fb m te =
    (if hasVarianceBuffer fb
     then let tileID = (fst (msg_coords m) div ts, snd (msg_coords m) div ts) in
       if fless F (msg_error m) (finf F) then TileError_update tileID (msg_error m) te else Inr te
     else Inr te)"

definition process_master where
  "process_master F ts fb pc m s =
     bind_res (update_error F ts fb m (snd s)) (\<lambda>te.
     bind_res (write_pixels ts fb pc m (tile_offsets ts) (fst s)) (\<lambda>mb. Inr (mb, te)))"

definition process_gathered where
  "process_gathered F ts fb m s =
    (if tagged (msg_command m) MASTER_WRITE_TILE_I8 then process_master F ts fb 1 m s
     else if tagged (msg_command m) MASTER_WRITE_TILE_F32 then process_master F ts fb 4 m s
     else Inl (Runtime_error ''#dfb: non-master tile in final gather!''))"

text \<open>The messages of a gather, in the order in which they are processed.\<close>

fun process_messages where
  "process_messages F ts fb [] s = Inr s"
| "process_messages F ts fb (m # ms) s = bind_res (process_gathered F ts fb m s) (process_messages F ts fb ms)"

section \<open>Copying cells\<close>

lemma put_ok:
  assumes "off + length xs \<le> length b"
  obtains b' where "put off xs b = Inr b'" "length b' = length b"
    "\<And>q n. q + n \<le> off \<Longrightarrow> fetch q n b' = fetch q n b"
    "\<And>q n. off \<le> q \<Longrightarrow> q + n \<le> off + length xs \<Longrightarrow> fetch q n b' = Inr (take n (drop (q - off) xs))"
proof
  let ?b = "take off b @ xs @ drop (off + length xs) b"
  show "put off xs b = Inr ?b" using assms by (simp add: put_def)
  show len: "length ?b = length b" using assms by simp
  show "fetch q n ?b = fetch q n b" if "q + n \<le> off" for q n
  proof -
    have "take n (drop q ?b) = take n (drop q b)"
      using that assms by (intro nth_equalityI) (auto simp: nth_append)
    then show ?thesis by (simp only: fetch_def len)
  qed
  show "fetch q n ?b = Inr (take n (drop (q - off) xs))" if "off \<le> q" "q + n \<le> off + length xs" for q n
  proof -
    have "take n (drop q ?b) = take n (drop (q - off) xs)" using that assms by simp
    then show ?thesis using that assms by (simp add: fetch_def)
  qed
qed

text \<open>\<open>b'\<close> is \<open>b\<close> up to the offset, and holds \<open>xs\<close> from there when \<open>c\<close> has it written.\<close>

definition copied :: "bool \<Rightarrow> nat \<Rightarrow> 'w list \<Rightarrow> 'w list \<Rightarrow> 'w list \<Rightarrow> bool" where
  "copied c off xs b b' \<longleftrightarrow> length b' = length b \<and>
     (\<forall>q n. q + n \<le> off \<longrightarrow> fetch q n b' = fetch q n b) \<and>
     (c \<longrightarrow> (\<forall>q n. off \<le> q \<longrightarrow> q + n \<le> off + length xs \<longrightarrow> fetch q n b' = Inr (take n (drop (q - off) xs))))"

lemma copied_length: "copied c off xs b b' \<Longrightarrow> length b' = length b"
  by (simp add: copied_def)

lemma copied_before: "copied c off xs b b' \<Longrightarrow> q + n \<le> off \<Longrightarrow> fetch q n b' = fetch q n b"
  by (simp add: copied_def)

lemma copied_in:
  "copied c off xs b b' \<Longrightarrow> c \<Longrightarrow> off \<le> q \<Longrightarrow> q + n \<le> off + length xs \<Longrightarrow>
   fetch q n b' = Inr (take n (drop (q - off) xs))"
  by (simp add: copied_def)

lemma put_if_ok:
  assumes "c \<Longrightarrow> off + length xs \<le> length b"
  shows "\<exists>b'. (if c then put off xs b else Inr b) = Inr b' \<and> copied c off xs b b'"
proof (cases c)
  case True
  from assms [OF True] show ?thesis by (rule put_ok) (auto simp: True copied_def)
next
  case False
  then show ?thesis by (simp add: copied_def)
qed

text \<open>A complete final tile.\<close>

definition final_ok :: "int \<Rightarrow> 'w final_tile \<Rightarrow> bool" where
  "final_ok ts f \<longleftrightarrow> length (ft_color f) = 4 * cells ts \<and> length (ft_z f) = cells ts \<and>
     length (ft_normal f) = 3 * cells ts \<and> length (ft_albedo f) = 3 * cells ts"

lemma fetch_last_take:
  "off + n \<le> k \<Longrightarrow> take n (drop off (take k xs)) = take n (drop off xs)"
  by (simp add: drop_take)

text \<open>What the master finds in a message is what the owner put in.\<close>

lemma master_msg_ok:
  assumes fmt: "colorBufferFormat fb \<noteq> OSP_FB_NONE" and f: "final_ok ts f"
  defines "pc \<equiv> pixelSize (colorBufferFormat fb)" and "C \<equiv> cells ts"
  obtains m where "master_msg ts fb garbage coords err f = Inr m" "msg_coords m = coords" "msg_error m = err"
    "msg_command m = or (or (if colorBufferFormat fb = OSP_FB_RGBA32F then MASTER_WRITE_TILE_F32 else MASTER_WRITE_TILE_I8)
            (if hasDepthBuffer fb then MASTER_TILE_HAS_DEPTH else 0))
          (if hasNormalBuffer fb \<or> hasAlbedoBuffer fb then MASTER_TILE_HAS_AUX else 0)"
    "\<And>k. k < C \<Longrightarrow> fetch (pc * k) pc (msg_body m) = Inr (take pc (drop (pc * k) (ft_color f)))"
    "\<And>k. k < C \<Longrightarrow> hasDepthBuffer fb \<Longrightarrow> fetch (pc * C + k) 1 (msg_body m) = Inr [ft_z f ! k]"
    "\<And>k. k < C \<Longrightarrow> hasNormalBuffer fb \<Longrightarrow> fetch (pc * C + C + 3 * k) 3 (msg_body m) = Inr (take 3 (drop (3 * k) (ft_normal f)))"
    "\<And>k. k < C \<Longrightarrow> hasAlbedoBuffer fb \<Longrightarrow> fetch (pc * C + C + 3 * C + 3 * k) 3 (msg_body m) = Inr (take 3 (drop (3 * k) (ft_albedo f)))"
proof -
  let ?fmt = "colorBufferFormat fb" and ?d = "hasDepthBuffer fb" and ?n = "hasNormalBuffer fb" and ?a = "hasAlbedoBuffer fb"
  have pc: "pc \<le> 4" by (simp add: pc_def pixelSize_def split: fb_format.split)
  have lens: "length (ft_color f) = 4 * C" "length (ft_z f) = C" "length (ft_normal f) = 3 * C" "length (ft_albedo f) = 3 * C"
    using f by (simp_all add: final_ok_def C_def)
  define size where "size = pc * C + (if ?d \<or> ?n \<or> ?a then C else 0) + (if ?n \<or> ?a then 6 * C else 0)"
  let ?cmd = "or (or (if ?fmt = OSP_FB_RGBA32F then MASTER_WRITE_TILE_F32 else MASTER_WRITE_TILE_I8)
            (if ?d then MASTER_TILE_HAS_DEPTH else 0)) (if ?n \<or> ?a then MASTER_TILE_HAS_AUX else 0)"
  have built: "MasterTileMessageBuilder ts ?fmt ?d ?n ?a garbage coords err =
      Inr \<lparr>msg_command = ?cmd, msg_coords = coords, msg_error = err, msg_body = replicate size garbage\<rparr>"
    using fmt by (simp add: MasterTileMessageBuilder_def masterMsgSize_def size_def pc_def C_def)
  let ?col = "take (pc * C) (ft_color f)"
  have "pc * C \<le> 4 * C" using pc by simp
  then have col: "length ?col = pc * C" using lens by simp
  have fits1: "True \<Longrightarrow> 0 + length ?col \<le> length (replicate size garbage)"
    unfolding col by (simp add: size_def)
  obtain b1 where b1: "(if True then put 0 ?col (replicate size garbage) else Inr (replicate size garbage)) = Inr b1"
    and w1: "copied True 0 ?col (replicate size garbage) b1"
    using put_if_ok [OF fits1] by blast
  have fits2: "?d \<Longrightarrow> pc * C + length (ft_z f) \<le> length b1"
    unfolding lens copied_length [OF w1] by (simp add: size_def)
  obtain b2 where b2: "(if ?d then put (pc * C) (ft_z f) b1 else Inr b1) = Inr b2"
    and w2: "copied ?d (pc * C) (ft_z f) b1 b2"
    using put_if_ok [OF fits2] by blast
  have fits3: "?n \<Longrightarrow> pc * C + C + length (ft_normal f) \<le> length b2"
    unfolding lens copied_length [OF w2] copied_length [OF w1] by (simp add: size_def)
  obtain b3 where b3: "(if ?n then put (pc * C + C) (ft_normal f) b2 else Inr b2) = Inr b3"
    and w3: "copied ?n (pc * C + C) (ft_normal f) b2 b3"
    using put_if_ok [OF fits3] by blast
  have fits4: "?a \<Longrightarrow> pc * C + C + 3 * C + length (ft_albedo f) \<le> length b3"
    unfolding lens copied_length [OF w3] copied_length [OF w2] copied_length [OF w1] by (simp add: size_def)
  obtain b4 where b4: "(if ?a then put (pc * C + C + 3 * C) (ft_albedo f) b3 else Inr b3) = Inr b4"
    and w4: "copied ?a (pc * C + C + 3 * C) (ft_albedo f) b3 b4"
    using put_if_ok [OF fits4] by blast
  let ?m = "\<lparr>msg_command = ?cmd, msg_coords = coords, msg_error = err, msg_body = b4\<rparr>"
  have c1: "setColor ts ?fmt (ft_color f) (replicate size garbage) = Inr b1"
    using b1 fmt by (simp add: setColor_def pc_def C_def)
  have c2: "setDepth ts ?fmt ?d (ft_z f) b1 = Inr b2"
    unfolding setDepth_def pc_def [symmetric] C_def [symmetric] b2 [symmetric] by (simp only: take_all lens order_refl)
  have c3: "setNormal ts ?fmt ?n (ft_normal f) b2 = Inr b3"
    unfolding setNormal_def pc_def [symmetric] C_def [symmetric] b3 [symmetric] by (simp only: take_all lens order_refl)
  have c4: "setAlbedo ts ?fmt ?a (ft_albedo f) b3 = Inr b4"
    unfolding setAlbedo_def pc_def [symmetric] C_def [symmetric] b4 [symmetric] by (simp only: take_all lens order_refl)
  have "master_msg ts fb garbage coords err f = Inr ?m"
    by (simp add: master_msg_def built c1 c2 c3 c4 del: if_split)
  moreover have "fetch (pc * k) pc b4 = Inr (take pc (drop (pc * k) (ft_color f)))" if "k < C" for k
  proof -
    have "pc * (k + 1) \<le> pc * C" using that by (intro mult_le_mono2) simp
    then have le: "pc * k + pc \<le> pc * C" by simp
    have "fetch (pc * k) pc b4 = fetch (pc * k) pc b1"
      using copied_before [OF w2 le] copied_before [OF w3, of "pc * k" pc] copied_before [OF w4, of "pc * k" pc] le by simp
    also have "\<dots> = Inr (take pc (drop (pc * k) ?col))" using copied_in [OF w1, of "pc * k" pc] le col by simp
    finally show ?thesis using le by (simp add: fetch_last_take)
  qed
  moreover have "fetch (pc * C + k) 1 b4 = Inr [ft_z f ! k]" if "k < C" ?d for k
  proof -
    have "fetch (pc * C + k) 1 b4 = Inr (take 1 (drop k (ft_z f)))"
      using copied_in [OF w2, of "pc * C + k" 1] copied_before [OF w3, of "pc * C + k" 1] copied_before [OF w4, of "pc * C + k" 1] that lens(2) by simp
    moreover have "take 1 (drop k (ft_z f)) = [ft_z f ! k]" using that lens(2) by (simp flip: Cons_nth_drop_Suc)
    ultimately show ?thesis by simp
  qed
  moreover have "fetch (pc * C + C + 3 * k) 3 b4 = Inr (take 3 (drop (3 * k) (ft_normal f)))" if "k < C" ?n for k
    using copied_in [OF w3, of "pc * C + C + 3 * k" 3] copied_before [OF w4, of "pc * C + C + 3 * k" 3] that lens(3) by simp
  moreover have "fetch (pc * C + C + 3 * C + 3 * k) 3 b4 = Inr (take 3 (drop (3 * k) (ft_albedo f)))" if "k < C" ?a for k
    using copied_in [OF w4, of "pc * C + C + 3 * C + 3 * k" 3] that lens(4) by simp
  ultimately show ?thesis using that [of ?m] by simp
qed

text \<open>What a message says when it carries the final tile \<open>f\<close>.\<close>

definition carries :: "int \<Rightarrow> framebuffer \<Rightarrow> 'w final_tile \<Rightarrow> ('e, 'w) master_message \<Rightarrow> bool" where
  "carries ts fb f m \<longleftrightarrow>
     (let pc = pixelSize (colorBufferFormat fb); C = cells ts in
      msg_command m = or (or (if colorBufferFormat fb = OSP_FB_RGBA32F then MASTER_WRITE_TILE_F32 else MASTER_WRITE_TILE_I8)
            (if hasDepthBuffer fb then MASTER_TILE_HAS_DEPTH else 0))
          (if hasNormalBuffer fb \<or> hasAlbedoBuffer fb then MASTER_TILE_HAS_AUX else 0) \<and>
      (\<forall>k<C. fetch (pc * k) pc (msg_body m) = Inr (take pc (drop (pc * k) (ft_color f))) \<and>
        (hasDepthBuffer fb \<longrightarrow> fetch (pc * C + k) 1 (msg_body m) = Inr [ft_z f ! k]) \<and>
        (hasNormalBuffer fb \<longrightarrow> fetch (pc * C + C + 3 * k) 3 (msg_body m) = Inr (take 3 (drop (3 * k) (ft_normal f)))) \<and>
        (hasAlbedoBuffer fb \<longrightarrow>
           fetch (pc * C + C + 3 * C + 3 * k) 3 (msg_body m) = Inr (take 3 (drop (3 * k) (ft_albedo f))))))"

lemma master_msg_carries:
  assumes "colorBufferFormat fb \<noteq> OSP_FB_NONE" and "final_ok ts f"
  obtains m where "master_msg ts fb garbage coords err f = Inr m" "msg_coords m = coords" "msg_error m = err"
    "carries ts fb f m"
proof (rule master_msg_ok [OF assms])
  fix m
  assume "master_msg ts fb garbage coords err f = Inr m" "msg_coords m = coords" "msg_error m = err"
    and m: "msg_command m = or (or (if colorBufferFormat fb = OSP_FB_RGBA32F then MASTER_WRITE_TILE_F32 else MASTER_WRITE_TILE_I8)
            (if hasDepthBuffer fb then MASTER_TILE_HAS_DEPTH else 0))
          (if hasNormalBuffer fb \<or> hasAlbedoBuffer fb then MASTER_TILE_HAS_AUX else 0)"
    "\<And>k. k < cells ts \<Longrightarrow> fetch (pixelSize (colorBufferFormat fb) * k) (pixelSize (colorBufferFormat fb)) (msg_body m) =
       Inr (take (pixelSize (colorBufferFormat fb)) (drop (pixelSize (colorBufferFormat fb) * k) (ft_color f)))"
    "\<And>k. k < cells ts \<Longrightarrow> hasDepthBuffer fb \<Longrightarrow>
       fetch (pixelSize (colorBufferFormat fb) * cells ts + k) 1 (msg_body m) = Inr [ft_z f ! k]"
    "\<And>k. k < cells ts \<Longrightarrow> hasNormalBuffer fb \<Longrightarrow>
       fetch (pixelSize (colorBufferFormat fb) * cells ts + cells ts + 3 * k) 3 (msg_body m) = Inr (take 3 (drop (3 * k) (ft_normal f)))"
    "\<And>k. k < cells ts \<Longrightarrow> hasAlbedoBuffer fb \<Longrightarrow>
       fetch (pixelSize (colorBufferFormat fb) * cells ts + cells ts + 3 * cells ts + 3 * k) 3 (msg_body m) =
       Inr (take 3 (drop (3 * k) (ft_albedo f)))"
  moreover have "carries ts fb f m" unfolding carries_def Let_def using m by blast
  ultimately show thesis by (intro that) simp_all
qed

section \<open>Writing the pixels of one message\<close>

definition pixel_of :: "framebuffer \<Rightarrow> ivec2 \<Rightarrow> nat" where
  "pixel_of fb p = nat (fst p + snd p * fst (fb_size fb))"

definition frame_pixels :: "framebuffer \<Rightarrow> ivec2 set" where
  "frame_pixels fb = {p. 0 \<le> fst p \<and> 0 \<le> snd p \<and> fst p < fst (fb_size fb) \<and> snd p < snd (fb_size fb)}"

definition mf_ok :: "framebuffer \<Rightarrow> 'w master_fb \<Rightarrow> bool" where
  "mf_ok fb mb \<longleftrightarrow> (let n = nat (fst (fb_size fb) * snd (fb_size fb)) in
     length (mf_color mb) = n \<and> (hasDepthBuffer fb \<longrightarrow> length (mf_depth mb) = n) \<and>
     (hasNormalBuffer fb \<longrightarrow> length (mf_normal mb) = n) \<and> (hasAlbedoBuffer fb \<longrightarrow> length (mf_albedo mb) = n))"

text \<open>Pixel \<open>j\<close> of the master shows pixel \<open>k\<close> of the final tile; the pixels agree.\<close>

definition shows_pixel :: "framebuffer \<Rightarrow> 'w final_tile \<Rightarrow> nat \<Rightarrow> 'w master_fb \<Rightarrow> nat \<Rightarrow> bool" where
  "shows_pixel fb f k mb j \<longleftrightarrow>
     mf_color mb ! j = (let pc = pixelSize (colorBufferFormat fb) in take pc (drop (pc * k) (ft_color f))) \<and>
     (hasDepthBuffer fb \<longrightarrow> mf_depth mb ! j = ft_z f ! k) \<and>
     (hasNormalBuffer fb \<longrightarrow> mf_normal mb ! j = take 3 (drop (3 * k) (ft_normal f))) \<and>
     (hasAlbedoBuffer fb \<longrightarrow> mf_albedo mb ! j = take 3 (drop (3 * k) (ft_albedo f)))"

definition same_pixel :: "'w master_fb \<Rightarrow> 'w master_fb \<Rightarrow> nat \<Rightarrow> bool" where
  "same_pixel mb mb' j \<longleftrightarrow> mf_color mb' ! j = mf_color mb ! j \<and> mf_depth mb' ! j = mf_depth mb ! j \<and>
     mf_normal mb' ! j = mf_normal mb ! j \<and> mf_albedo mb' ! j = mf_albedo mb ! j"

lemma same_pixel_refl [simp]: "same_pixel mb mb j"
  by (simp add: same_pixel_def)

lemma same_pixel_trans: "same_pixel a b j \<Longrightarrow> same_pixel b c j \<Longrightarrow> same_pixel a c j"
  by (simp add: same_pixel_def)

lemma shows_same_pixel: "shows_pixel fb f k mb j \<Longrightarrow> same_pixel mb mb' j \<Longrightarrow> shows_pixel fb f k mb' j"
  by (simp add: shows_pixel_def same_pixel_def)

lemma frame_index:
  assumes "p \<in> frame_pixels fb"
  obtains x y w h where "p = (int x, int y)" "x < w" "y < h" "fb_size fb = (int w, int h)" "pixel_of fb p = y * w + x"
proof -
  from assms obtain x y w h where "p = (int x, int y)" "fb_size fb = (int w, int h)"
    unfolding frame_pixels_def
    by (metis (no_types, lifting) mem_Collect_eq nonneg_int_cases order_le_less_trans order_less_imp_le prod.collapse)
  with assms show thesis
    by (intro that [of x y w h]) (simp_all add: frame_pixels_def pixel_of_def nat_add_distrib nat_mult_distrib)
qed

lemma pixel_of_bound:
  assumes "p \<in> frame_pixels fb" shows "pixel_of fb p < nat (fst (fb_size fb) * snd (fb_size fb))"
proof -
  from assms obtain x y w h where p: "p = (int x, int y)" "x < w" "y < h" "fb_size fb = (int w, int h)"
    "pixel_of fb p = y * w + x" by (rule frame_index)
  have "y * w + x < Suc y * w" using p by simp
  also have "\<dots> \<le> h * w" using p by (intro mult_le_mono1) simp
  finally show ?thesis unfolding p(5) by (simp add: p(4) nat_mult_distrib mult.commute)
qed

lemma pixel_of_inj: "inj_on (pixel_of fb) (frame_pixels fb)"
proof (rule inj_onI)
  fix p q assume "p \<in> frame_pixels fb" "q \<in> frame_pixels fb" and eq: "pixel_of fb p = pixel_of fb q"
  then obtain x y x' y' w where p: "p = (int x, int y)" "x < w" "pixel_of fb p = y * w + x"
    and q: "q = (int x', int y')" "x' < w" "pixel_of fb q = y' * w + x'"
    by (metis frame_index fst_conv of_nat_eq_iff)
  have "(y * w + x) div w = (y' * w + x') div w" "(y * w + x) mod w = (y' * w + x') mod w"
    using eq p q by simp_all
  then show "p = q" using p q by simp
qed

section \<open>One pixel\<close>

text \<open>The write of a pixel inside of the frame.\<close>

definition set_pixel :: "framebuffer \<Rightarrow> 'w final_tile \<Rightarrow> nat \<Rightarrow> nat \<Rightarrow> 'w master_fb \<Rightarrow> 'w master_fb" where
  "set_pixel fb f k j mb = (let pc = pixelSize (colorBufferFormat fb) in
     \<lparr>mf_color = (mf_color mb)[j := take pc (drop (pc * k) (ft_color f))],
      mf_depth = (if hasDepthBuffer fb then (mf_depth mb)[j := ft_z f ! k] else mf_depth mb),
      mf_normal = (if hasNormalBuffer fb then (mf_normal mb)[j := take 3 (drop (3 * k) (ft_normal f))] else mf_normal mb),
      mf_albedo = (if hasAlbedoBuffer fb then (mf_albedo mb)[j := take 3 (drop (3 * k) (ft_albedo f))] else mf_albedo mb)\<rparr>)"

lemma set_pixel_ok: "mf_ok fb mb \<Longrightarrow> mf_ok fb (set_pixel fb f k j mb)"
  by (simp add: mf_ok_def set_pixel_def Let_def)

lemma set_pixel_other: "i \<noteq> j \<Longrightarrow> same_pixel mb (set_pixel fb f k j mb) i"
  by (simp add: same_pixel_def set_pixel_def Let_def)

lemma set_pixel_shows:
  "mf_ok fb mb \<Longrightarrow> j < nat (fst (fb_size fb) * snd (fb_size fb)) \<Longrightarrow> shows_pixel fb f k (set_pixel fb f k j mb) j"
  by (simp add: shows_pixel_def set_pixel_def mf_ok_def Let_def)

definition at_offset :: "ivec2 \<Rightarrow> nat \<times> nat \<Rightarrow> ivec2" where
  "at_offset c p = (int (fst p) + fst c, int (snd p) + snd c)"

definition offset_index :: "int \<Rightarrow> nat \<times> nat \<Rightarrow> nat" where
  "offset_index ts p = fst p + snd p * nat ts"

lemma offset_index_bound:
  assumes "fst p < nat ts" and "snd p < nat ts" shows "offset_index ts p < cells ts"
proof -
  have "offset_index ts p < Suc (snd p) * nat ts" using assms(1) by (simp add: offset_index_def)
  also have "\<dots> \<le> cells ts" unfolding cells_def using assms(2) by (intro mult_le_mono1) simp
  finally show ?thesis .
qed

lemma command_tags:
  "tagged (or (or (if b then MASTER_WRITE_TILE_F32 else MASTER_WRITE_TILE_I8)
     (if d then MASTER_TILE_HAS_DEPTH else 0)) (if x then MASTER_TILE_HAS_AUX else 0)) MASTER_WRITE_TILE_I8 \<longleftrightarrow> \<not> b"
  "tagged (or (or (if b then MASTER_WRITE_TILE_F32 else MASTER_WRITE_TILE_I8)
     (if d then MASTER_TILE_HAS_DEPTH else 0)) (if x then MASTER_TILE_HAS_AUX else 0)) MASTER_WRITE_TILE_F32 \<longleftrightarrow> b"
  "tagged (or (or (if b then MASTER_WRITE_TILE_F32 else MASTER_WRITE_TILE_I8)
     (if d then MASTER_TILE_HAS_DEPTH else 0)) (if x then MASTER_TILE_HAS_AUX else 0)) MASTER_TILE_HAS_DEPTH \<longleftrightarrow> d"
  "tagged (or (or (if b then MASTER_WRITE_TILE_F32 else MASTER_WRITE_TILE_I8)
     (if d then MASTER_TILE_HAS_DEPTH else 0)) (if x then MASTER_TILE_HAS_AUX else 0)) MASTER_TILE_HAS_AUX \<longleftrightarrow> x"
  by (simp_all add: tagged_def MASTER_WRITE_TILE_F32_def MASTER_WRITE_TILE_I8_def MASTER_TILE_HAS_DEPTH_def
      MASTER_TILE_HAS_AUX_def)

lemma store_ok [simp]: "j < length xs \<Longrightarrow> store j x xs = Inr (xs[j := x])"
  by (simp add: store_def)

lemma write_pixel_ok:
  assumes m: "carries ts fb f m" and mb: "mf_ok fb mb" and p: "fst p < nat ts" "snd p < nat ts"
    and c: "0 \<le> fst (msg_coords m)" "0 \<le> snd (msg_coords m)"
  shows "write_pixel ts fb (pixelSize (colorBufferFormat fb)) m p mb =
    Inr (if at_offset (msg_coords m) p \<in> frame_pixels fb
       then set_pixel fb f (offset_index ts p) (pixel_of fb (at_offset (msg_coords m) p)) mb else mb)"
proof (cases "at_offset (msg_coords m) p \<in> frame_pixels fb")
  case False
  then show ?thesis using c
    by (auto simp: write_pixel_def frame_pixels_def at_offset_def getNumPixels_def split_beta Let_def)
next
  case True
  let ?q = "at_offset (msg_coords m) p" and ?k = "offset_index ts p" and ?pc = "pixelSize (colorBufferFormat fb)"
  have k: "?k < cells ts" using p by (rule offset_index_bound)
  have j: "pixel_of fb ?q < nat (fst (fb_size fb) * snd (fb_size fb))" using True by (rule pixel_of_bound)
  have idx: "nat (int (fst p) + fst (msg_coords m) + (int (snd p) + snd (msg_coords m)) * fst (fb_size fb)) = pixel_of fb ?q"
    "fst p + snd p * nat ts = ?k"
    by (simp_all add: pixel_of_def at_offset_def offset_index_def)
  have inside: "\<not> snd (fb_size fb) \<le> int (snd p) + snd (msg_coords m)" "\<not> fst (fb_size fb) \<le> int (fst p) + fst (msg_coords m)"
    using True by (auto simp: frame_pixels_def at_offset_def)
  have tags: "tagged (msg_command m) MASTER_TILE_HAS_DEPTH \<longleftrightarrow> hasDepthBuffer fb"
    "tagged (msg_command m) MASTER_TILE_HAS_AUX \<longleftrightarrow> hasNormalBuffer fb \<or> hasAlbedoBuffer fb"
    using m by (simp_all only: carries_def Let_def command_tags)
  have cells: "fetch (?pc * ?k) ?pc (msg_body m) = Inr (take ?pc (drop (?pc * ?k) (ft_color f)))"
    "hasDepthBuffer fb \<Longrightarrow> fetch (?pc * cells ts + ?k) 1 (msg_body m) = Inr [ft_z f ! ?k]"
    "hasNormalBuffer fb \<Longrightarrow> fetch (?pc * cells ts + cells ts + 3 * ?k) 3 (msg_body m) = Inr (take 3 (drop (3 * ?k) (ft_normal f)))"
    "hasAlbedoBuffer fb \<Longrightarrow> fetch (?pc * cells ts + cells ts + 3 * cells ts + 3 * ?k) 3 (msg_body m) =
       Inr (take 3 (drop (3 * ?k) (ft_albedo f)))"
    using m k by (simp_all add: carries_def Let_def)
  have lens: "pixel_of fb ?q < length (mf_color mb)" "hasDepthBuffer fb \<Longrightarrow> pixel_of fb ?q < length (mf_depth mb)"
    "hasNormalBuffer fb \<Longrightarrow> pixel_of fb ?q < length (mf_normal mb)" "hasAlbedoBuffer fb \<Longrightarrow> pixel_of fb ?q < length (mf_albedo mb)"
    using mb j by (simp_all add: mf_ok_def Let_def)
  let ?R = "Inr \<lparr>mf_color = (mf_color mb)[pixel_of fb ?q := take ?pc (drop (?pc * ?k) (ft_color f))],
      mf_depth = (if hasDepthBuffer fb then (mf_depth mb)[pixel_of fb ?q := ft_z f ! ?k] else mf_depth mb),
      mf_normal = (if hasNormalBuffer fb then (mf_normal mb)[pixel_of fb ?q := take 3 (drop (3 * ?k) (ft_normal f))] else mf_normal mb),
      mf_albedo = (if hasAlbedoBuffer fb then (mf_albedo mb)[pixel_of fb ?q := take 3 (drop (3 * ?k) (ft_albedo f))] else mf_albedo mb)\<rparr>"
  have d: "(if hasDepthBuffer fb \<and> hasDepthBuffer fb
         then bind_res (fetch (?pc * cells ts + ?k) 1 (msg_body m)) (\<lambda>d. store (pixel_of fb ?q) (hd d) (mf_depth mb))
         else Inr (mf_depth mb)) = Inr (if hasDepthBuffer fb then (mf_depth mb)[pixel_of fb ?q := ft_z f ! ?k] else mf_depth mb)"
    using cells(2) lens(2) by simp
  have n: "(if (hasNormalBuffer fb \<or> hasAlbedoBuffer fb) \<and> hasNormalBuffer fb
         then bind_res (fetch (?pc * cells ts + cells ts + 3 * ?k) 3 (msg_body m)) (\<lambda>v. store (pixel_of fb ?q) v (mf_normal mb))
         else Inr (mf_normal mb)) = Inr (if hasNormalBuffer fb
           then (mf_normal mb)[pixel_of fb ?q := take 3 (drop (3 * ?k) (ft_normal f))] else mf_normal mb)"
    using cells(3) lens(3) by simp
  have a: "(if (hasNormalBuffer fb \<or> hasAlbedoBuffer fb) \<and> hasAlbedoBuffer fb
         then bind_res (fetch (?pc * cells ts + cells ts + 3 * cells ts + 3 * ?k) 3 (msg_body m))
           (\<lambda>v. store (pixel_of fb ?q) v (mf_albedo mb))
         else Inr (mf_albedo mb)) = Inr (if hasAlbedoBuffer fb
           then (mf_albedo mb)[pixel_of fb ?q := take 3 (drop (3 * ?k) (ft_albedo f))] else mf_albedo mb)"
    using cells(4) lens(4) by simp
  have "write_pixel ts fb ?pc m p mb = ?R"
    unfolding write_pixel_def split_beta Let_def getNumPixels_def idx if_not_P [OF inside(1)] if_not_P [OF inside(2)]
      tags d n a cells(1) bind_res_simps store_ok [OF lens(1)] by (rule refl)
  then show ?thesis using True by (simp add: set_pixel_def Let_def)
qed

end
