(* ===== verification/FinalGather.thy ===== *)
theory FinalGather
  imports TileMessages
begin

text \<open>
  The end of a frame (\<open>DistributedFrameBuffer::gatherFinalTiles\<close> and \<open>gatherFinalErrors\<close>):
  every rank keeps the messages of its completed tiles in a buffer, compresses it and
  sends it to the master, which unpacks the buffers behind each other and processes
  all messages.
\<close>

section \<open>All pixels of a tile\<close>

lemma write_pixels_ok:
  assumes m: "carries ts fb f m" and c: "0 \<le> fst (msg_coords m)" "0 \<le> snd (msg_coords m)"
  shows "\<forall>p\<in>set ps. fst p < nat ts \<and> snd p < nat ts \<Longrightarrow> mf_ok fb mb \<Longrightarrow>
    \<exists>mb'. write_pixels ts fb (pixelSize (colorBufferFormat fb)) m ps mb = Inr mb' \<and> mf_ok fb mb' \<and>
      (\<forall>p\<in>set ps. at_offset (msg_coords m) p \<in> frame_pixels fb \<longrightarrow>
         shows_pixel fb f (offset_index ts p) mb' (pixel_of fb (at_offset (msg_coords m) p))) \<and>
      (\<forall>j. j \<notin> pixel_of fb ` (at_offset (msg_coords m) ` set ps \<inter> frame_pixels fb) \<longrightarrow> same_pixel mb mb' j)"
proof (induction ps arbitrary: mb)
  case Nil
  then show ?case by auto
next
  case (Cons p ps)
  let ?at = "at_offset (msg_coords m)"
  define mb1 where "mb1 = (if ?at p \<in> frame_pixels fb then set_pixel fb f (offset_index ts p) (pixel_of fb (?at p)) mb else mb)"
  have step: "write_pixel ts fb (pixelSize (colorBufferFormat fb)) m p mb = Inr mb1"
    unfolding mb1_def using Cons.prems by (intro write_pixel_ok [OF m _ _ _ c]) simp_all
  have mb1: "mf_ok fb mb1" using Cons.prems by (simp add: mb1_def set_pixel_ok)
  from Cons.IH [OF _ mb1] Cons.prems(1) obtain mb' where
    run: "write_pixels ts fb (pixelSize (colorBufferFormat fb)) m ps mb1 = Inr mb'" and ok: "mf_ok fb mb'"
    and shown: "\<And>q. q \<in> set ps \<Longrightarrow> ?at q \<in> frame_pixels fb \<Longrightarrow> shows_pixel fb f (offset_index ts q) mb' (pixel_of fb (?at q))"
    and same: "\<And>j. j \<notin> pixel_of fb ` (?at ` set ps \<inter> frame_pixels fb) \<Longrightarrow> same_pixel mb1 mb' j"
    by auto
  have at_inj: "?at p = ?at q \<Longrightarrow> p = q" for q
    by (cases p; cases q) (simp add: at_offset_def)
  have first: "shows_pixel fb f (offset_index ts p) mb' (pixel_of fb (?at p))" if in_p: "?at p \<in> frame_pixels fb"
  proof (cases "pixel_of fb (?at p) \<in> pixel_of fb ` (?at ` set ps \<inter> frame_pixels fb)")
    case True
    then obtain q where q: "q \<in> set ps" "?at q \<in> frame_pixels fb" "pixel_of fb (?at p) = pixel_of fb (?at q)" by auto
    then have "p = q" using inj_onD [OF pixel_of_inj q(3) in_p q(2)] at_inj by blast
    with shown q show ?thesis by simp
  next
    case False
    have "shows_pixel fb f (offset_index ts p) mb1 (pixel_of fb (?at p))"
      unfolding mb1_def using in_p by (simp add: set_pixel_shows Cons.prems(2) pixel_of_bound)
    then show ?thesis using same [OF False] by (rule shows_same_pixel)
  qed
  have others: "same_pixel mb mb' j" if "j \<notin> pixel_of fb ` (?at ` set (p # ps) \<inter> frame_pixels fb)" for j
  proof (rule same_pixel_trans)
    show "same_pixel mb1 mb' j" using that by (intro same) auto
    show "same_pixel mb mb1 j" using that by (auto simp: mb1_def intro: set_pixel_other)
  qed
  show ?case using run ok first shown others step by auto
qed

text \<open>The master shows tile \<open>i\<close> as its owner has completed it.\<close>

definition pixel_in_tile :: "int \<Rightarrow> framebuffer \<Rightarrow> nat \<Rightarrow> ivec2 \<Rightarrow> nat" where
  "pixel_in_tile ts fb i q = (let c = lower (tile_region ts fb i) in
     nat (fst q - fst c) + nat (snd q - snd c) * nat ts)"

definition shows_tile :: "int \<Rightarrow> framebuffer \<Rightarrow> nat \<Rightarrow> 'w final_tile \<Rightarrow> 'w master_fb \<Rightarrow> bool" where
  "shows_tile ts fb i f mb \<longleftrightarrow>
     (\<forall>q\<in>points (tile_region ts fb i). shows_pixel fb f (pixel_in_tile ts fb i q) mb (pixel_of fb q))"

lemma set_tile_offsets: "p \<in> set (tile_offsets ts) \<longleftrightarrow> fst p < nat ts \<and> snd p < nat ts"
  by (cases p) (auto simp: tile_offsets_def image_iff)

lemma tile_region_in_frame:
  assumes "frame_ok ts fb" and "i < nat (getTotalTiles fb)"
  shows "points (tile_region ts fb i) \<subseteq> frame_pixels fb"
proof -
  have "points (tile_region ts fb i) \<subseteq> (\<Union>i<nat (getTotalTiles fb). points (tile_region ts fb i))"
    using assms(2) by blast
  also have "\<dots> = points \<lparr>lower = (0, 0), upper = fb_size fb\<rparr>" by (rule tile_regions_cover [OF assms(1)])
  also have "\<dots> \<subseteq> frame_pixels fb" by (auto simp: points_def frame_pixels_def)
  finally show ?thesis .
qed

lemma lower_nonneg:
  assumes "frame_ok ts fb" and "i < nat (getTotalTiles fb)"
  shows "0 \<le> fst (lower (tile_region ts fb i))" "0 \<le> snd (lower (tile_region ts fb i))"
  using tile_of_task_range [OF assms] assms(1) by (simp_all add: tile_region_lower frame_ok_def)

lemma tile_offset_points:
  assumes "frame_ok ts fb" and "i < nat (getTotalTiles fb)"
  shows "at_offset (lower (tile_region ts fb i)) ` set (tile_offsets ts) \<inter> frame_pixels fb = points (tile_region ts fb i)"
proof (intro equalityI subsetI)
  have ts: "0 < ts" using assms by (simp add: frame_ok_def)
  fix q
  { assume "q \<in> at_offset (lower (tile_region ts fb i)) ` set (tile_offsets ts) \<inter> frame_pixels fb"
    then show "q \<in> points (tile_region ts fb i)"
      using ts by (auto simp: tile_region_points set_tile_offsets tile_region_lower at_offset_def frame_pixels_def) }
  assume q: "q \<in> points (tile_region ts fb i)"
  then have "(fst q div ts, snd q div ts) = tile_of_task fb i" by (simp add: tile_region_points ts)
  then have low: "lower (tile_region ts fb i) = (fst q div ts * ts, snd q div ts * ts)"
    by (metis fst_conv snd_conv tile_region_lower)
  have "fst q = int (nat (fst q mod ts)) + fst q div ts * ts" "snd q = int (nat (snd q mod ts)) + snd q div ts * ts"
    using ts by simp_all
  then have "q = at_offset (lower (tile_region ts fb i)) (nat (fst q mod ts), nat (snd q mod ts))"
    by (simp add: at_offset_def low prod_eq_iff)
  moreover have "(nat (fst q mod ts), nat (snd q mod ts)) \<in> set (tile_offsets ts)"
    using ts by (simp add: set_tile_offsets)
  ultimately show "q \<in> at_offset (lower (tile_region ts fb i)) ` set (tile_offsets ts) \<inter> frame_pixels fb"
    using q tile_region_in_frame [OF assms] by blast
qed

lemma write_tile_ok:
  assumes fb: "frame_ok ts fb" and i: "i < nat (getTotalTiles fb)" and m: "carries ts fb f m"
    and at: "msg_coords m = lower (tile_region ts fb i)" and mb: "mf_ok fb mb"
  shows "\<exists>mb'. write_pixels ts fb (pixelSize (colorBufferFormat fb)) m (tile_offsets ts) mb = Inr mb' \<and> mf_ok fb mb' \<and>
     shows_tile ts fb i f mb' \<and> (\<forall>j. j \<notin> pixel_of fb ` points (tile_region ts fb i) \<longrightarrow> same_pixel mb mb' j)"
proof -
  let ?c = "lower (tile_region ts fb i)"
  obtain mb' where run: "write_pixels ts fb (pixelSize (colorBufferFormat fb)) m (tile_offsets ts) mb = Inr mb'" and ok: "mf_ok fb mb'"
    and shown: "\<And>p. p \<in> set (tile_offsets ts) \<Longrightarrow> at_offset ?c p \<in> frame_pixels fb \<Longrightarrow>
         shows_pixel fb f (offset_index ts p) mb' (pixel_of fb (at_offset ?c p))"
    and same: "\<And>j. j \<notin> pixel_of fb ` points (tile_region ts fb i) \<Longrightarrow> same_pixel mb mb' j"
    using write_pixels_ok [OF m, of "tile_offsets ts" mb] lower_nonneg [OF fb i] mb
    unfolding at tile_offset_points [OF fb i] by (auto simp: set_tile_offsets)
  have "shows_tile ts fb i f mb'"
    unfolding shows_tile_def
  proof
    fix q assume q: "q \<in> points (tile_region ts fb i)"
    then obtain p where p: "p \<in> set (tile_offsets ts)" "q = at_offset ?c p" "q \<in> frame_pixels fb"
      unfolding tile_offset_points [OF fb i, symmetric] by blast
    then have "pixel_in_tile ts fb i q = offset_index ts p"
      by (simp add: pixel_in_tile_def offset_index_def at_offset_def Let_def)
    with shown p show "shows_pixel fb f (pixel_in_tile ts fb i q) mb' (pixel_of fb q)" by simp
  qed
  with run ok same show ?thesis by blast
qed

section \<open>All messages\<close>

text \<open>The error of a tile after its message: an infinite error leaves the old one.\<close>

definition set_error :: "('e, 'z) arith_scheme \<Rightarrow> framebuffer \<Rightarrow> nat \<Rightarrow> 'e \<Rightarrow> 'e tile_error \<Rightarrow> 'e tile_error" where
  "set_error F fb i e te = (if hasVarianceBuffer fb \<and> fless F e (finf F)
     then te\<lparr>tileErrorBuffer := (tileErrorBuffer te)[i := e]\<rparr> else te)"

definition te_fits :: "framebuffer \<Rightarrow> 'e tile_error \<Rightarrow> bool" where
  "te_fits fb te \<longleftrightarrow> hasVarianceBuffer fb \<longrightarrow> te_numTiles te = numTiles fb \<and> tiles te = getTotalTiles fb \<and>
     length (tileErrorBuffer te) = nat (getTotalTiles fb)"

lemma te_fits_set_error: "te_fits fb te \<Longrightarrow> te_fits fb (set_error F fb i e te)"
  by (simp add: te_fits_def set_error_def)

lemma tile_of_task_index:
  assumes "frame_ok ts fb" and "i < nat (getTotalTiles fb)" and "te_fits fb te" and "hasVarianceBuffer fb"
  shows "te_index te (tile_of_task fb i) = int i"
proof -
  from assms(1) obtain nx ny where n: "numTiles fb = (int nx, int ny)" by (rule numTiles_nat)
  show ?thesis using assms(3,4)
    by (simp add: te_index_def tile_of_task_eq te_fits_def n) (simp flip: of_nat_mult of_nat_add)
qed

lemma update_error_ok:
  assumes fb: "frame_ok ts fb" and i: "i < nat (getTotalTiles fb)" and te: "te_fits fb te"
    and at: "msg_coords m = lower (tile_region ts fb i)"
  shows "update_error F ts fb m te = Inr (set_error F fb i (msg_error m) te)"
proof -
  have ts: "0 < ts" using fb by (simp add: frame_ok_def)
  have tile: "(fst (msg_coords m) div ts, snd (msg_coords m) div ts) = tile_of_task fb i"
    using ts by (simp add: at tile_region_lower)
  show ?thesis
  proof (cases "hasVarianceBuffer fb")
    case False
    then show ?thesis by (simp add: update_error_def set_error_def)
  next
    case True
    have "int i < getTotalTiles fb" using i by simp
    then have "TileError_update (tile_of_task fb i) e te = Inr (te\<lparr>tileErrorBuffer := (tileErrorBuffer te)[i := e]\<rparr>)" for e
      using te True tile_of_task_index [OF fb i te True] by (simp add: TileError_update_def te_fits_def)
    then show ?thesis using True by (simp add: update_error_def set_error_def tile)
  qed
qed

type_synonym ('e, 'w) completed_tile = "nat \<times> 'e \<times> 'w final_tile"

fun message_for :: "int \<Rightarrow> framebuffer \<Rightarrow> ('e, 'w) completed_tile \<Rightarrow> ('e, 'w) master_message \<Rightarrow> bool" where
  "message_for ts fb (i, e, f) m \<longleftrightarrow> i < nat (getTotalTiles fb) \<and> msg_coords m = lower (tile_region ts fb i) \<and>
     msg_error m = e \<and> carries ts fb f m"

lemma process_gathered_ok:
  assumes fb: "frame_ok ts fb" and fmt: "colorBufferFormat fb \<noteq> OSP_FB_NONE"
    and m: "message_for ts fb (i, e, f) m" and mb: "mf_ok fb mb" and te: "te_fits fb te"
  shows "\<exists>mb'. process_gathered F ts fb m (mb, te) = Inr (mb', set_error F fb i e te) \<and> mf_ok fb mb' \<and>
     shows_tile ts fb i f mb' \<and> (\<forall>j. j \<notin> pixel_of fb ` points (tile_region ts fb i) \<longrightarrow> same_pixel mb mb' j)"
proof -
  have i: "i < nat (getTotalTiles fb)" and at: "msg_coords m = lower (tile_region ts fb i)" and e: "msg_error m = e"
    and car: "carries ts fb f m" using m by simp_all
  let ?b = "colorBufferFormat fb = OSP_FB_RGBA32F"
  have tags: "tagged (msg_command m) MASTER_WRITE_TILE_I8 \<longleftrightarrow> \<not> ?b" "tagged (msg_command m) MASTER_WRITE_TILE_F32 \<longleftrightarrow> ?b"
    using car by (simp_all only: carries_def Let_def command_tags)
  have "pixelSize (colorBufferFormat fb) = (if ?b then 4 else 1)"
    using fmt by (simp add: pixelSize_def split: fb_format.split)
  then have "process_gathered F ts fb m s = process_master F ts fb (pixelSize (colorBufferFormat fb)) m s" for s
    by (simp add: process_gathered_def tags)
  with write_tile_ok [OF fb i car at mb] show ?thesis
    by (auto simp: process_master_def update_error_ok [OF fb i te at] e)
qed

definition tile_pixels :: "int \<Rightarrow> framebuffer \<Rightarrow> nat \<Rightarrow> nat set" where
  "tile_pixels ts fb i = pixel_of fb ` points (tile_region ts fb i)"

lemma tile_pixels_disjoint:
  assumes "frame_ok ts fb" and "i \<noteq> i'" and "i < nat (getTotalTiles fb)" "i' < nat (getTotalTiles fb)"
  shows "tile_pixels ts fb i \<inter> tile_pixels ts fb i' = {}"
proof -
  have "pixel_of fb ` points (tile_region ts fb i) \<inter> pixel_of fb ` points (tile_region ts fb i') =
      pixel_of fb ` (points (tile_region ts fb i) \<inter> points (tile_region ts fb i'))"
    using inj_on_image_Int [OF pixel_of_inj tile_region_in_frame tile_region_in_frame] assms by metis
  then show ?thesis using tile_region_disjoint [OF assms(1,2)] by (simp add: tile_pixels_def)
qed

lemma shows_tile_same:
  "shows_tile ts fb i f mb \<Longrightarrow> \<forall>j\<in>tile_pixels ts fb i. same_pixel mb mb' j \<Longrightarrow> shows_tile ts fb i f mb'"
  by (auto simp: shows_tile_def tile_pixels_def intro: shows_same_pixel)

text \<open>What the master shows after it has processed the messages of the tiles \<open>ds\<close>.\<close>

definition shown_after ::
  "('e, 'z) arith_scheme \<Rightarrow> int \<Rightarrow> framebuffer \<Rightarrow> ('e, 'w) completed_tile set \<Rightarrow> 'w master_fb \<Rightarrow> 'e tile_error \<Rightarrow>
   'w master_fb \<Rightarrow> 'e tile_error \<Rightarrow> bool" where
  "shown_after F ts fb ds mb te mb' te' \<longleftrightarrow>
     (\<forall>(i, e, f)\<in>ds. shows_tile ts fb i f mb' \<and>
        tileErrorBuffer te' ! i = (if hasVarianceBuffer fb \<and> fless F e (finf F) then e else tileErrorBuffer te ! i)) \<and>
     (\<forall>j. j \<notin> (\<Union>i\<in>fst ` ds. tile_pixels ts fb i) \<longrightarrow> same_pixel mb mb' j) \<and>
     (\<forall>i. i \<notin> fst ` ds \<longrightarrow> tileErrorBuffer te' ! i = tileErrorBuffer te ! i)"

lemma shown_after_other:
  "shown_after F ts fb ds mb te mb' te' \<Longrightarrow> (\<And>i. i \<in> fst ` ds \<Longrightarrow> j \<notin> tile_pixels ts fb i) \<Longrightarrow> same_pixel mb mb' j"
  by (auto simp: shown_after_def)

lemma process_messages_ok:
  assumes fb: "frame_ok ts fb" and fmt: "colorBufferFormat fb \<noteq> OSP_FB_NONE"
  shows "list_all2 (message_for ts fb) ds ms \<Longrightarrow> distinct (map fst ds) \<Longrightarrow> mf_ok fb mb \<Longrightarrow> te_fits fb te \<Longrightarrow>
    \<exists>mb' te'. process_messages F ts fb ms (mb, te) = Inr (mb', te') \<and> mf_ok fb mb' \<and> te_fits fb te' \<and>
      shown_after F ts fb (set ds) mb te mb' te'"
proof (induction arbitrary: mb te rule: list_all2_induct)
  case Nil
  then show ?case by (auto simp: shown_after_def)
next
  case (Cons d ds m ms)
  obtain i e f where d: "d = (i, e, f)" by (cases d)
  have i: "i < nat (getTotalTiles fb)" and new: "i \<notin> fst ` set ds" using Cons.hyps Cons.prems by (auto simp: d)
  have in_range: "i' < nat (getTotalTiles fb)" if "i' \<in> fst ` set ds" for i'
  proof -
    from that obtain e' f' where "(i', e', f') \<in> set ds" by auto
    then obtain m' where "message_for ts fb (i', e', f') m'"
      using Cons.hyps(2) by (metis in_set_conv_nth list_all2_conv_all_nth)
    then show ?thesis by simp
  qed
  obtain mb1 where step: "process_gathered F ts fb m (mb, te) = Inr (mb1, set_error F fb i e te)" and mb1: "mf_ok fb mb1"
    and shown: "shows_tile ts fb i f mb1" and same: "\<And>j. j \<notin> tile_pixels ts fb i \<Longrightarrow> same_pixel mb mb1 j"
    using process_gathered_ok [OF fb fmt Cons.hyps(1) [unfolded d] Cons.prems(2,3)] unfolding tile_pixels_def by blast
  have te1: "te_fits fb (set_error F fb i e te)" using Cons.prems(3) by (rule te_fits_set_error)
  obtain mb' te' where run: "process_messages F ts fb ms (mb1, set_error F fb i e te) = Inr (mb', te')"
    and ok: "mf_ok fb mb'" "te_fits fb te'" and after: "shown_after F ts fb (set ds) mb1 (set_error F fb i e te) mb' te'"
    using Cons.IH [OF _ mb1 te1] Cons.prems(1) by auto
  have apart: "tile_pixels ts fb i \<inter> tile_pixels ts fb i' = {}" if "i' \<in> fst ` set ds" for i'
    using tile_pixels_disjoint [OF fb _ i in_range [OF that]] that new by blast
  have shown': "shows_tile ts fb i f mb'"
    using apart by (intro shows_tile_same [OF shown] ballI shown_after_other [OF after]) blast
  have err_i: "tileErrorBuffer (set_error F fb i e te) ! i =
      (if hasVarianceBuffer fb \<and> fless F e (finf F) then e else tileErrorBuffer te ! i)"
    using Cons.prems(3) i by (simp add: set_error_def te_fits_def)
  have err_other: "i' \<noteq> i \<Longrightarrow> tileErrorBuffer (set_error F fb i e te) ! i' = tileErrorBuffer te ! i'" for i'
    by (simp add: set_error_def)
  have "shown_after F ts fb (set (d # ds)) mb te mb' te'"
    unfolding shown_after_def
  proof (intro conjI ballI allI impI)
    fix x assume x: "x \<in> set (d # ds)"
    show "case x of (i, e, f) \<Rightarrow> shows_tile ts fb i f mb' \<and> tileErrorBuffer te' ! i =
        (if hasVarianceBuffer fb \<and> fless F e (finf F) then e else tileErrorBuffer te ! i)"
    proof (cases "x = d")
      case True
      then show ?thesis using shown' after new err_i by (simp add: d shown_after_def)
    next
      case False
      then have in_ds: "x \<in> set ds" using x by simp
      obtain i' e' f' where x': "x = (i', e', f')" by (cases x)
      have "i' \<noteq> i" using new in_ds x' by force
      then show ?thesis using after in_ds err_other [of i'] by (auto simp: shown_after_def x')
    qed
  next
    fix j assume "j \<notin> (\<Union>i\<in>fst ` set (d # ds). tile_pixels ts fb i)"
    then show "same_pixel mb mb' j"
      using same [of j] after by (auto simp: d shown_after_def intro: same_pixel_trans)
  next
    fix i' assume "i' \<notin> fst ` set (d # ds)"
    then show "tileErrorBuffer te' ! i' = tileErrorBuffer te ! i'"
      using after err_other [of i'] by (auto simp: d shown_after_def)
  qed
  with step run ok show ?case by simp
qed

section \<open>The buffer of a rank\<close>

text \<open>The messages of one frame buffer have one size, so the buffer is counted in messages;
  \<open>blank\<close> is a message of zero bytes.\<close>

record 'm gather_buffer =
  nextTileWrite :: nat
  tileGatherBuffer :: "'m list"

definition new_gather :: "nat \<Rightarrow> 'm \<Rightarrow> 'm gather_buffer" where
  "new_gather n blank = \<lparr>nextTileWrite = 0, tileGatherBuffer = replicate n blank\<rparr>"

definition gather_tile :: "'m \<Rightarrow> 'm gather_buffer \<Rightarrow> 'm gather_buffer res" where
  "gather_tile m g = bind_res (put (nextTileWrite g) [m] (tileGatherBuffer g))
     (\<lambda>b. Inr \<lparr>nextTileWrite = nextTileWrite g + 1, tileGatherBuffer = b\<rparr>)"

text \<open>The tiles that a rank completes, in the order in which they get their places.\<close>

fun complete_tiles ::
  "int \<Rightarrow> framebuffer \<Rightarrow> 'w \<Rightarrow> ('e, 'w) completed_tile list \<Rightarrow> ('e, 'w) master_message gather_buffer \<Rightarrow>
   ('e, 'w) master_message gather_buffer res" where
  "complete_tiles ts fb garbage [] g = Inr g"
| "complete_tiles ts fb garbage ((i, e, f) # ds) g =
     bind_res (master_msg ts fb garbage (lower (tile_region ts fb i)) e f) (\<lambda>m.
     bind_res (gather_tile m g) (complete_tiles ts fb garbage ds))"

definition rendered_messages :: "'m gather_buffer \<Rightarrow> 'm list" where
  "rendered_messages g = take (nextTileWrite g) (tileGatherBuffer g)"

section \<open>The gather\<close>

definition offset :: "nat list \<Rightarrow> nat \<Rightarrow> nat" where
  "offset xs r = sum_list (take r xs)"

text \<open>The decompression writes every rank to its place; the offsets are \<open>int\<close>s, in bytes.\<close>

fun unpack ::
  "('z list \<Rightarrow> 'm list) \<Rightarrow> nat \<Rightarrow> nat list \<Rightarrow> nat list \<Rightarrow> 'z list \<Rightarrow> nat list \<Rightarrow> 'm list \<Rightarrow> 'm list res" where
  "unpack uncompress tile_bytes expected sizes results [] b = Inr b"
| "unpack uncompress tile_bytes expected sizes results (r # rs) b =
    (if \<not> fits32 (int (tile_bytes * offset expected r)) then Inl Undefined_behaviour
     else bind_res (put (offset expected r) (uncompress (take (sizes ! r) (drop (offset sizes r) results))) b)
       (unpack uncompress tile_bytes expected sizes results rs))"

definition gatherFinalTiles where
  "gatherFinalTiles compress uncompress blank F ts fb expected gs order s =
     bind_res (masterMsgSize ts (colorBufferFormat fb) (hasDepthBuffer fb) (hasNormalBuffer fb) (hasAlbedoBuffer fb)) (\<lambda>size.
     let sent = map (\<lambda>g. if 0 < nextTileWrite g then compress (rendered_messages g) else []) gs;
         sizes = map length sent in
     if \<not> fits32 (int (sum_list sizes)) then Inl Undefined_behaviour
     else bind_res (unpack uncompress (4 * size) expected sizes (concat sent) [0..<length gs]
            (replicate (sum_list expected) blank)) (\<lambda>result.
          process_messages F ts fb (map (nth result) order) s))"

section \<open>What a rank sends\<close>

lemma gather_tile_ok:
  assumes "nextTileWrite g < length (tileGatherBuffer g)"
  shows "\<exists>g'. gather_tile m g = Inr g' \<and> rendered_messages g' = rendered_messages g @ [m] \<and> nextTileWrite g' = nextTileWrite g + 1 \<and>
    length (tileGatherBuffer g') = length (tileGatherBuffer g)"
  using assms by (simp add: gather_tile_def put_def rendered_messages_def)

lemma complete_tiles_ok:
  assumes fmt: "colorBufferFormat fb \<noteq> OSP_FB_NONE"
  shows "\<forall>(i, e, f)\<in>set ds. i < nat (getTotalTiles fb) \<and> final_ok ts f \<Longrightarrow>
    nextTileWrite g + length ds \<le> length (tileGatherBuffer g) \<Longrightarrow>
    \<exists>g' ms. complete_tiles ts fb garbage ds g = Inr g' \<and> rendered_messages g' = rendered_messages g @ ms \<and>
      nextTileWrite g' = nextTileWrite g + length ds \<and> list_all2 (message_for ts fb) ds ms"
proof (induction ds arbitrary: g)
  case Nil
  show ?case by simp
next
  case (Cons d ds)
  obtain i e f where d: "d = (i, e, f)" by (cases d)
  have i: "i < nat (getTotalTiles fb)" and f: "final_ok ts f" using Cons.prems(1) by (auto simp: d)
  obtain m where m: "master_msg ts fb garbage (lower (tile_region ts fb i)) e f = Inr m"
    "msg_coords m = lower (tile_region ts fb i)" "msg_error m = e" "carries ts fb f m"
    using master_msg_carries [OF fmt f] by metis
  obtain g1 where g1: "gather_tile m g = Inr g1" "rendered_messages g1 = rendered_messages g @ [m]" "nextTileWrite g1 = nextTileWrite g + 1"
    "length (tileGatherBuffer g1) = length (tileGatherBuffer g)"
    using gather_tile_ok [of g m] Cons.prems(2) by auto
  from Cons.IH [of g1] Cons.prems g1 obtain g' ms where run: "complete_tiles ts fb garbage ds g1 = Inr g'"
    "rendered_messages g' = rendered_messages g1 @ ms" "nextTileWrite g' = nextTileWrite g1 + length ds" "list_all2 (message_for ts fb) ds ms"
    by auto
  show ?case
    by (intro exI [of _ g'] exI [of _ "m # ms"]) (use m g1 run i in \<open>simp add: d\<close>)
qed

section \<open>What the master receives\<close>

lemma slice_concat:
  assumes "r < length xss"
  shows "take (length (xss ! r)) (drop (offset (map length xss) r) (concat xss)) = xss ! r"
proof -
  have "concat xss = concat (take r xss) @ xss ! r @ concat (drop (Suc r) xss)"
    using id_take_nth_drop [OF assms] by (metis concat.simps(2) concat_append)
  moreover have "length (concat (take r xss)) = offset (map length xss) r"
    by (simp add: offset_def length_concat take_map)
  ultimately show ?thesis by simp
qed

lemma unpack_append:
  "unpack u n ex sizes z (rs @ rs') b = bind_res (unpack u n ex sizes z rs b) (unpack u n ex sizes z rs')"
  by (induction rs arbitrary: b) (auto simp: bind_res_def split: sum.split)

lemma offset_le: "offset xs r \<le> sum_list xs"
  unfolding offset_def by (metis append_take_drop_id le_add1 sum_list_append)

lemma offset_Suc: "r < length xs \<Longrightarrow> offset xs (Suc r) = offset xs r + xs ! r"
  by (simp add: offset_def take_Suc_conv_app_nth)

lemma unpack_ok:
  assumes inverse: "\<And>ms. u (c ms) = ms" "u [] = []"
    and sent: "sent = map (\<lambda>ms. if ms \<noteq> [] then c ms else []) mss"
    and ex: "ex = map length mss" and fits: "fits32 (int (n * sum_list ex))"
  shows "k \<le> length mss \<Longrightarrow> unpack u n ex (map length sent) (concat sent) [0..<k] (replicate (sum_list ex) blank) =
    Inr (concat (take k mss) @ replicate (sum_list ex - offset ex k) blank)"
proof (induction k)
  case 0
  show ?case by (simp add: offset_def)
next
  case (Suc k)
  then have k: "k < length mss" by simp
  have len: "length sent = length mss" by (simp add: sent)
  have "u (take (map length sent ! k) (drop (offset (map length sent) k) (concat sent))) = u (sent ! k)"
    using slice_concat [of k sent] k len by simp
  also have "\<dots> = mss ! k" using k by (simp add: sent inverse)
  finally have data: "u (take (map length sent ! k) (drop (offset (map length sent) k) (concat sent))) = mss ! k" .
  have "n * offset ex k \<le> n * sum_list ex" using offset_le by (rule mult_le_mono2)
  then have small: "fits32 (int (n * offset ex k))" using fits unfolding fits32_def by linarith
  have at: "length (concat (take k mss)) = offset ex k" by (simp add: ex offset_def length_concat take_map)
  have next_off: "offset ex (Suc k) = offset ex k + length (mss ! k)" using k by (simp add: ex offset_Suc)
  then have room: "offset ex k + length (mss ! k) \<le> sum_list ex" using offset_le [of ex "Suc k"] by simp
  have put: "put (offset ex k) (mss ! k) (concat (take k mss) @ replicate (sum_list ex - offset ex k) blank) =
      Inr (concat (take (Suc k) mss) @ replicate (sum_list ex - offset ex (Suc k)) blank)"
    using room k at next_off by (simp add: put_def take_Suc_conv_app_nth)
  show ?case using Suc k small by (simp add: unpack_append data put)
qed

section \<open>What the master expects\<close>

lemma allTiles_owner:
  assumes "dfb_ok ts d" and "i < nat (getTotalTiles (d_fb d))"
  shows "ownerID (allTiles d ! i) = ownerIDFromTileID (d_group d) i"
proof -
  have "frame_ok ts (d_fb d)" "allTiles d = createTiles ts (d_group d) (d_fb d)" using assms by (simp_all add: dfb_ok_def)
  then show ?thesis using assms(2) by (simp add: createTiles_eq)
qed

lemma owner_bound:
  "2 \<le> numGlobalRanks g \<or> masterIsAWorker g \<and> 0 < numGlobalRanks g \<Longrightarrow> ownerIDFromTileID g i < numGlobalRanks g"
  using mod_less_divisor [of "numGlobalRanks g - 1" i]
  by (cases "masterIsAWorker g")
    (auto simp: ownerIDFromTileID_def globalRankFromWorkerRank_def num_workers_def less_diff_conv)

text \<open>The tiles that rank \<open>r\<close> has to complete.\<close>

definition rank_tiles :: "('e, 'z) arith_scheme \<Rightarrow> 'e \<Rightarrow> group \<Rightarrow> framebuffer \<Rightarrow> 'e tile_error \<Rightarrow> nat \<Rightarrow> nat set" where
  "rank_tiles F thr g fb te r =
     {i. i < nat (getTotalTiles fb) \<and> ownerIDFromTileID g i = r \<and> to_complete F thr fb te i}"

lemma count_tiles_expected:
  "dfb_ok ts d \<Longrightarrow> IamTheMaster (d_group d) \<Longrightarrow> \<forall>i\<in>set is. i < nat (getTotalTiles (d_fb d)) \<Longrightarrow>
   \<forall>i. ownerIDFromTileID (d_group d) i < length (numTilesExpected d) \<Longrightarrow>
   count_tiles F thr is d = Inr d' \<Longrightarrow>
   length (numTilesExpected d') = length (numTilesExpected d) \<and>
   (\<forall>r<length (numTilesExpected d). numTilesExpected d' ! r = numTilesExpected d ! r +
      length (filter (\<lambda>i. ownerIDFromTileID (d_group d) i = r \<and> to_complete F thr (d_fb d) (d_errors d) i) is))"
proof (induction "is" arbitrary: d)
  case Nil
  then show ?case by simp
next
  case (Cons i "is")
  have i: "i < nat (getTotalTiles (d_fb d))" using Cons.prems by simp
  let ?c = "\<not> to_complete F thr (d_fb d) (d_errors d) i"
  define n where "n = numTilesCompletedThisFrame d + (if my_tile d i \<and> ?c then 1 else 0)"
  define ex where "ex = (if ?c then numTilesExpected d
    else (numTilesExpected d)[ownerIDFromTileID (d_group d) i := numTilesExpected d ! ownerIDFromTileID (d_group d) i + 1])"
  have step: "count_tiles F thr (i # is) d = count_tiles F thr is (with_counts n ex d)"
    using converged_eq [OF Cons.prems(1) i, of F thr] allTiles_mine(2) [OF Cons.prems(1) i]
      allTiles_owner [OF Cons.prems(1) i] Cons.prems(2)
    by (simp add: n_def ex_def with_counts_def)
  have ex: "numTilesExpected (with_counts n ex d) = ex" by (simp add: with_counts_def)
  have len: "length ex = length (numTilesExpected d)" by (simp add: ex_def)
  have at: "r < length (numTilesExpected d) \<Longrightarrow>
      ex ! r = numTilesExpected d ! r + (if ownerIDFromTileID (d_group d) i = r \<and> \<not> ?c then 1 else 0)" for r
    by (auto simp: ex_def nth_list_update)
  from Cons.IH [of "with_counts n ex d"] Cons.prems step ex len at show ?case by auto
qed

lemma master_expects:
  assumes ok: "dfb_ok ts d" and none: "delayedMessage d = []" and master: "IamTheMaster (d_group d)"
    and g: "2 \<le> numGlobalRanks (d_group d) \<or> masterIsAWorker (d_group d) \<and> 0 < numGlobalRanks (d_group d)"
    and start: "startNewFrame ts newFrame process completed preAccum F thr errs inst d = Inr d0"
  shows "numTilesExpected d0 = map (\<lambda>r. card (rank_tiles F thr (d_group d) (d_fb d) (d_errors d0) r)) [0..<numGlobalRanks (d_group d)]"
proof -
  define d3 where "d3 = reset_frame newFrame errs inst d"
  have d3: "dfb_ok ts d3" "d_fb d3 = d_fb d" "d_group d3 = d_group d"
    "numTilesExpected d3 = replicate (numGlobalRanks (d_group d)) 0"
    using ok master by (auto simp: d3_def reset_frame_def Let_def dfb_ok_def sync_errors_def new_frame_tiles_def)
  have d0: "\<exists>d4. count_tiles F thr [0..<nat (getTotalTiles (d_fb d))] d3 = Inr d4 \<and>
      numTilesExpected d0 = numTilesExpected d4 \<and> d_errors d0 = d_errors d4"
    using start none
    by (auto simp: startNewFrame_def isFrameComplete_def closeCurrentFrame_def Let_def bind_res_eq_Inr
        split: if_splits simp flip: d3_def)
  then obtain d4 where d4: "count_tiles F thr [0..<nat (getTotalTiles (d_fb d))] d3 = Inr d4"
    "numTilesExpected d0 = numTilesExpected d4" "d_errors d0 = d_errors d4" by blast
  have "d_errors d4 = d_errors d3"
    using count_tiles_ok [OF d3(1), of "[0..<nat (getTotalTiles (d_fb d))]" F thr] d4(1) d3(2) by auto
  then have "rank_tiles F thr (d_group d) (d_fb d) (d_errors d0) r =
      {i. i < nat (getTotalTiles (d_fb d)) \<and> ownerIDFromTileID (d_group d) i = r \<and> to_complete F thr (d_fb d) (d_errors d3) i}" for r
    by (simp add: rank_tiles_def d4)
  moreover have "length (filter (\<lambda>i. ownerIDFromTileID (d_group d) i = r \<and> to_complete F thr (d_fb d) (d_errors d3) i)
        [0..<nat (getTotalTiles (d_fb d))]) =
      card {i. i < nat (getTotalTiles (d_fb d)) \<and> ownerIDFromTileID (d_group d) i = r \<and> to_complete F thr (d_fb d) (d_errors d3) i}" for r
    by (subst distinct_length_filter) (auto intro!: arg_cong [where f = card])
  ultimately show ?thesis
    using count_tiles_expected [OF d3(1) _ _ _ d4(1)] master owner_bound [OF g] d3 d4(2)
    by (intro nth_equalityI) auto
qed

section \<open>The master's frame buffer at the end of the frame\<close>

definition rank_completes ::
  "('e, 'z) arith_scheme \<Rightarrow> int \<Rightarrow> 'e \<Rightarrow> group \<Rightarrow> framebuffer \<Rightarrow> 'e tile_error \<Rightarrow> ('e, 'w) completed_tile list \<Rightarrow> nat \<Rightarrow> bool" where
  "rank_completes F ts thr g fb te ds r \<longleftrightarrow> distinct (map fst ds) \<and> set (map fst ds) = rank_tiles F thr g fb te r \<and>
     list_all (\<lambda>d. final_ok ts (snd (snd d))) ds"

definition own_tiles :: "group \<Rightarrow> framebuffer \<Rightarrow> nat \<Rightarrow> nat" where
  "own_tiles g fb r = length (filter (\<lambda>i. ownerIDFromTileID g i = r) [0..<nat (getTotalTiles fb)])"

lemma rank_tiles_own:
  "finite (rank_tiles F thr g fb te r)" "card (rank_tiles F thr g fb te r) \<le> own_tiles g fb r"
proof -
  show "finite (rank_tiles F thr g fb te r)" by (simp add: rank_tiles_def)
  have "own_tiles g fb r = card {i. i < nat (getTotalTiles fb) \<and> ownerIDFromTileID g i = r}"
    unfolding own_tiles_def by (subst distinct_length_filter) (auto intro!: arg_cong [where f = card])
  then show "card (rank_tiles F thr g fb te r) \<le> own_tiles g fb r"
    by (auto simp: rank_tiles_def intro!: card_mono)
qed

lemma rank_completes_length:
  "rank_completes F ts thr g fb te ds r \<Longrightarrow> length ds = card (rank_tiles F thr g fb te r)"
  unfolding rank_completes_def by (metis distinct_card length_map)

lemma rank_buffer:
  assumes fmt: "colorBufferFormat fb \<noteq> OSP_FB_NONE" and ds: "rank_completes F ts thr g fb te ds r"
  shows "\<exists>gb ms. complete_tiles ts fb garbage ds (new_gather (own_tiles g fb r) blank) = Inr gb \<and> rendered_messages gb = ms \<and>
    nextTileWrite gb = length ms \<and> list_all2 (message_for ts fb) ds ms"
proof -
  have "\<forall>(i, e, f)\<in>set ds. i < nat (getTotalTiles fb) \<and> final_ok ts f"
    using ds by (force simp: rank_completes_def rank_tiles_def list_all_iff)
  then show ?thesis
    using complete_tiles_ok [OF fmt, of ds ts "new_gather (own_tiles g fb r) blank" garbage]
      rank_completes_length [OF ds] rank_tiles_own(2) [of F thr g fb te r]
    by (auto simp: new_gather_def rendered_messages_def list_all2_lengthD)
qed

lemma distinct_concat_nth:
  "(\<And>r. r < length xss \<Longrightarrow> distinct (xss ! r)) \<Longrightarrow>
   (\<And>r r'. r < r' \<Longrightarrow> r' < length xss \<Longrightarrow> set (xss ! r) \<inter> set (xss ! r') = {}) \<Longrightarrow> distinct (concat xss)"
proof (induction xss rule: rev_induct)
  case Nil
  then show ?case by simp
next
  case (snoc xs xss)
  have parts: "distinct (xss ! r)" if "r < length xss" for r
    using snoc.prems(1) [of r] that by (simp add: nth_append)
  have apart: "set (xss ! r) \<inter> set (xss ! r') = {}" if "r < r'" "r' < length xss" for r r'
    using snoc.prems(2) [of r r'] that by (simp add: nth_append)
  have last: "distinct xs" using snoc.prems(1) [of "length xss"] by simp
  have "set (xss ! r) \<inter> set xs = {}" if "r < length xss" for r
    using snoc.prems(2) [of r "length xss"] that by (simp add: nth_append)
  then have "set (concat xss) \<inter> set xs = {}" by (fastforce simp: in_set_conv_nth)
  with snoc.IH [OF parts apart] last show ?case by simp
qed

lemma distinct_concat_ranks:
  assumes "\<And>r. r < length dss \<Longrightarrow> rank_completes F ts thr g fb te (dss ! r) r"
  shows "distinct (map fst (concat dss))"
  unfolding map_concat
proof (rule distinct_concat_nth)
  have tiles_of: "distinct (map fst (dss ! r))" "set (map fst (dss ! r)) = rank_tiles F thr g fb te r" if "r < length dss" for r
    using assms [OF that] by (simp_all add: rank_completes_def)
  show "distinct (map (map fst) dss ! r)" if "r < length (map (map fst) dss)" for r
    using that tiles_of by simp
  show "set (map (map fst) dss ! r) \<inter> set (map (map fst) dss ! r') = {}" if "r < r'" "r' < length (map (map fst) dss)" for r r'
    using that tiles_of(2) [of r] tiles_of(2) [of r'] by (auto simp: rank_tiles_def)
qed

text \<open>The hypotheses on the compression: what it packs can be unpacked, nothing is unpacked from
  nothing, and the packed size has a bound.\<close>

definition packs :: "('m list \<Rightarrow> 'z list) \<Rightarrow> ('z list \<Rightarrow> 'm list) \<Rightarrow> (nat \<Rightarrow> nat) \<Rightarrow> bool" where
  "packs compress uncompress max_size \<longleftrightarrow> (\<forall>ms. uncompress (compress ms) = ms \<and> length (compress ms) \<le> max_size (length ms)) \<and>
     uncompress [] = []"

definition tile_message_cells :: "int \<Rightarrow> framebuffer \<Rightarrow> nat" where
  "tile_message_cells ts fb = (case masterMsgSize ts (colorBufferFormat fb) (hasDepthBuffer fb) (hasNormalBuffer fb)
     (hasAlbedoBuffer fb) of Inl _ \<Rightarrow> 0 | Inr n \<Rightarrow> n)"

lemma list_all2_concat: "list_all2 (list_all2 P) xss yss \<Longrightarrow> list_all2 P (concat xss) (concat yss)"
  by (induction rule: list_all2_induct) (simp_all add: list_all2_appendI)

lemma gather_ok:
  assumes fb: "frame_ok ts fb" and fmt: "colorBufferFormat fb \<noteq> OSP_FB_NONE" and packs: "packs c u max_size"
    and mss: "length mss = length dss" "\<And>r. r < length dss \<Longrightarrow> list_all2 (message_for ts fb) (dss ! r) (mss ! r)"
    and gbs: "length gbs = length dss" "\<And>r. r < length dss \<Longrightarrow> rendered_messages (gbs ! r) = mss ! r"
      "\<And>r. r < length dss \<Longrightarrow> nextTileWrite (gbs ! r) = length (mss ! r)"
    and dist: "distinct (map fst (concat dss))" and ex: "ex = map length dss"
    and bytes: "fits32 (int (4 * tile_message_cells ts fb * sum_list ex))" "fits32 (int (\<Sum>n\<leftarrow>ex. max_size n))"
    and order: "mset order = mset [0..<sum_list ex]"
    and mb: "mf_ok fb mb" and te: "te_fits fb te"
  shows "\<exists>mb' te'. gatherFinalTiles c u blank F ts fb ex gbs order (mb, te) = Inr (mb', te') \<and>
     shown_after F ts fb (set (concat dss)) mb te mb' te'"
proof -
  obtain size where size: "masterMsgSize ts (colorBufferFormat fb) (hasDepthBuffer fb) (hasNormalBuffer fb) (hasAlbedoBuffer fb) = Inr size"
    using fmt by (simp add: masterMsgSize_def)
  define sent where "sent = map (\<lambda>ms. if ms \<noteq> [] then c ms else []) mss"
  have sent_eq: "map (\<lambda>g. if 0 < nextTileWrite g then c (rendered_messages g) else []) gbs = sent"
    by (rule nth_equalityI) (use mss gbs in \<open>auto simp: sent_def\<close>)
  have lens: "map length mss = ex"
    unfolding ex by (rule nth_equalityI) (use mss list_all2_lengthD in \<open>force+\<close>)
  have sizes: "length (sent ! r) \<le> max_size (ex ! r)" if "r < length dss" for r
    using that packs mss(1) lens [symmetric] by (simp add: sent_def packs_def)
  have "sum_list (map length sent) \<le> (\<Sum>n\<leftarrow>ex. max_size n)"
    using sizes mss(1) by (intro sum_list_mono2) (simp_all add: ex sent_def)
  then have small: "fits32 (int (sum_list (map length sent)))"
    using bytes(2) unfolding fits32_def by linarith
  have "4 * size = 4 * tile_message_cells ts fb" by (simp add: tile_message_cells_def size)
  then have fit: "fits32 (int (4 * size * sum_list (map length mss)))" using bytes(1) by (simp add: lens)
  have all_ranks: "take (length dss) ex = ex" by (simp add: ex)
  have unpacked: "unpack u (4 * size) ex (map length sent) (concat sent) [0..<length gbs] (replicate (sum_list ex) blank) = Inr (concat mss)"
    using unpack_ok [of u c sent mss "map length mss" "4 * size" "length mss" blank, OF _ _ sent_def refl fit] packs
    by (simp add: packs_def lens mss(1) gbs(1) offset_def all_ranks)
  have total: "length (concat mss) = sum_list ex" "length (concat dss) = sum_list ex"
    by (simp_all add: length_concat lens ex)
  have all: "list_all2 (message_for ts fb) (concat dss) (concat mss)"
    by (rule list_all2_concat) (use mss in \<open>simp add: list_all2_conv_all_nth\<close>)
  have set_order: "set order = {0..<sum_list ex}" using arg_cong [OF order, of set_mset] by simp
  have dist_order: "distinct order" using order by (metis distinct_upt mset_eq_imp_distinct_iff)
  let ?ds = "map (nth (concat dss)) order" and ?ms = "map (nth (concat mss)) order"
  have "list_all2 (message_for ts fb) ?ds ?ms"
    using all set_order total nth_mem [of _ order] by (auto simp: list_all2_conv_all_nth)
  moreover have "distinct (map fst ?ds)"
  proof -
    have "map fst ?ds = map (nth (map fst (concat dss))) order"
      using set_order total(2) by simp
    moreover have "inj_on (nth (map fst (concat dss))) (set order)"
      using set_order total(2) by (intro inj_on_nth [OF dist]) simp
    ultimately show ?thesis using dist_order by (simp only: distinct_map)
  qed
  moreover have "set ?ds = set (concat dss)"
    unfolding set_map set_order total(2) [symmetric] by (auto simp: set_conv_nth)
  ultimately obtain mb' te' where "process_messages F ts fb ?ms (mb, te) = Inr (mb', te')"
    "shown_after F ts fb (set (concat dss)) mb te mb' te'"
    using process_messages_ok [OF fb fmt _ _ mb te, of ?ds ?ms F] by metis
  then show ?thesis
    by (simp add: gatherFinalTiles_def size sent_eq small unpacked Let_def)
qed

text \<open>C4 At the end of a frame the master shows what the owners have completed.  The master
  has started a frame on its frame buffer and counted the tiles it expects of every
  rank.  Every rank completes the tiles it owns and has to complete, in any order, and
  puts their messages into its buffer; the buffers are compressed, gathered, unpacked
  behind each other and processed in any order.  Then nothing of this fails, every
  completed tile is in the master's buffers pixel by pixel, every other pixel is as
  it was before, and the errors of the tiles are those the owners have computed (an infinite
  error leaves the old one).\<close>

theorem master_shows_final_tiles:
  assumes ok: "dfb_ok ts d" and none: "delayedMessage d = []" and master: "IamTheMaster (d_group d)"
    and g: "2 \<le> numGlobalRanks (d_group d) \<or> masterIsAWorker (d_group d) \<and> 0 < numGlobalRanks (d_group d)"
    and start: "startNewFrame ts newFrame process completed preAccum F thr errs inst d = Inr d0"
    and fmt: "colorBufferFormat (d_fb d) \<noteq> OSP_FB_NONE"
    and ranks: "length dss = numGlobalRanks (d_group d)"
    and dss: "\<forall>r<length dss. rank_completes F ts thr (d_group d) (d_fb d) (d_errors d0) (dss ! r) r"
    and packs: "packs compress uncompress max_size"
    and bytes: "fits32 (int (4 * tile_message_cells ts (d_fb d) * sum_list (numTilesExpected d0)))"
      "fits32 (int (\<Sum>n\<leftarrow>numTilesExpected d0. max_size n))"
    and order: "mset order = mset [0..<sum_list (numTilesExpected d0)]"
    and mb: "mf_ok (d_fb d) mb" and te: "te_fits (d_fb d) (d_errors d0)"
  shows "\<exists>gbs mb' te'. length gbs = length dss \<and>
     (\<forall>r<length dss. complete_tiles ts (d_fb d) garbage (dss ! r)
        (new_gather (own_tiles (d_group d) (d_fb d) r) blank) = Inr (gbs ! r)) \<and>
     gatherFinalTiles compress uncompress blank F ts (d_fb d) (numTilesExpected d0) gbs order (mb, d_errors d0) = Inr (mb', te') \<and>
     shown_after F ts (d_fb d) (set (concat dss)) mb (d_errors d0) mb' te'"
proof -
  have fb: "frame_ok ts (d_fb d)" using ok by (simp add: dfb_ok_def)
  have "\<forall>r. \<exists>gb. r < length dss \<longrightarrow> complete_tiles ts (d_fb d) garbage (dss ! r)
        (new_gather (own_tiles (d_group d) (d_fb d) r) blank) = Inr gb \<and>
      nextTileWrite gb = length (rendered_messages gb) \<and> list_all2 (message_for ts (d_fb d)) (dss ! r) (rendered_messages gb)"
    using rank_buffer [OF fmt dss [rule_format], of _ garbage blank] by blast
  then obtain gb where gb: "\<And>r. r < length dss \<Longrightarrow> complete_tiles ts (d_fb d) garbage (dss ! r)
        (new_gather (own_tiles (d_group d) (d_fb d) r) blank) = Inr (gb r)"
    "\<And>r. r < length dss \<Longrightarrow> nextTileWrite (gb r) = length (rendered_messages (gb r))"
    "\<And>r. r < length dss \<Longrightarrow> list_all2 (message_for ts (d_fb d)) (dss ! r) (rendered_messages (gb r))"
    by metis
  have ex: "numTilesExpected d0 = map length dss"
    unfolding master_expects [OF ok none master g start]
    by (rule nth_equalityI) (use dss rank_completes_length in \<open>force simp: ranks\<close>)+
  have "\<exists>mb' te'. gatherFinalTiles compress uncompress blank F ts (d_fb d) (numTilesExpected d0) (map gb [0..<length dss])
      order (mb, d_errors d0) = Inr (mb', te') \<and> shown_after F ts (d_fb d) (set (concat dss)) mb (d_errors d0) mb' te'"
    using distinct_concat_ranks [of dss F ts thr "d_group d" "d_fb d" "d_errors d0"] dss bytes order
    by (intro gather_ok [OF fb fmt packs, where mss = "map (rendered_messages \<circ> gb) [0..<length dss]"])
      (simp_all add: gb ex mb te)
  with gb(1) show ?thesis by (intro exI [of _ "map gb [0..<length dss]"]) auto
qed

section \<open>The errors without final pixels\<close>

text \<open>With \<open>OSP_FB_NONE\<close> only the errors are gathered: every rank sends the tiles (two
  cells) and behind them the errors (one cell) of what it has completed.  A cell read
  as the other kind is undefined.\<close>

datatype 'e cell = Int_cell int | Error_cell 'e

record 'e error_list =
  tileIDs :: "ivec2 list"
  tileErrors :: "'e list"

definition complete_error :: "int \<Rightarrow> framebuffer \<Rightarrow> nat \<Rightarrow> 'e \<Rightarrow> 'e error_list \<Rightarrow> 'e error_list" where
  "complete_error ts fb i e l = (let c = lower (tile_region ts fb i) in
     l\<lparr>tileIDs := tileIDs l @ [(fst c div ts, snd c div ts)], tileErrors := tileErrors l @ [e]\<rparr>)"

definition sendBuffer :: "'e error_list \<Rightarrow> 'e cell list" where
  "sendBuffer l = concat (map (\<lambda>t. [Int_cell (fst t), Int_cell (snd t)]) (tileIDs l)) @ map Error_cell (tileErrors l)"

definition read_error :: "'e cell list \<Rightarrow> nat \<Rightarrow> nat \<Rightarrow> nat \<Rightarrow> (ivec2 \<times> 'e) res" where
  "read_error b off n i = bind_res (fetch (off + 2 * i) 2 b) (\<lambda>t. bind_res (fetch (off + n * 2 + i) 1 b) (\<lambda>e.
     case (t, e) of ([Int_cell x, Int_cell y], [Error_cell err]) \<Rightarrow> Inr ((x, y), err) | _ \<Rightarrow> Inl Undefined_behaviour))"

fun update_errors where
  "update_errors F b off n [] te = Inr te"
| "update_errors F b off n (i # is) te = bind_res (read_error b off n i) (\<lambda>(t, e).
     bind_res (if fless F e (finf F) then TileError_update t e te else Inr te) (update_errors F b off n is))"

fun process_errors where
  "process_errors F b counts [] te = Inr te"
| "process_errors F b counts (r # rs) te =
     bind_res (update_errors F b (3 * offset counts r) (counts ! r) [0..<counts ! r] te) (process_errors F b counts rs)"

definition gatherFinalErrors where
  "gatherFinalErrors F ls order te =
    (let tilesFromRank = map (length \<circ> tileIDs) ls in
     if \<not> fits32 (int (12 * sum_list tilesFromRank)) then Inl Undefined_behaviour
     else process_errors F (concat (map sendBuffer ls)) tilesFromRank order te)"

lemma complete_error_lists:
  "tileIDs (complete_error ts fb i e l) = tileIDs l @ [(fst (lower (tile_region ts fb i)) div ts, snd (lower (tile_region ts fb i)) div ts)]"
  "tileErrors (complete_error ts fb i e l) = tileErrors l @ [e]"
  by (simp_all add: complete_error_def Let_def)

text \<open>The list of a rank that completes the tiles \<open>ds\<close>.\<close>

definition error_list_of :: "framebuffer \<Rightarrow> (nat \<times> 'e) list \<Rightarrow> 'e error_list" where
  "error_list_of fb ds = \<lparr>tileIDs = map (tile_of_task fb \<circ> fst) ds, tileErrors = map snd ds\<rparr>"

lemma complete_error_list:
  assumes "0 < ts"
  shows "complete_error ts fb i e (error_list_of fb ds) = error_list_of fb (ds @ [(i, e)])"
  using assms by (simp add: complete_error_def error_list_of_def tile_region_lower Let_def)

lemma fetch_concat_pairs:
  "i < length xs \<Longrightarrow> take 2 (drop (2 * i) (concat (map (\<lambda>t. [f t, g t]) xs))) = [f (xs ! i), g (xs ! i)]"
proof (induction xs arbitrary: i)
  case Nil
  then show ?case by simp
next
  case (Cons x xs)
  then show ?case by (cases i) simp_all
qed

lemma read_error_ok:
  fixes ds :: "(nat \<times> 'e) list"
  assumes b: "take (3 * length ds) (drop off b) = sendBuffer (error_list_of fb ds)" and i: "i < length ds"
    and room: "off + 3 * length ds \<le> length b"
  shows "read_error b off (length ds) i = Inr (tile_of_task fb (fst (ds ! i)), snd (ds ! i))"
proof -
  let ?ids = "concat (map (\<lambda>t. [Int_cell (fst t), Int_cell (snd t)]) (map (tile_of_task fb \<circ> fst) ds)) :: 'e cell list"
  have len: "length ?ids = 2 * length ds" by (simp add: length_concat comp_def sum_list_triv)
  have "take 2 (drop (off + 2 * i) b) = take 2 (drop (2 * i) (take (3 * length ds) (drop off b)))"
    using i by (simp add: fetch_last_take add.commute)
  also have "\<dots> = take 2 (drop (2 * i) ?ids)"
    unfolding b using i len by (simp add: sendBuffer_def error_list_of_def)
  finally have ids: "take 2 (drop (off + 2 * i) b) =
      [Int_cell (fst (tile_of_task fb (fst (ds ! i)))), Int_cell (snd (tile_of_task fb (fst (ds ! i))))]"
    using fetch_concat_pairs [of i "map (tile_of_task fb \<circ> fst) ds"] i by simp
  have "take 1 (drop (off + length ds * 2 + i) b) = take 1 (drop (2 * length ds + i) (take (3 * length ds) (drop off b)))"
    using i by (simp add: fetch_last_take ac_simps)
  also have "\<dots> = take 1 (drop i (map Error_cell (map snd ds)))"
    unfolding b using i len by (simp add: sendBuffer_def error_list_of_def)
  also have "\<dots> = [Error_cell (snd (ds ! i))]"
    using i by (simp flip: Cons_nth_drop_Suc add: drop_map)
  finally show ?thesis using i room ids by (simp add: read_error_def fetch_def)
qed


text \<open>The errors after the updates of the tiles \<open>ds\<close>.\<close>

fun set_errors :: "('e, 'z) arith_scheme \<Rightarrow> framebuffer \<Rightarrow> (nat \<times> 'e) list \<Rightarrow> 'e tile_error \<Rightarrow> 'e tile_error" where
  "set_errors F fb [] te = te"
| "set_errors F fb ((i, e) # ds) te = set_errors F fb ds (set_error F fb i e te)"

lemma set_errors_append [simp]: "set_errors F fb (ds @ ds') te = set_errors F fb ds' (set_errors F fb ds te)"
  by (induction F fb ds te rule: set_errors.induct) simp_all

lemma set_errors_fits: "te_fits fb te \<Longrightarrow> te_fits fb (set_errors F fb ds te)"
  by (induction F fb ds te rule: set_errors.induct) (simp_all add: te_fits_set_error)

lemma set_errors_at:
  "distinct (map fst ds) \<Longrightarrow> te_fits fb te \<Longrightarrow> i < nat (getTotalTiles fb) \<Longrightarrow>
   tileErrorBuffer (set_errors F fb ds te) ! i = (case map_of ds i of
     Some e \<Rightarrow> if hasVarianceBuffer fb \<and> fless F e (finf F) then e else tileErrorBuffer te ! i
   | None \<Rightarrow> tileErrorBuffer te ! i)"
proof (induction F fb ds te rule: set_errors.induct)
  case (1 F fb te)
  then show ?case by simp
next
  case (2 F fb j e ds te)
  have "map_of ds j = None" using 2(2) by (simp add: map_of_eq_None_iff)
  moreover have "tileErrorBuffer (set_error F fb j e te) ! i =
      (if i = j \<and> hasVarianceBuffer fb \<and> fless F e (finf F) then e else tileErrorBuffer te ! i)"
    using 2(3,4) by (auto simp: set_error_def te_fits_def)
  ultimately show ?case using 2 by (auto simp: te_fits_set_error split: option.split)
qed

lemma update_error_at:
  assumes "frame_ok ts fb" "i < nat (getTotalTiles fb)" "te_fits fb te" "hasVarianceBuffer fb"
  shows "(if fless F e (finf F) then TileError_update (tile_of_task fb i) e te else Inr te) = Inr (set_error F fb i e te)"
proof -
  have "int i < getTotalTiles fb" using assms(2) by simp
  then show ?thesis
    using assms tile_of_task_index [OF assms] by (simp add: TileError_update_def te_fits_def set_error_def)
qed

lemma update_errors_ok:
  assumes fb: "frame_ok ts fb" "hasVarianceBuffer fb"
    and b: "take (3 * length ds) (drop off b) = sendBuffer (error_list_of fb ds)" "off + 3 * length ds \<le> length b"
    and ds: "\<forall>d\<in>set ds. fst d < nat (getTotalTiles fb)"
  shows "te_fits fb te \<Longrightarrow> \<forall>k\<in>set ks. k < length ds \<Longrightarrow>
    update_errors F b off (length ds) ks te = Inr (set_errors F fb (map (nth ds) ks) te)"
proof (induction ks arbitrary: te)
  case Nil
  show ?case by simp
next
  case (Cons k ks)
  obtain i e where d: "ds ! k = (i, e)" by (cases "ds ! k")
  have k: "k < length ds" using Cons.prems by simp
  have i: "i < nat (getTotalTiles fb)" using ds d k by (metis fst_conv nth_mem)
  have "update_errors F b off (length ds) (k # ks) te = update_errors F b off (length ds) ks (set_error F fb i e te)"
    by (simp only: update_errors.simps read_error_ok [OF b(1) k b(2)] bind_res_simps prod.case d fst_conv snd_conv
        update_error_at [OF fb(1) i Cons.prems(1) fb(2)])
  then show ?case using Cons by (simp add: d te_fits_set_error)
qed

lemma process_errors_ok:
  assumes fb: "frame_ok ts fb" "hasVarianceBuffer fb" and ds: "\<forall>ds\<in>set dss. \<forall>d\<in>set ds. fst d < nat (getTotalTiles fb)"
  shows "te_fits fb te \<Longrightarrow> \<forall>r\<in>set rs. r < length dss \<Longrightarrow>
    process_errors F (concat (map (sendBuffer \<circ> error_list_of fb) dss)) (map length dss) rs te =
    Inr (set_errors F fb (concat (map (nth dss) rs)) te)"
proof (induction rs arbitrary: te)
  case Nil
  show ?case by simp
next
  case (Cons r rs)
  let ?bs = "map (sendBuffer \<circ> error_list_of fb) dss"
  have r: "r < length dss" using Cons.prems by simp
  have len: "length (sendBuffer (error_list_of fb ds)) = 3 * length ds" for ds :: "(nat \<times> 'a) list"
    by (simp add: sendBuffer_def error_list_of_def length_concat comp_def sum_list_triv)
  have off: "offset (map length ?bs) r = 3 * offset (map length dss) r"
    by (simp add: offset_def take_map comp_def len sum_list_const_mult)
  have "take (3 * length (dss ! r)) (drop (3 * offset (map length dss) r) (concat ?bs)) = sendBuffer (error_list_of fb (dss ! r))"
    using slice_concat [of r ?bs] r by (simp add: off [simplified] len)
  moreover have "3 * offset (map length dss) r + 3 * length (dss ! r) \<le> length (concat ?bs)"
  proof -
    have "offset (map length ?bs) (Suc r) \<le> length (concat ?bs)" unfolding length_concat by (rule offset_le)
    then show ?thesis using r by (simp add: offset_Suc off [simplified] len)
  qed
  ultimately have "update_errors F (concat ?bs) (3 * offset (map length dss) r) (length (dss ! r)) [0..<length (dss ! r)] te =
      Inr (set_errors F fb (map (nth (dss ! r)) [0..<length (dss ! r)]) te)"
    using ds r by (intro update_errors_ok [OF fb _ _ _ Cons.prems(1)]) auto
  then have "update_errors F (concat ?bs) (3 * offset (map length dss) r) (length (dss ! r)) [0..<length (dss ! r)] te =
      Inr (set_errors F fb (dss ! r) te)" by (simp only: map_nth)
  with Cons r show ?case by (simp add: set_errors_fits comp_def)
qed

text \<open>With the ranks processed in any order, the master has the error of every completed tile.\<close>

lemma gather_errors_ok:
  assumes fb: "frame_ok ts fb" "hasVarianceBuffer fb" and ds: "\<forall>d\<in>set (concat dss). fst d < nat (getTotalTiles fb)"
    and dist: "distinct (map fst (concat dss))" and small: "fits32 (int (12 * length (concat dss)))"
    and order: "mset order = mset [0..<length dss]" and te: "te_fits fb te"
  shows "\<exists>te'. gatherFinalErrors F (map (error_list_of fb) dss) order te = Inr te' \<and>
    (\<forall>i<nat (getTotalTiles fb). tileErrorBuffer te' ! i = (case map_of (concat dss) i of
      Some e \<Rightarrow> if fless F e (finf F) then e else tileErrorBuffer te ! i | None \<Rightarrow> tileErrorBuffer te ! i))"
proof -
  have counts: "map (length \<circ> tileIDs) (map (error_list_of fb) dss) = map length dss"
    by (simp add: error_list_of_def comp_def)
  have set_order: "set order = {0..<length dss}" using arg_cong [OF order, of set_mset] by simp
  let ?ds = "concat (map (nth dss) order)"
  have "mset ?ds = (\<Sum>r\<in>#mset order. mset (dss ! r))"
    by (simp add: mset_concat comp_def sum_mset_sum_list flip: mset_map)
  also have "\<dots> = mset (concat (map (nth dss) [0..<length dss]))" unfolding order
    by (simp only: mset_concat map_map comp_def sum_mset_sum_list flip: mset_map)
  finally have perm: "mset ?ds = mset (concat dss)" by (simp only: map_nth)
  then have "mset (map fst ?ds) = mset (map fst (concat dss))" by (metis mset_map)
  then have dist': "distinct (map fst ?ds)" using dist mset_eq_imp_distinct_iff by blast
  have "set ?ds = set (concat dss)" using perm by (rule mset_eq_setD)
  with dist dist' have same: "map_of ?ds = map_of (concat dss)" by (simp only: map_of_inject_set)
  have "process_errors F (concat (map (sendBuffer \<circ> error_list_of fb) dss)) (map length dss) order te = Inr (set_errors F fb ?ds te)"
    using ds set_order by (intro process_errors_ok [OF fb _ te]) auto
  then have "gatherFinalErrors F (map (error_list_of fb) dss) order te = Inr (set_errors F fb ?ds te)"
    unfolding gatherFinalErrors_def Let_def counts using small by (simp add: length_concat)
  then show ?thesis
    using set_errors_at [OF dist' te, of _ F] fb(2) by (simp add: same split: option.split)
qed

section \<open>An example\<close>

text \<open>Two pixels, tiles of one pixel and two workers; the second tile has converged.\<close>

definition tiny_frame :: framebuffer where
  "tiny_frame = \<lparr>fb_size = (2, 1), numTiles = (2, 1), maxValidPixelID = (1, 0), colorBufferFormat = OSP_FB_RGBA8,
     hasDepthBuffer = True, hasAccumBuffer = True, hasVarianceBuffer = True, hasNormalBuffer = False,
     hasAlbedoBuffer = False, frameID = - 1\<rparr>"

definition tiny_dfb :: "(unit, int, unit) dfb" where
  "tiny_dfb = DistributedFrameBuffer int_arith 1 (\<lambda>_. ()) \<lparr>globalRank = 0, numGlobalRanks = 3, masterIsAWorker = False\<rparr> tiny_frame"

definition tiny_start :: "(unit, int, unit) dfb res" where
  "tiny_start = startNewFrame 1 (\<lambda>_ s. s) (\<lambda>_ s. s) (\<lambda>_. 0) None int_arith 10 [20, 5] [0, 0] tiny_dfb"

definition tiny_final :: "int final_tile" where
  "tiny_final = \<lparr>ft_color = [11, 0, 0, 0], ft_z = [12], ft_normal = [0, 0, 0], ft_albedo = [0, 0, 0]\<rparr>"

definition tiny_master :: "int master_fb" where
  "tiny_master = \<lparr>mf_color = [[1], [2]], mf_depth = [3, 4], mf_normal = [], mf_albedo = []\<rparr>"

definition zero_message :: "(int, int) master_message" where
  "zero_message = \<lparr>msg_command = 0, msg_coords = (0, 0), msg_error = 0, msg_body = [0, 0]\<rparr>"

lemma tiny_frame_made: "FrameBuffer True 1 (2, 1) OSP_FB_RGBA8 15 = Inr tiny_frame"
  by code_simp

definition tiny_errors :: "int tile_error" where
  "tiny_errors = \<lparr>te_numTiles = (2, 1), tiles = 2, tileErrorBuffer = [20, 5], errorRegion = [\<lparr>lower = (0, 0), upper = (2, 1)\<rparr>]\<rparr>"

lemma tiny_started:
  obtains d0 where "tiny_start = Inr d0" "numTilesExpected d0 = [0, 1, 0]" "d_errors d0 = tiny_errors"
proof -
  have "(case tiny_start of Inl e \<Rightarrow> False | Inr d0 \<Rightarrow> numTilesExpected d0 = [0, 1, 0] \<and> d_errors d0 = tiny_errors)"
    by code_simp
  with that show thesis by (auto split: sum.splits)
qed

theorem master_shows_final_tiles_witness:
  "\<exists>gbs mb' te'. gatherFinalTiles rev rev zero_message int_arith 1 tiny_frame [0, 1, 0] gbs [0]
       (tiny_master, tiny_errors) = Inr (mb', te') \<and>
     shows_tile 1 tiny_frame 0 tiny_final mb' \<and> tileErrorBuffer te' ! 0 = 7 \<and> same_pixel tiny_master mb' 1"
proof -
  obtain d0 where d0: "tiny_start = Inr d0" "numTilesExpected d0 = [0, 1, 0]" "d_errors d0 = tiny_errors"
    by (rule tiny_started)
  have fb: "d_fb tiny_dfb = tiny_frame" "d_group tiny_dfb = \<lparr>globalRank = 0, numGlobalRanks = 3, masterIsAWorker = False\<rparr>"
    "delayedMessage tiny_dfb = []"
    by (simp_all add: tiny_dfb_def DistributedFrameBuffer_def)
  have ok: "dfb_ok 1 tiny_dfb"
    unfolding tiny_dfb_def using frame_ok_FrameBuffer [OF tiny_frame_made] by (intro dfb_ok_made) simp
  have "rank_tiles int_arith 10 (d_group tiny_dfb) tiny_frame tiny_errors r = (if r = 1 then {0} else {})" for r
    by (auto simp: rank_tiles_def fb ownerIDFromTileID_def globalRankFromWorkerRank_def num_workers_def getTotalTiles_def
        tiny_frame_def to_complete_def error_of_def tiny_errors_def int_arith_def less_2_cases_iff)
  then have dss: "\<forall>r<length [[], [(0, 7, tiny_final)], []].
      rank_completes int_arith 1 10 (d_group tiny_dfb) (d_fb tiny_dfb) (d_errors d0) ([[], [(0, 7, tiny_final)], []] ! r) r"
    by (auto simp: rank_completes_def fb d0 final_ok_def tiny_final_def cells_def less_Suc_eq numeral_eq_Suc)
  have rest: "colorBufferFormat (d_fb tiny_dfb) \<noteq> OSP_FB_NONE" "mf_ok (d_fb tiny_dfb) tiny_master"
    "te_fits (d_fb tiny_dfb) (d_errors d0)" "packs rev rev (\<lambda>n. n)" "IamTheMaster (d_group tiny_dfb)"
    "tile_message_cells 1 (d_fb tiny_dfb) = 6"
    by (simp_all add: fb d0 tiny_frame_def mf_ok_def tiny_master_def te_fits_def tiny_errors_def getTotalTiles_def packs_def
        IamTheMaster_def tile_message_cells_def masterMsgSize_def header_cells_def pixelSize_def cells_def)
  obtain gbs mb' te' where run: "gatherFinalTiles rev rev zero_message int_arith 1 tiny_frame [0, 1, 0] gbs [0]
       (tiny_master, tiny_errors) = Inr (mb', te')"
    and shown: "shown_after int_arith 1 tiny_frame {(0, 7, tiny_final)} tiny_master tiny_errors mb' te'"
    using master_shows_final_tiles [of 1 tiny_dfb "\<lambda>_ s. s" "\<lambda>_ s. s" "\<lambda>_. 0" None int_arith 10 "[20, 5]" "[0, 0]" d0
        "[[], [(0, 7, tiny_final)], []]" rev rev "\<lambda>n. n" "[0]" tiny_master 0 zero_message,
        OF ok fb(3) rest(5) _ d0(1) [unfolded tiny_start_def] rest(1) _ dss rest(4) _ _ _ rest(2,3)]
    by (auto simp: d0 rest(6) [unfolded fb] fb fits32_def)
  have "1 \<notin> tile_pixels 1 tiny_frame 0"
    by (auto simp: tile_pixels_def tile_region_points pixel_of_def tile_of_task_def tiny_frame_def getNumTiles_def Let_def)
  with shown have "same_pixel tiny_master mb' 1" by (auto simp: shown_after_def)
  with run shown show ?thesis
    by (intro exI [of _ gbs] exI [of _ mb'] exI [of _ te'])
      (simp add: shown_after_def tiny_frame_def int_arith_def)
qed

end
