(* ===== verification/Maml.thy ===== *)
theory Maml
  imports SyncUtils "HOL-Library.Multiset"
begin

text \<open>
  The message layer of a process (\<open>maml::Context\<close>,
  \<open>components/mpiMessageLayer/maml/Context.cpp\<close>): the outbox, the messages that MPI is
  sending or receiving, the inbox and the calls of the handlers.  What the MPI calls
  return is an argument of the operations: the request of each \<open>Isend\<close>, what \<open>Iprobe\<close>
  and \<open>Irecv\<close> find on each communicator, and the indices that \<open>Testsome\<close> reports.  The
  fields \<open>isends\<close>, \<open>irecvs\<close> and \<open>handled\<close> log the calls of \<open>Isend\<close>, \<open>Irecv\<close> and
  \<open>incoming\<close>.  The compression is the pair of functions \<open>pack\<close> and \<open>unpack\<close>.  Each
  operation is a step: the two loops that run them meet only in the two boxes.
\<close>

section \<open>State\<close>

record 'd message =
  msg_comm :: nat
  msg_rank :: int
  msg_tag :: int
  msg_data :: 'd

record ('d, 'r, 'h) maml =
  compressMessages :: bool
  maml_handlers :: "(nat \<times> 'h) list"
  maml_inbox :: "'d message transactional_buffer"
  maml_outbox :: "'d message transactional_buffer"
  sendCache :: "'d message option list"
  pendingSends :: "'r option list"
  recvCache :: "'d message option list"
  pendingRecvs :: "'r option list"
  isends :: "('r \<times> 'd message) list"
  irecvs :: "('r \<times> 'd message) list"
  handled :: "('h \<times> 'd message) list"

definition Context :: "bool \<Rightarrow> ('d, 'r, 'h) maml" where
  "Context enableCompression = \<lparr>compressMessages = enableCompression, maml_handlers = [], maml_inbox = [],
     maml_outbox = [], sendCache = [], pendingSends = [], recvCache = [], pendingRecvs = [],
     isends = [], irecvs = [], handled = []\<rparr>"

section \<open>Operations\<close>

text \<open>An ordered map: the handlers are visited by communicator.\<close>

fun map_put :: "nat \<Rightarrow> 'h \<Rightarrow> (nat \<times> 'h) list \<Rightarrow> (nat \<times> 'h) list" where
  "map_put k v [] = [(k, v)]"
| "map_put k v ((k', v') # xs) =
     (if k < k' then (k, v) # (k', v') # xs else if k = k' then (k, v) # xs else (k', v') # map_put k v xs)"

definition registerHandlerFor :: "nat \<Rightarrow> 'h \<Rightarrow> ('d, 'r, 'h) maml \<Rightarrow> ('d, 'r, 'h) maml" where
  "registerHandlerFor comm h c = c\<lparr>maml_handlers := map_put comm h (maml_handlers c)\<rparr>"

definition packed :: "('d \<Rightarrow> 'd) \<Rightarrow> ('d, 'r, 'h) maml \<Rightarrow> 'd message \<Rightarrow> 'd message" where
  "packed f c m = (if compressMessages c then m\<lparr>msg_data := f (msg_data m)\<rparr> else m)"

definition Context_send :: "('d \<Rightarrow> 'd) \<Rightarrow> 'd message \<Rightarrow> ('d, 'r, 'h) maml \<Rightarrow> ('d, 'r, 'h) maml" where
  "Context_send pack m c = c\<lparr>maml_outbox := tb_push_back (packed pack c m) (maml_outbox c)\<rparr>"

definition maml_sendTo :: "('d \<Rightarrow> 'd) \<Rightarrow> nat \<Rightarrow> int \<Rightarrow> 'd message \<Rightarrow> ('d, 'r, 'h) maml \<Rightarrow> ('d, 'r, 'h) maml res" where
  "maml_sendTo pack comm rank m c =
    (if \<not> 0 \<le> rank then Inl (Runtime_error ''Incorrect argument values given to maml::sendTo(...)'')
     else Inr (Context_send pack (m\<lparr>msg_rank := rank, msg_comm := comm\<rparr>) c))"

text \<open>\<open>rank\<close> is \<open>MPI_Comm_rank\<close>; \<open>rs\<close> are the requests of the calls of \<open>Isend\<close>.\<close>

fun send_each :: "(nat \<Rightarrow> int) \<Rightarrow> 'd message list \<Rightarrow> 'r list \<Rightarrow> ('d, 'r, 'h) maml \<Rightarrow> ('d, 'r, 'h) maml res" where
  "send_each rank [] rs c = Inr c"
| "send_each rank (m # ms) rs c =
    (if rank (msg_comm m) = msg_rank m
     then send_each rank ms rs (c\<lparr>maml_inbox := tb_push_back m (maml_inbox c)\<rparr>)
     else case rs of [] \<Rightarrow> Inl (Runtime_error ''MPI'')
       | r # rs' \<Rightarrow> send_each rank ms rs' (c\<lparr>pendingSends := pendingSends c @ [Some r],
           sendCache := sendCache c @ [Some m], isends := isends c @ [(r, m)]\<rparr>))"

definition sendMessagesFromOutbox :: "(nat \<Rightarrow> int) \<Rightarrow> 'r list \<Rightarrow> ('d, 'r, 'h) maml \<Rightarrow> ('d, 'r, 'h) maml res" where
  "sendMessagesFromOutbox rank rs c =
    (case tb_consume (maml_outbox c) of (ms, out) \<Rightarrow> send_each rank ms rs (c\<lparr>maml_outbox := out\<rparr>))"

text \<open>One probe per communicator with a handler: nothing, or a message and its request.\<close>

type_synonym ('d, 'r) probe = "(int \<times> int \<times> 'd \<times> 'r) option"

fun poll_each :: "(nat \<times> 'h) list \<Rightarrow> ('d, 'r) probe list \<Rightarrow> ('d, 'r, 'h) maml \<Rightarrow> ('d, 'r, 'h) maml" where
  "poll_each ((comm, h) # hs) (Some (source, tag, data, r) # ps) c = poll_each hs ps
     (let m = \<lparr>msg_comm = comm, msg_rank = source, msg_tag = tag, msg_data = data\<rparr>
      in c\<lparr>pendingRecvs := pendingRecvs c @ [Some r], recvCache := recvCache c @ [Some m],
           irecvs := irecvs c @ [(r, m)]\<rparr>)"
| "poll_each (h # hs) (None # ps) c = poll_each hs ps c"
| "poll_each _ _ c = c"

definition pollForAndRecieveMessages :: "('d, 'r) probe list \<Rightarrow> ('d, 'r, 'h) maml \<Rightarrow> ('d, 'r, 'h) maml" where
  "pollForAndRecieveMessages ps c = poll_each (maml_handlers c) ps c"

text \<open>One index that \<open>Testsome\<close> reports.  A null message would be put into the inbox and
  used there.\<close>

definition request_done :: "nat \<Rightarrow> ('d, 'r, 'h) maml \<Rightarrow> ('d, 'r, 'h) maml res" where
  "request_done i c =
    (if i < length (pendingSends c)
     then Inr (c\<lparr>pendingSends := (pendingSends c)[i := None], sendCache := (sendCache c)[i := None]\<rparr>)
     else let j = i - length (pendingSends c) in
       if \<not> j < length (pendingRecvs c) then Inl Undefined_behaviour
       else case recvCache c ! j of None \<Rightarrow> Inl Undefined_behaviour
       | Some m \<Rightarrow> Inr (c\<lparr>maml_inbox := tb_push_back m (maml_inbox c),
           pendingRecvs := (pendingRecvs c)[j := None], recvCache := (recvCache c)[j := None]\<rparr>))"

fun requests_done :: "nat list \<Rightarrow> ('d, 'r, 'h) maml \<Rightarrow> ('d, 'r, 'h) maml res" where
  "requests_done [] c = Inr c"
| "requests_done (i # is) c = bind_res (request_done i c) (requests_done is)"

definition remove_null :: "'a option list \<Rightarrow> 'a option list" where
  "remove_null xs = filter (\<lambda>x. x \<noteq> None) xs"

definition waitOnSomeRequests :: "nat list \<Rightarrow> ('d, 'r, 'h) maml \<Rightarrow> ('d, 'r, 'h) maml res" where
  "waitOnSomeRequests done_ids c =
    (if pendingSends c = [] \<and> pendingRecvs c = [] then Inr c
     else bind_res (requests_done done_ids c) (\<lambda>c1. Inr (c1\<lparr>sendCache := remove_null (sendCache c1),
       pendingSends := remove_null (pendingSends c1), recvCache := remove_null (recvCache c1),
       pendingRecvs := remove_null (pendingRecvs c1)\<rparr>)))"

text \<open>\<open>handlers[comm]\<close> of a communicator without a handler is a null pointer.\<close>

fun handle_each :: "('d \<Rightarrow> 'd) \<Rightarrow> 'd message list \<Rightarrow> ('d, 'r, 'h) maml \<Rightarrow> ('d, 'r, 'h) maml res" where
  "handle_each unpack [] c = Inr c"
| "handle_each unpack (m # ms) c = (case map_of (maml_handlers c) (msg_comm m) of
     None \<Rightarrow> Inl Undefined_behaviour
   | Some h \<Rightarrow> handle_each unpack ms (c\<lparr>handled := handled c @ [(h, packed unpack c m)]\<rparr>))"

definition processInboxMessages :: "('d \<Rightarrow> 'd) \<Rightarrow> ('d, 'r, 'h) maml \<Rightarrow> ('d, 'r, 'h) maml res" where
  "processInboxMessages unpack c =
    (case tb_consume (maml_inbox c) of (ms, box) \<Rightarrow> handle_each unpack ms (c\<lparr>maml_inbox := box\<rparr>))"

section \<open>Runs\<close>

datatype ('d, 'r, 'h) maml_op =
    Register nat 'h
  | Send nat int "'d message"
  | Send_outbox "'r list"
  | Poll "('d, 'r) probe list"
  | Wait "nat list"
  | Process_inbox

fun maml_do :: "('d \<Rightarrow> 'd) \<Rightarrow> ('d \<Rightarrow> 'd) \<Rightarrow> (nat \<Rightarrow> int) \<Rightarrow> ('d, 'r, 'h) maml_op \<Rightarrow> ('d, 'r, 'h) maml \<Rightarrow> ('d, 'r, 'h) maml res" where
  "maml_do pack unpack rank (Register comm h) c = Inr (registerHandlerFor comm h c)"
| "maml_do pack unpack rank (Send comm r m) c = maml_sendTo pack comm r m c"
| "maml_do pack unpack rank (Send_outbox rs) c = sendMessagesFromOutbox rank rs c"
| "maml_do pack unpack rank (Poll ps) c = Inr (pollForAndRecieveMessages ps c)"
| "maml_do pack unpack rank (Wait is) c = waitOnSomeRequests is c"
| "maml_do pack unpack rank Process_inbox c = processInboxMessages unpack c"

definition not_self :: "(nat \<Rightarrow> int) \<Rightarrow> 'd message \<Rightarrow> bool" where
  "not_self rank m \<longleftrightarrow> rank (msg_comm m) \<noteq> msg_rank m"

text \<open>What the callers and MPI guarantee: messages go to registered communicators and
  valid ranks, every \<open>Isend\<close> gives a request, and \<open>Testsome\<close> reports distinct indices of
  its arguments.\<close>

fun op_ok :: "(nat \<Rightarrow> int) \<Rightarrow> ('d, 'r, 'h) maml \<Rightarrow> ('d, 'r, 'h) maml_op \<Rightarrow> bool" where
  "op_ok rank c (Register comm h) \<longleftrightarrow> True"
| "op_ok rank c (Send comm r m) \<longleftrightarrow> 0 \<le> r \<and> comm \<in> fst ` set (maml_handlers c)"
| "op_ok rank c (Send_outbox rs) \<longleftrightarrow> length rs = length (filter (not_self rank) (maml_outbox c))"
| "op_ok rank c (Poll ps) \<longleftrightarrow> True"
| "op_ok rank c (Wait is) \<longleftrightarrow> distinct is \<and> (\<forall>i\<in>set is. i < length (pendingSends c) + length (pendingRecvs c))"
| "op_ok rank c Process_inbox \<longleftrightarrow> True"

fun maml_run :: "('d \<Rightarrow> 'd) \<Rightarrow> ('d \<Rightarrow> 'd) \<Rightarrow> (nat \<Rightarrow> int) \<Rightarrow> ('d, 'r, 'h) maml_op list \<Rightarrow> ('d, 'r, 'h) maml \<Rightarrow> ('d, 'r, 'h) maml res" where
  "maml_run pack unpack rank [] c = Inr c"
| "maml_run pack unpack rank (e # es) c = bind_res (maml_do pack unpack rank e c) (maml_run pack unpack rank es)"

fun run_ok :: "('d \<Rightarrow> 'd) \<Rightarrow> ('d \<Rightarrow> 'd) \<Rightarrow> (nat \<Rightarrow> int) \<Rightarrow> ('d, 'r, 'h) maml_op list \<Rightarrow> ('d, 'r, 'h) maml \<Rightarrow> bool" where
  "run_ok pack unpack rank [] c \<longleftrightarrow> True"
| "run_ok pack unpack rank (e # es) c \<longleftrightarrow> op_ok rank c e \<and>
     (case maml_do pack unpack rank e c of Inl _ \<Rightarrow> True | Inr c' \<Rightarrow> run_ok pack unpack rank es c')"

text \<open>The messages given to \<open>sendTo\<close>.\<close>

fun submitted :: "('d, 'r, 'h) maml_op list \<Rightarrow> 'd message list" where
  "submitted [] = []"
| "submitted (Send comm r m # es) = m\<lparr>msg_rank := r, msg_comm := comm\<rparr> # submitted es"
| "submitted (_ # es) = submitted es"

section \<open>Requests and their messages\<close>

text \<open>The two vectors correspond by their index: each request is that of the message.\<close>

definition matched :: "('r \<times> 'd message) list \<Rightarrow> 'r option list \<Rightarrow> 'd message option list \<Rightarrow> bool" where
  "matched log ps ms \<longleftrightarrow> list_all2 (\<lambda>p m. p = None \<and> m = None \<or> (\<exists>r x. p = Some r \<and> m = Some x \<and> (r, x) \<in> set log)) ps ms"

lemma matched_Nil [simp]: "matched log [] []"
  by (simp add: matched_def)

lemma matched_update: "matched log ps ms \<Longrightarrow> matched log (ps[i := None]) (ms[i := None])"
  by (auto simp: matched_def intro: list_all2_update_cong)

lemma matched_snoc: "matched log ps ms \<Longrightarrow> matched (log @ [(r, m)]) (ps @ [Some r]) (ms @ [Some m])"
  by (auto simp: matched_def intro!: list_all2_appendI elim: list_all2_mono)

lemma matched_remove_null: "matched log ps ms \<Longrightarrow> matched log (remove_null ps) (remove_null ms)"
  unfolding matched_def by (induction rule: list_all2_induct) (auto simp: remove_null_def)

lemma matched_length: "matched log ps ms \<Longrightarrow> length ps = length ms"
  by (simp add: matched_def list_all2_lengthD)

lemma remove_null_simps [simp]:
  "remove_null [] = []" "remove_null (xs @ ys) = remove_null xs @ remove_null ys" "remove_null [Some x] = [Some x]"
  "remove_null (remove_null xs) = remove_null xs" "None \<notin> set (remove_null xs)"
  by (simp_all add: remove_null_def)

lemma remove_null_update:
  "j < length xs \<Longrightarrow> xs ! j = Some m \<Longrightarrow>
   mset (map the (remove_null xs)) = add_mset m (mset (map the (remove_null (xs[j := None]))))"
proof (induction xs arbitrary: j)
  case (Cons x xs)
  then show ?case by (cases j) (auto simp: remove_null_def)
qed simp

lemma packed_simps [simp]:
  "msg_comm (packed f c m) = msg_comm m" "msg_rank (packed f c m) = msg_rank m"
  "not_self rank (packed f c m) = not_self rank m"
  by (simp_all add: packed_def not_self_def)

lemma packed_cong: "compressMessages c = compressMessages c' \<Longrightarrow> packed f c = packed f c'"
  by (simp add: packed_def fun_eq_iff)

lemma filter_not_self_packed [simp]:
  "filter (not_self rank) (map (packed f c) ms) = map (packed f c) (filter (not_self rank) ms)"
  "filter (\<lambda>m. \<not> not_self rank m) (map (packed f c) ms) = map (packed f c) (filter (\<lambda>m. \<not> not_self rank m) ms)"
  by (simp_all add: filter_map comp_def)

section \<open>The invariant\<close>

text \<open>The messages that wait to be handled: to this process in the outbox, in the inbox,
  and being received.\<close>

definition waiting :: "(nat \<Rightarrow> int) \<Rightarrow> ('d, 'r, 'h) maml \<Rightarrow> 'd message multiset" where
  "waiting rank c = mset (filter (\<lambda>m. \<not> not_self rank m) (maml_outbox c)) + mset (maml_inbox c) +
     mset (map the (remove_null (recvCache c)))"

text \<open>\<open>cc\<close> is whether messages are compressed; \<open>S\<close> are the messages submitted so far.\<close>

definition maml_inv :: "('d \<Rightarrow> 'd) \<Rightarrow> ('d \<Rightarrow> 'd) \<Rightarrow> (nat \<Rightarrow> int) \<Rightarrow> 'd message list \<Rightarrow> ('d, 'r, 'h) maml \<Rightarrow> bool" where
  "maml_inv pack unpack rank S c \<longleftrightarrow>
     matched (isends c) (pendingSends c) (sendCache c) \<and> matched (irecvs c) (pendingRecvs c) (recvCache c) \<and>
     map snd (isends c) @ filter (not_self rank) (maml_outbox c) = map (packed pack c) (filter (not_self rank) S) \<and>
     image_mset (packed unpack c) (waiting rank c) + mset (map snd (handled c)) =
       image_mset (packed unpack c) (mset (map snd (irecvs c)) +
         mset (map (packed pack c) (filter (\<lambda>m. \<not> not_self rank m) S))) \<and>
     (\<forall>m\<in>#waiting rank c. msg_comm m \<in> fst ` set (maml_handlers c))"

definition all_pending :: "('d, 'r, 'h) maml \<Rightarrow> bool" where
  "all_pending c \<longleftrightarrow> None \<notin> set (pendingSends c) \<and> None \<notin> set (recvCache c)"

lemma map_put_dom: "fst ` set (map_put k v xs) = insert k (fst ` set xs)"
  by (induction k v xs rule: map_put.induct) auto

lemma send_each_inv:
  "maml_inv pack unpack rank S (c\<lparr>maml_outbox := ms\<rparr>) \<Longrightarrow> all_pending c \<Longrightarrow> length rs = length (filter (not_self rank) ms) \<Longrightarrow>
   \<exists>c'. send_each rank ms rs c = Inr c' \<and> maml_inv pack unpack rank S (c'\<lparr>maml_outbox := []\<rparr>) \<and> all_pending c' \<and>
     maml_outbox c' = maml_outbox c \<and> compressMessages c' = compressMessages c"
proof (induction ms arbitrary: rs c)
  case (Cons m ms)
  show ?case
  proof (cases "not_self rank m")
    case False
    let ?c = "c\<lparr>maml_inbox := tb_push_back m (maml_inbox c)\<rparr>"
    have "waiting rank (?c\<lparr>maml_outbox := ms\<rparr>) = waiting rank (c\<lparr>maml_outbox := m # ms\<rparr>)"
      using False by (simp add: waiting_def tb_push_back_def)
    then have "maml_inv pack unpack rank S (?c\<lparr>maml_outbox := ms\<rparr>)"
      using Cons.prems(1) False by (simp add: maml_inv_def packed_cong [of ?c c] packed_def [abs_def])
    with Cons.IH [of ?c rs] Cons.prems False show ?thesis by (simp add: not_self_def all_pending_def)
  next
    case True
    then obtain r rs' where rs: "rs = r # rs'" using Cons.prems(3) by (cases rs) auto
    let ?c = "c\<lparr>pendingSends := pendingSends c @ [Some r], sendCache := sendCache c @ [Some m], isends := isends c @ [(r, m)]\<rparr>"
    have "waiting rank (?c\<lparr>maml_outbox := ms\<rparr>) = waiting rank (c\<lparr>maml_outbox := m # ms\<rparr>)"
      using True by (simp add: waiting_def)
    then have "maml_inv pack unpack rank S (?c\<lparr>maml_outbox := ms\<rparr>)"
      using Cons.prems(1) True by (simp add: maml_inv_def matched_snoc packed_def [abs_def])
    with Cons.IH [of ?c rs'] Cons.prems True rs show ?thesis by (simp add: not_self_def all_pending_def)
  qed
qed simp

lemma poll_each_inv:
  "maml_inv pack unpack rank S c \<Longrightarrow> all_pending c \<Longrightarrow> set hs \<subseteq> set (maml_handlers c) \<Longrightarrow>
   maml_inv pack unpack rank S (poll_each hs ps c) \<and> all_pending (poll_each hs ps c)"
proof (induction hs ps c rule: poll_each.induct)
  case (1 comm h hs source tag data r ps c)
  let ?m = "\<lparr>msg_comm = comm, msg_rank = source, msg_tag = tag, msg_data = data\<rparr>"
  let ?c = "c\<lparr>pendingRecvs := pendingRecvs c @ [Some r], recvCache := recvCache c @ [Some ?m], irecvs := irecvs c @ [(r, ?m)]\<rparr>"
  have w: "waiting rank ?c = add_mset ?m (waiting rank c)" by (simp add: waiting_def)
  have "comm \<in> fst ` set (maml_handlers c)" using 1(4) by force
  then have "maml_inv pack unpack rank S ?c"
    using 1(2) w by (simp add: maml_inv_def matched_snoc packed_def [abs_def])
  with 1 show ?case by (simp add: all_pending_def Let_def)
qed simp_all

lemma handle_each_inv:
  "\<forall>m\<in>set ms. msg_comm m \<in> fst ` set (maml_handlers c) \<Longrightarrow>
   \<exists>hs. handle_each unpack ms c = Inr (c\<lparr>handled := handled c @ hs\<rparr>) \<and> map snd hs = map (packed unpack c) ms"
proof (induction ms arbitrary: c)
  case (Cons m ms)
  then obtain h where h: "map_of (maml_handlers c) (msg_comm m) = Some h"
    by (cases "map_of (maml_handlers c) (msg_comm m)") (auto simp: map_of_eq_None_iff)
  let ?c = "c\<lparr>handled := handled c @ [(h, packed unpack c m)]\<rparr>"
  obtain hs where hs: "handle_each unpack ms ?c = Inr (?c\<lparr>handled := handled ?c @ hs\<rparr>)" "map snd hs = map (packed unpack ?c) ms"
    using Cons.IH [of ?c] Cons.prems by auto
  then show ?case using h
    by (intro exI [of _ "(h, packed unpack c m) # hs"]) (simp add: packed_def [abs_def])
qed simp

lemma requests_done_inv:
  "maml_inv pack unpack rank S c \<Longrightarrow> distinct is \<Longrightarrow>
   \<forall>i\<in>set is. i < length (pendingSends c) + length (pendingRecvs c) \<and>
     (length (pendingSends c) \<le> i \<longrightarrow> recvCache c ! (i - length (pendingSends c)) \<noteq> None) \<Longrightarrow>
   \<exists>c'. requests_done is c = Inr c' \<and> maml_inv pack unpack rank S c' \<and> compressMessages c' = compressMessages c"
proof (induction "is" arbitrary: c)
  case (Cons i "is")
  let ?n = "length (pendingSends c)"
  show ?case
  proof (cases "i < ?n")
    case True
    let ?c = "c\<lparr>pendingSends := (pendingSends c)[i := None], sendCache := (sendCache c)[i := None]\<rparr>"
    have "maml_inv pack unpack rank S ?c"
      using Cons.prems(1) by (simp add: maml_inv_def matched_update waiting_def packed_def [abs_def])
    with Cons.IH [of ?c] Cons.prems True show ?thesis by (auto simp: request_done_def)
  next
    case False
    define j where "j = i - ?n"
    obtain m where m: "recvCache c ! j = Some m" using Cons.prems(3) False by (auto simp: j_def)
    have j: "j < length (pendingRecvs c)" using Cons.prems(3) False by (auto simp: j_def)
    then have j': "j < length (recvCache c)" using Cons.prems(1) by (auto simp: maml_inv_def dest!: matched_length)
    let ?c = "c\<lparr>maml_inbox := tb_push_back m (maml_inbox c), pendingRecvs := (pendingRecvs c)[j := None],
      recvCache := (recvCache c)[j := None]\<rparr>"
    have "waiting rank ?c = waiting rank c"
      using remove_null_update [OF j' m] by (simp add: waiting_def tb_push_back_def)
    then have inv: "maml_inv pack unpack rank S ?c"
      using Cons.prems(1) by (simp add: maml_inv_def matched_update packed_def [abs_def])
    have "recvCache ?c ! (k - ?n) \<noteq> None" if "k \<in> set is" "?n \<le> k" for k
    proof -
      have "k \<noteq> i" using Cons.prems(2) that(1) by auto
      then have "k - ?n \<noteq> j" using that(2) False by (simp add: j_def)
      then show ?thesis using Cons.prems(3) that by (simp add: nth_list_update)
    qed
    with Cons.IH [OF inv] Cons.prems(2,3) obtain c' where
      "requests_done is ?c = Inr c'" "maml_inv pack unpack rank S c'" "compressMessages c' = compressMessages c" by auto
    moreover have "request_done i c = Inr ?c" using False j m by (simp add: request_done_def j_def Let_def)
    ultimately show ?thesis by simp
  qed
qed simp

lemma maml_step:
  assumes inv: "maml_inv pack unpack rank S c" and all: "all_pending c" and ok: "op_ok rank c e"
  shows "\<exists>c'. maml_do pack unpack rank e c = Inr c' \<and> maml_inv pack unpack rank (S @ submitted [e]) c' \<and>
    all_pending c' \<and> compressMessages c' = compressMessages c"
proof (cases e)
  case (Register comm h)
  have "waiting rank (registerHandlerFor comm h c) = waiting rank c" by (simp add: waiting_def registerHandlerFor_def)
  then have "maml_inv pack unpack rank S (registerHandlerFor comm h c)"
    using inv by (simp add: maml_inv_def registerHandlerFor_def map_put_dom packed_def [abs_def])
  then show ?thesis using all by (simp add: Register all_pending_def registerHandlerFor_def)
next
  case (Send comm r m)
  define m' where "m' = m\<lparr>msg_rank := r, msg_comm := comm\<rparr>"
  have pk: "packed f (Context_send pack m' c) = packed f c" for f by (rule packed_cong) (simp add: Context_send_def)
  have "maml_inv pack unpack rank (S @ [m']) (Context_send pack m' c)"
  proof (cases "not_self rank m'")
    case True
    then have "waiting rank (Context_send pack m' c) = waiting rank c"
      by (simp add: waiting_def Context_send_def tb_push_back_def)
    with inv True show ?thesis
      unfolding maml_inv_def pk by (simp add: Context_send_def tb_push_back_def flip: append_assoc)
  next
    case False
    then have w: "waiting rank (Context_send pack m' c) = add_mset (packed pack c m') (waiting rank c)"
      by (simp add: waiting_def Context_send_def tb_push_back_def)
    have "comm \<in> fst ` set (maml_handlers c)" using ok by (simp add: Send)
    moreover have "msg_comm m' = comm" by (simp add: m'_def)
    ultimately show ?thesis using inv False
      unfolding maml_inv_def pk w by (simp add: Context_send_def tb_push_back_def)
  qed
  then show ?thesis using ok all by (simp add: Send maml_sendTo_def m'_def all_pending_def) (simp add: Context_send_def)
next
  case (Send_outbox rs)
  have "maml_inv pack unpack rank S (c\<lparr>maml_outbox := []\<rparr>\<lparr>maml_outbox := maml_outbox c\<rparr>)" using inv by simp
  from send_each_inv [OF this, of rs] ok all obtain c' where
    "send_each rank (maml_outbox c) rs (c\<lparr>maml_outbox := []\<rparr>) = Inr c'"
    "maml_inv pack unpack rank S (c'\<lparr>maml_outbox := []\<rparr>)" "all_pending c'" "maml_outbox c' = []"
    "compressMessages c' = compressMessages c"
    by (auto simp: Send_outbox all_pending_def)
  moreover from this have "c'\<lparr>maml_outbox := []\<rparr> = c'" by simp
  ultimately show ?thesis by (simp add: Send_outbox sendMessagesFromOutbox_def tb_consume_def)
next
  case (Poll ps)
  have "compressMessages (poll_each hs qs c) = compressMessages c" for hs qs and c :: "('a, 'b, 'c) maml"
    by (induction hs qs c rule: poll_each.induct) (simp_all add: Let_def)
  with poll_each_inv [OF inv all order_refl, of ps] show ?thesis by (simp add: Poll pollForAndRecieveMessages_def)
next
  case (Wait "is")
  show ?thesis
  proof (cases "pendingSends c = [] \<and> pendingRecvs c = []")
    case True
    then show ?thesis using inv all by (simp add: Wait waitOnSomeRequests_def)
  next
    case False
    have "length (recvCache c) = length (pendingRecvs c)" using inv by (auto simp: maml_inv_def dest!: matched_length)
    then have "recvCache c ! j \<noteq> None" if "j < length (pendingRecvs c)" for j
      using all that by (metis all_pending_def nth_mem)
    moreover have "i - length (pendingSends c) < length (pendingRecvs c)" if "i \<in> set is" "length (pendingSends c) \<le> i" for i
      using ok that by (auto simp: Wait)
    ultimately have "\<forall>i\<in>set is. i < length (pendingSends c) + length (pendingRecvs c) \<and>
        (length (pendingSends c) \<le> i \<longrightarrow> recvCache c ! (i - length (pendingSends c)) \<noteq> None)"
      using ok by (simp add: Wait)
    from requests_done_inv [OF inv _ this] ok obtain c' where
      c': "requests_done is c = Inr c'" "maml_inv pack unpack rank S c'" "compressMessages c' = compressMessages c"
      by (auto simp: Wait)
    let ?c = "c'\<lparr>sendCache := remove_null (sendCache c'), pendingSends := remove_null (pendingSends c'),
      recvCache := remove_null (recvCache c'), pendingRecvs := remove_null (pendingRecvs c')\<rparr>"
    have "waiting rank ?c = waiting rank c'" by (simp add: waiting_def)
    then have "maml_inv pack unpack rank S ?c"
      using c'(2) by (simp add: maml_inv_def matched_remove_null packed_def [abs_def])
    moreover have "all_pending ?c" by (simp add: all_pending_def)
    moreover have "maml_do pack unpack rank (Wait is) c = Inr ?c"
      unfolding maml_do.simps waitOnSomeRequests_def if_not_P [OF False] using c'(1) by simp
    ultimately show ?thesis using c'(3) by (simp add: Wait)
  qed
next
  case Process_inbox
  let ?c = "c\<lparr>maml_inbox := []\<rparr>"
  have "\<forall>m\<in>set (maml_inbox c). msg_comm m \<in> fst ` set (maml_handlers ?c)"
    using inv by (auto simp: maml_inv_def waiting_def)
  from handle_each_inv [OF this, of unpack] obtain hs where
    hs: "handle_each unpack (maml_inbox c) ?c = Inr (?c\<lparr>handled := handled c @ hs\<rparr>)"
    "map snd hs = map (packed unpack c) (maml_inbox c)" by (auto simp: packed_def [abs_def])
  let ?d = "?c\<lparr>handled := handled c @ hs\<rparr>"
  have w: "waiting rank c = waiting rank ?d + mset (maml_inbox c)" by (simp add: waiting_def)
  have pk: "packed f ?d = packed f c" for f by (rule packed_cong) simp
  have "mset (map snd (handled ?d)) = mset (map snd (handled c)) + image_mset (packed unpack c) (mset (maml_inbox c))"
    using hs(2) by simp
  with inv w have "maml_inv pack unpack rank S ?d"
    unfolding maml_inv_def pk by (simp add: ac_simps)
  then show ?thesis using hs(1) all
    by (simp add: Process_inbox processInboxMessages_def tb_consume_def all_pending_def)
qed

section \<open>Every message is handed over once\<close>

lemma submitted_Cons: "submitted (e # es) = submitted [e] @ submitted es"
  by (cases e) simp_all

lemma maml_run_inv:
  "maml_inv pack unpack rank S c \<Longrightarrow> all_pending c \<Longrightarrow> run_ok pack unpack rank es c \<Longrightarrow>
   \<exists>c'. maml_run pack unpack rank es c = Inr c' \<and> maml_inv pack unpack rank (S @ submitted es) c' \<and> all_pending c'"
proof (induction es arbitrary: S c)
  case (Cons e es)
  from maml_step [OF Cons.prems(1,2), of e] Cons.prems(3) obtain c1 where
    c1: "maml_do pack unpack rank e c = Inr c1" "maml_inv pack unpack rank (S @ submitted [e]) c1" "all_pending c1"
    by auto
  with Cons.IH [OF c1(2,3)] Cons.prems(3) show ?case
    by (subst submitted_Cons) auto
qed simp

text \<open>C9 The message layer.  Let the unpacking undo the packing, let messages go to valid ranks
  of registered communicators, and let MPI give a request to every \<open>Isend\<close> and report
  distinct indices of pending requests.  Then in every sequence of operations of the
  two loops and of the callers none fails; every pending request is that of the message kept at
  its index, so that a buffer is alive while MPI uses it; the messages to other
  processes are passed to \<open>Isend\<close> in the order in which they were sent, each once; and
  every message that was received, or sent by the process to itself, is handed to a
  handler once, with its original data, or still waits to be handed over.\<close>

theorem maml_hands_over_once:
  assumes "\<And>x. unpack (pack x) = x" and "run_ok pack unpack rank es (Context cc)"
  shows "\<exists>c. maml_run pack unpack rank es (Context cc) = Inr c \<and>
    matched (isends c) (pendingSends c) (sendCache c) \<and> matched (irecvs c) (pendingRecvs c) (recvCache c) \<and>
    map snd (isends c) @ filter (not_self rank) (maml_outbox c) = map (packed pack c) (filter (not_self rank) (submitted es)) \<and>
    mset (map snd (handled c)) + image_mset (packed unpack c) (waiting rank c) =
      image_mset (packed unpack c) (mset (map snd (irecvs c))) + mset (filter (\<lambda>m. \<not> not_self rank m) (submitted es))"
proof -
  have "maml_inv pack unpack rank [] (Context cc)" "all_pending (Context cc)"
    by (simp_all add: maml_inv_def Context_def waiting_def all_pending_def)
  from maml_run_inv [OF this assms(2)] obtain c where
    c: "maml_run pack unpack rank es (Context cc) = Inr c" "maml_inv pack unpack rank (submitted es) c" by auto
  have "packed unpack c \<circ> packed pack c = id" using assms(1) by (auto simp: packed_def fun_eq_iff)
  then have "image_mset (packed unpack c) (image_mset (packed pack c) M) = M" for M
    by (simp add: multiset.map_comp)
  with c show ?thesis by (auto simp: maml_inv_def add.commute)
qed

definition note_to :: "int \<Rightarrow> nat \<Rightarrow> nat message" where
  "note_to r x = \<lparr>msg_comm = 0, msg_rank = r, msg_tag = 5, msg_data = x\<rparr>"

definition sample_ops :: "(nat, nat, unit) maml_op list" where
  "sample_ops = [Register 0 (), Send 0 1 (note_to 0 7), Send 0 0 (note_to 0 8), Send_outbox [100],
     Poll [Some (1, 5, 13, 101)], Poll [Some (1, 5, 14, 102)], Wait [2], Wait [1, 0], Process_inbox]"

lemma sample_run_ok: "run_ok (\<lambda>x. x + 1) (\<lambda>x. x - 1) (\<lambda>_. 0) sample_ops (Context True)"
  by code_simp

theorem maml_hands_over_once_witness:
  "\<exists>c. maml_run (\<lambda>x. x + 1) (\<lambda>x. x - 1) (\<lambda>_. 0) sample_ops (Context True) = Inr c \<and>
     map snd (isends c) @ filter (not_self (\<lambda>_. 0)) (maml_outbox c) = [note_to 1 8]"
proof -
  have "filter (not_self (\<lambda>_. 0)) (submitted sample_ops) = [note_to 1 7]"
    by (simp add: sample_ops_def note_to_def not_self_def)
  moreover have "compressMessages c" if "maml_run (\<lambda>x. x + 1) (\<lambda>x. x - 1) (\<lambda>_. 0) sample_ops (Context True) = Inr c" for c
  proof -
    have "map_sum id compressMessages (maml_run (\<lambda>x. x + 1) (\<lambda>x. x - 1) (\<lambda>_. 0) sample_ops (Context True)) = Inr True"
      by code_simp
    with that show ?thesis by simp
  qed
  ultimately show ?thesis
    using maml_hands_over_once [OF _ sample_run_ok] by (auto simp: packed_def note_to_def)
qed

text \<open>Two messages of one sender may be handed over in the order in which their receives
  complete, which need not be the order in which they were sent.\<close>

lemma completion_reorders:
  "map_sum id (\<lambda>c. (map (msg_data \<circ> snd) (irecvs c), map (msg_data \<circ> snd) (handled c)))
     (maml_run (\<lambda>x. x) (\<lambda>x. x) (\<lambda>_. 0) [Register 0 (), Poll [Some (1, 5, 13, 101)], Poll [Some (1, 5, 14, 102)],
        Wait [1 :: nat], Wait [0], Process_inbox] (Context False :: (nat, nat, unit) maml)) = Inr ([13, 14], [14, 13])"
  by code_simp

section \<open>Stopping\<close>

text \<open>\<open>flushRemainingMessages\<close>; one element of the list is what MPI answers in one turn of
  the loop.  \<open>None\<close> is a loop that has not ended yet.\<close>

fun flushRemainingMessages :: "('d \<Rightarrow> 'd) \<Rightarrow> (nat \<Rightarrow> int) \<Rightarrow> ('r list \<times> ('d, 'r) probe list \<times> nat list) list \<Rightarrow>
    ('d, 'r, 'h) maml \<Rightarrow> ('d, 'r, 'h) maml outcome" where
  "flushRemainingMessages unpack rank turns c =
    (if pendingRecvs c = [] \<and> pendingSends c = [] \<and> tb_empty (maml_inbox c) \<and> tb_empty (maml_outbox c) then ret c
     else case turns of [] \<Rightarrow> None
     | (rs, ps, is) # turns' \<Rightarrow>
        (case bind_res (sendMessagesFromOutbox rank rs c) (\<lambda>c1.
              bind_res (waitOnSomeRequests is (pollForAndRecieveMessages ps c1)) (processInboxMessages unpack)) of
           Inl e \<Rightarrow> raise e
         | Inr c' \<Rightarrow> flushRemainingMessages unpack rank turns' c'))"

declare flushRemainingMessages.simps [simp del]

lemma flush_leaves_nothing:
  "flushRemainingMessages unpack rank turns c = ret c' \<Longrightarrow>
   pendingSends c' = [] \<and> pendingRecvs c' = [] \<and> maml_inbox c' = [] \<and> maml_outbox c' = []"
proof (induction turns arbitrary: c)
  case Nil
  then show ?case by (subst (asm) flushRemainingMessages.simps) (auto simp: tb_empty_def split: if_splits)
next
  case (Cons turn turns)
  obtain rs ps "is" where turn: "turn = (rs, ps, is)" by (cases turn)
  show ?case
    using Cons.prems Cons.IH unfolding turn
    by (subst (asm) flushRemainingMessages.simps) (auto simp: tb_empty_def split: if_splits sum.splits)
qed

section \<open>The message handler of OSPRay\<close>

text \<open>\<open>ObjectMessageHandler\<close> (\<open>modules/mpi/common/Messaging.cpp\<close>) finds the listener of a
  message by its tag.  The second component are the warnings.\<close>

type_synonym 'l listeners = "int \<rightharpoonup> 'l"

definition registerMessageListener :: "int \<Rightarrow> 'l \<Rightarrow> 'l listeners \<Rightarrow> 'l listeners \<times> string list" where
  "registerMessageListener objID l ls =
     (ls(objID \<mapsto> l), if ls objID \<noteq> None then [''WARNING: overwriting an existing listener!''] else [])"

definition removeMessageListener :: "int \<Rightarrow> 'l listeners \<Rightarrow> 'l listeners" where
  "removeMessageListener objID ls = ls(objID := None)"

definition handler_incoming :: "'d message \<Rightarrow> 'l listeners \<Rightarrow> 'l option" where
  "handler_incoming m ls = ls (msg_tag m)"

definition messaging_sendTo where
  "messaging_sendTo pack comm globalRank objID m c = maml_sendTo pack comm globalRank (m\<lparr>msg_tag := objID\<rparr>) c"

text \<open>A message reaches the listener of the object it was sent to, with its data: packing
  keeps the tag.\<close>

lemma message_reaches_listener:
  assumes "\<And>x. unpack (pack x) = x" and "fst (registerMessageListener objID l ls) = ls'"
    and "messaging_sendTo pack comm r objID m c = Inr c'"
  shows "maml_outbox c' \<noteq> [] \<and> handler_incoming (packed unpack c' (last (maml_outbox c'))) ls' = Some l \<and>
    msg_data (packed unpack c' (last (maml_outbox c'))) = msg_data m"
  using assms
  by (auto simp: messaging_sendTo_def maml_sendTo_def Context_send_def tb_push_back_def handler_incoming_def
      registerMessageListener_def packed_def split: if_splits)

end
