(* ===== verification/Xml.thy ===== *)
theory Xml
  imports Prelude "HOL-Library.AList"
begin

text \<open>
  The XML parser and writer (\<open>components/ospcommon/xml/XML.cpp\<close>).  The parser moves a pointer
  through a buffer that ends with a zero; the pointer is the rest of the buffer from
  it on, and reading at its end is undefined.  The properties of a node are a list in which
  a later value replaces an earlier one.  Character classes are those of the C locale.
\<close>

section \<open>Characters and words\<close>

definition nul :: char where "nul = CHR 0x00"
definition quot :: char where "quot = CHR 0x22"
definition apostrophe :: char where "apostrophe = CHR 0x27"
definition backslash :: char where "backslash = CHR 0x5C"

definition isWhite :: "char \<Rightarrow> bool" where
  "isWhite c \<longleftrightarrow> c = CHR 0x20 \<or> c = CHR 0x09 \<or> c = CHR 0x0A \<or> c = CHR 0x0D"

definition isspace :: "char \<Rightarrow> bool" where
  "isspace c \<longleftrightarrow> isWhite c \<or> c = CHR 0x0B \<or> c = CHR 0x0C"

definition isalpha :: "char \<Rightarrow> bool" where
  "isalpha c \<longleftrightarrow> (let n = of_char c :: nat in 65 \<le> n \<and> n \<le> 90 \<or> 97 \<le> n \<and> n \<le> 122)"

definition isdigit :: "char \<Rightarrow> bool" where
  "isdigit c \<longleftrightarrow> (let n = of_char c :: nat in 48 \<le> n \<and> n \<le> 57)"

definition quoted :: "string \<Rightarrow> string" where
  "quoted s = apostrophe # s @ [apostrophe]"

fun look :: "string \<Rightarrow> char res" where
  "look [] = Inl Undefined_behaviour"
| "look (c # s) = Inr c"

definition expect2 :: "char \<Rightarrow> char \<Rightarrow> string \<Rightarrow> unit res" where
  "expect2 w0 w1 s = bind_res (look s) (\<lambda>c. if c \<noteq> w0 \<and> c \<noteq> w1
     then Inl (Runtime_error (''error reading XML file: expecting '' @ quoted [w0] @ '' or '' @ quoted [w1] @
       '', but found '' @ quoted [c])) else Inr ())"

fun consume :: "char \<Rightarrow> string \<Rightarrow> string res" where
  "consume w [] = Inl Undefined_behaviour"
| "consume w (c # s) = (if c \<noteq> w
     then Inl (Runtime_error (''error reading XML file: expecting '' @ quoted [w] @ '', but found '' @ quoted [c]))
     else Inr s)"

text \<open>Every exception of \<open>consume\<close> is replaced by one that names the whole word.\<close>

fun consume_rest :: "string \<Rightarrow> string \<Rightarrow> string \<Rightarrow> string res" where
  "consume_rest word [] s = Inr s"
| "consume_rest word (w # ws) s = (case consume w s of
     Inr s' \<Rightarrow> consume_rest word ws s'
   | Inl (Runtime_error _) \<Rightarrow>
       Inl (Runtime_error (''error reading XML file: expecting '' @ quoted word @ '', but could not find it''))
   | Inl e \<Rightarrow> Inl e)"

definition consume_word :: "string \<Rightarrow> string \<Rightarrow> string res" where
  "consume_word word s = consume_rest word word s"

fun skipWhites :: "string \<Rightarrow> string res" where
  "skipWhites [] = Inl Undefined_behaviour"
| "skipWhites (c # s) = (if isWhite c then skipWhites s else Inr (c # s))"

section \<open>Comments, strings and identifiers\<close>

fun to_comment_end :: "string \<Rightarrow> string res" where
  "to_comment_end [] = Inl Undefined_behaviour"
| "to_comment_end (c # s) = (if c = nul \<or> c = CHR ''-'' \<and> take 2 s = ''->'' then Inr (c # s) else to_comment_end s)"

definition consumeComment :: "string \<Rightarrow> string res" where
  "consumeComment s = bind_res (consume (CHR ''<'') s) (\<lambda>s. bind_res (consume (CHR ''!'') s) (\<lambda>s.
     bind_res (to_comment_end s) (\<lambda>s. bind_res (consume (CHR ''-'') s) (\<lambda>s. bind_res (consume (CHR ''-'') s)
       (consume (CHR ''>''))))))"

definition at_comment :: "string \<Rightarrow> bool" where
  "at_comment s \<longleftrightarrow> take 2 s = ''<!''"

text \<open>A string made of the characters before the end is cut at the first zero.\<close>

definition makeString :: "string \<Rightarrow> string" where
  "makeString s = takeWhile (\<lambda>c. c \<noteq> nul) s"

text \<open>The loops of \<open>parseString\<close> look for the closing quote; nothing stops them at the end of the buffer.\<close>

fun to_quote :: "char \<Rightarrow> string \<Rightarrow> (string \<times> string) res" where
  "to_quote q [] = Inl Undefined_behaviour"
| "to_quote q (c # s) =
    (if c = q then Inr ([], c # s)
     else if c = backslash then (case s of [] \<Rightarrow> Inl Undefined_behaviour
       | d # s' \<Rightarrow> bind_res (to_quote q s') (\<lambda>(v, r). Inr (c # d # v, r)))
     else bind_res (to_quote q s) (\<lambda>(v, r). Inr (c # v, r)))"

definition parse_quoted :: "char \<Rightarrow> string \<Rightarrow> (string \<times> string) res" where
  "parse_quoted q s = bind_res (consume q s) (\<lambda>s. bind_res (to_quote q s) (\<lambda>(v, s).
     bind_res (consume q s) (\<lambda>s. Inr (makeString v, s))))"

definition parseString :: "string \<Rightarrow> (string \<times> string) res" where
  "parseString s = bind_res (look s) (\<lambda>c. if c = quot then parse_quoted quot s else parse_quoted apostrophe s)"

definition ident_start :: "char \<Rightarrow> bool" where
  "ident_start c \<longleftrightarrow> isalpha c \<or> c = CHR ''_''"

definition ident_char :: "char \<Rightarrow> bool" where
  "ident_char c \<longleftrightarrow> isalpha c \<or> isdigit c \<or> c = CHR ''_'' \<or> c = CHR ''.''"

definition parseIdentifier :: "string \<Rightarrow> (string option \<times> string) res" where
  "parseIdentifier s = bind_res (look s) (\<lambda>c.
     if ident_start c then
       (if dropWhile ident_char (tl s) = [] then Inl Undefined_behaviour
        else Inr (Some (makeString (c # takeWhile ident_char (tl s))), dropWhile ident_char (tl s)))
     else Inr (None, s))"

definition parseProp :: "string \<Rightarrow> ((string \<times> string) option \<times> string) res" where
  "parseProp s = bind_res (parseIdentifier s) (\<lambda>(n, s). case n of
     None \<Rightarrow> Inr (None, s)
   | Some name \<Rightarrow> bind_res (skipWhites s) (\<lambda>s. bind_res (consume (CHR ''='') s) (\<lambda>s. bind_res (skipWhites s) (\<lambda>s.
       bind_res (expect2 quot apostrophe s) (\<lambda>_. bind_res (parseString s) (\<lambda>(v, s). Inr (Some (name, v), s)))))))"

section \<open>Every step moves forward\<close>

lemma consume_length: "consume w s = Inr r \<Longrightarrow> length s = Suc (length r)"
  by (cases s) (auto split: if_splits)

lemma consume_rest_length: "consume_rest word ws s = Inr r \<Longrightarrow> length s = length ws + length r"
proof (induction ws arbitrary: s)
  case Nil
  then show ?case by simp
next
  case (Cons w ws)
  then show ?case
    using consume_length [of w s] by (auto split: sum.splits cxx_error.splits)
qed

lemma consume_word_length: "consume_word word s = Inr r \<Longrightarrow> length s = length word + length r"
  unfolding consume_word_def by (rule consume_rest_length)

lemma skipWhites_length: "skipWhites s = Inr r \<Longrightarrow> length r \<le> length s"
  by (induction s) (auto split: if_splits)

lemma to_comment_end_length: "to_comment_end s = Inr r \<Longrightarrow> length r \<le> length s"
  by (induction s) (auto split: if_splits)

lemma consumeComment_length: "consumeComment s = Inr r \<Longrightarrow> length r < length s"
  by (auto simp: consumeComment_def bind_res_eq_Inr dest!: consume_length to_comment_end_length)

lemma to_quote_length: "to_quote q s = Inr (v, r) \<Longrightarrow> length r \<le> length s"
proof (induction q s arbitrary: v r rule: to_quote.induct)
  case (1 q)
  then show ?case by simp
next
  case (2 q c s)
  then show ?case by (fastforce simp: bind_res_eq_Inr split: if_splits list.splits)
qed

lemma parseString_length: "parseString s = Inr (v, r) \<Longrightarrow> length r < length s"
  by (auto simp: parseString_def parse_quoted_def bind_res_eq_Inr split: if_splits dest!: consume_length to_quote_length)

lemma parseIdentifier_length:
  "parseIdentifier s = Inr (n, r) \<Longrightarrow> length r \<le> length s"
  "parseIdentifier s = Inr (Some i, r) \<Longrightarrow> length r < length s"
  by (cases s; auto simp: parseIdentifier_def split: if_splits intro: le_SucI length_dropWhile_le order_le_less_trans)+

lemma parseProp_length: "parseProp s = Inr (Some p, r) \<Longrightarrow> length r < length s"
  by (auto simp: parseProp_def bind_res_eq_Inr split: option.splits
      dest!: parseIdentifier_length skipWhites_length consume_length parseString_length)

section \<open>Nodes\<close>

text \<open>The loop over the properties of a node.\<close>

function parseProps :: "(string \<times> string) list \<Rightarrow> string \<Rightarrow> ((string \<times> string) list \<times> string) res" where
  "parseProps ps s = (case parseProp s of
     Inl e \<Rightarrow> Inl e
   | Inr (None, r) \<Rightarrow> Inr (ps, r)
   | Inr (Some (n, v), r) \<Rightarrow> (case skipWhites r of Inl e \<Rightarrow> Inl e | Inr r' \<Rightarrow> parseProps (AList.update n v ps) r'))"
  by pat_completeness auto
termination
  by (relation "measure (length \<circ> snd)") (auto dest!: parseProp_length skipWhites_length)

declare parseProps.simps [simp del]

datatype xml_node = Node (node_name: string) (node_content: string) (node_props: "(string \<times> string) list") (node_child: "xml_node list")

definition hasProp :: "string \<Rightarrow> xml_node \<Rightarrow> bool" where
  "hasProp n x \<longleftrightarrow> map_of (node_props x) n \<noteq> None"

definition getProp_or :: "string \<Rightarrow> string \<Rightarrow> xml_node \<Rightarrow> string" where
  "getProp_or n fallback x = (if \<not> hasProp n x then fallback else the (map_of (node_props x) n))"

definition getProp :: "string \<Rightarrow> xml_node \<Rightarrow> string" where
  "getProp n x = (if \<not> hasProp n x then '''' else the (map_of (node_props x) n))"

definition add_child :: "xml_node \<Rightarrow> xml_node \<Rightarrow> xml_node" where
  "add_child c x = Node (node_name x) (node_content x) (node_props x) (node_child x @ [c])"

definition set_content :: "string \<Rightarrow> xml_node \<Rightarrow> xml_node" where
  "set_content t x = Node (node_name x) t (node_props x) (node_child x)"

text \<open>The start of a node up to and including its properties.\<close>

definition parse_start :: "string \<Rightarrow> ((string \<times> (string \<times> string) list) \<times> string) res" where
  "parse_start s = bind_res (consume (CHR ''<'') s) (\<lambda>s. bind_res (parseIdentifier s) (\<lambda>(n, s). case n of
     None \<Rightarrow> Inl (Runtime_error ''XML error: could not parse node name'')
   | Some name \<Rightarrow> bind_res (skipWhites s) (\<lambda>s. bind_res (parseProps [] s) (\<lambda>(ps, s). Inr ((name, ps), s)))))"

definition parse_end :: "string \<Rightarrow> string \<Rightarrow> string res" where
  "parse_end name s = bind_res (consume_word ''</'' s) (\<lambda>s. bind_res (parseIdentifier s) (\<lambda>(n, s).
     let nodeName = (case n of None \<Rightarrow> '''' | Some m \<Rightarrow> m) in
     if nodeName \<noteq> name
     then Inl (Runtime_error (''invalid XML node - started with'' @ [apostrophe, CHR ''<''] @ name @ ''...'' @ [apostrophe] @
       ''>, but ended with '' @ [apostrophe] @ ''</'' @ nodeName @ ''>''))
     else consume_word ''>'' s))"

text \<open>The content of a node reaches to the next tag or the end of the buffer, without the spaces
  at its end.  The loop that drops these does not stop at the begin of the content: when
  all of it is space and there is space before it too (\<open>skipped\<close>), the end comes to lie before the begin and
  a negative number of bytes is copied.\<close>

definition parse_content :: "bool \<Rightarrow> string \<Rightarrow> (string \<times> string) res" where
  "parse_content skipped s =
    (let body = takeWhile (\<lambda>c. c \<noteq> CHR ''<'' \<and> c \<noteq> nul) s;
         txt = rev (dropWhile isspace (rev body)); r = drop (length body) s in
     if r = [] \<or> txt = [] \<and> skipped then Inl Undefined_behaviour else Inr (makeString txt, r))"

text \<open>The recursion gets fuel; every call moves forward, so the length of the buffer is enough.\<close>

fun parseNode :: "nat \<Rightarrow> string \<Rightarrow> (xml_node \<times> string) outcome"
  and parseBody :: "nat \<Rightarrow> xml_node \<Rightarrow> string \<Rightarrow> (xml_node \<times> string) outcome" where
  "parseNode 0 s = None"
| "parseNode (Suc k) s = bind_out (Some (parse_start s)) (\<lambda>((name, ps), s).
     let node = Node name '''' ps [] in
     bind_out (Some (look s)) (\<lambda>c.
       if c = CHR ''/'' then bind_out (Some (consume_word ''/>'' s)) (\<lambda>s. ret (node, s))
       else bind_out (Some (consume_word ''>'' s)) (\<lambda>s. parseBody k node s)))"
| "parseBody 0 node s = None"
| "parseBody (Suc k) node s = bind_out (Some (skipWhites s)) (\<lambda>s'.
     if at_comment s' then bind_out (Some (consumeComment s')) (\<lambda>s. parseBody k node s)
     else bind_out (Some (look s')) (\<lambda>c.
       if take 2 s' = ''</'' then bind_out (Some (parse_end (node_name node) s')) (\<lambda>s. ret (node, s))
       else if c = CHR ''<'' then bind_out (parseNode k s') (\<lambda>(child, s). parseBody k (add_child child node) s)
       else if c = nul then ret (node, s')
       else if node_content node \<noteq> '''' then raise (Runtime_error ''invalid XML node - two different contents!?'')
       else bind_out (Some (parse_content (s' \<noteq> s) s')) (\<lambda>(t, s). parseBody k (set_content t node) s)))"

section \<open>Documents\<close>

definition parseHeader :: "string \<Rightarrow> (bool \<times> string) res" where
  "parseHeader s = bind_res (consume_word ''<?xml'' s) (\<lambda>s.
     if take 2 s = ''?>'' then bind_res (consume_word ''?>'' s) (\<lambda>s. Inr (True, s))
     else bind_res (look s) (\<lambda>c. if \<not> isWhite c then Inr (False, s)
       else bind_res (skipWhites (tl s)) (\<lambda>s. bind_res (parseProps [] s) (\<lambda>(_, s).
         bind_res (consume_word ''?>'' s) (\<lambda>s. Inr (True, s))))))"

fun parse_items :: "nat \<Rightarrow> xml_node list \<Rightarrow> string \<Rightarrow> xml_node list outcome" where
  "parse_items 0 cs s = None"
| "parse_items (Suc k) cs s = bind_out (Some (look s)) (\<lambda>c.
     if c = nul then ret cs
     else if at_comment s then bind_out (Some (bind_res (consumeComment s) skipWhites)) (parse_items k cs)
     else bind_out (parseNode k s) (\<lambda>(n, s). bind_out (Some (skipWhites s)) (parse_items k (cs @ [n]))))"

definition parseXML :: "string \<Rightarrow> xml_node list outcome" where
  "parseXML s = bind_out (Some (if take 2 s = ''<?'' then bind_res (parseHeader s) (\<lambda>(ok, s).
       if \<not> ok then Inl (Runtime_error ''could not parse XML header'') else Inr s) else Inr s)) (\<lambda>s.
     bind_out (Some (skipWhites s)) (\<lambda>s. parse_items (2 * length s + 2) [] s))"

text \<open>The file, when it can be opened, is read into a buffer and closed with a zero.\<close>

definition readXML :: "string \<Rightarrow> string option \<Rightarrow> (string \<times> xml_node list) outcome" where
  "readXML fn file = (case file of
     None \<Rightarrow> raise (Runtime_error (''ospray::XML error: could not open file '' @ quoted fn))
   | Some bytes \<Rightarrow> bind_out (parseXML (bytes @ [nul])) (\<lambda>doc. ret (fn, doc)))"

section \<open>Parsing ends\<close>

lemma parseProps_length: "parseProps ps s = Inr (qs, r) \<Longrightarrow> length r \<le> length s"
proof (induction ps s arbitrary: qs r rule: parseProps.induct)
  case (1 ps s)
  show ?case
  proof (cases "parseProp s")
    case (Inr x)
    obtain p t where x: "x = (p, t)" by (cases x)
    show ?thesis
    proof (cases p)
      case None
      then have "length t \<le> length s"
        using Inr x by (auto simp: parseProp_def bind_res_eq_Inr split: option.splits dest!: parseIdentifier_length(1))
      then show ?thesis using 1(2) Inr x None by (simp add: parseProps.simps [of ps s])
    next
      case (Some nv)
      obtain n v where nv: "nv = (n, v)" by (cases nv)
      have "length t < length s" using Inr x Some by (auto dest: parseProp_length)
      then show ?thesis
        using 1 Inr x Some nv skipWhites_length [of t]
        by (fastforce simp: parseProps.simps [of ps s] split: sum.splits)
    qed
  qed (use 1(2) in \<open>simp add: parseProps.simps [of ps s]\<close>)
qed

lemma parse_start_length: "parse_start s = Inr (x, r) \<Longrightarrow> length r < length s"
  by (auto simp: parse_start_def bind_res_eq_Inr split: option.splits
      dest!: consume_length parseIdentifier_length(1) skipWhites_length parseProps_length)

lemma parse_end_length:
  assumes "parse_end n s = Inr r" shows "length r < length s"
proof -
  obtain t m u where steps: "consume_word ''</'' s = Inr t" "parseIdentifier t = Inr (m, u)" "consume_word ''>'' u = Inr r"
    using assms unfolding parse_end_def bind_res_eq_Inr by (fastforce simp: Let_def split: if_splits)
  show ?thesis
    using consume_word_length [OF steps(1)] parseIdentifier_length(1) [OF steps(2)] consume_word_length [OF steps(3)] by simp
qed

lemma parse_content_length:
  "parse_content b (c # s) = Inr (t, r) \<Longrightarrow> c \<noteq> CHR ''<'' \<Longrightarrow> c \<noteq> nul \<Longrightarrow> length r < length (c # s)"
  by (auto simp: parse_content_def Let_def split: if_splits)

lemma Some_ret [simp]: "Some m = ret x \<longleftrightarrow> m = Inr x"
  by (simp add: ret_def)

text \<open>The ways in which a call can return.\<close>

lemma parseNode_retE:
  assumes "parseNode (Suc k) s = ret (x, r)"
  obtains (leaf) name ps u where "parse_start s = Inr ((name, ps), u)" "consume_word ''/>'' u = Inr r" "x = Node name '''' ps []"
  | (body) name ps u v where "parse_start s = Inr ((name, ps), u)" "consume_word ''>'' u = Inr v"
      "parseBody k (Node name '''' ps []) v = ret (x, r)"
proof -
  obtain name ps u where start: "parse_start s = Inr ((name, ps), u)" using assms by (auto simp: bind_out_eq_ret)
  obtain c where c: "look u = Inr c" using assms start by (auto simp: bind_out_eq_ret Let_def)
  show thesis
  proof (cases "c = CHR ''/''")
    case True
    then show thesis using assms start c by (auto simp: bind_out_eq_ret Let_def intro: leaf)
  next
    case False
    then show thesis using assms start c by (auto simp: bind_out_eq_ret Let_def intro: body)
  qed
qed

lemma parseBody_step:
  "parseBody (Suc k) x s = (case skipWhites s of Inl e \<Rightarrow> raise e | Inr [] \<Rightarrow> raise Undefined_behaviour | Inr (c # t) \<Rightarrow>
     if at_comment (c # t) then bind_out (Some (consumeComment (c # t))) (parseBody k x)
     else if take 2 (c # t) = ''</'' then bind_out (Some (parse_end (node_name x) (c # t))) (\<lambda>s. ret (x, s))
     else if c = CHR ''<'' then bind_out (parseNode k (c # t)) (\<lambda>(child, s). parseBody k (add_child child x) s)
     else if c = nul then ret (x, c # t)
     else if node_content x \<noteq> '''' then raise (Runtime_error ''invalid XML node - two different contents!?'')
     else bind_out (Some (parse_content (c # t \<noteq> s) (c # t))) (\<lambda>(txt, s). parseBody k (set_content txt x) s))"
proof (cases "skipWhites s")
  case (Inl e)
  then show ?thesis by (simp add: raise_def)
next
  case (Inr s')
  then show ?thesis
    by (cases s') (simp_all add: at_comment_def raise_def del: take_Suc_Cons)
qed

lemma parseBody_retE:
  assumes "parseBody (Suc k) x s = ret (n, r)"
  obtains (comment) s' u where "skipWhites s = Inr s'" "consumeComment s' = Inr u" "parseBody k x u = ret (n, r)"
  | (close) s' where "skipWhites s = Inr s'" "parse_end (node_name x) s' = Inr r" "n = x"
  | (child) s' c u where "skipWhites s = Inr s'" "parseNode k s' = ret (c, u)" "parseBody k (add_child c x) u = ret (n, r)"
  | (eof) "skipWhites s = Inr r" "n = x"
  | (content) c t w u where "skipWhites s = Inr (c # t)" "c \<noteq> CHR ''<''" "c \<noteq> nul"
      "parse_content (c # t \<noteq> s) (c # t) = Inr (w, u)" "parseBody k (set_content w x) u = ret (n, r)"
proof -
  obtain c t where s': "skipWhites s = Inr (c # t)"
    using assms unfolding parseBody_step by (auto split: sum.splits list.splits)
  note run = assms [unfolded parseBody_step s', simplified]
  consider "at_comment (c # t)" | "\<not> at_comment (c # t)" "take 2 (c # t) = ''</''"
    | "\<not> at_comment (c # t)" "take 2 (c # t) \<noteq> ''</''" "c = CHR ''<''"
    | "\<not> at_comment (c # t)" "take 2 (c # t) \<noteq> ''</''" "c \<noteq> CHR ''<''" "c = nul"
    | "\<not> at_comment (c # t)" "take 2 (c # t) \<noteq> ''</''" "c \<noteq> CHR ''<''" "c \<noteq> nul" by blast
  then show thesis
  proof cases
    case 1
    with run show thesis by (auto simp: bind_out_eq_ret intro: comment [OF s'])
  next
    case 2
    with run show thesis by (auto simp: bind_out_eq_ret intro: close [OF s'])
  next
    case 3
    with run show thesis by (auto simp: bind_out_eq_ret intro: child [OF s'])
  next
    case 4
    with run s' show thesis by (auto intro: eof)
  next
    case 5
    with run show thesis by (auto simp: bind_out_eq_ret intro: content [OF s'] split: if_splits)
  qed
qed

lemma parse_length:
  "(\<forall>s x r. parseNode k s = ret (x, r) \<longrightarrow> length r < length s) \<and>
   (\<forall>x s n r. parseBody k x s = ret (n, r) \<longrightarrow> length r \<le> length s)"
proof (induction k)
  case 0
  show ?case by simp
next
  case (Suc k)
  have "length r < length s" if "parseNode (Suc k) s = ret (x, r)" for s x r
    using that
  proof (cases rule: parseNode_retE)
    case (leaf name ps u)
    then show ?thesis using parse_start_length consume_word_length by fastforce
  next
    case (body name ps u v)
    then have "length r \<le> length v" using Suc.IH by blast
    then show ?thesis using parse_start_length [OF body(1)] consume_word_length [OF body(2)] by simp
  qed
  moreover have "length r \<le> length s" if "parseBody (Suc k) x s = ret (n, r)" for x s n r
    using that
  proof (cases rule: parseBody_retE)
    case (comment s' u)
    then have "length r \<le> length u" using Suc.IH by blast
    then show ?thesis using skipWhites_length [OF comment(1)] consumeComment_length [OF comment(2)] by simp
  next
    case (close s')
    then show ?thesis using skipWhites_length [OF close(1)] parse_end_length [OF close(2)] by simp
  next
    case (child s' c u)
    then have "length r \<le> length u" "length u < length s'" using Suc.IH by blast+
    then show ?thesis using skipWhites_length [OF child(1)] by simp
  next
    case eof
    then show ?thesis using skipWhites_length by simp
  next
    case (content c t w u)
    then have "length r \<le> length u" using Suc.IH by blast
    then show ?thesis using skipWhites_length [OF content(1)] parse_content_length [OF content(4,2,3)] by simp
  qed
  ultimately show ?case by blast
qed

lemma parseNode_length: "parseNode k s = ret (x, r) \<Longrightarrow> length r < length s"
  using parse_length by blast

definition ends :: "'a outcome \<Rightarrow> bool" where
  "ends m \<longleftrightarrow> m \<noteq> None"

lemma ends_simps [simp]: "ends (Some m)" "ends (ret x)" "ends (raise e)" "\<not> ends None"
  by (simp_all add: ends_def)

lemma ends_bind: "ends m \<Longrightarrow> (\<And>x. m = ret x \<Longrightarrow> ends (f x)) \<Longrightarrow> ends (bind_out m f)"
  by (auto simp: ends_def bind_out_def ret_def split: option.split sum.split)

lemma parse_ends:
  "(\<forall>s. 2 * length s < k \<longrightarrow> ends (parseNode k s)) \<and> (\<forall>x s. 2 * length s + 1 < k \<longrightarrow> ends (parseBody k x s))"
proof (induction k)
  case 0
  show ?case by simp
next
  case (Suc k)
  have "ends (parseNode (Suc k) s)" if small: "2 * length s < Suc k" for s
  proof -
    have "ends (parseBody k y v)" if "parse_start s = Inr (p, u)" "consume_word ''>'' u = Inr v" for p u v y
      using that parse_start_length [OF that(1)] consume_word_length [OF that(2)] Suc.IH small by auto
    then show ?thesis unfolding parseNode.simps Let_def by (auto intro!: ends_bind)
  qed
  moreover have "ends (parseBody (Suc k) x s)" if small: "2 * length s + 1 < Suc k" for x s
  proof (cases "skipWhites s")
    case (Inl e)
    then show ?thesis unfolding parseBody_step by simp
  next
    case (Inr s')
    have le: "length s' \<le> length s" using Inr by (rule skipWhites_length)
    show ?thesis
    proof (cases s')
      case Nil
      then show ?thesis unfolding parseBody_step Inr by simp
    next
      case (Cons c t)
      have shorter: "ends (parseBody k y u)" if "length u < length s'" for y u
        using that le small Suc.IH by auto
      have child: "ends (parseNode k s')" using le small Suc.IH by auto
      show ?thesis
        unfolding parseBody_step Inr Cons sum.case list.case
        using shorter child parseNode_length [of k s'] consumeComment_length [of s'] parse_content_length [of "s' \<noteq> s" c t]
        unfolding Cons
        by (auto intro!: ends_bind simp del: take_Suc_Cons)
    qed
  qed
  ultimately show ?case by blast
qed

lemma parse_items_ends: "2 * length s + 1 < k \<Longrightarrow> ends (parse_items k cs s)"
proof (induction k arbitrary: cs s)
  case 0
  then show ?case by simp
next
  case (Suc k)
  have node: "ends (parseNode k s)" using Suc.prems parse_ends by simp
  have item: "ends (parse_items k ds u)" if "skipWhites t = Inr u" "length t < length s" for ds t u
    using that skipWhites_length [OF that(1)] Suc.prems by (intro Suc.IH) simp
  show ?case
    using node item parseNode_length [of k s] consumeComment_length [of s] unfolding parse_items.simps
    by (auto simp: bind_res_eq_Inr intro!: ends_bind)
qed

text \<open>Whatever the file holds, reading it ends: with a document, an exception or undefined behaviour.\<close>

lemma parseXML_ends: "ends (parseXML s)"
  unfolding parseXML_def by (intro ends_bind parse_items_ends) auto

section \<open>Files without quotes are read safely\<close>

text \<open>A rest of a buffer that still ends with the zero and has none of the characters that lead
  the parser astray: quotes, and the two spaces that are not skipped as white space.\<close>

definition tame :: "string \<Rightarrow> bool" where
  "tame s \<longleftrightarrow> list_all (\<lambda>c. c \<notin> {quot, apostrophe, CHR 0x0B, CHR 0x0C}) s"

definition at_rest :: "string \<Rightarrow> bool" where
  "at_rest s \<longleftrightarrow> s \<noteq> [] \<and> last s = nul \<and> tame s"

definition good :: "('a \<Rightarrow> bool) \<Rightarrow> 'a res \<Rightarrow> bool" where
  "good P m \<longleftrightarrow> (case m of Inl e \<Rightarrow> e \<noteq> Undefined_behaviour | Inr x \<Rightarrow> P x)"

definition good_out :: "('a \<Rightarrow> bool) \<Rightarrow> 'a outcome \<Rightarrow> bool" where
  "good_out P m \<longleftrightarrow> (case m of None \<Rightarrow> True | Some r \<Rightarrow> good P r)"

lemma good_simps [simp]:
  "good P (Inr x) = P x" "good P (Inl e) = (e \<noteq> Undefined_behaviour)"
  "good_out P None" "good_out P (Some r) = good P r" "good_out P (ret x) = P x"
  "good_out P (raise e) = (e \<noteq> Undefined_behaviour)"
  by (simp_all add: good_def good_out_def ret_def raise_def)

lemma good_bind: "good P m \<Longrightarrow> (\<And>x. P x \<Longrightarrow> good Q (f x)) \<Longrightarrow> good Q (bind_res m f)"
  by (cases m) auto

lemma good_bind_out: "good_out P m \<Longrightarrow> (\<And>x. P x \<Longrightarrow> good_out Q (f x)) \<Longrightarrow> good_out Q (bind_out m f)"
  by (cases m; cases "the m") (auto simp: bind_out_def)

lemma at_rest_Cons: "at_rest (c # s) \<longleftrightarrow> (c = nul \<and> s = [] \<or> at_rest s) \<and> tame [c]"
  by (auto simp: at_rest_def tame_def nul_def quot_def apostrophe_def)

lemma at_rest_tl: "at_rest (c # s) \<Longrightarrow> c \<noteq> nul \<Longrightarrow> at_rest s"
  by (auto simp: at_rest_Cons)

lemma at_rest_dropWhile: "at_rest s \<Longrightarrow> \<not> P nul \<Longrightarrow> at_rest (dropWhile P s)"
  by (induction s) (auto simp: at_rest_def tame_def split: if_splits)

lemma good_look: "at_rest s \<Longrightarrow> good (\<lambda>c. c = hd s) (look s)"
  by (cases s) (auto simp: at_rest_def)

lemma good_look_any: "at_rest s \<Longrightarrow> good_out (\<lambda>_. True) (Some (look s))"
  by (cases s) (auto simp: at_rest_def)

lemma good_consume: "at_rest s \<Longrightarrow> w \<noteq> nul \<Longrightarrow> good at_rest (consume w s)"
  by (cases s) (auto simp: at_rest_def tame_def split: if_splits)

lemma good_consume_rest: "at_rest s \<Longrightarrow> nul \<notin> set ws \<Longrightarrow> good at_rest (consume_rest word ws s)"
proof (induction ws arbitrary: s)
  case (Cons w ws)
  then have "good at_rest (consume w s)" by (intro good_consume) auto
  with Cons show ?case by (auto split: sum.splits cxx_error.splits)
qed simp

lemma good_consume_word: "at_rest s \<Longrightarrow> nul \<notin> set w \<Longrightarrow> good at_rest (consume_word w s)"
  by (simp add: consume_word_def good_consume_rest)

lemma good_skipWhites: "at_rest s \<Longrightarrow> good at_rest (skipWhites s)"
proof (induction s)
  case (Cons c s)
  then show ?case using at_rest_tl [of c s] by (auto simp: isWhite_def nul_def)
qed (simp add: at_rest_def)

lemma good_comment_end: "at_rest s \<Longrightarrow> good at_rest (to_comment_end s)"
proof (induction s)
  case (Cons c s)
  then show ?case using at_rest_tl [of c s] by auto
qed (simp add: at_rest_def)

lemma good_consumeComment: "at_rest s \<Longrightarrow> good at_rest (consumeComment s)"
  unfolding consumeComment_def
  by (intro good_bind [where P = at_rest] good_consume good_comment_end) (simp_all add: nul_def)

lemma good_parseIdentifier: "at_rest s \<Longrightarrow> good (\<lambda>(n, r). at_rest r) (parseIdentifier s)"
proof -
  assume s: "at_rest s"
  then obtain c t where st: "s = c # t" by (cases s) (auto simp: at_rest_def)
  show ?thesis
  proof (cases "ident_start c")
    case True
    then have "c \<noteq> nul" by (auto simp: ident_start_def isalpha_def nul_def)
    with s st have t: "at_rest t" by (auto intro: at_rest_tl)
    have "at_rest (dropWhile ident_char t)"
      using t by (rule at_rest_dropWhile) (simp add: ident_char_def isalpha_def isdigit_def nul_def)
    moreover from this have "dropWhile ident_char t \<noteq> []" by (auto simp: at_rest_def)
    ultimately show ?thesis using True st by (simp add: parseIdentifier_def)
  qed (use s st in \<open>simp add: parseIdentifier_def\<close>)
qed

lemma good_expect2: "at_rest s \<Longrightarrow> good (\<lambda>_. False) (expect2 quot apostrophe s)"
  by (cases s) (auto simp: expect2_def at_rest_def tame_def)

lemma good_parseProp: "at_rest s \<Longrightarrow> good (\<lambda>(n, r). n = None \<and> at_rest r) (parseProp s)"
  unfolding parseProp_def
proof (rule good_bind [OF good_parseIdentifier], assumption, clarsimp split: option.split, goal_cases)
  case (1 r name)
  show ?case
    by (rule good_bind [OF good_skipWhites [OF 1(2)]], rule good_bind [OF good_consume], assumption, simp add: nul_def,
        rule good_bind [OF good_skipWhites], assumption, rule good_bind [OF good_expect2], assumption, simp)
qed

lemma good_parseProps: "at_rest s \<Longrightarrow> good (\<lambda>(ps, r). at_rest r) (parseProps qs s)"
  using good_parseProp [of s] by (subst parseProps.simps) (auto split: sum.split option.split)

lemma good_parse_start: "at_rest s \<Longrightarrow> good (\<lambda>(x, r). at_rest r) (parse_start s)"
  unfolding parse_start_def
  by (rule good_bind [OF good_consume], assumption, simp add: nul_def, rule good_bind [OF good_parseIdentifier], assumption)
     (auto split: option.split intro!: good_bind [OF good_skipWhites] good_bind [OF good_parseProps])

lemma good_parse_end: "at_rest s \<Longrightarrow> good at_rest (parse_end n s)"
  unfolding parse_end_def
  by (rule good_bind [OF good_consume_word], assumption, simp add: nul_def, rule good_bind [OF good_parseIdentifier], assumption)
     (auto simp: Let_def nul_def intro!: good_consume_word)

lemma good_parse_content:
  assumes "at_rest s" and "\<not> isWhite (hd s)" and "hd s \<noteq> CHR ''<''" and "hd s \<noteq> nul"
  shows "good (\<lambda>(t, r). at_rest r) (parse_content b s)"
proof -
  let ?P = "\<lambda>c. c \<noteq> CHR ''<'' \<and> c \<noteq> nul"
  obtain c t where s: "s = c # t" using assms(1) by (cases s) (auto simp: at_rest_def)
  have rest: "at_rest (dropWhile ?P s)" using assms(1) by (rule at_rest_dropWhile) simp
  moreover have eq: "drop (length (takeWhile ?P s)) s = dropWhile ?P s" by (simp only: dropWhile_eq_drop)
  moreover have "c \<in> set (takeWhile ?P s)" "\<not> isspace c"
    using assms s by (auto simp: isspace_def at_rest_def tame_def)
  moreover from this have "rev (dropWhile isspace (rev (takeWhile ?P s))) \<noteq> []" by (auto simp: dropWhile_eq_Nil_conv)
  moreover have "dropWhile ?P s \<noteq> []" using rest unfolding at_rest_def by blast
  ultimately show ?thesis
    unfolding parse_content_def Let_def eq by (simp only: good_simps prod.case if_False simp_thms rev_is_Nil_conv)
qed

lemma skipWhites_hd: "skipWhites s = Inr r \<Longrightarrow> \<not> isWhite (hd r)"
  by (induction s) (auto split: if_splits)

lemma good_parse:
  "(\<forall>s. at_rest s \<longrightarrow> good_out (\<lambda>(x, r). at_rest r) (parseNode k s)) \<and>
   (\<forall>x s. at_rest s \<longrightarrow> good_out (\<lambda>(x, r). at_rest r) (parseBody k x s))"
proof (induction k)
  case 0
  show ?case by simp
next
  case (Suc k)
  have "good_out (\<lambda>(x, r). at_rest r) (parseNode (Suc k) s)" if "at_rest s" for s
  proof -
    have tag: "good_out (\<lambda>(x, r). at_rest r) (bind_out (Some (look r)) (\<lambda>c.
       if c = CHR ''/'' then bind_out (Some (consume_word ''/>'' r)) (\<lambda>s. ret (node, s))
       else bind_out (Some (consume_word ''>'' r)) (\<lambda>s. parseBody k node s)))" if r: "at_rest r" for r node
    proof (rule good_bind_out [where P = "\<lambda>_. True"])
      show "good_out (\<lambda>_. True) (Some (look r))" by (rule good_look_any [OF r])
      fix c
      show "good_out (\<lambda>(x, r). at_rest r) (if c = CHR ''/'' then bind_out (Some (consume_word ''/>'' r)) (\<lambda>s. ret (node, s))
         else bind_out (Some (consume_word ''>'' r)) (\<lambda>s. parseBody k node s))"
        using Suc.IH good_consume_word [OF r, of "''/>''"] good_consume_word [OF r, of "''>''"]
        by (auto simp: nul_def intro: good_bind_out [where P = at_rest])
    qed
    show ?thesis
      unfolding parseNode.simps Let_def
      by (rule good_bind_out [where P = "\<lambda>(x, r). at_rest r"]) (use good_parse_start [OF that] tag in auto)
  qed
  moreover have "good_out (\<lambda>(x, r). at_rest r) (parseBody (Suc k) node s)" if "at_rest s" for node s
  proof (cases "skipWhites s")
    case (Inl e)
    with good_skipWhites [OF that] show ?thesis unfolding parseBody_step by simp
  next
    case (Inr s')
    with good_skipWhites [OF that] have s': "at_rest s'" by simp
    then obtain c t where ct: "s' = c # t" by (cases s') (auto simp: at_rest_def)
    have white: "\<not> isWhite (hd s')" using Inr by (rule skipWhites_hd)
    have body: "good_out (\<lambda>(x, r). at_rest r) (parseBody k y u)" if "at_rest u" for y u using that Suc.IH by blast
    have child: "good_out (\<lambda>(x, r). at_rest r) (parseNode k s')" using s' Suc.IH by blast
    show ?thesis
      unfolding parseBody_step Inr ct sum.case list.case
      using body child good_consumeComment [OF s'] good_parse_end [OF s'] good_parse_content [OF s' white] s'
      unfolding ct list.sel
      by (auto intro!: good_bind_out [where P = at_rest] good_bind_out [where P = "\<lambda>(x, r). at_rest r"]
          simp del: take_Suc_Cons)
  qed
  ultimately show ?case by blast
qed

lemma good_parse_items: "at_rest s \<Longrightarrow> good_out (\<lambda>_. True) (parse_items k cs s)"
proof (induction k arbitrary: cs s)
  case (Suc k)
  have node: "good_out (\<lambda>(x, r). at_rest r) (parseNode k s)" using Suc.prems good_parse by blast
  have comment: "good at_rest (bind_res (consumeComment s) skipWhites)"
    using Suc.prems by (intro good_bind [OF good_consumeComment] good_skipWhites)
  show ?case
    unfolding parse_items.simps
  proof (rule good_bind_out [where P = "\<lambda>_. True"], goal_cases)
    case 1
    show ?case by (rule good_look_any [OF Suc.prems])
  next
    case (2 c)
    show ?case
      using node comment Suc.IH
      by (auto intro!: good_bind_out [where P = at_rest] good_bind_out [where P = "\<lambda>(x, r). at_rest r"] good_skipWhites)
  qed
qed simp

lemma good_parseHeader: "at_rest s \<Longrightarrow> good (\<lambda>(ok, r). at_rest r) (parseHeader s)"
  unfolding parseHeader_def
proof (rule good_bind [OF good_consume_word], assumption, simp add: nul_def, goal_cases)
  case (1 r)
  have "good (\<lambda>(ok, r). at_rest r) (bind_res (skipWhites (tl r)) (\<lambda>s. bind_res (parseProps [] s) (\<lambda>(_, s).
         bind_res (consume_word ''?>'' s) (\<lambda>s. Inr (True, s)))))" if "at_rest (tl r)"
    by (rule good_bind [OF good_skipWhites [OF that]], rule good_bind [OF good_parseProps], assumption, clarsimp,
        rule good_bind [OF good_consume_word], assumption, simp add: nul_def, simp)
  moreover have "at_rest (tl r)" if "isWhite (hd r)"
    using 1(2) that by (cases r) (auto simp: isWhite_def nul_def intro: at_rest_tl)
  ultimately show ?case
    using good_look [OF 1(2)] 1(2)
    by (auto intro!: good_bind [OF good_consume_word] good_bind [where P = "\<lambda>c. c = hd r"] simp: nul_def)
qed

lemma good_parseXML: "at_rest s \<Longrightarrow> good_out (\<lambda>_. True) (parseXML s)"
proof -
  assume s: "at_rest s"
  have "good at_rest (if take 2 s = ''<?'' then bind_res (parseHeader s) (\<lambda>(ok, s).
       if \<not> ok then Inl (Runtime_error ''could not parse XML header'') else Inr s) else Inr s)"
    using s good_bind [OF good_parseHeader [OF s], of at_rest] by auto
  then show ?thesis
    unfolding parseXML_def
    by (intro good_bind_out [where P = at_rest] good_parse_items) (simp_all add: good_skipWhites)
qed

section \<open>Parsing what has been printed\<close>

text \<open>A document in the form the parser reads; \<open>ws\<close> is white space between the parts.\<close>

definition show_prop :: "string \<times> string \<Rightarrow> string" where
  "show_prop p = '' '' @ fst p @ ''='' @ [quot] @ snd p @ [quot]"

fun show_node :: "string \<Rightarrow> xml_node \<Rightarrow> string" where
  "show_node ws (Node name content props child) = ''<'' @ name @ concat (map show_prop props) @
     (if content = '''' \<and> child = [] then ''/>''
      else ''>'' @ ws @ content @ ws @ concat (map (\<lambda>c. show_node ws c @ ws) child) @ ''</'' @ name @ ''>'')"

definition ident :: "string \<Rightarrow> bool" where
  "ident n \<longleftrightarrow> n \<noteq> [] \<and> ident_start (hd n) \<and> list_all ident_char n"

definition value_ok :: "string \<Rightarrow> bool" where
  "value_ok v \<longleftrightarrow> list_all (\<lambda>c. c \<noteq> quot \<and> c \<noteq> backslash \<and> c \<noteq> nul) v"

definition content_ok :: "string \<Rightarrow> bool" where
  "content_ok t \<longleftrightarrow> list_all (\<lambda>c. c \<noteq> CHR ''<'' \<and> c \<noteq> nul) t \<and> (t \<noteq> [] \<longrightarrow> \<not> isWhite (hd t) \<and> \<not> isspace (last t))"

definition props_ok :: "(string \<times> string) list \<Rightarrow> bool" where
  "props_ok ps \<longleftrightarrow> distinct (map fst ps) \<and> list_all (\<lambda>p. ident (fst p) \<and> value_ok (snd p)) ps"

fun node_ok :: "xml_node \<Rightarrow> bool" where
  "node_ok (Node name content props child) \<longleftrightarrow> ident name \<and> content_ok content \<and> props_ok props \<and> list_all node_ok child"

lemma white_not:
  "isWhite c \<Longrightarrow> c \<noteq> CHR ''<'' \<and> c \<noteq> nul \<and> \<not> ident_char c \<and> isspace c"
  by (auto simp: isWhite_def nul_def ident_char_def isalpha_def isdigit_def isspace_def)

lemma ident_start_not:
  "ident_start c \<Longrightarrow> \<not> isWhite c \<and> c \<noteq> CHR ''!'' \<and> c \<noteq> CHR ''/'' \<and> c \<noteq> CHR ''?'' \<and> c \<noteq> nul \<and> ident_char c"
  by (auto simp: isWhite_def nul_def ident_char_def ident_start_def isalpha_def isdigit_def)

lemma ident_char_not_nul: "ident_char c \<Longrightarrow> c \<noteq> nul"
  by (auto simp: nul_def ident_char_def isalpha_def isdigit_def)

lemma skipWhites_white [simp]: "list_all isWhite ws \<Longrightarrow> \<not> isWhite c \<Longrightarrow> skipWhites (ws @ c # s) = Inr (c # s)"
  by (induction ws) simp_all

lemma skipWhites_here [simp]: "\<not> isWhite c \<Longrightarrow> skipWhites (c # s) = Inr (c # s)"
  by simp

lemma consume_rest_here: "consume_rest word ws (ws @ s) = Inr s"
  by (induction ws) simp_all

lemma consume_word_here [simp]: "consume_word ws (ws @ s) = Inr s"
  by (simp add: consume_word_def consume_rest_here)

lemma ident_parts:
  assumes "ident n" obtains a m where "n = a # m" "ident_start a" "list_all ident_char m"
  using assms by (cases n) (auto simp: ident_def)

lemma makeString_ident: "list_all ident_char n \<Longrightarrow> makeString n = n"
  by (simp add: makeString_def takeWhile_eq_all_conv list_all_iff ident_char_not_nul)

lemma parseIdentifier_here:
  assumes "ident n" and "\<not> ident_char c"
  shows "parseIdentifier (n @ c # s) = Inr (Some n, c # s)"
proof -
  from assms(1) obtain a m where n: "n = a # m" "ident_start a" "list_all ident_char m" by (rule ident_parts)
  have "takeWhile ident_char (m @ c # s) = m" "dropWhile ident_char (m @ c # s) = c # s"
    using n(3) assms(2) by (simp_all add: list_all_iff takeWhile_append2 dropWhile_append2)
  moreover have "makeString (a # m) = a # m" using n by (intro makeString_ident) (simp add: ident_start_not)
  ultimately show ?thesis using n by (simp add: parseIdentifier_def)
qed

lemma to_quote_here: "value_ok v \<Longrightarrow> to_quote quot (v @ quot # s) = Inr (v, quot # s)"
  by (induction v) (simp_all add: value_ok_def)

lemma parseString_here: "value_ok v \<Longrightarrow> parseString (quot # v @ quot # s) = Inr (v, s)"
  by (simp add: parseString_def parse_quoted_def to_quote_here)
    (simp add: makeString_def value_ok_def list_all_iff takeWhile_eq_all_conv)

lemma parseProp_here:
  assumes "ident n" and "value_ok v"
  shows "parseProp (n @ CHR ''='' # quot # v @ quot # s) = Inr (Some (n, v), s)"
proof -
  have "\<not> ident_char (CHR ''='')" "\<not> isWhite (CHR ''='')" "\<not> isWhite quot"
    by (simp_all add: ident_char_def isalpha_def isdigit_def isWhite_def quot_def)
  then show ?thesis
    by (simp add: parseProp_def parseIdentifier_here [OF assms(1)] expect2_def parseString_here [OF assms(2)])
qed

lemma parseProp_none: "\<not> ident_start c \<Longrightarrow> parseProp (c # s) = Inr (None, c # s)"
  by (simp add: parseProp_def parseIdentifier_def)

lemma update_new: "n \<notin> set (map fst ps) \<Longrightarrow> AList.update n v ps = ps @ [(n, v)]"
  by (induction ps) auto

text \<open>White space and then the properties, up to a character that starts none.\<close>

lemma props_white:
  assumes w: "list_all isWhite w" and c: "\<not> isWhite c" "\<not> ident_start c"
  shows "distinct (map fst (qs @ ps)) \<Longrightarrow> list_all (\<lambda>p. ident (fst p) \<and> value_ok (snd p)) ps \<Longrightarrow>
    (case skipWhites (concat (map show_prop ps) @ w @ c # s) of Inl e \<Rightarrow> Inl e | Inr r \<Rightarrow> parseProps qs r) = Inr (qs @ ps, c # s)"
proof (induction ps arbitrary: qs)
  case Nil
  then show ?case using c w by (simp add: parseProps.simps [of qs "c # s"] parseProp_none)
next
  case (Cons p ps)
  obtain n v where p: "p = (n, v)" by (cases p)
  have nv: "ident n" "value_ok v" using Cons.prems by (simp_all add: p)
  from nv(1) obtain a m where n: "n = a # m" "ident_start a" by (rule ident_parts)
  have sp: "isWhite (CHR '' '')" by (simp add: isWhite_def)
  let ?rest = "concat (map show_prop ps) @ w @ c # s"
  have skip: "skipWhites (concat (map show_prop (p # ps)) @ w @ c # s) = Inr (n @ CHR ''='' # quot # v @ quot # ?rest)"
    using n sp by (simp add: show_prop_def p ident_start_not)
  have "parseProps qs (n @ CHR ''='' # quot # v @ quot # ?rest) =
      (case skipWhites ?rest of Inl e \<Rightarrow> Inl e | Inr r \<Rightarrow> parseProps (AList.update n v qs) r)"
    by (simp add: parseProps.simps [of qs "n @ CHR ''='' # quot # v @ quot # ?rest"] parseProp_here [OF nv])
  also have "AList.update n v qs = qs @ [(n, v)]" using Cons.prems by (intro update_new) (auto simp: p)
  also have "(case skipWhites ?rest of Inl e \<Rightarrow> Inl e | Inr r \<Rightarrow> parseProps (qs @ [(n, v)]) r) = Inr (qs @ p # ps, c # s)"
    using Cons.IH [of "qs @ [(n, v)]"] Cons.prems by (simp add: p)
  finally show ?case by (simp only: skip sum.case)
qed

lemma bind_res_case: "bind_res m f = (case m of Inl e \<Rightarrow> Inl e | Inr x \<Rightarrow> f x)"
  by (simp add: bind_res_def)

lemma parse_start_white:
  assumes "ident n" and "props_ok ps" and w: "list_all isWhite w" and c: "\<not> isWhite c" "\<not> ident_char c"
  shows "parse_start (CHR ''<'' # n @ concat (map show_prop ps) @ w @ c # s) = Inr ((n, ps), c # s)"
proof -
  have start: "\<not> ident_start c" using c ident_start_not by blast
  have props: "bind_res (skipWhites (concat (map show_prop ps) @ w @ c # s)) (parseProps []) = Inr (ps, c # s)"
    unfolding bind_res_case using props_white [OF w c(1) start, of "[]" ps s] assms(2) by (simp add: props_ok_def)
  have "parseIdentifier (n @ concat (map show_prop ps) @ w @ c # s) = Inr (Some n, concat (map show_prop ps) @ w @ c # s)"
  proof (cases ps)
    case Nil
    have "\<exists>d u. w @ c # s = d # u \<and> \<not> ident_char d" using w c(2) white_not by (cases w) auto
    then show ?thesis using parseIdentifier_here [OF assms(1)] Nil by auto
  next
    case (Cons p qs)
    have "\<not> ident_char (CHR '' '')" by (simp add: ident_char_def isalpha_def isdigit_def)
    from parseIdentifier_here [OF assms(1) this] show ?thesis by (simp add: Cons show_prop_def)
  qed
  moreover have "bind_res (skipWhites t) (\<lambda>s. bind_res (parseProps [] s) (\<lambda>(ps, s). Inr ((n, ps), s))) =
      bind_res (bind_res (skipWhites t) (parseProps [])) (\<lambda>(ps, s). Inr ((n, ps), s))" for t
    by (cases "skipWhites t") simp_all
  ultimately show ?thesis by (simp add: parse_start_def props)
qed

lemmas parse_start_here = parse_start_white [where w = "[]", simplified]

lemma parse_end_here:
  assumes "ident n" shows "parse_end n (''</'' @ n @ ''>'' @ s) = Inr s"
proof -
  have "\<not> ident_char (CHR ''>'')" by (simp add: ident_char_def isalpha_def isdigit_def)
  from parseIdentifier_here [OF assms this] have id: "parseIdentifier (n @ ''>'' @ s) = Inr (Some n, ''>'' @ s)" by simp
  have words: "consume_word ''</'' (''</'' @ n @ ''>'' @ s) = Inr (n @ ''>'' @ s)" "consume_word ''>'' (''>'' @ s) = Inr s"
    by (rule consume_word_here)+
  show ?thesis
    unfolding parse_end_def words(1) id bind_res_simps prod.case option.case Let_def using words(2) by simp
qed

lemma takeWhile_here: "list_all P xs \<Longrightarrow> \<not> P c \<Longrightarrow> takeWhile P (xs @ c # s) = xs"
  by (induction xs) simp_all

lemma dropWhile_here: "list_all P xs \<Longrightarrow> dropWhile P (xs @ ys) = dropWhile P ys"
  by (induction xs) simp_all

lemma list_all_white: "list_all isWhite ws \<Longrightarrow> list_all (\<lambda>c. c \<noteq> CHR ''<'' \<and> c \<noteq> nul) ws \<and> list_all isspace ws"
  by (induction ws) (use white_not in auto)

lemma parse_content_here:
  assumes t: "content_ok t" "t \<noteq> []" and ws: "list_all isWhite ws" and c: "c = CHR ''<''"
  shows "parse_content b (t @ ws @ c # s) = Inr (t, c # s)"
proof -
  let ?P = "\<lambda>c. c \<noteq> CHR ''<'' \<and> c \<noteq> nul"
  have "list_all ?P (t @ ws)" using t(1) list_all_white [OF ws] by (simp add: content_ok_def)
  then have body: "takeWhile ?P (t @ ws @ c # s) = t @ ws"
    using takeWhile_here [of ?P "t @ ws" c s] c by simp
  have "dropWhile isspace (rev (t @ ws)) = dropWhile isspace (rev t)"
    using dropWhile_here [of isspace "rev ws" "rev t"] list_all_white [OF ws] by simp
  also have "\<dots> = rev t" using t by (cases t rule: rev_cases) (simp_all add: content_ok_def)
  finally have trim: "rev (dropWhile isspace (rev (t @ ws))) = t" by simp
  have "list_all (\<lambda>c. c \<noteq> nul) t" using t(1) by (auto simp: content_ok_def list_all_iff)
  then have "makeString t = t" by (simp add: makeString_def takeWhile_eq_all_conv list_all_iff)
  then show ?thesis using t(2) unfolding parse_content_def body trim Let_def by simp
qed

lemma show_node_head:
  assumes "node_ok x" obtains a t where "show_node ws x = CHR ''<'' # a # t" "ident_start a"
proof -
  obtain name content ps cs where x: "x = Node name content ps cs" by (cases x)
  then have "ident name" using assms by simp
  then obtain a m where "name = a # m" "ident_start a" by (rule ident_parts)
  then show thesis by (intro that [of a]) (simp_all add: x)
qed

definition show_children :: "string \<Rightarrow> xml_node list \<Rightarrow> string" where
  "show_children ws cs = concat (map (\<lambda>c. show_node ws c @ ws) cs)"

text \<open>The rest of a body after its content.\<close>

lemma body_children:
  assumes ws: "list_all isWhite ws" and name: "ident (node_name x)"
  shows "list_all isWhite w \<Longrightarrow> list_all node_ok cs \<Longrightarrow>
    (\<And>c k rest. c \<in> set cs \<Longrightarrow> 2 * length (show_node ws c) < k \<Longrightarrow> parseNode k (show_node ws c @ rest) = ret (c, rest)) \<Longrightarrow>
    2 * length (show_children ws cs) + 1 < k \<Longrightarrow> node_name x' = node_name x \<Longrightarrow>
    parseBody k x' (w @ show_children ws cs @ ''</'' @ node_name x @ ''>'' @ rest) =
      ret (Node (node_name x') (node_content x') (node_props x') (node_child x' @ cs), rest)"
proof (induction cs arbitrary: w k x')
  case Nil
  then obtain j where k: "k = Suc j" by (cases k) simp_all
  have lt: "\<not> isWhite (CHR ''<'')" by (simp add: isWhite_def)
  have skip: "skipWhites (w @ ''</'' @ node_name x @ ''>'' @ rest) = Inr (CHR ''<'' # CHR ''/'' # node_name x @ ''>'' @ rest)"
    using skipWhites_white [OF Nil(1) lt, of "CHR ''/'' # node_name x @ ''>'' @ rest"] by simp
  have closed: "parse_end (node_name x') (CHR ''<'' # CHR ''/'' # node_name x @ ''>'' @ rest) = Inr rest"
    using parse_end_here [OF name, of rest] Nil(5) by simp
  show ?case unfolding k using skip closed by (cases x') (simp add: parseBody_step show_children_def at_comment_def)
next
  case (Cons c cs)
  then obtain j where k: "k = Suc j" by (cases k) simp_all
  have lt: "\<not> isWhite (CHR ''<'')" by (simp add: isWhite_def)
  from Cons.prems(2) obtain a t where head: "show_node ws c = CHR ''<'' # a # t" "ident_start a"
    using show_node_head [of c ws] by auto
  let ?tail = "ws @ show_children ws cs @ ''</'' @ node_name x @ ''>'' @ rest"
  have shown: "show_children ws (c # cs) @ ''</'' @ node_name x @ ''>'' @ rest = show_node ws c @ ?tail"
    by (simp add: show_children_def)
  have skip: "skipWhites (w @ show_node ws c @ ?tail) = Inr (CHR ''<'' # a # t @ ?tail)"
    using skipWhites_white [OF Cons.prems(1) lt] head by simp
  have no: "\<not> at_comment (CHR ''<'' # a # t @ ?tail)" "take 2 (CHR ''<'' # a # t @ ?tail) \<noteq> ''</''"
    using ident_start_not [OF head(2)] by (simp_all add: at_comment_def)
  have child: "parseNode j (CHR ''<'' # a # t @ ?tail) = ret (c, ?tail)"
    using Cons.prems(3) [of c j ?tail] Cons.prems(4) k head(1) by (simp add: show_children_def)
  have rest: "parseBody j (add_child c x') ?tail = ret (Node (node_name x') (node_content x') (node_props x') (node_child x' @ c # cs), rest)"
  proof -
    have "2 \<le> length (show_node ws c)" by (simp add: head(1))
    then have "2 * length (show_children ws cs) + 1 < j" using Cons.prems(4) k by (simp add: show_children_def)
    then show ?thesis using Cons.IH [of ws j "add_child c x'"] Cons.prems(2,3,5) ws by (simp add: add_child_def)
  qed
  show ?case
    unfolding shown k parseBody_step skip sum.case list.case if_not_P [OF no(1)] if_not_P [OF no(2)]
    by (simp add: child rest del: append.simps)
qed

lemma parse_node_here:
  assumes ws: "list_all isWhite ws"
  shows "node_ok x \<Longrightarrow> 2 * length (show_node ws x) < k \<Longrightarrow> parseNode k (show_node ws x @ rest) = ret (x, rest)"
proof (induction x arbitrary: k rest)
  case (Node name content ps cs)
  have ok: "ident name" "content_ok content" "props_ok ps" "list_all node_ok cs" using Node.prems by simp_all
  obtain j where k: "k = Suc j" using Node.prems by (cases k) simp_all
  have gt: "\<not> isWhite (CHR ''>'')" "\<not> ident_char (CHR ''>'')" "\<not> isWhite (CHR ''/'')" "\<not> ident_char (CHR ''/'')"
    by (simp_all add: isWhite_def ident_char_def isalpha_def isdigit_def)
  let ?open = "Node name '''' ps []"
  show ?case
  proof (cases "content = '''' \<and> cs = []")
    case True
    have "parse_start (show_node ws (Node name content ps cs) @ rest) = Inr ((name, ps), CHR ''/'' # CHR ''>'' # rest)"
      using parse_start_here [OF ok(1,3) gt(3,4), of "CHR ''>'' # rest"] True by simp
    moreover have "consume_word ''/>'' (CHR ''/'' # CHR ''>'' # rest) = Inr rest"
      using consume_word_here [of "''/>''" rest] by simp
    ultimately show ?thesis using True by (simp add: k del: show_node.simps)
  next
    case False
    let ?inner = "ws @ content @ ws @ show_children ws cs @ ''</'' @ name @ ''>'' @ rest"
    have start: "parse_start (show_node ws (Node name content ps cs) @ rest) = Inr ((name, ps), CHR ''>'' # ?inner)"
      using parse_start_here [OF ok(1,3) gt(1,2), of ?inner] False by (auto simp: show_children_def)
    have close: "consume_word ''>'' (CHR ''>'' # ?inner) = Inr ?inner"
      using consume_word_here [of "''>''" ?inner] by simp
    have len: "2 * length (content @ ws @ show_children ws cs @ ''</'') + 2 < j"
      using Node.prems(2) False k by (auto simp: show_children_def)
    have child: "parseNode i (show_node ws c @ t) = ret (c, t)" if "c \<in> set cs" "2 * length (show_node ws c) < i" for c i t
      using Node.IH [OF that(1) _ that(2)] ok(4) that(1) by (simp add: list_all_iff)
    have "parseBody j ?open ?inner = ret (Node name content ps cs, rest)"
    proof (cases "content = ''''")
      case True
      have "list_all isWhite (ws @ ws)" using ws by simp
      from body_children [OF ws _ this ok(4) child, of ?open j ?open rest] ok(1) len
      show ?thesis by (simp add: True)
    next
      case filled: False
      obtain i where j: "j = Suc i" using len by (cases j) simp_all
      obtain a t where hd: "content = a # t" using filled by (cases content) simp_all
      have a: "\<not> isWhite a" "a \<noteq> CHR ''<''" "a \<noteq> nul" using ok(2) by (simp_all add: content_ok_def hd)
      obtain r where tail: "show_children ws cs @ ''</'' @ name @ ''>'' @ rest = CHR ''<'' # r"
      proof (cases cs)
        case Nil
        then show thesis using that by (simp add: show_children_def)
      next
        case (Cons c cs')
        with ok(4) have "node_ok c" by simp
        then obtain b u where "show_node ws c = CHR ''<'' # b # u" using show_node_head by blast
        then show thesis using that by (simp add: show_children_def Cons)
      qed
      have skip: "skipWhites ?inner = Inr (a # t @ ws @ CHR ''<'' # r)"
        using skipWhites_white [OF ws a(1)] tail by (simp add: hd)
      have got: "parse_content b (a # t @ ws @ CHR ''<'' # r) = Inr (content, CHR ''<'' # r)" for b
        using parse_content_here [OF ok(2) filled ws refl, of b r] by (simp add: hd)
      have no: "\<not> at_comment (a # t @ ws @ CHR ''<'' # r)" "take 2 (a # t @ ws @ CHR ''<'' # r) \<noteq> ''</''"
        using a(2) by (simp_all add: at_comment_def)
      have "list_all isWhite []" by simp
      from body_children [OF ws _ this ok(4) child, of ?open i "set_content content ?open" rest] ok(1) len
      have "parseBody i (set_content content ?open) (CHR ''<'' # r) = ret (Node name content ps cs, rest)"
        by (simp add: set_content_def j tail [simplified])
      then show ?thesis
        unfolding j parseBody_step skip sum.case list.case if_not_P [OF no(1)] if_not_P [OF no(2)]
        using a by (simp add: got)
    qed
    then show ?thesis unfolding k parseNode.simps start using close by (simp del: append.simps)
  qed
qed

text \<open>A document: a header or none, and nodes.\<close>

definition show_header :: "(string \<times> string) list option \<Rightarrow> string" where
  "show_header h = (case h of None \<Rightarrow> '''' | Some ps \<Rightarrow> ''<?xml'' @ concat (map show_prop ps) @ ''?>'')"

definition show_doc :: "string \<Rightarrow> (string \<times> string) list option \<Rightarrow> xml_node list \<Rightarrow> string" where
  "show_doc ws h ns = show_header h @ ws @ show_children ws ns"

lemma children_start:
  assumes "list_all node_ok ns" and "\<not> isWhite c" and "list_all isWhite ws"
  shows "skipWhites (ws @ show_children ws ns @ c # u) = Inr (show_children ws ns @ c # u)"
proof -
  have "\<exists>d v. show_children ws ns @ c # u = d # v \<and> \<not> isWhite d"
  proof (cases ns)
    case Nil
    then show ?thesis using assms(2) by (simp add: show_children_def)
  next
    case (Cons m ms)
    then have "node_ok m" using assms by simp
    then obtain b t where "show_node ws m = CHR ''<'' # b # t" using show_node_head by blast
    then show ?thesis by (simp add: show_children_def Cons isWhite_def)
  qed
  then show ?thesis using skipWhites_white [OF assms(3)] by auto
qed

lemma parse_items_prefix:
  assumes ws: "list_all isWhite ws" and c: "\<not> isWhite c" and j: "2 \<le> j"
  shows "list_all node_ok ns \<Longrightarrow> 2 * length (show_children ws ns) + j \<le> k \<Longrightarrow>
    \<exists>i\<ge>j. parse_items k cs (show_children ws ns @ c # u) = parse_items i (cs @ ns) (c # u)"
proof (induction ns arbitrary: k cs)
  case Nil
  then show ?case by (auto simp: show_children_def)
next
  case (Cons n ns)
  have ok: "node_ok n" using Cons.prems by simp
  then obtain a t where head: "show_node ws n = CHR ''<'' # a # t" "ident_start a" using show_node_head by blast
  obtain l where k: "k = Suc l" using Cons.prems head(1) by (cases k) (simp_all add: show_children_def)
  have len: "2 * length (show_node ws n) < l" "2 * length (show_children ws ns) + j \<le> l"
    using Cons.prems(2) k j by (auto simp: show_children_def head(1))
  let ?tail = "show_children ws ns @ c # u"
  have node: "parseNode l (show_node ws n @ ws @ ?tail) = ret (n, ws @ ?tail)"
    using parse_node_here [OF ws ok len(1)] .
  have skip: "skipWhites (ws @ ?tail) = Inr ?tail"
    using Cons.prems(1) by (intro children_start [OF _ c ws]) simp
  have shown: "show_children ws (n # ns) @ c # u = show_node ws n @ ws @ ?tail" by (simp add: show_children_def)
  have no: "\<not> at_comment (show_node ws n @ ws @ ?tail)" "CHR ''<'' \<noteq> nul"
    using ident_start_not [OF head(2)] by (simp_all add: head at_comment_def nul_def)
  have "look (show_node ws n @ ws @ ?tail) = Inr (CHR ''<'')" by (simp add: head)
  then have "parse_items k cs (show_children ws (n # ns) @ c # u) = parse_items l (cs @ [n]) ?tail"
    unfolding shown k parse_items.simps by (simp only: bind_out_simps if_not_P [OF no(1)] if_not_P [OF no(2)] node prod.case skip)
  then show ?case using Cons.IH [OF _ len(2), of "cs @ [n]"] Cons.prems(1) by simp
qed

lemma parse_items_here:
  assumes "list_all isWhite ws" and "list_all node_ok ns" and "2 * length (show_children ws ns) + 2 \<le> k"
  shows "parse_items k cs (show_children ws ns @ [nul]) = ret (cs @ ns)"
proof -
  have "\<not> isWhite nul" by (simp add: isWhite_def nul_def)
  from parse_items_prefix [OF assms(1) this order_refl assms(2,3), of cs "[]"]
  obtain i where "2 \<le> i" "parse_items k cs (show_children ws ns @ [nul]) = parse_items i (cs @ ns) [nul]" by auto
  then show ?thesis by (cases i) simp_all
qed

lemma parseHeader_here:
  assumes "props_ok ps"
  shows "parseHeader (''<?xml'' @ concat (map show_prop ps) @ ''?>'' @ s) = Inr (True, s)"
proof -
  have close: "consume_word ''?>'' (CHR ''?'' # CHR ''>'' # s) = Inr s" using consume_word_here [of "''?>''" s] by simp
  show ?thesis
  proof (cases ps)
    case Nil
    then show ?thesis unfolding parseHeader_def consume_word_here using close by simp
  next
    case (Cons p qs)
    let ?t = "concat (map show_prop ps) @ CHR ''?'' # CHR ''>'' # s"
    have q: "\<not> isWhite (CHR ''?'')" "\<not> ident_start (CHR ''?'')"
      by (simp_all add: isWhite_def ident_start_def isalpha_def)
    have sp: "?t = CHR '' '' # tl ?t" "isWhite (CHR '' '')" by (simp_all add: Cons show_prop_def isWhite_def)
    have props: "bind_res (skipWhites ?t) (parseProps []) = Inr (ps, CHR ''?'' # CHR ''>'' # s)"
      unfolding bind_res_case using props_white [OF _ q, of "[]" "[]" ps "CHR ''>'' # s"] assms by (simp add: props_ok_def)
    have "skipWhites ?t = skipWhites (tl ?t)" using sp by (metis skipWhites.simps(2))
    then obtain u where u: "skipWhites (tl ?t) = Inr u" "parseProps [] u = Inr (ps, CHR ''?'' # CHR ''>'' # s)"
      using props by (auto simp: bind_res_eq_Inr)
    have "take 2 ?t \<noteq> ''?>''" "look ?t = Inr (CHR '' '')" by (simp_all add: Cons show_prop_def)
    then show ?thesis
      unfolding parseHeader_def consume_word_here using u sp(2) close by simp
  qed
qed
lemma parseXML_here:
  assumes ws: "list_all isWhite ws" and h: "case h of None \<Rightarrow> True | Some ps \<Rightarrow> props_ok ps" and ns: "list_all node_ok ns"
  shows "parseXML (show_doc ws h ns @ [nul]) = ret ns"
proof -
  let ?t = "show_children ws ns @ [nul]"
  have skip: "skipWhites (ws @ ?t) = Inr ?t" by (rule children_start [OF ns _ ws]) (simp add: isWhite_def nul_def)
  have items: "parse_items (2 * length ?t + 2) [] ?t = ret ns"
    using parse_items_here [OF ws ns, of "2 * length ?t + 2" "[]"] by simp
  show ?thesis
  proof (cases h)
    case None
    have no: "take 2 (ws @ ?t) \<noteq> ''<?''"
    proof (cases ws)
      case Nil
      show ?thesis
      proof (cases ns)
        case Nil
        then show ?thesis using \<open>ws = []\<close> by (simp add: show_children_def)
      next
        case (Cons m ms)
        then have "node_ok m" using ns by simp
        then obtain b u where "show_node ws m = CHR ''<'' # b # u" "ident_start b" using show_node_head by blast
        then show ?thesis using ident_start_not [of b] \<open>ws = []\<close> by (simp add: show_children_def Cons)
      qed
    next
      case (Cons c us)
      then show ?thesis using ws white_not [of c] by auto
    qed
    have "show_doc ws h ns @ [nul] = ws @ ?t" by (simp add: show_doc_def show_header_def None)
    then show ?thesis by (simp only: parseXML_def if_not_P [OF no] bind_out_simps skip items)
  next
    case (Some ps)
    have head: "parseHeader (show_doc ws h ns @ [nul]) = Inr (True, ws @ ?t)"
      using parseHeader_here [of ps "ws @ ?t"] h by (simp add: show_doc_def show_header_def Some)
    have yes: "take 2 (show_doc ws h ns @ [nul]) = ''<?''" by (simp add: show_doc_def show_header_def Some)
    show ?thesis
      by (simp only: parseXML_def if_P [OF yes] head bind_res_simps prod.case not_True_eq_False if_False bind_out_simps skip items)
  qed
qed

section \<open>The writer\<close>

text \<open>The text written so far and the stack of the types of the open nodes.  A node on the stack
  never has content: nothing sets \<open>hasContent\<close>.  On an empty stack an assertion fails, or
  without assertions the access is undefined.\<close>

record xml_writer =
  xml :: string
  state :: "string list"

definition Writer :: xml_writer where
  "Writer = \<lparr>xml = '''', state = []\<rparr>"

definition writeHeader :: "string \<Rightarrow> xml_writer \<Rightarrow> xml_writer" where
  "writeHeader version w = w\<lparr>xml := xml w @ ''<?xml version='' @ [quot] @ version @ [quot] @ ''?>'' @ [CHR 0x0A]\<rparr>"

definition writeFooter :: "xml_writer \<Rightarrow> xml_writer" where
  "writeFooter w = w"

definition spaces :: "xml_writer \<Rightarrow> xml_writer" where
  "spaces w = w\<lparr>xml := xml w @ concat (replicate (length (state w)) ''  '')\<rparr>"

definition openNode :: "string \<Rightarrow> xml_writer \<Rightarrow> xml_writer" where
  "openNode t w = (let w = spaces w in w\<lparr>xml := xml w @ ''<'' @ t, state := t # state w\<rparr>)"

definition writeProperty :: "bool \<Rightarrow> string \<Rightarrow> string \<Rightarrow> xml_writer \<Rightarrow> xml_writer res" where
  "writeProperty dbg n v w = (if state w = [] then Inl (if dbg then Assertion_failed else Undefined_behaviour)
     else Inr (w\<lparr>xml := xml w @ '' '' @ n @ ''='' @ [quot] @ v @ [quot]\<rparr>))"

definition closeNode :: "bool \<Rightarrow> xml_writer \<Rightarrow> xml_writer res" where
  "closeNode dbg w = (if state w = [] then Inl (if dbg then Assertion_failed else Undefined_behaviour)
     else Inr (w\<lparr>xml := xml w @ ''/>'' @ [CHR 0x0A], state := tl (state w)\<rparr>))"

text \<open>The calls of a client.\<close>

datatype writer_call = Open_node string | Write_property string string | Close_node

fun writer_step :: "bool \<Rightarrow> writer_call \<Rightarrow> xml_writer \<Rightarrow> xml_writer res" where
  "writer_step dbg (Open_node t) w = Inr (openNode t w)"
| "writer_step dbg (Write_property n v) w = writeProperty dbg n v w"
| "writer_step dbg Close_node w = closeNode dbg w"

fun writer_calls :: "bool \<Rightarrow> writer_call list \<Rightarrow> xml_writer \<Rightarrow> xml_writer res" where
  "writer_calls dbg [] w = Inr w"
| "writer_calls dbg (c # cs) w = bind_res (writer_step dbg c w) (writer_calls dbg cs)"

definition leaf_calls :: "xml_node \<Rightarrow> writer_call list" where
  "leaf_calls x = Open_node (node_name x) # map (\<lambda>p. Write_property (fst p) (snd p)) (node_props x) @ [Close_node]"

lemma writer_calls_append: "writer_calls dbg (cs @ ds) w = bind_res (writer_calls dbg cs w) (writer_calls dbg ds)"
  by (induction cs arbitrary: w) (auto simp: bind_res_def split: sum.splits)

lemma writer_props:
  "state w \<noteq> [] \<Longrightarrow> writer_calls dbg (map (\<lambda>p. Write_property (fst p) (snd p)) ps) w =
     Inr (w\<lparr>xml := xml w @ concat (map show_prop ps)\<rparr>)"
  by (induction ps arbitrary: w) (simp_all add: writeProperty_def show_prop_def)

definition leaf :: "xml_node \<Rightarrow> bool" where
  "leaf x \<longleftrightarrow> node_content x = '''' \<and> node_child x = []"

lemma show_leaf: "leaf x \<Longrightarrow> show_node ws x = ''<'' @ node_name x @ concat (map show_prop (node_props x)) @ ''/>''"
  by (cases x) (simp add: leaf_def)

lemma writer_leaf:
  assumes "leaf x" and "state w = []"
  shows "writer_calls dbg (leaf_calls x) w = Inr (w\<lparr>xml := xml w @ show_node ws x @ [CHR 0x0A]\<rparr>)"
  using assms by (simp add: leaf_calls_def writer_calls_append openNode_def spaces_def Let_def writer_props closeNode_def
      show_leaf [OF assms(1), of ws])

lemma writer_leaves:
  "list_all leaf ns \<Longrightarrow> state w = [] \<Longrightarrow> writer_calls dbg (concat (map leaf_calls ns)) w =
     Inr (w\<lparr>xml := xml w @ show_children [CHR 0x0A] ns\<rparr>)"
proof (induction ns arbitrary: w)
  case Nil
  then show ?case by (simp add: show_children_def)
next
  case (Cons x ns)
  then show ?case
    using writer_leaf [of x w dbg "[CHR 0x0A]"] by (simp add: writer_calls_append) (simp add: show_children_def)
qed

text \<open>C31 Documents are read as they were printed.  A file that holds a document in the form of
  the parser (a header or none, nodes with properties, content and children nested to any depth,
  with any white space between them) yields exactly these nodes.  Whatever a file holds, \<open>readXML\<close>
  does not run for ever: it returns a document, throws an exception, or reads outside of the buffer,
  which is undefined behaviour and happens for some files (\<open>unterminated_string\<close>, \<open>blank_content\<close>).
  A file without quotes, vertical tabs and form feeds is never one of these.\<close>

theorem xml_round_trip:
  assumes ws: "list_all isWhite ws" and h: "case h of None \<Rightarrow> True | Some ps \<Rightarrow> props_ok ps" and ns: "list_all node_ok ns"
  shows "readXML fn (Some (show_doc ws h ns)) = ret (fn, ns) \<and>
    ((\<exists>doc. readXML fn file = ret (fn, doc)) \<or> (\<exists>e. readXML fn file = raise e)) \<and>
    ((case file of None \<Rightarrow> True | Some bytes \<Rightarrow> tame bytes) \<longrightarrow> readXML fn file \<noteq> raise Undefined_behaviour)"
proof -
  have "readXML fn (Some (show_doc ws h ns)) = ret (fn, ns)"
    using parseXML_here [OF assms] by (simp add: readXML_def)
  moreover have "(\<exists>doc. readXML fn file = ret (fn, doc)) \<or> (\<exists>e. readXML fn file = raise e)"
  proof (cases "file")
    case (Some bytes)
    from parseXML_ends [of "bytes @ [nul]"] obtain m where "parseXML (bytes @ [nul]) = Some m" by (auto simp: ends_def)
    then show ?thesis using Some by (cases m) (simp_all add: readXML_def raise_def)
  qed (auto simp add: readXML_def)
  moreover have "readXML fn file \<noteq> raise Undefined_behaviour" if "case file of None \<Rightarrow> True | Some bytes \<Rightarrow> tame bytes"
  proof (cases "file")
    case (Some bytes)
    with that have "at_rest (bytes @ [nul])"
      by (simp add: at_rest_def tame_def) (simp add: nul_def quot_def apostrophe_def)
    then have "good_out (\<lambda>_. True) (parseXML (bytes @ [nul]))" by (rule good_parseXML)
    then have "good_out (\<lambda>_. True) (readXML fn file)"
      using Some by (auto simp: readXML_def intro: good_bind_out)
    then show ?thesis by auto
  qed (simp add: readXML_def raise_def)
  ultimately show ?thesis by blast
qed

definition some_nodes :: "xml_node list" where
  "some_nodes = [Node ''scene'' '''' [(''version'', ''1.0''), (''name'', ''a <b>'')]
     [Node ''mesh'' ''0 1 2'' [] [], Node ''group'' '''' [] [Node ''ref'' '''' [(''id'', ''7'')] []]], Node ''end'' '''' [] []]"

theorem xml_round_trip_witness:
  "readXML ''f.xml'' (Some (show_doc [CHR 0x0A, CHR '' ''] (Some [(''version'', ''1.0'')]) some_nodes)) = ret (''f.xml'', some_nodes) \<and>
   readXML ''f.xml'' (Some ''<a><b>'') \<noteq> raise Undefined_behaviour"
proof -
  have "list_all isWhite [CHR 0x0A, CHR '' '']"
    "case Some [(''version'', ''1.0'')] of None \<Rightarrow> True | Some ps \<Rightarrow> props_ok ps"
    "list_all node_ok some_nodes" by code_simp+
  note rt = xml_round_trip [OF this, of "''f.xml''" "Some ''<a><b>''"]
  have "case Some ''<a><b>'' of None \<Rightarrow> True | Some bytes \<Rightarrow> tame bytes" by code_simp
  with rt show ?thesis by blast
qed

text \<open>A tag that is not closed before the next one ends the parsing.\<close>

definition not_closed :: cxx_error where
  "not_closed = Runtime_error (''error reading XML file: expecting '' @ quoted ''>'' @ '', but could not find it'')"

lemma lt_not: "\<not> isWhite (CHR ''<'')" "\<not> ident_char (CHR ''<'')" "CHR ''<'' \<noteq> nul"
  by (simp_all add: isWhite_def ident_char_def isalpha_def isdigit_def nul_def)

lemma parseNode_open:
  assumes "ident t" and "props_ok ps" and "list_all isWhite w"
  shows "parseNode (Suc i) (CHR ''<'' # t @ concat (map show_prop ps) @ w @ CHR ''<'' # u) = raise not_closed"
proof -
  have opened: "parse_start (CHR ''<'' # t @ concat (map show_prop ps) @ w @ CHR ''<'' # u) = Inr ((t, ps), CHR ''<'' # u)"
    by (rule parse_start_white [OF assms lt_not(1,2)])
  have "consume_word ''>'' (CHR ''<'' # u) = Inl not_closed" by (simp add: consume_word_def not_closed_def)
  then show ?thesis
    unfolding parseNode.simps opened bind_out_simps prod.case Let_def look.simps by (simp add: raise_def)
qed

lemma parse_items_node:
  "c \<noteq> nul \<Longrightarrow> \<not> at_comment (c # s) \<Longrightarrow> parse_items (Suc k) cs (c # s) =
     bind_out (parseNode k (c # s)) (\<lambda>(n, s). bind_out (Some (skipWhites s)) (parse_items k (cs @ [n])))"
  by simp

lemma parse_items_open:
  assumes ws: "list_all isWhite ws" and ns: "list_all node_ok ns" and t: "ident t" "props_ok ps" "list_all isWhite w"
    and k: "2 * length (show_children ws ns) + 2 \<le> k"
  shows "parse_items k [] (show_children ws ns @ CHR ''<'' # t @ concat (map show_prop ps) @ w @ CHR ''<'' # u) = raise not_closed"
proof -
  let ?u = "t @ concat (map show_prop ps) @ w @ CHR ''<'' # u"
  obtain a m where a: "t = a # m" "ident_start a" using t(1) by (rule ident_parts)
  have no: "\<not> at_comment (CHR ''<'' # ?u)" using ident_start_not [OF a(2)] by (simp add: at_comment_def a(1))
  obtain i where i: "2 \<le> i" "parse_items k [] (show_children ws ns @ CHR ''<'' # ?u) = parse_items i ([] @ ns) (CHR ''<'' # ?u)"
    using parse_items_prefix [OF ws lt_not(1) order_refl ns k, of "[]" ?u] by (elim exE conjE) (rule that)
  obtain l where "i = 2 + l" using i(1) by (auto dest: le_Suc_ex)
  then have l: "i = Suc (Suc l)" by simp
  show ?thesis
    unfolding i(2) l parse_items_node [OF lt_not(3) no] parseNode_open [OF t] bind_out_simps by (rule refl)
qed

lemma parseXML_open:
  assumes ws: "list_all isWhite ws" and ns: "list_all node_ok ns" and h: "props_ok hs"
    and t: "ident t" "props_ok ps" "list_all isWhite w"
  shows "parseXML (show_doc ws (Some hs) ns @ CHR ''<'' # t @ concat (map show_prop ps) @ w @ CHR ''<'' # u) = raise not_closed"
proof -
  let ?all = "show_children ws ns @ CHR ''<'' # t @ concat (map show_prop ps) @ w @ CHR ''<'' # u"
  have doc: "show_doc ws (Some hs) ns @ CHR ''<'' # t @ concat (map show_prop ps) @ w @ CHR ''<'' # u =
      show_header (Some hs) @ ws @ ?all" by (simp add: show_doc_def)
  have head: "parseHeader (show_header (Some hs) @ ws @ ?all) = Inr (True, ws @ ?all)"
    using parseHeader_here [OF h, of "ws @ ?all"] by (simp add: show_header_def)
  have yes: "take 2 (show_header (Some hs) @ ws @ ?all) = ''<?''" by (simp add: show_header_def)
  have skip: "skipWhites (ws @ ?all) = Inr ?all" by (rule children_start [OF ns lt_not(1) ws])
  have items: "parse_items (2 * length ?all + 2) [] ?all = raise not_closed"
    by (rule parse_items_open [OF ws ns t]) simp
  show ?thesis
    by (simp only: doc parseXML_def if_P [OF yes] head bind_res_simps prod.case not_True_eq_False if_False bind_out_simps skip items)
qed

lemma version_header: "value_ok v \<Longrightarrow> props_ok [(''version'', v)]"
proof -
  assume "value_ok v"
  moreover have "ident ''version''" by code_simp
  ultimately show ?thesis by (simp add: props_ok_def)
qed

lemma write_leaves:
  assumes "list_all leaf ns"
  shows "writer_calls dbg (concat (map leaf_calls ns)) (writeHeader version Writer) =
    Inr \<lparr>xml = show_doc [CHR 0x0A] (Some [(''version'', version)]) ns, state = []\<rparr>"
proof -
  have start: "writeHeader version Writer = \<lparr>xml = show_header (Some [(''version'', version)]) @ [CHR 0x0A], state = []\<rparr>"
    by (simp add: writeHeader_def Writer_def show_header_def show_prop_def)
  show ?thesis
    unfolding start using writer_leaves [OF assms, of "\<lparr>xml = show_header (Some [(''version'', version)]) @ [CHR 0x0A], state = []\<rparr>" dbg]
    by (simp add: show_doc_def)
qed

text \<open>The reader reads what the writer has written, as long as no node is nested and nothing has to be
  escaped.  For nodes without content and children, whose names are identifiers and whose properties have
  different names and values without quotes, backslashes and zeros, written one after the other behind a
  header, every call succeeds, also with assertions, and \<open>readXML\<close> returns the nodes.  (The writer does not
  escape anything: \<open>writer_does_not_escape\<close> shows a value with a quote that is not read back.)  But \<open>openNode\<close> does not close the tag of the node
  around it, so as soon as a second node is opened inside a first, \<open>readXML\<close> rejects the file,
  whatever is written after that.\<close>

theorem xml_writer_reader:
  assumes v: "value_ok version" and ns: "list_all node_ok ns" "list_all leaf ns"
    and outer: "ident t" "props_ok ps"
  shows "\<exists>w. writer_calls dbg (concat (map leaf_calls ns)) (writeHeader version Writer) = Inr w \<and>
      readXML fn (Some (xml (writeFooter w))) = ret (fn, ns) \<and>
    (\<exists>w'. writer_calls dbg (Open_node t # map (\<lambda>p. Write_property (fst p) (snd p)) ps @ [Open_node inner]) w = Inr w' \<and>
      readXML fn (Some (xml w' @ rest)) = raise not_closed)"
proof -
  let ?doc = "show_doc [CHR 0x0A] (Some [(''version'', version)]) ns"
  let ?w = "\<lparr>xml = ?doc, state = []\<rparr>"
  let ?w' = "\<lparr>xml = ?doc @ ''<'' @ t @ concat (map show_prop ps) @ ''  <'' @ inner, state = [inner, t]\<rparr>"
  have white: "list_all isWhite [CHR 0x0A]" "list_all isWhite ''  ''" by (simp_all add: isWhite_def)
  note h = version_header [OF v]
  have "readXML fn (Some (xml (writeFooter ?w))) = ret (fn, ns)"
    using parseXML_here [OF white(1) _ ns(1)] h by (simp add: writeFooter_def readXML_def)
  moreover have "writer_calls dbg (Open_node t # map (\<lambda>p. Write_property (fst p) (snd p)) ps @ [Open_node inner]) ?w = Inr ?w'"
    by (simp add: writer_calls_append writer_props openNode_def spaces_def Let_def)
  moreover have "readXML fn (Some (xml ?w' @ rest)) = raise not_closed"
  proof -
    have "xml ?w' @ rest @ [nul] = ?doc @ CHR ''<'' # t @ concat (map show_prop ps) @ ''  '' @ CHR ''<'' # inner @ rest @ [nul]"
      by simp
    then show ?thesis
      by (simp only: readXML_def option.case append_assoc parseXML_open [OF white(1) ns(1) h outer white(2)] bind_out_simps)
  qed
  ultimately show ?thesis using write_leaves [OF ns(2)] by blast
qed

theorem xml_writer_reader_witness:
  "\<exists>w w'. writer_calls True (leaf_calls (Node ''a'' '''' [(''k'', ''v'')] [])) (writeHeader ''1.0'' Writer) = Inr w \<and>
     readXML ''f'' (Some (xml w)) = ret (''f'', [Node ''a'' '''' [(''k'', ''v'')] []]) \<and>
     writer_calls True [Open_node ''b'', Open_node ''c''] w = Inr w' \<and>
     readXML ''f'' (Some (xml w' @ ''/>'')) \<noteq> ret (''f'', [Node ''a'' '''' [(''k'', ''v'')] []])"
proof -
  let ?a = "Node ''a'' '''' [(''k'', ''v'')] []"
  have "value_ok ''1.0''" "list_all node_ok [?a]" "list_all leaf [?a]" "ident ''b''" "props_ok []" by code_simp+
  from xml_writer_reader [OF this, of True "''f''" "''c''" "''/>''"] show ?thesis by (auto simp: writeFooter_def)
qed

text \<open>A property whose value is a quote: the file that the writer makes is rejected.\<close>

lemma writer_does_not_escape:
  "case writer_calls True (leaf_calls (Node ''a'' '''' [(''k'', [quot])] [])) (writeHeader ''1.0'' Writer) of
     Inl e \<Rightarrow> False
   | Inr w \<Rightarrow> readXML fn (Some (xml (writeFooter w))) = raise not_closed"
proof -
  define w where "w = (case writer_calls True (leaf_calls (Node ''a'' '''' [(''k'', [quot])] [])) (writeHeader ''1.0'' Writer) of
     Inl e \<Rightarrow> Writer | Inr w \<Rightarrow> w)"
  have "writer_calls True (leaf_calls (Node ''a'' '''' [(''k'', [quot])] [])) (writeHeader ''1.0'' Writer) = Inr w"
    unfolding w_def by code_simp
  moreover have "parseXML (xml (writeFooter w) @ [nul]) = raise not_closed" unfolding w_def by code_simp
  ultimately show ?thesis by (simp add: readXML_def)
qed

text \<open>Two files that the parser reads past the end of, or copies a negative number of bytes for.\<close>

lemma unterminated_string: "readXML fn (Some (''<a b='' @ [quot])) = raise Undefined_behaviour"
proof -
  have "parseXML ((''<a b='' @ [quot]) @ [nul]) = raise Undefined_behaviour" by code_simp
  then show ?thesis by (simp add: readXML_def)
qed

lemma blank_content: "readXML fn (Some (''<a> '' @ [CHR 0x0B] @ ''</a>'')) = raise Undefined_behaviour"
proof -
  have "parseXML ((''<a> '' @ [CHR 0x0B] @ ''</a>'') @ [nul]) = raise Undefined_behaviour" by code_simp
  then show ?thesis by (simp add: readXML_def)
qed

end
