(* ===== verification/Arrays.thy ===== *)
theory Arrays
  imports Prelude "HOL-Library.Signed_Division"
begin

text \<open>
  Arrays of three dimensions (\<open>components/ospcommon/array3D\<close>) and sequences of indices
  (\<open>components/ospcommon/multidim_index_sequence.h\<close>).  Coordinates are \<open>int\<close>s, linear indices are
  words of 64 bits.  The virtual classes of arrays are the constructors of one datatype.
\<close>

section \<open>Coordinates and linear indices\<close>

type_synonym ivec3 = "int \<times> int \<times> int"

definition size_t :: "int \<Rightarrow> u64" where
  "size_t x = word_of_int x"

definition to_int :: "u64 \<Rightarrow> int" where
  "to_int w = sint (ucast w :: i32)"

fun longProduct :: "ivec3 \<Rightarrow> u64" where
  "longProduct (x, y, z) = size_t x * size_t y * size_t z"

fun longIndex :: "ivec3 \<Rightarrow> ivec3 \<Rightarrow> u64" where
  "longIndex (x, y, z) (dx, dy, dz) = size_t x + size_t dx * (size_t y + size_t dy * size_t z)"

fun coordsOf :: "u64 \<Rightarrow> ivec3 \<Rightarrow> ivec3 res" where
  "coordsOf i (dx, dy, dz) = (if size_t dx = 0 \<or> size_t dy = 0 then Inl Undefined_behaviour
     else Inr (to_int (i mod size_t dx), to_int (i div size_t dx mod size_t dy), to_int (i div size_t dx div size_t dy)))"

text \<open>The locations that the loops visit, in their order.\<close>

fun for_each :: "ivec3 \<Rightarrow> ivec3 \<Rightarrow> ivec3 list" where
  "for_each (lx, ly, lz) (ux, uy, uz) =
     concat (map (\<lambda>z. concat (map (\<lambda>y. map (\<lambda>x. (x, y, z)) [lx..ux - 1]) [ly..uy - 1])) [lz..uz - 1])"

section \<open>Sequences of indices\<close>

text \<open>A sequence keeps its dimensions as words.\<close>

fun flatten2 :: "u64 \<times> u64 \<Rightarrow> int \<times> int \<Rightarrow> u64" where
  "flatten2 (dx, dy) (x, y) = size_t x + dx * size_t y"

fun flatten3 :: "u64 \<times> u64 \<times> u64 \<Rightarrow> ivec3 \<Rightarrow> u64" where
  "flatten3 (dx, dy, dz) (x, y, z) = size_t x + dx * (size_t y + dy * size_t z)"

fun reshape2 :: "u64 \<times> u64 \<Rightarrow> u64 \<Rightarrow> (int \<times> int) res" where
  "reshape2 (dx, dy) i = (if dx = 0 then Inl Undefined_behaviour else Inr (to_int (i mod dx), to_int (i div dx)))"

fun reshape3 :: "u64 \<times> u64 \<times> u64 \<Rightarrow> u64 \<Rightarrow> ivec3 res" where
  "reshape3 (dx, dy, dz) i = (if dx * dy = 0 \<or> dx = 0 then Inl Undefined_behaviour else
     let z = i div (dx * dy); i' = i - z * dx * dy in Inr (to_int (i' mod dx), to_int (i' div dx), to_int z))"

fun index_sequence_3D :: "ivec3 \<Rightarrow> u64 \<times> u64 \<times> u64" where
  "index_sequence_3D (x, y, z) = (size_t x, size_t y, size_t z)"

fun total_indices :: "u64 \<times> u64 \<times> u64 \<Rightarrow> u64" where
  "total_indices (dx, dy, dz) = dx * dy * dz"

text \<open>An iterator is the sequence and the current index.  The operators \<open>+\<close> and \<open>-\<close> change the
  iterator they are applied to; both \<open>++\<close> return the iterator after the step.\<close>

record 'd index_iterator =
  it_dims :: 'd
  current_index :: u64

definition seq_begin :: "'d \<Rightarrow> 'd index_iterator" where "seq_begin d = \<lparr>it_dims = d, current_index = 0\<rparr>"
definition seq_end :: "u64 \<times> u64 \<times> u64 \<Rightarrow> (u64 \<times> u64 \<times> u64) index_iterator" where
  "seq_end d = \<lparr>it_dims = d, current_index = total_indices d\<rparr>"
definition it_deref :: "(u64 \<times> u64 \<times> u64) index_iterator \<Rightarrow> ivec3 res" where
  "it_deref it = reshape3 (it_dims it) (current_index it)"
definition it_inc :: "'d index_iterator \<Rightarrow> 'd index_iterator" where
  "it_inc it = it\<lparr>current_index := current_index it + 1\<rparr>"
definition it_dec :: "'d index_iterator \<Rightarrow> 'd index_iterator" where
  "it_dec it = it\<lparr>current_index := current_index it - 1\<rparr>"
definition it_plus :: "int \<Rightarrow> 'd index_iterator \<Rightarrow> 'd index_iterator" where
  "it_plus n it = it\<lparr>current_index := current_index it + size_t n\<rparr>"
definition it_minus :: "int \<Rightarrow> 'd index_iterator \<Rightarrow> 'd index_iterator" where
  "it_minus n it = it\<lparr>current_index := current_index it - size_t n\<rparr>"
definition it_eq :: "'d index_iterator \<Rightarrow> 'd index_iterator \<Rightarrow> bool" where
  "it_eq a b \<longleftrightarrow> it_dims a = it_dims b \<and> current_index a = current_index b"
definition jump_to :: "u64 \<Rightarrow> 'd index_iterator \<Rightarrow> 'd index_iterator" where
  "jump_to i it = it\<lparr>current_index := i\<rparr>"

text \<open>A loop \<open>for (auto i : seq)\<close>; the measure is the distance to the end, around the range of a word.\<close>

function iterate :: "(u64 \<times> u64 \<times> u64) index_iterator \<Rightarrow> u64 \<Rightarrow> ivec3 res list" where
  "iterate it e = (if current_index it = e then [] else it_deref it # iterate (it_inc it) e)"
  by pat_completeness auto
termination
proof (relation "measure (\<lambda>(it, e). unat (e - current_index it))")
  fix it :: "(u64 \<times> u64 \<times> u64) index_iterator" and e :: u64
  assume "current_index it \<noteq> e"
  then have "e - current_index it \<noteq> 0" by simp
  then have "unat (e - current_index it - 1) < unat (e - current_index it)" by (metis measure_unat)
  then show "((it_inc it, e), it, e) \<in> measure (\<lambda>(it, e). unat (e - current_index it))"
    by (simp add: it_inc_def diff_diff_eq)
qed simp

declare iterate.simps [simp del]

section \<open>Without wrapping around\<close>

definition dims_ok :: "ivec3 \<Rightarrow> bool" where
  "dims_ok d \<longleftrightarrow> (case d of (dx, dy, dz) \<Rightarrow> 0 < dx \<and> dx < 2 ^ 31 \<and> 0 < dy \<and> dy < 2 ^ 31 \<and> 0 < dz \<and> dz < 2 ^ 31 \<and>
     dx * dy * dz < 2 ^ 64)"

fun in_dims :: "ivec3 \<Rightarrow> ivec3 \<Rightarrow> bool" where
  "in_dims (dx, dy, dz) (x, y, z) \<longleftrightarrow> 0 \<le> x \<and> x < dx \<and> 0 \<le> y \<and> y < dy \<and> 0 \<le> z \<and> z < dz"

fun linear :: "ivec3 \<Rightarrow> ivec3 \<Rightarrow> int" where
  "linear (dx, dy, dz) (x, y, z) = x + dx * (y + dy * z)"

fun volume :: "ivec3 \<Rightarrow> int" where
  "volume (dx, dy, dz) = dx * dy * dz"

lemma uint_size_t: "0 \<le> x \<Longrightarrow> x < 2 ^ 64 \<Longrightarrow> uint (size_t x) = x"
  by (simp add: size_t_def uint_word_of_int)

lemma size_t_of_nat: "0 \<le> x \<Longrightarrow> size_t x = of_nat (nat x)"
  by (simp add: size_t_def)

lemma to_int_small: "uint w < 2 ^ 31 \<Longrightarrow> to_int w = uint w"
proof -
  assume small: "uint w < 2 ^ 31"
  have "uint (ucast w :: i32) = uint w"
    using small by (simp add: unsigned_ucast_eq take_bit_int_eq_self)
  then show ?thesis
    using signed_take_bit_int_eq_self [of 31 "uint w"] small uint_ge_0 [of w] by (simp add: to_int_def sint_uint)
qed

text \<open>Inside of the dimensions the machine arithmetic is that of the integers.\<close>

lemma dims_products:
  assumes "dims_ok (dx, dy, dz)"
  shows "0 < dx" "0 < dy" "0 < dz" "dx < 2 ^ 64" "dy < 2 ^ 64" "dz < 2 ^ 64" "dx * dy < 2 ^ 64" "dy * dz < 2 ^ 64" "dx * (dy * dz) < 2 ^ 64"
proof -
  from assms have d: "0 < dx" "dx < 2 ^ 31" "0 < dy" "dy < 2 ^ 31" "0 < dz" "dz < 2 ^ 31" "dx * dy * dz < 2 ^ 64"
    by (simp_all add: dims_ok_def)
  have "dx * dy < 2 ^ 31 * 2 ^ 31" "dy * dz < 2 ^ 31 * 2 ^ 31" using d by (intro mult_strict_mono; simp)+
  with d show "0 < dx" "0 < dy" "0 < dz" "dx < 2 ^ 64" "dy < 2 ^ 64" "dz < 2 ^ 64" "dx * dy < 2 ^ 64" "dy * dz < 2 ^ 64"
    "dx * (dy * dz) < 2 ^ 64"
    by (simp_all add: mult.assoc)
qed

lemma uint_mult_small: "uint a * uint b < 2 ^ 64 \<Longrightarrow> uint (a * b :: u64) = uint a * uint b"
  by (simp add: uint_word_ariths)

lemma uint_add_small: "uint a + uint b < 2 ^ 64 \<Longrightarrow> uint (a + b :: u64) = uint a + uint b"
  by (simp add: uint_word_ariths)

lemma linear_bound:
  assumes "in_dims d p" shows "0 \<le> linear d p" "linear d p < volume d"
proof -
  obtain dx dy dz x y z where dp: "d = (dx, dy, dz)" "p = (x, y, z)" by (cases d, cases p)
  from assms have b: "0 \<le> x" "x < dx" "0 \<le> y" "y < dy" "0 \<le> z" "z < dz" by (simp_all add: dp)
  then show "0 \<le> linear d p" by (simp add: dp)
  have "dy * z \<le> dy * (dz - 1)" using b by (intro mult_left_mono) simp_all
  then have "y + dy * z < dy * dz" using b by (simp add: algebra_simps)
  then have "dx * (y + dy * z) \<le> dx * (dy * dz - 1)" using b by (intro mult_left_mono) simp_all
  then show "linear d p < volume d" using b by (simp add: dp algebra_simps)
qed

lemma uint_volume:
  assumes "dims_ok d" shows "uint (longProduct d) = volume d"
proof -
  obtain dx dy dz where d: "d = (dx, dy, dz)" by (cases d)
  note b = dims_products [OF assms [unfolded d]]
  have "uint (size_t dx * size_t dy) = dx * dy" using b by (simp add: uint_mult_small uint_size_t)
  then show ?thesis using b by (simp add: d uint_mult_small uint_size_t mult.assoc)
qed

lemma total_longProduct: "total_indices (index_sequence_3D d) = longProduct d"
  by (cases d) simp

lemma uint_longIndex:
  assumes "dims_ok d" and "in_dims d p" shows "uint (longIndex p d) = linear d p"
proof -
  obtain dx dy dz x y z where dp: "d = (dx, dy, dz)" "p = (x, y, z)" by (cases d, cases p)
  note b = dims_products [OF assms(1) [unfolded dp]]
  from assms have c: "0 \<le> x" "x < dx" "0 \<le> y" "y < dy" "0 \<le> z" "z < dz" by (simp_all add: dp)
  have le: "dy * z \<le> dy * dz" using c by (intro mult_left_mono) simp_all
  have "dy * z < 2 ^ 64" using le b by linarith
  then have "uint (size_t dy * size_t z) = dy * z"
    using b c by (subst uint_mult_small) (simp_all add: uint_size_t)
  moreover have "y + dy * z < dy * dz"
  proof -
    have "dy * z \<le> dy * (dz - 1)" using c by (intro mult_left_mono) simp_all
    then show ?thesis using c by (simp add: algebra_simps)
  qed
  ultimately have inner: "uint (size_t y + size_t dy * size_t z) = y + dy * z" "y + dy * z < dy * dz"
    using b c by (simp_all add: uint_add_small uint_size_t)
  have "dx * (y + dy * z) \<le> dx * (dy * dz)" using b inner by (intro mult_left_mono) simp_all
  then have "dx * (y + dy * z) < 2 ^ 64" using b by linarith
  then have outer: "uint (size_t dx * (size_t y + size_t dy * size_t z)) = dx * (y + dy * z)"
    using b inner by (subst uint_mult_small) (simp_all add: uint_size_t)
  have "x + dx * (y + dy * z) < dx * (dy * dz)" using linear_bound(2) [OF assms(2)] by (simp add: dp mult.assoc)
  then show ?thesis using b c outer by (simp add: dp uint_add_small uint_size_t)
qed

lemma flatten_longIndex: "flatten3 (index_sequence_3D d) p = longIndex p d"
  by (cases d; cases p) simp

text \<open>Taking a linear index apart.\<close>

lemma linear_parts:
  assumes "in_dims (dx, dy, dz) (x, y, z)"
  shows "linear (dx, dy, dz) (x, y, z) mod dx = x" "linear (dx, dy, dz) (x, y, z) div dx = y + dy * z"
    "(y + dy * z) mod dy = y" "(y + dy * z) div dy = z" "linear (dx, dy, dz) (x, y, z) div (dx * dy) = z"
proof -
  from assms have b: "0 \<le> x" "x < dx" "0 \<le> y" "y < dy" "0 \<le> z" by simp_all
  show one: "linear (dx, dy, dz) (x, y, z) mod dx = x" "linear (dx, dy, dz) (x, y, z) div dx = y + dy * z"
    "(y + dy * z) mod dy = y" "(y + dy * z) div dy = z"
    using b by simp_all
  have "linear (dx, dy, dz) (x, y, z) div (dx * dy) = linear (dx, dy, dz) (x, y, z) div dx div dy"
    using b by (simp only: zdiv_zmult2_eq)
  then show "linear (dx, dy, dz) (x, y, z) div (dx * dy) = z" using one by simp
qed

lemma uint_div_mod: "uint (a div b :: u64) = uint a div uint b" "uint (a mod b :: u64) = uint a mod uint b"
  by (simp_all add: uint_div uint_mod)

lemma size_t_pos: "0 < x \<Longrightarrow> x < 2 ^ 64 \<Longrightarrow> size_t x \<noteq> 0"
  using uint_size_t [of x] by fastforce

lemma coordsOf_longIndex:
  assumes "dims_ok d" and "in_dims d p" and "uint i = linear d p"
  shows "coordsOf i d = Inr p" "reshape3 (index_sequence_3D d) i = Inr p"
proof -
  obtain dx dy dz x y z where dp: "d = (dx, dy, dz)" "p = (x, y, z)" by (cases d, cases p)
  note b = dims_products [OF assms(1) [unfolded dp]]
  from assms have c: "0 \<le> x" "x < dx" "0 \<le> y" "y < dy" "0 \<le> z" "z < dz" by (simp_all add: dp)
  from assms(1) have small: "dx < 2 ^ 31" "dy < 2 ^ 31" "dz < 2 ^ 31" by (simp_all add: dp dims_ok_def)
  note parts = linear_parts [OF assms(2) [unfolded dp]]
  have sz: "uint (size_t dx) = dx" "uint (size_t dy) = dy" "size_t dx \<noteq> 0" "size_t dy \<noteq> 0"
    using b by (simp_all add: uint_size_t size_t_pos)
  have i: "uint i = linear (dx, dy, dz) (x, y, z)" using assms(3) by (simp only: dp)
  have x: "uint (i mod size_t dx) = x" and yz: "uint (i div size_t dx) = y + dy * z"
    by (simp_all only: uint_div_mod i sz parts)
  have y: "uint (i div size_t dx mod size_t dy) = y" and z: "uint (i div size_t dx div size_t dy) = z"
    by (simp_all only: uint_div_mod(1) [of "i div size_t dx"] uint_div_mod(2) yz sz parts)
  show "coordsOf i d = Inr p"
    using sz c small by (simp add: dp to_int_small x y z)
  have prod: "uint (size_t dx * size_t dy) = dx * dy" using b sz by (simp add: uint_mult_small)
  then have nz: "size_t dx * size_t dy \<noteq> 0" using b by fastforce
  have z': "i div (size_t dx * size_t dy) = i div size_t dx div size_t dy"
    by (rule word_uint_eqI) (simp only: uint_div_mod(1) [of i] prod i parts z)
  let ?z = "i div size_t dx div size_t dy"
  let ?w = "i - ?z * size_t dx * size_t dy"
  have lin: "linear (dx, dy, dz) (x, y, z) = (x + dx * y) + z * dx * dy" by (simp add: algebra_simps)
  have pos: "0 \<le> x + dx * y" "0 \<le> z * dx * dy" "0 \<le> z * dx" using b c by simp_all
  have "linear (dx, dy, dz) (x, y, z) < 2 ^ 64" using i uint_bounded [of i] by simp
  then have bound: "z * dx * dy < 2 ^ 64" using lin pos by linarith
  have "z * dx \<le> z * dx * dy" using pos b by (simp add: mult_le_cancel_left1)
  then have zx: "uint (?z * size_t dx) = z * dx" using bound z sz by (subst uint_mult_small) simp_all
  have zxy: "uint (?z * size_t dx * size_t dy) = z * dx * dy" using bound sz by (subst uint_mult_small) (simp_all only: zx)
  have "uint (?z * size_t dx * size_t dy) \<le> uint i" unfolding zxy i lin using pos by simp
  then have "uint ?w = uint i - uint (?z * size_t dx * size_t dy)" by (rule iffD1 [OF uint_sub_lem])
  then have w: "uint ?w = x + dx * y" unfolding zxy i lin by simp
  have wx: "uint (?w mod size_t dx) = x" and wy: "uint (?w div size_t dx) = y"
    using c b by (simp_all only: uint_div_mod w sz) simp_all
  show "reshape3 (index_sequence_3D d) i = Inr p"
    using nz sz(3) c small by (simp add: dp z' Let_def to_int_small wx wy z)
qed

text \<open>The loops visit the locations in the order of their linear index.\<close>

lemma upto_nat: "[0..int n - 1] = map int [0..<n]"
  by (rule nth_equalityI) simp_all

lemma dims_nat:
  assumes "dims_ok d" obtains nx ny nz where "d = (int nx, int ny, int nz)" "0 < nx" "0 < ny" "0 < nz" "nat (volume d) = nz * (ny * nx)"
proof -
  obtain dx dy dz where d: "d = (dx, dy, dz)" by (cases d)
  note b = dims_products [OF assms [unfolded d]]
  show thesis
    by (rule that [of "nat dx" "nat dy" "nat dz"]) (use b in \<open>simp_all add: d nat_mult_distrib\<close>)
qed

definition coords :: "nat \<Rightarrow> nat \<Rightarrow> nat \<Rightarrow> ivec3" where
  "coords nx ny i = (int (i mod (ny * nx) mod nx), int (i mod (ny * nx) div nx), int (i div (ny * nx)))"

lemma for_each_eq:
  "for_each (0, 0, 0) (int nx, int ny, int nz) = map (coords nx ny) [0..<nz * (ny * nx)]"
proof -
  have "for_each (0, 0, 0) (int nx, int ny, int nz) =
      concat (map (\<lambda>z. concat (map (\<lambda>y. map (\<lambda>x. (int x, int y, int z)) [0..<nx]) [0..<ny])) [0..<nz])"
    by (simp add: upto_nat comp_def)
  also have "\<dots> = concat (map (\<lambda>z. map (\<lambda>i. (int (i mod nx), int (i div nx), int z)) [0..<ny * nx]) [0..<nz])"
    by (simp add: concat_rows)
  also have "\<dots> = map (coords nx ny) [0..<nz * (ny * nx)]"
    unfolding coords_def by (rule concat_rows)
  finally show ?thesis .
qed

lemma coords_linear:
  assumes "0 < nx" "0 < ny" "i < nz * (ny * nx)"
  shows "in_dims (int nx, int ny, int nz) (coords nx ny i)" "linear (int nx, int ny, int nz) (coords nx ny i) = int i"
proof -
  have "i mod (ny * nx) < ny * nx" using assms by simp
  then have "i mod (ny * nx) div nx < ny" by (simp add: less_mult_imp_div_less)
  moreover have "i div (ny * nx) < nz" using assms by (simp add: less_mult_imp_div_less)
  ultimately show "in_dims (int nx, int ny, int nz) (coords nx ny i)" using assms by (simp add: coords_def)
  have "i mod (ny * nx) mod nx + nx * (i mod (ny * nx) div nx) + ny * nx * (i div (ny * nx)) = i" by simp
  then have "int (i mod (ny * nx) mod nx + nx * (i mod (ny * nx) div nx) + ny * nx * (i div (ny * nx))) = int i" by (rule arg_cong)
  then show "linear (int nx, int ny, int nz) (coords nx ny i) = int i"
    unfolding coords_def by (simp only: linear.simps of_nat_add of_nat_mult) (simp only: distrib_left mult.assoc mult.left_commute add.assoc)
qed

lemma for_each_nth:
  assumes "dims_ok d"
  shows "length (for_each (0, 0, 0) d) = nat (volume d)"
    "i < nat (volume d) \<Longrightarrow> in_dims d (for_each (0, 0, 0) d ! i) \<and> linear d (for_each (0, 0, 0) d ! i) = int i"
proof -
  obtain nx ny nz where d: "d = (int nx, int ny, int nz)" "0 < nx" "0 < ny" "0 < nz" "nat (volume d) = nz * (ny * nx)"
    using assms by (rule dims_nat)
  show "length (for_each (0, 0, 0) d) = nat (volume d)" unfolding d(5) unfolding d(1) for_each_eq by simp
  assume i: "i < nat (volume d)"
  then have "i < nz * (ny * nx)" by (simp only: d(5))
  then show "in_dims d (for_each (0, 0, 0) d ! i) \<and> linear d (for_each (0, 0, 0) d ! i) = int i"
    unfolding d(1) for_each_eq using coords_linear [OF d(2,3)] by simp
qed

lemma linear_inject:
  assumes "in_dims d p" "in_dims d q" "linear d p = linear d q" shows "p = q"
proof -
  obtain dx dy dz x y z x' y' z' where dp: "d = (dx, dy, dz)" "p = (x, y, z)" "q = (x', y', z')" by (cases d, cases p, cases q)
  note p = linear_parts [OF assms(1) [unfolded dp]] and q = linear_parts [OF assms(2) [unfolded dp]]
  have "x = x'" using p(1) q(1) assms(3) unfolding dp by metis
  moreover have yz: "y + dy * z = y' + dy * z'" using p(2) q(2) assms(3) unfolding dp by metis
  then have "y = y'" "z = z'" using p(3,4) q(3,4) by metis+
  ultimately show ?thesis by (simp add: dp)
qed

lemma iterate_from:
  assumes d: "dims_ok d" and k: "k \<le> nat (volume d)"
  shows "iterate \<lparr>it_dims = index_sequence_3D d, current_index = of_nat k\<rparr> (of_nat (nat (volume d))) =
    map Inr (drop k (for_each (0, 0, 0) d))"
  using k
proof (induction "nat (volume d) - k" arbitrary: k)
  case 0
  then have "k = nat (volume d)" by simp
  then show ?case using for_each_nth(1) [OF d] by (simp add: iterate.simps)
next
  case (Suc m)
  have k: "k < nat (volume d)" using Suc by simp
  have "volume d < 2 ^ 64" using d by (auto simp: dims_ok_def)
  then have small: "nat (volume d) < 2 ^ 64" by (simp add: nat_less_iff)
  have un: "unat (of_nat n :: u64) = n" if "n < 2 ^ 64" for n
    using that by (simp add: unsigned_of_nat take_bit_nat_eq_self)
  have uk: "uint (of_nat k :: u64) = int k" using un [of k] k small by (simp add: uint_nat)
  have "unat (of_nat k :: u64) \<noteq> unat (of_nat (nat (volume d)) :: u64)"
    unfolding un [OF small] using un [of k] k small by simp
  then have uk': "(of_nat k :: u64) \<noteq> of_nat (nat (volume d))" by metis
  have step: "iterate \<lparr>it_dims = index_sequence_3D d, current_index = of_nat (Suc k)\<rparr> (of_nat (nat (volume d))) =
      map Inr (drop (Suc k) (for_each (0, 0, 0) d))"
    using Suc k by (intro Suc.hyps(1)) simp_all
  have "it_deref \<lparr>it_dims = index_sequence_3D d, current_index = of_nat k\<rparr> = Inr (for_each (0, 0, 0) d ! k)"
    using for_each_nth(2) [OF d k] coordsOf_longIndex(2) [OF d _ , of "for_each (0, 0, 0) d ! k" "of_nat k"] uk
    by (simp add: it_deref_def)
  moreover have "it_inc \<lparr>it_dims = index_sequence_3D d, current_index = of_nat k\<rparr> =
      \<lparr>it_dims = index_sequence_3D d, current_index = of_nat (Suc k)\<rparr>"
    by (simp add: it_inc_def)
  moreover have "drop k (for_each (0, 0, 0) d) = for_each (0, 0, 0) d ! k # drop (Suc k) (for_each (0, 0, 0) d)"
    using k for_each_nth(1) [OF d] by (simp add: Cons_nth_drop_Suc)
  ultimately show ?case
    using uk' step by (simp only: iterate.simps [of "\<lparr>it_dims = index_sequence_3D d, current_index = of_nat k\<rparr>"]
        index_iterator.select_convs if_False list.map)
qed

section \<open>Arrays\<close>

record 'v actual_array =
  dims :: ivec3
  array_value :: "'v list"
  valuesAreMine :: bool

text \<open>Without external memory the constructor allocates; what it finds there is \<open>garbage\<close>.\<close>

definition ActualArray3D :: "(ivec3 \<Rightarrow> string) \<Rightarrow> bool \<Rightarrow> 'v \<Rightarrow> ivec3 \<Rightarrow> 'v list option \<Rightarrow> 'v actual_array res" where
  "ActualArray3D show_dims memory_left garbage d externalMem = (case externalMem of
     Some v \<Rightarrow> Inr \<lparr>dims = d, array_value = v, valuesAreMine = False\<rparr>
   | None \<Rightarrow> if memory_left
       then Inr \<lparr>dims = d, array_value = replicate (unat (longProduct d)) garbage, valuesAreMine = True\<rparr>
       else Inl (Runtime_error (''could not allocate memory for Array3D of dimensions '' @ show_dims d @ '' (in Array3D::Array3D())'')))"

definition clamp_in :: "int \<Rightarrow> int \<Rightarrow> int" where
  "clamp_in n x = max 0 (min x (n - 1))"

fun clamp_location :: "ivec3 \<Rightarrow> ivec3 \<Rightarrow> ivec3" where
  "clamp_location (dx, dy, dz) (x, y, z) = (clamp_in dx x, clamp_in dy y, clamp_in dz z)"

definition aa_get :: "'v actual_array \<Rightarrow> ivec3 \<Rightarrow> 'v res" where
  "aa_get a p = (let i = unat (longIndex (clamp_location (dims a) p) (dims a)) in
     if i < length (array_value a) then Inr (array_value a ! i) else Inl Undefined_behaviour)"

definition aa_set :: "ivec3 \<Rightarrow> 'v \<Rightarrow> 'v actual_array \<Rightarrow> 'v actual_array res" where
  "aa_set p v a = (let i = unat (longIndex p (dims a)) in
     if i < length (array_value a) then Inr (a\<lparr>array_value := (array_value a)[i := v]\<rparr>) else Inl Undefined_behaviour)"

fun aa_sets :: "ivec3 list \<Rightarrow> 'v \<Rightarrow> 'v actual_array \<Rightarrow> 'v actual_array res" where
  "aa_sets [] v a = Inr a"
| "aa_sets (p # ps) v a = bind_res (aa_set p v a) (aa_sets ps v)"

definition aa_clear :: "'v \<Rightarrow> 'v actual_array \<Rightarrow> 'v actual_array res" where
  "aa_clear v a = aa_sets (for_each (0, 0, 0) (dims a)) v a"

definition aa_numElements :: "'v actual_array \<Rightarrow> u64" where
  "aa_numElements a = longProduct (dims a)"

text \<open>The arrays that are made of others.  Sums of coordinates are sums of \<open>int\<close>s.\<close>

datatype 'v array3d =
    Actual "'v actual_array"
  | IndexShifted "'v array3d" ivec3
  | Accessor "'v \<Rightarrow> 'v" "'v array3d"
  | Repeater "'v array3d" ivec3
  | SubBox "'v array3d" ivec3 ivec3
  | MultiSlice "'v array3d list"

definition int_add :: "int \<Rightarrow> int \<Rightarrow> int res" where
  "int_add a b = (if - (2 ^ 31) \<le> a + b \<and> a + b < 2 ^ 31 then Inr (a + b) else Inl Undefined_behaviour)"

definition int_mod :: "int \<Rightarrow> int \<Rightarrow> int res" where
  "int_mod a b = (if b = 0 then Inl Undefined_behaviour else Inr (a smod b))"

fun res3 :: "int res \<times> int res \<times> int res \<Rightarrow> ivec3 res" where
  "res3 (a, b, c) = bind_res a (\<lambda>x. bind_res b (\<lambda>y. bind_res c (\<lambda>z. Inr (x, y, z))))"

fun vec_add :: "ivec3 \<Rightarrow> ivec3 \<Rightarrow> ivec3 res" where
  "vec_add (x, y, z) (a, b, c) = res3 (int_add x a, int_add y b, int_add z c)"

fun vec_mod :: "ivec3 \<Rightarrow> ivec3 \<Rightarrow> ivec3 res" where
  "vec_mod (x, y, z) (a, b, c) = res3 (int_mod x a, int_mod y b, int_mod z c)"

fun box_dims :: "ivec3 \<Rightarrow> ivec3 \<Rightarrow> ivec3" where
  "box_dims (lx, ly, lz) (ux, uy, uz) = (ux - lx, uy - ly, uz - lz)"

text \<open>The functions of the classes over the functions \<open>size\<close> and \<open>get\<close> of the arrays they wrap, then the
  dispatch over the classes.\<close>

definition multi_slice_size :: "ivec3 res list \<Rightarrow> ivec3 res" where
  "multi_slice_size ns = (case ns of [] \<Rightarrow> Inl Undefined_behaviour
    | n # _ \<Rightarrow> bind_res n (\<lambda>(x, y, _). Inr (x, y, to_int (of_nat (length ns)))))"

fun arr_size :: "'v array3d \<Rightarrow> ivec3 res" where
  "arr_size (Actual a) = Inr (dims a)"
| "arr_size (IndexShifted a s) = arr_size a"
| "arr_size (Accessor f a) = arr_size a"
| "arr_size (Repeater a r) = Inr r"
| "arr_size (SubBox a lo hi) = Inr (box_dims lo hi)"
| "arr_size (MultiSlice ss) = multi_slice_size (map arr_size ss)"

definition shifted_get :: "ivec3 res \<Rightarrow> (ivec3 \<Rightarrow> 'v res) \<Rightarrow> ivec3 \<Rightarrow> ivec3 \<Rightarrow> 'v res" where
  "shifted_get extent get s p = bind_res extent (\<lambda>n. bind_res (vec_add p n) (\<lambda>q. bind_res (vec_add q s) (\<lambda>q.
     bind_res (vec_mod q n) get)))"

definition accessor_get :: "('v \<Rightarrow> 'v) \<Rightarrow> (ivec3 \<Rightarrow> 'v res) \<Rightarrow> ivec3 \<Rightarrow> 'v res" where
  "accessor_get f get p = bind_res (get p) (\<lambda>v. Inr (f v))"

text \<open>Every second repetition is mirrored.  The period is the size of the repeated array, not of the
  given one.\<close>

definition mirror :: "int \<Rightarrow> int \<Rightarrow> int res" where
  "mirror x r = bind_res (int_mod x r) (\<lambda>w. Inr (if (x sdiv r) smod 2 \<noteq> 0 then r - 1 - w else w))"

fun mirror_location :: "ivec3 \<Rightarrow> ivec3 \<Rightarrow> ivec3 res" where
  "mirror_location (x, y, z) (rx, ry, rz) = res3 (mirror x rx, mirror y ry, mirror z rz)"

definition repeater_get :: "(ivec3 \<Rightarrow> 'v res) \<Rightarrow> ivec3 \<Rightarrow> ivec3 \<Rightarrow> 'v res" where
  "repeater_get get r p = bind_res (mirror_location p r) get"

definition sub_box_get :: "(ivec3 \<Rightarrow> 'v res) \<Rightarrow> ivec3 \<Rightarrow> ivec3 \<Rightarrow> 'v res" where
  "sub_box_get get lo p = bind_res (vec_add p lo) get"

fun multi_slice_get :: "(ivec3 \<Rightarrow> 'v res) list \<Rightarrow> ivec3 \<Rightarrow> 'v res" where
  "multi_slice_get gets (x, y, z) = (let i = max 0 (min z (to_int (of_nat (length gets)) - 1)) in
     if nat i < length gets then (gets ! nat i) (x, y, 0) else Inl Undefined_behaviour)"

fun arr_get :: "'v array3d \<Rightarrow> ivec3 \<Rightarrow> 'v res" where
  "arr_get (Actual a) p = aa_get a p"
| "arr_get (IndexShifted a s) p = shifted_get (arr_size a) (arr_get a) s p"
| "arr_get (Accessor f a) p = accessor_get f (arr_get a) p"
| "arr_get (Repeater a r) p = repeater_get (arr_get a) r p"
| "arr_get (SubBox a lo hi) p = sub_box_get (arr_get a) lo p"
| "arr_get (MultiSlice ss) p = multi_slice_get (map arr_get ss) p"

lemmas class_functions = multi_slice_size_def shifted_get_def accessor_get_def repeater_get_def sub_box_get_def

definition multi_slice_numElements :: "u64 res list \<Rightarrow> u64 res" where
  "multi_slice_numElements ns = (case ns of [] \<Rightarrow> Inl Undefined_behaviour
    | n # _ \<Rightarrow> bind_res n (\<lambda>k. Inr (k * of_nat (length ns))))"

fun arr_numElements :: "'v array3d \<Rightarrow> u64 res" where
  "arr_numElements (Actual a) = Inr (aa_numElements a)"
| "arr_numElements (IndexShifted a s) = arr_numElements a"
| "arr_numElements (Accessor f a) = arr_numElements a"
| "arr_numElements (Repeater a r) = Inr (longProduct r)"
| "arr_numElements (SubBox a lo hi) = Inr (longProduct (box_dims lo hi))"
| "arr_numElements (MultiSlice ss) = multi_slice_numElements (map arr_numElements ss)"

text \<open>Only an actual array can be written; accessors and repeaters have no such member (\<open>None\<close>).\<close>

definition no_set :: "string \<Rightarrow> 'a res" where
  "no_set name = Inl (Runtime_error (''cannot '' @ [CHR 0x27] @ ''set'' @ [CHR 0x27] @ '' in a '' @ name))"

fun arr_set :: "ivec3 \<Rightarrow> 'v \<Rightarrow> 'v array3d \<Rightarrow> 'v array3d res option" where
  "arr_set p v (Actual a) = Some (bind_res (aa_set p v a) (\<lambda>a. Inr (Actual a)))"
| "arr_set p v (IndexShifted a s) = Some (no_set ''IndexShiftArray3D'')"
| "arr_set p v (SubBox a lo hi) = Some (no_set ''SubBoxArray3D'')"
| "arr_set p v (MultiSlice ss) = Some (no_set ''MultiSliceArray3D'')"
| "arr_set p v (Accessor f a) = None"
| "arr_set p v (Repeater a r) = None"

text \<open>The range of the values, from the first location on.\<close>

fun extend_all :: "(ivec3 \<Rightarrow> 'v::linorder res) \<Rightarrow> ivec3 list \<Rightarrow> 'v \<times> 'v \<Rightarrow> ('v \<times> 'v) res" where
  "extend_all g [] r = Inr r"
| "extend_all g (p # ps) r = bind_res (g p) (\<lambda>v. extend_all g ps (min (fst r) v, max (snd r) v))"

definition getValueRange_in :: "(ivec3 \<Rightarrow> 'v::linorder res) \<Rightarrow> ivec3 \<Rightarrow> ivec3 \<Rightarrow> ('v \<times> 'v) res" where
  "getValueRange_in g b e = bind_res (g b) (\<lambda>v. extend_all g (for_each b e) (v, v))"

definition getValueRange :: "'v::linorder array3d \<Rightarrow> ('v \<times> 'v) res" where
  "getValueRange a = bind_res (arr_size a) (getValueRange_in (arr_get a) (0, 0, 0))"

section \<open>What an array holds\<close>

fun arr_dims :: "'v array3d \<Rightarrow> ivec3" where
  "arr_dims (Actual a) = dims a"
| "arr_dims (IndexShifted a s) = arr_dims a"
| "arr_dims (Accessor f a) = arr_dims a"
| "arr_dims (Repeater a r) = r"
| "arr_dims (SubBox a lo hi) = box_dims lo hi"
| "arr_dims (MultiSlice ss) = (case ss of [] \<Rightarrow> (0, 0, 0) | s # _ \<Rightarrow> (case arr_dims s of (x, y, _) \<Rightarrow> (x, y, int (length ss))))"

fun shift_mod :: "ivec3 \<Rightarrow> ivec3 \<Rightarrow> ivec3 \<Rightarrow> ivec3" where
  "shift_mod (dx, dy, dz) (sx, sy, sz) (x, y, z) = ((x + sx) mod dx, (y + sy) mod dy, (z + sz) mod dz)"

fun plus3 :: "ivec3 \<Rightarrow> ivec3 \<Rightarrow> ivec3" where
  "plus3 (x, y, z) (a, b, c) = (x + a, y + b, z + c)"

text \<open>A repeated coordinate runs up to the end of the repeated size, back to 0, up again and so on.\<close>

definition fold_back :: "int \<Rightarrow> int \<Rightarrow> int" where
  "fold_back r x = (let k = x mod (2 * r) in if k < r then k else 2 * r - 1 - k)"

fun fold_back3 :: "ivec3 \<Rightarrow> ivec3 \<Rightarrow> ivec3" where
  "fold_back3 (rx, ry, rz) (x, y, z) = (fold_back rx x, fold_back ry y, fold_back rz z)"

fun arr_val :: "'v array3d \<Rightarrow> ivec3 \<Rightarrow> 'v" where
  "arr_val (Actual a) p = array_value a ! nat (linear (dims a) (clamp_location (dims a) p))"
| "arr_val (IndexShifted a s) p = arr_val a (shift_mod (arr_dims a) s p)"
| "arr_val (Accessor f a) p = f (arr_val a p)"
| "arr_val (Repeater a r) p = arr_val a (fold_back3 r p)"
| "arr_val (SubBox a lo hi) p = arr_val a (plus3 p lo)"
| "arr_val (MultiSlice ss) p = (case p of (x, y, z) \<Rightarrow>
     (map (\<lambda>s. arr_val s (x, y, 0)) ss) ! nat (clamp_in (int (length ss)) z))"

text \<open>When an array can be read at the locations from 0 up to \<open>n\<close>, which may lie beyond its own size: the
  sums of a shift and of a box stay in the range of \<open>int\<close>, as the constructors assert boxes are inside of
  their array, and slices have one size.  A repetition may have any size, smaller or larger than what it repeats.\<close>

definition shift_ok :: "int \<Rightarrow> int \<Rightarrow> int \<Rightarrow> bool" where
  "shift_ok n d s \<longleftrightarrow> - d \<le> s \<and> n + d \<le> 2 ^ 31 \<and> n + d + s \<le> 2 ^ 31"

fun shifts_ok :: "ivec3 \<Rightarrow> ivec3 \<Rightarrow> ivec3 \<Rightarrow> bool" where
  "shifts_ok (nx, ny, nz) (dx, dy, dz) (sx, sy, sz) \<longleftrightarrow> shift_ok nx dx sx \<and> shift_ok ny dy sy \<and> shift_ok nz dz sz"

fun le3 :: "ivec3 \<Rightarrow> ivec3 \<Rightarrow> bool" where
  "le3 (x, y, z) (a, b, c) \<longleftrightarrow> x \<le> a \<and> y \<le> b \<and> z \<le> c"

definition aa_ok :: "'v actual_array \<Rightarrow> bool" where
  "aa_ok a \<longleftrightarrow> dims_ok (dims a) \<and> length (array_value a) = nat (volume (dims a))"

fun slice_ok :: "ivec3 \<Rightarrow> ivec3 \<Rightarrow> bool" where
  "slice_ok (dx, dy, dz) (x, y, z) \<longleftrightarrow> x = dx \<and> y = dy \<and> 0 < z"

fun one_slice :: "ivec3 \<Rightarrow> ivec3" where
  "one_slice (x, y, z) = (x, y, 1)"

fun arr_ok :: "ivec3 \<Rightarrow> 'v array3d \<Rightarrow> bool" where
  "arr_ok n (Actual a) \<longleftrightarrow> aa_ok a"
| "arr_ok n (IndexShifted a s) \<longleftrightarrow> shifts_ok n (arr_dims a) s \<and> arr_ok (arr_dims a) a"
| "arr_ok n (Accessor f a) \<longleftrightarrow> arr_ok n a"
| "arr_ok n (Repeater a r) \<longleftrightarrow> dims_ok r \<and> arr_ok r a"
| "arr_ok n (SubBox a lo hi) \<longleftrightarrow> le3 (0, 0, 0) lo \<and> le3 hi (arr_dims a) \<and> dims_ok (box_dims lo hi) \<and>
     le3 (plus3 n lo) (2 ^ 31, 2 ^ 31, 2 ^ 31) \<and> arr_ok (plus3 n lo) a"
| "arr_ok n (MultiSlice ss) \<longleftrightarrow> dims_ok (arr_dims (MultiSlice ss)) \<and>
     list_all (\<lambda>s. slice_ok (arr_dims (MultiSlice ss)) (arr_dims s) \<and> arr_ok (one_slice n) s) ss"

lemma arr_ok_mono: "arr_ok n a \<Longrightarrow> le3 m n \<Longrightarrow> arr_ok m a"
proof (induction a arbitrary: m n)
  case (IndexShifted a s)
  then show ?case by (cases m; cases n; cases "arr_dims a"; cases s) (auto simp: shift_ok_def)
next
  case (SubBox a lo hi)
  have "le3 (plus3 m lo) (plus3 n lo)" using SubBox.prems(2) by (cases m; cases n; cases lo) auto
  with SubBox.IH [of "plus3 n lo" "plus3 m lo"] SubBox.prems show ?case
    by (cases m; cases n; cases lo) auto
next
  case (MultiSlice ss)
  have "le3 (one_slice m) (one_slice n)" using MultiSlice.prems(2) by (cases m; cases n) auto
  then have "arr_ok (one_slice m) x" if "x \<in> set ss" "arr_ok (one_slice n) x" for x
    using MultiSlice.IH that by blast
  with MultiSlice.prems(1) show ?case by (simp only: arr_ok.simps list_all_iff) blast
qed auto

lemma dims_ok_small: "dims_ok (dx, dy, dz) \<Longrightarrow> 0 < dx \<and> dx < 2 ^ 31 \<and> 0 < dy \<and> dy < 2 ^ 31 \<and> 0 < dz \<and> dz < 2 ^ 31"
  by (simp add: dims_ok_def)

lemma unat_longIndex:
  assumes "dims_ok d" "in_dims d p" shows "unat (longIndex p d) = nat (linear d p)" "nat (linear d p) < nat (volume d)"
proof -
  show "unat (longIndex p d) = nat (linear d p)"
    using uint_longIndex [OF assms] by (simp add: unat_eq_nat_uint)
  show "nat (linear d p) < nat (volume d)" using linear_bound [OF assms(2)] by simp
qed

lemma clamp_inside: "in_dims d p \<Longrightarrow> clamp_location d p = p"
  by (cases d; cases p) (simp add: clamp_in_def)

lemma clamp_bounds: "dims_ok d \<Longrightarrow> in_dims d (clamp_location d p)"
  by (cases d; cases p) (auto simp: clamp_in_def dims_ok_def)

lemma aa_get_ok: "aa_ok a \<Longrightarrow> aa_get a p = Inr (array_value a ! nat (linear (dims a) (clamp_location (dims a) p)))"
  using unat_longIndex [OF _ clamp_bounds] by (simp add: aa_ok_def aa_get_def Let_def)

lemma aa_set_ok:
  assumes "aa_ok a" "in_dims (dims a) p"
  shows "aa_set p v a = Inr (a\<lparr>array_value := (array_value a)[nat (linear (dims a) p) := v]\<rparr>)"
  using unat_longIndex [of "dims a" p] assms by (simp add: aa_ok_def aa_set_def Let_def)

lemma shift_one:
  assumes "0 \<le> x" "x < n" "0 < d" "shift_ok n d s"
  shows "int_add x d = Inr (x + d)" "int_add (x + d) s = Inr (x + d + s)" "int_mod (x + d + s) d = Inr ((x + s) mod d)"
proof -
  show "int_add x d = Inr (x + d)" "int_add (x + d) s = Inr (x + d + s)"
    using assms by (simp_all add: int_add_def shift_ok_def)
  have "0 \<le> x + d + s" using assms by (simp add: shift_ok_def)
  then have "(x + d + s) smod d = (x + d + s) mod d" using \<open>0 < d\<close>
    by (cases "x + d + s = 0") (simp_all add: signed_modulo_int_def signed_divide_int_def minus_div_mult_eq_mod [symmetric])
  also have "\<dots> = (x + s) mod d" by (metis add.assoc add.commute mod_add_self1)
  finally show "int_mod (x + d + s) d = Inr ((x + s) mod d)" using \<open>0 < d\<close> by (simp add: int_mod_def)
qed

lemma signed_nonneg: "0 \<le> x \<Longrightarrow> 0 < r \<Longrightarrow> x smod r = x mod r \<and> x sdiv r = x div (r :: int)"
  by (cases "x = 0") (simp_all add: signed_modulo_int_def signed_divide_int_def minus_div_mult_eq_mod [symmetric])

text \<open>What the code computes is the folded coordinate.\<close>

lemma fold_back_cases:
  assumes "0 < r"
  shows "fold_back r x = (if (x div r) mod 2 = 0 then x mod r else r - 1 - x mod r)"
    "0 \<le> fold_back r x" "fold_back r x < r"
proof -
  have k: "x mod (2 * r) = r * (x div r mod 2) + x mod r"
    using zmod_zmult2_eq [of 2 x r] by (simp add: mult.commute)
  have m: "0 \<le> x mod r" "x mod r < r" using assms by simp_all
  show eq: "fold_back r x = (if (x div r) mod 2 = 0 then x mod r else r - 1 - x mod r)"
    using m by (cases "x div r mod 2 = 0"; simp add: fold_back_def Let_def k mod_2_eq_odd)
  show "0 \<le> fold_back r x" "fold_back r x < r" unfolding eq using m by simp_all
qed

lemma mirror_fold_back:
  assumes "0 \<le> x" and "0 < r"
  shows "mirror x r = Inr (fold_back r x)"
proof -
  have "x smod r = x mod r" "x sdiv r = x div r" "(x div r) smod 2 = x div r mod 2"
    using signed_nonneg [OF assms] signed_nonneg [of "x div r" 2] assms by (simp_all add: pos_imp_zdiv_nonneg_iff)
  then show ?thesis
    using assms(2) by (simp add: mirror_def int_mod_def fold_back_cases(1) [OF assms(2)])
qed

lemma fold_back_inside: "0 \<le> x \<Longrightarrow> x < r \<Longrightarrow> fold_back r x = x"
  by (simp add: fold_back_def)

lemma to_int_length: "n < 2 ^ 31 \<Longrightarrow> to_int (of_nat n) = int n"
proof -
  assume "n < 2 ^ 31"
  then have "n < 2 ^ 64" by simp
  then have "uint (of_nat n :: u64) = int n" by (simp add: uint_nat unsigned_of_nat take_bit_nat_eq_self)
  with \<open>n < 2 ^ 31\<close> show ?thesis by (simp add: to_int_small)
qed

lemma arr_size_ok: "arr_ok n a \<Longrightarrow> arr_size a = Inr (arr_dims a)"
proof (induction a arbitrary: n)
  case (MultiSlice ss)
  then show ?case
  proof (cases ss)
    case Nil
    then show ?thesis using MultiSlice.prems by (simp add: dims_ok_def)
  next
    case (Cons t ts)
    obtain x y z where t: "arr_dims t = (x, y, z)" by (cases "arr_dims t")
    have "dims_ok (x, y, int (length ss))" using MultiSlice.prems by (simp add: Cons t)
    from dims_ok_small [OF this] have "int (length ss) < int (2 ^ 31)" by simp
    then have "length ss < 2 ^ 31" by (simp only: of_nat_less_iff)
    then have "to_int (of_nat (length ss)) = int (length ss)" by (rule to_int_length)
    then show ?thesis using MultiSlice.IH [of t "one_slice n"] MultiSlice.prems t by (simp add: Cons class_functions)
  qed
next
  case (IndexShifted a s)
  then show ?case using IndexShifted.IH [of "arr_dims a"] by simp
qed simp_all

lemma arr_dims_ok: "arr_ok n a \<Longrightarrow> dims_ok (arr_dims a)"
proof (induction a arbitrary: n)
  case (IndexShifted a s)
  then show ?case using IndexShifted.IH [of "arr_dims a"] by simp
next
  case (Accessor f a)
  then show ?case using Accessor.IH [of n] by simp
qed (simp_all add: aa_ok_def)

lemma vec_add_ok: "int_add x a = Inr u \<Longrightarrow> int_add y b = Inr v \<Longrightarrow> int_add z c = Inr w \<Longrightarrow> vec_add (x, y, z) (a, b, c) = Inr (u, v, w)"
  by simp

lemma arr_get_ok: "arr_ok n a \<Longrightarrow> in_dims n p \<Longrightarrow> arr_get a p = Inr (arr_val a p)"
proof (induction a arbitrary: n p)
  case (Actual a)
  then show ?case by (simp add: aa_get_ok)
next
  case (IndexShifted a s)
  obtain x y z where p: "p = (x, y, z)" by (cases p)
  obtain nx ny nz where n: "n = (nx, ny, nz)" by (cases n)
  obtain dx dy dz where d: "arr_dims a = (dx, dy, dz)" by (cases "arr_dims a")
  obtain sx sy sz where s: "s = (sx, sy, sz)" by (cases s)
  have b: "0 \<le> x" "x < nx" "0 \<le> y" "y < ny" "0 \<le> z" "z < nz" using IndexShifted.prems by (simp_all add: p n)
  have so: "shift_ok nx dx sx" "shift_ok ny dy sy" "shift_ok nz dz sz" and ok: "arr_ok (arr_dims a) a"
    using IndexShifted.prems by (simp_all add: n d s)
  have pos: "0 < dx" "0 < dy" "0 < dz" using arr_dims_ok [OF ok] dims_ok_small by (auto simp: d)
  note one = shift_one [OF b(1,2) pos(1) so(1)] shift_one [OF b(3,4) pos(2) so(2)] shift_one [OF b(5,6) pos(3) so(3)]
  have "in_dims (arr_dims a) (shift_mod (arr_dims a) s p)" using pos by (simp add: p d s)
  then have "arr_get a (shift_mod (arr_dims a) s p) = Inr (arr_val a (shift_mod (arr_dims a) s p))"
    using IndexShifted.IH [OF ok] by simp
  then show ?case using arr_size_ok [OF ok] one by (simp add: p d s class_functions)
next
  case (Repeater a r)
  obtain x y z where p: "p = (x, y, z)" by (cases p)
  obtain nx ny nz where n: "n = (nx, ny, nz)" by (cases n)
  obtain rx ry rz where r: "r = (rx, ry, rz)" by (cases r)
  have pos: "0 < rx" "0 < ry" "0 < rz" using Repeater.prems dims_ok_small by (auto simp: r)
  have b: "0 \<le> x" "0 \<le> y" "0 \<le> z" using Repeater.prems by (simp_all add: p n)
  note one = mirror_fold_back [OF b(1) pos(1)] mirror_fold_back [OF b(2) pos(2)] mirror_fold_back [OF b(3) pos(3)]
    fold_back_cases(2,3) [OF pos(1)] fold_back_cases(2,3) [OF pos(2)] fold_back_cases(2,3) [OF pos(3)]
  have "in_dims r (fold_back3 r p)" using one by (simp add: p r)
  then have "arr_get a (fold_back3 r p) = Inr (arr_val a (fold_back3 r p))"
    using Repeater.IH [of r "fold_back3 r p"] Repeater.prems(1) by simp
  with one show ?case by (simp add: p r class_functions)
next
  case (SubBox a lo hi)
  obtain x y z where p: "p = (x, y, z)" by (cases p)
  obtain nx ny nz where n: "n = (nx, ny, nz)" by (cases n)
  obtain lx ly lz where lo: "lo = (lx, ly, lz)" by (cases lo)
  have b: "0 \<le> lx" "0 \<le> ly" "0 \<le> lz" "nx + lx \<le> 2 ^ 31" "ny + ly \<le> 2 ^ 31" "nz + lz \<le> 2 ^ 31"
    using SubBox.prems by (simp_all add: lo n)
  have c: "0 \<le> x" "x < nx" "0 \<le> y" "y < ny" "0 \<le> z" "z < nz" using SubBox.prems by (simp_all add: p n)
  have "vec_add p lo = Inr (plus3 p lo)" using b c by (simp add: p lo int_add_def)
  moreover have "in_dims (plus3 n lo) (plus3 p lo)" using b c by (simp add: p lo n)
  ultimately show ?case using SubBox.IH [of "plus3 n lo" "plus3 p lo"] SubBox.prems(1) by (simp add: class_functions)
next
  case (MultiSlice ss)
  obtain x y z where p: "p = (x, y, z)" by (cases p)
  obtain nx ny nz where n: "n = (nx, ny, nz)" by (cases n)
  obtain t ts where ss: "ss = t # ts" using MultiSlice.prems by (cases ss) (simp_all add: dims_ok_def)
  obtain dx dy dz where t: "arr_dims t = (dx, dy, dz)" by (cases "arr_dims t")
  have dims: "arr_dims (MultiSlice ss) = (dx, dy, int (length ss))" by (simp add: ss t)
  then have len: "length ss < 2 ^ 31" using MultiSlice.prems(1) dims_ok_small by (metis arr_ok.simps(6) of_nat_less_iff of_nat_numeral of_nat_power)
  have b: "0 \<le> x" "x < nx" "0 \<le> y" "y < ny" using MultiSlice.prems(2) by (simp_all add: p n)
  let ?i = "clamp_in (int (length ss)) z"
  have i: "max 0 (min z (to_int (of_nat (length ss)) - 1)) = ?i" using len by (simp add: to_int_length clamp_in_def)
  have z: "nat ?i < length ss" using ss by (simp add: clamp_in_def)
  then have mem: "ss ! nat ?i \<in> set ss" by simp
  have "in_dims (one_slice n) (x, y, 0)" using b by (simp add: n)
  moreover have "arr_ok (one_slice n) (ss ! nat ?i)"
    using MultiSlice.prems(1) mem unfolding arr_ok.simps by (simp add: list_all_iff)
  ultimately have "arr_get (ss ! nat ?i) (x, y, 0) = Inr (arr_val (ss ! nat ?i) (x, y, 0))"
    using MultiSlice.IH [OF mem] by blast
  then show ?case using z by (simp only: arr_get.simps multi_slice_get.simps length_map arr_val.simps p prod.case Let_def i if_True nth_map)
qed (simp_all add: class_functions)

text \<open>Setting and clearing an actual array.\<close>

lemma aa_set_keeps: "aa_ok a \<Longrightarrow> aa_set p v a = Inr a' \<Longrightarrow> aa_ok a' \<and> dims a' = dims a"
  by (auto simp: aa_set_def aa_ok_def Let_def split: if_splits)

lemma aa_val_set:
  assumes "aa_ok a" "in_dims (dims a) p" "in_dims (dims a) q" "aa_set p v a = Inr a'"
  shows "arr_val (Actual a') q = (if q = p then v else arr_val (Actual a) q)"
proof -
  have "a' = a\<lparr>array_value := (array_value a)[nat (linear (dims a) p) := v]\<rparr>"
    using aa_set_ok [OF assms(1,2), of v] assms(4) by simp
  moreover have "nat (linear (dims a) p) < length (array_value a)"
    using unat_longIndex(2) [OF _ assms(2)] assms(1) by (simp add: aa_ok_def)
  moreover have "nat (linear (dims a) p) = nat (linear (dims a) q) \<longleftrightarrow> p = q"
    using linear_bound(1) [OF assms(2)] linear_bound(1) [OF assms(3)] linear_inject [OF assms(2,3)] by auto
  ultimately show ?thesis using clamp_inside [OF assms(3)] by auto
qed

lemma aa_sets_ok:
  "aa_ok a \<Longrightarrow> \<forall>p\<in>set ps. in_dims (dims a) p \<Longrightarrow>
   \<exists>a'. aa_sets ps v a = Inr a' \<and> aa_ok a' \<and> dims a' = dims a \<and>
     (\<forall>q. in_dims (dims a) q \<longrightarrow> arr_val (Actual a') q = (if q \<in> set ps then v else arr_val (Actual a) q))"
proof (induction ps arbitrary: a)
  case Nil
  then show ?case by simp
next
  case (Cons p ps)
  obtain a1 where a1: "aa_set p v a = Inr a1" using aa_set_ok Cons.prems by fastforce
  note keeps = aa_set_keeps [OF Cons.prems(1) a1]
  obtain a' where a': "aa_sets ps v a1 = Inr a'" "aa_ok a'" "dims a' = dims a"
    "\<And>q. in_dims (dims a) q \<Longrightarrow> arr_val (Actual a') q = (if q \<in> set ps then v else arr_val (Actual a1) q)"
    using Cons.IH [of a1] Cons.prems(2) keeps by auto
  have "arr_val (Actual a1) q = (if q = p then v else arr_val (Actual a) q)" if "in_dims (dims a) q" for q
    using aa_val_set [OF Cons.prems(1) _ that a1] Cons.prems(2) by simp
  with a' a1 show ?case by (intro exI [of _ a']) (simp del: arr_val.simps)
qed

lemma in_for_each: "p \<in> set (for_each (0, 0, 0) d) \<longleftrightarrow> in_dims d p"
  by (cases d; cases p) (auto simp: image_iff)

section \<open>Sources of values\<close>

text \<open>What the loops over an array rely on: a size, and a value at every location inside of it.\<close>

locale value_source =
  fixes ok :: "'a \<Rightarrow> bool" and extent :: "'a \<Rightarrow> ivec3" and fetch_value :: "'a \<Rightarrow> ivec3 \<Rightarrow> 'v::linorder res"
    and held :: "'a \<Rightarrow> ivec3 \<Rightarrow> 'v"
  assumes extent_ok: "ok a \<Longrightarrow> dims_ok (extent a)"
    and fetch_ok: "ok a \<Longrightarrow> in_dims (extent a) p \<Longrightarrow> fetch_value a p = Inr (held a p)"
begin

lemma extend_all_ok:
  "ok a \<Longrightarrow> \<forall>p\<in>set ps. in_dims (extent a) p \<Longrightarrow>
   extend_all (fetch_value a) ps (lo, hi) = Inr (Min (insert lo (held a ` set ps)), Max (insert hi (held a ` set ps)))"
proof (induction ps arbitrary: lo hi)
  case Nil
  then show ?case by simp
next
  case (Cons p ps)
  have "insert lo (held a ` set (p # ps)) = insert lo (insert (held a p) (held a ` set ps))"
    "insert hi (held a ` set (p # ps)) = insert hi (insert (held a p) (held a ` set ps))" by auto
  moreover have "Min (insert (min lo v) A) = Min (insert lo (insert v A))" "Max (insert (max hi v) A) = Max (insert hi (insert v A))"
    if "finite A" for v and A :: "'v set"
    using that by (cases "A = {}"; simp add: min.assoc max.assoc)+
  ultimately show ?case using Cons by (simp add: fetch_ok)
qed

lemma value_range_ok:
  assumes "ok a"
  shows "getValueRange_in (fetch_value a) (0, 0, 0) (extent a) =
    Inr (Min (held a ` {p. in_dims (extent a) p}), Max (held a ` {p. in_dims (extent a) p}))"
proof -
  have first: "in_dims (extent a) (0, 0, 0)"
    using extent_ok [OF assms] by (cases "extent a") (simp add: dims_ok_def)
  have all: "set (for_each (0, 0, 0) (extent a)) = {p. in_dims (extent a) p}" by (auto simp: in_for_each)
  have "insert (held a (0, 0, 0)) (held a ` {p. in_dims (extent a) p}) = held a ` {p. in_dims (extent a) p}"
    using first by auto
  then show ?thesis
    using fetch_ok [OF assms first] extend_all_ok [OF assms, of "for_each (0, 0, 0) (extent a)"] all
    by (simp add: getValueRange_in_def)
qed

end

interpretation arr: value_source "\<lambda>a. arr_ok (arr_dims a) a" arr_dims arr_get arr_val
  by unfold_locales (simp_all add: arr_dims_ok arr_get_ok)

section \<open>Properties\<close>

lemma get_value_range_ok:
  assumes "arr_ok (arr_dims a) a"
  shows "getValueRange a = Inr (Min (arr_val a ` {p. in_dims (arr_dims a) p}), Max (arr_val a ` {p. in_dims (arr_dims a) p}))"
  using arr.value_range_ok [OF assms] arr_size_ok [OF assms] by (simp add: getValueRange_def)

lemma clear_sets:
  assumes "aa_ok a"
  shows "\<exists>a'. aa_clear v a = Inr a' \<and> aa_ok a' \<and> dims a' = dims a \<and>
    (\<forall>q. in_dims (dims a) q \<longrightarrow> arr_val (Actual a') q = v)"
proof -
  have "\<forall>p\<in>set (for_each (0, 0, 0) (dims a)). in_dims (dims a) p" using in_for_each by blast
  from aa_sets_ok [OF assms this, of v] show ?thesis by (auto simp only: aa_clear_def in_for_each if_True)
qed

lemma of_nat_uint: "i < 2 ^ 64 \<Longrightarrow> uint (of_nat i :: u64) = int i"
  by (simp add: uint_nat unsigned_of_nat take_bit_nat_eq_self)

text \<open>C32 The three ways to enumerate the locations of a box of dimensions that fit agree: the nested
  loops of \<open>for_each\<close> visit as many locations as \<open>longProduct\<close> and \<open>total_indices\<close> say, the location visited
  as number \<open>i\<close> is inside and has the linear index \<open>i\<close>, both ways to take \<open>i\<close> apart (\<open>coordsOf\<close> and \<open>reshape3\<close>)
  give that location back, and a loop over the index sequence ends and visits the same
  locations in the same order.\<close>
theorem index_spaces_agree:
  assumes "dims_ok d"
  shows "unat (longProduct d) = length (for_each (0, 0, 0) d) \<and>
    total_indices (index_sequence_3D d) = longProduct d \<and>
    (\<forall>i < length (for_each (0, 0, 0) d). in_dims d (for_each (0, 0, 0) d ! i) \<and>
       unat (longIndex (for_each (0, 0, 0) d ! i) d) = i \<and>
       unat (flatten3 (index_sequence_3D d) (for_each (0, 0, 0) d ! i)) = i \<and>
       coordsOf (of_nat i) d = Inr (for_each (0, 0, 0) d ! i) \<and>
       reshape3 (index_sequence_3D d) (of_nat i) = Inr (for_each (0, 0, 0) d ! i)) \<and>
    iterate (seq_begin (index_sequence_3D d)) (current_index (seq_end (index_sequence_3D d))) = map Inr (for_each (0, 0, 0) d)"
proof -
  have len: "length (for_each (0, 0, 0) d) = nat (volume d)" by (rule for_each_nth(1) [OF assms])
  have vol: "0 \<le> volume d" "volume d < 2 ^ 64" using assms by (auto simp: dims_ok_def)
  have prod: "longProduct d = of_nat (nat (volume d))"
    using uint_volume [OF assms] vol by (intro word_uint_eqI) (simp add: of_nat_uint nat_less_iff uint_word_of_int)
  have each: "in_dims d (for_each (0, 0, 0) d ! i) \<and> unat (longIndex (for_each (0, 0, 0) d ! i) d) = i \<and>
      coordsOf (of_nat i) d = Inr (for_each (0, 0, 0) d ! i) \<and>
      reshape3 (index_sequence_3D d) (of_nat i) = Inr (for_each (0, 0, 0) d ! i)" if i: "i < nat (volume d)" for i
  proof -
    have p: "in_dims d (for_each (0, 0, 0) d ! i)" "linear d (for_each (0, 0, 0) d ! i) = int i"
      using for_each_nth(2) [OF assms i] by simp_all
    have "uint (of_nat i :: u64) = linear d (for_each (0, 0, 0) d ! i)" using i vol p by (simp add: of_nat_uint)
    from coordsOf_longIndex [OF assms p(1) this] unat_longIndex(1) [OF assms p(1)] p show ?thesis by simp
  qed
  have "iterate (seq_begin (index_sequence_3D d)) (of_nat (nat (volume d))) = map Inr (for_each (0, 0, 0) d)"
    using iterate_from [OF assms, of 0] by (simp add: seq_begin_def)
  moreover have "current_index (seq_end (index_sequence_3D d)) = of_nat (nat (volume d))"
    using prod total_longProduct [of d] by (simp only: seq_end_def index_iterator.select_convs)
  moreover have "unat (longProduct d) = nat (volume d)" using uint_volume [OF assms] by (simp only: unat_eq_nat_uint)
  ultimately show ?thesis
    unfolding len flatten_longIndex total_longProduct using each by (intro conjI allI impI) (simp_all only: simp_thms)
qed

lemma index_spaces_agree_witness:
  "iterate (seq_begin (index_sequence_3D (2, 1, 2))) (current_index (seq_end (index_sequence_3D (2, 1, 2)))) =
   map Inr [(0, 0, 0), (1, 0, 0), (0, 0, 1), (1, 0, 1)] \<and> coordsOf (of_nat 3) (2, 1, 2) = Inr (1, 0, 1)"
proof -
  have "for_each (0, 0, 0) (2, 1, 2) = [(0, 0, 0), (1, 0, 0), (0, 0, 1), (1, 0, 1)]" by code_simp
  then show ?thesis
    using index_spaces_agree [of "(2, 1, 2)"] by (auto simp: dims_ok_def nth_Cons')
qed

text \<open>C33 An array made of actual arrays, shifts, accessors, repeaters, boxes and slices, with sizes that fit,
  answers as the function \<open>arr_val\<close> of its parts: its size is the expected one, and \<open>get\<close> gives at every
  location below \<open>n\<close>, also beyond the size, the value of the parts, without an access out of bounds on any level:
  an actual array the value of the closest location, a shift the value at the sum modulo the size, a
  repeater the value at the coordinates folded back and forth with the repeated size, whatever this size is, a
  box the value behind its corner, slices the value in the closest slice.  When \<open>n\<close> covers the array, \<open>getValueRange\<close>
  gives the least and the greatest value over its locations.\<close>
theorem arrays_hold_values:
  assumes "arr_ok n a"
  shows "arr_size a = Inr (arr_dims a) \<and> (\<forall>p. in_dims n p \<longrightarrow> arr_get a p = Inr (arr_val a p)) \<and>
    (le3 (arr_dims a) n \<longrightarrow>
      getValueRange a = Inr (Min (arr_val a ` {p. in_dims (arr_dims a) p}), Max (arr_val a ` {p. in_dims (arr_dims a) p})))"
  using arr_size_ok [OF assms] arr_get_ok [OF assms] get_value_range_ok arr_ok_mono [OF assms] by blast

definition two_by_two :: "int actual_array" where
  "two_by_two = \<lparr>dims = (2, 2, 1), array_value = [5, 7, 6, 8], valuesAreMine = False\<rparr>"

lemma arrays_hold_values_witness:
  "arr_get (IndexShifted (Actual two_by_two) (1, 0, 0)) (1, 1, 0) = Inr 6 \<and>
   arr_get (MultiSlice [Actual two_by_two, Accessor uminus (Actual two_by_two)]) (1, 1, 1) = Inr (- 8) \<and>
   map (\<lambda>x. arr_get (Repeater (Actual two_by_two) (3, 2, 1)) (x, 0, 0)) [0, 1, 2, 3, 4, 5, 6] = map Inr [5, 7, 7, 7, 7, 5, 5] \<and>
   getValueRange (Repeater (Actual two_by_two) (3, 2, 1)) = Inr (5, 8)"
proof -
  let ?s = "IndexShifted (Actual two_by_two) (1, 0, 0)" and ?m = "MultiSlice [Actual two_by_two, Accessor uminus (Actual two_by_two)]"
    and ?r = "Repeater (Actual two_by_two) (3, 2, 1)"
  have ok: "arr_ok (2, 2, 1) ?s" "arr_ok (2, 2, 2) ?m" "arr_ok (10, 10, 10) ?r"
    by (simp_all add: two_by_two_def aa_ok_def dims_ok_def shift_ok_def)
  have "arr_get ?s (1, 1, 0) = Inr (arr_val ?s (1, 1, 0))" "arr_get ?m (1, 1, 1) = Inr (arr_val ?m (1, 1, 1))"
    "\<forall>x\<in>set [0, 1, 2, 3, 4, 5, 6]. arr_get ?r (x, 0, 0) = Inr (arr_val ?r (x, 0, 0))"
    using arrays_hold_values [OF ok(1)] arrays_hold_values [OF ok(2)] arrays_hold_values [OF ok(3)]
    by (auto simp del: arr_get.simps arr_val.simps)
  moreover have "arr_val ?s (1, 1, 0) = 6" "arr_val ?m (1, 1, 1) = - 8"
    "map (\<lambda>x. arr_val ?r (x, 0, 0)) [0, 1, 2, 3, 4, 5, 6] = [5, 7, 7, 7, 7, 5, 5]" by code_simp+
  moreover have "getValueRange ?r = Inr (Min (arr_val ?r ` {p. in_dims (3, 2, 1) p}), Max (arr_val ?r ` {p. in_dims (3, 2, 1) p}))"
    using arrays_hold_values [OF ok(3)] by simp
  moreover have "{p. in_dims (3, 2, 1) p} = set (for_each (0, 0, 0) (3, 2, 1))"
    using in_for_each [of _ "(3, 2, 1)"] by blast
  moreover have "Min (arr_val ?r ` set (for_each (0, 0, 0) (3, 2, 1))) = 5" "Max (arr_val ?r ` set (for_each (0, 0, 0) (3, 2, 1))) = 8"
    by code_simp+
  ultimately show ?thesis by (simp del: arr_get.simps arr_val.simps arr_size.simps)
qed

text \<open>C37 An actual array is a store of one value for each location: a new array has a place for each location,
  \<open>set\<close> changes the value of one location and keeps all others, the linear indices of two locations
  never being the same, \<open>clear\<close> sets every location, and a read outside gives the value of the closest
  location inside.\<close>
theorem array_is_store:
  assumes "aa_ok a" "in_dims (dims a) p"
  shows "(\<exists>a'. aa_set p v a = Inr a' \<and> aa_ok a' \<and> dims a' = dims a \<and>
      (\<forall>q. in_dims (dims a) q \<longrightarrow> aa_get a' q = (if q = p then Inr v else aa_get a q))) \<and>
    (\<exists>a'. aa_clear v a = Inr a' \<and> aa_ok a' \<and> dims a' = dims a \<and> (\<forall>q. aa_get a' q = Inr v)) \<and>
    (\<forall>q. aa_get a q = aa_get a (clamp_location (dims a) q)) \<and>
    (\<exists>b. ActualArray3D sd True v (dims a) None = Inr b \<and> aa_ok b \<and> valuesAreMine b)"
proof (intro conjI)
  obtain a1 where a1: "aa_set p v a = Inr a1" using aa_set_ok [OF assms] by simp
  note keeps = aa_set_keeps [OF assms(1) a1]
  have "aa_get a1 q = (if q = p then Inr v else aa_get a q)" if q: "in_dims (dims a) q" for q
    using aa_val_set [OF assms q a1] keeps aa_get_ok [of a1 q] aa_get_ok [OF assms(1), of q] clamp_inside [OF q] by simp
  then show "\<exists>a'. aa_set p v a = Inr a' \<and> aa_ok a' \<and> dims a' = dims a \<and>
      (\<forall>q. in_dims (dims a) q \<longrightarrow> aa_get a' q = (if q = p then Inr v else aa_get a q))"
    using a1 keeps by blast
  obtain a2 where a2: "aa_clear v a = Inr a2" "aa_ok a2" "dims a2 = dims a"
    "\<And>q. in_dims (dims a) q \<Longrightarrow> arr_val (Actual a2) q = v"
    using clear_sets [OF assms(1), of v] by blast
  have "aa_get a2 q = Inr v" for q
    using aa_get_ok [OF a2(2), of q] a2(4) [of "clamp_location (dims a) q"] clamp_bounds [of "dims a" q] assms(1) a2(3)
    by (simp add: aa_ok_def clamp_inside)
  with a2(1-3) show "\<exists>a'. aa_clear v a = Inr a' \<and> aa_ok a' \<and> dims a' = dims a \<and> (\<forall>q. aa_get a' q = Inr v)" by blast
  show "\<forall>q. aa_get a q = aa_get a (clamp_location (dims a) q)"
    using assms(1) clamp_inside [OF clamp_bounds] by (simp add: aa_get_ok aa_ok_def)
  show "\<exists>b. ActualArray3D sd True v (dims a) None = Inr b \<and> aa_ok b \<and> valuesAreMine b"
    using assms(1) uint_volume [of "dims a"] by (simp add: ActualArray3D_def aa_ok_def unat_eq_nat_uint)
qed

lemma array_is_store_witness:
  "aa_get two_by_two (1, 7, - 3) = aa_get two_by_two (1, 1, 0) \<and>
   aa_ok \<lparr>dims = (2, 2, 1), array_value = replicate 4 (9::int), valuesAreMine = True\<rparr>"
proof -
  have ok: "aa_ok two_by_two" "in_dims (dims two_by_two) (0, 0, 0)" by (simp_all add: two_by_two_def aa_ok_def dims_ok_def)
  have "aa_get two_by_two (1, 7, - 3) = aa_get two_by_two (clamp_location (2, 2, 1) (1, 7, - 3))"
    using array_is_store [OF ok, of 0] by (simp add: two_by_two_def)
  moreover have "\<exists>b. ActualArray3D (\<lambda>_. []) True (9::int) (2, 2, 1) None = Inr b \<and> aa_ok b \<and> valuesAreMine b"
    using array_is_store [OF ok, of 9 "\<lambda>_. []"] by (simp add: two_by_two_def)
  ultimately show ?thesis by (auto simp: ActualArray3D_def clamp_in_def size_t_def)
qed

end
