(* ===== verification/AmrTree.thy ===== *)
theory AmrTree
  imports Prelude "HOL-Library.Multiset"
begin

text \<open>
  The acceleration structure of volumes with adaptive mesh refinement (\<open>ospray/volume/amr\<close>): the
  bricks, the tree that \<open>AMRAccel\<close> builds over them in two vectors, and the descent of a kernel to a
  leaf.  Floating point numbers are the values of a linear order, the operations on them an argument.  Pointers to
  bricks, which do not change, are the bricks.
\<close>

section \<open>Boxes\<close>

type_synonym 'c coord3 = "'c \<times> 'c \<times> 'c"

fun coord :: "nat \<Rightarrow> 'c coord3 \<Rightarrow> 'c" where
  "coord d (x, y, z) = (if d = 0 then x else if d = 1 then y else z)"

fun set_coord :: "nat \<Rightarrow> 'c \<Rightarrow> 'c coord3 \<Rightarrow> 'c coord3" where
  "set_coord d v (x, y, z) = (if d = 0 then (v, y, z) else if d = 1 then (x, v, z) else (x, y, v))"

fun map3 :: "('a \<Rightarrow> 'b) \<Rightarrow> 'a coord3 \<Rightarrow> 'b coord3" where
  "map3 f (x, y, z) = (f x, f y, f z)"

fun zip3 :: "('a \<Rightarrow> 'b \<Rightarrow> 'c) \<Rightarrow> 'a coord3 \<Rightarrow> 'b coord3 \<Rightarrow> 'c coord3" where
  "zip3 f (x, y, z) (a, b, c) = (f x a, f y b, f z c)"

record 'c amr_box =
  blo :: "'c coord3"
  bhi :: "'c coord3"

definition extend_box :: "'c::linorder amr_box \<Rightarrow> 'c amr_box \<Rightarrow> 'c amr_box" where
  "extend_box b t = \<lparr>blo = zip3 min (blo b) (blo t), bhi = zip3 max (bhi b) (bhi t)\<rparr>"

definition intersectionOf :: "'c::linorder amr_box \<Rightarrow> 'c amr_box \<Rightarrow> 'c amr_box" where
  "intersectionOf a b = \<lparr>blo = zip3 max (blo a) (blo b), bhi = zip3 min (bhi a) (bhi b)\<rparr>"

definition dims3 :: "nat list" where
  "dims3 = [0, 1, 2]"

definition box_empty :: "'c::linorder amr_box \<Rightarrow> bool" where
  "box_empty b \<longleftrightarrow> list_ex (\<lambda>d. coord d (bhi b) < coord d (blo b)) dims3"

text \<open>The operations on floating point numbers: a difference, the middle of two numbers, the distance \<open>fabsf(a - b)\<close>,
  a cell coordinate as a number, a product, half, the reciprocal and its fast version \<open>rcp\<close>.\<close>

record 'c amr_arith =
  pos_inf :: 'c
  neg_inf :: 'c
  zero_f :: 'c
  minus_f :: "'c \<Rightarrow> 'c \<Rightarrow> 'c"
  middle :: "'c \<Rightarrow> 'c \<Rightarrow> 'c"
  distance :: "'c \<Rightarrow> 'c \<Rightarrow> 'c"
  of_cell :: "int \<Rightarrow> 'c"
  times_f :: "'c \<Rightarrow> 'c \<Rightarrow> 'c"
  half_f :: "'c \<Rightarrow> 'c"
  rcp_f :: "'c \<Rightarrow> 'c"
  rcp_fast :: "'c \<Rightarrow> 'c"

definition empty_box :: "'c amr_arith \<Rightarrow> 'c amr_box" where
  "empty_box A = \<lparr>blo = (pos_inf A, pos_inf A, pos_inf A), bhi = (neg_inf A, neg_inf A, neg_inf A)\<rparr>"

section \<open>Bricks\<close>

record 'c brick_info =
  info_lower :: "int coord3"
  info_upper :: "int coord3"
  info_level :: int
  info_cellWidth :: 'c

record 'c brick =
  cell_lower :: "int coord3"
  cell_upper :: "int coord3"
  brick_level :: int
  cellWidth :: 'c
  worldBounds :: "'c amr_box"
  brick_value :: nat
  brick_dims :: "int coord3"
  gridToWorldScale :: 'c
  worldToGridScale :: "'c coord3"
  f_dims :: "'c coord3"

definition Brick :: "'c amr_arith \<Rightarrow> 'c brick_info \<Rightarrow> nat \<Rightarrow> 'c brick" where
  "Brick A i v = (let w = info_cellWidth i; ds = map3 (\<lambda>x. x + 1) (zip3 (-) (info_upper i) (info_lower i));
       lo = map3 (\<lambda>x. times_f A (of_cell A x) w) (info_lower i);
       hi = map3 (\<lambda>x. times_f A (of_cell A (x + 1)) w) (info_upper i)
     in \<lparr>cell_lower = info_lower i, cell_upper = info_upper i, brick_level = info_level i, cellWidth = w,
         worldBounds = \<lparr>blo = lo, bhi = hi\<rparr>, brick_value = v, brick_dims = ds, gridToWorldScale = rcp_f A w,
         worldToGridScale = map3 (rcp_fast A) (zip3 (minus_f A) hi lo), f_dims = map3 (of_cell A) ds\<rparr>)"

text \<open>The application passes an array of brick descriptions and an array of data objects, one for each.\<close>

definition AMRData :: "'c amr_arith \<Rightarrow> 'c brick_info list \<Rightarrow> nat list \<Rightarrow> 'c brick list res" where
  "AMRData A infos values = (if length values < length infos then Inl Undefined_behaviour
     else Inr (map (\<lambda>(i, v). Brick A i v) (zip infos values)))"

section \<open>The tree\<close>

text \<open>A node is a pair of children or a leaf (\<open>dim = 3\<close>); a union holds the position of the split or the number
  of bricks.  The offset has 30 bits.\<close>

datatype 'c node_union = Pos 'c | Num_items nat

record 'c kd_node =
  ofs :: nat
  dim :: nat
  pos_or_items :: "'c node_union"

record 'c kd_leaf =
  leaf_bounds :: "'c amr_box"
  brickList :: "'c brick list"

record 'c kd_level =
  level_cellWidth :: 'c
  rcpCellWidth :: 'c
  halfCellWidth :: 'c
  level_level :: int

type_synonym 'c kd_state = "'c kd_node list \<times> 'c kd_leaf list"

definition new_node :: "'c amr_arith \<Rightarrow> 'c kd_node" where
  "new_node A = \<lparr>ofs = 0, dim = 0, pos_or_items = Pos (zero_f A)\<rparr>"

definition isLeaf :: "'c kd_node \<Rightarrow> bool" where
  "isLeaf n \<longleftrightarrow> dim n = 3"

text \<open>The sort of the standard library is an argument.  A null pointer ends the list of a leaf.\<close>

definition makeLeaf :: "('c brick list \<Rightarrow> 'c brick list) \<Rightarrow> nat \<Rightarrow> 'c amr_box \<Rightarrow> 'c brick list \<Rightarrow> 'c kd_state \<Rightarrow> 'c kd_state" where
  "makeLeaf finest_first n bounds bs s =
    ((fst s)[n := \<lparr>ofs = length (snd s) mod 2 ^ 30, dim = 3, pos_or_items = Num_items (length bs mod 2 ^ 32)\<rparr>],
     snd s @ [\<lparr>leaf_bounds = bounds, brickList = finest_first bs\<rparr>])"

definition makeInner :: "nat \<Rightarrow> nat \<Rightarrow> 'c \<Rightarrow> nat \<Rightarrow> 'c kd_state \<Rightarrow> 'c kd_state" where
  "makeInner n d p child s = ((fst s)[n := \<lparr>ofs = child mod 2 ^ 30, dim = d, pos_or_items = Pos p\<rparr>], snd s)"

text \<open>The positions at which bricks begin or end inside of the bounds, per dimension (a \<open>std::set\<close>).\<close>

definition add_splits :: "nat \<Rightarrow> 'c::linorder amr_box \<Rightarrow> 'c brick \<Rightarrow> 'c list \<Rightarrow> 'c list" where
  "add_splits d bounds b s = (let c = intersectionOf bounds (worldBounds b);
       s = (if coord d (blo c) \<noteq> coord d (blo bounds) then insort_insert (coord d (blo c)) s else s)
     in if coord d (bhi c) \<noteq> coord d (bhi bounds) then insort_insert (coord d (bhi c)) s else s)"

definition possibleSplits :: "nat \<Rightarrow> 'c::linorder amr_box \<Rightarrow> 'c brick list \<Rightarrow> 'c list" where
  "possibleSplits d bounds bs = fold (add_splits d bounds) bs []"

definition clips_ok :: "'c::linorder amr_box \<Rightarrow> 'c brick list \<Rightarrow> bool" where
  "clips_ok bounds bs \<longleftrightarrow> list_all (\<lambda>b. let c = intersectionOf bounds (worldBounds b) in
     list_all (\<lambda>d. coord d (blo c) \<noteq> coord d (bhi c)) dims3) bs"

definition bestDim :: "'c::linorder amr_arith \<Rightarrow> 'c amr_box \<Rightarrow> 'c brick list \<Rightarrow> nat option" where
  "bestDim A bounds bs = (let width = (\<lambda>d. minus_f A (coord d (bhi bounds)) (coord d (blo bounds))) in
     fold (\<lambda>d best. if possibleSplits d bounds bs = [] then best
       else case best of None \<Rightarrow> Some d | Some e \<Rightarrow> if width d > width e then Some d else best) dims3 None)"

definition bestPos :: "'c::linorder amr_arith \<Rightarrow> 'c amr_box \<Rightarrow> nat \<Rightarrow> 'c list \<Rightarrow> 'c" where
  "bestPos A bounds d splits = (let mid = middle A (coord d (blo bounds)) (coord d (bhi bounds)) in
     fold (\<lambda>split best. if distance A split mid < distance A best mid then split else best) splits (pos_inf A))"

definition lBounds :: "nat \<Rightarrow> 'c \<Rightarrow> 'c amr_box \<Rightarrow> 'c amr_box" where
  "lBounds d p b = b\<lparr>bhi := set_coord d p (bhi b)\<rparr>"

definition rBounds :: "nat \<Rightarrow> 'c \<Rightarrow> 'c amr_box \<Rightarrow> 'c amr_box" where
  "rBounds d p b = b\<lparr>blo := set_coord d p (blo b)\<rparr>"

text \<open>A brick goes to the side it lies on, or to both.\<close>

fun split_bricks :: "nat \<Rightarrow> 'c::linorder \<Rightarrow> 'c amr_box \<Rightarrow> 'c brick list \<Rightarrow> 'c brick list \<times> 'c brick list \<Rightarrow>
    ('c brick list \<times> 'c brick list) res" where
  "split_bricks d p bounds [] lr = Inr lr"
| "split_bricks d p bounds (b # bs) lr = (let wb = intersectionOf (worldBounds b) bounds in
     if box_empty wb then Inl (Runtime_error ''empty box!?'')
     else if coord d (blo wb) \<ge> p then split_bricks d p bounds bs (fst lr, snd lr @ [b])
     else if coord d (bhi wb) \<le> p then split_bricks d p bounds bs (fst lr @ [b], snd lr)
     else split_bricks d p bounds bs (fst lr @ [b], snd lr @ [b]))"

lemma bind_out_mono [partial_function_mono]:
  fixes F :: "('p \<Rightarrow> 'q option) \<Rightarrow> 'a outcome"
  assumes "mono_option F" and "\<And>x. mono_option (\<lambda>f. G f x)"
  shows "mono_option (\<lambda>f. bind_out (F f) (G f))"
proof (rule monotoneI)
  fix f g :: "'p \<Rightarrow> 'q option"
  assume fg: "option.le_fun f g"
  have "option_ord (F f) (F g)" "\<And>x. option_ord (G f x) (G g x)"
    using assms fg unfolding monotone_def by blast+
  then show "option_ord (bind_out (F f) (G f)) (bind_out (F g) (G g))"
    by (cases "F f"; cases "F g"; auto simp: bind_out_def flat_ord_def split: sum.splits)
qed

partial_function (option) buildRec ::
  "'c::linorder amr_arith \<Rightarrow> ('c brick list \<Rightarrow> 'c brick list) \<Rightarrow> bool \<Rightarrow> nat \<Rightarrow> 'c amr_box \<Rightarrow> 'c brick list \<Rightarrow> 'c kd_state \<Rightarrow> 'c kd_state outcome" where
  "buildRec A finest_first dbg n bounds bs s =
    (if dbg \<and> \<not> clips_ok bounds bs then raise Assertion_failed
     else case bestDim A bounds bs of
       None \<Rightarrow> ret (makeLeaf finest_first n bounds bs s)
     | Some d \<Rightarrow> (let p = bestPos A bounds d (possibleSplits d bounds bs); child = length (fst s) in
         bind_out (Some (split_bricks d p bounds bs ([], []))) (\<lambda>lr.
           if dbg \<and> (fst lr = [] \<or> snd lr = []) then raise Assertion_failed
           else bind_out (buildRec A finest_first dbg child (lBounds d p bounds) (fst lr)
                   (fst (makeInner n d p child s) @ [new_node A, new_node A], snd s))
             (\<lambda>s. buildRec A finest_first dbg (child + 1) (rBounds d p bounds) (snd lr) s))))"

text \<open>The table of the levels grows with the levels it meets.\<close>

definition level_entry :: "'c amr_arith \<Rightarrow> 'c brick \<Rightarrow> 'c kd_level" where
  "level_entry A b = \<lparr>level_cellWidth = cellWidth b, rcpCellWidth = rcp_f A (cellWidth b),
     halfCellWidth = half_f A (cellWidth b), level_level = brick_level b\<rparr>"

definition no_level :: "'c amr_arith \<Rightarrow> 'c kd_level" where
  "no_level A = \<lparr>level_cellWidth = zero_f A, rcpCellWidth = zero_f A, halfCellWidth = zero_f A, level_level = 0\<rparr>"

definition add_level :: "'c amr_arith \<Rightarrow> 'c brick \<Rightarrow> 'c kd_level list \<Rightarrow> 'c kd_level list res" where
  "add_level A b ls = (if brick_level b < 0 then Inl Undefined_behaviour
     else let i = nat (brick_level b);
              ls = (if brick_level b \<ge> int (length ls) then ls @ replicate (i + 1 - length ls) (no_level A) else ls)
          in Inr (ls[i := level_entry A b]))"

fun add_levels :: "'c amr_arith \<Rightarrow> 'c brick list \<Rightarrow> 'c kd_level list \<Rightarrow> 'c kd_level list res" where
  "add_levels A [] ls = Inr ls"
| "add_levels A (b # bs) ls = bind_res (add_level A b ls) (add_levels A bs)"

record 'c amr_accel =
  accel_level :: "'c kd_level list"
  accel_node :: "'c kd_node list"
  accel_leaf :: "'c kd_leaf list"
  accel_bounds :: "'c amr_box"

definition world_of :: "'c::linorder amr_arith \<Rightarrow> 'c brick list \<Rightarrow> 'c amr_box" where
  "world_of A bs = fold (\<lambda>b w. extend_box w (worldBounds b)) bs (empty_box A)"

definition AMRAccel :: "'c::linorder amr_arith \<Rightarrow> ('c brick list \<Rightarrow> 'c brick list) \<Rightarrow> bool \<Rightarrow> 'c brick list \<Rightarrow> 'c amr_accel outcome" where
  "AMRAccel A finest_first dbg bs = (let bounds = world_of A bs in
     bind_out (Some (add_levels A bs [])) (\<lambda>ls.
     bind_out (buildRec A finest_first dbg 0 bounds bs ([new_node A], [])) (\<lambda>s.
       ret \<lparr>accel_level = ls, accel_node = fst s, accel_leaf = snd s, accel_bounds = bounds\<rparr>)))"

text \<open>The descent of one position in a kernel, down to the leaf.\<close>

partial_function (option) findLeaf :: "'c::linorder kd_state \<Rightarrow> 'c coord3 \<Rightarrow> nat \<Rightarrow> 'c kd_leaf outcome" where
  "findLeaf s p n =
    (if n \<ge> length (fst s) then raise Undefined_behaviour
     else let nd = fst s ! n in
       if isLeaf nd then (if ofs nd < length (snd s) then ret (snd s ! ofs nd) else raise Undefined_behaviour)
       else case pos_or_items nd of
         Pos x \<Rightarrow> if coord (dim nd) p \<ge> x then findLeaf s p (ofs nd + 1) else findLeaf s p (ofs nd)
       | Num_items k \<Rightarrow> raise Undefined_behaviour)"

section \<open>Where bricks lie\<close>

definition inside :: "'c::linorder amr_box \<Rightarrow> 'c coord3 \<Rightarrow> bool" where
  "inside b p \<longleftrightarrow> list_all (\<lambda>d. coord d (blo b) \<le> coord d p \<and> coord d p < coord d (bhi b)) dims3"

definition proper :: "'c::linorder amr_box \<Rightarrow> bool" where
  "proper b \<longleftrightarrow> list_all (\<lambda>d. coord d (blo b) < coord d (bhi b)) dims3"

definition overlaps :: "'c::linorder amr_box \<Rightarrow> 'c brick \<Rightarrow> bool" where
  "overlaps w b \<longleftrightarrow> proper (intersectionOf w (worldBounds b))"

definition within :: "'c::linorder amr_box \<Rightarrow> 'c amr_box \<Rightarrow> bool" where
  "within a b \<longleftrightarrow> list_all (\<lambda>d. coord d (blo b) \<le> coord d (blo a) \<and> coord d (bhi a) \<le> coord d (bhi b)) dims3"

lemma less_3: "d < (3::nat) \<longleftrightarrow> d = 0 \<or> d = 1 \<or> d = 2"
  by arith

lemma all_dims3: "list_all P dims3 \<longleftrightarrow> (\<forall>d<3. P d)"
  by (auto simp: dims3_def less_3)

lemma coord_zip3 [simp]: "coord d (zip3 f a b) = f (coord d a) (coord d b)"
  by (cases a; cases b) simp

lemma coord_set [simp]: "d < 3 \<Longrightarrow> e < 3 \<Longrightarrow> coord d (set_coord e v a) = (if d = e then v else coord d a)"
  by (cases a) (auto simp: less_3)

lemma coords_lBounds [simp]:
  "blo (lBounds d p w) = blo w" "bhi (lBounds d p w) = set_coord d p (bhi w)"
  "bhi (rBounds d p w) = bhi w" "blo (rBounds d p w) = set_coord d p (blo w)"
  by (simp_all add: lBounds_def rBounds_def)

lemma inside_iff: "inside b p \<longleftrightarrow> (\<forall>d<3. coord d (blo b) \<le> coord d p \<and> coord d p < coord d (bhi b))"
  by (simp only: inside_def all_dims3)

lemma proper_iff: "proper b \<longleftrightarrow> (\<forall>d<3. coord d (blo b) < coord d (bhi b))"
  by (simp only: proper_def all_dims3)

lemma within_iff: "within a b \<longleftrightarrow> (\<forall>d<3. coord d (blo b) \<le> coord d (blo a) \<and> coord d (bhi a) \<le> coord d (bhi b))"
  by (simp only: within_def all_dims3)

lemma overlaps_iff:
  "overlaps w b \<longleftrightarrow> (\<forall>d<3. max (coord d (blo w)) (coord d (blo (worldBounds b))) < min (coord d (bhi w)) (coord d (bhi (worldBounds b))))"
  by (simp add: overlaps_def proper_iff intersectionOf_def)

lemma within_overlaps: "within a w \<Longrightarrow> overlaps a b \<Longrightarrow> overlaps w b"
  unfolding within_iff overlaps_iff by (meson less_le_trans le_less_trans max.mono min.mono order_refl)

text \<open>Going to one side.\<close>

definition splits_at :: "nat \<Rightarrow> 'c::linorder \<Rightarrow> 'c amr_box \<Rightarrow> bool" where
  "splits_at d p w \<longleftrightarrow> d < 3 \<and> coord d (blo w) < p \<and> p < coord d (bhi w)"

lemma sides_within: "splits_at d p w \<Longrightarrow> within (lBounds d p w) w" "splits_at d p w \<Longrightarrow> within (rBounds d p w) w"
  by (auto simp: splits_at_def within_iff)

lemma sides_proper:
  "splits_at d p w \<Longrightarrow> proper w \<Longrightarrow> proper (lBounds d p w)" "splits_at d p w \<Longrightarrow> proper w \<Longrightarrow> proper (rBounds d p w)"
  by (auto simp: splits_at_def proper_iff)

lemma sides_overlap:
  assumes "splits_at d p w" and "overlaps w b"
  shows "overlaps (lBounds d p w) b \<longleftrightarrow> coord d (blo (worldBounds b)) < p"
    "overlaps (rBounds d p w) b \<longleftrightarrow> p < coord d (bhi (worldBounds b))"
proof -
  have d: "d < 3" "coord d (blo w) < p" "p < coord d (bhi w)" using assms(1) by (simp_all add: splits_at_def)
  have o: "max (coord e (blo w)) (coord e (blo (worldBounds b))) < min (coord e (bhi w)) (coord e (bhi (worldBounds b)))"
    if "e < 3" for e using assms(2) that by (simp add: overlaps_iff)
  show "overlaps (lBounds d p w) b \<longleftrightarrow> coord d (blo (worldBounds b)) < p"
    unfolding overlaps_iff using d o [OF d(1)] o by (auto split: if_splits)
  show "overlaps (rBounds d p w) b \<longleftrightarrow> p < coord d (bhi (worldBounds b))"
    unfolding overlaps_iff using d o [OF d(1)] o by (auto split: if_splits)
qed

lemma split_bricks_ok:
  "splits_at d p w \<Longrightarrow> \<forall>b\<in>set bs. overlaps w b \<Longrightarrow>
   split_bricks d p w bs lr = Inr (fst lr @ filter (overlaps (lBounds d p w)) bs, snd lr @ filter (overlaps (rBounds d p w)) bs)"
proof (induction bs arbitrary: lr)
  case Nil
  then show ?case by simp
next
  case (Cons b bs)
  have ov: "overlaps w b" using Cons.prems by simp
  note sides = sides_overlap [OF Cons.prems(1) ov]
  let ?wb = "intersectionOf (worldBounds b) w"
  have d: "d < 3" "coord d (blo w) < p" "p < coord d (bhi w)" using Cons.prems(1) by (simp_all add: splits_at_def)
  have e: "coord e (blo ?wb) < coord e (bhi ?wb)" if "e < 3" for e
    using ov that by (auto simp: overlaps_iff intersectionOf_def max.commute min.commute)
  have ne: "\<not> box_empty ?wb" using e [of 0] e [of 1] e [of 2] by (simp add: box_empty_def dims3_def not_less less_imp_le)
  have lo: "coord d (blo ?wb) \<ge> p \<longleftrightarrow> \<not> overlaps (lBounds d p w) b"
    and hi: "coord d (bhi ?wb) \<le> p \<longleftrightarrow> \<not> overlaps (rBounds d p w) b"
    using d by (auto simp: sides intersectionOf_def le_max_iff_disj min_le_iff_disj)
  have "overlaps (lBounds d p w) b \<or> overlaps (rBounds d p w) b"
    using e [OF d(1)] lo hi by (meson le_less_trans less_le_trans not_less_iff_gr_or_eq order_refl not_le)
  then show ?case using Cons ne lo hi by (auto simp: Let_def)
qed

text \<open>The candidates for a split.\<close>

lemma set_possibleSplits:
  "set (possibleSplits d w bs) = (\<Union>b\<in>set bs. {c \<in> {max (coord d (blo w)) (coord d (blo (worldBounds b)))}. c \<noteq> coord d (blo w)} \<union>
     {c \<in> {min (coord d (bhi w)) (coord d (bhi (worldBounds b)))}. c \<noteq> coord d (bhi w)})"
proof -
  have "set (fold (add_splits d w) bs s) = set s \<union> (\<Union>b\<in>set bs. {c \<in> {max (coord d (blo w)) (coord d (blo (worldBounds b)))}. c \<noteq> coord d (blo w)} \<union>
     {c \<in> {min (coord d (bhi w)) (coord d (bhi (worldBounds b)))}. c \<noteq> coord d (bhi w)})" for s
    by (induction bs arbitrary: s) (auto simp: add_splits_def Let_def set_insort_insert intersectionOf_def)
  then show ?thesis by (simp add: possibleSplits_def)
qed

definition planes :: "nat \<Rightarrow> 'c brick list \<Rightarrow> 'c set" where
  "planes d bs = (\<lambda>b. coord d (blo (worldBounds b))) ` set bs \<union> (\<lambda>b. coord d (bhi (worldBounds b))) ` set bs"

lemma possible_split:
  assumes "c \<in> set (possibleSplits d w bs)" and "d < 3" and "\<forall>b\<in>set bs. overlaps w b"
  shows "splits_at d c w \<and> c \<in> planes d bs"
proof -
  obtain b where b: "b \<in> set bs" and c: "c = max (coord d (blo w)) (coord d (blo (worldBounds b))) \<and> c \<noteq> coord d (blo w) \<or>
      c = min (coord d (bhi w)) (coord d (bhi (worldBounds b))) \<and> c \<noteq> coord d (bhi w)"
    using assms(1) unfolding set_possibleSplits by auto
  have "max (coord d (blo w)) (coord d (blo (worldBounds b))) < min (coord d (bhi w)) (coord d (bhi (worldBounds b)))"
    using assms(2,3) b by (simp add: overlaps_iff)
  with c assms(2) have "splits_at d c w \<and> (c = coord d (blo (worldBounds b)) \<or> c = coord d (bhi (worldBounds b)))"
    by (auto simp: splits_at_def max_def min_def split: if_splits)
  with b show ?thesis by (auto simp: planes_def)
qed

lemma no_split:
  assumes "possibleSplits d w bs = []" and "b \<in> set bs"
  shows "coord d (blo (worldBounds b)) \<le> coord d (blo w) \<and> coord d (bhi w) \<le> coord d (bhi (worldBounds b))"
proof -
  have "set (possibleSplits d w bs) = {}" using assms(1) by simp
  then show ?thesis using assms(2) unfolding set_possibleSplits by (fastforce simp: max_def min_def split: if_splits)
qed

lemma bestDim_Some: "bestDim A w bs = Some d \<Longrightarrow> d < 3 \<and> possibleSplits d w bs \<noteq> []"
  by (auto simp: bestDim_def dims3_def Let_def split: if_splits option.splits)

lemma bestDim_None: "bestDim A w bs = None \<Longrightarrow> d < 3 \<Longrightarrow> possibleSplits d w bs = []"
  by (auto simp: bestDim_def dims3_def Let_def less_3 split: if_splits option.splits)

text \<open>The number nearest to the middle is one of the candidates, unless infinity is as near.\<close>

lemma nearest_in:
  "fold (\<lambda>s best. if dist s < dist best then s else best) ss b \<in> insert b (set ss)"
  by (induction ss arbitrary: b) (auto split: if_splits)

lemma bestPos_in:
  assumes "ss \<noteq> []"
    and "\<forall>s\<in>set ss. distance A s (middle A (coord d (blo w)) (coord d (bhi w))) < distance A (pos_inf A) (middle A (coord d (blo w)) (coord d (bhi w)))"
  shows "bestPos A w d ss \<in> set ss"
proof -
  obtain s ts where ss: "ss = s # ts" using assms(1) by (cases ss) simp_all
  show ?thesis
    using assms(2) nearest_in [of "\<lambda>s. distance A s (middle A (coord d (blo w)) (coord d (bhi w)))" ts s]
    by (simp add: bestPos_def Let_def ss)
qed

section \<open>Every split leaves fewer planes inside\<close>

definition planes_inside :: "nat \<Rightarrow> 'c::linorder amr_box \<Rightarrow> 'c brick list \<Rightarrow> 'c set" where
  "planes_inside d w bs = {c \<in> planes d bs. coord d (blo w) < c \<and> c < coord d (bhi w)}"

definition weight :: "'c::linorder amr_box \<Rightarrow> 'c brick list \<Rightarrow> nat" where
  "weight w bs = card (planes_inside 0 w bs) + card (planes_inside 1 w bs) + card (planes_inside 2 w bs)"

lemma weight_sum: "weight w bs = (\<Sum>d<3. card (planes_inside d w bs))"
  by (simp add: weight_def numeral_3_eq_3 numeral_2_eq_2)

lemma finite_planes [simp]: "finite (planes_inside d w bs)"
  by (simp add: planes_inside_def planes_def)

lemma weight_less:
  assumes "within v w" and "set cs \<subseteq> set bs" and "d < 3" and "p \<in> planes_inside d w bs" and "p \<notin> planes_inside d v cs"
  shows "weight v cs < weight w bs"
  unfolding weight_sum
proof (rule sum_strict_mono_ex1)
  have sub: "planes_inside e v cs \<subseteq> planes_inside e w bs" if "e < 3" for e
  proof -
    have "coord e (blo w) \<le> coord e (blo v)" "coord e (bhi v) \<le> coord e (bhi w)" using assms(1) that by (simp_all add: within_iff)
    then show ?thesis using assms(2) by (auto simp: planes_inside_def planes_def)
  qed
  then show "\<forall>e\<in>{..<3}. card (planes_inside e v cs) \<le> card (planes_inside e w bs)" by (auto intro!: card_mono)
  have "planes_inside d v cs \<subset> planes_inside d w bs" using sub [OF assms(3)] assms(4,5) by blast
  then show "\<exists>e\<in>{..<3}. card (planes_inside e v cs) < card (planes_inside e w bs)"
    using assms(3) by (intro bexI [of _ d] psubset_card_mono) simp_all
qed simp

lemma sides_weight:
  assumes "splits_at d p w" and "p \<in> planes d bs"
  shows "set cs \<subseteq> set bs \<Longrightarrow> weight (lBounds d p w) cs < weight w bs" "set cs \<subseteq> set bs \<Longrightarrow> weight (rBounds d p w) cs < weight w bs"
proof -
  have d: "d < 3" and p: "p \<in> planes_inside d w bs" using assms by (simp_all add: planes_inside_def splits_at_def)
  have out: "p \<notin> planes_inside d (lBounds d p w) cs" "p \<notin> planes_inside d (rBounds d p w) cs"
    using d by (simp_all add: planes_inside_def)
  show "set cs \<subseteq> set bs \<Longrightarrow> weight (lBounds d p w) cs < weight w bs" "set cs \<subseteq> set bs \<Longrightarrow> weight (rBounds d p w) cs < weight w bs"
    using weight_less [OF sides_within(1) [OF assms(1)] _ d p out(1)] weight_less [OF sides_within(2) [OF assms(1)] _ d p out(2)] by blast+
qed

section \<open>The tree that the vectors hold\<close>

datatype 'c kd = KLeaf "'c amr_box" "'c brick list" | KInner nat 'c "'c kd" "'c kd"

fun kd_leaves :: "'c kd \<Rightarrow> nat" where
  "kd_leaves (KLeaf w bs) = 1"
| "kd_leaves (KInner d p l r) = kd_leaves l + kd_leaves r"

definition finest :: "'c brick list \<Rightarrow> bool" where
  "finest bs \<longleftrightarrow> sorted_wrt (\<lambda>a b. brick_level b \<le> brick_level a) bs"

text \<open>A leaf lists exactly the bricks that overlap it, and each of them covers it.\<close>

fun kd_ok :: "'c::linorder brick list \<Rightarrow> 'c amr_box \<Rightarrow> 'c kd \<Rightarrow> bool" where
  "kd_ok all w (KLeaf v bs) \<longleftrightarrow> v = w \<and> finest bs \<and> mset bs = mset (filter (overlaps w) all) \<and>
     list_all (\<lambda>b. within w (worldBounds b)) bs"
| "kd_ok all w (KInner d p l r) \<longleftrightarrow> splits_at d p w \<and> kd_ok all (lBounds d p w) l \<and> kd_ok all (rBounds d p w) r"

text \<open>The tree with its root at index \<open>n\<close> and all other nodes at indices in a range.\<close>

inductive holds_tree :: "'c kd_state \<Rightarrow> nat \<Rightarrow> nat \<Rightarrow> nat \<Rightarrow> 'c kd \<Rightarrow> bool" where
  holds_leaf: "n < length (fst s) \<Longrightarrow> fst s ! n = \<lparr>ofs = i mod 2 ^ 30, dim = 3, pos_or_items = Num_items (length bs mod 2 ^ 32)\<rparr> \<Longrightarrow>
    i < length (snd s) \<Longrightarrow> snd s ! i = \<lparr>leaf_bounds = w, brickList = bs\<rparr> \<Longrightarrow> holds_tree s n a b (KLeaf w bs)"
| holds_inner: "n < length (fst s) \<Longrightarrow> fst s ! n = \<lparr>ofs = c mod 2 ^ 30, dim = d, pos_or_items = Pos p\<rparr> \<Longrightarrow> d < 3 \<Longrightarrow>
    a \<le> c \<Longrightarrow> c + 2 \<le> m \<Longrightarrow> m \<le> b \<Longrightarrow> b \<le> length (fst s) \<Longrightarrow>
    holds_tree s c (c + 2) m l \<Longrightarrow> holds_tree s (c + 1) m b r \<Longrightarrow> holds_tree s n a b (KInner d p l r)"

inductive_cases holds_leafE: "holds_tree s n a b (KLeaf w bs)"
inductive_cases holds_innerE: "holds_tree s n a b (KInner d p l r)"

lemma holds_frame:
  "holds_tree s n a b t \<Longrightarrow> length (fst s) \<le> length (fst s') \<Longrightarrow> fst s' ! n = fst s ! n \<Longrightarrow>
   (\<forall>i. a \<le> i \<and> i < b \<longrightarrow> fst s' ! i = fst s ! i) \<Longrightarrow> snd s' = snd s @ ls \<Longrightarrow> holds_tree s' n a b t"
proof (induction rule: holds_tree.induct)
  case (holds_leaf n s i bs w a b)
  then show ?case by (intro holds_tree.holds_leaf [of _ _ i]) (auto simp: nth_append)
next
  case (holds_inner n s c d p a m b l r)
  then show ?case by (intro holds_tree.holds_inner [of _ _ c _ _ _ m]) auto
qed

text \<open>What the construction relies on: a sort by level, and distances to a middle that are below the one
  of infinity.\<close>

definition sorts_levels :: "('c brick list \<Rightarrow> 'c brick list) \<Rightarrow> bool" where
  "sorts_levels f \<longleftrightarrow> (\<forall>bs. mset (f bs) = mset bs \<and> finest (f bs))"

definition numbers_of :: "'c brick list \<Rightarrow> 'c list" where
  "numbers_of bs = concat (map (\<lambda>b. concat (map (\<lambda>d. [coord d (blo (worldBounds b)), coord d (bhi (worldBounds b))]) dims3)) bs)"

definition arith_ok :: "'c::linorder amr_arith \<Rightarrow> 'c brick list \<Rightarrow> bool" where
  "arith_ok A bs \<longleftrightarrow> (let S = numbers_of bs in list_all (\<lambda>x. neg_inf A \<le> x \<and> x \<le> pos_inf A \<and>
     list_all (\<lambda>y. list_all (\<lambda>s. distance A s (middle A x y) < distance A (pos_inf A) (middle A x y)) S) S) S)"

definition box_numbers :: "'c amr_box \<Rightarrow> 'c set \<Rightarrow> bool" where
  "box_numbers w S \<longleftrightarrow> (\<forall>d<3. coord d (blo w) \<in> S \<and> coord d (bhi w) \<in> S)"

lemma planes_numbers: "d < 3 \<Longrightarrow> planes d bs \<subseteq> set (numbers_of bs)"
  by (fastforce simp: planes_def numbers_of_def dims3_def less_3)

lemma planes_mono: "set cs \<subseteq> set bs \<Longrightarrow> planes d cs \<subseteq> planes d bs"
  by (auto simp: planes_def)

lemma box_numbers_sides:
  "box_numbers w S \<Longrightarrow> p \<in> S \<Longrightarrow> d < 3 \<Longrightarrow> box_numbers (lBounds d p w) S"
  "box_numbers w S \<Longrightarrow> p \<in> S \<Longrightarrow> d < 3 \<Longrightarrow> box_numbers (rBounds d p w) S"
  by (auto simp: box_numbers_def)

section \<open>Building the tree\<close>

lemma inside_overlaps: "inside v q \<Longrightarrow> inside (worldBounds b) q \<Longrightarrow> overlaps v b"
  unfolding inside_iff overlaps_iff by (meson le_less_trans max_less_iff_conj min_less_iff_conj le_max_iff_disj less_le_trans max.bounded_iff min_less_iff_disj not_less)

lemma within_proper: "proper v \<Longrightarrow> within v w \<Longrightarrow> proper w"
  unfolding proper_iff within_iff by (meson le_less_trans less_le_trans)

lemma inside_within: "within v w \<Longrightarrow> inside v q \<Longrightarrow> inside w q"
  unfolding inside_iff within_iff by (meson order_trans less_le_trans)

lemma corner_inside: "proper v \<Longrightarrow> inside v (blo v)"
  by (simp add: inside_iff proper_iff)

lemma overlap_filter:
  assumes "within v w" shows "filter (overlaps v) (filter (overlaps w) bs) = filter (overlaps v) bs"
proof -
  have "overlaps w b \<and> overlaps v b \<longleftrightarrow> overlaps v b" for b using within_overlaps [OF assms] by blast
  then show ?thesis by simp
qed

lemma clips_overlap: "\<forall>b\<in>set bs. overlaps w b \<Longrightarrow> clips_ok w bs"
  by (fastforce simp: clips_ok_def Let_def list_all_iff overlaps_def proper_def)

text \<open>What a call of \<open>buildRec\<close> for one node does to the vectors.\<close>

definition built :: "'c::linorder brick list \<Rightarrow> 'c amr_box \<Rightarrow> nat \<Rightarrow> 'c kd_state \<Rightarrow> 'c kd_state \<Rightarrow> 'c kd \<Rightarrow> bool" where
  "built all w n s s' t \<longleftrightarrow> kd_ok all w t \<and> holds_tree s' n (length (fst s)) (length (fst s')) t \<and>
    length (fst s') + 2 = length (fst s) + 2 * kd_leaves t \<and> (\<forall>i<length (fst s). i \<noteq> n \<longrightarrow> fst s' ! i = fst s ! i) \<and>
    (\<exists>ls. snd s' = snd s @ ls \<and> length ls = kd_leaves t)"

lemma kd_leaves_pos: "0 < kd_leaves t"
  by (induction t) simp_all

lemma built_inner:
  assumes sp: "splits_at d p w" and n: "n < length (fst s)" and c: "c = length (fst s)"
    and one: "built all (lBounds d p w) c (fst (makeInner n d p c s) @ [nd, nd], snd s) s1 l"
    and two: "built all (rBounds d p w) (c + 1) s1 s2 r"
  shows "built all w n s s2 (KInner d p l r)"
proof -
  let ?s0 = "(fst (makeInner n d p c s) @ [nd, nd], snd s)"
  have len: "length (fst ?s0) = c + 2" "c + 2 \<le> length (fst s1)" "length (fst s1) \<le> length (fst s2)"
    using one two kd_leaves_pos [of l] kd_leaves_pos [of r] by (simp_all add: built_def makeInner_def c)
  have keep: "fst s1 ! i = fst ?s0 ! i" if "i < c + 2" "i \<noteq> c" for i using one that len(1) by (simp add: built_def)
  have keep2: "fst s2 ! i = fst s1 ! i" if "i < length (fst s1)" "i \<noteq> c + 1" for i using two that by (simp add: built_def)
  have frame: "fst s2 ! i = fst ?s0 ! i" if "i < c" for i using keep [of i] keep2 [of i] that len(2) by simp
  obtain ls where ls: "snd s2 = snd s1 @ ls" "length ls = kd_leaves r" using two by (auto simp: built_def)
  have "holds_tree s1 c (c + 2) (length (fst s1)) l" using one unfolding built_def len(1) by blast
  then have left: "holds_tree s2 c (c + 2) (length (fst s1)) l"
    by (rule holds_frame [OF _ len(3) _ _ ls(1)]) (use keep2 len(2) in auto)
  have right: "holds_tree s2 (c + 1) (length (fst s1)) (length (fst s2)) r" using two by (simp add: built_def)
  have node: "fst s2 ! n = \<lparr>ofs = c mod 2 ^ 30, dim = d, pos_or_items = Pos p\<rparr>"
    using frame [of n] n by (simp add: makeInner_def c nth_append)
  have "holds_tree s2 n c (length (fst s2)) (KInner d p l r)"
    by (rule holds_inner [OF _ node _ order_refl len(2,3) order_refl left right])
      (use n len sp c in \<open>simp_all add: splits_at_def\<close>)
  moreover have "\<forall>i<length (fst s). i \<noteq> n \<longrightarrow> fst s2 ! i = fst s ! i"
    using frame by (simp add: c makeInner_def nth_append)
  moreover have "\<exists>ls. snd s2 = snd s @ ls \<and> length ls = kd_leaves (KInner d p l r)"
    using one ls by (auto simp: built_def)
  ultimately show ?thesis using one two sp len(1) c by (simp add: built_def)
qed

text \<open>One step of the recursion: the bricks cover the bounds, or the position is inside and the bricks of the two
  sides are the ones that overlap them.\<close>

lemma build_leaf:
  assumes none: "bestDim A w bs = None" and ov: "bs = filter (overlaps w) all" and f: "sorts_levels f" and n: "n < length (fst s)"
  shows "\<exists>s' t. buildRec A f dbg n w bs s = ret s' \<and> built all w n s s' t"
proof -
  have clips: "clips_ok w bs" by (rule clips_overlap) (simp add: ov)
  have sorted: "mset (f bs) = mset bs" "finest (f bs)" using f by (simp_all add: sorts_levels_def)
  have "within w (worldBounds b)" if "b \<in> set bs" for b
    using no_split [OF bestDim_None [OF none] that] by (simp add: within_iff)
  then have "list_all (\<lambda>b. within w (worldBounds b)) (f bs)"
    using mset_eq_setD [OF sorted(1)] by (simp add: list_all_iff)
  then have ok: "kd_ok all w (KLeaf w (f bs))" using sorted by (simp add: ov)
  have len: "length (f bs) = length bs" using sorted(1) by (rule mset_eq_length)
  have holds: "holds_tree (makeLeaf f n w bs s) n (length (fst s)) (length (fst s)) (KLeaf w (f bs))"
    by (rule holds_leaf [of _ _ "length (snd s)"]) (use n len in \<open>simp_all add: makeLeaf_def\<close>)
  show ?thesis
    by (rule exI [of _ "makeLeaf f n w bs s"], rule exI [of _ "KLeaf w (f bs)"])
      (use ok holds clips none in \<open>simp add: buildRec.simps [of A f dbg n w bs s] built_def makeLeaf_def\<close>)
qed

lemma build_split:
  assumes some: "bestDim A w bs = Some d" and ov: "bs = filter (overlaps w) all"
    and nums: "box_numbers w (set (numbers_of all))" and arith: "arith_ok A all"
  defines "p \<equiv> bestPos A w d (possibleSplits d w bs)"
  shows "splits_at d p w" "p \<in> planes d bs" "p \<in> set (numbers_of all)" "clips_ok w bs"
    "split_bricks d p w bs ([], []) = Inr (filter (overlaps (lBounds d p w)) all, filter (overlaps (rBounds d p w)) all)"
proof -
  have d: "d < 3" "possibleSplits d w bs \<noteq> []" using bestDim_Some [OF some] by simp_all
  have all: "\<forall>b\<in>set bs. overlaps w b" by (simp add: ov)
  have cand: "splits_at d c w" "c \<in> planes d bs" "c \<in> set (numbers_of all)" if "c \<in> set (possibleSplits d w bs)" for c
    using possible_split [OF that d(1) all] planes_mono [of bs all d] planes_numbers [OF d(1), of all] by (auto simp: ov)
  have "distance A s (middle A (coord d (blo w)) (coord d (bhi w))) < distance A (pos_inf A) (middle A (coord d (blo w)) (coord d (bhi w)))"
    if "s \<in> set (possibleSplits d w bs)" for s
    using arith nums cand(3) [OF that] d(1) by (simp add: arith_ok_def Let_def list_all_iff box_numbers_def)
  then have p: "p \<in> set (possibleSplits d w bs)" unfolding p_def by (intro bestPos_in [OF d(2)]) blast
  show sp: "splits_at d p w" and "p \<in> planes d bs" "p \<in> set (numbers_of all)" using cand p by blast+
  show "clips_ok w bs" by (rule clips_overlap [OF all])
  show "split_bricks d p w bs ([], []) = Inr (filter (overlaps (lBounds d p w)) all, filter (overlaps (rBounds d p w)) all)"
    using split_bricks_ok [OF sp all, of "([], [])"] overlap_filter [OF sides_within(1) [OF sp], of all]
      overlap_filter [OF sides_within(2) [OF sp], of all] by (simp only: fst_conv snd_conv append_Nil ov)
qed

definition covered :: "'c::linorder brick list \<Rightarrow> 'c amr_box \<Rightarrow> bool" where
  "covered all w \<longleftrightarrow> (\<forall>p. inside w p \<longrightarrow> (\<exists>b\<in>set all. inside (worldBounds b) p))"

lemma covered_nonempty:
  assumes "covered all w" "proper w" shows "filter (overlaps w) all \<noteq> []"
proof -
  obtain b where "b \<in> set all" "inside (worldBounds b) (blo w)" using assms corner_inside unfolding covered_def by blast
  then show ?thesis using inside_overlaps [OF corner_inside [OF assms(2)]] by (auto simp: filter_empty_conv)
qed

lemma covered_within: "covered all w \<Longrightarrow> within v w \<Longrightarrow> covered all v"
  unfolding covered_def using inside_within by blast

lemma build_ok:
  assumes f: "sorts_levels f" and arith: "arith_ok A all"
  shows "box_numbers w (set (numbers_of all)) \<Longrightarrow> proper w \<Longrightarrow> n < length (fst s) \<Longrightarrow> (dbg \<longrightarrow> covered all w) \<Longrightarrow>
    \<exists>s' t. buildRec A f dbg n w (filter (overlaps w) all) s = ret s' \<and> built all w n s s' t"
proof (induction "weight w (filter (overlaps w) all)" arbitrary: w n s rule: less_induct)
  case less
  let ?bs = "filter (overlaps w) all"
  show ?case
  proof (cases "bestDim A w ?bs")
    case None
    then show ?thesis using f less.prems(3) by (rule build_leaf [OF _ refl])
  next
    case (Some d)
    define p where "p = bestPos A w d (possibleSplits d w ?bs)"
    note sp = build_split [OF Some refl less.prems(1) arith, folded p_def]
    let ?L = "lBounds d p w" and ?R = "rBounds d p w" and ?c = "length (fst s)"
    let ?s0 = "(fst (makeInner n d p ?c s) @ [new_node A, new_node A], snd s)"
    have d: "d < 3" using sp(1) by (simp add: splits_at_def)
    have inner: "within ?L w" "within ?R w" "proper ?L" "proper ?R"
      using sides_within [OF sp(1)] sides_proper [OF sp(1) less.prems(2)] by blast+
    have cov: "dbg \<longrightarrow> covered all ?L" "dbg \<longrightarrow> covered all ?R"
      using less.prems(4) covered_within inner by blast+
    have ne: "\<not> (dbg \<and> (filter (overlaps ?L) all = [] \<or> filter (overlaps ?R) all = []))"
      using cov covered_nonempty inner(3,4) by blast
    have w: "weight ?L (filter (overlaps ?L) all) < weight w ?bs" "weight ?R (filter (overlaps ?R) all) < weight w ?bs"
      using within_overlaps inner(1,2) by (auto intro!: sides_weight [OF sp(1,2)])
    note nums = box_numbers_sides [OF less.prems(1) sp(3) d]
    have len0: "length (fst ?s0) = ?c + 2" by (simp add: makeInner_def)
    obtain s1 l where one: "buildRec A f dbg ?c ?L (filter (overlaps ?L) all) ?s0 = ret s1" "built all ?L ?c ?s0 s1 l"
      using less.hyps [OF w(1) nums(1) inner(3) _ cov(1), of ?c ?s0] unfolding len0 by auto
    have len1: "?c + 2 \<le> length (fst s1)" using one(2) len0 kd_leaves_pos [of l] by (simp add: built_def)
    obtain s2 r where two: "buildRec A f dbg (?c + 1) ?R (filter (overlaps ?R) all) s1 = ret s2" "built all ?R (?c + 1) s1 s2 r"
      using less.hyps [OF w(2) nums(2) inner(4) _ cov(2), of "?c + 1" s1] len1 by auto
    have "buildRec A f dbg n w ?bs s = ret s2"
      unfolding buildRec.simps [of A f dbg n w ?bs s] Some
      using sp(4,5) ne one(1) two(1) by (simp add: Let_def flip: p_def)
    then show ?thesis using built_inner [OF sp(1) less.prems(3) refl one(2) two(2)] by blast
  qed
qed

section \<open>Finding a leaf\<close>

lemma leaf_bricks:
  assumes "kd_ok all w (KLeaf v l)" and "inside w p"
  shows "mset l = mset (filter (\<lambda>b. inside (worldBounds b) p) all)"
proof -
  have "overlaps w b \<longleftrightarrow> inside (worldBounds b) p" if "b \<in> set all" for b
  proof
    assume "overlaps w b"
    then have "b \<in> set l" using assms(1) that by (simp flip: set_mset_mset)
    then have "within w (worldBounds b)" using assms(1) by (simp add: list_all_iff)
    then show "inside (worldBounds b) p" using assms(2) by (rule inside_within)
  qed (use inside_overlaps assms(2) in blast)
  then have "filter (overlaps w) all = filter (\<lambda>b. inside (worldBounds b) p) all" by (rule filter_cong [OF refl])
  then show ?thesis using assms(1) by simp
qed

lemma inside_sides:
  assumes "splits_at d x w" and "inside w p"
  shows "x \<le> coord d p \<Longrightarrow> inside (rBounds d x w) p" "\<not> x \<le> coord d p \<Longrightarrow> inside (lBounds d x w) p"
  using assms by (auto simp: inside_iff splits_at_def)

lemma findLeaf_ok:
  assumes small: "length (fst s) \<le> 2 ^ 30" "length (snd s) \<le> 2 ^ 30"
  shows "holds_tree s n a b t \<Longrightarrow> kd_ok all w t \<Longrightarrow> inside w p \<Longrightarrow>
    \<exists>v l. findLeaf s p n = ret \<lparr>leaf_bounds = v, brickList = l\<rparr> \<and> inside v p \<and> finest l \<and>
      mset l = mset (filter (\<lambda>b. inside (worldBounds b) p) all)"
proof (induction t arbitrary: n a b w)
  case (KLeaf v l)
  from KLeaf.prems(1) obtain i where i: "n < length (fst s)"
    "fst s ! n = \<lparr>ofs = i mod 2 ^ 30, dim = 3, pos_or_items = Num_items (length l mod 2 ^ 32)\<rparr>"
    "i < length (snd s)" "snd s ! i = \<lparr>leaf_bounds = v, brickList = l\<rparr>" by (rule holds_leafE) (rule that, simp_all)
  have "i mod 2 ^ 30 = i" using i(3) small(2) by simp
  then have "findLeaf s p n = ret \<lparr>leaf_bounds = v, brickList = l\<rparr>"
    using i by (simp add: findLeaf.simps [of s p n] isLeaf_def)
  then show ?case using KLeaf.prems(2,3) leaf_bricks [OF KLeaf.prems(2,3)] by simp
next
  case (KInner d x l r)
  from KInner.prems(1) obtain c m where c: "n < length (fst s)"
    "fst s ! n = \<lparr>ofs = c mod 2 ^ 30, dim = d, pos_or_items = Pos x\<rparr>" "d < 3" "c + 2 \<le> m" "m \<le> b" "b \<le> length (fst s)"
    "holds_tree s c (c + 2) m l" "holds_tree s (c + 1) m b r" by (rule holds_innerE) (rule that, simp_all)
  have ofs: "c mod 2 ^ 30 = c" using c(4,5,6) small(1) by simp
  have sp: "splits_at d x w" "kd_ok all (lBounds d x w) l" "kd_ok all (rBounds d x w) r" using KInner.prems(2) by simp_all
  have step: "findLeaf s p n = (if x \<le> coord d p then findLeaf s p (c + 1) else findLeaf s p c)"
    using c(1,2,3) ofs by (simp add: findLeaf.simps [of s p n] isLeaf_def)
  show ?case
    using KInner.IH(1) [OF c(7) sp(2)] KInner.IH(2) [OF c(8) sp(3)] inside_sides [OF sp(1) KInner.prems(3)] step by metis
qed

section \<open>The constructor\<close>

lemma fold_extend:
  assumes "d < 3" and "r = fold (\<lambda>b w. extend_box w (worldBounds b)) bs w"
  shows "coord d (blo r) \<le> coord d (blo w) \<and> (\<forall>b\<in>set bs. coord d (blo r) \<le> coord d (blo (worldBounds b))) \<and>
      coord d (blo r) \<in> insert (coord d (blo w)) ((\<lambda>b. coord d (blo (worldBounds b))) ` set bs) \<and>
    coord d (bhi w) \<le> coord d (bhi r) \<and> (\<forall>b\<in>set bs. coord d (bhi (worldBounds b)) \<le> coord d (bhi r)) \<and>
      coord d (bhi r) \<in> insert (coord d (bhi w)) ((\<lambda>b. coord d (bhi (worldBounds b))) ` set bs)"
  using assms(2)
proof (induction bs arbitrary: w)
  case (Cons b bs)
  have "r = fold (\<lambda>b w. extend_box w (worldBounds b)) bs (extend_box w (worldBounds b))" using Cons.prems by simp
  from Cons.IH [OF this] show ?case
    by (auto simp: extend_box_def min_def max_def split: if_splits)
qed simp

lemma numbers_member:
  "b \<in> set bs \<Longrightarrow> d < 3 \<Longrightarrow> coord d (blo (worldBounds b)) \<in> set (numbers_of bs) \<and> coord d (bhi (worldBounds b)) \<in> set (numbers_of bs)"
  using planes_numbers [of d bs] by (auto simp: planes_def)

lemma world_ok:
  assumes "bs \<noteq> []" and "arith_ok A bs"
  shows "box_numbers (world_of A bs) (set (numbers_of bs))" "b \<in> set bs \<Longrightarrow> within (worldBounds b) (world_of A bs)"
proof -
  obtain b0 where b0: "b0 \<in> set bs" using assms(1) by (cases bs) auto
  have fin: "neg_inf A \<le> x \<and> x \<le> pos_inf A" if "x \<in> set (numbers_of bs)" for x
    using assms(2) that by (simp add: arith_ok_def Let_def list_all_iff)
  have empty: "coord d (blo (empty_box A)) = pos_inf A" "coord d (bhi (empty_box A)) = neg_inf A" for d
    by (simp_all add: empty_box_def)
  show "box_numbers (world_of A bs) (set (numbers_of bs))"
    unfolding box_numbers_def
  proof (intro allI impI)
    fix d :: nat assume d: "d < 3"
    note e = fold_extend [OF d world_of_def [of A bs], unfolded empty]
    have n: "coord d (blo (worldBounds b0)) \<in> set (numbers_of bs)" "coord d (bhi (worldBounds b0)) \<in> set (numbers_of bs)"
      using numbers_member [OF b0 d] by simp_all
    have "coord d (blo (world_of A bs)) \<le> coord d (blo (worldBounds b0))" "coord d (bhi (worldBounds b0)) \<le> coord d (bhi (world_of A bs))"
      using e b0 by blast+
    with e n fin [OF n(1)] fin [OF n(2)] numbers_member [OF _ d, of _ bs]
    show "coord d (blo (world_of A bs)) \<in> set (numbers_of bs) \<and> coord d (bhi (world_of A bs)) \<in> set (numbers_of bs)"
      by (auto dest: antisym)
  qed
  show "b \<in> set bs \<Longrightarrow> within (worldBounds b) (world_of A bs)"
    unfolding within_iff using fold_extend [OF _ world_of_def [of A bs]] by blast
qed

lemma all_overlap:
  assumes "\<forall>b\<in>set bs. proper (worldBounds b)" and "\<forall>b\<in>set bs. within (worldBounds b) w"
  shows "filter (overlaps w) bs = bs"
  using assms by (fastforce simp: filter_id_conv overlaps_iff proper_iff within_iff max_def min_def)

definition level_known :: "'c amr_arith \<Rightarrow> 'c brick list \<Rightarrow> 'c kd_level list \<Rightarrow> 'c brick \<Rightarrow> bool" where
  "level_known A bs ls b \<longleftrightarrow> brick_level b < int (length ls) \<and>
     (\<exists>c\<in>set bs. brick_level c = brick_level b \<and> ls ! nat (brick_level b) = level_entry A c)"

lemma add_level_ok:
  assumes "0 \<le> brick_level b"
  shows "\<exists>ls'. add_level A b ls = Inr ls' \<and> level_known A [b] ls' b \<and>
    (\<forall>c. 0 \<le> brick_level c \<and> brick_level c \<noteq> brick_level b \<and> level_known A bs ls c \<longrightarrow> level_known A bs ls' c)"
  using assms by (auto simp: add_level_def level_known_def Let_def nth_append nth_list_update nat_less_iff split: if_splits)

lemma level_known_mono: "level_known A bs ls b \<Longrightarrow> set bs \<subseteq> set cs \<Longrightarrow> brick_level c = brick_level b \<Longrightarrow> level_known A cs ls c"
  by (auto simp: level_known_def)

lemma add_levels_ok:
  "\<forall>b\<in>set bs. 0 \<le> brick_level b \<Longrightarrow> \<forall>c\<in>set ds. 0 \<le> brick_level c \<and> level_known A ds ls c \<Longrightarrow>
   \<exists>ls'. add_levels A bs ls = Inr ls' \<and> (\<forall>c\<in>set (ds @ bs). level_known A (ds @ bs) ls' c)"
proof (induction bs arbitrary: ds ls)
  case Nil
  then show ?case by simp
next
  case (Cons b bs)
  obtain ls1 where ls1: "add_level A b ls = Inr ls1" "level_known A [b] ls1 b"
    "\<And>c. 0 \<le> brick_level c \<Longrightarrow> brick_level c \<noteq> brick_level b \<Longrightarrow> level_known A ds ls c \<Longrightarrow> level_known A ds ls1 c"
    using add_level_ok [of b A ls ds] Cons.prems(1) by auto
  have "level_known A (ds @ [b]) ls1 c" if "c \<in> set (ds @ [b])" for c
  proof (cases "brick_level c = brick_level b")
    case True
    then show ?thesis using level_known_mono [OF ls1(2), of "ds @ [b]" c] by simp
  next
    case False
    then have "level_known A ds ls1 c" using that Cons.prems(2) ls1(3) [of c] by auto
    then show ?thesis using level_known_mono [of A ds ls1 c "ds @ [b]" c] by auto
  qed
  then have "\<forall>c\<in>set (ds @ [b]). 0 \<le> brick_level c \<and> level_known A (ds @ [b]) ls1 c" using Cons.prems by auto
  from Cons.IH [OF _ this] show ?case using Cons.prems(1) ls1(1) by simp
qed

section \<open>Properties\<close>

text \<open>C29 The tree over the bricks of an AMR volume answers every position.  For bricks with positive extent
  and levels from 0 on, a sort of the standard library, and finite numbers, the constructor
  returns, also with assertions when the bricks leave no gap.  Its world bounds contain all bricks, the table of levels
  has an entry for the level of each brick, and there is one leaf more than inner nodes.  When the
  offsets fit in their 30 bits, the descent from the root ends for every position inside of the world bounds in a leaf
  around the position, whose bricks are exactly those that contain the position, the finest first.\<close>
theorem amr_tree_answers:
  assumes bs: "bs \<noteq> []" "\<forall>b\<in>set bs. proper (worldBounds b) \<and> 0 \<le> brick_level b"
    and f: "sorts_levels f" and arith: "arith_ok A bs" and dbg: "dbg \<longrightarrow> covered bs (world_of A bs)"
  shows "\<exists>a. AMRAccel A f dbg bs = ret a \<and>
    (\<forall>b\<in>set bs. within (worldBounds b) (accel_bounds a) \<and> level_known A bs (accel_level a) b) \<and>
    length (accel_node a) + 1 = 2 * length (accel_leaf a) \<and>
    (length (accel_node a) \<le> 2 ^ 30 \<longrightarrow> (\<forall>p. inside (accel_bounds a) p \<longrightarrow>
      (\<exists>v l. findLeaf (accel_node a, accel_leaf a) p 0 = ret \<lparr>leaf_bounds = v, brickList = l\<rparr> \<and> inside v p \<and>
        finest l \<and> mset l = mset (filter (\<lambda>b. inside (worldBounds b) p) bs))))"
proof -
  let ?w = "world_of A bs" and ?s0 = "([new_node A], [])"
  have within: "\<forall>b\<in>set bs. within (worldBounds b) ?w" using world_ok(2) [OF bs(1) arith] by blast
  have all: "filter (overlaps ?w) bs = bs" by (rule all_overlap) (use bs within in auto)
  have proper: "proper ?w"
    using bs within within_proper by (cases bs) auto
  obtain s t where s: "buildRec A f dbg 0 ?w bs ?s0 = ret s" "built bs ?w 0 ?s0 s t"
    using build_ok [OF f arith world_ok(1) [OF bs(1) arith] proper, of 0 ?s0 dbg] dbg unfolding all by auto
  obtain ls where ls: "add_levels A bs [] = Inr ls" "\<forall>b\<in>set bs. level_known A bs ls b"
    using add_levels_ok [of bs "[]" A "[]"] bs(2) by auto
  have sizes: "length (fst s) + 1 = 2 * length (snd s)" using s(2) by (auto simp: built_def)
  have "\<exists>v l. findLeaf (fst s, snd s) p 0 = ret \<lparr>leaf_bounds = v, brickList = l\<rparr> \<and> inside v p \<and>
      finest l \<and> mset l = mset (filter (\<lambda>b. inside (worldBounds b) p) bs)" if "length (fst s) \<le> 2 ^ 30" "inside ?w p" for p
  proof -
    have small: "length (snd s) \<le> 2 ^ 30" using that(1) sizes by simp
    have "holds_tree s 0 1 (length (fst s)) t" "kd_ok bs ?w t" using s(2) by (simp_all add: built_def)
    from findLeaf_ok [OF that(1) small this that(2)] show ?thesis by simp
  qed
  moreover have "AMRAccel A f dbg bs = ret \<lparr>accel_level = ls, accel_node = fst s, accel_leaf = snd s, accel_bounds = ?w\<rparr>"
    by (simp add: AMRAccel_def Let_def ls(1) s(1))
  ultimately show ?thesis
    using within ls(2) sizes by (intro exI [of _ "\<lparr>accel_level = ls, accel_node = fst s, accel_leaf = snd s, accel_bounds = ?w\<rparr>"])
      (simp only: amr_accel.select_convs simp_thms ball_simps, blast)
qed

text \<open>Two levels over the integers: a root brick of four cells and a finer one over its first two.\<close>

definition int_arith :: "int amr_arith" where
  "int_arith = \<lparr>pos_inf = 1000, neg_inf = - 1000, zero_f = 0, minus_f = (-), middle = (\<lambda>a b. (a + b) div 2),
     distance = (\<lambda>a b. abs (a - b)), of_cell = (\<lambda>x. x), times_f = (*), half_f = (\<lambda>x. x div 2), rcp_f = (\<lambda>x. 1), rcp_fast = (\<lambda>x. 1)\<rparr>"

definition two_bricks :: "int brick list" where
  "two_bricks = map (\<lambda>(i, v). Brick int_arith i v)
     [(\<lparr>info_lower = (0, 0, 0), info_upper = (3, 0, 0), info_level = 0, info_cellWidth = 2\<rparr>, 11),
      (\<lparr>info_lower = (0, 0, 0), info_upper = (3, 1, 1), info_level = 1, info_cellWidth = 1\<rparr>, 22)]"

lemma sort_by_level: "sorts_levels (sort_key (\<lambda>b. - brick_level b))"
  by (simp add: sorts_levels_def finest_def) (metis (mono_tags, lifting) neg_le_iff_le sorted_map sorted_sort_key sorted_wrt_mono_rel)

definition by_level :: "int brick list \<Rightarrow> int brick list" where
  "by_level = sort_key (\<lambda>b. - brick_level b)"

lemma two_bricks_tree:
  "\<exists>a. AMRAccel int_arith by_level True two_bricks = ret a \<and> length (accel_node a) = 3 \<and>
     accel_bounds a = \<lparr>blo = (0, 0, 0), bhi = (8, 2, 2)\<rparr>"
proof -
  let ?w = "\<lparr>blo = (0, 0, 0), bhi = (8, 2, 2)\<rparr> :: int amr_box" and ?f = by_level
  let ?l = "lBounds 0 4 ?w" and ?r = "rBounds 0 4 ?w" and ?s0 = "([new_node int_arith], [])"
  let ?s = "(fst (makeInner 0 0 4 1 ?s0) @ [new_node int_arith, new_node int_arith], [])"
  have "world_of int_arith two_bricks = ?w" by code_simp
  moreover have "\<exists>ls. add_levels int_arith two_bricks [] = Inr ls"
    using add_levels_ok [of two_bricks "[]" int_arith "[]"] by (auto simp: two_bricks_def Brick_def Let_def)
  moreover have dims: "bestDim int_arith ?w two_bricks = Some 0" "bestPos int_arith ?w 0 (possibleSplits 0 ?w two_bricks) = 4"
    "split_bricks 0 4 ?w two_bricks ([], []) = Inr (two_bricks, [two_bricks ! 0])"
    "clips_ok ?w two_bricks" "bestDim int_arith ?l two_bricks = None" "clips_ok ?l two_bricks"
    "bestDim int_arith ?r [two_bricks ! 0] = None" "clips_ok ?r [two_bricks ! 0]"
    by code_simp+
  moreover have "two_bricks \<noteq> []" by code_simp
  moreover have left: "buildRec int_arith ?f True 1 ?l two_bricks s = ret (makeLeaf ?f 1 ?l two_bricks s)" for s
    using dims by (simp add: buildRec.simps [of _ _ _ _ ?l])
  moreover have right: "buildRec int_arith ?f True (Suc 1) ?r [two_bricks ! 0] s = ret (makeLeaf ?f (Suc 1) ?r [two_bricks ! 0] s)" for s
    using dims by (simp add: buildRec.simps [of _ _ _ _ ?r])
  ultimately show ?thesis
    by (auto simp: AMRAccel_def Let_def buildRec.simps [of _ _ _ _ ?w] makeInner_def makeLeaf_def)
qed

lemma amr_tree_answers_witness:
  "\<exists>a v l. AMRAccel int_arith by_level True two_bricks = ret a \<and>
     findLeaf (accel_node a, accel_leaf a) (1, 0, 1) 0 = ret \<lparr>leaf_bounds = v, brickList = l\<rparr> \<and> map brick_level l = [1, 0]"
proof -
  have world: "world_of int_arith two_bricks = \<lparr>blo = (0, 0, 0), bhi = (8, 2, 2)\<rparr>" by code_simp
  have first: "two_bricks ! 0 \<in> set two_bricks" "worldBounds (two_bricks ! 0) = \<lparr>blo = (0, 0, 0), bhi = (8, 2, 2)\<rparr>" by code_simp+
  have "covered two_bricks (world_of int_arith two_bricks)" using first unfolding covered_def world by metis
  moreover have "list_all (\<lambda>b. proper (worldBounds b) \<and> 0 \<le> brick_level b) two_bricks" by code_simp
  then have "\<forall>b\<in>set two_bricks. proper (worldBounds b) \<and> 0 \<le> brick_level b" by (simp only: list_all_iff)
  moreover have "arith_ok int_arith two_bricks" "two_bricks \<noteq> []" by code_simp+
  moreover have "sorts_levels by_level" unfolding by_level_def by (rule sort_by_level)
  ultimately obtain a where a: "AMRAccel int_arith by_level True two_bricks = ret a"
    "\<And>p. length (accel_node a) \<le> 2 ^ 30 \<Longrightarrow> inside (accel_bounds a) p \<Longrightarrow>
      \<exists>v l. findLeaf (accel_node a, accel_leaf a) p 0 = ret \<lparr>leaf_bounds = v, brickList = l\<rparr> \<and>
        finest l \<and> mset l = mset (filter (\<lambda>b. inside (worldBounds b) p) two_bricks)"
    using amr_tree_answers [of two_bricks by_level int_arith True] by blast
  have "length (accel_node a) \<le> 2 ^ 30" "inside (accel_bounds a) (1, 0, 1)"
    using two_bricks_tree a(1) by (auto simp: inside_iff less_3)
  from a(2) [OF this] obtain v l where l: "findLeaf (accel_node a, accel_leaf a) (1, 0, 1) 0 = ret \<lparr>leaf_bounds = v, brickList = l\<rparr>"
    "finest l" "mset l = mset (filter (\<lambda>b. inside (worldBounds b) (1, 0, 1)) two_bricks)" by blast
  have "filter (\<lambda>b. inside (worldBounds b) (1, 0, 1)) two_bricks = two_bricks" by code_simp
  then have "mset (map brick_level l) = mset (map brick_level two_bricks)" using l(3) by (simp only: mset_map)
  also have "map brick_level two_bricks = [0, 1]" by code_simp
  finally have "mset (map brick_level (rev l)) = mset [0, 1]" by simp
  moreover have "sorted (map brick_level (rev l))" using l(2) by (simp add: finest_def sorted_wrt_rev sorted_wrt_map flip: rev_map)
  ultimately have "sort [0, 1] = map brick_level (rev l)" by (rule properties_for_sort)
  then have "map brick_level (rev l) = [0, 1]" by simp
  then have "rev (map brick_level (rev l)) = rev [0, 1]" by (rule arg_cong)
  then have "map brick_level l = [1, 0]" by (simp flip: rev_map)
  with a(1) l(1) show ?thesis by (intro exI conjI)
qed

end
