(* ===== verification/BvhTree.thy ===== *)
theory BvhTree
  imports Prelude "HOL-Library.Multiset"
begin

text \<open>
  Unstructured volumes (\<open>ospray/volume/unstructured\<close>): the boxes of the cells, the bounding volume hierarchy
  \<open>MinMaxBVH2\<close> that is built over them in place, and the traversal of one position in a kernel.  Floating point
  numbers are the values of a linear order, the operations on them an argument.
\<close>

section \<open>Boxes with an attribute range\<close>

type_synonym 'c vec4 = "'c \<times> 'c \<times> 'c \<times> 'c"

fun coord4 :: "nat \<Rightarrow> 'c vec4 \<Rightarrow> 'c" where
  "coord4 d (x, y, z, w) = (if d = 0 then x else if d = 1 then y else if d = 2 then z else w)"

fun zip4 :: "('a \<Rightarrow> 'b \<Rightarrow> 'c) \<Rightarrow> 'a vec4 \<Rightarrow> 'b vec4 \<Rightarrow> 'c vec4" where
  "zip4 f (x, y, z, w) (a, b, c, d) = (f x a, f y b, f z c, f w d)"

record 'c box4 =
  lo4 :: "'c vec4"
  hi4 :: "'c vec4"

record 'c bvh_arith =
  inf_c :: 'c
  ninf_c :: 'c
  tiny_c :: 'c
  of_nat_c :: "nat \<Rightarrow> 'c"
  add_c :: "'c \<Rightarrow> 'c \<Rightarrow> 'c"
  sub_c :: "'c \<Rightarrow> 'c \<Rightarrow> 'c"
  mul_c :: "'c \<Rightarrow> 'c \<Rightarrow> 'c"
  div_c :: "'c \<Rightarrow> 'c \<Rightarrow> 'c"
  abs_c :: "'c \<Rightarrow> 'c"
  mid_c :: "'c \<Rightarrow> 'c \<Rightarrow> 'c"

definition empty4 :: "'c bvh_arith \<Rightarrow> 'c box4" where
  "empty4 A = \<lparr>lo4 = (inf_c A, inf_c A, inf_c A, inf_c A), hi4 = (ninf_c A, ninf_c A, ninf_c A, ninf_c A)\<rparr>"

definition extend4 :: "'c::linorder box4 \<Rightarrow> 'c box4 \<Rightarrow> 'c box4" where
  "extend4 b t = \<lparr>lo4 = zip4 min (lo4 b) (lo4 t), hi4 = zip4 max (hi4 b) (hi4 t)\<rparr>"

definition extend_point :: "'c::linorder box4 \<Rightarrow> 'c vec4 \<Rightarrow> 'c box4" where
  "extend_point b p = extend4 b \<lparr>lo4 = p, hi4 = p\<rparr>"

definition center4 :: "'c bvh_arith \<Rightarrow> 'c box4 \<Rightarrow> 'c vec4" where
  "center4 A b = zip4 (mid_c A) (lo4 b) (hi4 b)"

definition size4 :: "'c bvh_arith \<Rightarrow> 'c box4 \<Rightarrow> 'c vec4" where
  "size4 A b = zip4 (sub_c A) (hi4 b) (lo4 b)"

fun safeArea :: "'c::linorder bvh_arith \<Rightarrow> 'c box4 \<Rightarrow> 'c" where
  "safeArea A b = (case size4 A b of (x, y, z, _) \<Rightarrow>
     max (abs_c A (add_c A (add_c A (mul_c A x y) (mul_c A x z)) (mul_c A y z))) (tiny_c A))"

fun arg_max3 :: "'c::linorder vec4 \<Rightarrow> nat" where
  "arg_max3 v = (let i = (if coord4 1 v > coord4 0 v then 1 else 0) in if coord4 2 v > coord4 i v then 2 else i)"

section \<open>Building the hierarchy\<close>

record 'c bvh_node =
  node_box :: "'c box4"
  childRef :: u64

record 'c bvh =
  bvh_node :: "'c bvh_node list"
  primID :: "nat list"
  tmp_primID :: "nat list"
  overallBounds :: "'c box4"

definition new_bvh_node :: "'c bvh_arith \<Rightarrow> 'c bvh_node" where
  "new_bvh_node A = \<lparr>node_box = empty4 A, childRef = 0\<rparr>"

definition segment :: "nat \<Rightarrow> nat \<Rightarrow> 'a list \<Rightarrow> 'a list" where
  "segment b e xs = take (e - b) (drop b xs)"

text \<open>The loop that moves the references of a range to both ends of the temporary array.\<close>

record 'c part_state =
  part_l :: nat
  part_r :: nat
  part_tmp :: "nat list"
  part_lBounds :: "'c box4"
  part_rBounds :: "'c box4"

definition part_step :: "('c box4 \<Rightarrow> bool) \<Rightarrow> 'c::linorder box4 list \<Rightarrow> nat \<Rightarrow> 'c part_state \<Rightarrow> 'c part_state" where
  "part_step left pb x s = (if left (pb ! x)
     then s\<lparr>part_tmp := (part_tmp s)[part_l s := x], part_l := part_l s + 1, part_lBounds := extend4 (part_lBounds s) (pb ! x)\<rparr>
     else s\<lparr>part_tmp := (part_tmp s)[part_r s - 1 := x], part_r := part_r s - 1, part_rBounds := extend4 (part_rBounds s) (pb ! x)\<rparr>)"

definition partition_prims :: "'c::linorder bvh_arith \<Rightarrow> ('c box4 \<Rightarrow> bool) \<Rightarrow> 'c box4 list \<Rightarrow> nat \<Rightarrow> nat \<Rightarrow> 'c bvh \<Rightarrow> 'c part_state" where
  "partition_prims A left pb b e s = fold (part_step left pb) (segment b e (primID s))
     \<lparr>part_l = b, part_r = e, part_tmp = tmp_primID s, part_lBounds = empty4 A, part_rBounds = empty4 A\<rparr>"

definition bounds4_of :: "'c::linorder bvh_arith \<Rightarrow> 'c box4 list \<Rightarrow> nat list \<Rightarrow> 'c box4" where
  "bounds4_of A pb ids = fold (\<lambda>x w. extend4 w (pb ! x)) ids (empty4 A)"

definition centBounds :: "'c::linorder bvh_arith \<Rightarrow> 'c box4 list \<Rightarrow> nat list \<Rightarrow> 'c box4" where
  "centBounds A pb ids = fold (\<lambda>x w. extend_point w (center4 A (pb ! x))) ids (empty4 A)"

definition costIfSplit :: "'c::linorder bvh_arith \<Rightarrow> 'c box4 \<Rightarrow> nat \<Rightarrow> nat \<Rightarrow> 'c part_state \<Rightarrow> 'c" where
  "costIfSplit A bounds b e q = add_c A (of_nat_c A 1) (mul_c A (div_c A (of_nat_c A 1) (safeArea A bounds))
     (add_c A (mul_c A (safeArea A (part_lBounds q)) (of_nat_c A (part_l q - b)))
              (mul_c A (safeArea A (part_rBounds q)) (of_nat_c A (e - part_l q)))))"

text \<open>A box is on the left side when its center lies before the center of all centers, in the dimension in which
  these lie farthest apart.\<close>

definition left_of :: "'c::linorder bvh_arith \<Rightarrow> 'c box4 \<Rightarrow> 'c box4 \<Rightarrow> bool" where
  "left_of A cents w = (let d = arg_max3 (size4 A cents) in coord4 d (center4 A w) < coord4 d (center4 A cents))"

text \<open>What a call does before it decides: the box of the node, the partition of the range, and whether the node
  becomes a leaf.\<close>

definition bvh_step :: "'c::linorder bvh_arith \<Rightarrow> 'c box4 list \<Rightarrow> nat \<Rightarrow> nat \<Rightarrow> nat \<Rightarrow> 'c bvh \<Rightarrow> nat \<times> bool \<times> 'c bvh" where
  "bvh_step A pb n b e s =
    (let ids = segment b e (primID s); bounds = bounds4_of A pb ids;
         q = partition_prims A (left_of A (centBounds A pb ids)) pb b e s; l = part_l q;
         s1 = s\<lparr>overallBounds := (if n = 0 then bounds else overallBounds s),
                bvh_node := (bvh_node s)[n := (bvh_node s ! n)\<lparr>node_box := bounds\<rparr>],
                tmp_primID := part_tmp q,
                primID := take b (primID s) @ segment b e (part_tmp q) @ drop e (primID s)\<rparr>
     in (l, (costIfSplit A bounds b e q \<ge> of_nat_c A (1 + (e - b)) \<and> e - b \<le> 7) \<or> l = b \<or> l = e, s1))"

definition leaf_ref :: "nat \<Rightarrow> nat \<Rightarrow> u64" where
  "leaf_ref b e = of_nat (e - b) + of_nat b * 8"

definition inner_ref :: "nat \<Rightarrow> u64" where
  "inner_ref child = of_nat child * 40"

definition set_ref :: "nat \<Rightarrow> u64 \<Rightarrow> 'c bvh \<Rightarrow> 'c bvh" where
  "set_ref n r s = s\<lparr>bvh_node := (bvh_node s)[n := (bvh_node s ! n)\<lparr>childRef := r\<rparr>]\<rparr>"

definition push_nodes :: "'c bvh_arith \<Rightarrow> 'c bvh \<Rightarrow> 'c bvh" where
  "push_nodes A s = s\<lparr>bvh_node := bvh_node s @ [new_bvh_node A, new_bvh_node A]\<rparr>"

lemma part_steps_l:
  "part_l (fold (part_step left pb) ids q) = part_l q + length (filter (\<lambda>x. left (pb ! x)) ids)"
  by (induction ids arbitrary: q) (simp_all add: part_step_def)

lemma bvh_step_l:
  "fst (bvh_step A pb n b e s) = b + length (filter (\<lambda>x. left_of A (centBounds A pb (segment b e (primID s))) (pb ! x)) (segment b e (primID s)))"
  by (simp add: bvh_step_def Let_def partition_prims_def part_steps_l)

lemma length_segment [simp]: "length (segment b e xs) = min (length xs - b) (e - b)"
  by (simp add: segment_def)

lemma bvh_step_inside:
  assumes "bvh_step A pb n b e s = (l, leaf, s1)" and "\<not> leaf" shows "b < l \<and> l < e"
proof -
  have "length (filter P (segment b e (primID s))) \<le> e - b" for P
    by (rule order_trans [OF length_filter_le]) simp
  then have "b \<le> l \<and> l \<le> b + (e - b)"
    using bvh_step_l [of A pb n b e s] unfolding assms(1) by simp
  moreover have "l \<noteq> b" "l \<noteq> e" using assms by (auto simp: bvh_step_def Let_def)
  ultimately show ?thesis by linarith
qed

function bvh_buildRec :: "'c::linorder bvh_arith \<Rightarrow> 'c box4 list \<Rightarrow> nat \<Rightarrow> nat \<Rightarrow> nat \<Rightarrow> 'c bvh \<Rightarrow> 'c bvh res" where
  "bvh_buildRec A pb n b e s =
    (if list_ex (\<lambda>x. length pb \<le> x) (segment b e (primID s)) then Inl Undefined_behaviour
     else case bvh_step A pb n b e s of (l, leaf, s1) \<Rightarrow>
       if leaf then Inr (set_ref n (leaf_ref b e) s1)
       else let child = length (bvh_node s1) in
         bind_res (bvh_buildRec A pb child b l (push_nodes A (set_ref n (inner_ref child) s1)))
           (\<lambda>s. bvh_buildRec A pb (child + 1) l e s))"
  by pat_completeness auto
termination
  by (relation "measure (\<lambda>(A, pb, n, b, e, s). e - b)") (auto dest!: bvh_step_inside [OF sym])

declare bvh_buildRec.simps [simp del]

definition bvh_build :: "'c::linorder bvh_arith \<Rightarrow> 'c box4 list \<Rightarrow> nat list \<Rightarrow> 'c bvh res" where
  "bvh_build A pb refs = bvh_buildRec A pb 0 0 (length refs)
     \<lparr>bvh_node = [new_bvh_node A, new_bvh_node A], primID = refs, tmp_primID = replicate (length refs) 0, overallBounds = empty4 A\<rparr>"

definition rootRef :: "'c bvh \<Rightarrow> u64" where
  "rootRef s = childRef (bvh_node s ! 0)"

section \<open>Traversal\<close>

unbundle bit_operations_syntax

fun pointInAABBTest :: "'c::linorder box4 \<Rightarrow> 'c \<times> 'c \<times> 'c \<Rightarrow> bool" where
  "pointInAABBTest b (x, y, z) \<longleftrightarrow> x \<ge> coord4 0 (lo4 b) \<and> y \<ge> coord4 1 (lo4 b) \<and> z \<ge> coord4 2 (lo4 b) \<and>
     x \<le> coord4 0 (hi4 b) \<and> y \<le> coord4 1 (hi4 b) \<and> z \<le> coord4 2 (hi4 b)"

definition ref_count :: "u64 \<Rightarrow> nat" where
  "ref_count r = unat (r AND 7)"

definition ref_bytes :: "u64 \<Rightarrow> nat" where
  "ref_bytes r = unat (r AND NOT 7)"

text \<open>The primitives that a kernel tests for a position, in their order.  The stack has 32 entries.\<close>

partial_function (option) bvh_candidates ::
  "'c::linorder bvh_node list \<Rightarrow> nat list \<Rightarrow> 'c \<times> 'c \<times> 'c \<Rightarrow> u64 \<Rightarrow> u64 list \<Rightarrow> nat list \<Rightarrow> nat list outcome" where
  "bvh_candidates nodes prims p ref stack acc =
    (let k = ref_count ref; byte_ofs = ref_bytes ref in
     if k = 0 then
       (if byte_ofs mod 40 \<noteq> 0 \<or> length nodes < byte_ofs div 40 + 2 then raise Undefined_behaviour
        else let n0 = nodes ! (byte_ofs div 40); n1 = nodes ! (byte_ofs div 40 + 1) in
          if pointInAABBTest (node_box n0) p then
            (if pointInAABBTest (node_box n1) p
             then (if 32 \<le> length stack then raise Undefined_behaviour
                   else bvh_candidates nodes prims p (childRef n0) (childRef n1 # stack) acc)
             else bvh_candidates nodes prims p (childRef n0) stack acc)
          else if pointInAABBTest (node_box n1) p then bvh_candidates nodes prims p (childRef n1) stack acc
          else (case stack of [] \<Rightarrow> ret acc | r # st \<Rightarrow> bvh_candidates nodes prims p r st acc))
     else if length prims < byte_ofs div 8 + k then raise Undefined_behaviour
     else (case stack of [] \<Rightarrow> ret (acc @ take k (drop (byte_ofs div 8) prims))
        | r # st \<Rightarrow> bvh_candidates nodes prims p r st (acc @ take k (drop (byte_ofs div 8) prims))))"

section \<open>The tree in the arrays\<close>

text \<open>A primitive is inside of a box in the three dimensions of space.\<close>

definition contains :: "'c::linorder box4 \<Rightarrow> 'c box4 \<Rightarrow> bool" where
  "contains w v \<longleftrightarrow> list_all (\<lambda>d. coord4 d (lo4 w) \<le> coord4 d (lo4 v) \<and> coord4 d (hi4 v) \<le> coord4 d (hi4 w)) [0, 1, 2]"

lemma contains_point: "contains w v \<Longrightarrow> pointInAABBTest v p \<Longrightarrow> pointInAABBTest w p"
  by (cases p) (auto simp: contains_def)

lemma coord4_zip [simp]: "coord4 d (zip4 f a b) = f (coord4 d a) (coord4 d b)"
  by (cases a; cases b) simp

lemma contains_refl: "contains w w"
  by (simp add: contains_def)

lemma contains_extend: "contains (extend4 w v) v" "contains w u \<Longrightarrow> contains (extend4 w v) u"
  by (auto simp: contains_def extend4_def min_le_iff_disj le_max_iff_disj)

lemma bounds4_contains: "x \<in> set ids \<Longrightarrow> contains (bounds4_of A pb ids) (pb ! x)"
proof -
  have "x \<in> set ids \<or> contains w (pb ! x) \<Longrightarrow> contains (fold (\<lambda>x w. extend4 w (pb ! x)) ids w) (pb ! x)" for w
    by (induction ids arbitrary: w) (auto simp: contains_extend)
  then show "x \<in> set ids \<Longrightarrow> contains (bounds4_of A pb ids) (pb ! x)" by (simp add: bounds4_of_def)
qed

text \<open>The partition keeps the references of the range.\<close>

lemma segment_Suc: "l < r \<Longrightarrow> r \<le> length xs \<Longrightarrow> segment l r xs = xs ! l # segment (Suc l) r xs"
  by (simp add: segment_def Suc_diff_Suc Cons_nth_drop_Suc flip: take_Suc_Cons)

lemma segment_snoc: "l < r \<Longrightarrow> r \<le> length xs \<Longrightarrow> segment l r xs = segment l (r - 1) xs @ [xs ! (r - 1)]"
  using take_Suc_conv_app_nth [of "r - 1 - l" "drop l xs"] by (simp add: segment_def Suc_diff_Suc)

lemma part_steps_tmp:
  assumes "part_l q + length ids = part_r q" and "part_r q \<le> length (part_tmp q)"
  shows "segment (part_l q) (part_r q) (part_tmp (fold (part_step left pb) ids q)) =
      filter (\<lambda>x. left (pb ! x)) ids @ rev (filter (\<lambda>x. \<not> left (pb ! x)) ids) \<and>
    take (part_l q) (part_tmp (fold (part_step left pb) ids q)) = take (part_l q) (part_tmp q) \<and>
    drop (part_r q) (part_tmp (fold (part_step left pb) ids q)) = drop (part_r q) (part_tmp q) \<and>
    length (part_tmp (fold (part_step left pb) ids q)) = length (part_tmp q)"
  using assms
proof (induction ids arbitrary: q)
  case Nil
  then show ?case by (simp add: segment_def)
next
  case (Cons x ids)
  let ?q = "part_step left pb x q" and ?l = "part_l q" and ?r = "part_r q"
  let ?t = "part_tmp (fold (part_step left pb) ids ?q)"
  have lr: "?l < ?r" "?r \<le> length (part_tmp q)" using Cons.prems by simp_all
  show ?case
  proof (cases "left (pb ! x)")
    case True
    then have q: "part_l ?q = Suc ?l" "part_r ?q = ?r" "part_tmp ?q = (part_tmp q)[?l := x]" by (simp_all add: part_step_def)
    have ih: "segment (Suc ?l) ?r ?t = filter (\<lambda>x. left (pb ! x)) ids @ rev (filter (\<lambda>x. \<not> left (pb ! x)) ids)"
      "take (Suc ?l) ?t = take (Suc ?l) ((part_tmp q)[?l := x])" "drop ?r ?t = drop ?r ((part_tmp q)[?l := x])"
      "length ?t = length (part_tmp q)"
      using Cons.IH [of ?q] Cons.prems by (simp_all add: q)
    have "?t ! ?l = x" using arg_cong [OF ih(2), of "\<lambda>xs. xs ! ?l"] lr by simp
    moreover have "take ?l ?t = take ?l (part_tmp q)" using arg_cong [OF ih(2), of "take ?l"] by (simp add: min_def)
    ultimately show ?thesis using ih lr True segment_Suc [of ?l ?r ?t] by simp
  next
    case False
    then have q: "part_l ?q = ?l" "part_r ?q = ?r - 1" "part_tmp ?q = (part_tmp q)[?r - 1 := x]" by (simp_all add: part_step_def)
    have ih: "segment ?l (?r - 1) ?t = filter (\<lambda>x. left (pb ! x)) ids @ rev (filter (\<lambda>x. \<not> left (pb ! x)) ids)"
      "take ?l ?t = take ?l ((part_tmp q)[?r - 1 := x])" "drop (?r - 1) ?t = drop (?r - 1) ((part_tmp q)[?r - 1 := x])"
      "length ?t = length (part_tmp q)"
      using Cons.IH [of ?q] Cons.prems lr by (simp_all add: q)
    have "?t ! (?r - 1) = x" using arg_cong [OF ih(3), of hd] lr ih(4) by (simp add: hd_drop_conv_nth)
    moreover have "drop ?r ?t = drop ?r (part_tmp q)" using arg_cong [OF ih(3), of "drop 1"] lr by simp
    ultimately show ?thesis using ih lr False segment_snoc [of ?l ?r ?t] by simp
  qed
qed

text \<open>The ranges of references below the nodes.\<close>

datatype bvh_tree = BLeaf nat nat | BInner bvh_tree bvh_tree

fun tree_leaves :: "bvh_tree \<Rightarrow> nat" where
  "tree_leaves (BLeaf b e) = 1"
| "tree_leaves (BInner l r) = tree_leaves l + tree_leaves r"

fun tree_depth :: "bvh_tree \<Rightarrow> nat" where
  "tree_depth (BLeaf b e) = 0"
| "tree_depth (BInner l r) = Suc (max (tree_depth l) (tree_depth r))"

text \<open>A reference to a leaf has three bits for the number of its primitives.\<close>

fun leaves_fit :: "bvh_tree \<Rightarrow> bool" where
  "leaves_fit (BLeaf b e) \<longleftrightarrow> b < e \<and> e - b \<le> 7"
| "leaves_fit (BInner l r) \<longleftrightarrow> leaves_fit l \<and> leaves_fit r"

definition box_over :: "'c::linorder box4 list \<Rightarrow> 'c bvh \<Rightarrow> nat \<Rightarrow> nat \<Rightarrow> nat \<Rightarrow> bool" where
  "box_over pb s n b e \<longleftrightarrow> list_all (\<lambda>x. contains (node_box (bvh_node s ! n)) (pb ! x)) (segment b e (primID s))"

inductive holds_bvh :: "'c::linorder box4 list \<Rightarrow> 'c bvh \<Rightarrow> nat \<Rightarrow> nat \<Rightarrow> nat \<Rightarrow> nat \<Rightarrow> nat \<Rightarrow> bvh_tree \<Rightarrow> bool" for pb where
  holds_bleaf: "n < length (bvh_node s) \<Longrightarrow> childRef (bvh_node s ! n) = leaf_ref b e \<Longrightarrow> box_over pb s n b e \<Longrightarrow> b \<le> e \<Longrightarrow> e \<le> length (primID s) \<Longrightarrow>
    holds_bvh pb s n x y b e (BLeaf b e)"
| holds_binner: "n < length (bvh_node s) \<Longrightarrow> childRef (bvh_node s ! n) = inner_ref c \<Longrightarrow> box_over pb s n b e \<Longrightarrow> x \<le> c \<Longrightarrow> c + 2 \<le> z \<Longrightarrow> z \<le> y \<Longrightarrow>
    y \<le> length (bvh_node s) \<Longrightarrow> b < m \<Longrightarrow> m < e \<Longrightarrow> e \<le> length (primID s) \<Longrightarrow>
    holds_bvh pb s c (c + 2) z b m l \<Longrightarrow> holds_bvh pb s (c + 1) z y m e r \<Longrightarrow> holds_bvh pb s n x y b e (BInner l r)"

inductive_cases holds_bleafE: "holds_bvh pb s n x y b e (BLeaf b' e')"
inductive_cases holds_binnerE: "holds_bvh pb s n x y b e (BInner l r)"

lemma segment_cong:
  "length xs = length ys \<Longrightarrow> (\<forall>i. b \<le> i \<and> i < e \<longrightarrow> xs ! i = ys ! i) \<Longrightarrow> segment b e xs = segment b e ys"
  by (rule nth_equalityI) (auto simp: segment_def)

lemma box_over_cong:
  "bvh_node s' ! n = bvh_node s ! n \<Longrightarrow> segment b e (primID s') = segment b e (primID s) \<Longrightarrow> box_over pb s n b e \<Longrightarrow> box_over pb s' n b e"
  by (simp add: box_over_def)

lemma holds_bvh_frame:
  "holds_bvh pb s n x y b e t \<Longrightarrow> length (bvh_node s) \<le> length (bvh_node s') \<Longrightarrow> bvh_node s' ! n = bvh_node s ! n \<Longrightarrow>
   \<forall>i. x \<le> i \<and> i < y \<longrightarrow> bvh_node s' ! i = bvh_node s ! i \<Longrightarrow> length (primID s') = length (primID s) \<Longrightarrow>
   \<forall>i. b \<le> i \<and> i < e \<longrightarrow> primID s' ! i = primID s ! i \<Longrightarrow> holds_bvh pb s' n x y b e t"
proof (induction rule: holds_bvh.induct)
  case (holds_bleaf n s b e x y)
  have "segment b e (primID s') = segment b e (primID s)" using holds_bleaf.prems by (intro segment_cong) auto
  with holds_bleaf show ?case by (intro holds_bvh.holds_bleaf box_over_cong [of s' n s b e]) auto
next
  case (holds_binner n s c b e x z y m l r)
  have "segment b e (primID s') = segment b e (primID s)" using holds_binner.prems by (intro segment_cong) auto
  with holds_binner show ?case
    by (intro holds_bvh.holds_binner [where c = c and z = z and m = m] box_over_cong [of s' n s b e]) auto
qed

text \<open>What a call of \<open>buildRec\<close> for a node and a range does.\<close>

definition bvh_built :: "'c::linorder box4 list \<Rightarrow> nat \<Rightarrow> nat \<Rightarrow> nat \<Rightarrow> 'c bvh \<Rightarrow> 'c bvh \<Rightarrow> bvh_tree \<Rightarrow> bool" where
  "bvh_built pb n b e s s' t \<longleftrightarrow> holds_bvh pb s' n (length (bvh_node s)) (length (bvh_node s')) b e t \<and>
    length (bvh_node s') + 2 = length (bvh_node s) + 2 * tree_leaves t \<and>
    (\<forall>i<length (bvh_node s). i \<noteq> n \<longrightarrow> bvh_node s' ! i = bvh_node s ! i) \<and>
    length (primID s') = length (primID s) \<and> length (tmp_primID s') = length (tmp_primID s) \<and>
    (\<forall>i. \<not> (b \<le> i \<and> i < e) \<longrightarrow> primID s' ! i = primID s ! i) \<and>
    mset (segment b e (primID s')) = mset (segment b e (primID s))"

lemma bvh_builtD:
  assumes "bvh_built pb n b e s s' t"
  shows "holds_bvh pb s' n (length (bvh_node s)) (length (bvh_node s')) b e t"
    "length (bvh_node s') + 2 = length (bvh_node s) + 2 * tree_leaves t"
    "i < length (bvh_node s) \<Longrightarrow> i \<noteq> n \<Longrightarrow> bvh_node s' ! i = bvh_node s ! i"
    "length (primID s') = length (primID s)" "length (tmp_primID s') = length (tmp_primID s)"
    "\<not> (b \<le> i \<and> i < e) \<Longrightarrow> primID s' ! i = primID s ! i"
    "mset (segment b e (primID s')) = mset (segment b e (primID s))"
  using assms unfolding bvh_built_def by simp_all

text \<open>The state after the partition.\<close>

lemma bvh_step_ok:
  assumes step: "bvh_step A pb n b e s = (l, leaf, s1)" and n: "n < length (bvh_node s)"
    and be: "b \<le> e" "e \<le> length (primID s)" "length (tmp_primID s) = length (primID s)"
  shows "length (bvh_node s1) = length (bvh_node s)" "\<forall>i<length (bvh_node s). i \<noteq> n \<longrightarrow> bvh_node s1 ! i = bvh_node s ! i"
    "length (primID s1) = length (primID s)" "length (tmp_primID s1) = length (tmp_primID s)"
    "\<forall>i. \<not> (b \<le> i \<and> i < e) \<longrightarrow> primID s1 ! i = primID s ! i"
    "mset (segment b e (primID s1)) = mset (segment b e (primID s))" "box_over pb s1 n b e"
proof -
  let ?ids = "segment b e (primID s)"
  let ?left = "left_of A (centBounds A pb ?ids)"
  let ?q = "\<lparr>part_l = b, part_r = e, part_tmp = tmp_primID s, part_lBounds = empty4 A, part_rBounds = empty4 A\<rparr>"
  let ?t = "part_tmp (partition_prims A ?left pb b e s)"
  have len: "length ?ids = e - b" using be by simp
  have t: "segment b e ?t = filter (\<lambda>x. ?left (pb ! x)) ?ids @ rev (filter (\<lambda>x. \<not> ?left (pb ! x)) ?ids)" "length ?t = length (primID s)"
    using part_steps_tmp [of ?q ?ids ?left pb] be len by (simp_all add: partition_prims_def)
  have s1: "bvh_node s1 = (bvh_node s)[n := (bvh_node s ! n)\<lparr>node_box := bounds4_of A pb ?ids\<rparr>]" "tmp_primID s1 = ?t"
    "primID s1 = take b (primID s) @ segment b e ?t @ drop e (primID s)"
    using step by (auto simp: bvh_step_def Let_def)
  have lent: "length (segment b e ?t) = e - b" using t(2) be by simp
  show "length (bvh_node s1) = length (bvh_node s)" "\<forall>i<length (bvh_node s). i \<noteq> n \<longrightarrow> bvh_node s1 ! i = bvh_node s ! i"
    "length (tmp_primID s1) = length (tmp_primID s)"
    using s1 t(2) be by simp_all
  show "length (primID s1) = length (primID s)" using s1(3) lent be by simp
  show "\<forall>i. \<not> (b \<le> i \<and> i < e) \<longrightarrow> primID s1 ! i = primID s ! i"
    unfolding s1(3) using lent be by (auto simp: nth_append)
  have seg: "segment b e (primID s1) = segment b e ?t" unfolding s1(3) segment_def using lent be by (simp add: segment_def)
  have ms: "mset (segment b e ?t) = mset ?ids" unfolding t(1) by (simp flip: multiset_partition)
  show "mset (segment b e (primID s1)) = mset ?ids" unfolding seg by (rule ms)
  have "set (segment b e (primID s1)) = set ?ids" unfolding seg using ms by (rule mset_eq_setD)
  then show "box_over pb s1 n b e" using n bounds4_contains by (auto simp: box_over_def s1(1) list_all_iff)
qed

section \<open>Building ends and keeps every reference\<close>

lemma segment_append: "b \<le> m \<Longrightarrow> m \<le> e \<Longrightarrow> segment b e xs = segment b m xs @ segment m e xs"
  using take_add [of "m - b" "e - m" "drop b xs"] by (simp add: segment_def)

lemma tree_leaves_pos: "0 < tree_leaves t"
  by (induction t) simp_all

lemma set_ref_simps [simp]:
  "primID (set_ref n r s) = primID s" "tmp_primID (set_ref n r s) = tmp_primID s" "length (bvh_node (set_ref n r s)) = length (bvh_node s)"
  "primID (push_nodes A s) = primID s" "tmp_primID (push_nodes A s) = tmp_primID s"
  "length (bvh_node (push_nodes A s)) = length (bvh_node s) + 2"
  by (simp_all add: set_ref_def push_nodes_def)

lemma set_ref_node:
  "n < length (bvh_node s) \<Longrightarrow> bvh_node (set_ref n r s) ! i = (if i = n then (bvh_node s ! n)\<lparr>childRef := r\<rparr> else bvh_node s ! i)"
  "i < length (bvh_node s) \<Longrightarrow> bvh_node (push_nodes A s) ! i = bvh_node s ! i"
  by (simp_all add: set_ref_def push_nodes_def nth_append)

lemma box_over_set:
  assumes "box_over pb s n b e" and "node_box (bvh_node s' ! n) = node_box (bvh_node s ! n)"
    and "mset (segment b e (primID s')) = mset (segment b e (primID s))"
  shows "box_over pb s' n b e"
  using assms mset_eq_setD [OF assms(3)] by (simp add: box_over_def list_all_iff)

lemma bvh_leaf_built:
  assumes step: "bvh_step A pb n b e s = (l, leaf, s1)" and n: "n < length (bvh_node s)"
    and be: "b \<le> e" "e \<le> length (primID s)" "length (tmp_primID s) = length (primID s)"
  shows "bvh_built pb n b e s (set_ref n (leaf_ref b e) s1) (BLeaf b e)"
proof -
  note ok = bvh_step_ok [OF step n be]
  let ?s = "set_ref n (leaf_ref b e) s1"
  have "box_over pb ?s n b e" by (rule box_over_set [OF ok(7)]) (use ok(1) n in \<open>simp_all add: set_ref_node\<close>)
  then have "holds_bvh pb ?s n x y b e (BLeaf b e)" for x y
    by (intro holds_bleaf) (use n ok be in \<open>simp_all add: set_ref_node\<close>)
  then show ?thesis using ok n by (simp add: bvh_built_def set_ref_node)
qed

lemma bvh_inner_built:
  assumes step: "bvh_step A pb n b e s = (m, leaf, s1)" and n: "n < length (bvh_node s)"
    and be: "b \<le> e" "e \<le> length (primID s)" "length (tmp_primID s) = length (primID s)" and m: "b < m" "m < e"
    and c: "c = length (bvh_node s)" and s1': "s1' = push_nodes A (set_ref n (inner_ref c) s1)"
    and one: "bvh_built pb c b m s1' s2 l" and two: "bvh_built pb (c + 1) m e s2 s3 r"
  shows "bvh_built pb n b e s s3 (BInner l r)"
proof -
  note ok = bvh_step_ok [OF step n be]
  have len1: "length (bvh_node s1') = c + 2" using ok(1) by (simp add: s1' c)
  note o = bvh_builtD [OF one, unfolded len1] and t = bvh_builtD [OF two]
  have len: "c + 2 \<le> length (bvh_node s2)" "length (bvh_node s2) \<le> length (bvh_node s3)"
    using o(2) t(2) tree_leaves_pos [of l] tree_leaves_pos [of r] by linarith+
  have old: "bvh_node s3 ! i = bvh_node s1' ! i" if "i < c" for i using o(3) [of i] t(3) [of i] that len by simp
  have new: "bvh_node s1' ! i = (if i = n then (bvh_node s1 ! n)\<lparr>childRef := inner_ref c\<rparr> else bvh_node s1 ! i)" if "i < c" for i
    using that ok(1) n by (simp add: s1' c set_ref_node)
  have node: "bvh_node s3 ! n = (bvh_node s1 ! n)\<lparr>childRef := inner_ref c\<rparr>" using old [of n] new [of n] n by (simp add: c)
  have p1: "primID s1' = primID s1" "tmp_primID s1' = tmp_primID s1" by (simp_all add: s1')
  have prims: "length (primID s3) = length (primID s)" "length (tmp_primID s3) = length (tmp_primID s)"
    using o(4,5) t(4,5) ok(3,4) p1 by simp_all
  have left: "segment b m (primID s3) = segment b m (primID s2)" by (rule segment_cong [OF t(4)]) (use t(6) in auto)
  have right: "segment m e (primID s2) = segment m e (primID s1)"
    by (rule segment_cong [OF o(4) [unfolded p1]]) (use o(6) p1 in auto)
  have app: "segment b e xs = segment b m xs @ segment m e xs" for xs :: "nat list" using m by (intro segment_append) simp_all
  have ms: "mset (segment b e (primID s3)) = mset (segment b e (primID s1))"
    unfolding app mset_append left t(7) right o(7) p1 by (rule refl)
  have over: "box_over pb s3 n b e" by (rule box_over_set [OF ok(7) _ ms]) (simp add: node)
  have hl: "holds_bvh pb s3 c (c + 2) (length (bvh_node s2)) b m l"
    by (rule holds_bvh_frame [OF o(1) len(2)]) (use t(3,4,6) len in auto)
  have bounds: "n < length (bvh_node s3)" "e \<le> length (primID s3)" using n len c be prims by simp_all
  have ref: "childRef (bvh_node s3 ! n) = inner_ref c" by (simp add: node)
  have "holds_bvh pb s3 n c (length (bvh_node s3)) b e (BInner l r)"
    by (rule holds_binner [OF bounds(1) ref over order_refl len order_refl m bounds(2) hl t(1)])
  moreover have "bvh_node s3 ! i = bvh_node s ! i" if "i < length (bvh_node s)" "i \<noteq> n" for i
    using old [of i] new [of i] ok(2) that by (simp add: c)
  moreover have "primID s3 ! i = primID s ! i" if "\<not> (b \<le> i \<and> i < e)" for i
    using t(6) [of i] o(6) [of i] ok(5) that m p1 by auto
  moreover have "length (bvh_node s3) + 2 = length (bvh_node s) + 2 * tree_leaves (BInner l r)" using o(2) t(2) c by simp
  ultimately show ?thesis
    unfolding bvh_built_def c using prims ms [unfolded ok(6)]
    by (intro conjI allI impI) (assumption | simp only: c)+
qed

lemma bvh_buildRec_ok:
  "n < length (bvh_node s) \<Longrightarrow> b \<le> e \<Longrightarrow> e \<le> length (primID s) \<Longrightarrow> length (tmp_primID s) = length (primID s) \<Longrightarrow>
   \<forall>x\<in>set (segment b e (primID s)). x < length pb \<Longrightarrow>
   \<exists>s' t. bvh_buildRec A pb n b e s = Inr s' \<and> bvh_built pb n b e s s' t"
proof (induction A pb n b e s rule: bvh_buildRec.induct)
  case (1 A pb n b e s)
  obtain m leaf s1 where step: "bvh_step A pb n b e s = (m, leaf, s1)" by (cases "bvh_step A pb n b e s")
  note ok = bvh_step_ok [OF step 1(3-6)]
  have ids: "\<not> list_ex (\<lambda>x. length pb \<le> x) (segment b e (primID s))" using 1(7) by (auto simp: list_ex_iff)
  show ?case
  proof (cases leaf)
    case True
    then show ?thesis using bvh_leaf_built [OF step 1(3-6)] ids
      by (intro exI [of _ "set_ref n (leaf_ref b e) s1"] exI [of _ "BLeaf b e"]) (simp add: bvh_buildRec.simps [of A pb n b e s] step)
  next
    case False
    let ?c = "length (bvh_node s)" and ?s1 = "push_nodes A (set_ref n (inner_ref (length (bvh_node s))) s1)"
    have m: "b < m" "m < e" using bvh_step_inside [OF step False] by simp_all
    have set1: "set (segment b e (primID s1)) = set (segment b e (primID s))" using ok(6) by (rule mset_eq_setD)
    have parts: "set (segment b e (primID s1)) = set (segment b m (primID s1)) \<union> set (segment m e (primID s1))"
      using m by (simp add: segment_append [of b m e])
    have sub: "\<forall>x\<in>set (segment b m (primID s1)). x < length pb" "\<forall>x\<in>set (segment m e (primID s1)). x < length pb"
      using set1 parts 1(7) by blast+
    have "\<exists>s2 l. bvh_buildRec A pb ?c b m ?s1 = Inr s2 \<and> bvh_built pb ?c b m ?s1 s2 l"
      using 1(1) [OF ids step [symmetric] refl False, unfolded ok(1), OF refl] m 1(5,6) ok(1,3,4) sub(1) by simp
    then obtain s2 l where one: "bvh_buildRec A pb ?c b m ?s1 = Inr s2" "bvh_built pb ?c b m ?s1 s2 l" by blast
    have "segment m e (primID s2) = segment m e (primID s1)"
      by (rule segment_cong) (use one(2) in \<open>auto simp: bvh_built_def\<close>)
    moreover have "?c + 2 \<le> length (bvh_node s2)" "length (primID s2) = length (primID s)" "length (tmp_primID s2) = length (primID s)"
      using one(2) ok 1(6) tree_leaves_pos [of l] by (simp_all add: bvh_built_def)
    ultimately have "\<exists>s3 r. bvh_buildRec A pb (?c + 1) m e s2 = Inr s3 \<and> bvh_built pb (?c + 1) m e s2 s3 r"
      using 1(2) [OF ids step [symmetric] refl False, unfolded ok(1), OF refl, of s2] m 1(5,6) sub(2) by simp
    then obtain s3 r where two: "bvh_buildRec A pb (?c + 1) m e s2 = Inr s3" "bvh_built pb (?c + 1) m e s2 s3 r" by blast
    have "bvh_buildRec A pb n b e s = Inr s3"
      using ids False one(1) two(1) ok(1) by (simp add: bvh_buildRec.simps [of A pb n b e s] step Let_def)
    then show ?thesis using bvh_inner_built [OF step 1(3-6) m refl refl one(2) two(2)] by blast
  qed
qed

section \<open>Following references\<close>

lemma ref_parts: "ref_count r = unat r mod 8" "ref_bytes r = unat r div 8 * 8"
proof -
  have mask: "(7 :: u64) = mask 3" by (simp add: mask_eq_exp_minus_1)
  have "unat (take_bit 3 r) = take_bit 3 (unat r)" by (rule unsigned_take_bit_eq)
  then show "ref_count r = unat r mod 8"
    unfolding ref_count_def mask by (simp only: take_bit_eq_mask [symmetric]) (simp add: take_bit_eq_mod)
  have "r AND NOT 7 = push_bit 3 (drop_bit 3 r)"
    unfolding mask by (rule bit_word_eqI) (auto simp: bit_simps)
  moreover have "unat (push_bit 3 (drop_bit 3 r)) = unat r div 8 * 8"
  proof -
    have "unat r div 8 * 8 < 2 ^ 64" using unsigned_less [of r, where ?'a = nat] by (simp add: le_less_trans [OF div_times_less_eq_dividend])
    then show ?thesis
      by (simp only: unsigned_push_bit_eq unsigned_drop_bit_eq) (simp add: take_bit_nat_eq_self drop_bit_eq_div push_bit_eq_mult)
  qed
  ultimately show "ref_bytes r = unat r div 8 * 8" by (simp only: ref_bytes_def)
qed

lemma unat_small: "k < 2 ^ 64 \<Longrightarrow> unat (of_nat k :: u64) = k"
  by (simp add: unsigned_of_nat take_bit_nat_eq_self)

lemma leaf_ref_parts:
  assumes "e - b \<le> 7" "8 * b + 7 < 2 ^ 64"
  shows "ref_count (leaf_ref b e) = (e - b) mod 8" "ref_bytes (leaf_ref b e) = 8 * b"
proof -
  have "leaf_ref b e = of_nat (e - b + 8 * b)" by (simp add: leaf_ref_def mult.commute)
  then have "unat (leaf_ref b e) = e - b + 8 * b" using assms by (simp only: unat_small)
  then show "ref_count (leaf_ref b e) = (e - b) mod 8" "ref_bytes (leaf_ref b e) = 8 * b"
    using assms(1) by (simp_all add: ref_parts)
qed

lemma inner_ref_parts:
  assumes "40 * c < 2 ^ 64" shows "ref_count (inner_ref c) = 0" "ref_bytes (inner_ref c) = 40 * c"
proof -
  have "inner_ref c = of_nat (40 * c)" by (simp add: inner_ref_def mult.commute)
  then have u: "unat (inner_ref c) = 40 * c" using assms by (simp only: unat_small)
  show "ref_count (inner_ref c) = 0" "ref_bytes (inner_ref c) = 40 * c"
    by (simp_all add: ref_parts u)
qed

text \<open>The rest of a traversal after a subtree.\<close>

definition pop_stack :: "'c::linorder bvh \<Rightarrow> 'c \<times> 'c \<times> 'c \<Rightarrow> u64 list \<Rightarrow> nat list \<Rightarrow> nat list outcome" where
  "pop_stack s p stack acc = (case stack of [] \<Rightarrow> ret acc | r # st \<Rightarrow> bvh_candidates (bvh_node s) (primID s) p r st acc)"

lemma candidates_leaf:
  assumes "leaves_fit (BLeaf b e)" and "e \<le> length (primID s)" and "length (primID s) < 2 ^ 60"
  shows "bvh_candidates (bvh_node s) (primID s) p (leaf_ref b e) stack acc = pop_stack s p stack (acc @ segment b e (primID s))"
proof -
  have small: "8 * b + 7 < 2 ^ 64" and k: "0 < e - b" "e - b \<le> 7" "b + (e - b) \<le> length (primID s)" using assms by simp_all
  note parts = leaf_ref_parts [OF k(2) small]
  have "(e - b) mod 8 = e - b" using k by simp
  then show ?thesis
    using k by (simp add: bvh_candidates.simps [of _ _ _ "leaf_ref b e"] parts Let_def pop_stack_def segment_def split: list.split)
qed

lemma candidates_inner:
  assumes "40 * c < 2 ^ 64" and "c + 2 \<le> length (bvh_node s)" and "length stack < 32"
  shows "bvh_candidates (bvh_node s) (primID s) p (inner_ref c) stack acc =
    (let n0 = bvh_node s ! c; n1 = bvh_node s ! (c + 1) in
     if pointInAABBTest (node_box n0) p then bvh_candidates (bvh_node s) (primID s) p (childRef n0)
       (if pointInAABBTest (node_box n1) p then childRef n1 # stack else stack) acc
     else if pointInAABBTest (node_box n1) p then bvh_candidates (bvh_node s) (primID s) p (childRef n1) stack acc
     else pop_stack s p stack acc)"
  using assms by (simp add: bvh_candidates.simps [of _ _ _ "inner_ref c"] inner_ref_parts [OF assms(1)] Let_def pop_stack_def)

text \<open>The answer of a traversal: primitives of the range, among them all whose box contains the position.\<close>

definition complete_answer :: "'c::linorder box4 list \<Rightarrow> 'c \<times> 'c \<times> 'c \<Rightarrow> nat list \<Rightarrow> nat list \<Rightarrow> bool" where
  "complete_answer pb p ids cs \<longleftrightarrow> set cs \<subseteq> set ids \<and> (\<forall>x\<in>set ids. pointInAABBTest (pb ! x) p \<longrightarrow> x \<in> set cs)"

lemma complete_append:
  "complete_answer pb p ids cs \<Longrightarrow> complete_answer pb p js ds \<Longrightarrow> complete_answer pb p (ids @ js) (cs @ ds)"
  by (auto simp: complete_answer_def)

lemma outside_complete: "box_over pb s n b e \<Longrightarrow> \<not> pointInAABBTest (node_box (bvh_node s ! n)) p \<Longrightarrow>
   complete_answer pb p (segment b e (primID s)) []"
  using contains_point [of "node_box (bvh_node s ! n)" _ p] unfolding complete_answer_def box_over_def list_all_iff by auto

lemma holds_box: "holds_bvh pb s n x y b e t \<Longrightarrow> box_over pb s n b e"
  by (cases rule: holds_bvh.cases) auto

lemma candidates_ok:
  assumes small: "length (primID s) < 2 ^ 60" "length (bvh_node s) < 2 ^ 58"
  shows "holds_bvh pb s n x y b e t \<Longrightarrow> leaves_fit t \<Longrightarrow> length stack + tree_depth t \<le> 32 \<Longrightarrow>
    \<exists>cs. bvh_candidates (bvh_node s) (primID s) p (childRef (bvh_node s ! n)) stack acc = pop_stack s p stack (acc @ cs) \<and>
      complete_answer pb p (segment b e (primID s)) cs"
proof (induction t arbitrary: n x y b e stack acc)
  case (BLeaf b' e')
  from BLeaf.prems(1) have h: "b' = b" "e' = e" "childRef (bvh_node s ! n) = leaf_ref b e" "e \<le> length (primID s)"
    by (auto elim: holds_bleafE)
  have "bvh_candidates (bvh_node s) (primID s) p (leaf_ref b e) stack acc = pop_stack s p stack (acc @ segment b e (primID s))"
    using candidates_leaf [OF _ h(4) small(1)] BLeaf.prems(2) h by simp
  then show ?case unfolding h(3) by (intro exI [of _ "segment b e (primID s)"]) (simp add: complete_answer_def)
next
  case (BInner l r)
  from BInner.prems(1) obtain c z m where h: "childRef (bvh_node s ! n) = inner_ref c" "c + 2 \<le> length (bvh_node s)" "b < m" "m < e"
    "holds_bvh pb s c (c + 2) z b m l" "holds_bvh pb s (c + 1) z y m e r"
    by (rule holds_binnerE) (rule that, auto)
  have seg: "segment b e (primID s) = segment b m (primID s) @ segment m e (primID s)" using h(3,4) by (intro segment_append) simp_all
  have c: "40 * c < 2 ^ 64" "length stack < 32" using h(2) small(2) BInner.prems(3) by simp_all
  have fit: "leaves_fit l" "leaves_fit r" using BInner.prems(2) by simp_all
  have depth: "length stack + tree_depth l < 32" "length stack + tree_depth r < 32" using BInner.prems(3) by simp_all
  note step = candidates_inner [OF c(1) h(2) c(2), of p acc]
  note right = BInner.IH(2) [OF h(6) fit(2), of stack]
  show ?case
  proof (cases "pointInAABBTest (node_box (bvh_node s ! c)) p")
    case True
    let ?st = "if pointInAABBTest (node_box (bvh_node s ! (c + 1))) p then childRef (bvh_node s ! (c + 1)) # stack else stack"
    have "length ?st + tree_depth l \<le> 32" using depth(1) by simp
    note left = BInner.IH(1) [OF h(5) fit(1) this, of acc]
    obtain cs where cs: "bvh_candidates (bvh_node s) (primID s) p (childRef (bvh_node s ! c)) ?st acc = pop_stack s p ?st (acc @ cs)"
      "complete_answer pb p (segment b m (primID s)) cs"
      using left by blast
    have "\<exists>ds. pop_stack s p ?st (acc @ cs) = pop_stack s p stack (acc @ cs @ ds) \<and> complete_answer pb p (segment m e (primID s)) ds"
    proof (cases "pointInAABBTest (node_box (bvh_node s ! (c + 1))) p")
      case True
      then show ?thesis using right [of "acc @ cs"] depth(2) by (simp add: pop_stack_def)
    next
      case False
      then show ?thesis using outside_complete [OF holds_box [OF h(6)] False] by (intro exI [of _ "[]"]) simp
    qed
    then obtain ds where "pop_stack s p ?st (acc @ cs) = pop_stack s p stack (acc @ cs @ ds)" "complete_answer pb p (segment m e (primID s)) ds"
      by blast
    moreover have "bvh_candidates (bvh_node s) (primID s) p (inner_ref c) stack acc =
        bvh_candidates (bvh_node s) (primID s) p (childRef (bvh_node s ! c)) ?st acc"
      unfolding step Let_def using True by (simp only: if_True)
    ultimately show ?thesis using complete_append [OF cs(2)] cs(1)
      by (intro exI [of _ "cs @ ds"]) (simp only: h(1) seg simp_thms)
  next
    case False
    note none = outside_complete [OF holds_box [OF h(5)] False]
    show ?thesis
    proof (cases "pointInAABBTest (node_box (bvh_node s ! (c + 1))) p")
      case True
      obtain ds where "bvh_candidates (bvh_node s) (primID s) p (childRef (bvh_node s ! (c + 1))) stack acc = pop_stack s p stack (acc @ ds)"
        "complete_answer pb p (segment m e (primID s)) ds" using right [of acc] depth(2) by auto
      then show ?thesis using complete_append [OF none] False True by (intro exI [of _ ds]) (simp add: h(1) step Let_def seg)
    next
      case no: False
      then show ?thesis using complete_append [OF none outside_complete [OF holds_box [OF h(6)] no]] False
        by (intro exI [of _ "[]"]) (simp add: h(1) step Let_def seg)
    qed
  qed
qed

section \<open>The cells of an unstructured volume\<close>

type_synonym vec4i = "int \<times> int \<times> int \<times> int"

text \<open>A cell has two entries of four vertex indices; the first number tells its shape.\<close>

record 'c unstructured =
  indices :: "vec4i list"
  vertices :: "('c \<times> 'c \<times> 'c) list"
  vertex_field :: "'c list"
  cell_field :: "'c list option"

text \<open>The number of cells is an \<open>int\<close>, converted from a \<open>size_t\<close>.\<close>

definition cells_given :: "'c unstructured \<Rightarrow> nat" where
  "cells_given V = length (indices V) div 2"

definition nCells :: "'c unstructured \<Rightarrow> i32" where
  "nCells V = word_of_nat (cells_given V)"

fun comps :: "vec4i \<Rightarrow> int list" where
  "comps (x, y, z, w) = [x, y, z, w]"

text \<open>The loop over the corners.  For a wedge its first two indices are both read at \<open>1 + 2\<close>.\<close>

definition corner_indices :: "vec4i \<Rightarrow> vec4i \<Rightarrow> int list" where
  "corner_indices a b = (let shape = coord4 0 a; maxIdx = (if shape = - 1 then 4 else if shape = - 2 then 6 else 8) in
     map (\<lambda>i. if maxIdx = 4 then coord4 i b
       else if maxIdx = 6 then (if i < 2 then coord4 (1 + 2) a else coord4 (i - 2) b)
       else (if i < 4 then coord4 i a else coord4 (i - 4) b)) [0..<maxIdx])"

definition cell_corner :: "'c unstructured \<Rightarrow> nat \<Rightarrow> int \<Rightarrow> 'c vec4 res" where
  "cell_corner V i idx = (if idx < 0 \<or> int (length (vertices V)) \<le> idx then Inl Undefined_behaviour
     else (case vertices V ! nat idx of (x, y, z) \<Rightarrow> (case cell_field V of
         Some fs \<Rightarrow> if i < length fs then Inr (x, y, z, fs ! i) else Inl Undefined_behaviour
       | None \<Rightarrow> if nat idx < length (vertex_field V) then Inr (x, y, z, vertex_field V ! nat idx) else Inl Undefined_behaviour)))"

fun cell_corners :: "'c unstructured \<Rightarrow> nat \<Rightarrow> int list \<Rightarrow> 'c vec4 list res" where
  "cell_corners V i [] = Inr []"
| "cell_corners V i (k # ks) = bind_res (cell_corner V i k) (\<lambda>p. bind_res (cell_corners V i ks) (\<lambda>ps. Inr (p # ps)))"

definition hull4 :: "'c::linorder vec4 list \<Rightarrow> 'c box4 res" where
  "hull4 ps = (case ps of [] \<Rightarrow> Inl Undefined_behaviour
     | p # ps \<Rightarrow> Inr (fold (\<lambda>p w. extend_point w p) ps \<lparr>lo4 = p, hi4 = p\<rparr>))"

definition getTetBBox :: "'c::linorder unstructured \<Rightarrow> nat \<Rightarrow> 'c box4 res" where
  "getTetBBox V i = (if length (indices V) \<le> 2 * i + 1 then Inl Undefined_behaviour
     else bind_res (cell_corners V i (corner_indices (indices V ! (2 * i)) (indices V ! (2 * i + 1)))) hull4)"

fun cell_boxes :: "'c::linorder unstructured \<Rightarrow> nat list \<Rightarrow> 'c box4 list res" where
  "cell_boxes V [] = Inr []"
| "cell_boxes V (i # is) = bind_res (getTetBBox V i) (\<lambda>b. bind_res (cell_boxes V is) (\<lambda>bs. Inr (b # bs)))"

text \<open>A negative number of cells is a huge size for the vectors, which their constructor
  refuses.\<close>

definition buildBvh :: "'c::linorder bvh_arith \<Rightarrow> 'c unstructured \<Rightarrow> 'c bvh res" where
  "buildBvh A V = (if sint (nCells V) < 0 then Inl (Runtime_error ''length_error'')
     else (let n = nat (sint (nCells V)) in
       bind_res (cell_boxes V [0..<n]) (\<lambda>pb. bvh_build A pb [0..<n])))"

lemma sint_of_nat_small: "n < 2 ^ 31 \<Longrightarrow> sint (word_of_nat n :: i32) = int n"
  by (simp add: signed_of_nat signed_take_bit_int_eq_self)

lemma nCells_fits: "cells_given V < 2 ^ 31 \<Longrightarrow> sint (nCells V) = int (cells_given V)"
  by (simp add: nCells_def sint_of_nat_small)

text \<open>The corners of a cell as the documentation of the API gives them, and the positions between them.\<close>

definition documented_corners :: "vec4i \<Rightarrow> vec4i \<Rightarrow> int list" where
  "documented_corners a b = (if coord4 0 a = - 1 then comps b else if coord4 0 a = - 2 then drop 2 (comps a) @ comps b else comps a @ comps b)"

definition cell_ok :: "'c unstructured \<Rightarrow> nat \<Rightarrow> bool" where
  "cell_ok V i \<longleftrightarrow> coord4 0 (indices V ! (2 * i)) \<noteq> - 2 \<and>
     list_all (\<lambda>k. 0 \<le> k \<and> k < int (length (vertices V)) \<and> (cell_field V = None \<longrightarrow> k < int (length (vertex_field V))))
       (documented_corners (indices V ! (2 * i)) (indices V ! (2 * i + 1))) \<and>
     (case cell_field V of None \<Rightarrow> True | Some fs \<Rightarrow> i < length fs)"

fun pos_coord :: "nat \<Rightarrow> 'c \<times> 'c \<times> 'c \<Rightarrow> 'c" where
  "pos_coord d (x, y, z) = (if d = 0 then x else if d = 1 then y else z)"

definition between :: "'c::linorder unstructured \<Rightarrow> int list \<Rightarrow> 'c \<times> 'c \<times> 'c \<Rightarrow> bool" where
  "between V ks p \<longleftrightarrow> list_all (\<lambda>d. list_ex (\<lambda>k. pos_coord d (vertices V ! nat k) \<le> pos_coord d p) ks \<and>
     list_ex (\<lambda>k. pos_coord d p \<le> pos_coord d (vertices V ! nat k)) ks) [0, 1, 2]"

lemma corner_indices_documented: "coord4 0 a \<noteq> - 2 \<Longrightarrow> corner_indices a b = documented_corners a b"
  by (cases a; cases b) (auto simp: corner_indices_def documented_corners_def Let_def upt_rec numeral_eq_Suc)

lemma cell_corners_ok:
  assumes "list_all (\<lambda>k. 0 \<le> k \<and> k < int (length (vertices V)) \<and> (cell_field V = None \<longrightarrow> k < int (length (vertex_field V)))) ks"
    and "case cell_field V of None \<Rightarrow> True | Some fs \<Rightarrow> i < length fs"
  shows "\<exists>ps. cell_corners V i ks = Inr ps \<and> map (\<lambda>(x, y, z, w). (x, y, z)) ps = map (\<lambda>k. vertices V ! nat k) ks"
  using assms(1)
proof (induction ks)
  case (Cons k ks)
  then obtain ps where "cell_corners V i ks = Inr ps" "map (\<lambda>(x, y, z, w). (x, y, z)) ps = map (\<lambda>k. vertices V ! nat k) ks" by auto
  moreover obtain x y z where v: "vertices V ! nat k = (x, y, z)" by (cases "vertices V ! nat k")
  moreover have "\<exists>f. cell_corner V i k = Inr (x, y, z, f)"
    using Cons.prems assms(2) v by (auto simp: cell_corner_def nat_less_iff split: option.splits)
  ultimately show ?case by auto
qed simp

text \<open>The box contains the position when the corners are around it.\<close>

lemma hull_fold:
  "d < 4 \<Longrightarrow> coord4 d (lo4 (fold (\<lambda>p w. extend_point w p) ps w)) \<le> coord4 d (lo4 w) \<and>
    (\<forall>p\<in>set ps. coord4 d (lo4 (fold (\<lambda>p w. extend_point w p) ps w)) \<le> coord4 d p) \<and>
    coord4 d (hi4 w) \<le> coord4 d (hi4 (fold (\<lambda>p w. extend_point w p) ps w)) \<and>
    (\<forall>p\<in>set ps. coord4 d p \<le> coord4 d (hi4 (fold (\<lambda>p w. extend_point w p) ps w)))"
proof (induction ps arbitrary: w)
  case (Cons p ps)
  show ?case using Cons.IH [OF Cons.prems, of "extend_point w p"]
    by (auto simp: extend_point_def extend4_def)
qed simp

lemma hull_holds:
  assumes "hull4 ps = Inr w" and "p \<in> set ps" and "d < 4"
  shows "coord4 d (lo4 w) \<le> coord4 d p \<and> coord4 d p \<le> coord4 d (hi4 w)"
proof -
  obtain q qs where ps: "ps = q # qs" using assms(1) by (cases ps) (simp_all add: hull4_def)
  then have w: "w = fold (\<lambda>p w. extend_point w p) qs \<lparr>lo4 = q, hi4 = q\<rparr>" using assms(1) by (simp add: hull4_def)
  show ?thesis using hull_fold [OF assms(3), of qs "\<lparr>lo4 = q, hi4 = q\<rparr>"] assms(2) by (auto simp: ps w)
qed

lemma getTetBBox_ok:
  assumes "cell_ok V i" and "i < cells_given V"
  shows "\<exists>w. getTetBBox V i = Inr w \<and>
    (\<forall>p. between V (documented_corners (indices V ! (2 * i)) (indices V ! (2 * i + 1))) p \<longrightarrow> pointInAABBTest w p)"
proof -
  let ?ks = "documented_corners (indices V ! (2 * i)) (indices V ! (2 * i + 1))"
  have len: "2 * i + 1 < length (indices V)" using assms(2) by (auto simp: cells_given_def)
  obtain ps where ps: "cell_corners V i ?ks = Inr ps" "map (\<lambda>(x, y, z, w). (x, y, z)) ps = map (\<lambda>k. vertices V ! nat k) ?ks"
    using cell_corners_ok [of V ?ks i] assms(1) by (auto simp: cell_ok_def)
  have "?ks \<noteq> []" by (cases "indices V ! (2 * i)"; cases "indices V ! (2 * i + 1)") (simp add: documented_corners_def)
  then have "ps \<noteq> []" using arg_cong [OF ps(2), of length] by auto
  then obtain w where w: "hull4 ps = Inr w" by (cases ps) (simp_all add: hull4_def)
  have box: "getTetBBox V i = Inr w"
    using len assms(1) ps(1) w by (simp add: getTetBBox_def corner_indices_documented cell_ok_def)
  have corner: "coord4 d (lo4 w) \<le> pos_coord d (vertices V ! nat k) \<and> pos_coord d (vertices V ! nat k) \<le> coord4 d (hi4 w)"
    if k: "k \<in> set ?ks" and d: "d < 3" for d k
  proof -
    have "vertices V ! nat k \<in> (\<lambda>(x, y, z, w). (x, y, z)) ` set ps"
      using k ps(2) by (metis image_eqI list.set_map)
    then obtain x y z f where "(x, y, z, f) \<in> set ps" "vertices V ! nat k = (x, y, z)" by auto
    then show ?thesis using hull_holds [OF w, of "(x, y, z, f)" d] d by (auto simp: less_Suc_eq numeral_3_eq_3 split: if_splits)
  qed
  have "pointInAABBTest w p" if "between V ?ks p" for p
  proof -
    have "coord4 d (lo4 w) \<le> pos_coord d p \<and> pos_coord d p \<le> coord4 d (hi4 w)" if d: "d \<in> {0, 1, 2}" for d
    proof -
      obtain k l where "k \<in> set ?ks" "pos_coord d (vertices V ! nat k) \<le> pos_coord d p"
        "l \<in> set ?ks" "pos_coord d p \<le> pos_coord d (vertices V ! nat l)"
        using \<open>between V ?ks p\<close> d unfolding between_def list_all_iff list_ex_iff by auto
      moreover have "d < 3" using d by auto
      ultimately show ?thesis using corner [of k d] corner [of l d] order_trans by blast
    qed
    from this [of 0] this [of 1] this [of 2] show ?thesis by (cases p) simp
  qed
  with box show ?thesis by blast
qed

lemma cell_boxes_ok:
  "\<forall>i\<in>set is. cell_ok V i \<and> i < cells_given V \<Longrightarrow> \<exists>pb. cell_boxes V is = Inr pb \<and> length pb = length is \<and>
    (\<forall>j<length is. getTetBBox V (is ! j) = Inr (pb ! j))"
proof (induction "is")
  case (Cons i "is")
  then obtain pb w where "cell_boxes V is = Inr pb" "length pb = length is" "\<forall>j<length is. getTetBBox V (is ! j) = Inr (pb ! j)"
    "getTetBBox V i = Inr w" using getTetBBox_ok [of V i] by fastforce
  then show ?case by (auto simp: nth_Cons split: nat.split)
qed simp

section \<open>Properties\<close>

lemma leaves_le: "holds_bvh pb s n x y b e t \<Longrightarrow> leaves_fit t \<Longrightarrow> tree_leaves t \<le> e - b"
proof (induction rule: holds_bvh.induct)
  case (holds_bleaf n s b e x y)
  then show ?case by (simp add: Suc_le_eq)
next
  case (holds_binner n s c b e x z y m l r)
  then have "tree_leaves l \<le> m - b" "tree_leaves r \<le> e - m" by simp_all
  then show ?case using holds_binner.hyps by simp
qed

lemma bvh_build_ok:
  assumes "length pb = N"
  shows "\<exists>s t. bvh_build A pb [0..<N] = Inr s \<and> mset (primID s) = mset [0..<N] \<and> length (primID s) = N \<and>
    holds_bvh pb s 0 2 (length (bvh_node s)) 0 N t \<and> length (bvh_node s) = 2 * tree_leaves t"
proof -
  let ?s = "\<lparr>bvh_node = [new_bvh_node A, new_bvh_node A], primID = [0..<N], tmp_primID = replicate N 0, overallBounds = empty4 A\<rparr>"
  obtain s t where s: "bvh_buildRec A pb 0 0 N ?s = Inr s" "bvh_built pb 0 0 N ?s s t"
    using bvh_buildRec_ok [of 0 ?s 0 N pb A] assms by (auto simp: segment_def)
  have seg: "segment 0 N xs = xs" if "length xs = N" for xs :: "nat list" using that by (simp add: segment_def)
  have "length (primID s) = N" "mset (segment 0 N (primID s)) = mset (segment 0 N [0..<N])" "length (bvh_node s) = 2 * tree_leaves t"
    "holds_bvh pb s 0 2 (length (bvh_node s)) 0 N t"
    using bvh_builtD [OF s(2)] by (simp_all add: numeral_2_eq_2)
  then show ?thesis using s(1) seg [of "primID s"] seg [of "[0..<N]"] by (auto simp: bvh_build_def)
qed

text \<open>C30 A position inside of a cell finds the cell.  For a volume of fewer than \<open>2 ^ 31\<close> tetrahedra and
  hexahedra whose indices are in range the boxes and the hierarchy are built without an access out of bounds, whatever the floating
  point operations; the array of references is a permutation of the cells, cut into ranges by the leaves.
  When each leaf has between 1 and 7 cells, as the references can express, and the tree is at most 32 deep, as the stack
  of the kernels, the traversal ends for every position and tests only cells of the volume, among them every cell whose
  documented corners are around the position.\<close>
theorem unstructured_cells_found:
  assumes cells: "\<forall>i<cells_given V. cell_ok V i" and size: "cells_given V < 2 ^ 31"
  shows "\<exists>pb s t. buildBvh A V = Inr s \<and> mset (primID s) = mset [0..<cells_given V] \<and>
    holds_bvh pb s 0 2 (length (bvh_node s)) 0 (cells_given V) t \<and>
    (leaves_fit t \<and> tree_depth t \<le> 32 \<longrightarrow> (\<forall>p. \<exists>cs. bvh_candidates (bvh_node s) (primID s) p (rootRef s) [] [] = ret cs \<and>
       set cs \<subseteq> {..<cells_given V} \<and>
       (\<forall>i<cells_given V. between V (documented_corners (indices V ! (2 * i)) (indices V ! (2 * i + 1))) p \<longrightarrow> i \<in> set cs)))"
proof -
  let ?N = "cells_given V"
  obtain pb where pb: "cell_boxes V [0..<?N] = Inr pb" "length pb = ?N" "\<And>j. j < ?N \<Longrightarrow> getTetBBox V j = Inr (pb ! j)"
    using cell_boxes_ok [of "[0..<?N]" V] cells by auto
  obtain s t where s: "bvh_build A pb [0..<?N] = Inr s" "mset (primID s) = mset [0..<?N]" "length (primID s) = ?N"
    "holds_bvh pb s 0 2 (length (bvh_node s)) 0 ?N t" "length (bvh_node s) = 2 * tree_leaves t"
    using bvh_build_ok [OF pb(2), of A] by blast
  have ids: "set (segment 0 ?N (primID s)) = {..<?N}"
  proof -
    have "segment 0 ?N (primID s) = primID s" by (simp add: segment_def s(3))
    then show ?thesis using mset_eq_setD [OF s(2)] by (simp only: set_upt atLeast0LessThan)
  qed
  have build: "buildBvh A V = Inr s" by (simp add: buildBvh_def nCells_fits [OF size] pb(1) s(1))
  let ?around = "\<lambda>i. between V (documented_corners (indices V ! (2 * i)) (indices V ! (2 * i + 1)))"
  have found: "\<exists>cs. bvh_candidates (bvh_node s) (primID s) p (rootRef s) [] [] = ret cs \<and> set cs \<subseteq> {..<?N} \<and>
      (\<forall>i<?N. ?around i p \<longrightarrow> i \<in> set cs)"
    if fit: "leaves_fit t \<and> tree_depth t \<le> 32" for p
  proof -
    have small: "length (primID s) < 2 ^ 60" "length (bvh_node s) < 2 ^ 58"
      using s(3,5) size leaves_le [OF s(4) conjunct1 [OF fit]] by simp_all
    have room: "length [] + tree_depth t \<le> 32" using fit by simp
    obtain cs where cs: "bvh_candidates (bvh_node s) (primID s) p (rootRef s) [] [] = ret cs" "complete_answer pb p (segment 0 ?N (primID s)) cs"
      using candidates_ok [OF small s(4) conjunct1 [OF fit] room, of p "[]"] unfolding rootRef_def pop_stack_def by auto
    have "i \<in> set cs" if "i < ?N" "?around i p" for i
    proof -
      have "cell_ok V i" using cells that(1) by blast
      from getTetBBox_ok [OF this that(1)] have "pointInAABBTest (pb ! i) p"
        unfolding pb(3) [OF that(1)] using that(2) by (elim exE conjE) (simp only: sum.inject)
      then show ?thesis using cs(2) ids that(1) by (simp add: complete_answer_def)
    qed
    moreover have "set cs \<subseteq> {..<?N}" using cs(2) ids by (simp add: complete_answer_def)
    ultimately show ?thesis using cs(1) by blast
  qed
  show ?thesis
    by (intro exI [of _ pb] exI [of _ s] exI [of _ t] conjI impI allI build s(2,4)) (rule found)
qed

definition int_bvh :: "int bvh_arith" where
  "int_bvh = \<lparr>inf_c = 1000, ninf_c = - 1000, tiny_c = 1, of_nat_c = int, add_c = (+), sub_c = (-), mul_c = (*), div_c = (div), abs_c = abs,
     mid_c = (\<lambda>a b. (a + b) div 2)\<rparr>"

definition one_tet :: "int unstructured" where
  "one_tet = \<lparr>indices = [(- 1, - 1, - 1, - 1), (0, 1, 2, 3)], vertices = [(0, 0, 0), (4, 0, 0), (0, 4, 0), (0, 0, 4)],
     vertex_field = [1, 2, 3, 4], cell_field = None\<rparr>"

lemma unstructured_cells_found_witness:
  "\<exists>s cs. buildBvh int_bvh one_tet = Inr s \<and> bvh_candidates (bvh_node s) (primID s) (1, 1, 1) (rootRef s) [] [] = ret cs \<and> 0 \<in> set cs"
proof -
  have n: "cells_given one_tet = 1" by code_simp
  have "cell_ok one_tet 0" by code_simp
  then have "\<forall>i<cells_given one_tet. cell_ok one_tet i" "cells_given one_tet < 2 ^ 31" by (simp_all add: n)
  note found = unstructured_cells_found [OF this, of int_bvh, unfolded n]
  have in_cell: "between one_tet (documented_corners (indices one_tet ! (2 * 0)) (indices one_tet ! (2 * 0 + 1))) (1, 1, 1)" by code_simp
  from found show ?thesis
  proof (elim exE conjE)
    fix pb s t
    assume s: "buildBvh int_bvh one_tet = Inr s" "holds_bvh pb s 0 2 (length (bvh_node s)) 0 1 t"
      and all: "leaves_fit t \<and> tree_depth t \<le> 32 \<longrightarrow> (\<forall>p. \<exists>cs. bvh_candidates (bvh_node s) (primID s) p (rootRef s) [] [] = ret cs \<and>
        set cs \<subseteq> {..<1} \<and>
        (\<forall>i<1. between one_tet (documented_corners (indices one_tet ! (2 * i)) (indices one_tet ! (2 * i + 1))) p \<longrightarrow> i \<in> set cs))"
    have "t = BLeaf 0 1" using s(2) by (cases rule: holds_bvh.cases) simp_all
    then have "leaves_fit t \<and> tree_depth t \<le> 32" by simp
    from spec [OF mp [OF all this], of "(1, 1, 1)"] obtain cs where "bvh_candidates (bvh_node s) (primID s) (1, 1, 1) (rootRef s) [] [] = ret cs"
      "\<forall>i<1. between one_tet (documented_corners (indices one_tet ! (2 * i)) (indices one_tet ! (2 * i + 1))) (1, 1, 1) \<longrightarrow> i \<in> set cs"
      by (elim exE conjE)
    with in_cell s(1) show ?thesis by (intro exI conjI) simp_all
  qed
qed

text \<open>The conversion to \<open>int\<close>: from \<open>2 ^ 31\<close> cells on the volume cannot be built, and from \<open>2 ^ 32\<close>
  on only the cells that are left after the wrap-around are in the hierarchy.\<close>

lemma too_many_cells:
  assumes "2 ^ 31 \<le> cells_given V" and "cells_given V < 2 ^ 32"
  shows "buildBvh A V = Inl (Runtime_error ''length_error'')"
proof -
  have "(word_of_nat (cells_given V) :: i32) = word_of_int (int (cells_given V) - 2 ^ 32)" by simp
  then have "sint (word_of_nat (cells_given V) :: i32) = int (cells_given V) - 2 ^ 32"
    using assms signed_take_bit_int_eq_self [of 31 "int (cells_given V) - 2 ^ 32"]
    by (simp only: signed_of_int) simp
  then show ?thesis using assms by (simp add: buildBvh_def nCells_def)
qed

lemma cells_lost:
  assumes "cells_given V = 2 ^ 32 + k" and "k < 2 ^ 31"
  shows "buildBvh A V = bind_res (cell_boxes V [0..<k]) (\<lambda>pb. bvh_build A pb [0..<k])"
proof -
  have "(word_of_nat (2 ^ 32 + k) :: i32) = word_of_nat k" by simp
  then have "sint (nCells V) = int k"
    using sint_of_nat_small [OF assms(2)] by (simp only: nCells_def assms(1))
  then show ?thesis by (simp add: buildBvh_def)
qed

text \<open>The box of a wedge does not contain the first of its vertices, here at (9, 9, 9).\<close>

definition one_wedge :: "int unstructured" where
  "one_wedge = \<lparr>indices = [(- 2, - 2, 0, 1), (2, 3, 4, 5)], vertices = [(9, 9, 9), (4, 0, 0), (0, 4, 0), (0, 0, 4), (4, 0, 4), (0, 4, 4)],
     vertex_field = [1, 2, 3, 4, 5, 6], cell_field = None\<rparr>"

lemma wedge_box_misses_vertex:
  "getTetBBox one_wedge 0 = Inr \<lparr>lo4 = (0, 0, 0, 2), hi4 = (4, 4, 4, 6)\<rparr> \<and>
   list_ex (\<lambda>k. vertices one_wedge ! nat k = (9, 9, 9)) (documented_corners (indices one_wedge ! 0) (indices one_wedge ! 1))"
  by code_simp

text \<open>Eight cells with the same box share one leaf, whose reference has no room for their number: it is
  read as an inner node.\<close>

lemma eight_equal_cells:
  "\<exists>s. bvh_build int_bvh (replicate 8 \<lparr>lo4 = (0, 0, 0, 0), hi4 = (4, 4, 4, 1)\<rparr>) [0..<8] = Inr s \<and>
     bvh_candidates (bvh_node s) (primID s) (1, 1, 1) (rootRef s) [] [] = raise Undefined_behaviour"
proof -
  let ?pb = "replicate 8 \<lparr>lo4 = (0, 0, 0, 0), hi4 = (4, 4, 4, 1)\<rparr> :: int box4 list"
  let ?get = "case bvh_build int_bvh ?pb [0..<8] of Inr s \<Rightarrow> rootRef s | Inl e \<Rightarrow> 0"
  have "isl (bvh_build int_bvh ?pb [0..<8]) = False" "?get = 8" by code_simp+
  then obtain s where s: "bvh_build int_bvh ?pb [0..<8] = Inr s" "rootRef s = 8" by (auto split: sum.splits)
  have "ref_count 8 = 0" "ref_bytes 8 = 8" by (simp_all add: ref_parts)
  then have "bvh_candidates (bvh_node s) (primID s) (1, 1, 1) 8 [] [] = raise Undefined_behaviour"
    by (simp add: bvh_candidates.simps [of _ _ _ 8])
  with s show ?thesis by auto
qed

end
