(* ===== verification/SceneGraph.thy ===== *)
theory SceneGraph
  imports StringUtils Serialize
begin

unbundle bit_operations_syntax

text \<open>
  The nodes of the scene graph library of the applications (\<open>sg/common/Node.cpp\<close>,
  \<open>sg/common/NodeParameter.h\<close>, \<open>sg/visitor\<close>): values, validity, the map of children, parents and time
  stamps.  A node is its index in \<open>sg_nodes\<close>; a shared pointer and a raw pointer to a node are the same
  index, and no node is freed (somebody holds a pointer to it).  The classes are \<open>Node\<close> and
  \<open>NodeParam<T>\<close>.  The counter of the time stamps is modelled with every copy of a stamp: the copy
  constructor of \<open>TimeStamp\<close> initialises its member with \<open>nextValue()\<close> before it assigns, so each getter
  takes a number.
\<close>

section \<open>Values\<close>

type_synonym box2f = "vec2f \<times> vec2f"
type_synonym box2i = "vec2i \<times> vec2i"
type_synonym box3f = "vec3f \<times> vec3f"
type_synonym box3i = "vec3i \<times> vec3i"

datatype (plugins only: code size) sg_val =
    S_float float_bits
  | S_int i32
  | S_bool bool
  | S_vec2f vec2f
  | S_vec2i vec2i
  | S_vec3f vec3f
  | S_vec3i vec3i
  | S_vec3fa vec3f
  | S_vec4f vec4f
  | S_box2f box2f
  | S_box2i box2i
  | S_box3f box3f
  | S_box3i box3i
  | S_string string
  | S_object "nat option"

datatype sg_vtype =
  VT_float | VT_int | VT_bool | VT_vec2f | VT_vec2i | VT_vec3f | VT_vec3i | VT_vec3fa | VT_vec4f
  | VT_box2f | VT_box2i | VT_box3f | VT_box3i | VT_string | VT_object

fun sg_typeID :: "sg_val \<Rightarrow> sg_vtype" where
  "sg_typeID (S_float _) = VT_float"
| "sg_typeID (S_int _) = VT_int"
| "sg_typeID (S_bool _) = VT_bool"
| "sg_typeID (S_vec2f _) = VT_vec2f"
| "sg_typeID (S_vec2i _) = VT_vec2i"
| "sg_typeID (S_vec3f _) = VT_vec3f"
| "sg_typeID (S_vec3i _) = VT_vec3i"
| "sg_typeID (S_vec3fa _) = VT_vec3fa"
| "sg_typeID (S_vec4f _) = VT_vec4f"
| "sg_typeID (S_box2f _) = VT_box2f"
| "sg_typeID (S_box2i _) = VT_box2i"
| "sg_typeID (S_box3f _) = VT_box3f"
| "sg_typeID (S_box3i _) = VT_box3i"
| "sg_typeID (S_string _) = VT_string"
| "sg_typeID (S_object _) = VT_object"

type_synonym sg_any = "sg_val option"

text \<open>Comparison of \<open>float\<close>s by their bits (IEEE 754): nothing compares with a NaN, and the two
  zeros are equal.\<close>

definition float_nan :: "float_bits \<Rightarrow> bool" where
  "float_nan x \<longleftrightarrow> 0x7F800000 < x AND 0x7FFFFFFF"

definition float_key :: "float_bits \<Rightarrow> int" where
  "float_key x = (if bit x 31 then - uint (x AND 0x7FFFFFFF) else uint x)"

definition float_eq :: "float_bits \<Rightarrow> float_bits \<Rightarrow> bool" where
  "float_eq x y \<longleftrightarrow> \<not> float_nan x \<and> \<not> float_nan y \<and> float_key x = float_key y"

definition float_less :: "float_bits \<Rightarrow> float_bits \<Rightarrow> bool" where
  "float_less x y \<longleftrightarrow> \<not> float_nan x \<and> \<not> float_nan y \<and> float_key x < float_key y"

text \<open>The components of the vector and box types, and \<open>==\<close> on values of one type.\<close>

fun float_parts :: "sg_val \<Rightarrow> float_bits list" where
  "float_parts (S_float x) = [x]"
| "float_parts (S_vec2f (x, y)) = [x, y]"
| "float_parts (S_vec3f (x, y, z)) = [x, y, z]"
| "float_parts (S_vec3fa (x, y, z)) = [x, y, z]"
| "float_parts (S_vec4f (x, y, z, w)) = [x, y, z, w]"
| "float_parts (S_box2f ((x, y), (u, v))) = [x, y, u, v]"
| "float_parts (S_box3f ((x, y, z), (u, v, w))) = [x, y, z, u, v, w]"
| "float_parts _ = []"

fun int_parts :: "sg_val \<Rightarrow> i32 list" where
  "int_parts (S_int x) = [x]"
| "int_parts (S_vec2i (x, y)) = [x, y]"
| "int_parts (S_vec3i (x, y, z)) = [x, y, z]"
| "int_parts (S_box2i ((x, y), (u, v))) = [x, y, u, v]"
| "int_parts (S_box3i ((x, y, z), (u, v, w))) = [x, y, z, u, v, w]"
| "int_parts _ = []"

definition sg_same :: "sg_val \<Rightarrow> sg_val \<Rightarrow> bool" where
  "sg_same a b \<longleftrightarrow> sg_typeID a = sg_typeID b \<and>
     (case a of S_bool x \<Rightarrow> b = S_bool x
      | S_string x \<Rightarrow> b = S_string x
      | S_object x \<Rightarrow> b = S_object x
      | _ \<Rightarrow> list_all2 float_eq (float_parts a) (float_parts b) \<and> int_parts a = int_parts b)"

definition sg_any_eq :: "sg_any \<Rightarrow> sg_any \<Rightarrow> bool res" where
  "sg_any_eq a b = (case a of
      None \<Rightarrow> Inl Undefined_behaviour
    | Some x \<Rightarrow> Inr (case b of None \<Rightarrow> False | Some y \<Rightarrow> sg_same x y))"

definition sg_is :: "sg_vtype \<Rightarrow> sg_any \<Rightarrow> bool" where
  "sg_is T a \<longleftrightarrow> (case a of None \<Rightarrow> False | Some v \<Rightarrow> sg_typeID v = T)"

definition sg_get :: "sg_vtype \<Rightarrow> sg_any \<Rightarrow> sg_val res" where
  "sg_get T a = (case a of
      None \<Rightarrow> Inl (Runtime_error ''Can't query value from an empty Any!'')
    | Some v \<Rightarrow> (if sg_typeID v = T then Inr v else Inl (Runtime_error ''Incorrect type queried for Any!'')))"

text \<open>\<open>std::find\<close> over a list of values with \<open>operator==\<close>.\<close>

fun find_any :: "sg_any \<Rightarrow> sg_any list \<Rightarrow> bool res" where
  "find_any v [] = Inr False"
| "find_any v (x # xs) = bind_res (sg_any_eq x v) (\<lambda>same. if same then Inr True else find_any v xs)"

section \<open>Ranges\<close>

text \<open>\<open>valueInRange<T>\<close>: \<open>operator<\<close> for the scalar types and the strings, the components for the
  vectors, no test for the boxes.\<close>

fun string_less :: "string \<Rightarrow> string \<Rightarrow> bool" where
  "string_less [] ys \<longleftrightarrow> ys \<noteq> []"
| "string_less (x # xs) [] \<longleftrightarrow> False"
| "string_less (x # xs) (y # ys) \<longleftrightarrow>
     (of_char x :: nat) < of_char y \<or> x = y \<and> string_less xs ys"

definition scalar_less :: "sg_val \<Rightarrow> sg_val \<Rightarrow> bool" where
  "scalar_less a b = (case a of
      S_float x \<Rightarrow> (case b of S_float y \<Rightarrow> float_less x y | _ \<Rightarrow> False)
    | S_int x \<Rightarrow> (case b of S_int y \<Rightarrow> sint x < sint y | _ \<Rightarrow> False)
    | S_bool x \<Rightarrow> (case b of S_bool y \<Rightarrow> \<not> x \<and> y | _ \<Rightarrow> False)
    | S_string x \<Rightarrow> (case b of S_string y \<Rightarrow> string_less x y | _ \<Rightarrow> False)
    | S_object x \<Rightarrow> (case b of
          S_object y \<Rightarrow> (case (x, y) of (None, Some j) \<Rightarrow> True | (Some i, Some j) \<Rightarrow> i < j | _ \<Rightarrow> False)
        | _ \<Rightarrow> False)
    | _ \<Rightarrow> False)"

definition vec_in_range :: "sg_val \<Rightarrow> sg_val \<Rightarrow> sg_val \<Rightarrow> bool" where
  "vec_in_range lo hi v \<longleftrightarrow>
     \<not> list_ex (\<lambda>(l, h, x). float_less x l \<or> float_less h x) (zip (float_parts lo) (zip (float_parts hi) (float_parts v))) \<and>
     \<not> list_ex (\<lambda>(l, h, x). sint x < sint l \<or> sint h < sint x) (zip (int_parts lo) (zip (int_parts hi) (int_parts v)))"

definition valueInRange :: "sg_vtype \<Rightarrow> sg_any \<Rightarrow> sg_any \<Rightarrow> sg_any \<Rightarrow> bool res" where
  "valueInRange T lo hi v =
     (if T \<in> {VT_box2f, VT_box2i, VT_box3f, VT_box3i} then Inr True
      else if T \<in> {VT_vec2f, VT_vec2i, VT_vec3f, VT_vec3i, VT_vec3fa, VT_vec4f} then
        bind_res (sg_get T lo) (\<lambda>l. bind_res (sg_get T hi) (\<lambda>h. bind_res (sg_get T v) (\<lambda>x. Inr (vec_in_range l h x))))
      else bind_res (sg_get T v) (\<lambda>x. bind_res (sg_get T lo) (\<lambda>l.
        if scalar_less x l then Inr False
        else bind_res (sg_get T hi) (\<lambda>h. Inr (\<not> scalar_less h x)))))"

section \<open>Nodes\<close>

datatype node_class = Plain_node | Param_node sg_vtype

record sg_node =
  sg_class :: node_class
  sg_name :: string
  sg_type :: string
  minmax :: "sg_any list"
  whitelist :: "sg_any list"
  blacklist :: "sg_any list"
  children :: "(string \<times> nat) list"
  sg_value :: sg_any
  whenCreated :: nat
  lastModified :: nat
  childrenMTime :: nat
  lastCommitted :: nat
  lastVerified :: nat
  sg_parent :: "nat option"
  sg_flags :: i32
  sg_valid :: bool
  documentation :: string

text \<open>The calls into the OSPRay API that a commit makes.\<close>

datatype sg_event = Osp_set "nat option" string sg_val

text \<open>\<open>sg_ticks\<close> counts the time stamps made so far; \<open>TimeStamp::global\<close> is this number in a \<open>size_t\<close>.
  \<open>nodeRegistry\<close> are the creators found so far, each named by the class it makes.\<close>

record scene =
  sg_nodes :: "sg_node list"
  sg_ticks :: nat
  sg_events :: "sg_event list"
  nodeRegistry :: "(string \<times> node_class) list"

abbreviation sgn :: "scene \<Rightarrow> nat \<Rightarrow> sg_node" where
  "sgn s n \<equiv> sg_nodes s ! n"

definition upd_node :: "nat \<Rightarrow> (sg_node \<Rightarrow> sg_node) \<Rightarrow> scene \<Rightarrow> scene" where
  "upd_node n f s = s\<lparr>sg_nodes := (sg_nodes s)[n := f (sgn s n)]\<rparr>"

definition stamp :: "scene \<Rightarrow> nat" where
  "stamp s = sg_ticks s mod 2 ^ 64"

definition tick :: "nat \<Rightarrow> scene \<Rightarrow> scene" where
  "tick k s = s\<lparr>sg_ticks := sg_ticks s + k\<rparr>"

definition has_flag :: "i32 \<Rightarrow> sg_node \<Rightarrow> bool" where
  "has_flag b nd \<longleftrightarrow> sg_flags nd AND b \<noteq> 0"

definition required :: i32 where "required = 2"
definition valid_min_max :: i32 where "valid_min_max = 4"
definition valid_whitelist :: i32 where "valid_whitelist = 8"
definition valid_blacklist :: i32 where "valid_blacklist = 16"

subsection \<open>Update detection\<close>

text \<open>\<open>setChildrenModified\<close> walks up the parents as long as it finds an older stamp.  The argument is
  passed by value, which takes a number of the counter; a parent that is not a node would be a dangling
  pointer.\<close>

function setChildrenModified :: "nat \<Rightarrow> nat \<Rightarrow> scene \<Rightarrow> scene" where
  "setChildrenModified p t s =
     (if p < length (sg_nodes s) \<and> childrenMTime (sgn s p) < t then
        (let s1 = upd_node p (childrenMTime_update (\<lambda>_. t)) s in
         case sg_parent (sgn s p) of None \<Rightarrow> s1 | Some q \<Rightarrow> setChildrenModified q t (tick 1 s1))
      else s)"
  by pat_completeness auto

definition older :: "nat \<Rightarrow> scene \<Rightarrow> nat set" where
  "older t s = {i. i < length (sg_nodes s) \<and> childrenMTime (sgn s i) < t}"

lemma older_stamped:
  assumes "p < length (sg_nodes s)" and "childrenMTime (sgn s p) < t"
  shows "card (older t (tick k (upd_node p (childrenMTime_update (\<lambda>_. t)) s))) < card (older t s)"
proof (rule psubset_card_mono)
  show "finite (older t s)" by (simp add: older_def)
  show "older t (tick k (upd_node p (childrenMTime_update (\<lambda>_. t)) s)) \<subset> older t s"
    using assms by (auto simp: older_def upd_node_def tick_def nth_list_update split: if_splits)
qed

termination setChildrenModified
  by (relation "measure (\<lambda>(p, t, s). card (older t s))") (use older_stamped in auto)

declare setChildrenModified.simps [simp del]

definition markAsModified :: "nat \<Rightarrow> scene \<Rightarrow> scene" where
  "markAsModified n s =
     (let t = stamp s; s1 = upd_node n (lastModified_update (\<lambda>_. t)) (tick 1 s) in
      case sg_parent (sgn s1 n) of None \<Rightarrow> s1 | Some p \<Rightarrow> setChildrenModified p t (tick 1 s1))"

definition markAsCommitted :: "nat \<Rightarrow> scene \<Rightarrow> scene" where
  "markAsCommitted n s = upd_node n (lastCommitted_update (\<lambda>_. stamp s)) (tick 1 s)"

text \<open>Each of the two comparisons calls two getters; the second is only made if the first fails.\<close>

definition sg_modified :: "sg_node \<Rightarrow> bool" where
  "sg_modified nd \<longleftrightarrow> lastCommitted nd < lastModified nd \<or> lastCommitted nd < childrenMTime nd"

definition subtreeModifiedButNotCommitted :: "nat \<Rightarrow> scene \<Rightarrow> bool \<times> scene" where
  "subtreeModifiedButNotCommitted n s =
     (sg_modified (sgn s n), tick (if lastCommitted (sgn s n) < lastModified (sgn s n) then 2 else 4) s)"

subsection \<open>Construction and values\<close>

definition setValue :: "nat \<Rightarrow> sg_any \<Rightarrow> scene \<Rightarrow> scene res" where
  "setValue n val s = bind_res (sg_any_eq val (sg_value (sgn s n))) (\<lambda>same.
     if same then Inr s else Inr (markAsModified n (upd_node n (sg_value_update (\<lambda>_. val)) s)))"

definition Node :: "node_class \<Rightarrow> scene \<Rightarrow> nat \<times> scene" where
  "Node c s = (let n = length (sg_nodes s); t = (\<lambda>k. (sg_ticks s + k) mod 2 ^ 64) in
     (n, markAsModified n (tick 5 (s\<lparr>sg_nodes := sg_nodes s @
        [\<lparr>sg_class = c, sg_name = ''NULL'', sg_type = ''Node'', minmax = [], whitelist = [], blacklist = [],
          children = [], sg_value = None, whenCreated = t 0, lastModified = t 1, childrenMTime = t 2,
          lastCommitted = t 3, lastVerified = t 4, sg_parent = None, sg_flags = 0, sg_valid = False,
          documentation = []\<rparr>]\<rparr>))))"

text \<open>\<open>NodeParam<T>\<close> sets its value to \<open>T()\<close>, which leaves the components of a vector uninitialised: the
  value is an argument.\<close>

definition NodeParam :: "(sg_vtype \<Rightarrow> sg_val) \<Rightarrow> sg_vtype \<Rightarrow> scene \<Rightarrow> (nat \<times> scene) res" where
  "NodeParam def T s = (case Node (Param_node T) s of (n, s1) \<Rightarrow>
     bind_res (setValue n (Some (def T)) s1) (\<lambda>s2. Inr (n, s2)))"

fun run_creator :: "(sg_vtype \<Rightarrow> sg_val) \<Rightarrow> node_class \<Rightarrow> scene \<Rightarrow> (nat \<times> scene) res" where
  "run_creator def Plain_node s = Inr (Node Plain_node s)"
| "run_creator def (Param_node T) s = NodeParam def T s"

definition setName :: "string \<Rightarrow> nat \<Rightarrow> scene \<Rightarrow> scene" where
  "setName v n s = upd_node n (sg_name_update (\<lambda>_. v)) s"

definition setType :: "string \<Rightarrow> nat \<Rightarrow> scene \<Rightarrow> scene" where
  "setType v n s = upd_node n (sg_type_update (\<lambda>_. v)) s"

definition setMinMax :: "sg_any \<Rightarrow> sg_any \<Rightarrow> nat \<Rightarrow> scene \<Rightarrow> scene" where
  "setMinMax lo hi n s = upd_node n (minmax_update (\<lambda>_. [lo, hi])) s"

definition setFlags :: "i32 \<Rightarrow> nat \<Rightarrow> scene \<Rightarrow> scene" where
  "setFlags f n s = upd_node n (sg_flags_update (\<lambda>_. f)) s"

definition setDocumentation :: "string \<Rightarrow> nat \<Rightarrow> scene \<Rightarrow> scene" where
  "setDocumentation d n s = upd_node n (documentation_update (\<lambda>_. d)) s"

definition setWhiteList :: "sg_any list \<Rightarrow> nat \<Rightarrow> scene \<Rightarrow> scene" where
  "setWhiteList vs n s = upd_node n (whitelist_update (\<lambda>_. vs)) s"

definition setBlackList :: "sg_any list \<Rightarrow> nat \<Rightarrow> scene \<Rightarrow> scene" where
  "setBlackList vs n s = upd_node n (blacklist_update (\<lambda>_. vs)) s"

text \<open>\<open>min\<close> and \<open>max\<close> index a vector that is empty before the first \<open>setMinMax\<close>.\<close>

definition sg_min :: "nat \<Rightarrow> scene \<Rightarrow> sg_any res" where
  "sg_min n s = (if minmax (sgn s n) = [] then Inl Undefined_behaviour else Inr (minmax (sgn s n) ! 0))"

definition sg_max :: "nat \<Rightarrow> scene \<Rightarrow> sg_any res" where
  "sg_max n s = (if length (minmax (sgn s n)) < 2 then Inl Undefined_behaviour else Inr (minmax (sgn s n) ! 1))"

subsection \<open>Validity\<close>

definition computeValidMinMax :: "sg_node \<Rightarrow> bool res" where
  "computeValidMinMax nd = (case sg_class nd of
      Plain_node \<Rightarrow> Inr True
    | Param_node T \<Rightarrow> (if length (minmax nd) < 2 \<or> \<not> has_flag valid_min_max nd then Inr True
        else valueInRange T (minmax nd ! 0) (minmax nd ! 1) (sg_value nd)))"

definition computeValid :: "sg_node \<Rightarrow> bool res" where
  "computeValid nd =
     bind_res (if has_flag valid_min_max nd \<and> 1 < length (minmax nd) then computeValidMinMax nd else Inr True) (\<lambda>v1.
     bind_res (if has_flag valid_blacklist nd
       then bind_res (find_any (sg_value nd) (blacklist nd)) (\<lambda>found. Inr (v1 \<and> \<not> found)) else Inr v1) (\<lambda>v2.
     if has_flag valid_whitelist nd
     then bind_res (find_any (sg_value nd) (whitelist nd)) (\<lambda>found. Inr (v2 \<and> found)) else Inr v2))"

text \<open>\<open>createNode\<close>: the library lookup \<open>getSymbol\<close> is an argument.\<close>

definition find_creator :: "(string \<Rightarrow> node_class option) \<Rightarrow> string \<Rightarrow> scene \<Rightarrow> (node_class \<times> scene) res" where
  "find_creator getSymbol type s = (case map_of (nodeRegistry s) type of
      Some c \<Rightarrow> Inr (c, s)
    | None \<Rightarrow> (case getSymbol (''ospray_create_sg_node__'' @ type) of
        None \<Rightarrow> Inl (Runtime_error (''unknown OSPRay sg::Node '' @ [CHR 0x27] @ type @ [CHR 0x27]))
      | Some c \<Rightarrow> Inr (c, s\<lparr>nodeRegistry := (type, c) # nodeRegistry s\<rparr>)))"

definition createNode ::
  "(string \<Rightarrow> node_class option) \<Rightarrow> (sg_vtype \<Rightarrow> sg_val) \<Rightarrow> string \<Rightarrow> string \<Rightarrow> sg_any \<Rightarrow> i32 \<Rightarrow> string \<Rightarrow> scene
     \<Rightarrow> (nat \<times> scene) res" where
  "createNode getSymbol def name type val flags doc s =
     bind_res (find_creator getSymbol type s) (\<lambda>(creator, s1).
     bind_res (run_creator def creator s1) (\<lambda>(n, s2).
     let s3 = setDocumentation doc n (setFlags flags n (setType type n (setName name n s2))) in
     if val \<noteq> None then bind_res (setValue n val s3) (\<lambda>s4. Inr (n, s4)) else Inr (n, s3)))"

text \<open>The symbols of the classes modelled here (\<open>OSP_REGISTER_SG_NODE_NAME\<close>).\<close>

definition registered :: "string \<Rightarrow> node_class option" where
  "registered symbol = map_of (map (\<lambda>(name, c). (''ospray_create_sg_node__'' @ name, c))
     [(''Node'', Plain_node), (''float'', Param_node VT_float), (''int'', Param_node VT_int),
      (''bool'', Param_node VT_bool), (''vec2f'', Param_node VT_vec2f), (''vec2i'', Param_node VT_vec2i),
      (''vec3f'', Param_node VT_vec3f), (''vec3i'', Param_node VT_vec3i), (''vec3fa'', Param_node VT_vec3fa),
      (''vec4f'', Param_node VT_vec4f), (''box2f'', Param_node VT_box2f), (''box2i'', Param_node VT_box2i),
      (''box3f'', Param_node VT_box3f), (''box3i'', Param_node VT_box3i), (''string'', Param_node VT_string),
      (''OSPObject'', Param_node VT_object)]) symbol"

section \<open>Children\<close>

text \<open>\<open>utility::lowerCase\<close> with \<open>tolower\<close> of the C locale.  The children are a \<open>std::map\<close>: a
  list sorted by the names.\<close>

definition tolower :: "char \<Rightarrow> char" where
  "tolower c = (let n = of_char c :: nat in if 65 \<le> n \<and> n \<le> 90 then char_of (n + 32) else c)"

definition lowerCase :: "string \<Rightarrow> string" where
  "lowerCase xs = map tolower xs"

definition find_child :: "string \<Rightarrow> (string \<times> nat) list \<Rightarrow> nat option" where
  "find_child name cs = (case map_of cs name of
      Some c \<Rightarrow> Some c
    | None \<Rightarrow> map_option snd (find (\<lambda>(k, c). lowerCase k = lowerCase name) cs))"

definition hasChild :: "nat \<Rightarrow> string \<Rightarrow> scene \<Rightarrow> bool" where
  "hasChild n name s \<longleftrightarrow> find_child name (children (sgn s n)) \<noteq> None"

definition child :: "nat \<Rightarrow> string \<Rightarrow> scene \<Rightarrow> nat res" where
  "child n name s = (case find_child name (children (sgn s n)) of
      None \<Rightarrow> Inl (Runtime_error ''could not find sg child node'') | Some c \<Rightarrow> Inr c)"

fun put_child :: "string \<Rightarrow> nat \<Rightarrow> (string \<times> nat) list \<Rightarrow> (string \<times> nat) list" where
  "put_child k c [] = [(k, c)]"
| "put_child k c ((k', c') # cs) =
     (if k = k' then (k, c) # cs
      else if string_less k k' then (k, c) # (k', c') # cs
      else (k', c') # put_child k c cs)"

definition setChild :: "nat \<Rightarrow> string \<Rightarrow> nat \<Rightarrow> scene \<Rightarrow> scene" where
  "setChild p name c s =
     upd_node c (sg_parent_update (\<lambda>_. Some p)) (upd_node p (children_update (put_child name c)) s)"

definition add_as :: "nat \<Rightarrow> nat \<Rightarrow> string \<Rightarrow> scene \<Rightarrow> scene" where
  "add_as p c name s = upd_node c (sg_parent_update (\<lambda>_. Some p)) (setChild p name c s)"

definition add :: "nat \<Rightarrow> nat \<Rightarrow> scene \<Rightarrow> scene" where
  "add p c s = add_as p c (sg_name (sgn s c)) s"

definition remove :: "nat \<Rightarrow> string \<Rightarrow> scene \<Rightarrow> scene res" where
  "remove p name s =
     (if hasChild p name s then bind_res (child p name s) (\<lambda>c.
        Inr (upd_node p (children_update (filter (\<lambda>(k, c). k \<noteq> name))) (upd_node c (sg_parent_update (\<lambda>_. None)) s)))
      else Inr s)"

definition createChild ::
  "(string \<Rightarrow> node_class option) \<Rightarrow> (sg_vtype \<Rightarrow> sg_val) \<Rightarrow> nat \<Rightarrow> string \<Rightarrow> string \<Rightarrow> sg_any \<Rightarrow> i32 \<Rightarrow> string \<Rightarrow> scene
     \<Rightarrow> (nat \<times> scene) res" where
  "createChild getSymbol def p name type val flags doc s =
     bind_res (createNode getSymbol def name type val flags doc s) (\<lambda>(c, s1). Inr (c, add p c s1))"

definition createChildWithValue ::
  "(string \<Rightarrow> node_class option) \<Rightarrow> (sg_vtype \<Rightarrow> sg_val) \<Rightarrow> nat \<Rightarrow> string \<Rightarrow> string \<Rightarrow> sg_val \<Rightarrow> scene \<Rightarrow> (nat \<times> scene) res" where
  "createChildWithValue getSymbol def p name type t s =
     (if hasChild p name s
      then bind_res (child p name s) (\<lambda>c. bind_res (setValue c (Some t) s) (\<lambda>s1. Inr (c, s1)))
      else bind_res (createNode getSymbol def name type (Some t) 0 [] s) (\<lambda>(c, s1). Inr (c, add p c s1)))"

text \<open>The children in the order of the map.\<close>

definition kids :: "scene \<Rightarrow> nat \<Rightarrow> nat list" where
  "kids s n = map snd (children (sgn s n))"

text \<open>The recursive searches end only if the graph has no cycle below the node: \<open>None\<close> is a recursion
  deeper than the first argument.\<close>

fun fold_out :: "('c \<Rightarrow> 's \<Rightarrow> 's outcome) \<Rightarrow> 'c list \<Rightarrow> 's \<Rightarrow> 's outcome" where
  "fold_out f [] s = ret s"
| "fold_out f (c # cs) s = bind_out (f c s) (fold_out f cs)"

primrec hasChildRecursive :: "nat \<Rightarrow> string \<Rightarrow> scene \<Rightarrow> nat \<Rightarrow> bool outcome" where
  "hasChildRecursive 0 name s n = None"
| "hasChildRecursive (Suc d) name s n = fold_out (\<lambda>c found.
     bind_out (hasChildRecursive d name s c) (\<lambda>b. ret (found \<or> b))) (kids s n) (hasChild n name s)"

text \<open>A child whose search throws a \<open>runtime_error\<close> is skipped.\<close>

fun first_found :: "('c \<Rightarrow> 'a outcome) \<Rightarrow> 'c list \<Rightarrow> 'a outcome" where
  "first_found f [] = raise (Runtime_error ''error finding node in Node::childRecursive'')"
| "first_found f (c # cs) = (case f c of Some (Inl (Runtime_error _)) \<Rightarrow> first_found f cs | r \<Rightarrow> r)"

primrec childRecursive :: "nat \<Rightarrow> string \<Rightarrow> scene \<Rightarrow> nat \<Rightarrow> nat outcome" where
  "childRecursive 0 name s n = None"
| "childRecursive (Suc d) name s n =
     (if hasChild n name s then Some (child n name s) else first_found (childRecursive d name s) (kids s n))"

primrec childrenRecursive :: "nat \<Rightarrow> string \<Rightarrow> scene \<Rightarrow> nat \<Rightarrow> nat list outcome" where
  "childrenRecursive 0 name s n = None"
| "childrenRecursive (Suc d) name s n =
     fold_out (\<lambda>c found. bind_out (childrenRecursive d name s c) (\<lambda>found2. ret (found @ found2))) (kids s n)
       (case child n name s of Inr c \<Rightarrow> [c] | Inl e \<Rightarrow> [])"

subsection \<open>Lists of nodes\<close>

text \<open>\<open>NodeList\<close>: a node with a list of nodes that are also added as its children.\<close>

record node_list =
  list_node :: nat
  list_items :: "nat list"

definition NodeList_clear :: "node_list \<Rightarrow> node_list" where
  "NodeList_clear l = l\<lparr>list_items := []\<rparr>"

definition NodeList_push_back :: "nat \<Rightarrow> node_list \<times> scene \<Rightarrow> node_list \<times> scene" where
  "NodeList_push_back c x = (case x of (l, s) \<Rightarrow>
     (l\<lparr>list_items := list_items l @ [c]\<rparr>, add (list_node l) c s))"

definition NodeList_item :: "nat \<Rightarrow> node_list \<Rightarrow> nat res" where
  "NodeList_item i l = (if i < length (list_items l) then Inr (list_items l ! i) else Inl Undefined_behaviour)"

end
