(* ===== verification/SceneTraverse.thy ===== *)
theory SceneTraverse
  imports SceneGraph
begin

text \<open>
  The traversals of the scene graph: \<open>Node::traverse\<close> with the operations \<open>commit\<close> and others, the hooks of
  \<open>NodeParam<T>\<close>, and the visitors of \<open>sg/visitor\<close>.  A traversal of a graph with a cycle never returns; the
  first argument bounds the depth, and \<open>None\<close> is a deeper recursion.
\<close>

section \<open>Hooks of the nodes\<close>

text \<open>\<open>commitNodeValue<T>\<close>: the calls for a value of type \<open>T\<close>.  The type \<open>OSPObject\<close> has none.\<close>

fun set_calls :: "nat option \<Rightarrow> string \<Rightarrow> sg_val \<Rightarrow> sg_event list" where
  "set_calls obj name (S_bool b) = [Osp_set obj name (S_int (if b then 1 else 0))]"
| "set_calls obj name (S_vec3fa v) = [Osp_set obj name (S_vec3f v)]"
| "set_calls obj name (S_box2f (l, u)) = [Osp_set obj (name @ ''.upper'') (S_vec2f u), Osp_set obj (name @ ''.lower'') (S_vec2f l)]"
| "set_calls obj name (S_box2i (l, u)) = [Osp_set obj (name @ ''.upper'') (S_vec2i u), Osp_set obj (name @ ''.lower'') (S_vec2i l)]"
| "set_calls obj name (S_box3f (l, u)) = [Osp_set obj (name @ ''.upper'') (S_vec3f u), Osp_set obj (name @ ''.lower'') (S_vec3f l)]"
| "set_calls obj name (S_box3i (l, u)) = [Osp_set obj (name @ ''.upper'') (S_vec3i u), Osp_set obj (name @ ''.lower'') (S_vec3i l)]"
| "set_calls obj name (S_object x) = []"
| "set_calls obj name v = [Osp_set obj name v]"

definition commitNodeValue :: "sg_vtype \<Rightarrow> nat \<Rightarrow> nat option \<Rightarrow> scene \<Rightarrow> sg_event list res" where
  "commitNodeValue T n obj s =
     (if T = VT_object then Inr []
      else bind_res (sg_get T (sg_value (sgn s n))) (\<lambda>v. Inr (set_calls obj (sg_name (sgn s n)) v)))"

text \<open>The calls \<open>postCommit\<close> makes: none for \<open>Node\<close>, and for a parameter only if the parent is an object.\<close>

definition node_calls :: "scene \<Rightarrow> nat \<Rightarrow> sg_event list res" where
  "node_calls s n = (case sg_class (sgn s n) of
      Plain_node \<Rightarrow> Inr []
    | Param_node T \<Rightarrow> (case sg_parent (sgn s n) of
        None \<Rightarrow> Inr []
      | Some p \<Rightarrow> (case sg_value (sgn s p) of
          Some (S_object obj) \<Rightarrow> commitNodeValue T n obj s
        | _ \<Rightarrow> Inr [])))"

definition postCommit :: "nat \<Rightarrow> scene \<Rightarrow> scene res" where
  "postCommit n s = bind_res (node_calls s n) (\<lambda>es. Inr (s\<lparr>sg_events := sg_events s @ es\<rparr>))"

section \<open>Traversal by operation\<close>

definition preTraverse :: "string \<Rightarrow> nat \<Rightarrow> scene \<Rightarrow> bool \<times> scene" where
  "preTraverse operation n s =
     (if operation = ''commit'' then subtreeModifiedButNotCommitted n s else (True, s))"

definition postTraverse :: "string \<Rightarrow> nat \<Rightarrow> scene \<Rightarrow> scene res" where
  "postTraverse operation n s =
     (if operation = ''commit'' then
        (case subtreeModifiedButNotCommitted n s of (m, s1) \<Rightarrow>
           if m then bind_res (postCommit n s1) (\<lambda>s2. Inr (markAsCommitted n s2)) else Inr s1)
      else Inr s)"

text \<open>The context's stamp of the children is written (one new stamp before, one copy after the
  children) and never read.\<close>

primrec traverse :: "nat \<Rightarrow> string \<Rightarrow> nat \<Rightarrow> scene \<Rightarrow> scene outcome" where
  "traverse 0 operation n s = None"
| "traverse (Suc d) operation n s =
     (case preTraverse operation n (tick 1 s) of (traverseChildren, s1) \<Rightarrow>
        bind_out (if traverseChildren then fold_out (traverse d operation) (kids s1 n) s1 else ret s1)
          (\<lambda>s2. Some (postTraverse operation n (tick 1 s2))))"

text \<open>A fresh \<open>RenderContext\<close> has two stamps.\<close>

definition traverse_root :: "nat \<Rightarrow> string \<Rightarrow> nat \<Rightarrow> scene \<Rightarrow> scene outcome" where
  "traverse_root d operation n s = traverse d operation n (tick 2 s)"

definition commit :: "nat \<Rightarrow> nat \<Rightarrow> scene \<Rightarrow> scene outcome" where
  "commit d n s = traverse_root d ''commit'' n s"

definition animate :: "nat \<Rightarrow> nat \<Rightarrow> scene \<Rightarrow> scene outcome" where
  "animate d n s = traverse_root d ''animate'' n s"

definition finalize :: "nat \<Rightarrow> nat \<Rightarrow> scene \<Rightarrow> scene outcome" where
  "finalize d n s = traverse d ''render'' n s"

section \<open>Traversal by visitors\<close>

text \<open>A visitor has a state of its own; its function gets the depth of the context.\<close>

record 'v visitor =
  visit :: "nat \<Rightarrow> nat \<Rightarrow> 'v \<times> scene \<Rightarrow> (bool \<times> 'v \<times> scene) res"
  post_children :: "nat \<Rightarrow> 'v \<times> scene \<Rightarrow> ('v \<times> scene) res"

primrec visit_traverse :: "nat \<Rightarrow> 'v visitor \<Rightarrow> nat \<Rightarrow> nat \<Rightarrow> 'v \<times> scene \<Rightarrow> ('v \<times> scene) outcome" where
  "visit_traverse 0 V level n x = None"
| "visit_traverse (Suc d) V level n x =
     bind_out (Some (visit V level n x)) (\<lambda>(traverseChildren, x1).
     bind_out (if traverseChildren then fold_out (visit_traverse d V (Suc level)) (kids (snd x1) n) x1 else ret x1)
       (\<lambda>x2. Some (post_children V n x2)))"

subsection \<open>VerifyNodes\<close>

text \<open>\<open>childrenLastModified()\<close> is only called for a valid node.\<close>

definition verify_visit :: "nat \<Rightarrow> scene \<Rightarrow> (bool \<times> scene) res" where
  "verify_visit n s =
     (let nd = sgn s n; s1 = (if sg_valid nd then tick 1 s else s) in
      bind_res (computeValid nd) (\<lambda>v. Inr (\<not> (sg_valid nd \<and> childrenMTime nd < lastVerified nd),
        upd_node n (\<lambda>nd. nd\<lparr>sg_valid := v, lastVerified := stamp s1\<rparr>) (tick 1 s1))))"

definition verify_post :: "bool \<Rightarrow> nat \<Rightarrow> scene \<Rightarrow> scene res" where
  "verify_post errorOnInvalid n s =
     (let v = (sg_valid (sgn s n) \<and> (\<forall>c\<in>set (kids s n). has_flag required (sgn s c) \<longrightarrow> sg_valid (sgn s c))) in
      if errorOnInvalid \<and> \<not> v then Inl (Runtime_error (sg_name (sgn s n) @ '' was marked invalid''))
      else Inr (upd_node n (sg_valid_update (\<lambda>_. v)) s))"

definition VerifyNodes :: "bool \<Rightarrow> unit visitor" where
  "VerifyNodes errorOut = \<lparr>
     visit = (\<lambda>level n (u, s). bind_res (verify_visit n s) (\<lambda>(b, s1). Inr (b, u, s1))),
     post_children = (\<lambda>n (u, s). bind_res (verify_post errorOut n s) (\<lambda>s1. Inr (u, s1)))\<rparr>"

definition verify :: "nat \<Rightarrow> nat \<Rightarrow> scene \<Rightarrow> scene outcome" where
  "verify d n s = bind_out (visit_traverse d (VerifyNodes False) 0 n ((), s)) (\<lambda>(u, s1). ret s1)"

subsection \<open>Other visitors\<close>

definition MarkAllAsModified :: "unit visitor" where
  "MarkAllAsModified = \<lparr>
     visit = (\<lambda>level n (u, s). Inr (True, u, markAsModified n s)), post_children = (\<lambda>n x. Inr x)\<rparr>"

definition GatherNodesByName :: "string \<Rightarrow> nat list visitor" where
  "GatherNodesByName name = \<lparr>
     visit = (\<lambda>level n (ns, s). Inr (True,
       if longestBeginningMatch (sg_name (sgn s n)) name = name \<and> n \<notin> set ns then ns @ [n] else ns, s)),
     post_children = (\<lambda>n x. Inr x)\<rparr>"

text \<open>\<open>GatherNodesByPosition\<close>: which nodes are geometries whose bounds contain the position is an argument.\<close>

definition GatherNodesByPosition :: "(scene \<Rightarrow> nat \<Rightarrow> bool) \<Rightarrow> nat list visitor" where
  "GatherNodesByPosition contains = \<lparr>
     visit = (\<lambda>level n (ns, s). Inr (True, if contains s n then ns @ [n] else ns, s)),
     post_children = (\<lambda>n x. Inr x)\<rparr>"

text \<open>\<open>PrintNodes\<close>: the indentation and the texts of a node; how a value is printed is an argument.\<close>

definition PrintNodes :: "(sg_val \<Rightarrow> string) \<Rightarrow> string visitor" where
  "PrintNodes show_val = \<lparr>
     visit = (\<lambda>level n (out, s). let nd = sgn s n; typed = (\<lambda>name T.
         if sg_type nd = name then bind_res (sg_get T (sg_value nd)) (\<lambda>v. Inr (show_val v)) else Inr []) in
       bind_res (typed ''string'' VT_string) (\<lambda>o1. bind_res (typed ''float'' VT_float) (\<lambda>o2.
       bind_res (typed ''vec3f'' VT_vec3f) (\<lambda>o3. bind_res (typed ''vec2i'' VT_vec2i) (\<lambda>o4.
       Inr (True, out @ concat (replicate level ''  '') @ sg_name nd @ '' : '' @ sg_type nd @ [CHR 0x3D, CHR 0x22] @
         o1 @ o2 @ o3 @ o4 @ [CHR 0x22, CHR 0x0A], s)))))),
     post_children = (\<lambda>n x. Inr x)\<rparr>"

end
