(* ===== verification/SceneCommit.thy ===== *)
theory SceneCommit
  imports SceneTraverse
begin

text \<open>
  The invariants of the scene graph: the nodes form a forest whose parent pointers agree with the maps
  of children, stamps lie in the past, a modified node is noticed at its ancestors, and the cached
  validity is that of the reference.  The invariants hold after every operation that tells the graph about its
  change; the operations that do not (\<open>add\<close>, \<open>remove\<close>, the setters of flags and ranges) break them until
  \<open>markAsModified\<close> is called.
\<close>

section \<open>The forest\<close>

definition child_of :: "scene \<Rightarrow> (nat \<times> nat) set" where
  "child_of s = {(c, p). p < length (sg_nodes s) \<and> c \<in> set (kids s p)}"

definition below :: "scene \<Rightarrow> nat \<Rightarrow> nat set" where
  "below s n = {m. (m, n) \<in> (child_of s)\<^sup>*}"

definition scene_ok :: "scene \<Rightarrow> bool" where
  "scene_ok s \<longleftrightarrow> acyclic (child_of s) \<and>
     (\<forall>p<length (sg_nodes s). distinct (kids s p) \<and>
        (\<forall>q. sg_parent (sgn s p) = Some q \<longrightarrow> q < length (sg_nodes s)) \<and>
        (\<forall>c\<in>set (kids s p). c < length (sg_nodes s) \<and> sg_parent (sgn s c) = Some p))"

text \<open>The number of nodes below a node bounds the depth of a traversal.\<close>

definition hgt :: "scene \<Rightarrow> nat \<Rightarrow> nat" where
  "hgt s n = card {m. (m, n) \<in> (child_of s)\<^sup>+}"

lemma scene_okD:
  assumes "scene_ok s"
  shows "acyclic (child_of s)" "p < length (sg_nodes s) \<Longrightarrow> distinct (kids s p)"
    "p < length (sg_nodes s) \<Longrightarrow> c \<in> set (kids s p) \<Longrightarrow> c < length (sg_nodes s)"
    "p < length (sg_nodes s) \<Longrightarrow> c \<in> set (kids s p) \<Longrightarrow> sg_parent (sgn s c) = Some p"
    "p < length (sg_nodes s) \<Longrightarrow> sg_parent (sgn s p) = Some q \<Longrightarrow> q < length (sg_nodes s)"
  using assms unfolding scene_ok_def by blast+

lemma child_ofD:
  assumes "scene_ok s" and "(c, p) \<in> child_of s"
  shows "c < length (sg_nodes s)" "p < length (sg_nodes s)" "sg_parent (sgn s c) = Some p" "c \<in> set (kids s p)"
proof -
  show p: "p < length (sg_nodes s)" and c: "c \<in> set (kids s p)" using assms(2) by (simp_all add: child_of_def)
  show "c < length (sg_nodes s)" "sg_parent (sgn s c) = Some p"
    by (rule scene_okD(3) [OF assms(1) p c], rule scene_okD(4) [OF assms(1) p c])
qed

lemma kid_child_of: "p < length (sg_nodes s) \<Longrightarrow> c \<in> set (kids s p) \<Longrightarrow> (c, p) \<in> child_of s"
  by (simp add: child_of_def)

lemma one_parent: "scene_ok s \<Longrightarrow> single_valued (child_of s)"
  unfolding single_valued_def by (metis child_ofD(3) option.inject)

lemma strictly_below_range:
  assumes "scene_ok s" and "(m, n) \<in> (child_of s)\<^sup>+"
  shows "m < length (sg_nodes s) \<and> n < length (sg_nodes s) \<and> m \<noteq> n"
proof -
  have "m \<noteq> n" using assms(2) scene_okD(1) [OF assms(1)] by (auto simp: acyclic_def)
  moreover have "m < length (sg_nodes s)"
    using tranclD [OF assms(2)] child_ofD(1) [OF assms(1)] by blast
  moreover have "n < length (sg_nodes s)"
    using tranclD2 [OF assms(2)] child_ofD(2) [OF assms(1)] by blast
  ultimately show ?thesis by simp
qed

lemma hgt_less: "scene_ok s \<Longrightarrow> n < length (sg_nodes s) \<Longrightarrow> hgt s n < length (sg_nodes s)"
proof -
  assume ok: "scene_ok s" and n: "n < length (sg_nodes s)"
  have "{m. (m, n) \<in> (child_of s)\<^sup>+} \<subseteq> {..<length (sg_nodes s)} - {n}"
    using strictly_below_range [OF ok] by blast
  then have "hgt s n \<le> card ({..<length (sg_nodes s)} - {n})" unfolding hgt_def by (intro card_mono) auto
  then show ?thesis using n by simp
qed

lemma hgt_child:
  assumes "scene_ok s" and "(c, p) \<in> child_of s"
  shows "hgt s c < hgt s p"
  unfolding hgt_def
proof (rule psubset_card_mono)
  have "{m. (m, p) \<in> (child_of s)\<^sup>+} \<subseteq> {..<length (sg_nodes s)}"
    using strictly_below_range [OF assms(1)] by blast
  then show "finite {m. (m, p) \<in> (child_of s)\<^sup>+}" by (rule finite_subset) simp
  have "(c, c) \<notin> (child_of s)\<^sup>+" using strictly_below_range [OF assms(1)] by blast
  then show "{m. (m, c) \<in> (child_of s)\<^sup>+} \<subset> {m. (m, p) \<in> (child_of s)\<^sup>+}"
    using assms(2) by (auto intro: trancl_into_trancl)
qed

lemma below_unfold:
  assumes "n < length (sg_nodes s)"
  shows "below s n = insert n (\<Union>c\<in>set (kids s n). below s c)"
proof -
  have "(m, n) \<in> (child_of s)\<^sup>* \<longleftrightarrow> m = n \<or> (\<exists>c\<in>set (kids s n). (m, c) \<in> (child_of s)\<^sup>*)" for m
    using assms by (auto elim: rtranclE simp: child_of_def intro: rtrancl_into_rtrancl)
  then show ?thesis by (auto simp: below_def)
qed

lemma below_self [simp]: "n \<in> below s n"
  by (simp add: below_def)

lemma below_closed: "p \<in> below s n \<Longrightarrow> (c, p) \<in> child_of s \<Longrightarrow> c \<in> below s n"
  by (auto simp: below_def intro: converse_rtrancl_into_rtrancl)

lemma below_range:
  assumes "scene_ok s" and "n < length (sg_nodes s)" and "m \<in> below s n"
  shows "m < length (sg_nodes s)"
proof -
  have "(m, n) \<in> (child_of s)\<^sup>*" using assms(3) by (simp add: below_def)
  then show ?thesis using assms(2) child_ofD(1) [OF assms(1)] by (cases rule: converse_rtranclE) auto
qed

lemma not_below_child: "scene_ok s \<Longrightarrow> (c, p) \<in> child_of s \<Longrightarrow> p \<notin> below s c"
proof
  assume ok: "scene_ok s" and "(c, p) \<in> child_of s" "p \<in> below s c"
  then have "(c, c) \<in> (child_of s)\<^sup>+" unfolding below_def by (simp add: rtrancl_into_trancl2)
  with scene_okD(1) [OF ok] show False by (simp add: acyclic_def)
qed

lemma siblings_disjoint:
  assumes "scene_ok s" and "(c, p) \<in> child_of s" and "(e, p) \<in> child_of s" and "c \<noteq> e"
  shows "below s c \<inter> below s e = {}"
proof (rule ccontr)
  have no: "(x, y) \<notin> (child_of s)\<^sup>*" if "(x, p) \<in> child_of s" "(y, p) \<in> child_of s" "x \<noteq> y" for x y
  proof
    assume "(x, y) \<in> (child_of s)\<^sup>*"
    with that(3) obtain z where "(x, z) \<in> child_of s" "(z, y) \<in> (child_of s)\<^sup>*" by (meson converse_rtranclE)
    moreover then have "z = p" using one_parent [OF assms(1)] that(1) by (auto simp: single_valued_def)
    ultimately have "p \<in> below s y" by (simp add: below_def)
    with not_below_child [OF assms(1) that(2)] show False ..
  qed
  assume "below s c \<inter> below s e \<noteq> {}"
  then obtain m where "(m, c) \<in> (child_of s)\<^sup>*" "(m, e) \<in> (child_of s)\<^sup>*" by (auto simp: below_def)
  from single_valued_confluent [OF one_parent [OF assms(1)] this] no assms(2-4) show False by blast
qed

text \<open>Operations that leave children and parents alone keep the forest.\<close>

definition same_tree :: "scene \<Rightarrow> scene \<Rightarrow> bool" where
  "same_tree s s' \<longleftrightarrow> length (sg_nodes s') = length (sg_nodes s) \<and>
     (\<forall>m<length (sg_nodes s). children (sgn s' m) = children (sgn s m) \<and> sg_parent (sgn s' m) = sg_parent (sgn s m))"

lemma same_treeD:
  assumes "same_tree s s'"
  shows "length (sg_nodes s') = length (sg_nodes s)" "child_of s' = child_of s" "below s' = below s" "hgt s' = hgt s"
    "m < length (sg_nodes s) \<Longrightarrow> kids s' m = kids s m"
proof -
  show l: "length (sg_nodes s') = length (sg_nodes s)" using assms by (simp add: same_tree_def)
  show "m < length (sg_nodes s) \<Longrightarrow> kids s' m = kids s m" for m using assms by (simp add: same_tree_def kids_def)
  then show c: "child_of s' = child_of s" by (auto simp: child_of_def l)
  show "below s' = below s" "hgt s' = hgt s" by (simp_all add: fun_eq_iff below_def hgt_def c)
qed

lemma same_tree_ok:
  assumes "same_tree s s'" and "scene_ok s"
  shows "scene_ok s'"
proof -
  note st = same_treeD [OF assms(1)]
  have par: "sg_parent (sgn s' m) = sg_parent (sgn s m)" if "m < length (sg_nodes s)" for m
    using assms(1) that by (simp add: same_tree_def)
  show ?thesis unfolding scene_ok_def st(1,2)
    using scene_okD [OF assms(2)] st(5) par by (metis (no_types))
qed

lemma same_tree_refl [simp]: "same_tree s s"
  by (simp add: same_tree_def)

lemma same_tree_trans: "same_tree s t \<Longrightarrow> same_tree t u \<Longrightarrow> same_tree s u"
  by (simp add: same_tree_def)

text \<open>The nodes below a node in the order in which their children are done before them.\<close>

primrec post_order :: "nat \<Rightarrow> scene \<Rightarrow> nat \<Rightarrow> nat list" where
  "post_order 0 s n = []"
| "post_order (Suc d) s n = concat (map (post_order d s) (kids s n)) @ [n]"

lemma same_tree_post_order:
  "same_tree s s' \<Longrightarrow> scene_ok s \<Longrightarrow> n < length (sg_nodes s) \<Longrightarrow> post_order d s' n = post_order d s n"
proof (induction d arbitrary: n)
  case (Suc d)
  have "post_order d s' c = post_order d s c" if "c \<in> set (kids s n)" for c
    using Suc.IH [OF Suc.prems(1,2)] scene_okD(3) [OF Suc.prems(2,3) that] by blast
  then show ?case using same_treeD(5) [OF Suc.prems(1,3)] by (simp cong: map_cong)
qed simp

lemma set_post_order:
  "scene_ok s \<Longrightarrow> n < length (sg_nodes s) \<Longrightarrow> hgt s n < d \<Longrightarrow> set (post_order d s n) = below s n"
proof (induction d arbitrary: n)
  case (Suc d)
  have "set (post_order d s c) = below s c" if "c \<in> set (kids s n)" for c
  proof (rule Suc.IH [OF Suc.prems(1)])
    show "c < length (sg_nodes s)" by (rule scene_okD(3) [OF Suc.prems(1,2) that])
    show "hgt s c < d" using hgt_child [OF Suc.prems(1) kid_child_of [OF Suc.prems(2) that]] Suc.prems(3) by simp
  qed
  then show ?case using below_unfold [OF Suc.prems(2)] by auto
qed simp

section \<open>Commit\<close>

definition stamps_below :: "nat \<Rightarrow> sg_node \<Rightarrow> bool" where
  "stamps_below t nd \<longleftrightarrow> lastModified nd < t \<and> childrenMTime nd < t \<and> lastCommitted nd < t \<and> lastVerified nd < t"

definition stamps_ok :: "scene \<Rightarrow> bool" where
  "stamps_ok s \<longleftrightarrow> (\<forall>n<length (sg_nodes s). stamps_below (sg_ticks s) (sgn s n))"

lemma stamps_below_mono: "stamps_below t nd \<Longrightarrow> t \<le> u \<Longrightarrow> stamps_below u nd"
  by (auto simp: stamps_below_def)

lemma stamps_ok_upd:
  assumes "stamps_ok s" and "sg_nodes s' = (sg_nodes s)[n := nd]" and "sg_ticks s \<le> sg_ticks s'"
    and "stamps_below (sg_ticks s') nd"
  shows "stamps_ok s'"
  unfolding stamps_ok_def
proof (intro allI impI)
  fix m assume m: "m < length (sg_nodes s')"
  then have "stamps_below (sg_ticks s') (sgn s m)"
    using assms(1-3) stamps_below_mono [of "sg_ticks s" "sgn s m"] by (simp add: stamps_ok_def)
  then show "stamps_below (sg_ticks s') (sgn s' m)" using assms(2,4) m by (cases "m = n") auto
qed

definition propagated :: "scene \<Rightarrow> bool" where
  "propagated s \<longleftrightarrow> (\<forall>(c, p)\<in>child_of s. sg_modified (sgn s c) \<longrightarrow> sg_modified (sgn s p))"

lemma unmodified_below:
  assumes "propagated s" and "\<not> sg_modified (sgn s n)" and "m \<in> below s n"
  shows "\<not> sg_modified (sgn s m)"
proof -
  have "(m, n) \<in> (child_of s)\<^sup>*" using assms(3) by (simp add: below_def)
  then show ?thesis using assms(2)
    by (induction rule: converse_rtrancl_induct) (use assms(1) in \<open>auto simp: propagated_def\<close>)
qed

text \<open>What a commit of the nodes \<open>A\<close> does: only their \<open>lastCommitted\<close> changes, none is modified
  afterwards, and the calls \<open>es\<close> are made.\<close>

definition committed :: "scene \<Rightarrow> nat set \<Rightarrow> scene \<Rightarrow> sg_event list \<Rightarrow> bool" where
  "committed s A s' es \<longleftrightarrow> (\<forall>m\<in>A. m < length (sg_nodes s)) \<and> length (sg_nodes s') = length (sg_nodes s) \<and>
     (\<forall>m<length (sg_nodes s). \<exists>t. sgn s' m = (sgn s m)\<lparr>lastCommitted := t\<rparr>) \<and>
     (\<forall>m<length (sg_nodes s). m \<notin> A \<longrightarrow> sgn s' m = sgn s m) \<and>
     (\<forall>m\<in>A. \<not> sg_modified (sgn s' m)) \<and>
     sg_events s' = sg_events s @ es \<and> sg_ticks s \<le> sg_ticks s' \<and> nodeRegistry s' = nodeRegistry s \<and> stamps_ok s'"

lemma committedD:
  assumes "committed s A s' es"
  shows "length (sg_nodes s') = length (sg_nodes s)"
    "m < length (sg_nodes s) \<Longrightarrow> \<exists>t. sgn s' m = (sgn s m)\<lparr>lastCommitted := t\<rparr>"
    "m < length (sg_nodes s) \<Longrightarrow> m \<notin> A \<Longrightarrow> sgn s' m = sgn s m"
    "m \<in> A \<Longrightarrow> \<not> sg_modified (sgn s' m)"
    "sg_events s' = sg_events s @ es" "sg_ticks s \<le> sg_ticks s'" "nodeRegistry s' = nodeRegistry s" "stamps_ok s'"
    "m \<in> A \<Longrightarrow> m < length (sg_nodes s)"
  using assms unfolding committed_def by blast+

lemma committed_fields:
  assumes "committed s A s' es" and "m < length (sg_nodes s)"
  shows "children (sgn s' m) = children (sgn s m)" "sg_parent (sgn s' m) = sg_parent (sgn s m)"
    "sg_class (sgn s' m) = sg_class (sgn s m)" "sg_value (sgn s' m) = sg_value (sgn s m)"
    "sg_name (sgn s' m) = sg_name (sgn s m)" "minmax (sgn s' m) = minmax (sgn s m)"
    "whitelist (sgn s' m) = whitelist (sgn s m)" "blacklist (sgn s' m) = blacklist (sgn s m)"
    "sg_flags (sgn s' m) = sg_flags (sgn s m)" "sg_valid (sgn s' m) = sg_valid (sgn s m)"
    "childrenMTime (sgn s' m) = childrenMTime (sgn s m)" "lastVerified (sgn s' m) = lastVerified (sgn s m)"
    "lastModified (sgn s' m) = lastModified (sgn s m)"
  using committedD(2) [OF assms] by auto

lemma committed_same_tree: "committed s A s' es \<Longrightarrow> same_tree s s'"
  using committedD(1) committed_fields(1,2) by (simp add: same_tree_def)

lemma committed_calls:
  assumes "committed s A s' es" and "scene_ok s" and "m < length (sg_nodes s)"
  shows "node_calls s' m = node_calls s m"
proof (cases "sg_parent (sgn s m)")
  case None
  then show ?thesis using committed_fields(2,3) [OF assms(1,3)]
    by (simp add: node_calls_def split: node_class.split)
next
  case (Some p)
  then have "p < length (sg_nodes s)" using scene_okD(5) [OF assms(2,3)] by blast
  then show ?thesis using Some committed_fields(2-5) [OF assms(1,3)] committed_fields(4) [OF assms(1), of p]
    by (simp add: node_calls_def commitNodeValue_def split: node_class.split option.split sg_val.split)
qed

lemma committed_propagated:
  assumes "committed s A s' es" and "propagated s" and "scene_ok s"
    and "\<And>c p. p \<in> A \<Longrightarrow> (c, p) \<in> child_of s \<Longrightarrow> c \<in> A"
  shows "propagated s'"
  unfolding propagated_def same_treeD(2) [OF committed_same_tree [OF assms(1)]]
proof (safe)
  fix c p assume e: "(c, p) \<in> child_of s" and m: "sg_modified (sgn s' c)"
  have "c \<notin> A" using m committedD(4) [OF assms(1)] by blast
  then have "p \<notin> A" using assms(4) e by blast
  have "sg_modified (sgn s c)" using committedD(3) [OF assms(1) child_ofD(1) [OF assms(3) e] \<open>c \<notin> A\<close>] m by simp
  then have "sg_modified (sgn s p)" using assms(2) e by (auto simp: propagated_def)
  then show "sg_modified (sgn s' p)"
    using committedD(3) [OF assms(1) child_ofD(2) [OF assms(3) e] \<open>p \<notin> A\<close>] by simp
qed

lemma some_lastCommitted: "\<exists>t. nd = nd\<lparr>lastCommitted := t\<rparr>"
  by (rule exI [of _ "lastCommitted nd"]) simp

lemma committed_none: "stamps_ok s \<Longrightarrow> committed s {} s []"
  by (simp add: committed_def some_lastCommitted)

lemma committed_trans:
  assumes "committed s A t es" and "committed t B u fs"
  shows "committed s (A \<union> B) u (es @ fs)"
  unfolding committed_def
proof (intro conjI)
  note a = committedD [OF assms(1)] and b = committedD [OF assms(2)]
  show "length (sg_nodes u) = length (sg_nodes s)" "sg_events u = sg_events s @ es @ fs" "sg_ticks s \<le> sg_ticks u"
    "nodeRegistry u = nodeRegistry s" "stamps_ok u"
    using a(1,5-7) b(1,5-8) by auto
  show "\<forall>m<length (sg_nodes s). \<exists>t'. sgn u m = (sgn s m)\<lparr>lastCommitted := t'\<rparr>"
    using a(1,2) b(2) by fastforce
  show same: "\<forall>m<length (sg_nodes s). m \<notin> A \<union> B \<longrightarrow> sgn u m = sgn s m" using a(1,3) b(3) by simp
  show "\<forall>m\<in>A \<union> B. \<not> sg_modified (sgn u m)"
  proof
    fix m assume m: "m \<in> A \<union> B"
    show "\<not> sg_modified (sgn u m)"
    proof (cases "m \<in> B")
      case False
      then have "m \<in> A" "m < length (sg_nodes t)" using m a(1,9) by auto
      then show ?thesis using b(3) False a(4) by simp
    qed (rule b(4))
  qed
  show "\<forall>m\<in>A \<union> B. m < length (sg_nodes s)" using a(1,9) b(9) by auto
qed

text \<open>The calls of the modified nodes of a list.\<close>

definition calls_of :: "scene \<Rightarrow> nat list \<Rightarrow> sg_event list" where
  "calls_of s ms = concat (map (\<lambda>m. case node_calls s m of Inr es \<Rightarrow> es | Inl e \<Rightarrow> [])
     (filter (\<lambda>m. sg_modified (sgn s m)) ms))"

lemma calls_of_append [simp]: "calls_of s (xs @ ys) = calls_of s xs @ calls_of s ys"
  by (simp add: calls_of_def)

lemma calls_of_Nil [simp]: "calls_of s [] = []"
  by (simp add: calls_of_def)

lemma calls_of_unmodified: "\<forall>m\<in>set ms. \<not> sg_modified (sgn s m) \<Longrightarrow> calls_of s ms = []"
  by (simp add: calls_of_def filter_empty_conv)

lemma committed_calls_of:
  assumes "committed s A s' es" and "scene_ok s" and "\<forall>m\<in>set ms. m < length (sg_nodes s) \<and> m \<notin> A"
  shows "calls_of s' ms = calls_of s ms"
proof -
  have "filter (\<lambda>m. sg_modified (sgn s' m)) ms = filter (\<lambda>m. sg_modified (sgn s m)) ms"
    using assms(3) committedD(3) [OF assms(1)] by (intro filter_cong) auto
  moreover have "node_calls s' m = node_calls s m" if "m \<in> set ms" for m
    using committed_calls [OF assms(1,2)] assms(3) that by blast
  ultimately show ?thesis unfolding calls_of_def by (intro arg_cong [where f = concat] map_cong) auto
qed

text \<open>What a commit below \<open>n\<close> must achieve, and the conditions under which it does: room in the counter for
  eleven stamps per node, and values of the declared types.\<close>

definition commit_ready :: "nat \<Rightarrow> scene \<Rightarrow> nat \<Rightarrow> bool" where
  "commit_ready d s n \<longleftrightarrow> n < length (sg_nodes s) \<and> hgt s n < d \<and>
     (\<forall>m\<in>below s n. \<exists>es. node_calls s m = Inr es)"

definition commits :: "nat \<Rightarrow> scene \<Rightarrow> nat \<Rightarrow> scene \<Rightarrow> bool" where
  "commits d s n s' \<longleftrightarrow> committed s (below s n) s' (calls_of s (post_order d s n)) \<and>
     sg_ticks s' \<le> sg_ticks s + 11 * length (post_order d s n)"

definition scene_inv :: "scene \<Rightarrow> bool" where
  "scene_inv s \<longleftrightarrow> scene_ok s \<and> stamps_ok s \<and> propagated s"

lemma committed_inv:
  assumes "committed s (below s n) s' es" and "scene_inv s"
  shows "scene_inv s'"
  using assms committed_same_tree [OF assms(1)] same_tree_ok committedD(8) [OF assms(1)]
    committed_propagated [OF assms(1)] below_closed
  unfolding scene_inv_def by metis

lemma commit_ready_kid:
  assumes "commit_ready (Suc d) s n" and "scene_ok s" and "c \<in> set (kids s n)"
  shows "commit_ready d s c"
proof -
  have n: "n < length (sg_nodes s)" and e: "(c, n) \<in> child_of s"
    using assms kid_child_of by (auto simp: commit_ready_def)
  moreover have "below s c \<subseteq> below s n" using below_unfold [OF n] assms(3) by blast
  ultimately show ?thesis using assms(1) child_ofD(1) [OF assms(2) e] hgt_child [OF assms(2) e]
    by (auto simp: commit_ready_def)
qed

lemma commit_ready_committed:
  assumes "committed s A s' es" and "scene_ok s" and "commit_ready d s c"
  shows "commit_ready d s' c"
proof -
  note st = same_treeD [OF committed_same_tree [OF assms(1)]]
  have "node_calls s' m = node_calls s m" if "m \<in> below s c" for m
    using below_range [OF assms(2) _ that] committed_calls [OF assms(1,2)] assms(3) unfolding commit_ready_def by blast
  then show ?thesis using assms(3) by (simp add: commit_ready_def st)
qed

lemma commit_children:
  assumes one: "\<And>c t. scene_inv t \<Longrightarrow> commit_ready d t c \<Longrightarrow> sg_ticks t + 11 * length (post_order d t c) \<le> 2 ^ 64 \<Longrightarrow>
      \<exists>t'. traverse d ''commit'' c t = ret t' \<and> commits d t c t'"
    and "scene_inv s" and "n < length (sg_nodes s)" and "set cs \<subseteq> set (kids s n)" and "distinct cs"
    and "\<forall>c\<in>set cs. commit_ready d s c"
    and "sg_ticks s + 11 * length (concat (map (post_order d s) cs)) \<le> 2 ^ 64"
  shows "\<exists>s'. fold_out (traverse d ''commit'') cs s = ret s' \<and>
     committed s (\<Union>c\<in>set cs. below s c) s' (calls_of s (concat (map (post_order d s) cs))) \<and>
     sg_ticks s' \<le> sg_ticks s + 11 * length (concat (map (post_order d s) cs))"
  using assms(2-)
proof (induction cs arbitrary: s)
  case Nil
  then show ?case using committed_none [of s] by (simp add: scene_inv_def)
next
  case (Cons c cs)
  have ok: "scene_ok s" using Cons.prems(1) by (simp add: scene_inv_def)
  have "sg_ticks s + 11 * length (post_order d s c) \<le> 2 ^ 64" using Cons.prems(6) by simp
  then obtain t where run: "traverse d ''commit'' c s = ret t" and t: "commits d s c t"
    using one [OF Cons.prems(1)] Cons.prems(5) by auto
  then have com: "committed s (below s c) t (calls_of s (post_order d s c))" by (simp add: commits_def)
  note st = same_treeD [OF committed_same_tree [OF com]]
  have apart: "m \<notin> below s c" "m < length (sg_nodes s)" if e: "e \<in> set cs" and m: "m \<in> below s e" for e m
  proof -
    have "(c, n) \<in> child_of s" "(e, n) \<in> child_of s" "c \<noteq> e" using Cons.prems(2-4) e by (auto intro: kid_child_of)
    from siblings_disjoint [OF ok this] m show "m \<notin> below s c" by blast
    show "m < length (sg_nodes s)" using below_range [OF ok _ m] Cons.prems(5) e by (simp add: commit_ready_def)
  qed
  have order: "post_order d t e = post_order d s e" if "e \<in> set cs" for e
    using same_tree_post_order [OF committed_same_tree [OF com] ok] Cons.prems(5) that by (simp add: commit_ready_def)
  then have orders: "map (post_order d t) cs = map (post_order d s) cs" by simp
  have "set (post_order d s e) = below s e" if "e \<in> set cs" for e
    using set_post_order [OF ok] Cons.prems(5) that by (simp add: commit_ready_def)
  then have calls: "calls_of t (concat (map (post_order d s) cs)) = calls_of s (concat (map (post_order d s) cs))"
    using apart by (intro committed_calls_of [OF com ok]) auto
  have "sg_ticks t + 11 * length (concat (map (post_order d t) cs)) \<le> 2 ^ 64"
    using t Cons.prems(6) unfolding orders by (simp add: commits_def)
  moreover have "set cs \<subseteq> set (kids t n)" "n < length (sg_nodes t)" "distinct cs" "\<forall>e\<in>set cs. commit_ready d t e"
    using Cons.prems(2-5) st commit_ready_committed [OF com ok] by auto
  ultimately obtain u where "fold_out (traverse d ''commit'') cs t = ret u"
    "committed t (\<Union>e\<in>set cs. below s e) u (calls_of s (concat (map (post_order d s) cs)))"
    "sg_ticks u \<le> sg_ticks t + 11 * length (concat (map (post_order d s) cs))"
    using Cons.IH [OF committed_inv [OF com Cons.prems(1)]] unfolding orders calls st(3) by blast
  then show ?case using run t committed_trans [OF com] by (auto simp: commits_def)
qed

text \<open>The two ends of the visit of a node.\<close>

lemma tick_simps [simp]:
  "sg_nodes (tick k s) = sg_nodes s" "sg_events (tick k s) = sg_events s" "sg_ticks (tick k s) = sg_ticks s + k"
  "nodeRegistry (tick k s) = nodeRegistry s" "kids (tick k s) n = kids s n"
  by (simp_all add: tick_def kids_def)

lemma same_tree_tick [simp]: "same_tree s (tick k s)"
  by (simp add: same_tree_def)

lemma stamps_ok_tick: "stamps_ok s \<Longrightarrow> stamps_ok (tick k s)"
  by (auto simp: stamps_ok_def intro: stamps_below_mono)

lemma committed_tick: "stamps_ok s \<Longrightarrow> committed s {} (tick k s) []"
  using committed_none [of s] stamps_ok_tick [of s k] by (simp add: committed_def)

lemma tick_inv: "scene_inv s \<Longrightarrow> scene_inv (tick k s)"
  using same_tree_ok [OF same_tree_tick] stamps_ok_tick same_treeD(2) [OF same_tree_tick]
  by (simp add: scene_inv_def propagated_def)

lemma node_calls_tick [simp]: "node_calls (tick k s) m = node_calls s m"
  by (simp add: node_calls_def commitNodeValue_def split: node_class.split option.split sg_val.split)

lemma post_traverse_commit:
  assumes "stamps_ok s" and "n < length (sg_nodes s)" and "node_calls s n = Inr es" and "sg_modified (sgn s n)"
    and "sg_ticks s + 5 \<le> 2 ^ 64"
  shows "\<exists>s'. postTraverse ''commit'' n s = Inr s' \<and> committed s {n} s' es \<and> sg_ticks s' \<le> sg_ticks s + 5"
proof -
  obtain k where k: "subtreeModifiedButNotCommitted n s = (True, tick k s)" "k \<le> 4"
    using assms(4) by (auto simp: subtreeModifiedButNotCommitted_def)
  let ?s' = "markAsCommitted n ((tick k s)\<lparr>sg_events := sg_events s @ es\<rparr>)"
  have t: "(sg_ticks s + k) mod 2 ^ 64 = sg_ticks s + k" using assms(5) k(2) by simp
  have nodes: "sg_nodes ?s' = (sg_nodes s)[n := (sgn s n)\<lparr>lastCommitted := sg_ticks s + k\<rparr>]"
    using t by (simp add: markAsCommitted_def upd_node_def stamp_def tick_def)
  have ticks: "sg_ticks ?s' = sg_ticks s + k + 1" and evs: "sg_events ?s' = sg_events s @ es"
    and reg: "nodeRegistry ?s' = nodeRegistry s"
    by (simp_all add: markAsCommitted_def upd_node_def tick_def)
  have old: "stamps_below (sg_ticks s) (sgn s n)" using assms(1,2) by (simp add: stamps_ok_def)
  then have "stamps_ok ?s'"
    unfolding ticks by (intro stamps_ok_upd [OF assms(1) nodes]) (auto simp: ticks stamps_below_def)
  moreover have "\<not> sg_modified (sgn ?s' n)" using old assms(2) by (simp add: nodes sg_modified_def stamps_below_def)
  ultimately have "committed s {n} ?s' es"
    unfolding committed_def nodes evs reg ticks using assms(2)
    by (auto simp: nth_list_update some_lastCommitted)
  then show ?thesis using ticks k assms(3)
    by (simp add: postTraverse_def postCommit_def)
qed

lemma commit_node:
  "scene_inv s \<Longrightarrow> commit_ready d s n \<Longrightarrow> sg_ticks s + 11 * length (post_order d s n) \<le> 2 ^ 64 \<Longrightarrow>
     \<exists>s'. traverse d ''commit'' n s = ret s' \<and> commits d s n s'"
proof (induction d arbitrary: s n)
  case 0
  then show ?case by (simp add: commit_ready_def)
next
  case (Suc d)
  let ?ms = "concat (map (post_order d s) (kids s n))"
  have ok: "scene_ok s" "stamps_ok s" and notice: "propagated s" using Suc.prems(1) by (simp_all add: scene_inv_def)
  have n: "n < length (sg_nodes s)" and set: "set (?ms @ [n]) = below s n"
    using Suc.prems(2) set_post_order [OF ok(1), of n "Suc d"] by (simp_all add: commit_ready_def)
  obtain k where k: "subtreeModifiedButNotCommitted n (tick 1 s) = (sg_modified (sgn s n), tick (k + 1) s)" "k \<le> 4"
    by (auto simp: subtreeModifiedButNotCommitted_def tick_def)
  show ?case
  proof (cases "sg_modified (sgn s n)")
    case False
    then have none: "\<forall>m\<in>below s n. \<not> sg_modified (sgn s m)"
      using unmodified_below [OF notice False] by blast
    then have calls: "calls_of s (?ms @ [n]) = []" unfolding set [symmetric] by (rule calls_of_unmodified)
    let ?k = "if lastCommitted (sgn s n) < lastModified (sgn s n) then 2 else 4 :: nat"
    have "traverse (Suc d) ''commit'' n s = ret (tick (2 * ?k + 2) s)"
      using False by (simp add: preTraverse_def postTraverse_def subtreeModifiedButNotCommitted_def ret_def tick_def)
    then obtain j where j: "traverse (Suc d) ''commit'' n s = ret (tick j s)" "j \<le> 10" by (simp split: if_splits)
    have "committed s (below s n) (tick j s) []"
      using committed_tick [OF ok(2), of j] none below_range [OF ok(1) n] by (simp add: committed_def)
    then show ?thesis using j calls by (auto simp: commits_def)
  next
    case True
    let ?s0 = "tick (k + 1) s"
    have inv: "scene_inv ?s0" by (rule tick_inv [OF Suc.prems(1)])
    have com0: "committed s {} ?s0 []" by (rule committed_tick [OF ok(2)])
    have kid: "c < length (sg_nodes s)" "n \<notin> below s c" if "c \<in> set (kids s n)" for c
      using scene_okD(3) [OF ok(1) n that] not_below_child [OF ok(1) kid_child_of [OF n that]] .
    have orders: "map (post_order d ?s0) (kids s n) = map (post_order d s) (kids s n)"
      using same_tree_post_order [OF same_tree_tick ok(1)] kid(1) by simp
    have below0: "below ?s0 = below s" by (rule same_treeD(3) [OF same_tree_tick])
    have calls0: "calls_of ?s0 ?ms = calls_of s ?ms"
      using below_range [OF ok(1) n] set by (intro committed_calls_of [OF com0 ok(1)]) auto
    have ready: "\<forall>c\<in>set (kids s n). commit_ready d ?s0 c"
      using commit_ready_kid [OF Suc.prems(2) ok(1)] commit_ready_committed [OF com0 ok(1)] by blast
    have room: "sg_ticks ?s0 + 11 * length (concat (map (post_order d ?s0) (kids s n))) \<le> 2 ^ 64"
      unfolding orders using Suc.prems(3) k(2) by simp
    obtain t where t: "fold_out (traverse d ''commit'') (kids s n) ?s0 = ret t"
      "committed ?s0 (\<Union>c\<in>set (kids s n). below s c) t (calls_of s ?ms)"
      "sg_ticks t \<le> sg_ticks ?s0 + 11 * length ?ms"
      using commit_children [OF Suc.IH inv _ _ _ ready room, of n] n scene_okD(2) [OF ok(1) n]
      unfolding orders below0 calls0 by auto
    have com1: "committed s (\<Union>c\<in>set (kids s n). below s c) (tick 1 t) (calls_of s ?ms)"
      using committed_trans [OF com0 committed_trans [OF t(2) committed_tick [OF committedD(8) [OF t(2)], of 1]]] by simp
    have same: "sgn (tick 1 t) n = sgn s n" using committedD(3) [OF com1 n] kid(2) by blast
    obtain es where es: "node_calls s n = Inr es" using Suc.prems(2) below_self [of n s] unfolding commit_ready_def by blast
    have "\<exists>s'. postTraverse ''commit'' n (tick 1 t) = Inr s' \<and> committed (tick 1 t) {n} s' es \<and>
        sg_ticks s' \<le> sg_ticks (tick 1 t) + 5"
    proof (rule post_traverse_commit)
      show "stamps_ok (tick 1 t)" by (rule committedD(8) [OF com1])
      show "n < length (sg_nodes (tick 1 t))" using committedD(1) [OF com1] n by simp
      show "node_calls (tick 1 t) n = Inr es" using committed_calls [OF com1 ok(1) n] es by simp
      show "sg_modified (sgn (tick 1 t) n)" unfolding same by (rule True)
      show "sg_ticks (tick 1 t) + 5 \<le> 2 ^ 64" using t(3) k(2) Suc.prems(3) by simp
    qed
    then obtain s' where s': "postTraverse ''commit'' n (tick 1 t) = Inr s'" "committed (tick 1 t) {n} s' es"
      "sg_ticks s' \<le> sg_ticks (tick 1 t) + 5" by blast
    have "traverse (Suc d) ''commit'' n s = ret s'"
      using True k(1) t(1) s'(1) by (simp add: preTraverse_def kids_def ret_def)
    moreover have "committed s (below s n) s' (calls_of s (post_order (Suc d) s n))"
      using committed_trans [OF com1 s'(2)] below_unfold [OF n] True es by (simp add: calls_of_def)
    ultimately show ?thesis using s'(3) t(3) k(2) by (auto simp: commits_def)
  qed
qed

end
