(* ===== verification/SceneVerify.thy ===== *)
theory SceneVerify
  imports SceneCommit
begin

text \<open>
  The verify traversal of the scene graph against its specification, and the operations that keep the
  invariants: marking a node as modified, setting its value or its properties, adding and removing children,
  and creating nodes.
\<close>

section \<open>Validity\<close>

text \<open>The specification: a node is valid if it and everything below it through required children is.\<close>

definition node_valid :: "scene \<Rightarrow> nat \<Rightarrow> bool" where
  "node_valid s n \<longleftrightarrow> computeValid (sgn s n) = Inr True"

definition required_of :: "scene \<Rightarrow> (nat \<times> nat) set" where
  "required_of s = {(c, p). (c, p) \<in> child_of s \<and> has_flag required (sgn s c)}"

definition all_valid :: "scene \<Rightarrow> nat \<Rightarrow> bool" where
  "all_valid s n \<longleftrightarrow> (\<forall>m. (m, n) \<in> (required_of s)\<^sup>* \<longrightarrow> node_valid s m)"

lemma all_valid_unfold:
  assumes "n < length (sg_nodes s)"
  shows "all_valid s n \<longleftrightarrow> node_valid s n \<and> (\<forall>c\<in>set (kids s n). has_flag required (sgn s c) \<longrightarrow> all_valid s c)"
proof -
  have "(m, n) \<in> (required_of s)\<^sup>* \<longleftrightarrow>
      m = n \<or> (\<exists>c\<in>set (kids s n). has_flag required (sgn s c) \<and> (m, c) \<in> (required_of s)\<^sup>*)" for m
    using assms by (auto elim: rtranclE simp: required_of_def child_of_def intro: rtrancl_into_rtrancl)
  then show ?thesis by (simp only: all_valid_def) blast
qed

text \<open>The cache: a node that is marked valid and has seen no change below it since it was verified has
  only exact marks below it.\<close>

definition cached :: "scene \<Rightarrow> nat \<Rightarrow> bool" where
  "cached s n \<longleftrightarrow> (sg_valid (sgn s n) \<and> childrenMTime (sgn s n) < lastVerified (sgn s n) \<longrightarrow>
     (\<forall>m. (m, n) \<in> (child_of s)\<^sup>+ \<longrightarrow> (sg_valid (sgn s m) \<longleftrightarrow> all_valid s m)))"

definition cache_ok :: "scene \<Rightarrow> bool" where
  "cache_ok s \<longleftrightarrow> (\<forall>n<length (sg_nodes s). cached s n)"

lemma strictly_below: "(m, n) \<in> (child_of s)\<^sup>+ \<longleftrightarrow> (\<exists>c. (c, n) \<in> child_of s \<and> m \<in> below s c)"
  unfolding below_def by (auto dest: tranclD2 intro: rtrancl_into_trancl1)

text \<open>What verifying the nodes \<open>A\<close> does: marks and times of \<open>A\<close> change, and the marks are exact.\<close>

definition verified :: "scene \<Rightarrow> nat set \<Rightarrow> scene \<Rightarrow> bool" where
  "verified s A s' \<longleftrightarrow> length (sg_nodes s') = length (sg_nodes s) \<and>
     (\<forall>m<length (sg_nodes s). \<exists>v t. sgn s' m = (sgn s m)\<lparr>sg_valid := v, lastVerified := t\<rparr>) \<and>
     (\<forall>m<length (sg_nodes s). m \<notin> A \<longrightarrow> sgn s' m = sgn s m) \<and>
     (\<forall>m\<in>A. m < length (sg_nodes s) \<and> (sg_valid (sgn s' m) \<longleftrightarrow> all_valid s m)) \<and>
     sg_events s' = sg_events s \<and> sg_ticks s \<le> sg_ticks s' \<and> nodeRegistry s' = nodeRegistry s \<and> stamps_ok s'"

text \<open>The weaker relation between the states of a verify traversal: anything may have happened to the marks.\<close>

definition remarked :: "scene \<Rightarrow> scene \<Rightarrow> bool" where
  "remarked s s' \<longleftrightarrow> length (sg_nodes s') = length (sg_nodes s) \<and>
     (\<forall>m<length (sg_nodes s). \<exists>v t. sgn s' m = (sgn s m)\<lparr>sg_valid := v, lastVerified := t\<rparr>)"

lemma verified_remarked: "verified s A s' \<Longrightarrow> remarked s s'"
  by (simp add: verified_def remarked_def)

lemma computeValid_marks [simp]: "computeValid (nd\<lparr>sg_valid := v, lastVerified := t\<rparr>) = computeValid nd"
  by (simp add: computeValid_def computeValidMinMax_def has_flag_def split: node_class.split)

lemma has_flag_marks [simp]: "has_flag b (nd\<lparr>sg_valid := v, lastVerified := t\<rparr>) = has_flag b nd"
  by (simp add: has_flag_def)

lemma remarked_fields:
  assumes "remarked s s'" and "m < length (sg_nodes s)"
  shows "children (sgn s' m) = children (sgn s m)" "sg_parent (sgn s' m) = sg_parent (sgn s m)"
    "computeValid (sgn s' m) = computeValid (sgn s m)" "has_flag b (sgn s' m) = has_flag b (sgn s m)"
    "childrenMTime (sgn s' m) = childrenMTime (sgn s m)" "sg_modified (sgn s' m) = sg_modified (sgn s m)"
proof -
  obtain v t where "sgn s' m = (sgn s m)\<lparr>sg_valid := v, lastVerified := t\<rparr>"
    using assms by (auto simp: remarked_def)
  then show "children (sgn s' m) = children (sgn s m)" "sg_parent (sgn s' m) = sg_parent (sgn s m)"
    "computeValid (sgn s' m) = computeValid (sgn s m)" "has_flag b (sgn s' m) = has_flag b (sgn s m)"
    "childrenMTime (sgn s' m) = childrenMTime (sgn s m)" "sg_modified (sgn s' m) = sg_modified (sgn s m)"
    by (simp_all add: sg_modified_def)
qed

lemma remarked_same_tree:
  assumes "remarked s s'"
  shows "same_tree s s'"
  using remarked_fields(1,2) [OF assms] assms by (simp add: same_tree_def remarked_def)

lemma all_valid_cong:
  assumes "same_tree s s'" and "scene_ok s"
    and "\<And>m. m < length (sg_nodes s) \<Longrightarrow> computeValid (sgn s' m) = computeValid (sgn s m)"
    and "\<And>m. m < length (sg_nodes s) \<Longrightarrow> has_flag required (sgn s' m) = has_flag required (sgn s m)"
    and "n < length (sg_nodes s)"
  shows "all_valid s' n = all_valid s n"
proof -
  have req: "required_of s' = required_of s"
    using same_treeD(2) [OF assms(1)] assms(4) child_ofD(1) [OF assms(2)] by (auto simp: required_of_def)
  have "m < length (sg_nodes s)" if "(m, n) \<in> (required_of s)\<^sup>*" for m
    using that assms(5) child_ofD(1) [OF assms(2)] by (cases rule: converse_rtranclE) (auto simp: required_of_def)
  then show ?thesis using assms(3) by (auto simp: all_valid_def req node_valid_def)
qed

lemma remarked_all_valid:
  assumes "remarked s s'" and "scene_ok s" and "n < length (sg_nodes s)"
  shows "all_valid s' n = all_valid s n"
  by (rule all_valid_cong [OF remarked_same_tree [OF assms(1)] assms(2) _ _ assms(3)])
    (simp_all add: remarked_fields [OF assms(1)])

text \<open>A node is cached if its marks and those below it are as they were.\<close>

lemma cached_cong:
  assumes "remarked s s'" and "scene_ok s" and "n < length (sg_nodes s)" and "cached s n"
    and "\<And>m. m \<in> below s n \<Longrightarrow> sgn s' m = sgn s m"
  shows "cached s' n"
proof -
  have "(m, n) \<in> (child_of s)\<^sup>+ \<Longrightarrow> m \<in> below s n \<and> m < length (sg_nodes s)" for m
    using strictly_below_range [OF assms(2)] by (auto simp: below_def)
  then show ?thesis
    using assms(4,5) below_self [of n s] remarked_all_valid [OF assms(1,2)] same_treeD(2) [OF remarked_same_tree [OF assms(1)]]
    unfolding cached_def by simp
qed

lemma fold_out_walk:
  assumes "\<And>c t us. c \<in> set cs \<Longrightarrow> c \<notin> us \<Longrightarrow> Q us t \<Longrightarrow> \<exists>t'. f c t = ret t' \<and> Q (insert c us) t'"
    and "distinct cs" and "Q us t" and "set cs \<inter> us = {}"
  shows "\<exists>t'. fold_out f cs t = ret t' \<and> Q (us \<union> set cs) t'"
  using assms
proof (induction cs arbitrary: us t)
  case (Cons c cs)
  have "c \<notin> us" using Cons.prems(4) by simp
  from Cons.prems(1) [OF _ this Cons.prems(3)] obtain u where u: "f c t = ret u" "Q (insert c us) u" by auto
  have "\<exists>t'. fold_out f cs u = ret t' \<and> Q (insert c us \<union> set cs) t'"
    by (rule Cons.IH [OF Cons.prems(1) _ u(2)]) (use Cons.prems in auto)
  with u(1) show ?case by simp
qed simp

subsection \<open>The traversal\<close>

lemma verified_trans:
  assumes "verified s A t" and "verified t B u" and "scene_ok s"
  shows "verified s (A \<union> B) u"
  unfolding verified_def
proof (intro conjI)
  note a = assms(1) [unfolded verified_def] and b = assms(2) [unfolded verified_def]
  show "length (sg_nodes u) = length (sg_nodes s)" "sg_events u = sg_events s" "sg_ticks s \<le> sg_ticks u"
    "nodeRegistry u = nodeRegistry s" "stamps_ok u"
    using a b by auto
  show "\<forall>m<length (sg_nodes s). \<exists>v t'. sgn u m = (sgn s m)\<lparr>sg_valid := v, lastVerified := t'\<rparr>"
  proof (intro allI impI)
    fix m assume m: "m < length (sg_nodes s)"
    then obtain v w where 1: "sgn t m = (sgn s m)\<lparr>sg_valid := v, lastVerified := w\<rparr>" using a by blast
    have "m < length (sg_nodes t)" using a m by simp
    then obtain x y where "sgn u m = (sgn t m)\<lparr>sg_valid := x, lastVerified := y\<rparr>" using b by blast
    with 1 show "\<exists>v t'. sgn u m = (sgn s m)\<lparr>sg_valid := v, lastVerified := t'\<rparr>" by auto
  qed
  show "\<forall>m<length (sg_nodes s). m \<notin> A \<union> B \<longrightarrow> sgn u m = sgn s m" using a b by auto
  show "\<forall>m\<in>A \<union> B. m < length (sg_nodes s) \<and> (sg_valid (sgn u m) \<longleftrightarrow> all_valid s m)"
  proof
    fix m assume m: "m \<in> A \<union> B"
    then have l: "m < length (sg_nodes s)" using a b by auto
    moreover have "sg_valid (sgn u m) \<longleftrightarrow> all_valid s m"
    proof (cases "m \<in> B")
      case True
      then have "sg_valid (sgn u m) \<longleftrightarrow> all_valid t m" using b by blast
      then show ?thesis using remarked_all_valid [OF verified_remarked [OF assms(1)] assms(3) l] by simp
    next
      case False
      then have "sgn u m = sgn t m" using a b l by auto
      then show ?thesis using a m False by simp
    qed
    ultimately show "m < length (sg_nodes s) \<and> (sg_valid (sgn u m) \<longleftrightarrow> all_valid s m)" ..
  qed
qed

lemma some_marks: "\<exists>v t. nd = nd\<lparr>sg_valid := v, lastVerified := t\<rparr>"
  by (rule exI [of _ "sg_valid nd"], rule exI [of _ "lastVerified nd"]) simp

lemma verified_none: "stamps_ok s \<Longrightarrow> verified s {} s"
  by (simp add: verified_def some_marks)

text \<open>The conditions of a traversal below \<open>n\<close>: comparisons of values of one type, and caches.\<close>

definition verify_ready :: "nat \<Rightarrow> scene \<Rightarrow> nat \<Rightarrow> bool" where
  "verify_ready d s n \<longleftrightarrow> scene_ok s \<and> stamps_ok s \<and> n < length (sg_nodes s) \<and> hgt s n < d \<and>
     (\<forall>m\<in>below s n. (\<exists>b. computeValid (sgn s m) = Inr b) \<and> cached s m)"

text \<open>A child is ready whatever happened to the marks outside the nodes below it.\<close>

lemma verify_ready_kid:
  assumes "verify_ready (Suc d) s n" and "c \<in> set (kids s n)" and "remarked s t" and "stamps_ok t"
    and "\<And>m. m \<in> below s c \<Longrightarrow> sgn t m = sgn s m"
  shows "verify_ready d t c"
proof -
  have ok: "scene_ok s" and n: "n < length (sg_nodes s)" using assms(1) by (simp_all add: verify_ready_def)
  have e: "(c, n) \<in> child_of s" by (rule kid_child_of [OF n assms(2)])
  note st = same_treeD [OF remarked_same_tree [OF assms(3)]]
  have sub: "m \<in> below s n" "m < length (sg_nodes s)" "below s m \<subseteq> below s c" if "m \<in> below s c" for m
  proof -
    show "m \<in> below s n" using below_unfold [OF n] assms(2) that by blast
    then show "m < length (sg_nodes s)" by (rule below_range [OF ok n])
    show "below s m \<subseteq> below s c" using that by (auto simp: below_def)
  qed
  have "cached t m" if m: "m \<in> below s c" for m
    using cached_cong [OF assms(3) ok sub(2) [OF m]] assms(1,5) sub [OF m] by (auto simp: verify_ready_def)
  moreover have "\<exists>b. computeValid (sgn t m) = Inr b" if "m \<in> below s c" for m
    using assms(1,5) sub(1) that by (simp add: verify_ready_def)
  moreover have "hgt s c < d" using hgt_child [OF ok e] assms(1) by (simp add: verify_ready_def)
  ultimately show ?thesis
    using same_tree_ok [OF remarked_same_tree [OF assms(3)] ok] assms(4) child_ofD(1) [OF ok e]
    by (simp add: verify_ready_def st)
qed

lemma remarked_trans:
  assumes "remarked s t" and "remarked t u"
  shows "remarked s u"
  unfolding remarked_def
proof (intro conjI allI impI)
  show "length (sg_nodes u) = length (sg_nodes s)" using assms by (simp add: remarked_def)
  fix m assume m: "m < length (sg_nodes s)"
  then obtain v w where 1: "sgn t m = (sgn s m)\<lparr>sg_valid := v, lastVerified := w\<rparr>"
    using assms(1) unfolding remarked_def by blast
  have "m < length (sg_nodes t)" using assms(1) m by (simp add: remarked_def)
  then obtain x y where "sgn u m = (sgn t m)\<lparr>sg_valid := x, lastVerified := y\<rparr>"
    using assms(2) unfolding remarked_def by blast
  with 1 show "\<exists>v t'. sgn u m = (sgn s m)\<lparr>sg_valid := v, lastVerified := t'\<rparr>" by auto
qed

text \<open>One node is marked.\<close>

lemma remarked_one:
  assumes "stamps_ok s" and "n < length (sg_nodes s)" and "sg_nodes t = (sg_nodes s)[n := (sgn s n)\<lparr>sg_valid := v, lastVerified := w\<rparr>]"
    and "sg_ticks s \<le> sg_ticks t" and "w < sg_ticks t"
  shows "remarked s t" "stamps_ok t" "\<And>m. m \<noteq> n \<Longrightarrow> sgn t m = sgn s m" "sg_valid (sgn t n) = v"
proof -
  show "remarked s t" using assms(2,3) some_marks by (auto simp: remarked_def nth_list_update)
  have "stamps_below (sg_ticks s) (sgn s n)" using assms(1,2) by (simp add: stamps_ok_def)
  then show "stamps_ok t"
    using assms(4,5) by (intro stamps_ok_upd [OF assms(1,3,4)]) (auto simp: stamps_below_def)
  show "\<And>m. m \<noteq> n \<Longrightarrow> sgn t m = sgn s m" "sg_valid (sgn t n) = v" using assms(2,3) by simp_all
qed

lemma verify_visit_ok:
  assumes "stamps_ok s" and "n < length (sg_nodes s)" and "computeValid (sgn s n) = Inr b"
  shows "\<exists>s1. verify_visit n s = Inr (\<not> (sg_valid (sgn s n) \<and> childrenMTime (sgn s n) < lastVerified (sgn s n)), s1) \<and>
     remarked s s1 \<and> stamps_ok s1 \<and> (\<forall>m. m \<noteq> n \<longrightarrow> sgn s1 m = sgn s m) \<and> sg_valid (sgn s1 n) = b \<and>
     sg_events s1 = sg_events s \<and> sg_ticks s \<le> sg_ticks s1 \<and> nodeRegistry s1 = nodeRegistry s"
proof -
  let ?s = "if sg_valid (sgn s n) then tick 1 s else s"
  let ?s1 = "upd_node n (\<lambda>nd. nd\<lparr>sg_valid := b, lastVerified := stamp ?s\<rparr>) (tick 1 ?s)"
  have nodes: "sg_nodes ?s1 = (sg_nodes s)[n := (sgn s n)\<lparr>sg_valid := b, lastVerified := stamp ?s\<rparr>]"
    by (simp add: upd_node_def)
  have t: "sg_ticks s \<le> sg_ticks ?s1" "stamp ?s < sg_ticks ?s1"
    by (auto simp: upd_node_def stamp_def less_Suc_eq_le intro: le_less_trans [OF mod_less_eq_dividend])
  have "verify_visit n s = Inr (\<not> (sg_valid (sgn s n) \<and> childrenMTime (sgn s n) < lastVerified (sgn s n)), ?s1)"
    using assms(3) by (simp add: verify_visit_def Let_def)
  moreover have "sg_events ?s1 = sg_events s" "nodeRegistry ?s1 = nodeRegistry s" by (simp_all add: upd_node_def)
  ultimately show ?thesis using remarked_one [OF assms(1,2) nodes t] t(1) by blast
qed

lemma verify_post_ok:
  assumes "stamps_ok t" and "n < length (sg_nodes t)"
  shows "\<exists>u. verify_post False n t = Inr u \<and> remarked t u \<and> stamps_ok u \<and> (\<forall>m. m \<noteq> n \<longrightarrow> sgn u m = sgn t m) \<and>
     (sg_valid (sgn u n) \<longleftrightarrow>
        sg_valid (sgn t n) \<and> (\<forall>c\<in>set (kids t n). has_flag required (sgn t c) \<longrightarrow> sg_valid (sgn t c))) \<and>
     sg_events u = sg_events t \<and> sg_ticks u = sg_ticks t \<and> nodeRegistry u = nodeRegistry t"
proof -
  let ?v = "sg_valid (sgn t n) \<and> (\<forall>c\<in>set (kids t n). has_flag required (sgn t c) \<longrightarrow> sg_valid (sgn t c))"
  let ?u = "upd_node n (sg_valid_update (\<lambda>_. ?v)) t"
  have nodes: "sg_nodes ?u = (sg_nodes t)[n := (sgn t n)\<lparr>sg_valid := ?v, lastVerified := lastVerified (sgn t n)\<rparr>]"
    by (simp add: upd_node_def)
  have "stamps_below (sg_ticks t) (sgn t n)" using assms by (simp add: stamps_ok_def)
  then have "sg_ticks t \<le> sg_ticks ?u" "lastVerified (sgn t n) < sg_ticks ?u"
    by (simp_all add: upd_node_def stamps_below_def)
  from remarked_one [OF assms nodes this] show ?thesis
    by (auto simp: verify_post_def Let_def upd_node_def)
qed

lemma verify_children:
  assumes one: "\<And>c t. verify_ready d t c \<Longrightarrow>
      \<exists>t'. visit_traverse d (VerifyNodes False) l c ((), t) = ret ((), t') \<and> verified t (below t c) t'"
    and "verify_ready (Suc d) s n" and "remarked s s1" and "stamps_ok s1" and "\<forall>m. m \<noteq> n \<longrightarrow> sgn s1 m = sgn s m"
  shows "\<exists>t. fold_out (visit_traverse d (VerifyNodes False) l) (kids s n) ((), s1) = ret ((), t) \<and>
     verified s1 (\<Union>c\<in>set (kids s n). below s c) t"
proof -
  have ok: "scene_ok s" and n: "n < length (sg_nodes s)" using assms(2) by (simp_all add: verify_ready_def)
  have ok1: "scene_ok s1" by (rule same_tree_ok [OF remarked_same_tree [OF assms(3)] ok])
  have edge: "(c, n) \<in> child_of s" if "c \<in> set (kids s n)" for c by (rule kid_child_of [OF n that])
  let ?Q = "\<lambda>us x. us \<subseteq> set (kids s n) \<and> verified s1 (\<Union>c\<in>us. below s c) (snd x)"
  have "\<exists>x'. visit_traverse d (VerifyNodes False) l c x = ret x' \<and> ?Q (insert c us) x'"
    if c: "c \<in> set (kids s n)" "c \<notin> us" and Q: "?Q us x" for c us and x :: "unit \<times> scene"
  proof -
    obtain t where x: "x = ((), t)" by (cases x) simp
    then have t: "verified s1 (\<Union>c\<in>us. below s c) t" and us: "us \<subseteq> set (kids s n)" using Q by simp_all
    have rem: "remarked s t" by (rule remarked_trans [OF assms(3) verified_remarked [OF t]])
    have "sgn t m = sgn s m" if m: "m \<in> below s c" for m
    proof -
      have "m < length (sg_nodes s)" by (rule below_range [OF ok child_ofD(1) [OF ok edge [OF c(1)]] m])
      moreover have "m \<noteq> n" using not_below_child [OF ok edge [OF c(1)]] m by blast
      moreover have "m \<notin> (\<Union>c\<in>us. below s c)"
        using siblings_disjoint [OF ok edge [OF c(1)] edge] c(2) us m by blast
      ultimately show ?thesis using t assms(3,5) by (simp add: verified_def remarked_def)
    qed
    with verify_ready_kid [OF assms(2) c(1) rem] t have "verify_ready d t c" by (simp add: verified_def)
    from one [OF this] obtain u where u: "visit_traverse d (VerifyNodes False) l c ((), t) = ret ((), u)"
      "verified t (below s c) u"
      using same_treeD(3) [OF remarked_same_tree [OF rem]] by auto
    then show ?thesis using verified_trans [OF t u(2) ok1] us c(1) by (auto simp: x Un_commute)
  qed
  from fold_out_walk [where Q = ?Q and us = "{}" and t = "((), s1)", OF this scene_okD(2) [OF ok n]]
    verified_none [OF assms(4)] show ?thesis by auto
qed

lemma VerifyNodes_simps:
  "visit (VerifyNodes e) l n ((), s) = bind_res (verify_visit n s) (\<lambda>(b, s1). Inr (b, (), s1))"
  "post_children (VerifyNodes e) n ((), s) = bind_res (verify_post e n s) (\<lambda>s1. Inr ((), s1))"
  by (simp_all add: VerifyNodes_def)

text \<open>The visits of a node before and after its children make up one step of the relation.\<close>

lemma verified_root:
  assumes "n < length (sg_nodes s)" and "remarked s s1" and "\<forall>m. m \<noteq> n \<longrightarrow> sgn s1 m = sgn s m"
    and "sg_events s1 = sg_events s" and "sg_ticks s \<le> sg_ticks s1" and "nodeRegistry s1 = nodeRegistry s"
    and "verified s1 (\<Union>c\<in>set (kids s n). below s c) t"
    and "remarked t u" and "stamps_ok u" and "\<forall>m. m \<noteq> n \<longrightarrow> sgn u m = sgn t m"
    and "sg_events u = sg_events t" and "sg_ticks u = sg_ticks t" and "nodeRegistry u = nodeRegistry t"
    and K: "\<forall>m\<in>(\<Union>c\<in>set (kids s n). below s c). m < length (sg_nodes s) \<and> m \<noteq> n"
    and "scene_ok s" and "sg_valid (sgn u n) \<longleftrightarrow> all_valid s n"
  shows "verified s (below s n) u"
proof -
  let ?K = "\<Union>c\<in>set (kids s n). below s c"
  note t = assms(7) [unfolded verified_def]
  have rem: "remarked s u" by (rule remarked_trans [OF remarked_trans [OF assms(2) verified_remarked [OF assms(7)]] assms(8)])
  have same: "sgn u m = sgn s m" if "m < length (sg_nodes s)" "m \<notin> ?K" "m \<noteq> n" for m
    using t that assms(2,3,10) by (simp add: remarked_def)
  have exact: "sg_valid (sgn u m) \<longleftrightarrow> all_valid s m" if m: "m \<in> ?K" for m
  proof -
    have l: "m < length (sg_nodes s)" "m \<noteq> n" using bspec [OF K m] by simp_all
    then have "sgn u m = sgn t m" using assms(10) by blast
    moreover have "sg_valid (sgn t m) \<longleftrightarrow> all_valid s1 m" using t m by blast
    ultimately show ?thesis using remarked_all_valid [OF assms(2,15) l(1)] by simp
  qed
  have "sg_events u = sg_events s" "sg_ticks s \<le> sg_ticks u" "nodeRegistry u = nodeRegistry s"
    using t assms(4-6,11-13) by simp_all
  moreover have "\<forall>m\<in>insert n ?K. m < length (sg_nodes s) \<and> (sg_valid (sgn u m) \<longleftrightarrow> all_valid s m)"
    using assms(1,16) K exact by simp
  moreover have "\<forall>m<length (sg_nodes s). m \<notin> insert n ?K \<longrightarrow> sgn u m = sgn s m" using same by simp
  ultimately show ?thesis
    using rem assms(9) unfolding verified_def remarked_def below_unfold [OF assms(1)] by (intro conjI) simp_all
qed

lemma verify_node:
  "verify_ready d s n \<Longrightarrow>
     \<exists>s'. visit_traverse d (VerifyNodes False) l n ((), s) = ret ((), s') \<and> verified s (below s n) s'"
proof (induction d arbitrary: s n l)
  case 0
  then show ?case by (simp add: verify_ready_def)
next
  case (Suc d)
  have ok: "scene_ok s" "stamps_ok s" and n: "n < length (sg_nodes s)" and cache: "cached s n"
    and "\<exists>b. computeValid (sgn s n) = Inr b"
    using Suc.prems below_self [of n s] unfolding verify_ready_def by blast+
  then obtain b where b: "computeValid (sgn s n) = Inr b" by blast
  let ?go = "\<not> (sg_valid (sgn s n) \<and> childrenMTime (sgn s n) < lastVerified (sgn s n))"
  let ?K = "\<Union>c\<in>set (kids s n). below s c"
  obtain s1 where s1: "verify_visit n s = Inr (?go, s1)" "remarked s s1" "stamps_ok s1" "\<forall>m. m \<noteq> n \<longrightarrow> sgn s1 m = sgn s m"
    "sg_valid (sgn s1 n) = b" "sg_events s1 = sg_events s" "sg_ticks s \<le> sg_ticks s1" "nodeRegistry s1 = nodeRegistry s"
    using verify_visit_ok [OF ok(2) n b] by blast
  have edge: "(c, n) \<in> child_of s" if "c \<in> set (kids s n)" for c by (rule kid_child_of [OF n that])
  have K: "m < length (sg_nodes s)" "m \<noteq> n" if "m \<in> ?K" for m
    using that below_range [OF ok(1) child_ofD(1) [OF ok(1) edge]] not_below_child [OF ok(1) edge] by blast+
  have exact: "all_valid s1 m = all_valid s m" if "m < length (sg_nodes s)" for m
    by (rule remarked_all_valid [OF s1(2) ok(1) that])
  have kids1: "kids s1 n = kids s n" using remarked_fields(1) [OF s1(2) n] by (simp add: kids_def)
  have "\<exists>t. (if ?go then fold_out (visit_traverse d (VerifyNodes False) (Suc l)) (kids s1 n) ((), s1) else ret ((), s1)) =
      ret ((), t) \<and> verified s1 ?K t"
  proof (cases ?go)
    case True
    show ?thesis unfolding kids1 if_P [OF True]
      by (rule verify_children [where l = "Suc l", OF Suc.IH Suc.prems s1(2-4)])
  next
    case False
    have "sg_valid (sgn s1 m) \<longleftrightarrow> all_valid s1 m" if m: "m \<in> ?K" for m
    proof -
      have "(m, n) \<in> (child_of s)\<^sup>+" using m edge by (auto simp: strictly_below)
      then have "sg_valid (sgn s m) \<longleftrightarrow> all_valid s m" using cache False by (simp add: cached_def)
      then show ?thesis using K [OF m] exact s1(4) by simp
    qed
    then have "verified s1 ?K s1"
      using s1(2,3) K(1) unfolding verified_def remarked_def by (simp add: some_marks)
    then show ?thesis using False by simp
  qed
  then obtain t where run: "(if ?go then fold_out (visit_traverse d (VerifyNodes False) (Suc l)) (kids s1 n) ((), s1)
      else ret ((), s1)) = ret ((), t)" and t: "verified s1 ?K t" by blast
  have rem: "remarked s t" by (rule remarked_trans [OF s1(2) verified_remarked [OF t]])
  have lt: "stamps_ok t" "n < length (sg_nodes t)" using t s1(2) n by (simp_all add: verified_def remarked_def)
  obtain u where u: "verify_post False n t = Inr u" "remarked t u" "stamps_ok u" "\<forall>m. m \<noteq> n \<longrightarrow> sgn u m = sgn t m"
    "sg_valid (sgn u n) \<longleftrightarrow> sg_valid (sgn t n) \<and> (\<forall>c\<in>set (kids t n). has_flag required (sgn t c) \<longrightarrow> sg_valid (sgn t c))"
    "sg_events u = sg_events t" "sg_ticks u = sg_ticks t" "nodeRegistry u = nodeRegistry t"
    using verify_post_ok [OF lt] by blast
  have "visit_traverse (Suc d) (VerifyNodes False) l n ((), s) =
      bind_out (if ?go then fold_out (visit_traverse d (VerifyNodes False) (Suc l)) (kids s1 n) ((), s1)
        else ret ((), s1)) (\<lambda>x. Some (post_children (VerifyNodes False) n x))"
    by (simp only: visit_traverse.simps VerifyNodes_simps s1(1) bind_res_simps bind_out_simps prod.case snd_conv)
  then have "visit_traverse (Suc d) (VerifyNodes False) l n ((), s) = ret ((), u)"
    unfolding run using u(1) by (simp add: VerifyNodes_simps ret_def)
  moreover have "sg_valid (sgn u n) \<longleftrightarrow> all_valid s n"
  proof -
    have "n \<notin> ?K" using K(2) by blast
    then have "sgn t n = sgn s1 n" using t n s1(2) by (simp add: verified_def remarked_def)
    moreover have "kids t n = kids s n" using remarked_fields(1) [OF rem n] by (simp add: kids_def)
    moreover have "sg_valid (sgn t c) \<longleftrightarrow> all_valid s c" "has_flag required (sgn t c) = has_flag required (sgn s c)"
      if c: "c \<in> set (kids s n)" for c
    proof -
      have "c \<in> ?K" using c below_self by blast
      then have "sg_valid (sgn t c) \<longleftrightarrow> all_valid s1 c" using t unfolding verified_def by blast
      then show "sg_valid (sgn t c) \<longleftrightarrow> all_valid s c" unfolding exact [OF K(1) [OF \<open>c \<in> ?K\<close>]] .
      show "has_flag required (sgn t c) = has_flag required (sgn s c)" by (rule remarked_fields(4) [OF rem K(1) [OF \<open>c \<in> ?K\<close>]])
    qed
    ultimately show ?thesis using u(5) s1(5) b by (simp add: all_valid_unfold [OF n] node_valid_def)
  qed
  then have "verified s (below s n) u"
    by (intro verified_root [OF n s1(2,4,6-8) t u(2-4,6-8) _ ok(1)]) (use K in blast)
  ultimately show ?case by blast
qed

end
