(* ===== verification/SceneSteps.thy ===== *)
theory SceneSteps
  imports SceneVerify
begin

text \<open>
  The operations that change a scene graph, the invariants they keep, and the two properties of
  every graph they build: a commit sends exactly the changes made since the last one, and a verify computes
  the specified validity.
\<close>

section \<open>Marking\<close>

text \<open>The walk up the parents: only \<open>childrenMTime\<close> changes, to the stamp given.\<close>

definition stamped :: "nat \<Rightarrow> scene \<Rightarrow> scene \<Rightarrow> bool" where
  "stamped t s s' \<longleftrightarrow> length (sg_nodes s') = length (sg_nodes s) \<and>
     (\<forall>m<length (sg_nodes s). sgn s' m = sgn s m \<or> sgn s' m = (sgn s m)\<lparr>childrenMTime := t\<rparr>) \<and>
     sg_events s' = sg_events s \<and> nodeRegistry s' = nodeRegistry s \<and> sg_ticks s \<le> sg_ticks s'"

text \<open>Every node with the stamp has a parent with it, but for those with the parent \<open>p\<close>.\<close>

definition stamps_closed :: "nat \<Rightarrow> scene \<Rightarrow> nat option \<Rightarrow> bool" where
  "stamps_closed t s p \<longleftrightarrow> (\<forall>m<length (sg_nodes s). childrenMTime (sgn s m) = t \<longrightarrow>
     (case sg_parent (sgn s m) of None \<Rightarrow> True
      | Some q \<Rightarrow> q < length (sg_nodes s) \<longrightarrow> childrenMTime (sgn s q) = t \<or> Some q = p))"

lemma stamped_refl: "stamped t s s"
  by (simp add: stamped_def)

lemma stamped_trans:
  assumes "stamped t s u" and "stamped t u w"
  shows "stamped t s w"
proof -
  have "sgn w m = sgn s m \<or> sgn w m = (sgn s m)\<lparr>childrenMTime := t\<rparr>" if "m < length (sg_nodes s)" for m
  proof -
    have "m < length (sg_nodes u)" using assms(1) that by (simp add: stamped_def)
    then have "sgn w m = sgn u m \<or> sgn w m = (sgn u m)\<lparr>childrenMTime := t\<rparr>" using assms(2) by (simp add: stamped_def)
    moreover have "sgn u m = sgn s m \<or> sgn u m = (sgn s m)\<lparr>childrenMTime := t\<rparr>" using assms(1) that by (simp add: stamped_def)
    ultimately show ?thesis by auto
  qed
  then show ?thesis using assms by (auto simp: stamped_def)
qed

lemma stamped_one: "p < length (sg_nodes s) \<Longrightarrow> stamped t s (tick k (upd_node p (childrenMTime_update (\<lambda>_. t)) s))"
  by (auto simp: stamped_def upd_node_def nth_list_update)

lemma stamped_tick_free: "p < length (sg_nodes s) \<Longrightarrow> stamped t s (upd_node p (childrenMTime_update (\<lambda>_. t)) s)"
  by (auto simp: stamped_def upd_node_def nth_list_update)

lemma setChildrenModified_effect:
  assumes "stamps_closed t s (Some p)" and "\<forall>m<length (sg_nodes s). childrenMTime (sgn s m) \<le> t"
  shows "stamped t s (setChildrenModified p t s) \<and> stamps_closed t (setChildrenModified p t s) None \<and>
     (p < length (sg_nodes s) \<longrightarrow> childrenMTime (sgn (setChildrenModified p t s) p) = t)"
  using assms
proof (induction p t s rule: setChildrenModified.induct)
  case (1 p t s)
  show ?case
  proof (cases "p < length (sg_nodes s) \<and> childrenMTime (sgn s p) < t")
    case False
    then have "setChildrenModified p t s = s" by (subst setChildrenModified.simps) (rule if_not_P [OF False])
    moreover have "p < length (sg_nodes s) \<Longrightarrow> childrenMTime (sgn s p) = t" using False 1(3) by force
    moreover have "stamps_closed t s None"
      using 1(2) calculation(2) by (fastforce simp: stamps_closed_def split: option.splits)
    ultimately show ?thesis by (simp add: stamped_refl)
  next
    case True
    let ?s1 = "upd_node p (childrenMTime_update (\<lambda>_. t)) s"
    have at: "sgn ?s1 m = (if m = p then (sgn s p)\<lparr>childrenMTime := t\<rparr> else sgn s m)" if "m < length (sg_nodes s)" for m
      using that by (auto simp: upd_node_def)
    have len: "length (sg_nodes ?s1) = length (sg_nodes s)" by (simp add: upd_node_def)
    show ?thesis
    proof (cases "sg_parent (sgn s p)")
      case None
      then have "setChildrenModified p t s = ?s1" using True by (subst setChildrenModified.simps) simp
      moreover have "stamps_closed t ?s1 None"
        using 1(2) None at unfolding stamps_closed_def len by (fastforce split: option.splits)
      ultimately show ?thesis using True at stamped_tick_free by simp
    next
      case (Some q)
      let ?s2 = "tick 1 ?s1"
      have eq: "setChildrenModified p t s = setChildrenModified q t ?s2"
        using True Some by (subst setChildrenModified.simps) simp
      have closed: "stamps_closed t ?s2 (Some q)"
        using 1(2) Some at unfolding stamps_closed_def tick_simps len by (fastforce split: option.splits)
      have le: "\<forall>m<length (sg_nodes ?s2). childrenMTime (sgn ?s2 m) \<le> t" using 1(3) at by (simp add: len)
      have IH: "stamped t ?s2 (setChildrenModified q t ?s2)" "stamps_closed t (setChildrenModified q t ?s2) None"
        using 1(1) [OF True refl Some closed le] by blast+
      have "childrenMTime (sgn (setChildrenModified q t ?s2) p) = t"
        using IH(1) True at by (fastforce simp: stamped_def len)
      with IH show ?thesis unfolding eq using stamped_trans [OF stamped_one] True by blast
    qed
  qed
qed

text \<open>The effect of \<open>markAsModified\<close>: the node and all its ancestors get the newest stamp.\<close>

definition marked :: "scene \<Rightarrow> nat \<Rightarrow> scene \<Rightarrow> bool" where
  "marked s n s' \<longleftrightarrow> length (sg_nodes s') = length (sg_nodes s) \<and>
     (\<forall>m<length (sg_nodes s). \<exists>l c. sgn s' m = (sgn s m)\<lparr>lastModified := l, childrenMTime := c\<rparr> \<and>
        (if m = n then l = sg_ticks s else l = lastModified (sgn s m)) \<and> (c = childrenMTime (sgn s m) \<or> c = sg_ticks s)) \<and>
     (\<forall>(c, p)\<in>child_of s. c = n \<or> childrenMTime (sgn s' c) = sg_ticks s \<longrightarrow> childrenMTime (sgn s' p) = sg_ticks s) \<and>
     sg_events s' = sg_events s \<and> nodeRegistry s' = nodeRegistry s \<and> sg_ticks s < sg_ticks s' \<and> stamps_ok s'"

lemma stamped_marked:
  fixes s n
  defines "s1 \<equiv> s\<lparr>sg_nodes := (sg_nodes s)[n := (sgn s n)\<lparr>lastModified := sg_ticks s\<rparr>], sg_ticks := sg_ticks s + 1\<rparr>"
  assumes "stamped (sg_ticks s) s1 s'" and "scene_ok s" and "stamps_ok s" and "n < length (sg_nodes s)"
    and "stamps_closed (sg_ticks s) s' None"
    and "\<And>p. sg_parent (sgn s n) = Some p \<Longrightarrow> childrenMTime (sgn s' p) = sg_ticks s"
  shows "marked s n s'"
proof -
  let ?t = "sg_ticks s"
  have len: "length (sg_nodes s') = length (sg_nodes s)" using assms(2) by (simp add: s1_def stamped_def)
  have at1: "sgn s1 m = (if m = n then (sgn s n)\<lparr>lastModified := ?t\<rparr> else sgn s m)" if "m < length (sg_nodes s)" for m
    using that by (simp add: s1_def)
  have at: "\<exists>l c. sgn s' m = (sgn s m)\<lparr>lastModified := l, childrenMTime := c\<rparr> \<and>
      (if m = n then l = ?t else l = lastModified (sgn s m)) \<and> (c = childrenMTime (sgn s m) \<or> c = ?t)"
    if m: "m < length (sg_nodes s)" for m
  proof -
    have "sgn s' m = sgn s1 m \<or> sgn s' m = (sgn s1 m)\<lparr>childrenMTime := ?t\<rparr>"
      using assms(2) m by (simp add: stamped_def s1_def)
    then have "\<exists>c. sgn s' m = (sgn s1 m)\<lparr>childrenMTime := c\<rparr> \<and> (c = childrenMTime (sgn s m) \<or> c = ?t)"
      using at1 [OF m] by (auto intro: exI [of _ "childrenMTime (sgn s m)"])
    then show ?thesis unfolding at1 [OF m] by (cases "m = n") auto
  qed
  have par: "sg_parent (sgn s' m) = sg_parent (sgn s m)" if "m < length (sg_nodes s)" for m using at [OF that] by auto
  have ticks: "?t < sg_ticks s'" using assms(2) by (simp add: s1_def stamped_def)
  have "stamps_below (sg_ticks s') (sgn s' m)" if m: "m < length (sg_nodes s)" for m
  proof -
    have "stamps_below ?t (sgn s m)" using assms(4) m by (simp add: stamps_ok_def)
    then show ?thesis using at [OF m] ticks by (auto simp: stamps_below_def split: if_splits)
  qed
  moreover have "childrenMTime (sgn s' p) = ?t" if e: "(c, p) \<in> child_of s" and "c = n \<or> childrenMTime (sgn s' c) = ?t" for c p
  proof (cases "c = n")
    case True
    then show ?thesis using assms(7) child_ofD(3) [OF assms(3) e] by simp
  next
    case False
    then have "childrenMTime (sgn s' c) = ?t" using that(2) by simp
    then show ?thesis using assms(6) child_ofD(1-3) [OF assms(3) e] par [OF child_ofD(1) [OF assms(3) e]] len
      by (auto simp: stamps_closed_def)
  qed
  ultimately show ?thesis
    using assms(2) len at ticks by (auto simp: marked_def stamps_ok_def stamped_def s1_def)
qed

lemma markAsModified_marked:
  assumes "scene_ok s" and "stamps_ok s" and "n < length (sg_nodes s)" and "sg_ticks s < 2 ^ 64"
  shows "marked s n (markAsModified n s)"
proof -
  let ?t = "sg_ticks s"
  let ?s1 = "s\<lparr>sg_nodes := (sg_nodes s)[n := (sgn s n)\<lparr>lastModified := ?t\<rparr>], sg_ticks := ?t + 1\<rparr>"
  have t: "stamp s = ?t" using assms(4) by (simp add: stamp_def)
  have up: "upd_node n (lastModified_update (\<lambda>_. ?t)) (tick 1 s) = ?s1" by (simp add: upd_node_def tick_def)
  have old: "childrenMTime (sgn ?s1 m) < ?t" if "m < length (sg_nodes s)" for m
    using assms(2,3) that by (auto simp: stamps_ok_def stamps_below_def nth_list_update)
  have closed: "stamps_closed ?t (tick k ?s1) p" for k p using old by (fastforce simp: stamps_closed_def)
  show ?thesis
  proof (cases "sg_parent (sgn s n)")
    case None
    then have "markAsModified n s = ?s1"
      unfolding markAsModified_def Let_def t up using assms(3) by simp
    then show ?thesis
      using stamped_marked [OF stamped_refl assms(1-3)] closed [of 0 None] None by (simp add: tick_def)
  next
    case (Some p)
    then have p: "p < length (sg_nodes s)" using scene_okD(5) [OF assms(1,3)] by blast
    have eq: "markAsModified n s = setChildrenModified p ?t (tick 1 ?s1)"
      unfolding markAsModified_def Let_def t up using assms(3) Some by simp
    have le: "\<forall>m<length (sg_nodes (tick 1 ?s1)). childrenMTime (sgn (tick 1 ?s1) m) \<le> ?t"
      using old by (simp add: less_imp_le)
    note eff = setChildrenModified_effect [OF closed [of 1 "Some p"] le]
    have "stamped ?t ?s1 (tick 1 ?s1)" by (simp add: stamped_def)
    then have "stamped ?t ?s1 (setChildrenModified p ?t (tick 1 ?s1))" using eff stamped_trans by blast
    then show ?thesis unfolding eq using eff p Some by (intro stamped_marked assms) auto
  qed
qed

section \<open>Invariants\<close>

definition graph_inv :: "scene \<Rightarrow> bool" where
  "graph_inv s \<longleftrightarrow> scene_inv s \<and> cache_ok s"

lemma graph_invD:
  assumes "graph_inv s"
  shows "scene_ok s" "stamps_ok s" "propagated s" "n < length (sg_nodes s) \<Longrightarrow> cached s n"
  using assms by (simp_all add: graph_inv_def scene_inv_def cache_ok_def)

lemma rtrancl_local:
  assumes "\<And>x y. y \<in> B \<Longrightarrow> (x, y) \<in> r \<longleftrightarrow> (x, y) \<in> r'" and "\<And>x y. y \<in> B \<Longrightarrow> (x, y) \<in> r \<Longrightarrow> x \<in> B" and "k \<in> B"
  shows "(j, k) \<in> r\<^sup>* \<longleftrightarrow> (j, k) \<in> r'\<^sup>*"
proof
  assume "(j, k) \<in> r\<^sup>*"
  then have "(j, k) \<in> r'\<^sup>* \<and> j \<in> B"
    by (induction rule: converse_rtrancl_induct) (use assms in \<open>auto intro: converse_rtrancl_into_rtrancl\<close>)
  then show "(j, k) \<in> r'\<^sup>*" ..
next
  assume "(j, k) \<in> r'\<^sup>*"
  then have "(j, k) \<in> r\<^sup>* \<and> j \<in> B"
    by (induction rule: converse_rtrancl_induct) (use assms in \<open>auto intro: converse_rtrancl_into_rtrancl\<close>)
  then show "(j, k) \<in> r\<^sup>*" ..
qed

text \<open>Two scenes that agree below a node have the same nodes, validity and cache there.\<close>

definition agree_at :: "scene \<Rightarrow> scene \<Rightarrow> nat \<Rightarrow> bool" where
  "agree_at s s' k \<longleftrightarrow> k < length (sg_nodes s) \<and> k < length (sg_nodes s') \<and> children (sgn s' k) = children (sgn s k) \<and>
     computeValid (sgn s' k) = computeValid (sgn s k) \<and> has_flag required (sgn s' k) = has_flag required (sgn s k) \<and>
     sg_valid (sgn s' k) = sg_valid (sgn s k) \<and> childrenMTime (sgn s' k) = childrenMTime (sgn s k) \<and>
     lastVerified (sgn s' k) = lastVerified (sgn s k)"

lemma agree_edges:
  assumes "\<forall>k\<in>below s m. agree_at s s' k" and "y \<in> below s m"
  shows "(x, y) \<in> child_of s \<longleftrightarrow> (x, y) \<in> child_of s'" "(x, y) \<in> required_of s \<longleftrightarrow> (x, y) \<in> required_of s'"
proof -
  have y: "agree_at s s' y" using assms by blast
  then show 1: "(x, y) \<in> child_of s \<longleftrightarrow> (x, y) \<in> child_of s'" by (simp add: child_of_def kids_def agree_at_def)
  have "agree_at s s' x" if "(x, y) \<in> child_of s" using below_closed [OF assms(2) that] assms(1) by blast
  then show "(x, y) \<in> required_of s \<longleftrightarrow> (x, y) \<in> required_of s'" using 1 by (auto simp: required_of_def agree_at_def)
qed

lemma agree_below:
  assumes "\<forall>k\<in>below s m. agree_at s s' k"
  shows "below s' m = below s m" "k \<in> below s m \<Longrightarrow> all_valid s' k = all_valid s k" "cached s' m = cached s m"
proof -
  have closed: "x \<in> below s m" if "y \<in> below s m" "(x, y) \<in> child_of s" for x y by (rule below_closed [OF that])
  have paths: "(j, k) \<in> (child_of s)\<^sup>* \<longleftrightarrow> (j, k) \<in> (child_of s')\<^sup>*" if "k \<in> below s m" for j k
    by (rule rtrancl_local [OF agree_edges(1) [OF assms] closed that])
  then show "below s' m = below s m" using below_self [of m s] by (simp add: below_def)
  show valid: "all_valid s' k = all_valid s k" if k: "k \<in> below s m" for k
  proof -
    have req: "(j, k) \<in> (required_of s)\<^sup>* \<longleftrightarrow> (j, k) \<in> (required_of s')\<^sup>*" for j
      by (rule rtrancl_local [OF agree_edges(2) [OF assms] _ k]) (auto simp: required_of_def intro: closed)
    have "j \<in> below s m" if "(j, k) \<in> (required_of s)\<^sup>*" for j
    proof -
      have "required_of s \<subseteq> child_of s" by (auto simp: required_of_def)
      then have "(j, k) \<in> (child_of s)\<^sup>*" using that rtrancl_mono by blast
      then show ?thesis using k by (simp add: below_def)
    qed
    then show ?thesis using assms req by (auto simp: all_valid_def node_valid_def agree_at_def)
  qed
  have "(j, m) \<in> (child_of s)\<^sup>+ \<longleftrightarrow> (j, m) \<in> (child_of s')\<^sup>+" for j
    unfolding strictly_below below_def mem_Collect_eq
    using agree_edges(1) [OF assms below_self] paths [OF closed [OF below_self]] by blast
  moreover have "(j, m) \<in> (child_of s)\<^sup>+ \<Longrightarrow> j \<in> below s m" for j by (auto simp: below_def)
  ultimately show "cached s' m = cached s m" using assms valid below_self [of m s] by (auto simp: cached_def agree_at_def)
qed

text \<open>Marking a node repairs what a change at the node broke: the invariants of its ancestors.\<close>

lemma marked_fields:
  assumes "marked s n s'" and "m < length (sg_nodes s)"
  shows "children (sgn s' m) = children (sgn s m)" "sg_parent (sgn s' m) = sg_parent (sgn s m)"
    "computeValid (sgn s' m) = computeValid (sgn s m)" "has_flag b (sgn s' m) = has_flag b (sgn s m)"
    "sg_valid (sgn s' m) = sg_valid (sgn s m)" "lastVerified (sgn s' m) = lastVerified (sgn s m)"
    "lastCommitted (sgn s' m) = lastCommitted (sgn s m)"
    "childrenMTime (sgn s' m) = childrenMTime (sgn s m) \<or> childrenMTime (sgn s' m) = sg_ticks s"
    "lastModified (sgn s' m) = (if m = n then sg_ticks s else lastModified (sgn s m))"
proof -
  obtain l c where "sgn s' m = (sgn s m)\<lparr>lastModified := l, childrenMTime := c\<rparr>"
    "if m = n then l = sg_ticks s else l = lastModified (sgn s m)" "c = childrenMTime (sgn s m) \<or> c = sg_ticks s"
    using assms unfolding marked_def by blast
  then show "children (sgn s' m) = children (sgn s m)" "sg_parent (sgn s' m) = sg_parent (sgn s m)"
    "computeValid (sgn s' m) = computeValid (sgn s m)" "has_flag b (sgn s' m) = has_flag b (sgn s m)"
    "sg_valid (sgn s' m) = sg_valid (sgn s m)" "lastVerified (sgn s' m) = lastVerified (sgn s m)"
    "lastCommitted (sgn s' m) = lastCommitted (sgn s m)"
    "childrenMTime (sgn s' m) = childrenMTime (sgn s m) \<or> childrenMTime (sgn s' m) = sg_ticks s"
    "lastModified (sgn s' m) = (if m = n then sg_ticks s else lastModified (sgn s m))"
    by (auto simp: computeValid_def computeValidMinMax_def has_flag_def split: node_class.split if_splits)
qed

lemma marked_same_tree:
  assumes "marked s n s'"
  shows "same_tree s s'"
  using marked_fields(1,2) [OF assms] assms by (simp add: same_tree_def marked_def)

lemma marked_upwards:
  assumes "marked s n s'" and "(k, m) \<in> (child_of s)\<^sup>*" and "childrenMTime (sgn s' k) = sg_ticks s"
  shows "childrenMTime (sgn s' m) = sg_ticks s"
  using assms(2,3) by (induction rule: rtrancl_induct) (use assms(1) in \<open>auto simp: marked_def\<close>)

lemma mark_repairs:
  assumes ok: "scene_ok s" "stamps_ok s" and mk: "marked s n s'"
    and notice: "\<And>c p. (c, p) \<in> child_of s \<Longrightarrow> sg_modified (sgn s c) \<Longrightarrow> c = n \<or> sg_modified (sgn s p)"
    and cache: "\<And>m. m < length (sg_nodes s) \<Longrightarrow> (n, m) \<notin> (child_of s)\<^sup>+ \<Longrightarrow> cached s m"
  shows "graph_inv s'"
proof -
  let ?t = "sg_ticks s"
  note st = same_treeD [OF marked_same_tree [OF mk]]
  have old: "stamps_below ?t (sgn s m)" if "m < length (sg_nodes s)" for m using ok(2) that by (simp add: stamps_ok_def)
  have "scene_ok s'" by (rule same_tree_ok [OF marked_same_tree [OF mk] ok(1)])
  moreover have "stamps_ok s'" using mk by (simp add: marked_def)
  moreover have "propagated s'"
    unfolding propagated_def st(2)
  proof safe
    fix c p assume e: "(c, p) \<in> child_of s" and m: "sg_modified (sgn s' c)"
    note cl = child_ofD(1,2) [OF ok(1) e]
    note c = marked_fields(7-9) [OF mk cl(1)] and p = marked_fields(7-9) [OF mk cl(2)]
    have new: "sg_modified (sgn s' p)" if "childrenMTime (sgn s' p) = ?t"
      using that p(1) old [OF cl(2)] by (simp add: sg_modified_def stamps_below_def)
    show "sg_modified (sgn s' p)"
    proof (cases "c = n \<or> childrenMTime (sgn s' c) = ?t")
      case True
      then show ?thesis using mk e by (intro new) (auto simp: marked_def)
    next
      case False
      then have "sg_modified (sgn s c)" using m c by (auto simp: sg_modified_def)
      then have "sg_modified (sgn s p)" using notice [OF e] False by blast
      then show ?thesis using p old [OF cl(2)] by (auto simp: sg_modified_def stamps_below_def)
    qed
  qed
  moreover have "cached s' m" if m: "m < length (sg_nodes s)" for m
  proof (cases "childrenMTime (sgn s' m) = ?t")
    case True
    then show ?thesis using marked_fields(6) [OF mk m] old [OF m] by (simp add: cached_def stamps_below_def)
  next
    case False
    have "(n, m) \<notin> (child_of s)\<^sup>+"
    proof
      assume "(n, m) \<in> (child_of s)\<^sup>+"
      then obtain p where "(n, p) \<in> child_of s" "(p, m) \<in> (child_of s)\<^sup>*" by (meson tranclD)
      then show False using marked_upwards [OF mk] mk False by (auto simp: marked_def)
    qed
    moreover have "agree_at s s' k" if k: "k \<in> below s m" for k
    proof -
      have kl: "k < length (sg_nodes s)" by (rule below_range [OF ok(1) m k])
      have "childrenMTime (sgn s' k) \<noteq> ?t" using marked_upwards [OF mk] k False by (auto simp: below_def)
      then show ?thesis using marked_fields [OF mk kl] kl st(1) by (simp add: agree_at_def)
    qed
    ultimately show ?thesis using agree_below(3) [of s m s'] cache [OF m] by blast
  qed
  ultimately show ?thesis by (simp add: graph_inv_def scene_inv_def cache_ok_def st(1))
qed

section \<open>Operations\<close>

text \<open>A change of the data of a node, followed by its marking.\<close>

definition data_change :: "(sg_node \<Rightarrow> sg_node) \<Rightarrow> bool" where
  "data_change f \<longleftrightarrow> (\<forall>nd. children (f nd) = children nd \<and> sg_parent (f nd) = sg_parent nd \<and>
     sg_valid (f nd) = sg_valid nd \<and> lastModified (f nd) = lastModified nd \<and> childrenMTime (f nd) = childrenMTime nd \<and>
     lastCommitted (f nd) = lastCommitted nd \<and> lastVerified (f nd) = lastVerified nd)"

lemma upd_node_nth: "n < length (sg_nodes s) \<Longrightarrow> sgn (upd_node n f s) m = (if m = n then f (sgn s n) else sgn s m)"
  by (simp add: upd_node_def)

lemma upd_node_rest [simp]:
  "length (sg_nodes (upd_node n f s)) = length (sg_nodes s)" "sg_ticks (upd_node n f s) = sg_ticks s"
  "sg_events (upd_node n f s) = sg_events s" "nodeRegistry (upd_node n f s) = nodeRegistry s"
  by (simp_all add: upd_node_def)

lemma touch_inv:
  assumes inv: "graph_inv s" and n: "n < length (sg_nodes s)" and f: "data_change f" and "sg_ticks s < 2 ^ 64"
  shows "graph_inv (markAsModified n (upd_node n f s))"
proof -
  let ?s = "upd_node n f s"
  note inv = graph_invD [OF inv]
  have fields: "children (sgn ?s m) = children (sgn s m)" "sg_parent (sgn ?s m) = sg_parent (sgn s m)"
    "sg_modified (sgn ?s m) = sg_modified (sgn s m)" "stamps_below t (sgn ?s m) = stamps_below t (sgn s m)"
    if "m < length (sg_nodes s)" for m t
    using f n by (auto simp: upd_node_nth data_change_def sg_modified_def stamps_below_def)
  have tree: "same_tree s ?s" using fields by (simp add: same_tree_def)
  note st = same_treeD [OF tree]
  have ok: "scene_ok ?s" "stamps_ok ?s" using same_tree_ok [OF tree inv(1)] inv(2) fields by (simp_all add: stamps_ok_def)
  show ?thesis
  proof (rule mark_repairs [OF ok])
    show "marked ?s n (markAsModified n ?s)" using ok n assms(4) by (intro markAsModified_marked) simp_all
    show "c = n \<or> sg_modified (sgn ?s p)" if "(c, p) \<in> child_of ?s" "sg_modified (sgn ?s c)" for c p
      using that inv(3) child_ofD(1,2) [OF inv(1)] fields(3) unfolding st(2) propagated_def by blast
    show "cached ?s m" if m: "m < length (sg_nodes ?s)" "(n, m) \<notin> (child_of ?s)\<^sup>+" for m
    proof (cases "m = n")
      case False
      have "agree_at s ?s k" if k: "k \<in> below s m" for k
      proof -
        have "k \<noteq> n" using k m(2) False st(2) by (auto simp: below_def rtrancl_eq_or_trancl)
        then show ?thesis using below_range [OF inv(1) _ k] m n by (simp add: agree_at_def upd_node_nth)
      qed
      then show ?thesis using agree_below(3) [of s m ?s] inv(4) m(1) by simp
    next
      case True
      have "all_valid ?s k = all_valid s k \<and> sg_valid (sgn ?s k) = sg_valid (sgn s k)" if "(k, n) \<in> (child_of s)\<^sup>+" for k
      proof -
        have "agree_at s ?s j" if j: "j \<in> below s k" for j
        proof -
          have "(j, n) \<in> (child_of s)\<^sup>+" using j \<open>(k, n) \<in> (child_of s)\<^sup>+\<close> by (auto simp: below_def)
          then show ?thesis using strictly_below_range [OF inv(1)] n by (simp add: agree_at_def upd_node_nth)
        qed
        then show ?thesis using agree_below(2) [of s k ?s] strictly_below_range [OF inv(1) that] n by (simp add: upd_node_nth)
      qed
      then show ?thesis using inv(4) [OF n] f n by (simp add: True cached_def st(2) upd_node_nth data_change_def)
    qed
  qed
qed

lemma node_links [simp]:
  "computeValid (nd\<lparr>sg_parent := q\<rparr>) = computeValid nd" "has_flag b (nd\<lparr>sg_parent := q\<rparr>) = has_flag b nd"
  "computeValid (nd\<lparr>children := cs\<rparr>) = computeValid nd" "has_flag b (nd\<lparr>children := cs\<rparr>) = has_flag b nd"
  "sg_modified (nd\<lparr>sg_parent := q\<rparr>) = sg_modified nd" "sg_modified (nd\<lparr>children := cs\<rparr>) = sg_modified nd"
  "stamps_below t (nd\<lparr>sg_parent := q\<rparr>) = stamps_below t nd" "stamps_below t (nd\<lparr>children := cs\<rparr>) = stamps_below t nd"
  by (simp_all add: computeValid_def computeValidMinMax_def has_flag_def sg_modified_def stamps_below_def split: node_class.split)

text \<open>Adding a node that nobody holds, followed by its marking.\<close>

definition unheld :: "scene \<Rightarrow> nat \<Rightarrow> bool" where
  "unheld s c \<longleftrightarrow> (\<forall>p<length (sg_nodes s). c \<notin> set (kids s p))"

lemma put_child_kids:
  "set (map snd (put_child k c cs)) \<subseteq> insert c (set (map snd cs)) \<and> c \<in> set (map snd (put_child k c cs)) \<and>
   (distinct (map snd cs) \<and> c \<notin> set (map snd cs) \<longrightarrow> distinct (map snd (put_child k c cs)))"
proof (induction cs)
  case (Cons x cs)
  then show ?case by (cases x) auto
qed simp

lemma add_as_nth:
  assumes "p < length (sg_nodes s)" and "c < length (sg_nodes s)" and "p \<noteq> c"
  shows "sgn (add_as p c name s) m =
    (if m = c then (sgn s c)\<lparr>sg_parent := Some p\<rparr>
     else if m = p then (sgn s p)\<lparr>children := put_child name c (children (sgn s p))\<rparr> else sgn s m)"
  using assms by (simp add: add_as_def setChild_def upd_node_nth)

lemma add_as_rest [simp]:
  "length (sg_nodes (add_as p c name s)) = length (sg_nodes s)" "sg_ticks (add_as p c name s) = sg_ticks s"
  "sg_events (add_as p c name s) = sg_events s" "nodeRegistry (add_as p c name s) = nodeRegistry s"
  by (simp_all add: add_as_def setChild_def)

lemma add_edges:
  assumes "p < length (sg_nodes s)" and "c < length (sg_nodes s)" and "p \<noteq> c"
  shows "child_of (add_as p c name s) \<subseteq> insert (c, p) (child_of s)" "(c, p) \<in> child_of (add_as p c name s)"
    "m < length (sg_nodes s) \<Longrightarrow> m \<noteq> p \<Longrightarrow> kids (add_as p c name s) m = kids s m"
    "kids (add_as p c name s) p = map snd (put_child name c (children (sgn s p)))"
proof -
  show k: "m < length (sg_nodes s) \<Longrightarrow> m \<noteq> p \<Longrightarrow> kids (add_as p c name s) m = kids s m" for m
    using assms by (simp add: kids_def add_as_nth)
  show kp: "kids (add_as p c name s) p = map snd (put_child name c (children (sgn s p)))"
    using assms by (simp add: kids_def add_as_nth)
  have sub: "set (kids (add_as p c name s) p) \<subseteq> insert c (set (kids s p))" and new: "c \<in> set (kids (add_as p c name s) p)"
    unfolding kp using put_child_kids [of name c "children (sgn s p)"] by (simp_all add: kids_def)
  show "child_of (add_as p c name s) \<subseteq> insert (c, p) (child_of s)"
  proof
    fix e assume "e \<in> child_of (add_as p c name s)"
    then show "e \<in> insert (c, p) (child_of s)"
      using sub k by (cases "snd e = p") (auto simp: child_of_def)
  qed
  show "(c, p) \<in> child_of (add_as p c name s)" using new assms(1) by (simp add: child_of_def)
qed

lemma add_ok:
  assumes ok: "scene_ok s" and lt: "p < length (sg_nodes s)" "c < length (sg_nodes s)" and "p \<notin> below s c" and free: "unheld s c"
  shows "scene_ok (add_as p c name s)"
proof -
  let ?s = "add_as p c name s"
  have ne: "p \<noteq> c" using assms(4) below_self [of c s] by blast
  note e = add_edges [where name = name, OF lt ne] and nth = add_as_nth [where name = name, OF lt ne]
  have "acyclic (insert (c, p) (child_of s))"
    using scene_okD(1) [OF ok] assms(4) by (simp add: acyclic_insert below_def)
  then have "acyclic (child_of ?s)" using acyclic_subset e(1) by blast
  moreover have "distinct (kids ?s q)" if q: "q < length (sg_nodes s)" for q
  proof (cases "q = p")
    case True
    have "c \<notin> set (kids s p)" using free lt(1) by (simp add: unheld_def)
    then show ?thesis using put_child_kids [of name c "children (sgn s p)"] scene_okD(2) [OF ok lt(1)]
      unfolding True e(4) by (simp add: kids_def)
  next
    case False
    then show ?thesis using e(3) [OF q] scene_okD(2) [OF ok q] by simp
  qed
  moreover have "r < length (sg_nodes s)" if "q < length (sg_nodes s)" "sg_parent (sgn ?s q) = Some r" for q r
    using that scene_okD(5) [OF ok, of q r] lt by (auto simp: nth split: if_splits)
  moreover have "m < length (sg_nodes s) \<and> sg_parent (sgn ?s m) = Some q"
    if q: "q < length (sg_nodes s)" and m: "m \<in> set (kids ?s q)" for q m
  proof (cases "m = c")
    case True
    have "c \<notin> set (kids s q)" using free q by (simp add: unheld_def)
    then have "q = p" using e(3) [OF q] m True by metis
    then show ?thesis using lt(2) by (simp add: True nth)
  next
    case False
    have "(m, q) \<in> child_of ?s" using q m by (simp add: child_of_def)
    then have "(m, q) \<in> child_of s" using e(1) False by blast
    note d = child_ofD(1,3) [OF ok this]
    have "sg_parent (sgn ?s m) = sg_parent (sgn s m)" using False ne by (simp add: nth)
    with d show ?thesis by simp
  qed
  ultimately show ?thesis unfolding scene_ok_def add_as_rest by blast
qed

lemma add_inv:
  assumes inv: "graph_inv s" and lt: "p < length (sg_nodes s)" "c < length (sg_nodes s)" and no: "p \<notin> below s c" "unheld s c"
    and "sg_ticks s < 2 ^ 64"
  shows "graph_inv (markAsModified c (add_as p c name s))"
proof -
  let ?s = "add_as p c name s"
  note inv = graph_invD [OF inv]
  have ne: "p \<noteq> c" using no(1) below_self [of c s] by blast
  note e = add_edges [where name = name, OF lt ne] and nth = add_as_nth [where name = name, OF lt ne]
  have ok: "scene_ok ?s" by (rule add_ok [OF inv(1) lt no])
  have stamps: "stamps_ok ?s" using inv(2) lt by (auto simp: stamps_ok_def nth stamps_below_def)
  have same: "sg_modified (sgn ?s m) = sg_modified (sgn s m)" for m by (simp add: nth sg_modified_def)
  show ?thesis
  proof (rule mark_repairs [OF ok stamps])
    show "marked ?s c (markAsModified c ?s)" using ok stamps lt(2) assms(6) by (intro markAsModified_marked) simp_all
    show "m = c \<or> sg_modified (sgn ?s q)" if edge: "(m, q) \<in> child_of ?s" "sg_modified (sgn ?s m)" for m q
    proof (cases "m = c")
      case False
      then have "(m, q) \<in> child_of s" using edge(1) e(1) by blast
      then show ?thesis using edge(2) inv(3) unfolding same propagated_def by blast
    qed simp
    show "cached ?s m" if m: "m < length (sg_nodes ?s)" "(c, m) \<notin> (child_of ?s)\<^sup>+" for m
    proof -
      have "agree_at s ?s k \<and> (k, m) \<in> (child_of ?s)\<^sup>*" if "(k, m) \<in> (child_of s)\<^sup>*" for k
        using that
      proof (induction rule: converse_rtrancl_induct)
        case base
        have "m \<noteq> p" using e(2) m(2) by blast
        then show ?case using m(1) by (simp add: agree_at_def nth)
      next
        case (step k j)
        have "k < length (sg_nodes s)" by (rule child_ofD(1) [OF inv(1) step(1)])
        moreover have "(k, j) \<in> child_of ?s" using step(1,3) unfolding child_of_def kids_def agree_at_def by simp
        then have "(k, m) \<in> (child_of ?s)\<^sup>*" using step(3) by (blast intro: converse_rtrancl_into_rtrancl)
        moreover then have "k \<noteq> p" using e(2) m(2) by (auto dest: rtrancl_into_trancl2)
        ultimately show ?case by (simp add: agree_at_def nth)
      qed
      then have "\<forall>k\<in>below s m. agree_at s ?s k" by (simp add: below_def)
      then show ?thesis using agree_below(3) inv(4) m(1) by simp
    qed
  qed
qed

text \<open>Removing a child under its exact name, followed by the marking of the parent.\<close>

lemma remove_exact:
  assumes "map_of (children (sgn s p)) name = Some c"
  shows "remove p name s = Inr (upd_node p (children_update (filter (\<lambda>(k, c). k \<noteq> name))) (upd_node c (sg_parent_update (\<lambda>_. None)) s))"
  using assms by (simp add: remove_def hasChild_def child_def find_child_def)

lemma filter_out_child:
  assumes "map_of cs name = Some c" and "distinct (map snd cs)"
  shows "c \<notin> set (map snd (filter (\<lambda>(k, c). k \<noteq> name) cs))"
proof
  assume "c \<in> set (map snd (filter (\<lambda>(k, c). k \<noteq> name) cs))"
  then obtain k where "(k, c) \<in> set cs" "k \<noteq> name" by auto
  moreover have "(name, c) \<in> set cs" using assms(1) by (rule map_of_SomeD)
  ultimately show False
    using assms(2) inj_onD [of snd "set cs" "(k, c)" "(name, c)"] by (simp add: distinct_map)
qed

lemma remaining_path:
  assumes "scene_ok s" and "(p, m) \<in> (child_of s)\<^sup>+"
    and "\<And>x y. y \<noteq> p \<Longrightarrow> (x, y) \<in> child_of s \<Longrightarrow> (x, y) \<in> child_of t"
  shows "(p, m) \<in> (child_of t)\<^sup>+"
  using assms(2)
proof (induction rule: trancl_induct)
  case (base y)
  then have "y \<noteq> p" using strictly_below_range [OF assms(1) r_into_trancl] by blast
  with base show ?case using assms(3) by blast
next
  case (step y z)
  have "z \<noteq> p" using strictly_below_range [OF assms(1) trancl_into_trancl [OF step(1,2)]] by blast
  then show ?case using step assms(3) by (blast intro: trancl_into_trancl)
qed

lemma remove_inv:
  assumes inv: "graph_inv s" and p: "p < length (sg_nodes s)" and name: "map_of (children (sgn s p)) name = Some c"
    and run: "remove p name s = Inr s1" and "sg_ticks s < 2 ^ 64"
  shows "graph_inv (markAsModified p s1)"
proof -
  note inv = graph_invD [OF inv]
  have c: "(c, p) \<in> child_of s" using map_of_SomeD [OF name] p by (force simp: child_of_def kids_def)
  note cl = child_ofD(1) [OF inv(1) c]
  have ne: "c \<noteq> p" using not_below_child [OF inv(1) c] below_self [of c s] by blast
  let ?cs = "filter (\<lambda>(k, c). k \<noteq> name) (children (sgn s p))"
  have s1: "s1 = upd_node p (children_update (filter (\<lambda>(k, c). k \<noteq> name))) (upd_node c (sg_parent_update (\<lambda>_. None)) s)"
    using run remove_exact [OF name] by simp
  have rest: "length (sg_nodes s1) = length (sg_nodes s)" "sg_ticks s1 = sg_ticks s" by (simp_all add: s1)
  have nth: "sgn s1 m = (if m = c then (sgn s c)\<lparr>sg_parent := None\<rparr> else if m = p then (sgn s p)\<lparr>children := ?cs\<rparr> else sgn s m)" for m
    using p cl ne by (simp add: s1 upd_node_nth)
  have kids: "kids s1 m = (if m = p then map snd ?cs else kids s m)" for m using ne by (simp add: kids_def nth)
  have gone: "c \<notin> set (map snd ?cs)"
    using filter_out_child [OF name] scene_okD(2) [OF inv(1) p] by (simp add: kids_def)
  have "set (map snd ?cs) \<subseteq> set (kids s p)" by (auto simp: kids_def)
  then have "set (kids s1 q) \<subseteq> set (kids s q)" for q by (simp add: kids)
  then have sub: "child_of s1 \<subseteq> child_of s" unfolding child_of_def rest by blast
  have held: "m \<noteq> c" if "(m, q) \<in> child_of s1" for m q
  proof
    assume "m = c"
    then have "q = p" using that sub c one_parent [OF inv(1)] by (auto simp: single_valued_def)
    then show False using that gone kids by (simp add: child_of_def \<open>m = c\<close>)
  qed
  have ok: "scene_ok s1"
    unfolding scene_ok_def rest
  proof (intro conjI allI impI ballI)
    show "acyclic (child_of s1)" by (rule acyclic_subset [OF scene_okD(1) [OF inv(1)] sub])
    fix q assume q: "q < length (sg_nodes s)"
    have "distinct (map snd ?cs)" using scene_okD(2) [OF inv(1) p] by (simp add: kids_def distinct_map_filter)
    then show "distinct (kids s1 q)" using scene_okD(2) [OF inv(1) q] by (simp add: kids)
    show "r < length (sg_nodes s)" if "sg_parent (sgn s1 q) = Some r" for r
      using that scene_okD(5) [OF inv(1) q, of r] by (auto simp: nth split: if_splits)
    fix m assume m: "m \<in> set (kids s1 q)"
    have e: "(m, q) \<in> child_of s1" using q m rest by (simp add: child_of_def)
    note d = child_ofD(1,3) [OF inv(1) subsetD [OF sub e]]
    show "m < length (sg_nodes s)" by (rule d(1))
    show "sg_parent (sgn s1 m) = Some q" using d(2) held [OF e] by (auto simp: nth)
  qed
  have stamps: "stamps_ok s1" using inv(2) p cl by (auto simp: stamps_ok_def nth rest)
  have same: "sg_modified (sgn s1 m) = sg_modified (sgn s m)" for m by (simp add: nth)
  have agree: "agree_at s s1 k" if "k < length (sg_nodes s)" "k \<noteq> p" for k
    using that rest by (simp add: agree_at_def nth)
  show ?thesis
  proof (rule mark_repairs [OF ok stamps])
    show "marked s1 p (markAsModified p s1)" using ok stamps p assms(5) rest by (intro markAsModified_marked) simp_all
    show "m = p \<or> sg_modified (sgn s1 q)" if "(m, q) \<in> child_of s1" "sg_modified (sgn s1 m)" for m q
      using that sub inv(3) unfolding same propagated_def by blast
    show "cached s1 m" if m: "m < length (sg_nodes s1)" "(p, m) \<notin> (child_of s1)\<^sup>+" for m
    proof (cases "m = p")
      case True
      have "all_valid s1 k = all_valid s k \<and> sg_valid (sgn s1 k) = sg_valid (sgn s k) \<and> (k, p) \<in> (child_of s)\<^sup>+"
        if k: "(k, p) \<in> (child_of s1)\<^sup>+" for k
      proof -
        have up: "(k, p) \<in> (child_of s)\<^sup>+" using k trancl_mono [OF _ sub] by blast
        have "agree_at s s1 j" if j: "j \<in> below s k" for j
        proof -
          have "(j, p) \<in> (child_of s)\<^sup>+" using j up by (auto simp: below_def)
          then show ?thesis using strictly_below_range [OF inv(1)] agree by blast
        qed
        then show ?thesis using agree_below(2) [of s k s1 k] up by (auto simp: agree_at_def)
      qed
      then show ?thesis using inv(4) [OF p] ne by (auto simp: True cached_def nth)
    next
      case False
      have "(p, m) \<notin> (child_of s)\<^sup>+"
      proof
        assume "(p, m) \<in> (child_of s)\<^sup>+"
        then have "(p, m) \<in> (child_of s1)\<^sup>+"
          by (rule remaining_path [OF inv(1)]) (simp add: child_of_def kids rest)
        with m(2) show False ..
      qed
      then have "agree_at s s1 k" if k: "k \<in> below s m" for k
        using agree below_range [OF inv(1) _ k] m(1) k False rest by (auto simp: below_def rtrancl_eq_or_trancl)
      then show ?thesis using agree_below(3) [of s m s1] inv(4) m(1) rest by simp
    qed
  qed
qed

text \<open>A new node.\<close>

definition fresh :: "scene \<Rightarrow> nat \<Rightarrow> scene \<Rightarrow> bool" where
  "fresh s n s' \<longleftrightarrow> n = length (sg_nodes s) \<and> (\<exists>nd. sg_nodes s' = sg_nodes s @ [nd] \<and> children nd = [] \<and>
     sg_parent nd = None \<and> stamps_below (sg_ticks s') nd) \<and> sg_ticks s \<le> sg_ticks s'"

lemma fresh_upd:
  assumes "fresh s n s'" and "data_change f"
  shows "fresh s n (upd_node n f s')"
  using assms by (auto simp: fresh_def upd_node_def data_change_def stamps_below_def)

lemma fresh_mark: "fresh s n s' \<Longrightarrow> fresh s n (markAsModified n s')"
  by (auto simp: fresh_def markAsModified_def Let_def upd_node_def stamp_def tick_def stamps_below_def
      intro: le_less_trans [OF mod_less_eq_dividend] less_SucI)

lemma fresh_setValue:
  assumes "fresh s n s'" and "setValue n v s' = Inr s''"
  shows "fresh s n s''"
proof -
  have "data_change (sg_value_update (\<lambda>_. v))" by (simp add: data_change_def)
  then have "fresh s n (markAsModified n (upd_node n (sg_value_update (\<lambda>_. v)) s'))" by (intro fresh_mark fresh_upd assms(1))
  then show ?thesis using assms by (auto simp: setValue_def bind_res_eq_Inr split: if_splits)
qed

lemma fresh_Node: "Node c s = (n, s') \<Longrightarrow> fresh s n s'"
proof -
  assume N: "Node c s = (n, s')"
  let ?t = "\<lambda>k. (sg_ticks s + k) mod 2 ^ 64"
  let ?s = "tick 5 (s\<lparr>sg_nodes := sg_nodes s @
      [\<lparr>sg_class = c, sg_name = ''NULL'', sg_type = ''Node'', minmax = [], whitelist = [], blacklist = [],
        children = [], sg_value = None, whenCreated = ?t 0, lastModified = ?t 1, childrenMTime = ?t 2,
        lastCommitted = ?t 3, lastVerified = ?t 4, sg_parent = None, sg_flags = 0, sg_valid = False,
        documentation = []\<rparr>]\<rparr>)"
  have n: "n = length (sg_nodes s)" and s': "s' = markAsModified n ?s" using N by (auto simp: Node_def Let_def)
  have t: "?t k < sg_ticks s + 5" if "k < 5" for k
    using that mod_less_eq_dividend [of "sg_ticks s + k" "2 ^ 64"] by linarith
  have "fresh s n ?s"
    using t [of 1] t [of 2] t [of 3] t [of 4] by (simp add: fresh_def n stamps_below_def tick_def)
  then show ?thesis unfolding s' by (rule fresh_mark)
qed

lemma fresh_creator:
  assumes "run_creator def c s = Inr (n, s')"
  shows "fresh s n s'"
proof (cases c)
  case Plain_node
  then show ?thesis using assms fresh_Node [of Plain_node s n s'] by simp
next
  case (Param_node T)
  obtain m s1 where N: "Node (Param_node T) s = (m, s1)" by fastforce
  then have "setValue m (Some (def T)) s1 = Inr s'" "m = n"
    using assms by (auto simp: Param_node NodeParam_def bind_res_eq_Inr)
  then show ?thesis using fresh_setValue [OF fresh_Node [OF N]] by blast
qed

lemma fresh_registry: "fresh (s\<lparr>nodeRegistry := r\<rparr>) n s' \<longleftrightarrow> fresh s n s'"
  by (simp add: fresh_def)

lemma find_creator_fresh: "find_creator getSymbol type s = Inr (c, s1) \<Longrightarrow> fresh s1 n s' \<longleftrightarrow> fresh s n s'"
  by (auto simp: find_creator_def fresh_registry split: option.splits)

lemma createNode_fresh:
  assumes "createNode getSymbol def name type val flags doc s = Inr (n, s')"
  shows "fresh s n s'"
proof -
  obtain c s1 where s1: "find_creator getSymbol type s = Inr (c, s1)"
    using assms by (cases "find_creator getSymbol type s") (auto simp: createNode_def)
  obtain m s2 where s2: "run_creator def c s1 = Inr (m, s2)"
    using assms s1 by (cases "run_creator def c s1") (auto simp: createNode_def)
  have "fresh s m s2" using fresh_creator [OF s2] find_creator_fresh [OF s1] by blast
  then have "fresh s m (setDocumentation doc m (setFlags flags m (setType type m (setName name m s2))))"
    unfolding setDocumentation_def setFlags_def setType_def setName_def
    by (intro fresh_upd) (simp_all add: data_change_def)
  then show ?thesis
    using assms s1 s2 fresh_setValue by (auto simp: createNode_def Let_def bind_res_eq_Inr split: if_splits)
qed

lemma fresh_inv:
  assumes inv: "graph_inv s" and fr: "fresh s n s'"
  shows "graph_inv s'"
proof -
  note inv = graph_invD [OF inv]
  let ?n = "length (sg_nodes s)"
  obtain nd where nodes: "sg_nodes s' = sg_nodes s @ [nd]" and nd: "children nd = []" "sg_parent nd = None"
    "stamps_below (sg_ticks s') nd" and t: "sg_ticks s \<le> sg_ticks s'" using fr by (auto simp: fresh_def)
  have old: "sgn s' m = sgn s m" "kids s' m = kids s m" if "m < ?n" for m
    using that by (simp_all add: nodes nth_append kids_def)
  have new: "sgn s' ?n = nd" "kids s' ?n = []" using nd by (simp_all add: nodes kids_def)
  have len: "length (sg_nodes s') = Suc ?n" by (simp add: nodes)
  have edges: "child_of s' = child_of s"
    unfolding child_of_def len using old(2) new(2) by (auto simp: less_Suc_eq)
  have range: "m < ?n" "q < ?n" if "(m, q) \<in> child_of s" for m q using child_ofD(1,2) [OF inv(1) that] .
  have "scene_ok s'"
    unfolding scene_ok_def edges len
  proof (intro conjI allI impI ballI)
    show "acyclic (child_of s)" by (rule scene_okD(1) [OF inv(1)])
    fix q assume q: "q < Suc ?n"
    show "distinct (kids s' q)" using scene_okD(2) [OF inv(1), of q] old(2) [of q] new(2) q by (cases "q = ?n") auto
    show "r < Suc ?n" if "sg_parent (sgn s' q) = Some r" for r
      using that scene_okD(5) [OF inv(1), of q r] old(1) [of q] new(1) nd(2) q by (cases "q = ?n") auto
    fix m assume "m \<in> set (kids s' q)"
    then have "(m, q) \<in> child_of s'" using q len by (simp add: child_of_def)
    then have "(m, q) \<in> child_of s" unfolding edges .
    note d = child_ofD(1,3) [OF inv(1) this]
    show "m < Suc ?n" using d(1) by (rule less_SucI)
    show "sg_parent (sgn s' m) = Some q" unfolding old(1) [OF d(1)] by (rule d(2))
  qed
  moreover have "stamps_ok s'"
    unfolding stamps_ok_def len
  proof (intro allI impI)
    fix m assume m: "m < Suc ?n"
    show "stamps_below (sg_ticks s') (sgn s' m)"
    proof (cases "m = ?n")
      case True
      then show ?thesis using new(1) nd(3) by simp
    next
      case False
      then have lt: "m < ?n" using m by simp
      then have "stamps_below (sg_ticks s) (sgn s m)" using inv(2) by (simp add: stamps_ok_def)
      then show ?thesis unfolding old(1) [OF lt] by (rule stamps_below_mono [OF _ t])
    qed
  qed
  moreover have "propagated s'"
    unfolding propagated_def edges
  proof safe
    fix c p assume e: "(c, p) \<in> child_of s" and "sg_modified (sgn s' c)"
    then show "sg_modified (sgn s' p)"
      using inv(3) unfolding propagated_def old(1) [OF range(1) [OF e]] old(1) [OF range(2) [OF e]] by blast
  qed
  moreover have "cached s' m" if m: "m < Suc ?n" for m
  proof (cases "m = ?n")
    case True
    have "(k, m) \<notin> (child_of s')\<^sup>+" for k
      unfolding edges True using strictly_below_range [OF inv(1)] by blast
    then show ?thesis by (simp add: cached_def)
  next
    case False
    then have "agree_at s s' k" if "k \<in> below s m" for k
      using below_range [OF inv(1) _ that] m old(1) [of k] len by (simp add: agree_at_def)
    then show ?thesis using agree_below(3) [of s m s'] inv(4) m False by simp
  qed
  ultimately show ?thesis by (simp add: graph_inv_def scene_inv_def cache_ok_def len)
qed

text \<open>A commit and a verify.\<close>

lemma distinct_post_order:
  "scene_ok s \<Longrightarrow> n < length (sg_nodes s) \<Longrightarrow> hgt s n < d \<Longrightarrow> distinct (post_order d s n)"
proof (induction d arbitrary: n)
  case (Suc d)
  note ok = Suc.prems(1) and n = Suc.prems(2)
  have edge: "(c, n) \<in> child_of s" if "c \<in> set (kids s n)" for c by (rule kid_child_of [OF n that])
  have kid: "c < length (sg_nodes s)" "hgt s c < d" if "c \<in> set (kids s n)" for c
    using child_ofD(1) [OF ok edge [OF that]] hgt_child [OF ok edge [OF that]] Suc.prems(3) by simp_all
  have set: "set (post_order d s c) = below s c" if "c \<in> set (kids s n)" for c
    by (rule set_post_order [OF ok kid [OF that]])
  have dist: "distinct (concat (map (post_order d s) cs))" if "set cs \<subseteq> set (kids s n)" "distinct cs" for cs
    using that
  proof (induction cs)
    case (Cons c cs)
    then have "below s c \<inter> below s e = {}" if "e \<in> set cs" for e
      using siblings_disjoint [OF ok edge edge] that by (metis distinct.simps(2) list.set_intros subsetD)
    then have "set (post_order d s c) \<inter> (\<Union>e\<in>set cs. set (post_order d s e)) = {}"
      using set Cons.prems(1) by fastforce
    then show ?case using Cons Suc.IH [OF ok kid] by auto
  qed simp
  have "n \<notin> set (post_order d s c)" if "c \<in> set (kids s n)" for c
    using set [OF that] not_below_child [OF ok edge [OF that]] by simp
  then show ?case using dist [OF subset_refl scene_okD(2) [OF ok n]] by auto
qed simp

lemma length_post_order:
  assumes "scene_ok s" and "n < length (sg_nodes s)" and "hgt s n < d"
  shows "length (post_order d s n) \<le> length (sg_nodes s)"
proof -
  have "set (post_order d s n) \<subseteq> {..<length (sg_nodes s)}"
    using set_post_order [OF assms] below_range [OF assms(1,2)] by auto
  then have "card (set (post_order d s n)) \<le> length (sg_nodes s)" using card_mono [of "{..<length (sg_nodes s)}"] by simp
  then show ?thesis using distinct_card [OF distinct_post_order [OF assms]] by simp
qed

definition has_room :: "scene \<Rightarrow> bool" where
  "has_room s \<longleftrightarrow> sg_ticks s + 11 * length (sg_nodes s) + 2 < 2 ^ 64"

definition calls_ok :: "scene \<Rightarrow> nat \<Rightarrow> bool" where
  "calls_ok s n \<longleftrightarrow> (\<forall>m\<in>below s n. \<exists>es. node_calls s m = Inr es)"

definition values_ok :: "scene \<Rightarrow> nat \<Rightarrow> bool" where
  "values_ok s n \<longleftrightarrow> (\<forall>m\<in>below s n. \<exists>b. computeValid (sgn s m) = Inr b)"

definition whole_order :: "scene \<Rightarrow> nat \<Rightarrow> nat list" where
  "whole_order s n = post_order (Suc (length (sg_nodes s))) s n"

lemma commit_run:
  assumes inv: "graph_inv s" and n: "n < length (sg_nodes s)" and "has_room s" and calls: "calls_ok s n"
  shows "\<exists>s'. commit (Suc (length (sg_nodes s))) n s = ret s' \<and> committed s (below s n) s' (calls_of s (whole_order s n))"
proof -
  let ?s = "tick 2 s" and ?d = "Suc (length (sg_nodes s))"
  note inv = graph_invD [OF inv]
  have com: "committed s {} ?s []" by (rule committed_tick [OF inv(2)])
  have h: "hgt s n < ?d" using hgt_less [OF inv(1) n] by simp
  have order: "post_order ?d ?s n = post_order ?d s n" by (rule same_tree_post_order [OF same_tree_tick inv(1) n])
  have sinv: "scene_inv ?s" using inv by (intro tick_inv) (simp add: scene_inv_def)
  have "commit_ready ?d s n" using n h calls by (simp add: commit_ready_def calls_ok_def)
  then have ready: "commit_ready ?d ?s n" by (rule commit_ready_committed [OF com inv(1)])
  have room: "sg_ticks ?s + 11 * length (post_order ?d ?s n) \<le> 2 ^ 64"
    unfolding order using length_post_order [OF inv(1) n h] assms(3) by (simp add: has_room_def)
  obtain s' where s': "traverse ?d ''commit'' n ?s = ret s'" "commits ?d ?s n s'"
    using commit_node [OF sinv ready room] by blast
  have same: "calls_of ?s (post_order ?d s n) = calls_of s (post_order ?d s n)"
    using set_post_order [OF inv(1) n h] below_range [OF inv(1) n] by (intro committed_calls_of [OF com inv(1)]) simp
  have "committed ?s (below s n) s' (calls_of s (post_order ?d s n))"
    using s'(2) unfolding commits_def order same same_treeD(3) [OF same_tree_tick] by blast
  then show ?thesis
    using committed_trans [OF com] s'(1) by (auto simp: commit_def traverse_root_def whole_order_def)
qed

lemma computeValid_committed [simp]:
  "computeValid (nd\<lparr>lastCommitted := t\<rparr>) = computeValid nd" "has_flag b (nd\<lparr>lastCommitted := t\<rparr>) = has_flag b nd"
  by (simp_all add: computeValid_def computeValidMinMax_def has_flag_def split: node_class.split)

lemma commit_inv:
  assumes inv: "graph_inv s" and com: "committed s (below s n) s' es"
  shows "graph_inv s'"
proof -
  note len = committedD(1) [OF com] and inv = graph_invD [OF inv]
  have "scene_inv s'" using inv by (intro committed_inv [OF com]) (simp add: scene_inv_def)
  moreover have "cached s' m" if m: "m < length (sg_nodes s)" for m
  proof -
    have "agree_at s s' k" if k: "k \<in> below s m" for k
    proof -
      have "k < length (sg_nodes s)" by (rule below_range [OF inv(1) m k])
      then show ?thesis using committedD(2) [OF com] len by (fastforce simp: agree_at_def)
    qed
    then show ?thesis using agree_below(3) [of s m s'] inv(4) m by blast
  qed
  ultimately show ?thesis by (simp add: graph_inv_def cache_ok_def len)
qed

lemma verify_run:
  assumes inv: "graph_inv s" and n: "n < length (sg_nodes s)" and "values_ok s n"
  shows "\<exists>s'. verify (Suc (length (sg_nodes s))) n s = ret s' \<and> verified s (below s n) s'"
proof -
  note inv = graph_invD [OF inv]
  have "verify_ready (Suc (length (sg_nodes s))) s n"
    using inv(1,2,4) n assms(3) hgt_less [OF inv(1) n] below_range [OF inv(1) n] by (simp add: verify_ready_def values_ok_def)
  from verify_node [OF this, of 0] show ?thesis by (auto simp: verify_def)
qed

lemma verify_inv:
  assumes inv: "graph_inv s" and ver: "verified s (below s n) s'"
  shows "graph_inv s'"
proof -
  note inv = graph_invD [OF inv] and v = ver [unfolded verified_def] and rem = verified_remarked [OF ver]
  note st = same_treeD [OF remarked_same_tree [OF rem]]
  have exact: "all_valid s' m = all_valid s m" if "m < length (sg_nodes s)" for m
    by (rule remarked_all_valid [OF rem inv(1) that])
  have "propagated s'"
    unfolding propagated_def st(2)
  proof safe
    fix c p assume e: "(c, p) \<in> child_of s" and "sg_modified (sgn s' c)"
    then show "sg_modified (sgn s' p)"
      using inv(3) child_ofD(1,2) [OF inv(1) e] remarked_fields(6) [OF rem] unfolding propagated_def by fastforce
  qed
  moreover have "cached s' m" if m: "m < length (sg_nodes s)" for m
    unfolding cached_def st(2)
  proof (intro impI allI)
    fix k assume seen: "sg_valid (sgn s' m) \<and> childrenMTime (sgn s' m) < lastVerified (sgn s' m)" and k: "(k, m) \<in> (child_of s)\<^sup>+"
    have kl: "k < length (sg_nodes s)" using strictly_below_range [OF inv(1) k] by simp
    show "sg_valid (sgn s' k) \<longleftrightarrow> all_valid s' k"
    proof (cases "k \<in> below s n")
      case True
      then show ?thesis using v exact [OF kl] by blast
    next
      case False
      then have "m \<notin> below s n" using rtrancl_trans [OF trancl_into_rtrancl [OF k], of n] by (auto simp: below_def)
      then have "sgn s' m = sgn s m" "sgn s' k = sgn s k" using v m kl False by auto
      then show ?thesis using inv(4) [OF m] seen k exact [OF kl] by (simp add: cached_def)
    qed
  qed
  ultimately show ?thesis
    using same_tree_ok [OF remarked_same_tree [OF rem] inv(1)] v
    by (simp add: graph_inv_def scene_inv_def cache_ok_def)
qed

section \<open>Every scene graph\<close>

text \<open>The scene graphs of an application that marks what it changes: \<open>data_setter\<close> are the setters of
  \<open>Node\<close>; a node is added if nobody holds it and it is not above its parent, and removed under its exact
  name.  A step is only taken while the counter of the stamps has room.\<close>

definition data_setter :: "nat \<Rightarrow> scene \<Rightarrow> scene \<Rightarrow> bool" where
  "data_setter n s s' \<longleftrightarrow>
     (\<exists>v. s' = setName v n s \<or> s' = setType v n s \<or> s' = setDocumentation v n s) \<or> (\<exists>f. s' = setFlags f n s) \<or>
     (\<exists>lo hi. s' = setMinMax lo hi n s) \<or> (\<exists>vs. s' = setWhiteList vs n s \<or> s' = setBlackList vs n s)"

inductive sg_reachable :: "(string \<Rightarrow> node_class option) \<Rightarrow> (sg_vtype \<Rightarrow> sg_val) \<Rightarrow> scene \<Rightarrow> bool"
  for getSymbol and def where
  empty_graph: "sg_reachable getSymbol def \<lparr>sg_nodes = [], sg_ticks = t, sg_events = [], nodeRegistry = []\<rparr>"
| create: "sg_reachable getSymbol def s \<Longrightarrow> createNode getSymbol def name type val flags doc s = Inr (n, s') \<Longrightarrow>
    sg_reachable getSymbol def s'"
| set_value: "sg_reachable getSymbol def s \<Longrightarrow> has_room s \<Longrightarrow> n < length (sg_nodes s) \<Longrightarrow> setValue n v s = Inr s' \<Longrightarrow>
    sg_reachable getSymbol def s'"
| mark: "sg_reachable getSymbol def s \<Longrightarrow> has_room s \<Longrightarrow> n < length (sg_nodes s) \<Longrightarrow> data_setter n s s' \<or> s' = s \<Longrightarrow>
    sg_reachable getSymbol def (markAsModified n s')"
| add_child: "sg_reachable getSymbol def s \<Longrightarrow> has_room s \<Longrightarrow> p < length (sg_nodes s) \<Longrightarrow> c < length (sg_nodes s) \<Longrightarrow>
    p \<notin> below s c \<Longrightarrow> unheld s c \<Longrightarrow> sg_reachable getSymbol def (markAsModified c (add_as p c name s))"
| remove_child: "sg_reachable getSymbol def s \<Longrightarrow> has_room s \<Longrightarrow> p < length (sg_nodes s) \<Longrightarrow>
    map_of (children (sgn s p)) name = Some c \<Longrightarrow> remove p name s = Inr s' \<Longrightarrow>
    sg_reachable getSymbol def (markAsModified p s')"
| commit_graph: "sg_reachable getSymbol def s \<Longrightarrow> has_room s \<Longrightarrow> n < length (sg_nodes s) \<Longrightarrow> calls_ok s n \<Longrightarrow>
    commit (Suc (length (sg_nodes s))) n s = ret s' \<Longrightarrow> sg_reachable getSymbol def s'"
| verify_graph: "sg_reachable getSymbol def s \<Longrightarrow> n < length (sg_nodes s) \<Longrightarrow> values_ok s n \<Longrightarrow>
    verify (Suc (length (sg_nodes s))) n s = ret s' \<Longrightarrow> sg_reachable getSymbol def s'"

lemma data_setter_change: "data_setter n s s' \<Longrightarrow> \<exists>f. data_change f \<and> s' = upd_node n f s"
  unfolding data_setter_def setName_def setType_def setDocumentation_def setFlags_def setMinMax_def
    setWhiteList_def setBlackList_def
  by (elim disjE exE; rule exI, rule conjI [rotated], assumption, simp add: data_change_def)

lemma upd_node_same: "upd_node n (\<lambda>nd. nd) s = s"
  by (simp add: upd_node_def)

lemma setValue_inv:
  assumes "graph_inv s" and "has_room s" and "n < length (sg_nodes s)" and "setValue n v s = Inr s'"
  shows "graph_inv s'"
proof -
  have "graph_inv (markAsModified n (upd_node n (sg_value_update (\<lambda>_. v)) s))"
    using assms(2) by (intro touch_inv assms) (simp_all add: data_change_def has_room_def)
  then show ?thesis using assms(1,4) by (auto simp: setValue_def bind_res_eq_Inr split: if_splits)
qed

theorem sg_reachable_inv: "sg_reachable getSymbol def s \<Longrightarrow> graph_inv s"
proof (induction rule: sg_reachable.induct)
  case (empty_graph t)
  then show ?case
    by (simp add: graph_inv_def scene_inv_def scene_ok_def stamps_ok_def propagated_def cache_ok_def child_of_def acyclic_def)
next
  case (create s name type val flags doc n s')
  then show ?case using fresh_inv createNode_fresh by blast
next
  case (set_value s n v s')
  then show ?case using setValue_inv by blast
next
  case (mark s n s')
  then obtain f where "data_change f" "s' = upd_node n f s"
    using data_setter_change upd_node_same [of n s] by (metis data_change_def)
  then show ?case using touch_inv [OF mark.IH mark.hyps(3)] mark.hyps(2) by (simp add: has_room_def)
next
  case (add_child s p c name)
  then show ?case using add_inv by (simp add: has_room_def)
next
  case (remove_child s p name c s')
  then show ?case using remove_inv [OF _ _ remove_child.hyps(4,5)] by (simp add: has_room_def)
next
  case (commit_graph s n s')
  then show ?case using commit_run commit_inv by (metis ret_inject)
next
  case (verify_graph s n s')
  then show ?case using verify_run verify_inv by (metis ret_inject)
qed

lemma commit_again:
  assumes inv: "graph_inv s" and n: "n < length (sg_nodes s)" and calls: "calls_ok s n"
    and com: "committed s (below s n) s' es" and room: "has_room s'"
  shows "\<exists>u. commit (Suc (length (sg_nodes s))) n s' = ret u \<and> sg_events u = sg_events s'"
proof -
  note ok = graph_invD(1) [OF inv] and st = same_treeD [OF committed_same_tree [OF com]]
  have inv': "graph_inv s'" by (rule commit_inv [OF inv com])
  have "calls_ok s' n"
    using calls committed_calls [OF com ok] below_range [OF ok n] by (simp add: calls_ok_def st)
  from commit_run [OF inv' _ room this] obtain u where
    u: "commit (Suc (length (sg_nodes s))) n s' = ret u" "committed s' (below s n) u (calls_of s' (whole_order s' n))"
    using n by (auto simp: st)
  have "hgt s n < Suc (length (sg_nodes s))" using hgt_less [OF ok n] by (rule less_SucI)
  then have "set (whole_order s' n) = below s n"
    using set_post_order [OF graph_invD(1) [OF inv'], of n] n unfolding whole_order_def st by blast
  then have "calls_of s' (whole_order s' n) = []"
    using committedD(4) [OF com] by (intro calls_of_unmodified) simp
  then show ?thesis using u committedD(5) [OF u(2)] by auto
qed

section \<open>An example\<close>

definition zero_value :: "sg_vtype \<Rightarrow> sg_val" where
  "zero_value T = (if T = VT_object then S_object None else if T = VT_string then S_string [] else S_int 0)"

definition no_scene :: scene where
  "no_scene = \<lparr>sg_nodes = [], sg_ticks = 0, sg_events = [], nodeRegistry = []\<rparr>"

definition renderer_node :: sg_node where
  "renderer_node = \<lparr>sg_class = Param_node VT_object, sg_name = ''renderer'', sg_type = ''OSPObject'', minmax = [],
     whitelist = [], blacklist = [], children = [], sg_value = Some (S_object (Some 7)), whenCreated = 0,
     lastModified = 7, childrenMTime = 2, lastCommitted = 3, lastVerified = 4, sg_parent = None, sg_flags = 0,
     sg_valid = False, documentation = []\<rparr>"

definition index_node :: sg_node where
  "index_node = \<lparr>sg_class = Param_node VT_int, sg_name = ''index'', sg_type = ''int'', minmax = [],
     whitelist = [], blacklist = [], children = [], sg_value = Some (S_int 5), whenCreated = 8,
     lastModified = 15, childrenMTime = 10, lastCommitted = 11, lastVerified = 12, sg_parent = None, sg_flags = 6,
     sg_valid = False, documentation = []\<rparr>"

definition lone_scene :: scene where
  "lone_scene = \<lparr>sg_nodes = [renderer_node], sg_ticks = 8, sg_events = [], nodeRegistry = [(''OSPObject'', Param_node VT_object)]\<rparr>"

definition pair_scene :: scene where
  "pair_scene = \<lparr>sg_nodes = [renderer_node, index_node], sg_ticks = 16, sg_events = [],
     nodeRegistry = [(''int'', Param_node VT_int), (''OSPObject'', Param_node VT_object)]\<rparr>"

definition linked_scene :: scene where
  "linked_scene = pair_scene\<lparr>sg_nodes := [renderer_node\<lparr>children := [(''index'', 1)], childrenMTime := 16\<rparr>,
     index_node\<lparr>sg_parent := Some 0, lastModified := 16\<rparr>], sg_ticks := 18\<rparr>"

lemmas node_eval = createNode_def find_creator_def registered_def NodeParam_def Node_def Let_def markAsModified_def
  upd_node_def stamp_def tick_def zero_value_def setValue_def sg_any_eq_def sg_same_def setName_def setType_def
  setFlags_def setDocumentation_def

lemmas scene_eval = renderer_node_def index_node_def no_scene_def lone_scene_def pair_scene_def linked_scene_def

lemma create_renderer:
  "createNode registered zero_value ''renderer'' ''OSPObject'' (Some (S_object (Some 7))) 0 [] no_scene = Inr (0, lone_scene)"
  by (simp add: node_eval scene_eval)

lemma create_index:
  "createNode registered zero_value ''index'' ''int'' (Some (S_int 5)) 6 [] lone_scene = Inr (1, pair_scene)"
  by (simp add: node_eval scene_eval)

lemma link_index: "markAsModified 1 (add_as 0 1 ''index'' pair_scene) = linked_scene"
  by (simp add: markAsModified_def Let_def upd_node_def stamp_def tick_def add_as_def setChild_def scene_eval
      setChildrenModified.simps)

lemma linked_reachable: "sg_reachable registered zero_value linked_scene"
proof -
  have "sg_reachable registered zero_value no_scene" unfolding no_scene_def by (rule sg_reachable.empty_graph)
  from sg_reachable.create [OF sg_reachable.create [OF this create_renderer] create_index]
  have pair: "sg_reachable registered zero_value pair_scene" .
  have len: "length (sg_nodes pair_scene) = 2" by (simp add: pair_scene_def)
  have none: "kids pair_scene q = []" if "q < 2" for q
    using that by (auto simp: less_2_cases_iff kids_def pair_scene_def renderer_node_def index_node_def)
  then have "child_of pair_scene = {}" by (auto simp: child_of_def len)
  then have "0 \<notin> below pair_scene 1" by (simp add: below_def)
  moreover have "unheld pair_scene 1" "has_room pair_scene"
    using none by (auto simp: unheld_def len has_room_def) (simp add: pair_scene_def)
  ultimately show ?thesis
    using sg_reachable.add_child [OF pair, of 0 1 "''index''"] link_index by (simp add: pair_scene_def)
qed

lemma linked_below: "below linked_scene 0 = {0, 1}"
  using below_unfold [of 0 linked_scene] below_unfold [of 1 linked_scene] by (simp add: scene_eval kids_def)

text \<open>C35 A commit sends the changes.  For every scene graph built by operations that mark what they
  change, with parameters whose values have their types: \<open>commit\<close> at a node ends, makes
  exactly the API calls of the modified nodes below it, children before parents and in the order of
  the maps, leaves no modified node below it and touches nothing but the times of commit below
  it; committing once more makes no call.\<close>

theorem scene_commit_exact:
  assumes "sg_reachable getSymbol def s" and "n < length (sg_nodes s)" and "has_room s" and "calls_ok s n"
  shows "\<exists>s'. commit (Suc (length (sg_nodes s))) n s = ret s' \<and>
     sg_events s' = sg_events s @ calls_of s (whole_order s n) \<and>
     (\<forall>m\<in>below s n. \<not> sg_modified (sgn s' m)) \<and>
     (\<forall>m<length (sg_nodes s). (\<exists>t. sgn s' m = (sgn s m)\<lparr>lastCommitted := t\<rparr>) \<and> (m \<notin> below s n \<longrightarrow> sgn s' m = sgn s m)) \<and>
     (has_room s' \<longrightarrow> (\<exists>u. commit (Suc (length (sg_nodes s))) n s' = ret u \<and> sg_events u = sg_events s'))"
proof -
  note inv = sg_reachable_inv [OF assms(1)]
  obtain s' where s': "commit (Suc (length (sg_nodes s))) n s = ret s'"
    "committed s (below s n) s' (calls_of s (whole_order s n))"
    using commit_run [OF inv assms(2-4)] by blast
  then show ?thesis
    using committedD [OF s'(2)] commit_again [OF inv assms(2,4) s'(2)] by blast
qed

theorem scene_commit_exact_witness:
  "\<exists>s'. commit 3 0 linked_scene = ret s' \<and> sg_events s' = [Osp_set (Some 7) ''index'' (S_int 5)]"
proof -
  have calls: "node_calls linked_scene 0 = Inr []" "node_calls linked_scene 1 = Inr [Osp_set (Some 7) ''index'' (S_int 5)]"
    by (simp_all add: node_calls_def commitNodeValue_def sg_get_def scene_eval)
  then have "calls_ok linked_scene 0" by (simp add: calls_ok_def linked_below)
  moreover have "whole_order linked_scene 0 = [1, 0]"
    by (simp add: whole_order_def kids_def linked_scene_def renderer_node_def index_node_def)
  then have "calls_of linked_scene (whole_order linked_scene 0) = [Osp_set (Some 7) ''index'' (S_int 5)]"
    using calls by (simp add: calls_of_def sg_modified_def linked_scene_def renderer_node_def index_node_def)
  moreover have "has_room linked_scene" "length (sg_nodes linked_scene) = 2" "sg_events linked_scene = []"
    by (simp_all add: has_room_def linked_scene_def pair_scene_def)
  ultimately show ?thesis
    using scene_commit_exact [OF linked_reachable, of 0] by (auto simp: numeral_eq_Suc)
qed

text \<open>C36 Verify computes the validity.  For every such scene graph, with values that can be compared
  with their ranges and lists: \<open>verify\<close> at a node ends, and marks exactly those nodes below it as valid
  that are and whose required descendants are, although it skips what it takes to be unchanged; nothing
  but the marks and the times of verification below the node changes.\<close>

theorem scene_verify_exact:
  assumes "sg_reachable getSymbol def s" and "n < length (sg_nodes s)" and "values_ok s n"
  shows "\<exists>s'. verify (Suc (length (sg_nodes s))) n s = ret s' \<and>
     (\<forall>m\<in>below s n. sg_valid (sgn s' m) \<longleftrightarrow> all_valid s m) \<and>
     (\<forall>m<length (sg_nodes s). (\<exists>v t. sgn s' m = (sgn s m)\<lparr>sg_valid := v, lastVerified := t\<rparr>) \<and>
        (m \<notin> below s n \<longrightarrow> sgn s' m = sgn s m)) \<and>
     sg_events s' = sg_events s"
  using verify_run [OF sg_reachable_inv [OF assms(1)] assms(2,3)] unfolding verified_def by blast

theorem scene_verify_exact_witness:
  "\<exists>s'. verify 3 0 linked_scene = ret s' \<and> sg_valid (sgn s' 0) \<and> sg_valid (sgn s' 1)"
proof -
  have valid: "computeValid (sgn linked_scene 0) = Inr True" "computeValid (sgn linked_scene 1) = Inr True"
    by (simp_all add: scene_eval computeValid_def has_flag_def valid_min_max_def valid_whitelist_def valid_blacklist_def)
  then have "values_ok linked_scene 0" unfolding values_ok_def linked_below by blast
  moreover have "all_valid linked_scene 1"
    using all_valid_unfold [of 1 linked_scene] valid by (simp add: node_valid_def kids_def linked_scene_def index_node_def)
  then have "all_valid linked_scene 0"
    using all_valid_unfold [of 0 linked_scene] valid
    by (simp add: node_valid_def kids_def linked_scene_def renderer_node_def)
  ultimately show ?thesis
    using scene_verify_exact [OF linked_reachable, of 0] \<open>all_valid linked_scene 1\<close> linked_below
    by (auto simp: linked_scene_def numeral_eq_Suc)
qed

section \<open>Changes that nobody notices\<close>

text \<open>\<open>add\<close> leaves the stamps alone: a commit at a committed parent makes no call and does not reach the new
  child, which stays modified.\<close>

lemma added_child_unnoticed:
  assumes "p < length (sg_nodes s)" and "c < length (sg_nodes s)" and "p \<noteq> c"
    and "\<not> sg_modified (sgn s p)" and "sg_modified (sgn s c)"
  shows "\<exists>k. commit (Suc d) p (add_as p c name s) = ret (tick k (add_as p c name s)) \<and>
     c \<in> set (kids (tick k (add_as p c name s)) p) \<and> sg_modified (sgn (tick k (add_as p c name s)) c)"
proof -
  let ?s = "add_as p c name s"
  have "\<not> sg_modified (sgn ?s p)" "sg_modified (sgn ?s c)" using assms by (simp_all add: add_as_nth)
  then have "commit (Suc d) p ?s = ret (tick (2 + 1 + (if lastCommitted (sgn ?s p) < lastModified (sgn ?s p) then 2 else 4) + 1 +
      (if lastCommitted (sgn ?s p) < lastModified (sgn ?s p) then 2 else 4)) ?s)"
    by (simp add: commit_def traverse_root_def preTraverse_def postTraverse_def subtreeModifiedButNotCommitted_def
        ret_def tick_def)
  moreover have "c \<in> set (kids ?s p)"
    using add_edges(4) [OF assms(1-3)] put_child_kids [of name c "children (sgn s p)"] by simp
  ultimately show ?thesis using \<open>sg_modified (sgn ?s c)\<close> by (metis tick_simps(1,5))
qed

text \<open>\<open>remove\<close> finds a child whose name differs in case, but erases only the exact name: the child stays in
  the map without a parent.\<close>

lemma remove_other_case:
  assumes "p < length (sg_nodes s)" and "c < length (sg_nodes s)" and "c \<noteq> p"
    and "map_of (children (sgn s p)) name = None" and "find_child name (children (sgn s p)) = Some c"
  shows "\<exists>s'. remove p name s = Inr s' \<and> children (sgn s' p) = children (sgn s p) \<and> sg_parent (sgn s' c) = None"
proof -
  have "filter (\<lambda>(k, c). k \<noteq> name) cs = cs" if "map_of cs name = None" for cs :: "(string \<times> nat) list"
    using that by (force simp: map_of_eq_None_iff filter_id_conv)
  then show ?thesis using assms by (simp add: remove_def hasChild_def child_def upd_node_nth)
qed

text \<open>The setters do not mark the node: a verify at a valid parent does not look at a child whose range was
  changed since.\<close>

lemma range_change_unnoticed:
  assumes "p < length (sg_nodes s)" and "c < length (sg_nodes s)" and "c \<noteq> p"
    and "sg_valid (sgn s p)" and "childrenMTime (sgn s p) < lastVerified (sgn s p)" and "computeValid (sgn s p) = Inr b"
  shows "\<exists>s'. verify (Suc d) p (setMinMax lo hi c s) = ret s' \<and> sgn s' c = (sgn s c)\<lparr>minmax := [lo, hi]\<rparr>"
proof -
  let ?s = "setMinMax lo hi c s"
  have at: "sgn ?s p = sgn s p" "sgn ?s c = (sgn s c)\<lparr>minmax := [lo, hi]\<rparr>" "p < length (sg_nodes ?s)"
    using assms(1-3) by (simp_all add: setMinMax_def upd_node_nth)
  let ?f = "\<lambda>nd. nd\<lparr>sg_valid := b, lastVerified := stamp (tick 1 ?s)\<rparr>"
  let ?s1 = "upd_node p ?f (tick 1 (tick 1 ?s))"
  obtain v where "verify_post False p ?s1 = Inr (upd_node p (sg_valid_update (\<lambda>_. v)) ?s1)"
    by (simp add: verify_post_def Let_def)
  moreover have "verify_visit p ?s = Inr (False, ?s1)"
    using assms(4-6) by (simp add: verify_visit_def Let_def at)
  ultimately have "verify (Suc d) p ?s = ret (upd_node p (sg_valid_update (\<lambda>_. v)) ?s1)"
    by (simp add: verify_def VerifyNodes_simps ret_def)
  moreover have "sgn (upd_node p (sg_valid_update (\<lambda>_. v)) ?s1) c = sgn ?s c"
    using at(3) assms(3) by (simp add: upd_node_nth)
  ultimately show ?thesis using at(2) by auto
qed

text \<open>Two nodes of one name in a \<open>NodeList\<close>: both are items, only the second is a child.\<close>

lemma put_child_again: "put_child k b (put_child k a cs) = put_child k b cs"
  by (induction cs) auto

lemma same_name_items:
  assumes "n < length (sg_nodes s)" and "a < length (sg_nodes s)" and "b < length (sg_nodes s)"
    and "n \<noteq> a" and "n \<noteq> b" and "a \<noteq> b" and "a \<notin> set (kids s n)" and "sg_name (sgn s a) = sg_name (sgn s b)"
    and "list_node l = n" and "NodeList_push_back b (NodeList_push_back a (l, s)) = (l', s')"
  shows "list_items l' = list_items l @ [a, b] \<and> a \<notin> set (kids s' n) \<and> sg_parent (sgn s' a) = Some n"
  using assms put_child_kids [of "sg_name (sgn s b)" b "children (sgn s n)"]
  by (auto simp: NodeList_push_back_def add_def add_as_nth kids_def put_child_again simp del: set_map)

text \<open>The walk up the parents ends on every graph, also on one with a cycle of parents; the traversals
  do not.\<close>

lemma cyclic_traversal:
  assumes "kids s n = [n]" and "operation \<noteq> ''commit''"
  shows "traverse d operation n s = None"
  using assms(1)
proof (induction d arbitrary: s)
  case (Suc d)
  then show ?case using assms(2) by (simp add: preTraverse_def)
qed simp

end
