(* ===== verification/Spec2Isabelle.thy ===== *)
theory Spec2Isabelle
  imports MpiOffload ApiEntry FileNames AsyncLoop TaskJobs TaskQueue SyncUtils LocalFrame DynTasks FinalGather Maml Xml Arrays AmrTree BvhTree SceneSteps
begin

text \<open>
  A verification library for OSPRay, a ray tracing engine with a C API that renders on the
  local machine or on the processes of an MPI job.

  The program.  An application calls the functions of \<open>ospray/api/API.cpp\<close>.  They guard
  every call, and pass it to the current device: the local device (\<open>ospray/api/ISPCDevice.cpp\<close>)
  or the MPI offload device (\<open>modules/mpi/MPIOffloadDevice.cpp\<close>).  Objects (geometries,
  volumes, models, cameras, renderers, ...) are reference counted and carry named
  parameters.  The offload device turns each call into a work unit
  (\<open>modules/mpi/common/OSPWork\<close>), writes it into a buffered stream over a fabric (a socket
  or an MPI broadcast) and the workers read and run it; objects are named by handles there.  A
  frame is cut into tiles; a load balancer gives the tiles to threads or to processes, the
  frame buffer stores or accumulates them, and an estimate of the error of each tile decides
  which of them are rendered again.  The distributed frame buffer owns the tiles on
  different ranks, which exchange them through the message layer \<open>maml\<close>.  Below all this are the
  utilities of \<open>components/ospcommon\<close>: the tasking system, background loops, shared values,
  strings, file names and dynamic libraries.  Beside it stands the scene graph of the applications
  (\<open>apps/common/sg\<close>), whose nodes cache validity and modification times.

  The theories, from the bottom up, and the code they model:

  \<^item> Prelude: bytes and machine words, the errors a C++ operation can end with, the
    results built on them, generic lemmas.
  \<^item> Streams, Fabrics (\<open>ospcommon/networking\<close>, \<open>mpiCommon/MPIBcastFabric.cpp\<close>): the buffered
    streams over the locale \<open>fabric\<close>, and the two fabrics that interpret it.
  \<^item> Serialize, Works, WorkChannel (\<open>DataStreaming.h\<close>, \<open>OSPWork\<close>, \<open>OSPCommon.cpp\<close>,
    \<open>MPIOffloadDevice.cpp\<close>, \<open>MPIOffloadWorker.cpp\<close>): encoders and decoders of every work
    unit, the registry and its tags, the loop of the worker that reads a unit.
  \<^item> Params, OspTypes, Objects (\<open>utility/Any.h\<close>, \<open>ParameterizedObject\<close>, \<open>OSPDataType\<close>,
    \<open>RefCount.h\<close>, \<open>Managed.cpp\<close>): parameters, data types, the heap of objects.
  \<^item> LocalDevice, LocalRefs (\<open>ISPCDevice.cpp\<close>): the operations of the local device on the
    heap, and the accounting of references for sequences of calls.
  \<^item> Handles, WorkRun, WorkEffects, MpiOffload (\<open>ObjectHandle.cpp\<close>, \<open>OSPWork.cpp\<close>,
    \<open>MPIOffloadDevice.cpp\<close>): the table of handles, what each work unit does on a worker and on
    the master, and the calls of the master.
  \<^item> CommandLine, Libraries, ApiDevice, DeviceStart, ApiInit, ApiEntry (\<open>API.cpp\<close>, \<open>Device.cpp\<close>,
    \<open>OSPCommon.cpp\<close>, \<open>library.cpp\<close>, the commits of \<open>ISPCDevice.cpp\<close>, \<open>MPIOffloadDevice.cpp\<close> and
    \<open>MPIDistributedDevice.cpp\<close>): start-up, settings, modules and the guards of the API.
  \<^item> StringUtils, FileNames (\<open>StringManip.h\<close>, \<open>PseudoURL.cpp\<close>, \<open>FileName.cpp\<close>).
  \<^item> AsyncLoop, TaskJobs, TaskQueue, SyncUtils (\<open>AsyncLoop.h\<close>, \<open>TaskSys.cpp\<close>,
    \<open>TransactionalBuffer.h\<close>, \<open>Optional.h\<close>, \<open>Observer.h\<close>, ...): concurrency, as step relations of
    atomic reads and writes.
  \<^item> Tiles, TileErrors, LocalFrame (\<open>ospray/fb\<close>, \<open>ospray/render/LoadBalancer.cpp\<close>): the tiles of a
    frame, the estimate of errors and its regions, the local frame buffer and the tasks of a
    frame in any interleaving.
  \<^item> TileTypes, DistFrame (\<open>modules/mpi/fb\<close>): what the owner of a tile does with its parts,
    behind the locale \<open>dfb_tile\<close> with three interpretations, and one rank of the
    distributed frame buffer.
  \<^item> StaticBalance, DynBalance, DynTasks (\<open>modules/mpi/render/MPILoadBalancer.cpp\<close>): the two load
    balancers of the offload device, on top of the frame buffer.
  \<^item> TileMessages, FinalGather (\<open>modules/mpi/fb/DistributedFrameBuffer_TileMessages.cpp\<close>,
    \<open>DistributedFrameBuffer.cpp\<close>): the messages that carry parts and final tiles, and how the master
    collects the final tiles and errors of all ranks at the end of a frame.
  \<^item> Xml (\<open>ospcommon/xml\<close>): the recursive descent parser of XML files and the writer.
  \<^item> Arrays (\<open>ospcommon/array3D\<close>, \<open>multidim_index_sequence.h\<close>): linear indices, the orders in which
    locations are visited, and the classes of arrays with the locale \<open>value_source\<close>.
  \<^item> AmrTree (\<open>ospray/volume/amr\<close>): the bricks of AMR volumes and the tree over them.
  \<^item> BvhTree (\<open>ospray/volume/unstructured\<close>): the cells of unstructured volumes and the hierarchy of their boxes.
  \<^item> SceneGraph, SceneTraverse, SceneCommit, SceneVerify, SceneSteps (\<open>apps/common/sg/common/Node.cpp\<close>,
    \<open>NodeParameter.h\<close>, \<open>NodeList.h\<close>, \<open>sg/visitor\<close>): the nodes, the traversals and visitors, the invariants of
    the graph, and the steps that build one.
  \<^item> Maml (\<open>components/mpiMessageLayer/maml\<close>, \<open>modules/mpi/common/Messaging.cpp\<close>): the message
    layer of a process.

  State is a record with the fields of the code's classes, an operation is a function to a
  new state, and an operation that can fail returns a sum whose left side is the error
  (\<open>'a res\<close>; \<open>'a outcome\<close> adds \<open>None\<close> for a call that does not return).  Code that is undefined in
  C++ (an index out of range, a null pointer, a use after free) is the error
  \<open>Undefined_behaviour\<close>, so a theorem that no call fails also excludes it.  Threads and processes
  are inductive step relations over explicit states; a theorem about a run quantifies over all
  of them.

  What the lemmas show.  Streams to WorkChannel and this theory: whatever the sizes of the
  buffers and the flushes, the units that the master sends arrive unchanged.  Objects to
  LocalRefs: no call of a well-behaved application touches a dead object and every count is
  the number of references, with the exceptions the code has.  WorkEffects: a handle is
  defined on a worker exactly when the master's calls say so.  The theories of the API: every call
  returns, and errors reach the error callback.  AsyncLoop to SyncUtils: jobs run once, a
  completed task is complete, a stopped loop does not run, and where the code can hang.  Tiles to
  DynTasks: tiles partition the frame, no interleaving loses or repeats a tile, and the frame
  of a worker is done with the last part of its tiles under both load balancers.  FinalGather: the
  master then shows exactly the tiles that their owners have completed.  Maml: every message is
  handed over once.  TileTypes: the parts of a tile are
  added once, and blended in the order in which the code sorts them.  Params: reading a parameter never throws and
  gives the value set last if it has the type that was asked for.  Xml: printed
  documents are read back, the parser ends on every file, without undefined behaviour if the file is free of quotes,
  vertical tabs and form feeds, and the output of the writer is read back as long as nothing is nested and nothing has to be
  escaped.  Arrays: the enumerations of locations agree, and arrays built from others hold the values of
  their parts, mirrored where a repeater is larger than its input.  AmrTree: the tree gives for every position the bricks that contain it.
  BvhTree: the traversal for a position tests every cell that is around it, as long as the
  number of cells fits the \<open>int\<close> that holds it.  SceneCommit to SceneSteps: a commit makes the calls of exactly the
  modified nodes, and a verify computes the validity of its specification although it skips subtrees.

  Bounds and termination.  All recursions terminate by their arguments or by a proved
  measure; loops that may not end return \<open>None\<close>, or are step relations with a proved bound on the
  length of a run (\<open>work_left\<close> in DynBalance, the measures of TaskJobs).  The fuel is that of the
  parser in Xml, where each call moves forward, so twice the length of the buffer is proved to be enough, and the
  answers of the environment: a socket or MPI answers once per call, and the theorems hold for every
  sequence of answers.

  Idealisations.  Floating point numbers are values of a type with arbitrary operations
  (\<open>arith\<close> in TileErrors); ISPC kernels, the pixels a renderer computes, the compression, the sort of the
  standard library and MPI are arguments, with the documented behaviour they need as hypotheses.
  Sizes are words or wrapped integers where the code can wrap, and integers or naturals where a constructor
  has checked them (LocalFrame: the products of sizes of the local frame buffer).  Not checked anywhere in the code, and
  unbounded here, are the numbers of tiles in Tiles and TileErrors (\<open>getTotalTiles\<close>, \<open>tiles * 2\<close>) and the
  counters of TaskJobs: those lemmas are about frames of fewer than \<open>2 ^ 30\<close> tiles and tasks of fewer than
  \<open>2 ^ 31\<close> jobs.  Addresses are never reused and reference counts do not wrap.  Memory does not run
  out.  A mutex makes its critical section one step, and so are \<open>scheduleTile\<close>, which the code calls from
  two threads, and \<open>process\<close> of a tile.  Steps that read or write one shared
  variable are atomic.  The answers of the master to one worker
  arrive in order in DynBalance (the theory shows what happens otherwise).  Nodes of the scene graph and tasks are never
  freed.  Commits and renderings of objects are recorded, not executed.  What the commit of a device asks from Embree,
  MPI and the machine is the argument \<open>services\<close> of DeviceStart.

  Not modelled: the renderers, cameras, geometries, the volumes besides the trees of
  AMR and unstructured volumes, lights, textures and pixel operations
  (set-up of ISPC kernels in floating point), the progress messages of a frame, timings and logging, the MPI distributed device except for
  its commit, the subclasses of the nodes of the scene graph and the applications,
  the loading of raw files, tests, and vendored code.  The manifest lists
  every part with the reason.
\<close>

section \<open>The offload channel\<close>

definition position_hash :: "work_type \<Rightarrow> u64" where
  "position_hash t = word_of_nat (length (takeWhile (\<lambda>x. x \<noteq> t) registered_types))"

lemma position_hash_inj: "inj_on position_hash (set registered_types)"
proof -
  have "distinct (map position_hash registered_types)"
    by (simp add: registered_types_def position_hash_def)
  then show ?thesis by (simp add: distinct_map)
qed

lemma shifted_hash_inj: "inj_on (\<lambda>t. position_hash t + 77) (set registered_types)"
  using position_hash_inj by (auto simp: inj_on_def)

text \<open>C1 Work units arrive.  The master's device and a worker register the work
  items in fresh processes whose type hash codes are injective (and need not be
  the same).  Whatever units the device sends, in however many batches ended by a
  flush, with whatever flushes in between and whatever the size of the write
  buffer (at least 1 and below 2 ^ 30 bytes), the worker's \<open>readWork\<close> over the
  broadcast fabric returns every unit, in order, with every field that is sent.\<close>

theorem work_units_arrive:
  assumes "inj_on mhash (set registered_types)" and "inj_on whash (set registered_types)"
    and "0 < n" and "n < 2 ^ 30"
    and "\<forall>b\<in>set batches. \<forall>u\<in>set b. sizes_fit (fst u)"
  shows "offload_session (mpi_send nd) mpi_read mhash whash n [] batches =
     ret (map (map (wire_image \<circ> fst)) batches)"
  using assms by (intro mpi.session_ok) (auto simp: mpi_sendable_def)

theorem work_units_arrive_witness:
  "offload_session (mpi_send True) mpi_read position_hash (\<lambda>t. position_hash t + 77) 16 []
     [[(NewObjectT K_Volume ''shared'' 3, False),
       (SetParam 3 ''dim'' (P_vec3i (7, 8, 9)), True)],
      [(RenderFrame 5 6 1 42, True)]] =
   ret [[NewObjectT K_Volume ''shared'' 3, SetParam 3 ''dim'' (P_vec3i (7, 8, 9))],
        [RenderFrame 5 6 1 0]]"
  using work_units_arrive [OF position_hash_inj shifted_hash_inj, of 16
      "[[(NewObjectT K_Volume ''shared'' 3, False), (SetParam 3 ''dim'' (P_vec3i (7, 8, 9)), True)],
        [(RenderFrame 5 6 1 42, True)]]" True]
  by simp

text \<open>C10 Bytes written in any chunks through a buffered stream over a socket and
  read back in any chunks are the same bytes in the same order, however the
  operating systems of the two hosts split the transfers.\<close>

theorem socket_stream_round_trip:
  assumes "env_ok te" and "env_ok re" and "0 < n" and "sum_list ks \<le> length (concat chunks)"
  shows "\<exists>w l bufs r.
     bind_out (bws_writes socket_fabric_send chunks (BufferedWriteStream n) (socket_connection te re))
       (\<lambda>(w, l). bws_flush socket_fabric_send w l) = ret (w, l) \<and>
     read_list (brs_read socket_fabric_read) ks (BufferedReadStream l) = ret (bufs, r) \<and>
     concat bufs = take (sum_list ks) (concat chunks) \<and> map length bufs = ks"
  by (rule sock.stream_round_trip)
     (use assms in \<open>auto simp: socket_connection_def socket_ready_def socket_inv_def
       buffered_socket_def socket_pending_def\<close>)

theorem socket_stream_round_trip_witness:
  "\<exists>w l bufs r.
     bind_out (bws_writes socket_fabric_send [[1, 2, 3], [], [4, 5]] (BufferedWriteStream 2)
         (socket_connection (sconst (Xfer 1)) (sconst (Xfer 3))))
       (\<lambda>(w, l). bws_flush socket_fabric_send w l) = ret (w, l) \<and>
     read_list (brs_read socket_fabric_read) [1, 3] (BufferedReadStream l) = ret (bufs, r) \<and>
     concat bufs = [1, 2, 3, 4] \<and> map length bufs = [1, 3]"
  using socket_stream_round_trip [of "sconst (Xfer 1)" "sconst (Xfer 3)" 2 "[1, 3]" "[[1, 2, 3], [], [4, 5]]"]
  by (simp add: env_ok_def eval_nat_numeral)

end
